(* ===== verification/Kernel_Prelude.thy ===== *)
theory Kernel_Prelude
  imports Main "HOL-Library.Word"
begin

text \<open>
  Shared vocabulary of the development: the fixed-width integer types of the C sources,
  byte-addressed memory with 64-bit little-endian loads and stores, the closed forms that
  the byte-copy loops are compared with, and generic facts about words and memory.
  The collections \<open>mem_simps\<close> and \<open>word_conv\<close> carry the read-over-write rules and the
  conversions from words to natural numbers that the component proofs share.
\<close>

unbundle bit_operations_syntax

named_theorems mem_simps \<open>read-over-write rules of byte memory\<close>
named_theorems word_conv \<open>conversions from words to natural numbers\<close>

section \<open>Integer types\<close>

type_synonym u8 = "8 word"
type_synonym u16 = "16 word"
type_synonym u32 = "32 word"
type_synonym u64 = "64 word"

text \<open>Memory: every address of the 64-bit space holds a byte.\<close>

type_synonym mem = "u64 \<Rightarrow> u8"

text \<open>The page size, and the NULL pointer of the C code.\<close>

abbreviation (input) PAGE_SIZE :: nat where
  "PAGE_SIZE \<equiv> 4096"

abbreviation (input) NULL :: u64 where
  "NULL \<equiv> 0"

section \<open>Words and natural numbers\<close>

lemma unat_of_nat_64 [word_conv]: "k < 2 ^ 64 \<Longrightarrow> unat (of_nat k :: u64) = k"
  by (simp add: unat_of_nat)

lemma unat_lt_64 [simp]: "unat (x :: u64) < 2 ^ 64"
  using unsigned_less [of x] by simp

lemma of_nat_inj_64: "j < 2 ^ 64 \<Longrightarrow> k < 2 ^ 64 \<Longrightarrow> (of_nat j :: u64) = of_nat k \<longleftrightarrow> j = k"
  by (metis unat_of_nat_64)

lemma unat_diff_of_nat:
  assumes "k < 2 ^ 64"
  shows "unat (x - of_nat k :: u64) = (if k \<le> unat x then unat x - k else unat x + 2 ^ 64 - k)"
  using assms by (auto simp: unat_sub_if_size word_size unat_of_nat_64)

lemma unat_add_of_nat:
  assumes "unat x + k < 2 ^ 64"
  shows "unat (x + of_nat k :: u64) = unat x + k"
proof -
  have "k < 2 ^ 64" using assms by simp
  then show ?thesis using assms by (simp add: unat_word_ariths unat_of_nat_64)
qed

lemma uint_less_of_unat: "unat (x :: u64) < n \<Longrightarrow> uint x < int n"
  unfolding unat_eq_nat_uint using nat_less_iff [of "uint x" n] by simp

text \<open>
  Addresses that are reached from a common base without wrapping are compared through their
  offsets.
\<close>

lemma unat_offset_diff:
  assumes "j < 2 ^ 64" and "k < 2 ^ 64"
  shows "unat ((b + of_nat j) - (b + of_nat k) :: u64) = (if k \<le> j then j - k else j + 2 ^ 64 - k)"
proof -
  have "(b + of_nat j) - (b + of_nat k) = (of_nat j - of_nat k :: u64)" by simp
  then show ?thesis
    using unat_diff_of_nat [OF assms(2), of "of_nat j"] assms(1) by (simp only: unat_of_nat_64)
qed

section \<open>Byte memory\<close>

text \<open>A 64-bit little-endian access, the one the kernel's page tables and copy loops use.\<close>

definition load64 :: "mem \<Rightarrow> u64 \<Rightarrow> u64" where
  "load64 m a =
     ucast (m a) OR push_bit 8 (ucast (m (a + 1))) OR push_bit 16 (ucast (m (a + 2))) OR
     push_bit 24 (ucast (m (a + 3))) OR push_bit 32 (ucast (m (a + 4))) OR
     push_bit 40 (ucast (m (a + 5))) OR push_bit 48 (ucast (m (a + 6))) OR
     push_bit 56 (ucast (m (a + 7)))"

definition store64 :: "mem \<Rightarrow> u64 \<Rightarrow> u64 \<Rightarrow> mem" where
  "store64 m a v = m(a := ucast v, a + 1 := ucast (drop_bit 8 v), a + 2 := ucast (drop_bit 16 v),
     a + 3 := ucast (drop_bit 24 v), a + 4 := ucast (drop_bit 32 v),
     a + 5 := ucast (drop_bit 40 v), a + 6 := ucast (drop_bit 48 v),
     a + 7 := ucast (drop_bit 56 v))"

text \<open>The 16-bit and 32-bit loads.\<close>

definition load16 :: "mem \<Rightarrow> u64 \<Rightarrow> u16" where
  "load16 m a = ucast (m a) OR push_bit 8 (ucast (m (a + 1)))"

definition load32 :: "mem \<Rightarrow> u64 \<Rightarrow> u32" where
  "load32 m a = ucast (m a) OR push_bit 8 (ucast (m (a + 1))) OR push_bit 16 (ucast (m (a + 2))) OR
     push_bit 24 (ucast (m (a + 3)))"

text \<open>A constant run of bytes, and a run copied from elsewhere.\<close>

definition fill :: "mem \<Rightarrow> u64 \<Rightarrow> u8 \<Rightarrow> nat \<Rightarrow> mem" where
  "fill m d c n = (\<lambda>a. if unat (a - d) < n then c else m a)"

definition copy :: "mem \<Rightarrow> u64 \<Rightarrow> u64 \<Rightarrow> nat \<Rightarrow> mem" where
  "copy m d s n = (\<lambda>a. if unat (a - d) < n then m (s + (a - d)) else m a)"

text \<open>The byte ranges \<open>[a, a + k)\<close> and \<open>[b, b + l)\<close> do not meet (modulo \<open>2 ^ 64\<close>).\<close>

definition apart :: "u64 \<Rightarrow> nat \<Rightarrow> u64 \<Rightarrow> nat \<Rightarrow> bool" where
  "apart a k b l \<longleftrightarrow> (\<forall>x. \<not> (unat (x - a) < k \<and> unat (x - b) < l))"

lemma apart_sym: "apart a k b l \<longleftrightarrow> apart b l a k"
  by (auto simp: apart_def)

lemma take_bit_next_byte:
  "take_bit n v OR push_bit n (take_bit 8 (drop_bit n v)) = take_bit (n + 8) (v :: u64)"
  by (rule bit_eqI) (auto simp: bit_simps)

lemma ucast_ucast_byte: "(ucast (ucast v :: u8) :: u64) = take_bit 8 v"
  by (rule bit_word_eqI) (auto simp: bit_simps)

lemma store64_at:
  "store64 m a v a = ucast v" "store64 m a v (a + 1) = ucast (drop_bit 8 v)"
  "store64 m a v (a + 2) = ucast (drop_bit 16 v)" "store64 m a v (a + 3) = ucast (drop_bit 24 v)"
  "store64 m a v (a + 4) = ucast (drop_bit 32 v)" "store64 m a v (a + 5) = ucast (drop_bit 40 v)"
  "store64 m a v (a + 6) = ucast (drop_bit 48 v)" "store64 m a v (a + 7) = ucast (drop_bit 56 v)"
  by (simp_all add: store64_def)

lemma load64_store64_same [mem_simps, simp]: "load64 (store64 m a v) a = v"
proof -
  have "take_bit 64 v = v" by (simp add: take_bit_word_eq_self)
  then show ?thesis
    unfolding load64_def store64_at ucast_ucast_byte
    using take_bit_next_byte [of 8 v] take_bit_next_byte [of 16 v] take_bit_next_byte [of 24 v]
      take_bit_next_byte [of 32 v] take_bit_next_byte [of 40 v] take_bit_next_byte [of 48 v]
      take_bit_next_byte [of 56 v]
    by (simp flip: or.assoc)
qed

lemma store64_outside [mem_simps]: "8 \<le> unat (x - a) \<Longrightarrow> store64 m a v x = m x"
  by (auto simp: store64_def)

lemma load64_cong: "(\<And>x. unat (x - a) < 8 \<Longrightarrow> m x = m' x) \<Longrightarrow> load64 m a = load64 m' a"
  by (simp add: load64_def)

lemma load64_store64_other:
  assumes "apart a 8 b 8"
  shows "load64 (store64 m b v) a = load64 m a"
proof (rule load64_cong, rule store64_outside)
  fix x
  assume "unat (x - a) < 8"
  then have "\<not> unat (x - b) < 8" using assms unfolding apart_def by blast
  then show "8 \<le> unat (x - b)" by simp
qed

lemma load64_fill_other:
  assumes "apart a 8 d n"
  shows "load64 (fill m d c n) a = load64 m a"
proof (rule load64_cong)
  fix x
  assume "unat (x - a) < 8"
  then have "\<not> unat (x - d) < n" using assms unfolding apart_def by blast
  then show "fill m d c n x = m x" by (simp add: fill_def)
qed

lemma load64_fill_zero:
  assumes "\<And>x. unat (x - a) < 8 \<Longrightarrow> unat (x - d) < n"
  shows "load64 (fill m d 0 n) a = 0"
proof -
  have "load64 (fill m d 0 n) a = load64 (\<lambda>_. 0) a"
    using assms by (intro load64_cong) (auto simp: fill_def)
  then show ?thesis by (simp add: load64_def)
qed

lemma unat_lt_8_cases:
  assumes "unat (x :: u64) < 8"
  shows "x \<in> {0, 1, 2, 3, 4, 5, 6, 7}"
proof -
  have "unat x \<in> {0, 1, 2, 3, 4, 5, 6, 7}" using assms by auto
  then have "of_nat (unat x) \<in> {0, 1, 2, 3, 4, 5, 6, 7 :: u64}" by (elim insertE) auto
  then show ?thesis by simp
qed

lemma store64_eqI:
  assumes "\<And>k. k \<in> {0, 1, 2, 3, 4, 5, 6, 7} \<Longrightarrow> store64 m a v (a + k) = f (a + k)"
    and "\<And>x. 8 \<le> unat (x - a) \<Longrightarrow> m x = f x"
  shows "store64 m a v = f"
proof (rule ext)
  fix x
  show "store64 m a v x = f x"
  proof (cases "unat (x - a) < 8")
    case True
    then have "x - a \<in> {0, 1, 2, 3, 4, 5, 6, 7}" by (rule unat_lt_8_cases)
    from assms(1) [OF this] show ?thesis by simp
  next
    case False
    then show ?thesis using assms(2) [of x] by (simp add: store64_outside)
  qed
qed

text \<open>The bytes of a loaded word are the bytes it was loaded from.\<close>

lemma load64_bytes:
  "(ucast (load64 m a) :: u8) = m a" "(ucast (drop_bit 8 (load64 m a)) :: u8) = m (a + 1)"
  "(ucast (drop_bit 16 (load64 m a)) :: u8) = m (a + 2)"
  "(ucast (drop_bit 24 (load64 m a)) :: u8) = m (a + 3)"
  "(ucast (drop_bit 32 (load64 m a)) :: u8) = m (a + 4)"
  "(ucast (drop_bit 40 (load64 m a)) :: u8) = m (a + 5)"
  "(ucast (drop_bit 48 (load64 m a)) :: u8) = m (a + 6)"
  "(ucast (drop_bit 56 (load64 m a)) :: u8) = m (a + 7)"
  by (rule bit_word_eqI; auto simp: load64_def bit_simps dest: bit_imp_le_length)+

lemma store64_load64:
  assumes "k \<in> {0, 1, 2, 3, 4, 5, 6, 7}"
  shows "store64 m d (load64 m' s) (d + k) = m' (s + k)"
  using assms by (elim insertE) (simp_all add: store64_at load64_bytes)

lemma store64_load64_copy: "store64 m d (load64 m s) = copy m d s 8"
  by (rule store64_eqI) (auto simp: store64_load64 copy_def)

lemma store64_load64_fill: "store64 m d (load64 (\<lambda>_. c) s) = fill m d c 8"
  by (rule store64_eqI) (auto simp: store64_load64 fill_def)

text \<open>Consecutive runs join.\<close>

lemma fill_zero [simp]: "fill m d c 0 = m"
  by (simp add: fill_def)

lemma fill_fill:
  assumes "k + n \<le> 2 ^ 64" and "k < 2 ^ 64"
  shows "fill (fill m d c k) (d + of_nat k) c n = fill m d c (k + n)"
proof (rule ext)
  fix x
  have "unat (x - (d + of_nat k)) =
      (if k \<le> unat (x - d) then unat (x - d) - k else unat (x - d) + 2 ^ 64 - k)"
    using unat_diff_of_nat [OF assms(2), of "x - d"] by (simp only: diff_diff_eq)
  then show "fill (fill m d c k) (d + of_nat k) c n x = fill m d c (k + n) x"
    using assms by (auto simp: fill_def)
qed

lemma copy_zero [simp]: "copy m d s 0 = m"
  by (simp add: copy_def)

lemma copy_copy:
  assumes "k + n \<le> 2 ^ 64" and "k < 2 ^ 64" and "apart d (k + n) s (k + n)"
  shows "copy (copy m d s k) (d + of_nat k) (s + of_nat k) n = copy m d s (k + n)"
proof (rule ext)
  fix x
  have eq: "unat (x - (d + of_nat k)) =
      (if k \<le> unat (x - d) then unat (x - d) - k else unat (x - d) + 2 ^ 64 - k)"
    using unat_diff_of_nat [OF assms(2), of "x - d"] by (simp only: diff_diff_eq)
  have "\<not> unat (s + (x - d) - d) < k" if "unat (x - d) < k + n"
    using assms(3) that unfolding apart_def
    by (metis add_diff_cancel_left' trans_less_add1)
  then show "copy (copy m d s k) (d + of_nat k) (s + of_nat k) n x = copy m d s (k + n) x"
    using assms(1) eq by (auto simp: copy_def algebra_simps)
qed

lemma apart_mono: "apart a k b l \<Longrightarrow> k' \<le> k \<Longrightarrow> l' \<le> l \<Longrightarrow> apart a k' b l'"
  unfolding apart_def by (meson less_le_trans)

section \<open>Registers of 64 bits that hold values of 32\<close>

lemma low_half: "(ucast (scast (h :: u32) :: u64) :: u32) = h"
  by (rule bit_word_eqI) (simp add: bit_unsigned_iff bit_signed_iff)

lemma low_half_unsigned: "(ucast (ucast (h :: u32) :: u64) :: u32) = h"
  by (rule bit_word_eqI) (simp add: bit_unsigned_iff)

lemma low_half_int: "(ucast (word_of_int i :: u64) :: u32) = word_of_int i"
  by (rule bit_word_eqI) (simp add: bit_unsigned_iff bit_word_of_int_iff)

lemma low_half_nat: "(ucast (of_nat n :: u64) :: u32) = of_nat n"
  using low_half_int [of "int n"] by simp

lemmas low_halves = low_half low_half_unsigned low_half_int low_half_nat

end
