(* ===== verification/Fifo.thy ===== *)
theory Fifo
  imports Kernel_Prelude
begin

text \<open>
  The contract of a bounded first-in first-out buffer, and the arithmetic of the array-backed
  ring that both buffers of the system are built on: the kernel's ring of input events
  (\<^verbatim>\<open>src/ring.c\<close>) and the firmware's UART buffer (\<^verbatim>\<open>sbi/src/uart.c\<close>). The two locales that
  extend the contract say what happens on a full buffer: the newcomer is dropped, or the oldest
  element is overwritten.
\<close>

section \<open>The contract\<close>

text \<open>Popping \<open>n\<close> times.\<close>

primrec pops :: "('q \<Rightarrow> 'q \<times> 'a) \<Rightarrow> nat \<Rightarrow> 'q \<Rightarrow> 'q \<times> 'a list" where
  "pops pop 0 q = (q, [])"
| "pops pop (Suc n) q = (let (q1, x) = pop q; (q2, xs) = pops pop n q1 in (q2, x # xs))"

locale bounded_fifo =
  fixes push :: "'q \<Rightarrow> 'a \<Rightarrow> 'q" and pop :: "'q \<Rightarrow> 'q \<times> 'a"
    and contents :: "'q \<Rightarrow> 'a list" and inv :: "'q \<Rightarrow> bool" and cap :: "'q \<Rightarrow> nat" and none :: 'a
  assumes push_inv: "inv q \<Longrightarrow> inv (push q x)"
    and pop_inv: "inv q \<Longrightarrow> inv (fst (pop q))"
    and bound: "inv q \<Longrightarrow> length (contents q) \<le> cap q"
    and push_cap: "inv q \<Longrightarrow> cap (push q x) = cap q"
    and pop_cap: "inv q \<Longrightarrow> cap (fst (pop q)) = cap q"
    and push_room: "inv q \<Longrightarrow> length (contents q) < cap q \<Longrightarrow> contents (push q x) = contents q @ [x]"
    and pop_first: "inv q \<Longrightarrow> contents q = x # xs \<Longrightarrow> snd (pop q) = x \<and> contents (fst (pop q)) = xs"
    and pop_empty: "inv q \<Longrightarrow> contents q = [] \<Longrightarrow> snd (pop q) = none \<and> contents (fst (pop q)) = []"
begin

lemma push_all:
  "inv q \<Longrightarrow> length (contents q) + length xs \<le> cap q \<Longrightarrow>
   inv (fold (\<lambda>x q. push q x) xs q) \<and> cap (fold (\<lambda>x q. push q x) xs q) = cap q \<and>
   contents (fold (\<lambda>x q. push q x) xs q) = contents q @ xs"
proof (induction xs arbitrary: q)
  case (Cons x xs)
  have room: "length (contents q) < cap q" using Cons.prems(2) by simp
  show ?case
    using Cons.IH [of "push q x"] Cons.prems push_inv push_cap push_room [OF Cons.prems(1) room]
    by simp
qed simp

lemma pops_contents:
  "inv q \<Longrightarrow> n \<le> length (contents q) \<Longrightarrow>
   snd (pops pop n q) = take n (contents q) \<and> contents (fst (pops pop n q)) = drop n (contents q)"
proof (induction n arbitrary: q)
  case (Suc n)
  then obtain x xs where c: "contents q = x # xs" by (cases "contents q") auto
  note p = pop_first [OF Suc.prems(1) c]
  show ?case
    using Suc.IH [of "fst (pop q)"] pop_inv [OF Suc.prems(1)] p Suc.prems(2) c
    by (simp add: Let_def case_prod_beta)
qed simp

text \<open>What is pushed comes out in the same order, after what was there before.\<close>

lemma push_pop_order:
  assumes "inv q" and "length (contents q) + length xs \<le> cap q"
  shows "snd (pops pop (length (contents q) + length xs) (fold (\<lambda>x q. push q x) xs q)) = contents q @ xs"
  using push_all [OF assms] pops_contents [of "fold (\<lambda>x q. push q x) xs q"] by simp

end

locale dropping_fifo = bounded_fifo +
  assumes push_full: "inv q \<Longrightarrow> length (contents q) = cap q \<Longrightarrow> contents (push q x) = contents q"
begin

text \<open>However much is pushed, the buffer holds the first elements that fit.\<close>

lemma push_many:
  "inv q \<Longrightarrow> contents (fold (\<lambda>x q. push q x) xs q) = take (cap q) (contents q @ xs)"
proof (induction xs arbitrary: q)
  case Nil
  then show ?case using bound by simp
next
  case (Cons x xs)
  show ?case
  proof (cases "length (contents q) < cap q")
    case True
    then show ?thesis
      using Cons push_inv push_cap push_room [OF Cons.prems True, of x] by (simp del: take_append)
  next
    case False
    then have "length (contents q) = cap q" using bound [OF Cons.prems] by simp
    then show ?thesis
      using Cons push_inv push_cap push_full [OF Cons.prems] by simp
  qed
qed

end

locale overwriting_fifo = bounded_fifo +
  assumes push_full: "inv q \<Longrightarrow> length (contents q) = cap q \<Longrightarrow> contents (push q x) = tl (contents q) @ [x]"
    and cap_pos: "inv q \<Longrightarrow> 0 < cap q"
begin

text \<open>However much is pushed, the buffer holds the most recent elements.\<close>

lemma push_many:
  "inv q \<Longrightarrow> contents (fold (\<lambda>x q. push q x) xs q) =
     drop (length (contents q) + length xs - cap q) (contents q @ xs)"
proof (induction xs arbitrary: q)
  case Nil
  then show ?case using bound by simp
next
  case (Cons x xs)
  show ?case
  proof (cases "length (contents q) < cap q")
    case True
    then show ?thesis
      using Cons push_inv push_cap push_room [OF Cons.prems True, of x] by (simp del: drop_append)
  next
    case False
    then have len: "length (contents q) = cap q" using bound [OF Cons.prems] by simp
    then obtain y ys where c: "contents q = y # ys"
      using cap_pos [OF Cons.prems] by (cases "contents q") auto
    then have "cap q = Suc (length ys)" using len by simp
    then show ?thesis
      using Cons.IH [of "push q x"] Cons.prems push_inv push_cap push_full [OF Cons.prems len, of x] c
      by simp
  qed
qed

end

section \<open>Array-backed rings\<close>

definition ring_contents :: "'a list \<Rightarrow> nat \<Rightarrow> nat \<Rightarrow> 'a list" where
  "ring_contents es st oc = map (\<lambda>i. es ! ((st + i) mod length es)) [0..<oc]"

lemma ring_contents_simps [simp]:
  "length (ring_contents es st oc) = oc" "ring_contents es st 0 = []"
  by (simp_all add: ring_contents_def)

lemma ring_index_inj:
  assumes "st < (n :: nat)" and "i < n" and "j < n" and "(st + i) mod n = (st + j) mod n"
  shows "i = j"
proof -
  have "(st + i) mod n = (if st + i < n then st + i else st + i - n)"
    "(st + j) mod n = (if st + j < n then st + j else st + j - n)"
    using assms(1-3) by (auto simp: mod_if)
  then show ?thesis using assms by (auto split: if_splits)
qed

lemma ring_push:
  assumes "st < length es" and "oc < length es"
  shows "ring_contents (es[(st + oc) mod length es := x]) st (Suc oc) = ring_contents es st oc @ [x]"
proof (rule nth_equalityI)
  fix i
  assume "i < length (ring_contents (es[(st + oc) mod length es := x]) st (Suc oc))"
  then have i: "i < Suc oc" by simp
  have pos: "0 < length es" using assms(1) by linarith
  show "ring_contents (es[(st + oc) mod length es := x]) st (Suc oc) ! i = (ring_contents es st oc @ [x]) ! i"
  proof (cases "i = oc")
    case True
    then show ?thesis using pos by (simp add: ring_contents_def nth_append del: upt_Suc)
  next
    case False
    then have "(st + i) mod length es \<noteq> (st + oc) mod length es"
      using ring_index_inj [of st "length es" i oc] assms i by auto
    then show ?thesis using False i by (simp add: ring_contents_def nth_append del: upt_Suc)
  qed
qed simp

lemma ring_pop:
  assumes "st < length es" and "0 < oc"
  shows "ring_contents es st oc = es ! st # ring_contents es ((st + 1) mod length es) (oc - 1)"
proof -
  obtain k where k: "oc = Suc k" using assms(2) by (cases oc) auto
  have "[0..<Suc k] = 0 # map Suc [0..<k]" by (simp add: map_Suc_upt upt_conv_Cons del: upt_Suc)
  moreover have "((st + 1) mod length es + i) mod length es = (st + Suc i) mod length es" for i
    by (simp add: mod_add_left_eq)
  ultimately show ?thesis using assms(1) k by (simp add: ring_contents_def o_def del: upt_Suc)
qed

lemma ring_overwrite:
  assumes "st < length es"
  shows "ring_contents (es[(st + length es) mod length es := x]) ((st + 1) mod length es) (length es) =
    tl (ring_contents es st (length es)) @ [x]"
proof -
  let ?n = "length es" and ?es = "es[st := x]"
  obtain k where k: "?n = Suc k" using assms by (cases ?n) auto
  have r: "ring_contents ?es st ?n = x # ring_contents ?es ((st + 1) mod ?n) k"
    using ring_pop [of st ?es ?n] assms k by simp
  have "ring_contents ?es ((st + 1) mod ?n) k = ring_contents es ((st + 1) mod ?n) k"
  proof (rule nth_equalityI)
    fix i
    assume "i < length (ring_contents ?es ((st + 1) mod ?n) k)"
    then have i: "i < k" by simp
    have "((st + 1) mod ?n + i) mod ?n = (st + Suc i) mod ?n" by (simp add: mod_add_left_eq)
    moreover have "(st + Suc i) mod ?n \<noteq> (st + 0) mod ?n"
      using ring_index_inj [of st ?n "Suc i" 0] assms i k by auto
    ultimately show "ring_contents ?es ((st + 1) mod ?n) k ! i = ring_contents es ((st + 1) mod ?n) k ! i"
      using i assms by (simp add: ring_contents_def)
  qed simp
  moreover have "ring_contents es st ?n = es ! st # ring_contents es ((st + 1) mod ?n) k"
    using ring_pop [of st es ?n] assms k by simp
  moreover have "((st + 1) mod ?n + k) mod ?n = st"
  proof -
    have "((st + 1) mod ?n + k) mod ?n = (st + ?n) mod ?n"
      using k by (simp add: mod_add_left_eq)
    then show ?thesis using assms by simp
  qed
  then have "ring_contents ?es ((st + 1) mod ?n) (Suc k) = ring_contents ?es ((st + 1) mod ?n) k @ [x]"
    using assms by (simp add: ring_contents_def)
  moreover have "(st + ?n) mod ?n = st" using assms by simp
  ultimately show ?thesis using k by (simp only: list.sel)
qed

end
