(* ===== verification/Uart.thy ===== *)
theory Uart
  imports Fifo
begin

text \<open>
  The firmware's UART driver, \<^verbatim>\<open>sbi/src/uart.c\<close>: a 32-byte ring filled by the interrupt handler
  and drained by the supervisor's calls. The device registers are arguments: the line status and
  the received byte of a read. Characters are dropped when the ring is full.
\<close>

section \<open>Model\<close>

abbreviation (input) UART_BUFFER_SIZE :: int where
  "UART_BUFFER_SIZE \<equiv> 32"

record sbi_uart_buffer =
  ub_buffer :: "u8 list"
  ub_start :: int
  ub_occupied :: int

text \<open>The device writes of \<open>uart_init\<close> (register, value) and the reset of the ring.\<close>

definition uart_init :: "sbi_uart_buffer \<Rightarrow> sbi_uart_buffer \<times> (nat \<times> u8) list" where
  "uart_init ub = (ub\<lparr>ub_start := 0, ub_occupied := 0\<rparr>, [(3, 3), (2, 1), (1, 1)])"

definition uart_get :: "u8 \<Rightarrow> u8 \<Rightarrow> u8" where
  "uart_get lsr rbr = (if lsr AND 1 \<noteq> 0 then rbr else 0xff)"

text \<open>
  The busy wait of \<open>uart_put\<close> on a finite trace of line-status reads: the number of reads made
  before the byte is written, \<open>None\<close> while the transmitter stays full.
\<close>

fun uart_put :: "u8 list \<Rightarrow> u8 \<Rightarrow> (nat \<times> u8) option" where
  "uart_put [] c = None"
| "uart_put (lsr # lsrs) c =
     (if lsr AND 0x40 = 0 then map_option (\<lambda>(n, x). (n + 1, x)) (uart_put lsrs c) else Some (1, c))"

definition uart_buffer_push :: "sbi_uart_buffer \<Rightarrow> u8 \<Rightarrow> sbi_uart_buffer" where
  "uart_buffer_push ub c =
     (if ub_occupied ub \<ge> UART_BUFFER_SIZE then ub
      else
        let index = (ub_start ub + ub_occupied ub) mod UART_BUFFER_SIZE
        in ub\<lparr>ub_buffer := (ub_buffer ub)[nat index := c], ub_occupied := ub_occupied ub + 1\<rparr>)"

definition uart_buffer_pop :: "sbi_uart_buffer \<Rightarrow> sbi_uart_buffer \<times> u8" where
  "uart_buffer_pop ub =
     (if ub_occupied ub = 0 then (ub, 0xff)
      else
        (ub\<lparr>ub_start := (ub_start ub + 1) mod UART_BUFFER_SIZE, ub_occupied := ub_occupied ub - 1\<rparr>,
         ub_buffer ub ! nat (ub_start ub)))"

definition uart_handle_irq :: "sbi_uart_buffer \<Rightarrow> u8 \<Rightarrow> u8 \<Rightarrow> sbi_uart_buffer" where
  "uart_handle_irq ub lsr rbr = uart_buffer_push ub (uart_get lsr rbr)"

section \<open>The ring is a bounded FIFO\<close>

definition ub_inv :: "sbi_uart_buffer \<Rightarrow> bool" where
  "ub_inv ub \<longleftrightarrow> 0 \<le> ub_start ub \<and> ub_start ub < 32 \<and> 0 \<le> ub_occupied ub \<and> ub_occupied ub \<le> 32 \<and>
     length (ub_buffer ub) = 32"

definition ub_contents :: "sbi_uart_buffer \<Rightarrow> u8 list" where
  "ub_contents ub = ring_contents (ub_buffer ub) (nat (ub_start ub)) (nat (ub_occupied ub))"

lemma ub_push_room:
  assumes inv: "ub_inv ub" and room: "ub_occupied ub < 32"
  shows "ub_inv (uart_buffer_push ub c)" "ub_contents (uart_buffer_push ub c) = ub_contents ub @ [c]"
proof -
  show "ub_inv (uart_buffer_push ub c)"
    using inv room by (simp add: ub_inv_def uart_buffer_push_def Let_def)
  have "nat ((ub_start ub + ub_occupied ub) mod 32) = (nat (ub_start ub) + nat (ub_occupied ub)) mod 32"
    using inv by (simp add: ub_inv_def nat_mod_distrib nat_add_distrib)
  moreover have "nat (ub_occupied ub + 1) = Suc (nat (ub_occupied ub))" using inv by (auto simp: ub_inv_def)
  ultimately show "ub_contents (uart_buffer_push ub c) = ub_contents ub @ [c]"
    using ring_push [of "nat (ub_start ub)" "ub_buffer ub" "nat (ub_occupied ub)" c] inv room
    by (auto simp: uart_buffer_push_def Let_def ub_contents_def ub_inv_def)
qed

lemma ub_pop_some:
  assumes inv: "ub_inv ub" and ne: "ub_occupied ub \<noteq> 0"
  shows "ub_inv (fst (uart_buffer_pop ub))"
    "ub_contents ub = snd (uart_buffer_pop ub) # ub_contents (fst (uart_buffer_pop ub))"
proof -
  show "ub_inv (fst (uart_buffer_pop ub))"
    using inv ne by (simp add: ub_inv_def uart_buffer_pop_def)
  have "nat ((ub_start ub + 1) mod 32) = (nat (ub_start ub) + 1) mod 32"
    using inv by (simp add: ub_inv_def nat_mod_distrib nat_add_distrib)
  moreover have "nat (ub_occupied ub - 1) = nat (ub_occupied ub) - 1" by simp
  ultimately show "ub_contents ub = snd (uart_buffer_pop ub) # ub_contents (fst (uart_buffer_pop ub))"
    using ring_pop [of "nat (ub_start ub)" "ub_buffer ub" "nat (ub_occupied ub)"] inv ne
    by (auto simp: uart_buffer_pop_def ub_contents_def ub_inv_def)
qed

interpretation uart_fifo: dropping_fifo
  uart_buffer_push uart_buffer_pop ub_contents ub_inv "\<lambda>_. 32" "0xff"
proof (unfold_locales, goal_cases)
  case (1 q x)
  then show ?case using ub_push_room(1) [of q x] by (cases "ub_occupied q < 32") (auto simp: uart_buffer_push_def)
next
  case (2 q)
  then show ?case using ub_pop_some(1) [of q] by (cases "ub_occupied q = 0") (auto simp: uart_buffer_pop_def)
next
  case (3 q)
  then show ?case by (auto simp: ub_contents_def ub_inv_def)
next
  case (6 q x)
  then have "ub_occupied q < 32" by (auto simp: ub_contents_def ub_inv_def)
  then show ?case using ub_push_room(2) 6(1) by blast
next
  case (7 q x xs)
  then have "ub_occupied q \<noteq> 0" by (auto simp: ub_contents_def)
  then show ?case using ub_pop_some(2) [OF 7(1)] 7(2) by simp
next
  case (8 q)
  then have "length (ub_contents q) = 0" by simp
  then have "ub_occupied q = 0" using 8(1) by (simp add: ub_contents_def ub_inv_def)
  then show ?case using 8(2) by (simp add: uart_buffer_pop_def)
next
  case (9 q x)
  then have "ub_occupied q \<ge> 32" by (simp add: ub_contents_def)
  then show ?case by (simp add: uart_buffer_push_def)
qed auto

section \<open>Properties\<close>

text \<open>
  Characters received while the supervisor is not reading are kept in order up to the size of
  the ring and the rest are dropped: after any sequence of interrupts with data ready the ring
  holds what it held followed by the received bytes, cut at 32.
\<close>

theorem uart_irq_buffer:
  assumes "ub_inv ub"
  shows "ub_contents (fold (\<lambda>c ub. uart_handle_irq ub 1 c) cs ub) = take 32 (ub_contents ub @ cs)"
  using uart_fifo.push_many [OF assms, of cs] by (simp add: uart_handle_irq_def uart_get_def)

theorem uart_irq_buffer_witness:
  "ub_contents (fold (\<lambda>c ub. uart_handle_irq ub 1 c) [7, 8]
     (fst (uart_init \<lparr>ub_buffer = replicate 32 0, ub_start = 5, ub_occupied = 9\<rparr>))) = [7, 8]"
proof -
  let ?ub = "fst (uart_init \<lparr>ub_buffer = replicate 32 0, ub_start = 5, ub_occupied = 9\<rparr>)"
  have "ub_inv ?ub" "ub_contents ?ub = []" by (simp_all add: ub_inv_def uart_init_def ub_contents_def)
  then show ?thesis using uart_irq_buffer [of ?ub "[7, 8]"] by simp
qed

end
