(* ===== verification/Block.thy ===== *)
theory Block
  imports Kernel_Prelude
begin

text \<open>
  The block driver of \<^verbatim>\<open>src/block.c\<close>: building a request in the virtqueue, waiting for it, and
  reads and writes of arbitrary byte ranges on top. Buffers are lists of bytes. The device behind
  the queue is hardware and a parameter: \<open>notify\<close> gives the driver-visible state and the request's
  buffers when the device has processed the queue; \<open>virtio_block\<close> states what the virtio
  specification promises of it for a well-formed chain of descriptors.
\<close>

section \<open>Model\<close>

record virtq_desc =
  vd_address :: u64
  vd_length :: u32
  vd_flags :: u16
  vd_next :: u16

record block_device =
  bd_block_size :: u32
  bd_capacity :: u64
  bd_queue_size :: u16
  requests_idx :: u16
  acknowledged_idx :: u16
  bd_descriptor :: "nat \<Rightarrow> virtq_desc"
  driver_idx :: u16
  driver_ring :: "nat \<Rightarrow> u16"
  device_idx :: u16
  device_ring :: "nat \<Rightarrow> u16"
  bd_disk :: "nat \<Rightarrow> u8"

record block_request =
  brq_type :: u32
  brq_sector :: u64
  brq_data :: "u8 list"
  brq_status :: u8

type_synonym device_fun = "block_device \<Rightarrow> block_request \<Rightarrow> block_device \<times> block_request"

text \<open>The request that is sent; its status is preset to an otherwise unused code.\<close>

definition make_request :: "u64 \<Rightarrow> u32 \<Rightarrow> bool \<Rightarrow> u8 list \<Rightarrow> block_request" where
  "make_request start_byte block_size write_request buffer =
     \<lparr>brq_type = (if write_request then 1 else 0), brq_sector = start_byte div ucast block_size,
      brq_data = buffer, brq_status = 77\<rparr>"

text \<open>
  The three descriptors, the driver ring and its index. The result has the index of the first
  descriptor. The physical addresses of the three parts are given by \<open>pa\<close>.
\<close>

definition enqueue_request ::
    "u64 \<times> u64 \<times> u64 \<Rightarrow> block_device \<Rightarrow> u32 \<Rightarrow> bool \<Rightarrow> block_device \<times> u16" where
  "enqueue_request pa bd len2 write_request =
     (let qs = bd_queue_size bd;
          brq1_desc_idx = requests_idx bd mod qs;
          brq2_desc_idx = (requests_idx bd + 1) mod qs;
          brq3_desc_idx = (requests_idx bd + 2) mod qs;
          (paddr1, paddr2, paddr3) = pa;
          flags2 = (if write_request then 1 else 1 OR 2);
          d1 = (bd_descriptor bd)(unat brq1_desc_idx :=
            \<lparr>vd_address = paddr1, vd_length = 16, vd_flags = 1, vd_next = brq2_desc_idx\<rparr>);
          d2 = d1(unat brq2_desc_idx :=
            \<lparr>vd_address = paddr2, vd_length = len2, vd_flags = flags2, vd_next = brq3_desc_idx\<rparr>);
          d3 = d2(unat brq3_desc_idx :=
            \<lparr>vd_address = paddr3, vd_length = 1, vd_flags = 2, vd_next = 0\<rparr>)
      in (bd\<lparr>requests_idx := requests_idx bd + 3, bd_descriptor := d3,
             driver_ring := (driver_ring bd)(unat (driver_idx bd mod qs) := brq1_desc_idx),
             driver_idx := driver_idx bd + 1\<rparr>, brq1_desc_idx))"

text \<open>
  The polling loop. Its counter is an \<open>int\<close> while the device's index has 16 bits. The device has
  done its work in this state, so a loop that catches up with the index without having seen the
  request never ends: \<open>None\<close>.
\<close>

partial_function (option) poll_from :: "block_device \<Rightarrow> u16 \<Rightarrow> nat \<Rightarrow> nat option" where
  "poll_from bd want lookahead_idx =
     (if lookahead_idx \<noteq> unat (device_idx bd) then
        (if device_ring bd (lookahead_idx mod unat (bd_queue_size bd)) = want then Some (lookahead_idx + 1)
         else poll_from bd want (lookahead_idx + 1))
      else None)"

definition block_read_write ::
    "device_fun \<Rightarrow> u64 \<times> u64 \<times> u64 \<Rightarrow> block_device list \<Rightarrow> nat \<Rightarrow> u8 list \<Rightarrow> u64 \<Rightarrow> u64 \<Rightarrow> bool \<Rightarrow> bool \<Rightarrow>
     (block_device list \<times> u8 list \<times> int) option" where
  "block_read_write notify pa devs which_device buffer start_byte end_byte write_request do_poll =
     (if which_device \<ge> length devs then Some (devs, buffer, 4)
      else
        (let bd = devs ! which_device; block_size = bd_block_size bd in
         if start_byte mod ucast block_size \<noteq> 0 then Some (devs, buffer, 1)
         else if end_byte mod ucast block_size \<noteq> 0 then Some (devs, buffer, 1)
         else if start_byte > end_byte then Some (devs, buffer, 2)
         else if start_byte = end_byte then Some (devs, buffer, 3)
         else
           (let rq = make_request start_byte block_size write_request buffer;
                (bd1, brq1_desc_idx) = enqueue_request pa bd (ucast (end_byte - start_byte)) write_request;
                (bd2, rq2) = notify bd1 rq;
                devs2 = devs[which_device := bd2]
            in if do_poll then
                 (case poll_from bd2 brq1_desc_idx (unat (acknowledged_idx bd2)) of
                    None \<Rightarrow> None
                  | Some _ \<Rightarrow> Some (devs2, brq_data rq2, 0))
               else Some (devs2, brq_data rq2, 0))))"

definition block_read_poll ::
    "device_fun \<Rightarrow> u64 \<times> u64 \<times> u64 \<Rightarrow> block_device list \<Rightarrow> nat \<Rightarrow> u8 list \<Rightarrow> u64 \<Rightarrow> u64 \<Rightarrow>
     (block_device list \<times> u8 list \<times> int) option" where
  "block_read_poll notify pa devs dev buffer start_byte end_byte =
     block_read_write notify pa devs dev buffer start_byte end_byte False True"

definition block_write_poll ::
    "device_fun \<Rightarrow> u64 \<times> u64 \<times> u64 \<Rightarrow> block_device list \<Rightarrow> nat \<Rightarrow> u8 list \<Rightarrow> u64 \<Rightarrow> u64 \<Rightarrow>
     (block_device list \<times> u8 list \<times> int) option" where
  "block_write_poll notify pa devs dev buffer start_byte end_byte =
     block_read_write notify pa devs dev buffer start_byte end_byte True True"

text \<open>The block-aligned range around \<open>[start, start + sz)\<close>.\<close>

definition aligned_start :: "u32 \<Rightarrow> u64 \<Rightarrow> u64" where
  "aligned_start block_size start = (start div ucast block_size) * ucast block_size"

definition aligned_end :: "u32 \<Rightarrow> u64 \<Rightarrow> u64 \<Rightarrow> u64" where
  "aligned_end block_size start sz =
     ((start + sz + ucast block_size - 1) div ucast block_size) * ucast block_size"

text \<open>
  \<open>memcpy\<close> between buffers: \<open>n\<close> bytes of \<open>src\<close> from offset \<open>k\<close> on, resp. \<open>src\<close> put into \<open>dst\<close> at
  offset \<open>k\<close>. Its size argument is an \<open>int\<close>.
\<close>

definition copy_out :: "u8 list \<Rightarrow> nat \<Rightarrow> u64 \<Rightarrow> u8 list" where
  "copy_out src k sz = take (nat (sint (ucast sz :: u32))) (drop k src)"

definition copy_in :: "u8 list \<Rightarrow> nat \<Rightarrow> u8 list \<Rightarrow> u64 \<Rightarrow> u8 list" where
  "copy_in dst k src sz =
     (let n = nat (sint (ucast sz :: u32)) in take k dst @ take n src @ drop (k + n) dst)"

text \<open>The bytes read (none on an error), and the return code.\<close>

definition block_read_arbitrary ::
    "device_fun \<Rightarrow> u64 \<times> u64 \<times> u64 \<Rightarrow> block_device list \<Rightarrow> nat \<Rightarrow> u64 \<Rightarrow> u64 \<Rightarrow>
     (block_device list \<times> u8 list \<times> int) option" where
  "block_read_arbitrary notify pa devs dev start sz =
     (let block_size = bd_block_size (devs ! dev);
          block_read_start = aligned_start block_size start;
          block_read_end = aligned_end block_size start sz;
          tbuffer = replicate (unat (block_read_end - block_read_start)) 0
      in case block_read_poll notify pa devs dev tbuffer block_read_start block_read_end of
           None \<Rightarrow> None
         | Some (devs1, tbuffer1, r) \<Rightarrow>
             if r \<noteq> 0 then Some (devs1, [], 1)
             else Some (devs1, copy_out tbuffer1 (unat (start - block_read_start)) sz, 0))"

definition block_write_arbitrary ::
    "device_fun \<Rightarrow> u64 \<times> u64 \<times> u64 \<Rightarrow> block_device list \<Rightarrow> nat \<Rightarrow> u8 list \<Rightarrow> u64 \<Rightarrow> u64 \<Rightarrow>
     (block_device list \<times> int) option" where
  "block_write_arbitrary notify pa devs dev buffer start sz =
     (let block_size = bd_block_size (devs ! dev);
          block_read_start = aligned_start block_size start;
          block_read_end = aligned_end block_size start sz;
          tbuffer = replicate (unat (block_read_end - block_read_start)) 0
      in case block_read_poll notify pa devs dev tbuffer block_read_start block_read_end of
           None \<Rightarrow> None
         | Some (devs1, tbuffer1, r) \<Rightarrow>
             if r \<noteq> 0 then Some (devs1, 1)
             else
               (let tbuffer2 = copy_in tbuffer1 (unat (start - block_read_start)) buffer sz
                in case block_write_poll notify pa devs1 dev tbuffer2 block_read_start block_read_end of
                     None \<Rightarrow> None
                   | Some (devs2, _, r2) \<Rightarrow> Some (devs2, if r2 \<noteq> 0 then 2 else 0)))"

text \<open>
  The interrupt handler: the acknowledged index catches up, one step at a time, on each device
  whose interrupt flag is set. Reading the statuses on the way only prints.
\<close>

function ack_from :: "u16 \<Rightarrow> u16 \<Rightarrow> u16" where
  "ack_from ack idx = (if ack \<noteq> idx then ack_from (ack + 1) idx else ack)"
  by auto
termination
proof (relation "measure (\<lambda>(ack, idx). unat (idx - ack))")
  fix ack idx :: u16
  assume "ack \<noteq> idx"
  then have "idx - ack \<noteq> 0" by simp
  then have "0 < unat (idx - ack)" "unat (idx - ack - 1) = unat (idx - ack) - 1"
    by (simp_all add: unat_gt_0 unat_minus_one)
  then have "unat (idx - ack - 1) < unat (idx - ack)" by linarith
  then show "((ack + 1, idx), ack, idx) \<in> measure (\<lambda>(ack, idx). unat (idx - ack))"
    by (simp add: diff_diff_eq)
qed simp

declare ack_from.simps [simp del]

definition block_irq_handler :: "(nat \<Rightarrow> bool) \<Rightarrow> block_device list \<Rightarrow> block_device list" where
  "block_irq_handler queue_interrupt devs =
     map (\<lambda>i. let bd = devs ! i in
        if queue_interrupt i then bd\<lparr>acknowledged_idx := ack_from (acknowledged_idx bd) (device_idx bd)\<rparr> else bd)
       [0..<length devs]"

section \<open>What the device promises\<close>

text \<open>
  The chain that starts at the driver ring's newest entry is a block request: header, data and
  status, linked by \<open>NEXT\<close>, the data writable by the device exactly for a read, inside the disk.
  Sectors are 512 bytes.
\<close>

definition newest :: "block_device \<Rightarrow> u16" where
  "newest bd = driver_ring bd (unat ((driver_idx bd - 1) mod bd_queue_size bd))"

definition data_desc :: "block_device \<Rightarrow> virtq_desc" where
  "data_desc bd = bd_descriptor bd (unat (vd_next (bd_descriptor bd (unat (newest bd)))))"

definition chain_ok :: "block_device \<Rightarrow> block_request \<Rightarrow> bool" where
  "chain_ok bd rq \<longleftrightarrow>
     (let d1 = bd_descriptor bd (unat (newest bd)); d2 = data_desc bd;
          d3 = bd_descriptor bd (unat (vd_next d2))
      in vd_flags d1 = 1 \<and> vd_length d1 = 16 \<and> vd_flags d3 = 2 \<and> vd_length d3 = 1 \<and>
         vd_flags d2 = (if brq_type rq = 1 then 1 else 3) \<and> brq_type rq \<le> 1 \<and>
         512 dvd unat (vd_length d2) \<and> length (brq_data rq) = unat (vd_length d2) \<and>
         unat (brq_sector rq) * 512 + unat (vd_length d2) \<le> unat (bd_capacity bd) * 512)"

definition disk_read :: "(nat \<Rightarrow> u8) \<Rightarrow> nat \<Rightarrow> nat \<Rightarrow> u8 list" where
  "disk_read d a n = map d [a..<a + n]"

definition disk_write :: "(nat \<Rightarrow> u8) \<Rightarrow> nat \<Rightarrow> u8 list \<Rightarrow> nat \<Rightarrow> u8" where
  "disk_write d a bs = (\<lambda>x. if a \<le> x \<and> x < a + length bs then bs ! (x - a) else d x)"

definition served :: "block_device \<Rightarrow> block_request \<Rightarrow> block_device \<times> block_request" where
  "served bd rq =
     (let a = unat (brq_sector rq) * 512; n = unat (vd_length (data_desc bd)) in
      (bd\<lparr>device_ring := (device_ring bd)(unat (device_idx bd mod bd_queue_size bd) := newest bd),
          device_idx := device_idx bd + 1,
          bd_disk := (if brq_type rq = 1 then disk_write (bd_disk bd) a (brq_data rq) else bd_disk bd)\<rparr>,
       rq\<lparr>brq_data := (if brq_type rq = 1 then brq_data rq else disk_read (bd_disk bd) a n),
          brq_status := 0\<rparr>))"

definition virtio_block :: "device_fun \<Rightarrow> bool" where
  "virtio_block notify \<longleftrightarrow> (\<forall>bd rq. chain_ok bd rq \<longrightarrow> notify bd rq = served bd rq)"

section \<open>The queue\<close>

definition dev_ok :: "block_device \<Rightarrow> bool" where
  "dev_ok bd \<longleftrightarrow> bd_block_size bd = 512 \<and> bd_queue_size bd = 256"

text \<open>Requests the device has answered and the interrupt handler has not acknowledged yet.\<close>

definition unacknowledged :: "block_device \<Rightarrow> nat" where
  "unacknowledged bd = unat (device_idx bd - acknowledged_idx bd)"

lemma unat_mod_256: "unat ((x :: u16) mod 256) = unat x mod 256"
  by (simp add: unat_mod)

lemma slot_nat: "unat ((r + of_nat k :: u16) mod 256) = (unat r + k) mod 256"
proof -
  have "unat (r + of_nat k :: u16) = (unat r + k) mod 65536"
    by (simp add: unat_word_ariths unat_of_nat mod_add_right_eq)
  then show ?thesis by (simp add: unat_mod_256 mod_mod_cancel)
qed

lemma mod_256_distinct:
  "(x :: nat) mod 256 \<noteq> (x + 1) mod 256" "x mod 256 \<noteq> (x + 2) mod 256" "(x + 1) mod 256 \<noteq> (x + 2) mod 256"
  by (auto simp: mod_Suc)

lemma slots_distinct:
  fixes r :: u16
  shows "unat (r mod 256) \<noteq> unat ((r + 1) mod 256)" "unat (r mod 256) \<noteq> unat ((r + 2) mod 256)"
    "unat ((r + 1) mod 256) \<noteq> unat ((r + 2) mod 256)"
  unfolding unat_mod_256 [of r] slot_nat [of r 1, simplified] slot_nat [of r 2, simplified]
  using mod_256_distinct [of "unat r"] by simp_all

lemma enqueue_chain:
  assumes "dev_ok bd" and "enqueue_request pa bd len w = (bd1, h)"
  shows "newest bd1 = h" "vd_length (data_desc bd1) = len"
    "\<lbrakk>512 dvd unat len; length (brq_data rq) = unat len; brq_type rq = (if w then 1 else 0);
      unat (brq_sector rq) * 512 + unat len \<le> unat (bd_capacity bd) * 512\<rbrakk> \<Longrightarrow> chain_ok bd1 rq"
    "bd1 = bd\<lparr>requests_idx := requests_idx bd1, bd_descriptor := bd_descriptor bd1,
              driver_ring := driver_ring bd1, driver_idx := driver_idx bd1\<rparr>"
proof -
  obtain p1 p2 p3 where pa: "pa = (p1, p2, p3)" by (cases pa)
  note sl = slots_distinct [of "requests_idx bd"]
  have n: "newest bd1 = h" and h: "h = requests_idx bd mod 256"
    using assms by (auto simp: dev_ok_def enqueue_request_def Let_def newest_def pa)
  show "newest bd1 = h" by (rule n)
  show d: "vd_length (data_desc bd1) = len"
    using assms sl by (auto simp: data_desc_def n h dev_ok_def enqueue_request_def Let_def pa)
  show "bd1 = bd\<lparr>requests_idx := requests_idx bd1, bd_descriptor := bd_descriptor bd1,
              driver_ring := driver_ring bd1, driver_idx := driver_idx bd1\<rparr>"
    using assms by (auto simp: enqueue_request_def Let_def pa)
  assume "512 dvd unat len" "length (brq_data rq) = unat len" "brq_type rq = (if w then 1 else 0)"
    "unat (brq_sector rq) * 512 + unat len \<le> unat (bd_capacity bd) * 512"
  then show "chain_ok bd1 rq"
    using assms sl d unfolding chain_ok_def Let_def n h
    by (auto simp: data_desc_def n h dev_ok_def enqueue_request_def Let_def pa)
qed

lemma poll_from_finds:
  assumes "device_ring bd (target mod unat (bd_queue_size bd)) = want"
  shows "l \<le> target \<Longrightarrow> (\<And>x. l \<le> x \<Longrightarrow> x \<le> target \<Longrightarrow> x \<noteq> unat (device_idx bd)) \<Longrightarrow>
    \<exists>r. poll_from bd want l = Some r"
proof (induction "target - l" arbitrary: l)
  case 0
  then show ?case using assms by (subst poll_from.simps) auto
next
  case (Suc k)
  then have "\<exists>r. poll_from bd want (l + 1) = Some r" by (intro Suc(1)) auto
  then show ?case using Suc(3,4) by (subst poll_from.simps) auto
qed

lemma poll_served:
  assumes d: "device_idx bd2 = device_idx bd + 1" and a: "acknowledged_idx bd2 = acknowledged_idx bd"
    and q: "bd_queue_size bd2 = 256" and r: "device_ring bd2 (unat (device_idx bd mod 256)) = h"
    and u: "unacknowledged bd < 65535"
  shows "\<exists>x. poll_from bd2 h (unat (acknowledged_idx bd2)) = Some x"
proof (rule poll_from_finds)
  let ?d = "unat (device_idx bd)" and ?a = "unat (acknowledged_idx bd)"
  let ?t = "?a + unacknowledged bd"
  have b: "?d < 65536" "?a < 65536" using unsigned_less [of "device_idx bd"] unsigned_less [of "acknowledged_idx bd"] by simp_all
  have t: "?t = (if ?a \<le> ?d then ?d else ?d + 65536)"
    using b by (auto simp: unacknowledged_def unat_sub_if_size word_size)
  have "?t mod 256 = ?d mod 256" using t by (auto simp: mod_add_eq [of ?d 256 65536, symmetric])
  then show "device_ring bd2 (?t mod unat (bd_queue_size bd2)) = h" using r q by (simp add: unat_mod_256)
  show "unat (acknowledged_idx bd2) \<le> ?t" using a by simp
  have d1: "unat (device_idx bd2) = (if ?d = 65535 then 0 else ?d + 1)"
    using b d by (auto simp: unat_word_ariths)
  fix x assume "unat (acknowledged_idx bd2) \<le> x" "x \<le> ?t"
  then show "x \<noteq> unat (device_idx bd2)" using a u t d1 b by (auto split: if_splits)
qed

lemma ack_from_idx: "ack_from ack idx = idx"
  by (induction ack idx rule: ack_from.induct) (subst ack_from.simps, simp)

section \<open>Requests\<close>

lemma unacknowledged_step:
  assumes "device_idx bd2 = device_idx bd + 1" "acknowledged_idx bd2 = acknowledged_idx bd"
  shows "unacknowledged bd2 \<le> unacknowledged bd + 1"
proof -
  have "device_idx bd2 - acknowledged_idx bd2 = (device_idx bd - acknowledged_idx bd) + 1"
    using assms by simp
  then show ?thesis by (simp add: unacknowledged_def unat_word_ariths)
qed

lemma block_request_served:
  assumes v: "virtio_block notify" and w: "dev < length devs" and bd: "bd = devs ! dev" and ok: "dev_ok bd"
    and al: "512 dvd unat s" "512 dvd unat e" and le: "unat s < unat e" "unat e - unat s < 2 ^ 32"
    and cap: "unat e \<le> unat (bd_capacity bd) * 512" and len: "length buffer = unat e - unat s"
    and u: "unacknowledged bd < 65535"
  shows "\<exists>bd2. block_read_write notify pa devs dev buffer s e wr True =
      Some (devs[dev := bd2], (if wr then buffer else disk_read (bd_disk bd) (unat s) (unat e - unat s)), 0) \<and>
    dev_ok bd2 \<and> bd_capacity bd2 = bd_capacity bd \<and> unacknowledged bd2 \<le> unacknowledged bd + 1 \<and>
    bd_disk bd2 = (if wr then disk_write (bd_disk bd) (unat s) buffer else bd_disk bd)"
proof -
  let ?len = "ucast (e - s) :: u32" and ?rq = "make_request s (bd_block_size bd) wr buffer"
  obtain bd1 h where en: "enqueue_request pa bd ?len wr = (bd1, h)" by (metis surj_pair)
  note ch = enqueue_chain [OF ok en]
  have ul: "unat ?len = unat e - unat s"
    using le by (simp add: unsigned_ucast_eq take_bit_eq_mod unat_sub word_le_nat_alt)
  have sec: "unat (brq_sector ?rq) * 512 = unat s"
    using ok al(1) by (simp add: make_request_def dev_ok_def unat_div)
  have "chain_ok bd1 ?rq"
    by (rule ch(3)) (use al le cap len ul sec in \<open>auto simp: make_request_def\<close>)
  then have nt: "notify bd1 ?rq = served bd1 ?rq" using v by (simp add: virtio_block_def)
  obtain bd2 rq2 where sv: "served bd1 ?rq = (bd2, rq2)" by (metis surj_pair)
  have f1: "device_idx bd1 = device_idx bd" "acknowledged_idx bd1 = acknowledged_idx bd"
      "bd_queue_size bd1 = 256" "bd_disk bd1 = bd_disk bd" "bd_capacity bd1 = bd_capacity bd"
      "bd_block_size bd1 = 512"
    using ok by (subst ch(4), simp add: dev_ok_def)+
  have f2: "device_idx bd2 = device_idx bd + 1" "acknowledged_idx bd2 = acknowledged_idx bd"
      "bd_queue_size bd2 = 256" "device_ring bd2 (unat (device_idx bd mod 256)) = h"
      "bd_capacity bd2 = bd_capacity bd" "bd_block_size bd2 = 512"
      "bd_disk bd2 = (if wr then disk_write (bd_disk bd) (unat s) buffer else bd_disk bd)"
      "brq_data rq2 = (if wr then buffer else disk_read (bd_disk bd) (unat s) (unat e - unat s))"
    using sv f1 ch(1,2) sec ul by (auto simp: served_def Let_def make_request_def)
  obtain x where "poll_from bd2 h (unat (acknowledged_idx bd2)) = Some x"
    using poll_served [OF f2(1-4) u] by blast
  moreover have "s mod 512 = 0" "e mod 512 = 0" "s < e"
    using al le by (auto simp: word_less_nat_alt unat_eq_0 [symmetric] unat_mod simp del: unat_eq_0)
  moreover have "unacknowledged bd2 \<le> unacknowledged bd + 1" by (rule unacknowledged_step [OF f2(1,2)])
  ultimately show ?thesis
    using w bd ok en nt sv f2
    by (intro exI [of _ bd2]) (auto simp: block_read_write_def Let_def dev_ok_def)
qed

section \<open>Byte ranges\<close>

lemma aligned_range:
  assumes "unat start + unat sz + 512 < 2 ^ 64"
  shows "unat (aligned_start 512 start) = unat start div 512 * 512"
    "unat (aligned_end 512 start sz) = (unat start + unat sz + 511) div 512 * 512"
proof -
  have "start + sz + 512 - 1 = start + sz + 511" by simp
  moreover have "unat (start + sz + 511) = unat start + unat sz + 511"
    using assms by (simp add: unat_word_ariths)
  moreover have "k div 512 * 512 < 2 ^ 64" if "k < 2 ^ 64" for k :: nat
    using that div_times_less_eq_dividend [of k 512] by linarith
  ultimately show "unat (aligned_end 512 start sz) = (unat start + unat sz + 511) div 512 * 512"
    "unat (aligned_start 512 start) = unat start div 512 * 512"
    using assms by (simp_all add: aligned_start_def aligned_end_def unat_word_ariths unat_div)
qed

lemma int_size: "unat sz < 2 ^ 31 \<Longrightarrow> nat (sint (ucast (sz :: u64) :: u32)) = unat sz"
proof -
  assume a: "unat sz < 2 ^ 31"
  have u: "unat (ucast sz :: u32) = unat sz" using a by (simp add: unsigned_ucast_eq take_bit_eq_mod)
  have s: "signed_take_bit 31 (int k) = int k" if "k < 2 ^ 31" for k :: nat
    by (rule signed_take_bit_int_eq_self) (use that in auto)
  have "uint (ucast sz :: u32) = int (unat sz)" using u by (metis uint_nat)
  then have "sint (ucast sz :: u32) = int (unat sz)" using s [OF a] by (simp only: sint_uint) simp
  then show ?thesis by simp
qed

text \<open>A store of bytes with range reads and writes, and what follows for reads after writes.\<close>

locale byte_store =
  fixes rd :: "'d \<Rightarrow> nat \<Rightarrow> nat \<Rightarrow> u8 list" and wr :: "'d \<Rightarrow> nat \<Rightarrow> u8 list \<Rightarrow> 'd" and byte :: "'d \<Rightarrow> nat \<Rightarrow> u8"
  assumes rd_bytes: "rd d a n = map (byte d) [a..<a + n]"
    and byte_wr: "byte (wr d a bs) x = (if a \<le> x \<and> x < a + length bs then bs ! (x - a) else byte d x)"
begin

lemma length_rd [simp]: "length (rd d a n) = n"
  by (simp add: rd_bytes)

lemma nth_rd [simp]: "i < n \<Longrightarrow> rd d a n ! i = byte d (a + i)"
  by (simp add: rd_bytes)

lemma rd_wr_same: "n = length bs \<Longrightarrow> rd (wr d a bs) a n = bs"
  by (rule nth_equalityI) (auto simp: byte_wr)

lemma rd_wr_apart: "a + n \<le> b \<or> b + length bs \<le> a \<Longrightarrow> rd (wr d b bs) a n = rd d a n"
  by (rule nth_equalityI) (auto simp: byte_wr)

lemma rd_cong: "(\<And>i. i < n \<Longrightarrow> byte d (a + i) = byte d' (b + i)) \<Longrightarrow> rd d a n = rd d' b n"
  by (rule nth_equalityI) auto

lemma rd_part: "k + m \<le> n \<Longrightarrow> take m (drop k (rd d a n)) = rd d (a + k) m"
  by (rule nth_equalityI) (auto simp: add.assoc)

end

interpretation dsk: byte_store disk_read disk_write "\<lambda>d. d"
  by unfold_locales (auto simp: disk_read_def disk_write_def)

lemma disk_write_part:
  assumes "k + length bs \<le> n"
  shows "disk_write d a (take k (disk_read d a n) @ bs @ drop (k + length bs) (disk_read d a n)) =
    disk_write d (a + k) bs"
  using assms by (auto simp: disk_write_def nth_append fun_eq_iff)

definition in_disk :: "block_device \<Rightarrow> u64 \<Rightarrow> u64 \<Rightarrow> bool" where
  "in_disk bd start sz \<longleftrightarrow> 0 < unat sz \<and> unat sz < 2 ^ 31 \<and> unat start + unat sz + 512 < 2 ^ 64 \<and>
     unat start + unat sz \<le> unat (bd_capacity bd) * 512"

lemma range_facts:
  assumes "in_disk bd start sz"
  defines "s \<equiv> unat (aligned_start 512 start)" and "e \<equiv> unat (aligned_end 512 start sz)"
  shows "512 dvd s" "512 dvd e" "s < e" "e - s < 2 ^ 32" "e \<le> unat (bd_capacity bd) * 512"
    "unat (aligned_end 512 start sz - aligned_start 512 start) = e - s"
    "unat (start - aligned_start 512 start) = unat start - s" "s \<le> unat start" "unat start + unat sz \<le> e"
proof -
  from assms(1) have b: "unat start + unat sz + 512 < 2 ^ 64" and z: "0 < unat sz" "unat sz < 2 ^ 31"
    and c: "unat start + unat sz \<le> unat (bd_capacity bd) * 512" by (auto simp: in_disk_def)
  have s: "s = unat start div 512 * 512" and e: "e = (unat start + unat sz + 511) div 512 * 512"
    using aligned_range [OF b] by (simp_all add: s_def e_def)
  show "512 dvd s" "512 dvd e" using s e by simp_all
  show ss: "s \<le> unat start" unfolding s by (rule div_times_less_eq_dividend)
  have em: "e + (unat start + unat sz + 511) mod 512 = unat start + unat sz + 511" unfolding e by simp
  moreover have "(unat start + unat sz + 511) mod 512 < 512" by simp
  ultimately show se: "unat start + unat sz \<le> e" by linarith
  show lt: "s < e" using ss se z by linarith
  have "s + unat start mod 512 = unat start" unfolding s by simp
  moreover have "unat start mod 512 < 512" by simp
  ultimately have "e - s \<le> unat sz + 1024" using em by linarith
  then show "e - s < 2 ^ 32" using z by simp
  have "(unat start + unat sz + 511) div 512 \<le> unat (bd_capacity bd)" using c by linarith
  then show "e \<le> unat (bd_capacity bd) * 512" unfolding e by simp
  have "aligned_start 512 start \<le> aligned_end 512 start sz" "aligned_start 512 start \<le> start"
    using lt ss by (simp_all add: word_le_nat_alt s_def e_def)
  then show "unat (aligned_end 512 start sz - aligned_start 512 start) = e - s"
    "unat (start - aligned_start 512 start) = unat start - s" by (simp_all add: unat_sub s_def e_def)
qed

text \<open>
  A read of any nonempty byte range inside the disk returns exactly the bytes stored there,
  whatever its alignment, and leaves the disk unchanged.
\<close>

theorem block_read_arbitrary_correct:
  assumes "virtio_block notify" and "dev < length devs" and "dev_ok (devs ! dev)"
    and "in_disk (devs ! dev) start sz" and "unacknowledged (devs ! dev) < 65535"
  shows "\<exists>bd. block_read_arbitrary notify pa devs dev start sz =
      Some (devs[dev := bd], disk_read (bd_disk (devs ! dev)) (unat start) (unat sz), 0) \<and>
    dev_ok bd \<and> bd_disk bd = bd_disk (devs ! dev) \<and> bd_capacity bd = bd_capacity (devs ! dev) \<and>
    unacknowledged bd \<le> unacknowledged (devs ! dev) + 1"
proof -
  let ?s = "aligned_start 512 start" and ?e = "aligned_end 512 start sz"
  note r = range_facts [OF assms(4)]
  have bs: "bd_block_size (devs ! dev) = 512" using assms(3) by (simp add: dev_ok_def)
  have sz: "nat (sint (ucast sz :: u32)) = unat sz" using assms(4) by (intro int_size) (simp add: in_disk_def)
  obtain bd where b: "block_read_write notify pa devs dev (replicate (unat ?e - unat ?s) 0) ?s ?e False True =
      Some (devs[dev := bd], disk_read (bd_disk (devs ! dev)) (unat ?s) (unat ?e - unat ?s), 0)"
    "dev_ok bd" "bd_capacity bd = bd_capacity (devs ! dev)"
    "unacknowledged bd \<le> unacknowledged (devs ! dev) + 1" "bd_disk bd = bd_disk (devs ! dev)"
    using block_request_served [OF assms(1,2) refl assms(3) r(1-5) _ assms(5), of "replicate (unat ?e - unat ?s) 0" pa False]
    by auto
  have "take (unat sz) (drop (unat start - unat ?s) (disk_read (bd_disk (devs ! dev)) (unat ?s) (unat ?e - unat ?s))) =
      disk_read (bd_disk (devs ! dev)) (unat start) (unat sz)"
    using r(8,9) by (subst dsk.rd_part) auto
  then show ?thesis
    using b by (intro exI [of _ bd])
      (simp add: block_read_arbitrary_def Let_def bs block_read_poll_def r(6,7) copy_out_def sz)
qed

text \<open>
  C25: A write of any nonempty byte range inside the disk puts exactly the given bytes there and
  changes no other byte of the disk, whatever its alignment.
\<close>

theorem block_write_arbitrary_correct:
  assumes "virtio_block notify" and "dev < length devs" and "dev_ok (devs ! dev)"
    and "in_disk (devs ! dev) start sz" and "unacknowledged (devs ! dev) < 65534"
    and "length buffer = unat sz"
  shows "\<exists>bd. block_write_arbitrary notify pa devs dev buffer start sz = Some (devs[dev := bd], 0) \<and>
    dev_ok bd \<and> bd_disk bd = disk_write (bd_disk (devs ! dev)) (unat start) buffer \<and>
    bd_capacity bd = bd_capacity (devs ! dev) \<and> unacknowledged bd \<le> unacknowledged (devs ! dev) + 2"
proof -
  let ?s = "aligned_start 512 start" and ?e = "aligned_end 512 start sz" and ?n = "unat (aligned_end 512 start sz) - unat (aligned_start 512 start)"
  let ?t = "disk_read (bd_disk (devs ! dev)) (unat ?s) ?n" and ?k = "unat start - unat (aligned_start 512 start)"
  let ?t2 = "take ?k ?t @ buffer @ drop (?k + unat sz) ?t"
  note r = range_facts [OF assms(4)]
  have bs: "bd_block_size (devs ! dev) = 512" using assms(3) by (simp add: dev_ok_def)
  have sz: "nat (sint (ucast sz :: u32)) = unat sz" using assms(4) by (intro int_size) (simp add: in_disk_def)
  obtain bd1 where b1: "block_read_write notify pa devs dev (replicate ?n 0) ?s ?e False True =
      Some (devs[dev := bd1], ?t, 0)" "dev_ok bd1" "bd_capacity bd1 = bd_capacity (devs ! dev)"
    "unacknowledged bd1 \<le> unacknowledged (devs ! dev) + 1" "bd_disk bd1 = bd_disk (devs ! dev)"
    using block_request_served [OF assms(1,2) refl assms(3) r(1-5), of "replicate ?n 0" pa False] assms(5)
    by auto
  have kn: "?k + unat sz \<le> ?n" using r(8,9) by linarith
  have "length ?t2 = ?n" using kn assms(6) by simp
  then obtain bd2 where b2: "block_read_write notify pa (devs[dev := bd1]) dev ?t2 ?s ?e True True =
      Some (devs[dev := bd2], ?t2, 0)" "dev_ok bd2" "bd_capacity bd2 = bd_capacity (devs ! dev)"
    "unacknowledged bd2 \<le> unacknowledged (devs ! dev) + 2" "bd_disk bd2 = disk_write (bd_disk (devs ! dev)) (unat ?s) ?t2"
    using block_request_served [OF assms(1) _ refl _ r(1-4), of dev "devs[dev := bd1]" ?t2 pa True]
      r(5) b1 assms(2,5) by auto
  have "disk_write (bd_disk (devs ! dev)) (unat ?s) ?t2 = disk_write (bd_disk (devs ! dev)) (unat start) buffer"
    using disk_write_part [of ?k buffer ?n "bd_disk (devs ! dev)" "unat ?s"] kn assms(6) r(8) by simp
  then show ?thesis
    using b1(1) b2 assms(6) by (intro exI [of _ bd2])
      (simp add: block_write_arbitrary_def Let_def bs block_read_poll_def block_write_poll_def r(6,7) copy_in_def sz)
qed

section \<open>A disk of sixteen sectors\<close>

definition demo_dev :: block_device where
  "demo_dev = \<lparr>bd_block_size = 512, bd_capacity = 16, bd_queue_size = 256, requests_idx = 254,
     acknowledged_idx = 3, bd_descriptor = (\<lambda>_. \<lparr>vd_address = 0, vd_length = 0, vd_flags = 0, vd_next = 0\<rparr>),
     driver_idx = 3, driver_ring = (\<lambda>_. 0), device_idx = 3, device_ring = (\<lambda>_. 0),
     bd_disk = (\<lambda>a. of_nat a)\<rparr>"

lemma served_virtio: "virtio_block served"
  by (simp add: virtio_block_def)

lemma demo_dev_ok: "dev_ok ([demo_dev] ! 0)" "unacknowledged ([demo_dev] ! 0) = 0"
    "in_disk ([demo_dev] ! 0) 0x3fe 4"
  by (simp_all add: dev_ok_def unacknowledged_def in_disk_def demo_dev_def)

lemma demo_dev_facts: "unacknowledged demo_dev = 0" "bd_disk demo_dev = of_nat"
  by (simp_all add: unacknowledged_def demo_dev_def)

theorem block_read_arbitrary_correct_witness:
  "\<exists>bd. block_read_arbitrary served (0x1000, 0x2000, 0x3000) [demo_dev] 0 0x3fe 4 =
     Some ([bd], [0xfe, 0xff, 0, 1], 0)"
proof -
  have "disk_read (bd_disk demo_dev) 0x3fe 4 = [0xfe, 0xff, 0, 1]"
    by (simp add: demo_dev_def disk_read_def upt_rec)
  then show ?thesis
    using block_read_arbitrary_correct [of served 0 "[demo_dev]" "0x3fe" 4 "(0x1000, 0x2000, 0x3000)", OF served_virtio _ demo_dev_ok(1,3)]
    by (auto simp: demo_dev_facts)
qed

theorem block_write_arbitrary_correct_witness:
  "\<exists>bd. block_write_arbitrary served (0x1000, 0x2000, 0x3000) [demo_dev] 0 [7, 8, 9, 10] 0x3fe 4 = Some ([bd], 0) \<and>
     bd_disk bd 0x400 = 9 \<and> bd_disk bd 0x402 = 2"
  using block_write_arbitrary_correct [of served 0 "[demo_dev]" "0x3fe" 4 "[7, 8, 9, 10]" "(0x1000, 0x2000, 0x3000)",
      OF served_virtio _ demo_dev_ok(1,3)]
  by (auto simp: demo_dev_facts disk_write_def)

end
