(* ===== verification/Minix3.thy ===== *)
theory Minix3
  imports Block "HOL-Library.Monad_Syntax"
begin

text \<open>
  The Minix 3 file system of \<^verbatim>\<open>src/minix3.c\<close>: superblock, bitmaps, inodes and the walk from a
  position in a file to its zone through direct and indirect pointers. The disk is the byte array
  that \<open>block_read_arbitrary\<close> and \<open>block_write_arbitrary\<close> are shown to read and write; one disk
  is modelled, the one the file system was found on, so \<open>which_dev\<close> and \<open>mx3_block_dev\<close> are the
  same device. Temporary buffers are lists. The two static search positions and the block size are
  part of the state; so is the value of the variable \<open>return_zone\<close> of the walker, which some paths
  return uninitialised. A loop that does not end is \<open>None\<close>.
\<close>

section \<open>Data\<close>

type_synonym disk = "nat \<Rightarrow> u8"

record mx3 =
  mx_disk :: disk
  mx3_block_size :: u16
  test_available_zone_num :: u32
  test_available_inode_num :: u32
  mx_junk :: u32

record mx3_superblock =
  num_inodes :: u32
  imap_blocks :: u16
  zone_blocks :: u16
  first_data_zone :: u16
  log_zone_size :: u16
  max_file_size :: u32
  num_zones :: u32
  magic :: u16
  sb_block_size :: u16
  disk_version :: u8

record mx3_inode =
  i_mode :: u16
  i_nlinks :: u16
  i_uid :: u16
  i_gid :: u16
  i_size :: u32
  i_atime :: u32
  i_ctime :: u32
  i_mtime :: u32
  i_zones :: "u32 list"

abbreviation (input) MX3_BOOT_BLOCK_SIZE :: nat where "MX3_BOOT_BLOCK_SIZE \<equiv> 1024"
abbreviation (input) MX3_MAGIC :: u16 where "MX3_MAGIC \<equiv> 0x4d5a"
abbreviation (input) SIZEOF_INODE :: nat where "SIZEOF_INODE \<equiv> 64"
abbreviation (input) SIZEOF_DIR_ENTRY :: nat where "SIZEOF_DIR_ENTRY \<equiv> 64"
abbreviation (input) MX3_IDZONE :: nat where "MX3_IDZONE \<equiv> 7"
abbreviation (input) MX3_IIDZONE :: nat where "MX3_IIDZONE \<equiv> 8"
abbreviation (input) MX3_IIIDZONE :: nat where "MX3_IIIDZONE \<equiv> 9"

text \<open>Little-endian integers on the disk and in buffers.\<close>

definition rd16 :: "disk \<Rightarrow> nat \<Rightarrow> u16" where
  "rd16 d a = ucast (d a) OR push_bit 8 (ucast (d (a + 1)))"

definition rd32 :: "disk \<Rightarrow> nat \<Rightarrow> u32" where
  "rd32 d a = ucast (d a) OR push_bit 8 (ucast (d (a + 1))) OR push_bit 16 (ucast (d (a + 2))) OR
     push_bit 24 (ucast (d (a + 3)))"

definition le16 :: "u16 \<Rightarrow> u8 list" where
  "le16 v = [ucast v, ucast (drop_bit 8 v)]"

definition le32 :: "u32 \<Rightarrow> u8 list" where
  "le32 v = [ucast v, ucast (drop_bit 8 v), ucast (drop_bit 16 v), ucast (drop_bit 24 v)]"

text \<open>The layout of the superblock and of an inode.\<close>

definition parse_superblock :: "disk \<Rightarrow> nat \<Rightarrow> mx3_superblock" where
  "parse_superblock d a = \<lparr>num_inodes = rd32 d a, imap_blocks = rd16 d (a + 6), zone_blocks = rd16 d (a + 8),
     first_data_zone = rd16 d (a + 10), log_zone_size = rd16 d (a + 12), max_file_size = rd32 d (a + 16),
     num_zones = rd32 d (a + 20), magic = rd16 d (a + 24), sb_block_size = rd16 d (a + 28),
     disk_version = d (a + 30)\<rparr>"

definition parse_inode :: "disk \<Rightarrow> nat \<Rightarrow> mx3_inode" where
  "parse_inode d a = \<lparr>i_mode = rd16 d a, i_nlinks = rd16 d (a + 2), i_uid = rd16 d (a + 4),
     i_gid = rd16 d (a + 6), i_size = rd32 d (a + 8), i_atime = rd32 d (a + 12), i_ctime = rd32 d (a + 16),
     i_mtime = rd32 d (a + 20), i_zones = map (\<lambda>k. rd32 d (a + 24 + 4 * k)) [0..<10]\<rparr>"

definition inode_bytes :: "mx3_inode \<Rightarrow> u8 list" where
  "inode_bytes n = le16 (i_mode n) @ le16 (i_nlinks n) @ le16 (i_uid n) @ le16 (i_gid n) @ le32 (i_size n) @
     le32 (i_atime n) @ le32 (i_ctime n) @ le32 (i_mtime n) @ concat (map le32 (i_zones n))"

definition zero_inode :: mx3_inode where
  "zero_inode = \<lparr>i_mode = 0, i_nlinks = 0, i_uid = 0, i_gid = 0, i_size = 0, i_atime = 0, i_ctime = 0,
     i_mtime = 0, i_zones = replicate 10 0\<rparr>"

text \<open>
  \<open>minix3_get_superblock\<close>, for a device of the given block size. The other operations run on a
  device whose blocks have 512 bytes, where it does not fail.
\<close>

definition minix3_get_superblock :: "u32 \<Rightarrow> disk \<Rightarrow> mx3_superblock option" where
  "minix3_get_superblock block_dev_size d =
     (let block_read_start = MX3_BOOT_BLOCK_SIZE;
          block_read_end = MX3_BOOT_BLOCK_SIZE + unat block_dev_size
      in if unat block_dev_size < 32 then None
         else if block_read_start mod unat block_dev_size \<noteq> 0 \<or> block_read_end mod unat block_dev_size \<noteq> 0 then None
         else Some (parse_superblock d MX3_BOOT_BLOCK_SIZE))"

definition super :: "mx3 \<Rightarrow> mx3_superblock" where
  "super s = parse_superblock (mx_disk s) MX3_BOOT_BLOCK_SIZE"

text \<open>
  \<open>minix3_init\<close>: the first device whose superblock has the magic number, with its block size. A
  device on which \<open>minix3_get_superblock\<close> fails gives a NULL pointer that is read all the same.
\<close>

fun minix3_init_from :: "(u32 \<times> disk) list \<Rightarrow> nat \<Rightarrow> (nat \<times> u16) option option" where
  "minix3_init_from [] i = Some None"
| "minix3_init_from ((bs, d) # ds) i =
     (case minix3_get_superblock bs d of
        None \<Rightarrow> None
      | Some sb \<Rightarrow> if magic sb = MX3_MAGIC then Some (Some (i, sb_block_size sb)) else minix3_init_from ds (i + 1))"

text \<open>The globals \<open>mx3_block_dev\<close>, \<open>mx3_fs_exists\<close> and \<open>mx3_block_size\<close>, zero before.\<close>

definition minix3_init :: "(u32 \<times> disk) list \<Rightarrow> (int \<times> int \<times> u16) option" where
  "minix3_init devs =
     (case minix3_init_from devs 0 of
        None \<Rightarrow> None
      | Some None \<Rightarrow> Some (- 1, 0, 0)
      | Some (Some (i, bs)) \<Rightarrow> Some (int i, 1, bs))"

section \<open>Bitmaps\<close>

definition imap_begin :: "mx3 \<Rightarrow> nat" where
  "imap_begin s = MX3_BOOT_BLOCK_SIZE + unat (mx3_block_size s)"

definition zmap_begin :: "mx3 \<Rightarrow> nat" where
  "zmap_begin s = MX3_BOOT_BLOCK_SIZE + unat (mx3_block_size s) +
     unat (imap_blocks (super s)) * unat (mx3_block_size s)"

text \<open>The position of a zone in the bitmap: a 32-bit difference.\<close>

definition bitmap_zone :: "mx3 \<Rightarrow> u32 \<Rightarrow> u32" where
  "bitmap_zone s zone_num = zone_num - ucast (first_data_zone (super s))"

definition map_bit :: "disk \<Rightarrow> nat \<Rightarrow> u32 \<Rightarrow> bool" where
  "map_bit d start n =
     (let which_byte = unat (n div 8); which_bit = unat (n mod 8); byte = d (start + which_byte)
      in drop_bit which_bit (byte AND push_bit which_bit 1) \<noteq> 0)"

definition minix3_is_zone_occupied :: "mx3 \<Rightarrow> u32 \<Rightarrow> bool" where
  "minix3_is_zone_occupied s zone_num =
     (let occupied = map_bit (mx_disk s) (zmap_begin s) (bitmap_zone s zone_num)
      in if zone_num < ucast (first_data_zone (super s)) then True else occupied)"

definition minix3_is_inode_occupied :: "mx3 \<Rightarrow> u32 \<Rightarrow> bool" where
  "minix3_is_inode_occupied s inode_num =
     (if inode_num = 0 then False else map_bit (mx_disk s) (imap_begin s) (inode_num - 1))"

definition minix3_is_zone_in_range :: "mx3 \<Rightarrow> u32 \<Rightarrow> bool" where
  "minix3_is_zone_in_range s zone_num =
     (let in_range = \<not> bitmap_zone s zone_num \<ge> num_zones (super s)
      in if zone_num < ucast (first_data_zone (super s)) then False else in_range)"

definition minix3_is_inode_in_range :: "mx3 \<Rightarrow> u32 \<Rightarrow> bool" where
  "minix3_is_inode_in_range s inode_num =
     (if inode_num = 0 then False else \<not> inode_num - 1 > num_inodes (super s))"

text \<open>The byte written back: changed only if the entry is in range and not already as wanted.\<close>

definition updated_byte :: "bool \<Rightarrow> bool \<Rightarrow> bool \<Rightarrow> nat \<Rightarrow> u8 \<Rightarrow> u8" where
  "updated_byte as occupied in_range which_bit byte =
     (let bitmask = push_bit which_bit 1 in
      if as then (if occupied then byte else if \<not> in_range then byte else byte OR bitmask)
      else (if \<not> occupied then byte else if \<not> in_range then byte else byte AND NOT bitmask))"

definition minix3_set_zone_as :: "mx3 \<Rightarrow> u32 \<Rightarrow> bool \<Rightarrow> mx3 \<times> int" where
  "minix3_set_zone_as s zone_num as =
     (if zone_num < ucast (first_data_zone (super s)) then (s, 5)
      else
        (let n = bitmap_zone s zone_num; which_byte = unat (n div 8); which_bit = unat (n mod 8);
             zone_byte_addr = zmap_begin s + which_byte; zone_byte = mx_disk s zone_byte_addr;
             zone_byte' = updated_byte as (minix3_is_zone_occupied s zone_num)
                            (minix3_is_zone_in_range s zone_num) which_bit zone_byte
         in (s\<lparr>mx_disk := disk_write (mx_disk s) zone_byte_addr [zone_byte']\<rparr>, 0)))"

definition minix3_set_zone_occupied :: "mx3 \<Rightarrow> u32 \<Rightarrow> mx3 \<times> int" where
  "minix3_set_zone_occupied s zone_num = minix3_set_zone_as s zone_num True"

definition minix3_set_zone_unoccupied :: "mx3 \<Rightarrow> u32 \<Rightarrow> mx3 \<times> int" where
  "minix3_set_zone_unoccupied s zone_num = minix3_set_zone_as s zone_num False"

definition minix3_set_inode_as :: "mx3 \<Rightarrow> u32 \<Rightarrow> bool \<Rightarrow> mx3 \<times> int" where
  "minix3_set_inode_as s inode_num as =
     (if inode_num = 0 then (s, 5)
      else
        (let n = inode_num - 1; which_byte = unat (n div 8); which_bit = unat (n mod 8);
             inode_byte_addr = imap_begin s + which_byte; inode_byte = mx_disk s inode_byte_addr;
             inode_byte' = updated_byte as (minix3_is_inode_occupied s inode_num)
                             (minix3_is_inode_in_range s inode_num) which_bit inode_byte
         in (s\<lparr>mx_disk := disk_write (mx_disk s) inode_byte_addr [inode_byte']\<rparr>, 0)))"

definition minix3_set_inode_occupied :: "mx3 \<Rightarrow> u32 \<Rightarrow> mx3 \<times> int" where
  "minix3_set_inode_occupied s inode_num = minix3_set_inode_as s inode_num True"

definition minix3_set_inode_unoccupied :: "mx3 \<Rightarrow> u32 \<Rightarrow> mx3 \<times> int" where
  "minix3_set_inode_unoccupied s inode_num = minix3_set_inode_as s inode_num False"

text \<open>
  The byte address of a zone: a 32-bit product where the code multiplies before widening, a
  64-bit one where it widens first.
\<close>

definition zone_addr32 :: "mx3 \<Rightarrow> u32 \<Rightarrow> nat" where
  "zone_addr32 s zone = unat (ucast (mx3_block_size s) * zone)"

definition zone_addr64 :: "mx3 \<Rightarrow> u32 \<Rightarrow> nat" where
  "zone_addr64 s zone = unat (mx3_block_size s) * unat zone"

definition minix3_set_zone_to_zero :: "mx3 \<Rightarrow> u32 \<Rightarrow> mx3" where
  "minix3_set_zone_to_zero s which_zone =
     s\<lparr>mx_disk := disk_write (mx_disk s) (zone_addr32 s which_zone) (replicate (unat (mx3_block_size s)) 0)\<rparr>"

partial_function (option) available_zone_from :: "mx3 \<Rightarrow> u32 \<Rightarrow> u32 option" where
  "available_zone_from s test =
     (let test1 = (if \<not> minix3_is_zone_in_range s test then 0 else test)
      in if \<not> minix3_is_zone_occupied s test1 then Some test1 else available_zone_from s (test1 + 1))"

definition minix3_get_available_zone :: "mx3 \<Rightarrow> (mx3 \<times> u32) option" where
  "minix3_get_available_zone s =
     (let test = (if test_available_zone_num s = 0 then ucast (first_data_zone (super s))
                  else test_available_zone_num s)
      in do { z \<leftarrow> available_zone_from s test;
              Some (minix3_set_zone_to_zero (s\<lparr>test_available_zone_num := z\<rparr>) z, z) })"

partial_function (option) available_inode_from :: "mx3 \<Rightarrow> u32 \<Rightarrow> u32 option" where
  "available_inode_from s test =
     (let test1 = (if \<not> minix3_is_inode_in_range s test then 1 else test)
      in if \<not> minix3_is_inode_occupied s test1 then Some test1 else available_inode_from s (test1 + 1))"

definition minix3_get_available_inode :: "mx3 \<Rightarrow> (mx3 \<times> u32) option" where
  "minix3_get_available_inode s =
     do { n \<leftarrow> available_inode_from s (test_available_inode_num s);
          Some (s\<lparr>test_available_inode_num := n\<rparr>, n) }"

section \<open>Inodes\<close>

definition inode_offset :: "mx3 \<Rightarrow> u32 \<Rightarrow> nat" where
  "inode_offset s inode_num =
     MX3_BOOT_BLOCK_SIZE + unat (mx3_block_size s) +
     unat (imap_blocks (super s)) * unat (mx3_block_size s) +
     unat (zone_blocks (super s)) * unat (mx3_block_size s) + unat (inode_num - 1) * SIZEOF_INODE"

definition minix3_get_inode :: "mx3 \<Rightarrow> u32 \<Rightarrow> mx3_inode" where
  "minix3_get_inode s inode_num = parse_inode (mx_disk s) (inode_offset s inode_num)"

definition minix3_put_inode :: "mx3 \<Rightarrow> u32 \<Rightarrow> mx3_inode \<Rightarrow> mx3" where
  "minix3_put_inode s inode_num n =
     s\<lparr>mx_disk := disk_write (mx_disk s) (inode_offset s inode_num) (inode_bytes n)\<rparr>"

section \<open>Little-endian round trips\<close>

lemma take_next_byte:
  "take_bit n v OR push_bit n (take_bit 8 (drop_bit n v)) = take_bit (n + 8) (v :: 'a::len word)"
  by (rule bit_eqI) (auto simp: bit_simps)

lemma ucast_byte: "(ucast (ucast v :: u8) :: u32) = take_bit 8 v"
  by (rule bit_word_eqI) (auto simp: bit_simps)

lemma rd16_le16: "d a = le16 v ! 0 \<Longrightarrow> d (a + 1) = le16 v ! 1 \<Longrightarrow> rd16 d a = v"
  unfolding rd16_def le16_def by (rule bit_word_eqI) (auto simp: bit_simps)

lemma rd32_le32:
  assumes "\<And>k. k < 4 \<Longrightarrow> d (a + k) = le32 v ! k"
  shows "rd32 d a = v"
proof -
  have "d a = ucast v" "d (a + 1) = ucast (drop_bit 8 v)" "d (a + 2) = ucast (drop_bit 16 v)"
    "d (a + 3) = ucast (drop_bit 24 v)"
    using assms [of 0] assms [of 1] assms [of 2] assms [of 3] by (simp_all add: le32_def numeral_2_eq_2 numeral_3_eq_3)
  moreover have "take_bit 32 v = v" by (simp add: take_bit_word_eq_self)
  ultimately show ?thesis
    using take_next_byte [of 8 v] take_next_byte [of 16 v] take_next_byte [of 24 v]
    by (simp add: rd32_def ucast_byte flip: or.assoc)
qed

lemma length_le [simp]: "length (le16 v) = 2" "length (le32 w) = 4"
  by (simp_all add: le16_def le32_def)

lemma length_concat_le32 [simp]: "length (concat (map le32 vs)) = 4 * length vs"
  by (induction vs) auto

lemma nth_concat_le32: "k < length vs \<Longrightarrow> j < 4 \<Longrightarrow> concat (map le32 vs) ! (4 * k + j) = le32 (vs ! k) ! j"
proof (induction vs arbitrary: k)
  case (Cons v vs)
  then show ?case by (cases k) (auto simp: nth_append)
qed simp

lemma rd16_cong: "d a = e b \<Longrightarrow> d (a + 1) = e (b + 1) \<Longrightarrow> rd16 d a = rd16 e b"
  by (simp add: rd16_def)

lemma rd32_cong: "(\<And>k. k < 4 \<Longrightarrow> d (a + k) = e (b + k)) \<Longrightarrow> rd32 d a = rd32 e b"
proof -
  assume "\<And>k. k < 4 \<Longrightarrow> d (a + k) = e (b + k)"
  from this [of 0] this [of 1] this [of 2] this [of 3] show ?thesis by (simp add: rd32_def)
qed

text \<open>A 32-bit value written at the head of a list of bytes is read back, and likewise further on.\<close>

lemma rd32_disk_write:
  assumes "k + 4 \<le> length bs" and "take 4 (drop k bs) = le32 v"
  shows "rd32 (disk_write d a bs) (a + k) = v"
proof (rule rd32_le32)
  fix j :: nat assume "j < 4"
  moreover have "take 4 (drop k bs) ! j = bs ! (k + j)" using \<open>j < 4\<close> assms(1) by simp
  ultimately show "disk_write d a bs (a + k + j) = le32 v ! j"
    using assms by (simp add: disk_write_def)
qed

lemma rd16_disk_write:
  assumes "k + 2 \<le> length bs" and "take 2 (drop k bs) = le16 v"
  shows "rd16 (disk_write d a bs) (a + k) = v"
proof (rule rd16_le16)
  have "take 2 (drop k bs) ! 0 = bs ! k" "take 2 (drop k bs) ! 1 = bs ! (k + 1)" using assms(1) by simp_all
  then show "disk_write d a bs (a + k) = le16 v ! 0" "disk_write d a bs (a + k + 1) = le16 v ! 1"
    using assms by (simp_all add: disk_write_def)
qed

lemma parse_inode_bytes:
  assumes "length (i_zones n) = 10"
  shows "parse_inode (disk_write d a (inode_bytes n)) a = n"
proof -
  let ?d = "disk_write d a (inode_bytes n)"
  have l: "length (inode_bytes n) = 64" using assms by (simp add: inode_bytes_def)
  note r16 = rd16_disk_write [where d = d and a = a and bs = "inode_bytes n"]
  note r32 = rd32_disk_write [where d = d and a = a and bs = "inode_bytes n"]
  have h: "rd16 ?d a = i_mode n" "rd16 ?d (a + 2) = i_nlinks n" "rd16 ?d (a + 4) = i_uid n"
    "rd16 ?d (a + 6) = i_gid n" "rd32 ?d (a + 8) = i_size n" "rd32 ?d (a + 12) = i_atime n"
    "rd32 ?d (a + 16) = i_ctime n" "rd32 ?d (a + 20) = i_mtime n"
    using r16 [of 0 "i_mode n"] r16 [of 2 "i_nlinks n"] r16 [of 4 "i_uid n"] r16 [of 6 "i_gid n"]
      r32 [of 8 "i_size n"] r32 [of 12 "i_atime n"] r32 [of 16 "i_ctime n"] r32 [of 20 "i_mtime n"]
    unfolding l by (simp_all add: inode_bytes_def)
  have "rd32 ?d (a + 24 + 4 * k) = i_zones n ! k" if "k < 10" for k
  proof (rule rd32_le32)
    fix j :: nat assume j: "j < 4"
    have "inode_bytes n ! (24 + (4 * k + j)) = concat (map le32 (i_zones n)) ! (4 * k + j)"
      by (simp add: inode_bytes_def nth_append)
    then show "?d (a + 24 + 4 * k + j) = le32 (i_zones n ! k) ! j"
      using that j l nth_concat_le32 [of k "i_zones n" j] assms by (simp add: disk_write_def add.assoc)
  qed
  then have "map (\<lambda>k. rd32 ?d (a + 24 + 4 * k)) [0..<10] = i_zones n"
    using assms by (intro nth_equalityI) auto
  then show ?thesis using h by (simp add: parse_inode_def)
qed

section \<open>The superblock is left alone\<close>

text \<open>Everything the file system writes lies behind the superblock.\<close>

lemma parse_superblock_cong:
  assumes "\<And>x. a \<le> x \<Longrightarrow> x \<le> a + 30 \<Longrightarrow> d x = e x"
  shows "parse_superblock d a = parse_superblock e a"
  unfolding parse_superblock_def rd16_def rd32_def using assms by simp

lemma super_write [simp]:
  "MX3_BOOT_BLOCK_SIZE + 31 \<le> a \<Longrightarrow> super (s\<lparr>mx_disk := disk_write (mx_disk s) a bs\<rparr>) = super s"
  unfolding super_def by (rule parse_superblock_cong) (simp add: disk_write_def)

lemma super_fields [simp]:
  "super (s\<lparr>test_available_zone_num := z\<rparr>) = super s" "super (s\<lparr>test_available_inode_num := z\<rparr>) = super s"
  by (simp_all add: super_def)

section \<open>Setting a bit of a bitmap\<close>

lemma unat_lt_32: "unat (x :: u32) < 2 ^ 32"
  using unsigned_less [of x] by simp

lemma unat_Suc_32: "t + 1 \<noteq> 0 \<Longrightarrow> unat (t + 1 :: u32) = unat t + 1"
  using unat_lt_32 [of t] by (simp add: word_unat_eq_iff unat_word_ariths mod_Suc split: if_splits)

lemma unat_mod_8: "unat ((n :: u32) mod 8) < 8"
  by (simp add: unat_mod)

lemma map_bit_iff: "map_bit d start n = bit (d (start + unat (n div 8))) (unat (n mod 8))"
proof -
  have "(drop_bit k (b AND push_bit k 1) \<noteq> 0) = bit b k" if "k < 8" for k and b :: u8
  proof -
    have "drop_bit k (b AND push_bit k 1) = (if bit b k then 1 else 0)"
    proof (rule bit_word_eqI)
      fix n
      show "bit (drop_bit k (b AND push_bit k 1)) n = bit (if bit b k then 1 else 0 :: u8) n"
        using that by (cases "n = 0") (auto simp: bit_simps)
    qed
    then show ?thesis by simp
  qed
  then show ?thesis using unat_mod_8 by (simp add: map_bit_def Let_def)
qed

lemma bit_updated_byte:
  assumes "occupied = bit b k" and "in_range" and "k < 8" and "j < 8"
  shows "bit (updated_byte as occupied in_range k b) j = (if j = k then as else bit b j)"
  using assms by (auto simp: updated_byte_def Let_def bit_simps)

lemma same_bit_iff: "m div 8 = n div 8 \<and> unat (m mod 8) = unat (n mod 8) \<longleftrightarrow> m = (n :: u32)"
proof
  assume "m div 8 = n div 8 \<and> unat (m mod 8) = unat (n mod 8)"
  then have "m div 8 = n div 8" "m mod 8 = n mod 8" by (auto simp only: word_unat_eq_iff)
  then have "m div 8 * 8 + m mod 8 = n div 8 * 8 + n mod 8" by (simp only:)
  then show "m = n" by (simp only: div_mult_mod_eq)
qed simp

lemma map_bit_write:
  assumes "bit b (unat (n mod 8)) = as"
    and "\<And>j. j < 8 \<Longrightarrow> j \<noteq> unat (n mod 8) \<Longrightarrow> bit b j = bit (d (start + unat (n div 8))) j"
  shows "map_bit (disk_write d (start + unat (n div 8)) [b]) start m = (if m = n then as else map_bit d start m)"
proof (cases "m div 8 = n div 8")
  case True
  then show ?thesis
    using assms same_bit_iff [of m n] unat_mod_8 [of m] by (auto simp: map_bit_iff disk_write_def)
next
  case False
  then have "unat (m div 8) \<noteq> unat (n div 8)" by (simp add: word_unat_eq_iff)
  moreover have "m \<noteq> n" using False by auto
  ultimately show ?thesis by (auto simp: map_bit_iff disk_write_def)
qed

lemma zmap_begin_write [simp]:
  "MX3_BOOT_BLOCK_SIZE + 31 \<le> a \<Longrightarrow> zmap_begin (s\<lparr>mx_disk := disk_write (mx_disk s) a bs\<rparr>) = zmap_begin s"
  by (simp add: zmap_begin_def)

text \<open>
  Marking a zone that is in range makes exactly that zone occupied or free: the status of
  every other zone, the superblock and every other byte of the disk stay as they were.
\<close>

theorem minix3_set_zone_as_correct:
  assumes "31 \<le> unat (mx3_block_size s)" and "minix3_is_zone_in_range s zone"
    and "minix3_set_zone_as s zone as = (s', r)"
  shows "r = 0 \<and> super s' = super s \<and>
    (\<forall>y. minix3_is_zone_occupied s' y = (if y = zone then as else minix3_is_zone_occupied s y)) \<and>
    (\<forall>a. a = zmap_begin s + unat (bitmap_zone s zone div 8) \<or> mx_disk s' a = mx_disk s a)"
proof -
  let ?n = "bitmap_zone s zone" and ?f = "ucast (first_data_zone (super s)) :: u32"
  let ?a = "zmap_begin s + unat (?n div 8)"
  have lo: "\<not> zone < ?f" using assms(2) by (auto simp: minix3_is_zone_in_range_def Let_def)
  define b where "b = updated_byte as (minix3_is_zone_occupied s zone) True (unat (?n mod 8)) (mx_disk s ?a)"
  have s': "s' = s\<lparr>mx_disk := disk_write (mx_disk s) ?a [b]\<rparr>" "r = 0"
    using assms(2,3) lo by (auto simp: minix3_set_zone_as_def Let_def b_def)
  have beh: "MX3_BOOT_BLOCK_SIZE + 31 \<le> ?a" using assms(1) by (simp add: zmap_begin_def)
  have "bit b j = (if j = unat (?n mod 8) then as else bit (mx_disk s ?a) j)" if "j < 8" for j
    unfolding b_def by (rule bit_updated_byte)
      (use lo that unat_mod_8 in \<open>auto simp: minix3_is_zone_occupied_def map_bit_iff Let_def\<close>)
  then have mb: "map_bit (mx_disk s') (zmap_begin s) m = (if m = ?n then as else map_bit (mx_disk s) (zmap_begin s) m)" for m
    using map_bit_write [of b ?n as "mx_disk s" _ m] unat_mod_8 [of ?n] by (simp add: s')
  have su: "super s' = super s" using beh by (simp add: s')
  moreover have "minix3_is_zone_occupied s' y = (if y = zone then as else minix3_is_zone_occupied s y)" for y
    using mb [of "bitmap_zone s y"] lo beh su
    by (auto simp: minix3_is_zone_occupied_def Let_def bitmap_zone_def s')
  moreover have "a = ?a \<or> mx_disk s' a = mx_disk s a" for a by (auto simp: s' disk_write_def)
  ultimately show ?thesis using s'(2) by blast
qed

text \<open>
  The same for inodes. The range check admits one inode more than there are (it compares
  \<open>inode_num - 1 > num_inodes\<close>).
\<close>

lemma minix3_set_inode_as_correct:
  assumes "31 \<le> unat (mx3_block_size s)" and "minix3_is_inode_in_range s n"
    and "minix3_set_inode_as s n as = (s', r)"
  shows "r = 0 \<and> super s' = super s \<and>
    (\<forall>y. minix3_is_inode_occupied s' y = (if y = n then as else minix3_is_inode_occupied s y))"
proof -
  let ?n = "n - 1" and ?a = "imap_begin s + unat ((n - 1) div 8)"
  have nz: "n \<noteq> 0" using assms(2) by (auto simp: minix3_is_inode_in_range_def)
  define b where "b = updated_byte as (minix3_is_inode_occupied s n) True (unat (?n mod 8)) (mx_disk s ?a)"
  have s': "s' = s\<lparr>mx_disk := disk_write (mx_disk s) ?a [b]\<rparr>" "r = 0"
    using assms(2,3) nz by (auto simp: minix3_set_inode_as_def Let_def b_def)
  have "bit b j = (if j = unat (?n mod 8) then as else bit (mx_disk s ?a) j)" if "j < 8" for j
    unfolding b_def by (rule bit_updated_byte)
      (use nz that unat_mod_8 in \<open>auto simp: minix3_is_inode_occupied_def map_bit_iff\<close>)
  then have mb: "map_bit (mx_disk s') (imap_begin s) m = (if m = ?n then as else map_bit (mx_disk s) (imap_begin s) m)" for m
    using map_bit_write [of b ?n as "mx_disk s" _ m] unat_mod_8 [of ?n] by (simp add: s')
  have "super s' = super s" using assms(1) by (simp add: s' imap_begin_def)
  moreover have "minix3_is_inode_occupied s' y = (if y = n then as else minix3_is_inode_occupied s y)" for y
    using mb [of "y - 1"] nz by (auto simp: minix3_is_inode_occupied_def s' imap_begin_def)
  ultimately show ?thesis using s'(2) by blast
qed

section \<open>The search for a free zone\<close>

definition free_zone :: "mx3 \<Rightarrow> u32 \<Rightarrow> bool" where
  "free_zone s z \<longleftrightarrow> minix3_is_zone_in_range s z \<and> \<not> minix3_is_zone_occupied s z"

lemma in_range_between:
  assumes "minix3_is_zone_in_range s z" and "ucast (first_data_zone (super s)) \<le> y" and "y \<le> z"
  shows "minix3_is_zone_in_range s y"
proof -
  let ?f = "ucast (first_data_zone (super s)) :: u32"
  have "y - ?f \<le> z - ?f" using assms(2,3) 
    by (meson order_trans word_le_minus_mono_left)
  then show ?thesis
    using assms by (auto simp: minix3_is_zone_in_range_def bitmap_zone_def Let_def not_le not_less split: if_splits)
qed

lemma available_zone_step:
  "minix3_is_zone_in_range s t \<Longrightarrow>
   available_zone_from s t = (if minix3_is_zone_occupied s t then available_zone_from s (t + 1) else Some t)"
  by (subst available_zone_from.simps) simp

lemma available_zone_first:
  assumes "ucast (first_data_zone (super s)) \<le> t" and "t \<le> z" and "free_zone s z"
    and "\<And>y. t \<le> y \<Longrightarrow> y < z \<Longrightarrow> \<not> free_zone s y"
  shows "available_zone_from s t = Some z"
  using assms
proof (induction "unat z - unat t" arbitrary: t)
  case 0
  then have "t = z" by (simp add: word_le_nat_alt word_unat_eq_iff)
  then show ?case using 0 by (simp add: available_zone_step free_zone_def)
next
  case (Suc k)
  then have lt: "t < z" by (simp add: word_less_nat_alt)
  have r: "minix3_is_zone_in_range s t" using in_range_between Suc.prems(1,2,3) by (auto simp: free_zone_def)
  then have "minix3_is_zone_occupied s t" using Suc.prems(4) [of t] lt by (simp add: free_zone_def)
  moreover have t1: "unat (t + 1) = unat t + 1"
    using lt unat_lt_32 [of z] by (simp add: unat_word_ariths word_less_nat_alt)
  have "available_zone_from s (t + 1) = Some z"
  proof (rule Suc.hyps(1))
    show "k = unat z - unat (t + 1)" using Suc.hyps(2) t1 by simp
    show "ucast (first_data_zone (super s)) \<le> t + 1" "t + 1 \<le> z"
      using t1 lt Suc.prems(1) by (auto simp: word_le_nat_alt word_less_nat_alt)
    show "free_zone s z" by (rule Suc.prems(3))
    fix y assume "t + 1 \<le> y" "y < z"
    then show "\<not> free_zone s y" using Suc.prems(4) [of y] t1 by (simp add: word_le_nat_alt)
  qed
  ultimately show ?case using r by (simp add: available_zone_step)
qed

text \<open>Beyond the last free zone the search restarts at zone 0, which is never in range.\<close>

definition no_zone_ahead :: "mx3 \<Rightarrow> u32 \<Rightarrow> bool" where
  "no_zone_ahead s t \<longleftrightarrow> t = 0 \<or> t = 1 \<or> (\<forall>z \<ge> t. \<not> free_zone s z)"

lemma no_zone_ahead_step:
  assumes "no_zone_ahead s t" and "2 \<le> unat (first_data_zone (super s))"
    and "t1 = (if \<not> minix3_is_zone_in_range s t then 0 else t)"
  shows "minix3_is_zone_occupied s t1" "no_zone_ahead s (t1 + 1)"
proof -
  have uf: "unat (ucast (first_data_zone (super s)) :: u32) = unat (first_data_zone (super s))"
    by (simp add: unsigned_ucast_eq take_bit_word_eq_self unsigned_take_bit_eq take_bit_nat_eq_self
        less_trans [OF unsigned_less])
  have small: "\<not> minix3_is_zone_in_range s u \<and> minix3_is_zone_occupied s u" if "u = 0 \<or> u = 1" for u
    using that assms(2) uf
    by (auto simp: minix3_is_zone_in_range_def minix3_is_zone_occupied_def Let_def word_less_nat_alt)
  show "minix3_is_zone_occupied s t1"
    using assms(1,3) small by (auto simp: no_zone_ahead_def free_zone_def)
  show "no_zone_ahead s (t1 + 1)"
  proof (cases "minix3_is_zone_in_range s t")
    case True
    then have a: "\<forall>z \<ge> t. \<not> free_zone s z" and t: "t1 = t" using assms(1,3) small by (auto simp: no_zone_ahead_def)
    show ?thesis
    proof (cases "t + 1 = 0")
      case False
      then have "unat (t + 1) = unat t + 1" by (rule unat_Suc_32)
      then show ?thesis using a t by (auto simp: no_zone_ahead_def word_le_nat_alt)
    qed (simp add: no_zone_ahead_def t)
  qed (simp add: no_zone_ahead_def assms(3))
qed

lemma available_zone_diverges:
  assumes "no_zone_ahead s t" and "2 \<le> unat (first_data_zone (super s))"
  shows "available_zone_from s t = None"
proof (rule ccontr)
  assume "available_zone_from s t \<noteq> None"
  then obtain z where "available_zone_from s t = Some z" by blast
  then have "\<not> (no_zone_ahead s t \<and> 2 \<le> unat (first_data_zone (super s)))"
  proof (rule available_zone_from.raw_induct [rotated])
    fix f :: "mx3 \<Rightarrow> u32 \<Rightarrow> u32 option" and s t z
    assume ih: "\<And>s t z. f s t = Some z \<Longrightarrow> \<not> (no_zone_ahead s t \<and> 2 \<le> unat (first_data_zone (super s)))"
      and r: "(let test1 = if \<not> minix3_is_zone_in_range s t then 0 else t
           in if \<not> minix3_is_zone_occupied s test1 then Some test1 else f s (test1 + 1)) = Some z"
    show "\<not> (no_zone_ahead s t \<and> 2 \<le> unat (first_data_zone (super s)))"
    proof
      assume a: "no_zone_ahead s t \<and> 2 \<le> unat (first_data_zone (super s))"
      define t1 where "t1 = (if \<not> minix3_is_zone_in_range s t then 0 else t)"
      note n = no_zone_ahead_step [OF conjunct1 [OF a] conjunct2 [OF a] t1_def]
      have "f s (t1 + 1) = Some z" using r n(1) by (simp add: Let_def flip: t1_def)
      then show False using ih n(2) a by blast
    qed
  qed
  then show False using assms by blast
qed

text \<open>
  C37: The search for a free zone, from its remembered position on, returns the first free zone,
  zeroed on the disk. When no zone is free from that position to the end it never returns, even
  if zones before the position are free: it restarts at zone 0, which is not a data zone, and
  keeps restarting there.
\<close>

theorem minix3_get_available_zone_spec:
  assumes "2 \<le> unat (first_data_zone (super s))"
    and "t = (if test_available_zone_num s = 0 then ucast (first_data_zone (super s)) else test_available_zone_num s)"
    and "ucast (first_data_zone (super s)) \<le> t"
  shows "(\<forall>z \<ge> t. free_zone s z \<longrightarrow> (\<forall>y \<ge> t. y < z \<longrightarrow> \<not> free_zone s y) \<longrightarrow>
      minix3_get_available_zone s =
        Some (minix3_set_zone_to_zero (s\<lparr>test_available_zone_num := z\<rparr>) z, z)) \<and>
    ((\<forall>z \<ge> t. \<not> free_zone s z) \<longrightarrow> minix3_get_available_zone s = None)"
proof (intro conjI allI impI)
  fix z assume "t \<le> z" "free_zone s z" "\<forall>y \<ge> t. y < z \<longrightarrow> \<not> free_zone s y"
  then have "available_zone_from s t = Some z" using assms(3) by (intro available_zone_first) auto
  then show "minix3_get_available_zone s =
      Some (minix3_set_zone_to_zero (s\<lparr>test_available_zone_num := z\<rparr>) z, z)"
    using assms(2) by (simp add: minix3_get_available_zone_def Let_def)
next
  assume "\<forall>z \<ge> t. \<not> free_zone s z"
  then have "available_zone_from s t = None"
    using assms(1) by (intro available_zone_diverges) (auto simp: no_zone_ahead_def)
  then show "minix3_get_available_zone s = None"
    using assms(2) by (simp add: minix3_get_available_zone_def Let_def)
qed

section \<open>Inodes on the disk\<close>

lemma inode_bytes_length: "length (i_zones n) = 10 \<Longrightarrow> length (inode_bytes n) = 64"
  by (simp add: inode_bytes_def)

lemma parse_inode_cong:
  assumes "\<And>x. a \<le> x \<Longrightarrow> x < a + 64 \<Longrightarrow> d x = e x"
  shows "parse_inode d a = parse_inode e a"
proof -
  have r16: "rd16 d (a + k) = rd16 e (a + k)" if "k \<le> 62" for k using assms that by (intro rd16_cong) auto
  have r32: "rd32 d (a + k) = rd32 e (a + k)" if "k \<le> 60" for k using assms that by (intro rd32_cong) auto
  have "rd32 d (a + 24 + 4 * k) = rd32 e (a + 24 + 4 * k)" if "k < 10" for k
    using r32 [of "24 + 4 * k"] that by (simp add: add.assoc)
  then show ?thesis using r16 [of 0] r16 [of 2] r16 r32 unfolding parse_inode_def by simp
qed

lemma inode_offset_behind: "31 \<le> unat (mx3_block_size s) \<Longrightarrow> MX3_BOOT_BLOCK_SIZE + 31 \<le> inode_offset s k"
  by (simp add: inode_offset_def)

lemma inode_offset_apart:
  assumes "j \<noteq> k"
  shows "inode_offset s j + 64 \<le> inode_offset s k \<or> inode_offset s k + 64 \<le> inode_offset s j"
proof -
  have "unat (j - 1) \<noteq> unat (k - 1)" using assms by (simp add: word_unat_eq_iff [symmetric])
  then show ?thesis by (simp add: inode_offset_def) linarith
qed

text \<open>
  An inode that was written is read back field by field, every other inode and the superblock
  read as before.
\<close>

theorem minix3_inode_roundtrip:
  assumes "31 \<le> unat (mx3_block_size s)" and "length (i_zones n) = 10"
  shows "minix3_get_inode (minix3_put_inode s k n) k = n \<and>
    (\<forall>j. j = k \<or> minix3_get_inode (minix3_put_inode s k n) j = minix3_get_inode s j) \<and>
    super (minix3_put_inode s k n) = super s"
proof -
  have su: "super (minix3_put_inode s k n) = super s"
    using inode_offset_behind [OF assms(1)] by (simp add: minix3_put_inode_def)
  then have off: "inode_offset (minix3_put_inode s k n) j = inode_offset s j" for j
    by (simp add: inode_offset_def minix3_put_inode_def)
  have same: "minix3_get_inode (minix3_put_inode s k n) k = n"
    using parse_inode_bytes [OF assms(2)] by (simp add: minix3_get_inode_def off) (simp add: minix3_put_inode_def)
  have "minix3_get_inode (minix3_put_inode s k n) j = minix3_get_inode s j" if "j \<noteq> k" for j
    unfolding minix3_get_inode_def off
    by (rule parse_inode_cong)
       (use inode_offset_apart [OF that, of s] inode_bytes_length [OF assms(2)]
        in \<open>auto simp: minix3_put_inode_def disk_write_def\<close>)
  then show ?thesis using same su by blast
qed

section \<open>A small file system\<close>

text \<open>
  Blocks of 1024 bytes, one bitmap block each, eight inodes, four data zones from zone 6 on, of
  which the first is taken.
\<close>

definition demo_disk :: disk where
  "demo_disk = (\<lambda>_. 0)(1024 := 8, 1030 := 1, 1032 := 1, 1034 := 6, 1044 := 4, 1048 := 0x5a, 1049 := 0x4d,
     1053 := 4, 2048 := 1, 3072 := 1)"

definition demo_fs :: mx3 where
  "demo_fs = \<lparr>mx_disk = demo_disk, mx3_block_size = 1024, test_available_zone_num = 0,
     test_available_inode_num = 1, mx_junk = 0\<rparr>"

lemma demo_super:
  "num_inodes (super demo_fs) = 8" "imap_blocks (super demo_fs) = 1" "zone_blocks (super demo_fs) = 1"
  "first_data_zone (super demo_fs) = 6" "num_zones (super demo_fs) = 4" "mx3_block_size demo_fs = 1024"
  "magic (super demo_fs) = MX3_MAGIC"
  by (simp_all add: super_def parse_superblock_def demo_fs_def demo_disk_def rd16_def rd32_def push_bit_eq_mult)

lemma demo_zones:
  "minix3_is_zone_in_range demo_fs 6" "minix3_is_zone_in_range demo_fs 7"
  "minix3_is_zone_occupied demo_fs 6" "\<not> minix3_is_zone_occupied demo_fs 7"
  by (simp_all add: minix3_is_zone_in_range_def minix3_is_zone_occupied_def bitmap_zone_def demo_super
      map_bit_def zmap_begin_def) (simp_all add: demo_fs_def demo_disk_def push_bit_eq_mult word_le_nat_alt)

theorem minix3_set_zone_as_correct_witness:
  "snd (minix3_set_zone_as demo_fs 7 True) = 0 \<and>
   minix3_is_zone_occupied (fst (minix3_set_zone_as demo_fs 7 True)) 7 \<and>
   minix3_is_zone_occupied (fst (minix3_set_zone_as demo_fs 7 True)) 6"
  using minix3_set_zone_as_correct [of demo_fs 7 True "fst (minix3_set_zone_as demo_fs 7 True)"
      "snd (minix3_set_zone_as demo_fs 7 True)"] demo_zones by (simp add: demo_super)

theorem minix3_get_available_zone_spec_witness:
  "\<exists>s'. minix3_get_available_zone demo_fs = Some (s', 7)"
proof -
  have "y = 6" if "6 \<le> y" "y < 7" for y :: u32
    using that by (simp add: word_le_nat_alt word_less_nat_alt word_unat_eq_iff)
  then have "\<forall>y \<ge> 6. y < 7 \<longrightarrow> \<not> free_zone demo_fs y" using demo_zones by (auto simp: free_zone_def)
  moreover have "free_zone demo_fs 7" "test_available_zone_num demo_fs = 0"
    using demo_zones by (simp_all add: free_zone_def demo_fs_def)
  moreover have "(6 :: u32) \<le> 7" by (simp add: word_le_nat_alt)
  ultimately show ?thesis
    using conjunct1 [OF minix3_get_available_zone_spec [of demo_fs 6], THEN spec, of 7] by (simp add: demo_super)
qed

theorem minix3_inode_roundtrip_witness:
  "minix3_get_inode (minix3_put_inode demo_fs 2 (zero_inode\<lparr>i_size := 5\<rparr>)) 2 = zero_inode\<lparr>i_size := 5\<rparr>"
  using minix3_inode_roundtrip [of demo_fs "zero_inode\<lparr>i_size := 5\<rparr>" 2] by (simp add: demo_super zero_inode_def)

end
