(* ===== verification/Minix3_Zones.thy ===== *)
theory Minix3_Zones
  imports Minix3
begin

text \<open>
  The zones of a file, from \<^verbatim>\<open>src/minix3.c\<close>: \<open>minix3_zone_walker\<close>, which finds or sets the zone at
  a position of a file through the direct, indirect, doubly and triply indirect pointers of its
  inode, its callers, and \<open>minix3_clear_all_zones\<close>. A zone of pointers is the list of the 32-bit
  words in it. The walker's loops are functions that return early with the zone, as the
  \<open>goto freeall\<close> of the code does; the messages printed at that label are left out.
\<close>

section \<open>Model\<close>

text \<open>Pointers per zone, and reading and writing a zone of pointers.\<close>

definition ppz :: "mx3 \<Rightarrow> nat" where
  "ppz s = unat (mx3_block_size s) div 4"

definition read_ptrs :: "mx3 \<Rightarrow> nat \<Rightarrow> u32 list" where
  "read_ptrs s a = map (\<lambda>j. rd32 (mx_disk s) (a + 4 * j)) [0..<ppz s]"

definition write_ptrs :: "mx3 \<Rightarrow> nat \<Rightarrow> u32 list \<Rightarrow> mx3" where
  "write_ptrs s a zs = s\<lparr>mx_disk := disk_write (mx_disk s) a (concat (map le32 zs))\<rparr>"

definition minix3_get_file_max_zones :: "u16 \<Rightarrow> u32" where
  "minix3_get_file_max_zones fs_block_size =
     (let p = ucast fs_block_size div 4 in 7 + p + p * p + p * p * p)"

text \<open>\<open>remaining_size -= (fs_block_size < remaining_size ? fs_block_size : remaining_size)\<close>\<close>

definition less_block :: "mx3 \<Rightarrow> u32 \<Rightarrow> u32" where
  "less_block s rem = rem - (if ucast (mx3_block_size s) < rem then ucast (mx3_block_size s) else rem)"

text \<open>
  The loop over a list of zone pointers, from file position \<open>i\<close> and list position \<open>j\<close>: the list
  position where the wanted one was reached, if any.
\<close>

fun scan_ptrs :: "mx3 \<Rightarrow> u32 \<Rightarrow> u32 list \<Rightarrow> u32 \<Rightarrow> u32 \<Rightarrow> nat \<Rightarrow> u32 \<times> u32 \<times> nat option" where
  "scan_ptrs s zone_index [] i rem j = (i, rem, None)"
| "scan_ptrs s zone_index (z # zs) i rem j =
     (if i \<ge> zone_index then (i, rem, Some j)
      else scan_ptrs s zone_index zs (i + 1) (if z \<noteq> 0 then less_block s rem else rem) (j + 1))"

text \<open>One zone of direct pointers at disk address \<open>a\<close>, set in place if asked.\<close>

definition walk_I :: "mx3 \<Rightarrow> nat \<Rightarrow> u32 \<Rightarrow> bool \<Rightarrow> u32 \<Rightarrow> u32 \<Rightarrow> u32 \<Rightarrow> mx3 \<times> u32 \<times> u32 \<times> u32 option" where
  "walk_I s a zone_index do_set set_to i rem =
     (let zs = read_ptrs s a in
      case scan_ptrs s zone_index zs i rem 0 of
        (i', rem', None) \<Rightarrow> (s, i', rem', None)
      | (i', rem', Some j) \<Rightarrow>
          if do_set then (write_ptrs s a (zs[j := set_to]), i', rem', Some set_to)
          else (s, i', rem', Some (zs ! j)))"

text \<open>A fresh zone for pointers: taken, marked and zeroed.\<close>

definition alloc_zone :: "mx3 \<Rightarrow> (mx3 \<times> u32) option" where
  "alloc_zone s =
     do { (s1, next_zone) \<leftarrow> minix3_get_available_zone s;
          Some (minix3_set_zone_to_zero (fst (minix3_set_zone_occupied s1 next_zone)) next_zone, next_zone) }"

text \<open>One zone of indirect pointers at disk address \<open>a\<close>, whose list is \<open>izs\<close>, from entry \<open>k\<close> on.\<close>

fun walk_II ::
    "nat list \<Rightarrow> mx3 \<Rightarrow> nat \<Rightarrow> u32 list \<Rightarrow> u32 \<Rightarrow> bool \<Rightarrow> u32 \<Rightarrow> u32 \<Rightarrow> u32 \<Rightarrow>
     (mx3 \<times> u32 \<times> u32 \<times> u32 option) option" where
  "walk_II [] s a izs zone_index do_set set_to i rem = Some (s, i, rem, None)"
| "walk_II (k # ks) s a izs zone_index do_set set_to i rem =
     do { (s1, izs1) \<leftarrow>
            (if i = zone_index \<and> do_set then
               do { (s', nz) \<leftarrow> alloc_zone s;
                    Some (write_ptrs s' a (izs[k := nz]), izs[k := nz]) }
             else Some (s, izs));
          if izs1 ! k \<noteq> 0 then
            (case walk_I s1 (zone_addr32 s1 (izs1 ! k)) zone_index do_set set_to i rem of
               (s2, i', rem', Some z) \<Rightarrow> Some (s2, i', rem', Some z)
             | (s2, i', rem', None) \<Rightarrow> walk_II ks s2 a izs1 zone_index do_set set_to i' rem')
          else walk_II ks s1 a izs1 zone_index do_set set_to (i + of_nat (ppz s)) rem }"

text \<open>
  The triply indirect loop. The zone of indirect pointers read for each entry is the inode's
  doubly indirect one, whose number is \<open>iid\<close>, not the entry's.
\<close>

fun walk_III ::
    "nat list \<Rightarrow> mx3 \<Rightarrow> nat \<Rightarrow> u32 list \<Rightarrow> u32 \<Rightarrow> u32 \<Rightarrow> bool \<Rightarrow> u32 \<Rightarrow> u32 \<Rightarrow> u32 \<Rightarrow>
     (mx3 \<times> u32 \<times> u32 \<times> u32 option) option" where
  "walk_III [] s a iizs iid zone_index do_set set_to i rem = Some (s, i, rem, None)"
| "walk_III (l # ls) s a iizs iid zone_index do_set set_to i rem =
     do { (s1, iizs1) \<leftarrow>
            (if i = zone_index \<and> do_set then
               do { (s', nz) \<leftarrow> alloc_zone s;
                    Some (write_ptrs s' a (iizs[l := nz]), iizs[l := nz]) }
             else Some (s, iizs));
          if iizs1 ! l \<noteq> 0 then
            do { let II_addr = zone_addr32 s1 iid;
                 r \<leftarrow> walk_II [0..<ppz s1] s1 II_addr (read_ptrs s1 II_addr) zone_index do_set set_to i rem;
                 (case r of
                    (s2, i', rem', Some z) \<Rightarrow> Some (s2, i', rem', Some z)
                  | (s2, i', rem', None) \<Rightarrow> walk_III ls s2 a iizs1 iid zone_index do_set set_to i' rem') }
          else walk_III ls s1 a iizs1 iid zone_index do_set set_to (i + of_nat (ppz s) * of_nat (ppz s)) rem }"

text \<open>Before an indirect pointer is followed it is allocated, if the walk starts setting there.\<close>

definition ensure_zone ::
    "mx3 \<Rightarrow> mx3_inode \<Rightarrow> nat \<Rightarrow> u32 \<Rightarrow> bool \<Rightarrow> u32 \<Rightarrow> (mx3 \<times> mx3_inode) option" where
  "ensure_zone s f k zone_index do_set i =
     (if i = zone_index \<and> do_set then
        do { (s1, nz) \<leftarrow> alloc_zone s; Some (s1, f\<lparr>i_zones := (i_zones f)[k := nz]\<rparr>) }
      else Some (s, f))"

definition walk_indirect ::
    "mx3 \<Rightarrow> mx3_inode \<Rightarrow> u32 \<Rightarrow> bool \<Rightarrow> u32 \<Rightarrow> u32 \<Rightarrow> u32 \<Rightarrow> (mx3 \<times> mx3_inode \<times> u32 \<times> u32 \<times> u32 option) option" where
  "walk_indirect s f zone_index do_set set_to i rem =
     do { (s1, f1) \<leftarrow> ensure_zone s f MX3_IDZONE zone_index do_set i;
          if i_zones f1 ! MX3_IDZONE \<noteq> 0 then
            (case walk_I s1 (zone_addr32 s1 (i_zones f1 ! MX3_IDZONE)) zone_index do_set set_to i rem of
               (s2, i', rem', r) \<Rightarrow> Some (s2, f1, i', rem', r))
          else Some (s1, f1, i + of_nat (ppz s1), rem, None) }"

definition walk_doubly ::
    "mx3 \<Rightarrow> mx3_inode \<Rightarrow> u32 \<Rightarrow> bool \<Rightarrow> u32 \<Rightarrow> u32 \<Rightarrow> u32 \<Rightarrow> (mx3 \<times> mx3_inode \<times> u32 \<times> u32 \<times> u32 option) option" where
  "walk_doubly s f zone_index do_set set_to i rem =
     do { (s1, f1) \<leftarrow> ensure_zone s f MX3_IIDZONE zone_index do_set i;
          if i_zones f1 ! MX3_IIDZONE \<noteq> 0 then
            do { let a = zone_addr32 s1 (i_zones f1 ! MX3_IIDZONE);
                 (s2, i', rem', r) \<leftarrow> walk_II [0..<ppz s1] s1 a (read_ptrs s1 a) zone_index do_set set_to i rem;
                 Some (s2, f1, i', rem', r) }
          else Some (s1, f1, i + of_nat (ppz s1) * of_nat (ppz s1), rem, None) }"

definition walk_triply ::
    "mx3 \<Rightarrow> mx3_inode \<Rightarrow> u32 \<Rightarrow> bool \<Rightarrow> u32 \<Rightarrow> u32 \<Rightarrow> u32 \<Rightarrow> (mx3 \<times> mx3_inode \<times> u32 \<times> u32 \<times> u32 option) option" where
  "walk_triply s f zone_index do_set set_to i rem =
     do { (s1, f1) \<leftarrow> ensure_zone s f MX3_IIIDZONE zone_index do_set i;
          if i_zones f1 ! MX3_IIIDZONE \<noteq> 0 then
            do { let a = zone_addr32 s1 (i_zones f1 ! MX3_IIIDZONE);
                 (s2, i', rem', r) \<leftarrow> walk_III [0..<ppz s1] s1 a (read_ptrs s1 a) (i_zones f1 ! MX3_IIDZONE)
                    zone_index do_set set_to i rem;
                 Some (s2, f1, i', rem', r) }
          else Some (s1, f1, i + of_nat (ppz s1) * of_nat (ppz s1) * of_nat (ppz s1), rem, None) }"

text \<open>The walker: the state, the inode, the zone found and the size left from there on.\<close>

definition minix3_zone_walker ::
    "mx3 \<Rightarrow> mx3_inode \<Rightarrow> u32 \<Rightarrow> bool \<Rightarrow> u32 \<Rightarrow> (mx3 \<times> mx3_inode \<times> u32 \<times> u32) option" where
  "minix3_zone_walker s f zone_index do_set set_to =
     (case scan_ptrs s zone_index (take MX3_IDZONE (i_zones f)) 0 (i_size f) 0 of
        (i, rem, Some j) \<Rightarrow>
          (let f1 = (if do_set then f\<lparr>i_zones := (i_zones f)[j := set_to]\<rparr> else f)
           in Some (s, f1, i_zones f1 ! j, rem))
      | (i, rem, None) \<Rightarrow>
          do { (s1, f1, i1, rem1, r1) \<leftarrow> walk_indirect s f zone_index do_set set_to i rem;
               case r1 of Some z \<Rightarrow> Some (s1, f1, z, rem1) | None \<Rightarrow>
          do { (s2, f2, i2, rem2, r2) \<leftarrow> walk_doubly s1 f1 zone_index do_set set_to i1 rem1;
               case r2 of Some z \<Rightarrow> Some (s2, f2, z, rem2) | None \<Rightarrow>
          do { (s3, f3, i3, rem3, r3) \<leftarrow> walk_triply s2 f2 zone_index do_set set_to i2 rem2;
               case r3 of Some z \<Rightarrow> Some (s3, f3, z, rem3) | None \<Rightarrow>
               Some (s3, f3, mx_junk s3, rem3) }}})"

definition minix3_get_zone :: "mx3 \<Rightarrow> mx3_inode \<Rightarrow> u32 \<Rightarrow> u32 option" where
  "minix3_get_zone s f zone_index =
     do { (_, _, z, _) \<leftarrow> minix3_zone_walker s f zone_index False 0; Some z }"

text \<open>\<open>minix3_gzbars\<close>: the address of the zone and the remaining size.\<close>

definition minix3_gzbars :: "mx3 \<Rightarrow> mx3_inode \<Rightarrow> u32 \<Rightarrow> (nat \<times> u32) option" where
  "minix3_gzbars s f zone_index =
     do { (_, _, z, rem) \<leftarrow> minix3_zone_walker s f zone_index False 0; Some (zone_addr64 s z, rem) }"

definition minix3_get_zone_baddr :: "mx3 \<Rightarrow> mx3_inode \<Rightarrow> u32 \<Rightarrow> nat option" where
  "minix3_get_zone_baddr s f zone_index =
     do { (_, _, z, _) \<leftarrow> minix3_zone_walker s f zone_index False 0; Some (zone_addr64 s z) }"

definition minix3_set_zone_to :: "mx3 \<Rightarrow> mx3_inode \<Rightarrow> u32 \<Rightarrow> u32 \<Rightarrow> (mx3 \<times> mx3_inode \<times> u32) option" where
  "minix3_set_zone_to s f zone_index target =
     do { (s1, f1, z, _) \<leftarrow> minix3_zone_walker s f zone_index True target; Some (s1, f1, z) }"

definition minix3_clear_zone :: "mx3 \<Rightarrow> mx3_inode \<Rightarrow> u32 \<Rightarrow> (mx3 \<times> mx3_inode) option" where
  "minix3_clear_zone s f zone_index =
     do { cleared_zone \<leftarrow> minix3_get_zone s f zone_index;
          let s1 = fst (minix3_set_zone_unoccupied s cleared_zone);
          (s2, f2, _) \<leftarrow> minix3_set_zone_to s1 f zone_index 0;
          Some (s2, f2) }"

partial_function (option) last_zone_from :: "mx3 \<Rightarrow> mx3_inode \<Rightarrow> u32 \<Rightarrow> u32 option" where
  "last_zone_from s f zone_num =
     do { (_, remaining_size) \<leftarrow> minix3_gzbars s f zone_num;
          if remaining_size > ucast (mx3_block_size s) then last_zone_from s f (zone_num + 1)
          else Some zone_num }"

definition minix3_get_last_file_zone :: "mx3 \<Rightarrow> mx3_inode \<Rightarrow> u32 option" where
  "minix3_get_last_file_zone s f =
     (if i_size f = 0 then Some 0 else last_zone_from s f ((i_size f - 1) div ucast (mx3_block_size s)))"

definition minix3_append_zone :: "mx3 \<Rightarrow> mx3_inode \<Rightarrow> (mx3 \<times> mx3_inode \<times> nat) option" where
  "minix3_append_zone s f =
     do { next_zone \<leftarrow> (if i_size f = 0 then Some 0
                      else do { z \<leftarrow> minix3_get_last_file_zone s f; Some (z + 1) });
          (s1, new_zone) \<leftarrow> minix3_get_available_zone s;
          let s2 = fst (minix3_set_zone_occupied s1 new_zone);
          (s3, f3, z) \<leftarrow> minix3_set_zone_to s2 f next_zone new_zone;
          Some (s3, f3, zone_addr32 s3 z) }"

text \<open>
  \<open>minix3_clear_all_zones\<close>. Each loop frees the zones of a list of pointers. After the inner loop
  of the doubly indirect part the code frees the word just behind the buffer instead of the
  indirect zone; that word is \<open>mx_junk\<close>. In the triply indirect part the words it frees there have
  just been set to zero, and the indirect zone it reads is given by a pointer that the doubly
  indirect part has set to zero.
\<close>

fun clear_ptrs :: "mx3 \<Rightarrow> u32 list \<Rightarrow> u32 \<Rightarrow> mx3 \<times> u32" where
  "clear_ptrs s [] rem = (s, rem)"
| "clear_ptrs s (z # zs) rem =
     (if z \<noteq> 0 then clear_ptrs (fst (minix3_set_zone_unoccupied s z)) zs (less_block s rem)
      else clear_ptrs s zs rem)"

fun clear_II :: "bool \<Rightarrow> mx3 \<Rightarrow> u32 list \<Rightarrow> u32 \<Rightarrow> mx3 \<times> u32" where
  "clear_II triply s [] rem = (s, rem)"
| "clear_II triply s (iz # izs) rem =
     (if iz \<noteq> 0 then
        (let (s1, rem1) = clear_ptrs s (read_ptrs s (zone_addr32 s iz)) rem;
             s2 = fst (minix3_set_zone_unoccupied s1 (if triply then 0 else mx_junk s1))
         in clear_II triply s2 izs rem1)
      else clear_II triply s izs rem)"

fun clear_III :: "mx3 \<Rightarrow> u32 list \<Rightarrow> u32 \<Rightarrow> u32 \<Rightarrow> mx3 \<times> u32" where
  "clear_III s [] iid rem = (s, rem)"
| "clear_III s (iiz # iizs) iid rem =
     (if iiz \<noteq> 0 then
        (let (s1, rem1) = clear_II True s (read_ptrs s (zone_addr32 s iid)) rem;
             s2 = fst (minix3_set_zone_unoccupied s1 0)
         in clear_III s2 iizs iid rem1)
      else clear_III s iizs iid rem)"

text \<open>Freeing a whole part of the inode and its own zone.\<close>

definition clear_part :: "mx3 \<Rightarrow> mx3_inode \<Rightarrow> nat \<Rightarrow> u32 \<Rightarrow> mx3 \<times> mx3_inode \<times> u32" where
  "clear_part s f k rem =
     (let z = i_zones f ! k in
      if z \<noteq> 0 then
        (let zs = read_ptrs s (zone_addr32 s z);
             (s1, rem1) = (if k = MX3_IDZONE then clear_ptrs s zs rem
                           else if k = MX3_IIDZONE then clear_II False s zs rem
                           else clear_III s zs (i_zones f ! MX3_IIDZONE) rem);
             s2 = fst (minix3_set_zone_unoccupied s1 z)
         in (s2, f\<lparr>i_zones := (i_zones f)[k := 0]\<rparr>, rem1))
      else (s, f, rem))"

definition minix3_clear_all_zones :: "mx3 \<Rightarrow> mx3_inode \<Rightarrow> mx3 \<times> mx3_inode" where
  "minix3_clear_all_zones s f =
     (let (s1, rem1) = clear_ptrs s (take MX3_IDZONE (i_zones f)) (i_size f);
          f1 = f\<lparr>i_zones := replicate MX3_IDZONE 0 @ drop MX3_IDZONE (i_zones f)\<rparr>
      in if rem1 = 0 then (s1, f1)
         else let (s2, f2, rem2) = clear_part s1 f1 MX3_IDZONE rem1 in
           if rem2 = 0 then (s2, f2)
           else let (s3, f3, rem3) = clear_part s2 f2 MX3_IIDZONE rem2 in
             if rem3 = 0 then (s3, f3)
             else let (s4, f4, _) = clear_part s3 f3 MX3_IIIDZONE rem3 in (s4, f4))"

section \<open>Looking up a zone\<close>

text \<open>
  The specification of a lookup: the zone a file has at a position, through direct, indirect and
  doubly indirect pointers.
\<close>

definition file_zone :: "mx3 \<Rightarrow> mx3_inode \<Rightarrow> nat \<Rightarrow> u32" where
  "file_zone s f n =
     (let p = ppz s in
      if n < 7 then i_zones f ! n
      else if n < 7 + p then read_ptrs s (zone_addr32 s (i_zones f ! 7)) ! (n - 7)
      else
        let m = n - 7 - p
        in read_ptrs s (zone_addr32 s (read_ptrs s (zone_addr32 s (i_zones f ! 8)) ! (m div p))) ! (m mod p))"

text \<open>The size left after the nonzero zones of a list.\<close>

fun after_zones :: "mx3 \<Rightarrow> u32 list \<Rightarrow> u32 \<Rightarrow> u32" where
  "after_zones s [] rem = rem"
| "after_zones s (z # zs) rem = after_zones s zs (if z \<noteq> 0 then less_block s rem else rem)"

lemma upt_split: "i \<le> j \<Longrightarrow> j \<le> k \<Longrightarrow> [i..<k] = [i..<j] @ [j..<k]"
  using upt_add_eq_append [of i j "k - j"] by simp

lemma length_read_ptrs [simp]: "length (read_ptrs s a) = ppz s"
  by (simp add: read_ptrs_def)

lemma ppz_lt: "ppz s < 2 ^ 14"
proof -
  have "unat (mx3_block_size s) < 2 ^ 16" using unsigned_less [of "mx3_block_size s"] by simp
  then show ?thesis by (simp add: ppz_def)
qed

lemma of_nat_32_le: "i < 2 ^ 32 \<Longrightarrow> (of_nat i \<ge> (zi :: u32)) \<longleftrightarrow> unat zi \<le> i"
  by (simp add: word_le_nat_alt unat_of_nat)

lemma scan_ptrs_spec:
  "i + length zs < 2 ^ 32 \<Longrightarrow> i \<le> unat zi \<Longrightarrow>
   scan_ptrs s zi zs (of_nat i) rem j =
     (if unat zi < i + length zs then
        (zi, after_zones s (take (unat zi - i) zs) rem, Some (j + (unat zi - i)))
      else (of_nat (i + length zs), after_zones s zs rem, None))"
proof (induction zs arbitrary: i rem j)
  case Nil
  then show ?case by simp
next
  case (Cons z zs)
  show ?case
  proof (cases "unat zi = i")
    case True
    then have "of_nat i = zi" by auto
    then show ?thesis using True by simp
  next
    case False
    then have lt: "i < unat zi" using Cons.prems by simp
    have "(of_nat i :: u32) + 1 = of_nat (i + 1)" by simp
    moreover have "unat zi - i = Suc (unat zi - (i + 1))" using lt by simp
    ultimately show ?thesis
      using lt Cons.prems Cons.IH [of "i + 1" "if z \<noteq> 0 then less_block s rem else rem" "j + 1"]
      by (simp add: of_nat_32_le del: of_nat_Suc)
  qed
qed

lemma after_zones_append: "after_zones s (xs @ ys) rem = after_zones s ys (after_zones s xs rem)"
  by (induction xs arbitrary: rem) auto

lemma walk_I_get:
  assumes "i + ppz s < 2 ^ 32" and "i \<le> unat zi"
  shows "walk_I s a zi False 0 (of_nat i) rem =
    (if unat zi < i + ppz s
     then (s, zi, after_zones s (take (unat zi - i) (read_ptrs s a)) rem, Some (read_ptrs s a ! (unat zi - i)))
     else (s, of_nat (i + ppz s), after_zones s (read_ptrs s a) rem, None))"
  using scan_ptrs_spec [of i "read_ptrs s a" zi s rem 0] assms by (simp add: walk_I_def Let_def)

text \<open>Entry \<open>x\<close> of the file part behind a list of indirect pointers.\<close>

definition nth_indirect :: "mx3 \<Rightarrow> u32 list \<Rightarrow> nat \<Rightarrow> u32" where
  "nth_indirect s izs x = read_ptrs s (zone_addr32 s (izs ! (x div ppz s))) ! (x mod ppz s)"

lemma map_nth_indirect:
  assumes "n \<le> ppz s"
  shows "map (nth_indirect s izs) [k * ppz s..<k * ppz s + n] = take n (read_ptrs s (zone_addr32 s (izs ! k)))"
proof (rule nth_equalityI)
  show "length (map (nth_indirect s izs) [k * ppz s..<k * ppz s + n]) =
    length (take n (read_ptrs s (zone_addr32 s (izs ! k))))" using assms by simp
  fix j assume "j < length (map (nth_indirect s izs) [k * ppz s..<k * ppz s + n])"
  then have "j < n" "j < ppz s" using assms by auto
  then have "(k * ppz s + j) div ppz s = k" "(k * ppz s + j) mod ppz s = j" by simp_all
  then show "map (nth_indirect s izs) [k * ppz s..<k * ppz s + n] ! j =
    take n (read_ptrs s (zone_addr32 s (izs ! k))) ! j"
    using \<open>j < n\<close> by (simp add: nth_indirect_def)
qed

lemma walk_II_get:
  assumes "unat zi = base + m" and "m < ppz s * ppz s" and "base + ppz s * ppz s + ppz s < 2 ^ 32"
    and "\<forall>k \<le> m div ppz s. izs ! k \<noteq> 0" and "k0 \<le> m div ppz s"
  shows "walk_II [k0..<ppz s] s a izs zi False 0 (of_nat (base + k0 * ppz s)) rem =
    Some (s, zi, after_zones s (map (nth_indirect s izs) [k0 * ppz s..<m]) rem, Some (nth_indirect s izs m))"
  using assms(5)
proof (induction "m div ppz s - k0" arbitrary: k0 rem)
  case 0
  let ?p = "ppz s"
  have p: "0 < ?p" using assms(2) by (metis mult_is_0 not_gr_zero not_less0)
  have k: "m div ?p = k0" using 0 by simp
  then have kp: "k0 < ?p" using assms(2) p by (metis div_less_iff_less_mult mult.commute)
  have m: "k0 * ?p \<le> m" "m < k0 * ?p + ?p" "m - k0 * ?p = m mod ?p"
    using k p dividend_less_div_times [of ?p m] by (auto simp: minus_div_mult_eq_mod add.commute)
  have mono: "k0 * ?p + ?p \<le> ?p * ?p"
    using kp by (metis Suc_leI add.commute mult_Suc mult_le_mono1)
  have "walk_I s (zone_addr32 s (izs ! k0)) zi False 0 (of_nat (base + k0 * ?p)) rem =
      (s, zi, after_zones s (take (m - k0 * ?p) (read_ptrs s (zone_addr32 s (izs ! k0)))) rem,
       Some (read_ptrs s (zone_addr32 s (izs ! k0)) ! (m - k0 * ?p)))"
    using walk_I_get [of "base + k0 * ?p" s zi] assms(1,3) m mono by simp
  moreover have "map (nth_indirect s izs) [k0 * ?p..<m] = take (m - k0 * ?p) (read_ptrs s (zone_addr32 s (izs ! k0)))"
    using map_nth_indirect [of "m - k0 * ?p" s izs k0] m(1,2) by (simp del: diff_is_0_eq)
  moreover have "[k0..<?p] = k0 # [Suc k0..<?p]" using kp by (simp add: upt_conv_Cons)
  moreover have "izs ! k0 \<noteq> 0" using assms(4) k by simp
  moreover have "nth_indirect s izs m = read_ptrs s (zone_addr32 s (izs ! k0)) ! (m - k0 * ?p)"
    using k m(3) by (simp add: nth_indirect_def)
  ultimately show ?case by simp
next
  case (Suc n)
  let ?p = "ppz s"
  have p: "0 < ?p" using assms(2) by (metis mult_is_0 not_gr_zero not_less0)
  have lt: "k0 < m div ?p" using Suc.hyps(2) by simp
  then have kp: "k0 < ?p" using assms(2) p by (metis div_less_iff_less_mult less_trans mult.commute)
  have ge: "k0 * ?p + ?p \<le> m"
    using lt p by (metis Suc_leI add.commute less_eq_div_iff_mult_less_eq mult_Suc)
  have "walk_I s (zone_addr32 s (izs ! k0)) zi False 0 (of_nat (base + k0 * ?p)) rem =
      (s, of_nat (base + k0 * ?p + ?p), after_zones s (read_ptrs s (zone_addr32 s (izs ! k0))) rem, None)"
    using walk_I_get [of "base + k0 * ?p" s zi] assms(1,2,3) ge by simp
  moreover have "[k0..<?p] = k0 # [Suc k0..<?p]" using kp by (simp add: upt_conv_Cons)
  moreover have "izs ! k0 \<noteq> 0" using assms(4) lt by simp
  moreover have "base + k0 * ?p + ?p = base + Suc k0 * ?p" by simp
  moreover have "[k0 * ?p..<m] = [k0 * ?p..<k0 * ?p + ?p] @ [Suc k0 * ?p..<m]"
    using ge upt_split [of "k0 * ?p" "k0 * ?p + ?p" m] by (simp add: add.commute)
  moreover have "map (nth_indirect s izs) [k0 * ?p..<k0 * ?p + ?p] = read_ptrs s (zone_addr32 s (izs ! k0))"
    using map_nth_indirect [of ?p s izs k0] by simp
  ultimately show ?case
    using Suc.hyps(1) [of "Suc k0" "after_zones s (read_ptrs s (zone_addr32 s (izs ! k0))) rem"] Suc.hyps(2) lt
    by (simp add: after_zones_append del: of_nat_add of_nat_mult mult_Suc)
qed

text \<open>The pointers on the way to position \<open>n\<close> are there.\<close>

definition has_path :: "mx3 \<Rightarrow> mx3_inode \<Rightarrow> nat \<Rightarrow> bool" where
  "has_path s f n \<longleftrightarrow> length (i_zones f) = 10 \<and> n < 7 + ppz s + ppz s * ppz s \<and>
     (7 \<le> n \<longrightarrow> i_zones f ! 7 \<noteq> 0) \<and>
     (7 + ppz s \<le> n \<longrightarrow> i_zones f ! 8 \<noteq> 0 \<and>
        list_all (\<lambda>k. read_ptrs s (zone_addr32 s (i_zones f ! 8)) ! k \<noteq> 0) [0..<(n - 7 - ppz s) div ppz s + 1])"

lemma file_zone_parts:
  "n < 7 \<Longrightarrow> file_zone s f n = i_zones f ! n"
  "n < ppz s \<Longrightarrow> file_zone s f (7 + n) = read_ptrs s (zone_addr32 s (i_zones f ! 7)) ! n"
  "file_zone s f (7 + ppz s + n) = nth_indirect s (read_ptrs s (zone_addr32 s (i_zones f ! 8))) n"
  by (simp_all add: file_zone_def nth_indirect_def Let_def)

lemma map_file_zone_direct: "length (i_zones f) = 10 \<Longrightarrow> n \<le> 7 \<Longrightarrow> map (file_zone s f) [0..<n] = take n (i_zones f)"
  by (rule nth_equalityI) (auto simp: file_zone_parts)

lemma map_file_zone_indirect:
  "n \<le> ppz s \<Longrightarrow> map (file_zone s f) [7..<7 + n] = take n (read_ptrs s (zone_addr32 s (i_zones f ! 7)))"
  by (rule nth_equalityI) (auto simp: file_zone_parts)

lemma map_file_zone_doubly:
  "map (file_zone s f) [7 + ppz s..<7 + ppz s + m] =
   map (nth_indirect s (read_ptrs s (zone_addr32 s (i_zones f ! 8)))) [0..<m]"
  by (rule nth_equalityI) (auto simp: file_zone_parts)

lemma walk_indirect_get:
  assumes "has_path s f (unat zi)" "\<not> unat zi < 7"
  shows "walk_indirect s f zi False 0 (of_nat 7) rem =
    (if unat zi < 7 + ppz s
     then Some (s, f, zi, after_zones s (map (file_zone s f) [7..<unat zi]) rem, Some (file_zone s f (unat zi)))
     else Some (s, f, of_nat (7 + ppz s), after_zones s (map (file_zone s f) [7..<7 + ppz s]) rem, None))"
  using walk_I_get [of 7 s zi "zone_addr32 s (i_zones f ! 7)" rem] ppz_lt [of s] assms
    map_file_zone_indirect [of "unat zi - 7" s f] map_file_zone_indirect [of "ppz s" s f] file_zone_parts(2) [of "unat zi - 7" s f]
  by (auto simp: walk_indirect_def ensure_zone_def has_path_def)

lemma walk_doubly_get:
  assumes "has_path s f (unat zi)" "\<not> unat zi < 7 + ppz s"
  shows "walk_doubly s f zi False 0 (of_nat (7 + ppz s)) rem =
    Some (s, f, zi, after_zones s (map (file_zone s f) [7 + ppz s..<unat zi]) rem, Some (file_zone s f (unat zi)))"
proof -
  let ?n = "unat zi" and ?p = "ppz s" and ?a = "zone_addr32 s (i_zones f ! 8)"
  let ?m = "?n - 7 - ?p"
  have n: "?n = 7 + ?p + ?m" using assms(2) by simp
  have pp: "?p < 16384" using ppz_lt [of s] by simp
  then have "?p * ?p < 16384 * 16384" by (intro mult_strict_mono) auto
  then have sz: "7 + ?p + ?p * ?p + ?p < 2 ^ 32" using pp by simp
  have "walk_II [0..<?p] s ?a (read_ptrs s ?a) zi False 0 (of_nat (7 + ?p + 0 * ?p)) rem =
      Some (s, zi, after_zones s (map (nth_indirect s (read_ptrs s ?a)) [0 * ?p..<?m]) rem,
        Some (nth_indirect s (read_ptrs s ?a) ?m))"
    by (rule walk_II_get [OF n]) (use n sz assms in \<open>auto simp: has_path_def list_all_iff\<close>)
  then show ?thesis
    using assms map_file_zone_doubly [of s f ?m] file_zone_parts(3) [of s f ?m] n
    by (simp add: walk_doubly_def ensure_zone_def has_path_def Let_def)
qed

lemma zone_walker_get:
  assumes "has_path s f (unat zi)"
  shows "minix3_zone_walker s f zi False 0 =
    Some (s, f, file_zone s f (unat zi), after_zones s (map (file_zone s f) [0..<unat zi]) (i_size f))"
proof -
  let ?n = "unat zi" and ?p = "ppz s" and ?z = "i_zones f"
  have l: "length ?z = 10" using assms by (simp add: has_path_def)
  have sc: "scan_ptrs s zi (take 7 ?z) 0 (i_size f) 0 =
      (if ?n < 7 then (zi, after_zones s (take ?n ?z) (i_size f), Some ?n)
       else (of_nat 7, after_zones s (take 7 ?z) (i_size f), None))"
    using scan_ptrs_spec [of 0 "take 7 ?z" zi s "i_size f" 0] l by (auto simp: min_def)
  consider (direct) "?n < 7" | (indirect) "\<not> ?n < 7" "?n < 7 + ?p" | (doubly) "\<not> ?n < 7" "\<not> ?n < 7 + ?p" by blast
  then show ?thesis
  proof cases
    case direct
    then show ?thesis using sc l by (simp add: minix3_zone_walker_def map_file_zone_direct file_zone_parts)
  next
    case indirect
    have "[0..<?n] = [0..<7] @ [7..<?n]" using indirect by (intro upt_split) simp_all
    then show ?thesis
      using sc indirect l walk_indirect_get [OF assms indirect(1)] map_file_zone_direct [of f 7 s]
      by (simp add: minix3_zone_walker_def after_zones_append del: of_nat_numeral)
  next
    case doubly
    have "[0..<?n] = [0..<7] @ [7..<7 + ?p] @ [7 + ?p..<?n]"
      using doubly upt_split [of 0 7 ?n] upt_split [of 7 "7 + ?p" ?n] by simp
    then show ?thesis
      using sc doubly l walk_indirect_get [OF assms doubly(1)] walk_doubly_get [OF assms doubly(2)] map_file_zone_direct [of f 7 s]
      by (simp add: minix3_zone_walker_def after_zones_append del: of_nat_numeral of_nat_add)
  qed
qed


text \<open>A file of 8000 bytes in zones 7 to 13 with an indirect zone 14, whose first pointer is 20.\<close>

definition demo_inode :: mx3_inode where
  "demo_inode = zero_inode\<lparr>i_size := 8000, i_zones := [7, 8, 9, 10, 11, 12, 13, 14, 0, 0]\<rparr>"

definition demo_fs_I :: mx3 where
  "demo_fs_I = demo_fs\<lparr>mx_disk := demo_disk(14336 := 20)\<rparr>"

lemma demo_I: "mx3_block_size demo_fs_I = 1024" "ppz demo_fs_I = 256" "zone_addr32 demo_fs_I 14 = 14336"
    "read_ptrs demo_fs_I 14336 ! 0 = 20"
  by (simp_all add: demo_fs_I_def demo_fs_def ppz_def zone_addr32_def read_ptrs_def rd32_def demo_disk_def)


end
