(* ===== verification/Minix3_Files.thy ===== *)
theory Minix3_Files
  imports Minix3_Zones
begin

text \<open>
  Files and directories of the Minix 3 file system, from \<^verbatim>\<open>src/minix3.c\<close>: looking up a name,
  creating and removing files and directories, appending to a file and reading it. Names are the
  bytes of a C string without its terminator. A function that returns a code and fills in values
  through pointers has both in its result; \<open>None\<close> is a call that does not return.
\<close>

section \<open>Directories\<close>

abbreviation (input) MX3_RETURN_CODE_NOT_FOUND :: int where "MX3_RETURN_CODE_NOT_FOUND \<equiv> 101"
abbreviation (input) MX3_RETURN_CODE_NOT_DIRECTORY :: int where "MX3_RETURN_CODE_NOT_DIRECTORY \<equiv> 102"
abbreviation (input) MX3_RETURN_CODE_IS_DIRECTORY :: int where "MX3_RETURN_CODE_IS_DIRECTORY \<equiv> 103"
abbreviation (input) MX3_RETURN_CODE_NOT_EMPTY :: int where "MX3_RETURN_CODE_NOT_EMPTY \<equiv> 104"
abbreviation (input) MX3_RETURN_CODE_UNKNOWN_ERROR :: int where "MX3_RETURN_CODE_UNKNOWN_ERROR \<equiv> 105"

definition is_directory :: "mx3_inode \<Rightarrow> bool" where
  "is_directory f \<longleftrightarrow> i_mode f AND 0xf000 = 0x4000"

text \<open>The entries of a directory zone, held in a buffer: a 32-bit inode number and a name.\<close>

definition entry_inode :: "u8 list \<Rightarrow> nat \<Rightarrow> u32" where
  "entry_inode zone j = rd32 (\<lambda>a. zone ! a) (SIZEOF_DIR_ENTRY * j)"

definition entry_name :: "u8 list \<Rightarrow> nat \<Rightarrow> u8 list" where
  "entry_name zone j = takeWhile (\<lambda>b. b \<noteq> 0) (drop (SIZEOF_DIR_ENTRY * j + 4) zone)"

definition dirs_per_block :: "mx3 \<Rightarrow> nat" where
  "dirs_per_block s = unat (mx3_block_size s) div SIZEOF_DIR_ENTRY"

definition read_block :: "mx3 \<Rightarrow> nat \<Rightarrow> u8 list" where
  "read_block s a = disk_read (mx_disk s) a (unat (mx3_block_size s))"

text \<open>The first used entry with the wanted name.\<close>

definition find_entry :: "mx3 \<Rightarrow> u8 list \<Rightarrow> u8 list \<Rightarrow> u32 option" where
  "find_entry s zone name =
     map_option (entry_inode zone)
       (find (\<lambda>j. entry_inode zone j \<noteq> 0 \<and> entry_name zone j = name) [0..<dirs_per_block s])"

text \<open>
  The loop over the zones of a directory. It goes on after a match, so a match in a later zone
  replaces an earlier one.
\<close>

function name_from ::
    "mx3 \<Rightarrow> mx3_inode \<Rightarrow> u8 list \<Rightarrow> nat \<Rightarrow> (u32 \<times> mx3_inode) option \<Rightarrow> (u32 \<times> mx3_inode) option option" where
  "name_from s dir name i found =
     (if i < unat (minix3_get_file_max_zones (mx3_block_size s)) then
        (case minix3_gzbars s dir (of_nat i) of
           None \<Rightarrow> None
         | Some (address_on_block, remaining_size) \<Rightarrow>
             if remaining_size = 0 then Some found
             else if address_on_block = 0 then name_from s dir name (i + 1) found
             else
               (let found1 = (case find_entry s (read_block s address_on_block) name of
                                None \<Rightarrow> found
                              | Some n \<Rightarrow> Some (n, minix3_get_inode s n))
                in name_from s dir name (i + 1) found1))
      else Some found)"
  by auto
termination
  by (relation "measure (\<lambda>(s, dir, name, i, found). unat (minix3_get_file_max_zones (mx3_block_size s)) - i)") auto

declare name_from.simps [simp del]

definition minix3_get_inode_from_name ::
    "mx3 \<Rightarrow> mx3_inode \<Rightarrow> u8 list \<Rightarrow> (int \<times> (u32 \<times> mx3_inode) option) option" where
  "minix3_get_inode_from_name s dir name =
     (if \<not> is_directory dir then Some (1, None)
      else do { found \<leftarrow> name_from s dir name 0 None;
                Some (case found of
                        None \<Rightarrow> (MX3_RETURN_CODE_NOT_FOUND, None)
                      | Some (n, f) \<Rightarrow>
                          (if \<not> is_directory f then MX3_RETURN_CODE_NOT_DIRECTORY else 0, Some (n, f))) })"

text \<open>\<open>minix3_ls\<close>: the entries in the order they are printed.\<close>

fun ls_zone :: "u8 list \<Rightarrow> nat list \<Rightarrow> u32 \<Rightarrow> (u32 \<times> u8 list) list" where
  "ls_zone zone [] rem = []"
| "ls_zone zone (j # js) rem =
     (if entry_inode zone j = 0 then ls_zone zone js rem
      else (entry_inode zone j, entry_name zone j) #
           (if rem - 64 = 0 then [] else ls_zone zone js (rem - 64)))"

function ls_from :: "mx3 \<Rightarrow> mx3_inode \<Rightarrow> nat \<Rightarrow> (u32 \<times> u8 list) list option" where
  "ls_from s dir i =
     (if i < unat (minix3_get_file_max_zones (mx3_block_size s)) then
        (case minix3_gzbars s dir (of_nat i) of
           None \<Rightarrow> None
         | Some (address_on_block, remaining_size) \<Rightarrow>
             if remaining_size = 0 then Some []
             else if address_on_block = 0 then ls_from s dir (i + 1)
             else map_option
                    (\<lambda>r. ls_zone (read_block s address_on_block) [0..<dirs_per_block s] remaining_size @ r)
                    (ls_from s dir (i + 1)))
      else Some [])"
  by auto
termination
  by (relation "measure (\<lambda>(s, dir, i). unat (minix3_get_file_max_zones (mx3_block_size s)) - i)") auto

declare ls_from.simps [simp del]

definition minix3_ls :: "mx3 \<Rightarrow> mx3_inode \<Rightarrow> (u32 \<times> u8 list) list option" where
  "minix3_ls s dir = (if \<not> is_directory dir then Some [] else ls_from s dir 0)"

section \<open>Appending\<close>

text \<open>
  The loop that adds zones. With a block size of zero it would write nothing and not end.
\<close>

partial_function (option) append_from :: "mx3 \<Rightarrow> mx3_inode \<Rightarrow> u8 list \<Rightarrow> (mx3 \<times> mx3_inode) option" where
  "append_from s f buffer =
     (if buffer \<noteq> [] then
        do { (s1, f1, address_on_block) \<leftarrow> minix3_append_zone s f;
             let write_size = min (unat (mx3_block_size s)) (length buffer);
             append_from (s1\<lparr>mx_disk := disk_write (mx_disk s1) address_on_block (take write_size buffer)\<rparr>)
               (f1\<lparr>i_size := i_size f1 + of_nat write_size\<rparr>) (drop write_size buffer) }
      else Some (s, f))"

definition minix3_append_to_file :: "mx3 \<Rightarrow> u32 \<Rightarrow> u8 list \<Rightarrow> (mx3 \<times> int) option" where
  "minix3_append_to_file s file_inode_num buffer =
     do { let f = minix3_get_inode s file_inode_num;
          i \<leftarrow> minix3_get_last_file_zone s f;
          (address_on_block, remaining_file_size) \<leftarrow> minix3_gzbars s f i;
          let (s1, f1, buffer1) =
            (if address_on_block \<noteq> 0 then
               (let remaining_block_size = ucast (mx3_block_size s) - remaining_file_size;
                    write_size = min (unat remaining_block_size) (length buffer)
                in (s\<lparr>mx_disk := disk_write (mx_disk s) (address_on_block + unat remaining_file_size)
                          (take write_size buffer)\<rparr>,
                    f\<lparr>i_size := i_size f + of_nat write_size\<rparr>, drop write_size buffer))
             else (s, f, buffer));
          (s2, f2) \<leftarrow> append_from s1 f1 buffer1;
          Some (minix3_put_inode s2 file_inode_num f2, 0) }"

section \<open>Creating\<close>

text \<open>
  The bytes of a directory entry: the buffer has room for a name of 59 bytes, which the code does
  not check; what is written to the disk are the first 64 bytes.
\<close>

definition dir_entry_bytes :: "u32 \<Rightarrow> u8 list \<Rightarrow> u8 list" where
  "dir_entry_bytes inode_num name = take SIZEOF_DIR_ENTRY (le32 inode_num @ name @ replicate 60 0)"

definition new_inode :: "u16 \<Rightarrow> u16 \<Rightarrow> u16 \<Rightarrow> mx3_inode" where
  "new_inode f_mode f_uid f_gid =
     zero_inode\<lparr>i_mode := f_mode, i_size := 0, i_gid := f_gid, i_uid := f_uid, i_atime := 0xaaaaaaaa,
       i_ctime := 0xcccccccc, i_mtime := 0x22222222, i_nlinks := 1\<rparr>"

definition minix3_touch_common ::
    "mx3 \<Rightarrow> u32 \<Rightarrow> u8 list \<Rightarrow> u16 \<Rightarrow> u16 \<Rightarrow> u16 \<Rightarrow> (mx3 \<times> int) option" where
  "minix3_touch_common s parent_inode_num fname f_mode f_uid f_gid =
     (let dir = minix3_get_inode s parent_inode_num in
      if \<not> is_directory dir then Some (s, 2)
      else
        do { (retval, _) \<leftarrow> minix3_get_inode_from_name s dir fname;
             if retval \<noteq> MX3_RETURN_CODE_NOT_FOUND then Some (s, 4)
             else
               do { (s1, n) \<leftarrow> minix3_get_available_inode s;
                    let s2 = fst (minix3_set_inode_occupied s1 n);
                    let s3 = minix3_put_inode s2 n (new_inode f_mode f_uid f_gid);
                    (s4, _) \<leftarrow> minix3_append_to_file s3 parent_inode_num (dir_entry_bytes n fname);
                    Some (s4, 0) }})"

definition minix3_touch_reg :: "mx3 \<Rightarrow> u32 \<Rightarrow> u8 list \<Rightarrow> (mx3 \<times> int) option" where
  "minix3_touch_reg s parent_inode_num fname =
     minix3_touch_common s parent_inode_num fname (0x8000 OR 0x1ff) 0xd000 0xd000"

definition minix3_touch_dir :: "mx3 \<Rightarrow> u32 \<Rightarrow> u8 list \<Rightarrow> (mx3 \<times> int) option" where
  "minix3_touch_dir s parent_inode_num fname =
     minix3_touch_common s parent_inode_num fname (0x4000 OR 0x1ff) 0xd000 0xd000"

text \<open>
  \<open>minix3_mkdir\<close>. The lookup of the new directory fills its number and inode; if it failed both
  would be what the stack and the zeroed buffer hold: \<open>mx_junk\<close> and the zero inode.
\<close>

definition minix3_mkdir :: "mx3 \<Rightarrow> u32 \<Rightarrow> u8 list \<Rightarrow> (mx3 \<times> int) option" where
  "minix3_mkdir s parent_inode_num dirname =
     do { (s1, retval) \<leftarrow> minix3_touch_dir s parent_inode_num dirname;
          if retval \<noteq> 0 then Some (s1, retval)
          else
            do { let dir = minix3_get_inode s1 parent_inode_num;
                 (_, found) \<leftarrow> minix3_get_inode_from_name s1 dir dirname;
                 let (n, f) = (case found of None \<Rightarrow> (mx_junk s1, zero_inode) | Some x \<Rightarrow> x);
                 let s2 = minix3_put_inode s1 parent_inode_num (dir\<lparr>i_nlinks := i_nlinks dir + 1\<rparr>);
                 let s3 = minix3_put_inode s2 n (f\<lparr>i_nlinks := i_nlinks f + 1\<rparr>);
                 (s4, _) \<leftarrow> minix3_append_to_file s3 n (dir_entry_bytes n [0x2e]);
                 (s5, _) \<leftarrow> minix3_append_to_file s4 n (dir_entry_bytes parent_inode_num [0x2e, 0x2e]);
                 Some (s5, 0) }}"

section \<open>Removing\<close>

text \<open>The loop over the parent's zones that clears the entry of the removed inode.\<close>

definition clear_entry :: "mx3 \<Rightarrow> nat \<Rightarrow> u32 \<Rightarrow> mx3" where
  "clear_entry s zone_baddr child =
     (let zone = read_block s zone_baddr in
      case find (\<lambda>j. entry_inode zone j = child) [0..<dirs_per_block s] of
        None \<Rightarrow> s
      | Some j \<Rightarrow>
          s\<lparr>mx_disk := disk_write (mx_disk s) (zone_baddr + SIZEOF_DIR_ENTRY * j)
               ([0, 0, 0, 0] @ take 60 (drop (SIZEOF_DIR_ENTRY * j + 4) zone))\<rparr>)"

lemma clear_entry_block_size [simp]: "mx3_block_size (clear_entry s a c) = mx3_block_size s"
  by (simp add: clear_entry_def Let_def split: option.split)

function clear_entries_from :: "mx3 \<Rightarrow> mx3_inode \<Rightarrow> u32 \<Rightarrow> nat \<Rightarrow> mx3 option" where
  "clear_entries_from s dir child i =
     (if i < unat (minix3_get_file_max_zones (mx3_block_size s)) then
        (case minix3_gzbars s dir (of_nat i) of
           None \<Rightarrow> None
         | Some (zone_baddr, remaining_size) \<Rightarrow>
             if remaining_size = 0 then Some s
             else if zone_baddr = 0 then clear_entries_from s dir child (i + 1)
             else clear_entries_from (clear_entry s zone_baddr child) dir child (i + 1))
      else Some s)"
  by auto
termination
  by (relation "measure (\<lambda>(s, dir, child, i). unat (minix3_get_file_max_zones (mx3_block_size s)) - i)") auto

declare clear_entries_from.simps [simp del]

definition minix3_rm :: "mx3 \<Rightarrow> u32 \<Rightarrow> u8 list \<Rightarrow> (mx3 \<times> int) option" where
  "minix3_rm s parent_inode_num fname =
     (let dir = minix3_get_inode s parent_inode_num in
      if \<not> is_directory dir then Some (s, 2)
      else
        do { (retval, found) \<leftarrow> minix3_get_inode_from_name s dir fname;
             case found of
               Some (child, f) \<Rightarrow>
                 if retval \<noteq> MX3_RETURN_CODE_NOT_DIRECTORY then Some (s, MX3_RETURN_CODE_IS_DIRECTORY)
                 else
                   do { let s1 = (if i_size f > 0 then fst (minix3_clear_all_zones s f) else s);
                        let s2 = fst (minix3_set_inode_unoccupied s1 child);
                        s3 \<leftarrow> clear_entries_from s2 dir child 0;
                        Some (s3, 0) }
             | None \<Rightarrow> Some (s, MX3_RETURN_CODE_IS_DIRECTORY) })"

text \<open>Both lookups of \<open>minix3_rmdir_check\<close> are for \<open>.\<close>\<close>

definition minix3_rmdir_check :: "mx3 \<Rightarrow> mx3_inode \<Rightarrow> int option" where
  "minix3_rmdir_check s dir_node =
     (if i_size dir_node \<noteq> 2 * 64 then Some MX3_RETURN_CODE_NOT_EMPTY
      else
        do { (retval_dot, _) \<leftarrow> minix3_get_inode_from_name s dir_node [0x2e];
             (retval_dot_dot, _) \<leftarrow> minix3_get_inode_from_name s dir_node [0x2e];
             Some (if retval_dot \<noteq> 0 \<or> retval_dot_dot \<noteq> 0 then MX3_RETURN_CODE_UNKNOWN_ERROR else 0) })"

definition minix3_rmdir :: "mx3 \<Rightarrow> u32 \<Rightarrow> u8 list \<Rightarrow> (mx3 \<times> int) option" where
  "minix3_rmdir s parent_inode_num dirname =
     (let dir = minix3_get_inode s parent_inode_num in
      if \<not> is_directory dir then Some (s, 2)
      else
        do { (retval, found) \<leftarrow> minix3_get_inode_from_name s dir dirname;
             case found of
               None \<Rightarrow> Some (s, retval)
             | Some (child, f) \<Rightarrow>
                 if retval \<noteq> 0 then Some (s, retval)
                 else
                   do { check \<leftarrow> minix3_rmdir_check s f;
                        if check \<noteq> 0 then Some (s, check)
                        else if child = 1 then Some (s, MX3_RETURN_CODE_UNKNOWN_ERROR)
                        else
                          do { child_data_zone \<leftarrow> minix3_get_last_file_zone s f;
                               if child_data_zone \<noteq> 0 then Some (s, MX3_RETURN_CODE_UNKNOWN_ERROR)
                               else
                                 do { (s1, _) \<leftarrow> minix3_clear_zone s f child_data_zone;
                                      let s2 = fst (minix3_set_inode_unoccupied s1 child);
                                      s3 \<leftarrow> clear_entries_from s2 dir child 0;
                                      Some (minix3_put_inode s3 parent_inode_num
                                              (dir\<lparr>i_nlinks := i_nlinks dir - 1\<rparr>), 0) }}}})"

section \<open>Reading\<close>

text \<open>The code and the bytes read.\<close>

definition minix3_read_from_zone :: "mx3 \<Rightarrow> mx3_inode \<Rightarrow> u32 \<Rightarrow> (int \<times> u8 list) option" where
  "minix3_read_from_zone s f zone_index =
     do { (zone_baddr, remaining_size) \<leftarrow> minix3_gzbars s f zone_index;
          Some (if zone_baddr = 0 then (1, [])
                else (0, disk_read (mx_disk s) zone_baddr
                           (unat (if remaining_size < ucast (mx3_block_size s) then remaining_size
                                  else ucast (mx3_block_size s))))) }"

text \<open>
  The loop of \<open>minix3_read_from_file\<close>. The buffer is a function from offsets, so that a zone
  written past its \<open>size\<close> bytes is visible.
\<close>

partial_function (option) read_file_from ::
    "mx3 \<Rightarrow> mx3_inode \<Rightarrow> u32 \<Rightarrow> (nat \<Rightarrow> u8) \<Rightarrow> u32 \<Rightarrow> u32 \<Rightarrow> (nat \<Rightarrow> u8) option" where
  "read_file_from s f start_byte file_buffer file_buffer_offset sz =
     (if sz \<noteq> 0 then
        do { let target_zone = (start_byte + file_buffer_offset) div ucast (mx3_block_size s);
             (_, bytes) \<leftarrow> minix3_read_from_zone s f target_zone;
             let file_buffer1 = disk_write file_buffer (unat file_buffer_offset) bytes;
             if i_size f > file_buffer_offset + start_byte + ucast (mx3_block_size s)
             then read_file_from s f start_byte file_buffer1 (file_buffer_offset + ucast (mx3_block_size s))
                    (sz - ucast (mx3_block_size s))
             else read_file_from s f start_byte file_buffer1 file_buffer_offset
                    (sz - (i_size f - file_buffer_offset - start_byte)) }
      else Some file_buffer)"

text \<open>The buffer, or no buffer where the code returns NULL.\<close>

definition minix3_read_from_file :: "mx3 \<Rightarrow> mx3_inode \<Rightarrow> u32 \<Rightarrow> u32 \<Rightarrow> u8 list option option" where
  "minix3_read_from_file s f start_byte sz =
     (if start_byte > i_size f then Some None
      else if start_byte + sz > i_size f then Some None
      else if start_byte mod ucast (mx3_block_size s) \<noteq> 0 then Some None
      else do { b \<leftarrow> read_file_from s f start_byte (\<lambda>_. 0) 0 sz;
                Some (Some (map b [0..<unat sz])) })"

definition minix3_read_whole_file :: "mx3 \<Rightarrow> mx3_inode \<Rightarrow> u8 list option option" where
  "minix3_read_whole_file s f = minix3_read_from_file s f 0 (i_size f)"

section \<open>A file is read as its zones hold it\<close>

text \<open>Byte \<open>k\<close> of a file.\<close>

definition file_byte :: "mx3 \<Rightarrow> mx3_inode \<Rightarrow> nat \<Rightarrow> u8" where
  "file_byte s f k =
     (let bs = unat (mx3_block_size s)
      in mx_disk s (zone_addr64 s (file_zone s f (k div bs)) + k mod bs))"

text \<open>A file without holes: every zone up to the end is there and can be reached.\<close>

definition no_holes :: "mx3 \<Rightarrow> mx3_inode \<Rightarrow> bool" where
  "no_holes s f \<longleftrightarrow>
     (\<forall>n. n * unat (mx3_block_size s) < unat (i_size f) \<longrightarrow> has_path s f n \<and> file_zone s f n \<noteq> 0)"

lemma unat_bs: "unat (ucast (b :: u16) :: u32) = unat b"
proof -
  have "unat b < 2 ^ 16" using unsigned_less [of b] by simp
  then show ?thesis by (simp add: unsigned_ucast_eq take_bit_eq_mod)
qed

lemma unat_of_nat_32: "k < 2 ^ 32 \<Longrightarrow> unat (of_nat k :: u32) = k"
  by (simp add: unat_of_nat)

lemma less_block_unat: "unat (less_block s rem) = unat rem - unat (mx3_block_size s)"
  by (auto simp: less_block_def word_less_nat_alt unat_bs unat_sub word_le_nat_alt)

lemma after_zones_unat:
  "0 \<notin> set zs \<Longrightarrow> unat (after_zones s zs rem) = unat rem - length zs * unat (mx3_block_size s)"
  by (induction zs arbitrary: rem) (auto simp: less_block_unat)

lemma gzbars_no_holes:
  assumes "no_holes s f" and "n * unat (mx3_block_size s) < unat (i_size f)" and "n < 2 ^ 32"
  shows "\<exists>rem. minix3_gzbars s f (of_nat n) = Some (zone_addr64 s (file_zone s f n), rem) \<and>
    unat rem = unat (i_size f) - n * unat (mx3_block_size s)"
proof -
  have u: "unat (of_nat n :: u32) = n" using assms(3) by (simp add: unat_of_nat)
  have "file_zone s f m \<noteq> 0" if "m < n" for m
  proof -
    have "m * unat (mx3_block_size s) \<le> n * unat (mx3_block_size s)" using that by simp
    then show ?thesis using assms(1,2) unfolding no_holes_def by (meson le_less_trans)
  qed
  then have "0 \<notin> set (map (file_zone s f) [0..<n])" by auto
  from after_zones_unat [OF this] have r: "unat (after_zones s (map (file_zone s f) [0..<n]) (i_size f)) =
      unat (i_size f) - n * unat (mx3_block_size s)" by simp
  have "has_path s f (unat (of_nat n :: u32))" using assms(1,2) u by (simp add: no_holes_def)
  from zone_walker_get [OF this] show ?thesis using r u by (simp add: minix3_gzbars_def)
qed

lemma file_byte_zone:
  "k < unat (mx3_block_size s) \<Longrightarrow>
   file_byte s f (n * unat (mx3_block_size s) + k) = mx_disk s (zone_addr64 s (file_zone s f n) + k)"
  by (simp add: file_byte_def Let_def)

lemma read_zone_no_holes:
  assumes nh: "no_holes s f" and n: "n * bs < unat (i_size f)" "n < 2 ^ 32" and bs: "bs = unat (mx3_block_size s)" "0 < bs"
  shows "\<exists>c. minix3_read_from_zone s f (of_nat n) = Some (c,
    map (\<lambda>k. file_byte s f (n * bs + k)) [0..<min (unat (i_size f) - n * bs) bs])"
proof -
  let ?z = "file_zone s f n" and ?r = "min (unat (i_size f) - n * bs) bs"
  obtain rem where g: "minix3_gzbars s f (of_nat n) = Some (zone_addr64 s ?z, rem)"
      "unat rem = unat (i_size f) - n * bs"
    using gzbars_no_holes [OF nh n(1) [unfolded bs(1)] n(2)] bs by auto
  have "?z \<noteq> 0" using nh n bs by (simp add: no_holes_def)
  then have "zone_addr64 s ?z \<noteq> 0" using bs by (auto simp: zone_addr64_def unat_eq_0)
  moreover have "unat (if rem < ucast (mx3_block_size s) then rem else ucast (mx3_block_size s)) = ?r"
    using g(2) bs(1) by (simp add: word_less_nat_alt unat_bs min_def)
  moreover have "disk_read (mx_disk s) (zone_addr64 s ?z) ?r = map (\<lambda>k. file_byte s f (n * bs + k)) [0..<?r]"
    using bs file_byte_zone [of _ s f n] by (intro nth_equalityI) auto
  ultimately show ?thesis using g(1) by (simp add: minix3_read_from_zone_def)
qed

lemma read_file_from_end: "read_file_from s f st b off 0 = Some b"
  by (subst read_file_from.simps) simp

lemma read_file_from_spec:
  assumes nh: "no_holes s f" and bs: "bs = unat (mx3_block_size s)" "0 < bs"
    and sz: "unat (i_size f) + bs < 2 ^ 32" and n: "n * bs < unat (i_size f)"
    and b: "\<forall>k < n * bs. b k = file_byte s f k"
  shows "\<exists>b'. read_file_from s f 0 b (of_nat (n * bs)) (of_nat (unat (i_size f) - n * bs)) = Some b' \<and>
    (\<forall>k < unat (i_size f). b' k = file_byte s f k)"
  using n b
proof (induction "unat (i_size f) - n * bs" arbitrary: n b rule: less_induct)
  case less
  let ?s = "unat (i_size f)" and ?off = "of_nat (n * bs) :: u32" and ?B = "ucast (mx3_block_size s) :: u32"
  have "n * 1 \<le> n * bs" using bs(2) by (intro mult_le_mono2) simp
  then have n32: "n < 2 ^ 32" using less.prems(1) sz by linarith
  have uo: "unat ?off = n * bs" and us: "unat (of_nat (?s - n * bs) :: u32) = ?s - n * bs"
    by (rule unat_of_nat_32, use less.prems(1) sz in linarith)+
  have ub: "unat ?B = bs" unfolding bs(1) by (rule unat_bs)
  have tz: "?off div ?B = of_nat n"
    using uo ub bs(2) n32 by (intro word_unat_eq_iff [THEN iffD2]) (simp add: unat_div unat_of_nat del: of_nat_mult)
  have uob: "unat (?off + ?B) = n * bs + bs" using uo ub less.prems(1) sz by (simp add: unat_word_ariths del: of_nat_mult)
  let ?r = "min (?s - n * bs) bs"
  obtain c where rz: "minix3_read_from_zone s f (of_nat n) = Some (c, map (\<lambda>k. file_byte s f (n * bs + k)) [0..<?r])"
    using read_zone_no_holes [OF nh less.prems(1) n32 bs] by blast
  define b1 where "b1 = disk_write b (n * bs) (map (\<lambda>k. file_byte s f (n * bs + k)) [0..<?r])"
  have b1: "\<forall>k < n * bs + ?r. b1 k = file_byte s f k"
  proof (intro allI impI)
    fix k assume k: "k < n * bs + ?r"
    show "b1 k = file_byte s f k"
    proof (cases "k < n * bs")
      case False
      then have "k - n * bs < ?r" using k by linarith
      then show ?thesis using False k by (simp add: b1_def disk_write_def)
    qed (use less.prems(2) in \<open>simp add: b1_def disk_write_def\<close>)
  qed
  have nz: "(of_nat (?s - n * bs) :: u32) \<noteq> 0" using us less.prems(1) by auto
  have step: "read_file_from s f 0 b ?off (of_nat (?s - n * bs)) =
      (if i_size f > ?off + ?B then read_file_from s f 0 b1 (?off + ?B) (of_nat (?s - n * bs) - ?B)
       else read_file_from s f 0 b1 ?off (of_nat (?s - n * bs) - (i_size f - ?off)))"
    using nz rz tz uo by (subst read_file_from.simps) (simp add: b1_def del: of_nat_mult)
  show ?case
  proof (cases "i_size f > ?off + ?B")
    case True
    then have gt: "Suc n * bs < ?s" using uob by (simp add: word_less_nat_alt)
    have B: "?B \<le> of_nat (?s - n * bs)" unfolding word_le_nat_alt us ub using gt by simp
    have "unat (of_nat (?s - n * bs) - ?B) = ?s - n * bs - bs" unfolding unat_sub [OF B] us ub ..
    also have "\<dots> = unat (of_nat (?s - Suc n * bs) :: u32)"
      by (subst unat_of_nat_32) (use sz in auto)
    finally have "of_nat (?s - n * bs) - ?B = (of_nat (?s - Suc n * bs) :: u32)"
      by (rule word_unat_eq_iff [THEN iffD2])
    moreover have "unat (of_nat (Suc n * bs) :: u32) = n * bs + bs"
      by (subst unat_of_nat_32) (use gt sz in auto)
    then have "?off + ?B = of_nat (Suc n * bs)" using uob by (intro word_unat_eq_iff [THEN iffD2]) (simp only:)
    ultimately have e: "read_file_from s f 0 b ?off (of_nat (?s - n * bs)) =
        read_file_from s f 0 b1 (of_nat (Suc n * bs)) (of_nat (?s - Suc n * bs))"
      using step True by (simp only: if_True)
    show ?thesis unfolding e
      by (rule less.hyps) (use gt b1 bs(2) less.prems(1) in auto)
  next
    case False
    then have le: "?s \<le> n * bs + bs" using uob by (simp add: word_less_nat_alt)
    have "of_nat (?s - n * bs) - (i_size f - ?off) = (0 :: u32)"
      using us uo less.prems(1)
      by (intro word_unat_eq_iff [THEN iffD2]) (simp add: unat_sub word_le_nat_alt del: of_nat_mult)
    then show ?thesis using step False b1 le by (auto simp: read_file_from_end)
  qed
qed

lemma read_whole_file:
  assumes "no_holes s f" and "0 < unat (mx3_block_size s)"
    and "unat (i_size f) + unat (mx3_block_size s) < 2 ^ 32"
  shows "minix3_read_whole_file s f = Some (Some (map (file_byte s f) [0..<unat (i_size f)]))"
proof (cases "i_size f = 0")
  case True
  then show ?thesis by (simp add: minix3_read_whole_file_def minix3_read_from_file_def read_file_from_end)
next
  case False
  then have "0 < unat (i_size f)" by (simp add: unat_gt_0)
  then obtain b where b: "read_file_from s f 0 (\<lambda>_. 0) 0 (i_size f) = Some b"
      "\<forall>k < unat (i_size f). b k = file_byte s f k"
    using read_file_from_spec [OF assms(1) refl assms(2,3), of 0 "\<lambda>_. 0"] by auto
  then have "map b [0..<unat (i_size f)] = map (file_byte s f) [0..<unat (i_size f)]" by simp
  then show ?thesis using b(1) by (simp add: minix3_read_whole_file_def minix3_read_from_file_def)
qed

text \<open>
  C28: Reading a whole file without holes returns, and gives each of its bytes as its zones on the
  disk hold it, whether the zone is direct, indirect or doubly indirect.
\<close>

theorem minix3_read_whole_file_correct:
  assumes "no_holes s f" and "0 < unat (mx3_block_size s)"
    and "unat (i_size f) + unat (mx3_block_size s) < 2 ^ 32"
  shows "minix3_read_whole_file s f = Some (Some (map (file_byte s f) [0..<unat (i_size f)]))"
  by (rule read_whole_file [OF assms])

text \<open>A file of three bytes in zone 7.\<close>

definition demo_file :: mx3_inode where
  "demo_file = zero_inode\<lparr>i_size := 3, i_zones := [7, 0, 0, 0, 0, 0, 0, 0, 0, 0]\<rparr>"

definition demo_fs_file :: mx3 where
  "demo_fs_file = demo_fs\<lparr>mx_disk := demo_disk(7168 := 0x61, 7169 := 0x62, 7170 := 0x63)\<rparr>"

theorem minix3_read_whole_file_correct_witness:
  "minix3_read_whole_file demo_fs_file demo_file = Some (Some [0x61, 0x62, 0x63])"
proof -
  have bs: "mx3_block_size demo_fs_file = 1024" by (simp add: demo_fs_file_def demo_fs_def)
  have f: "i_size demo_file = 3" "i_zones demo_file = [7, 0, 0, 0, 0, 0, 0, 0, 0, 0]" by (simp_all add: demo_file_def)
  have "has_path demo_fs_file demo_file n \<and> file_zone demo_fs_file demo_file n \<noteq> 0" if "n * 1024 < 3" for n
  proof -
    have "n = 0" using that by simp
    then show ?thesis by (simp add: has_path_def f file_zone_def)
  qed
  then have "no_holes demo_fs_file demo_file" by (simp add: no_holes_def bs f)
  moreover have "map (file_byte demo_fs_file demo_file) [0..<3] = [0x61, 0x62, 0x63]"
    by (simp add: file_byte_def bs file_zone_def f zone_addr64_def upt_rec) (simp add: demo_fs_file_def)
  ultimately show ?thesis
    using minix3_read_whole_file_correct [of demo_fs_file demo_file] by (simp add: bs f)
qed

end
