(* ===== verification/Vfs.thy ===== *)
theory Vfs
  imports Minix3_Files
begin

text \<open>
  The virtual file system, \<^verbatim>\<open>src/vfs.c\<close>: the tree of cached directories, the working directory
  with its printed path, and the commands that pass on to the Minix 3 file system.

  Directories live at addresses; the addresses \<open>kmalloc\<close> hands out are arguments. The doubly linked
  list of a directory's children is the list of the directories its nodes point to, in order: a node
  is made together with its directory and freed together with it. Strings are the bytes before the
  terminator. \<open>None\<close> is a call that does not return normally: a freed or NULL pointer is followed, or
  a string is copied into a buffer it does not fit in.
\<close>

unbundle bit_operations_syntax

section \<open>State\<close>

abbreviation (input) VFS_FNAME_LENGTH :: nat where "VFS_FNAME_LENGTH \<equiv> 64"
abbreviation (input) VFS_PATH_LENGTH :: nat where "VFS_PATH_LENGTH \<equiv> 256"
abbreviation (input) MX3_NAME_LEN :: nat where "MX3_NAME_LEN \<equiv> 60"
abbreviation (input) VFS_RETURN_CODE_NOT_FOUND :: int where "VFS_RETURN_CODE_NOT_FOUND \<equiv> 0x44"
abbreviation (input) VFS_RETURN_CODE_NOT_DIRECTORY :: int where "VFS_RETURN_CODE_NOT_DIRECTORY \<equiv> 0x45"

abbreviation (input) slash :: u8 where "slash \<equiv> 0x2f"
abbreviation (input) dot :: u8 where "dot \<equiv> 0x2e"

datatype fs_kind = VFS_FS_UNKNOWN | VFS_FS_MINIX3 | VFS_FS_OS

record vfs_inode =
  v_mode :: u16
  v_uid :: u16
  v_gid :: u16

record vfs_directory =
  vd_name :: "u8 list"
  vd_which_dev :: int
  vd_fs_type :: fs_kind
  vd_inode_num :: u32
  vd_inode :: "vfs_inode option"
  vd_parent :: nat
  vd_children :: "nat list"

record vfs =
  v_fs :: mx3
  mx3_fs_exists :: bool
  mx3_block_dev :: int
  v_dirs :: "nat \<rightharpoonup> vfs_directory"
  v_dir_root :: nat
  v_dir_pwd :: nat
  vfs_pwd :: "u8 list"

section \<open>Paths\<close>

text \<open>
  \<open>vfs_get_path\<close>: the names from the root down to a directory, each put in front of what is there,
  in a buffer of \<open>VFS_PATH_LENGTH\<close> bytes.
\<close>

partial_function (option) get_path_from ::
    "(nat \<rightharpoonup> vfs_directory) \<Rightarrow> nat \<Rightarrow> u8 list \<Rightarrow> u8 list option" where
  "get_path_from ds cur_dir fullname =
     (if cur_dir = 0 then Some fullname
      else do { d \<leftarrow> ds cur_dir;
                let fullname1 = vd_name d @ fullname;
                if length fullname1 + 1 > VFS_PATH_LENGTH then None
                else if vd_parent d = cur_dir then Some fullname1
                else get_path_from ds (vd_parent d) fullname1 })"

definition vfs_get_path :: "(nat \<rightharpoonup> vfs_directory) \<Rightarrow> nat \<Rightarrow> u8 list option" where
  "vfs_get_path ds cur_dir = get_path_from ds cur_dir []"

definition vfs_update_pwd :: "vfs \<Rightarrow> vfs option" where
  "vfs_update_pwd v = do { p \<leftarrow> vfs_get_path (v_dirs v) (v_dir_pwd v); Some (v\<lparr>vfs_pwd := p\<rparr>) }"

definition vfs_process_path :: "u8 list \<Rightarrow> u8 list" where
  "vfs_process_path path =
     (if length path < 1 then path
      else if last path \<noteq> slash then path @ [slash]
      else path)"

text \<open>A path that is too long is only reported.\<close>

definition vfs_path_to_minix3_path :: "u8 list \<Rightarrow> u8 list" where
  "vfs_path_to_minix3_path path =
     (if length path < 1 then path else if last path = slash then butlast path else path)"

text \<open>A string copied into a buffer of \<open>n\<close> bytes.\<close>

definition fit :: "nat \<Rightarrow> u8 list \<Rightarrow> u8 list option" where
  "fit n path = (if length path + 1 \<le> n then Some path else None)"

section \<open>The tree\<close>

definition os_root :: "nat \<Rightarrow> vfs_directory" where
  "os_root root =
     \<lparr>vd_name = [slash], vd_which_dev = -1, vd_fs_type = VFS_FS_OS, vd_inode_num = 0, vd_inode = None,
      vd_parent = root, vd_children = []\<rparr>"

definition vfs_init :: "vfs \<Rightarrow> nat \<Rightarrow> vfs option" where
  "vfs_init v root =
     vfs_update_pwd (v\<lparr>v_dirs := (v_dirs v)(root \<mapsto> os_root root), v_dir_root := root, v_dir_pwd := root\<rparr>)"

definition vnode_of :: "mx3_inode \<Rightarrow> vfs_inode" where
  "vnode_of f = \<lparr>v_mode = i_mode f, v_uid = i_uid f, v_gid = i_gid f\<rparr>"

text \<open>Mounting over a directory that is already mounted is reported and goes on.\<close>

definition vfs_mount_minix3 :: "vfs \<Rightarrow> nat \<Rightarrow> (vfs \<times> int) option" where
  "vfs_mount_minix3 v mount_to_dir =
     (if \<not> mx3_fs_exists v then Some (v, 1)
      else do { d \<leftarrow> v_dirs v mount_to_dir;
                Some (v\<lparr>v_dirs := (v_dirs v)(mount_to_dir \<mapsto>
                          d\<lparr>vd_which_dev := mx3_block_dev v, vd_fs_type := VFS_FS_MINIX3, vd_inode_num := 1,
                            vd_inode := Some (vnode_of (minix3_get_inode (v_fs v) 1))\<rparr>)\<rparr>, 0) })"

definition vfs_free_directory_llist_node :: "vfs \<Rightarrow> nat \<Rightarrow> vfs option" where
  "vfs_free_directory_llist_node v vdir =
     do { d \<leftarrow> v_dirs v vdir;
          Some (if vd_children d \<noteq> [] then v else v\<lparr>v_dirs := (v_dirs v)(vdir := None)\<rparr>) }"

text \<open>The loop does not count: the index of any node that is present is the initial one.\<close>

fun find_in_llist_from :: "nat list \<Rightarrow> nat \<Rightarrow> int \<Rightarrow> int" where
  "find_in_llist_from [] target i = -1"
| "find_in_llist_from (p # ps) target i = (if p = target then i else find_in_llist_from ps target i)"

definition vfs_find_in_llist :: "nat list \<Rightarrow> nat \<Rightarrow> int" where
  "vfs_find_in_llist children target = find_in_llist_from children target 0"

definition vfs_remove_from_llist :: "nat list \<Rightarrow> nat \<Rightarrow> nat list" where
  "vfs_remove_from_llist children target =
     (if vfs_find_in_llist children target = -1 then children else remove1 target children)"

text \<open>The search for a child of a name, shared by three loops of the code.\<close>

fun child_named :: "(nat \<rightharpoonup> vfs_directory) \<Rightarrow> nat list \<Rightarrow> u8 list \<Rightarrow> nat option option" where
  "child_named ds [] path = Some None"
| "child_named ds (c # cs) path =
     do { d \<leftarrow> ds c; if path = vd_name d then Some (Some c) else child_named ds cs path }"

definition vfs_is_path_cached :: "vfs \<Rightarrow> nat \<Rightarrow> u8 list \<Rightarrow> bool option" where
  "vfs_is_path_cached v vdir path =
     do { d \<leftarrow> v_dirs v vdir; r \<leftarrow> child_named (v_dirs v) (vd_children d) path; Some (r \<noteq> None) }"

definition vfs_cd_into_cached_path :: "vfs \<Rightarrow> u8 list \<Rightarrow> (vfs \<times> int) option" where
  "vfs_cd_into_cached_path v path =
     do { cached \<leftarrow> vfs_is_path_cached v (v_dir_pwd v) path;
          if \<not> cached then Some (v, 1)
          else do { d \<leftarrow> v_dirs v (v_dir_pwd v);
                    r \<leftarrow> child_named (v_dirs v) (vd_children d) path;
                    case r of
                      None \<Rightarrow> Some (v, 0)
                    | Some c \<Rightarrow> do { v1 \<leftarrow> vfs_update_pwd (v\<lparr>v_dir_pwd := c\<rparr>); Some (v1, 1) } }}"

text \<open>
  \<open>vfs_cache_path\<close>: the child is looked up on the file system and put in front of the list. A lookup
  that fails because the parent is not a directory is not noticed: the number is then what the
  stack holds and the inode is zero.
\<close>

definition new_child :: "vfs_directory \<Rightarrow> nat \<Rightarrow> u8 list \<Rightarrow> u32 \<Rightarrow> mx3_inode \<Rightarrow> vfs_directory" where
  "new_child d parent_dir path n f =
     \<lparr>vd_name = path, vd_which_dev = vd_which_dev d, vd_fs_type = vd_fs_type d, vd_inode_num = n,
      vd_inode = Some (vnode_of f), vd_parent = parent_dir, vd_children = []\<rparr>"

definition vfs_cache_path :: "vfs \<Rightarrow> nat \<Rightarrow> u8 list \<Rightarrow> nat \<Rightarrow> (vfs \<times> int) option" where
  "vfs_cache_path v parent_dir path new =
     do { d \<leftarrow> v_dirs v parent_dir;
          case vd_fs_type d of
            VFS_FS_MINIX3 \<Rightarrow>
              do { minix3_path \<leftarrow> fit MX3_NAME_LEN path;
                   let parent_inode = minix3_get_inode (v_fs v) (vd_inode_num d);
                   (retval, found) \<leftarrow> minix3_get_inode_from_name (v_fs v) parent_inode
                                        (vfs_path_to_minix3_path minix3_path);
                   if retval = MX3_RETURN_CODE_NOT_FOUND then Some (v, VFS_RETURN_CODE_NOT_FOUND)
                   else if retval = MX3_RETURN_CODE_NOT_DIRECTORY then Some (v, VFS_RETURN_CODE_NOT_DIRECTORY)
                   else
                     (let (n, f) = (case found of None \<Rightarrow> (mx_junk (v_fs v), zero_inode) | Some x \<Rightarrow> x)
                      in Some (v\<lparr>v_dirs := (v_dirs v)(new \<mapsto> new_child d parent_dir path n f,
                                   parent_dir \<mapsto> d\<lparr>vd_children := new # vd_children d\<rparr>)\<rparr>, 0)) }
          | _ \<Rightarrow> Some (v, 1) }"

section \<open>Commands\<close>

definition vfs_cd :: "vfs \<Rightarrow> u8 list \<Rightarrow> nat \<Rightarrow> vfs option" where
  "vfs_cd v path new =
     (if path = [dot] then Some v
      else if path = [] then vfs_update_pwd (v\<lparr>v_dir_pwd := v_dir_root v\<rparr>)
      else if path = [dot, dot] then
        do { d \<leftarrow> v_dirs v (v_dir_pwd v); vfs_update_pwd (v\<lparr>v_dir_pwd := vd_parent d\<rparr>) }
      else
        do { processed_path \<leftarrow> fit VFS_PATH_LENGTH (vfs_process_path path);
             cached \<leftarrow> vfs_is_path_cached v (v_dir_pwd v) processed_path;
             if cached then map_option fst (vfs_cd_into_cached_path v processed_path)
             else do { (v1, retval) \<leftarrow> vfs_cache_path v (v_dir_pwd v) processed_path new;
                       if retval \<noteq> 0 then Some v1
                       else map_option fst (vfs_cd_into_cached_path v1 processed_path) }})"

definition vfs_ls :: "vfs \<Rightarrow> nat \<Rightarrow> (u32 \<times> u8 list) list option" where
  "vfs_ls v cur_dir =
     (if cur_dir = 0 then Some []
      else do { d \<leftarrow> v_dirs v cur_dir;
                case vd_fs_type d of
                  VFS_FS_MINIX3 \<Rightarrow> minix3_ls (v_fs v) (minix3_get_inode (v_fs v) (vd_inode_num d))
                | _ \<Rightarrow> Some [] })"

text \<open>The return codes of the file system only select what is printed.\<close>

definition vfs_touch :: "vfs \<Rightarrow> nat \<Rightarrow> u8 list \<Rightarrow> vfs option" where
  "vfs_touch v vdir fname =
     do { d \<leftarrow> v_dirs v vdir;
          case vd_fs_type d of
            VFS_FS_MINIX3 \<Rightarrow>
              do { mx3_fname \<leftarrow> fit MX3_NAME_LEN fname;
                   (s, _) \<leftarrow> minix3_touch_reg (v_fs v) (vd_inode_num d) (vfs_path_to_minix3_path mx3_fname);
                   Some (v\<lparr>v_fs := s\<rparr>) }
          | _ \<Rightarrow> Some v }"

definition vfs_rm :: "vfs \<Rightarrow> nat \<Rightarrow> u8 list \<Rightarrow> vfs option" where
  "vfs_rm v vdir dirname =
     do { d \<leftarrow> v_dirs v vdir;
          case vd_fs_type d of
            VFS_FS_MINIX3 \<Rightarrow>
              do { mx3_dirname \<leftarrow> fit MX3_NAME_LEN dirname;
                   (s, _) \<leftarrow> minix3_rm (v_fs v) (vd_inode_num d) (vfs_path_to_minix3_path mx3_dirname);
                   Some (v\<lparr>v_fs := s\<rparr>) }
          | _ \<Rightarrow> Some v }"

text \<open>The new path is cached even if the directory could not be made, for example if it exists.\<close>

definition vfs_mkdir :: "vfs \<Rightarrow> nat \<Rightarrow> u8 list \<Rightarrow> nat \<Rightarrow> vfs option" where
  "vfs_mkdir v vdir dirname new =
     do { d \<leftarrow> v_dirs v vdir;
          v1 \<leftarrow> (case vd_fs_type d of
                   VFS_FS_MINIX3 \<Rightarrow>
                     do { mx3_dirname \<leftarrow> fit MX3_NAME_LEN dirname;
                          (s, _) \<leftarrow> minix3_mkdir (v_fs v) (vd_inode_num d) (vfs_path_to_minix3_path mx3_dirname);
                          Some (v\<lparr>v_fs := s\<rparr>) }
                 | _ \<Rightarrow> Some v);
          vfs_dirname \<leftarrow> fit MX3_NAME_LEN (vfs_process_path dirname);
          (v2, _) \<leftarrow> vfs_cache_path v1 vdir vfs_dirname new;
          Some v2 }"

text \<open>The part of \<open>vfs_rmdir\<close> that takes the directory out of the tree.\<close>

definition uncache :: "vfs \<Rightarrow> nat \<Rightarrow> u8 list \<Rightarrow> vfs option" where
  "uncache v vdir dirname =
     do { vfs_dirname \<leftarrow> fit VFS_FNAME_LENGTH (vfs_process_path dirname);
          d \<leftarrow> v_dirs v vdir;
          r \<leftarrow> child_named (v_dirs v) (vd_children d) vfs_dirname;
          case r of
            None \<Rightarrow> Some v
          | Some c \<Rightarrow>
              vfs_free_directory_llist_node
                (v\<lparr>v_dirs := (v_dirs v)(vdir \<mapsto> d\<lparr>vd_children := vfs_remove_from_llist (vd_children d) c\<rparr>)\<rparr>) c }"

definition vfs_rmdir :: "vfs \<Rightarrow> nat \<Rightarrow> u8 list \<Rightarrow> vfs option" where
  "vfs_rmdir v vdir dirname =
     do { d \<leftarrow> v_dirs v vdir;
          case vd_fs_type d of
            VFS_FS_MINIX3 \<Rightarrow>
              do { mx3_dirname \<leftarrow> fit MX3_NAME_LEN dirname;
                   (s, retval) \<leftarrow> minix3_rmdir (v_fs v) (vd_inode_num d) (vfs_path_to_minix3_path mx3_dirname);
                   let v1 = v\<lparr>v_fs := s\<rparr>;
                   if retval = 0 then uncache v1 vdir dirname else Some v1 }
          | _ \<Rightarrow> Some v }"

text \<open>The inode a name of the directory leads to; its number is what the stack holds if there is none.\<close>

definition target_of :: "vfs \<Rightarrow> vfs_directory \<Rightarrow> u8 list \<Rightarrow> (u32 \<times> mx3_inode) option" where
  "target_of v d fname =
     do { mx3_fname \<leftarrow> fit MX3_NAME_LEN fname;
          (retval, found) \<leftarrow> minix3_get_inode_from_name (v_fs v) (minix3_get_inode (v_fs v) (vd_inode_num d))
                               (vfs_path_to_minix3_path mx3_fname);
          Some (case found of None \<Rightarrow> (mx_junk (v_fs v), zero_inode) | Some x \<Rightarrow> x) }"

text \<open>\<open>vfs_cat\<close>: the contents that are printed.\<close>

definition vfs_cat :: "vfs \<Rightarrow> nat \<Rightarrow> u8 list \<Rightarrow> u8 list option" where
  "vfs_cat v vdir fname =
     do { d \<leftarrow> v_dirs v vdir;
          case vd_fs_type d of
            VFS_FS_MINIX3 \<Rightarrow>
              do { (_, target_inode) \<leftarrow> target_of v d fname;
                   file_contents \<leftarrow> minix3_read_whole_file (v_fs v) target_inode;
                   file_contents }
          | _ \<Rightarrow> Some [] }"

definition vfs_append :: "vfs \<Rightarrow> nat \<Rightarrow> u8 list \<Rightarrow> u8 list \<Rightarrow> vfs option" where
  "vfs_append v vdir fname buffer =
     do { d \<leftarrow> v_dirs v vdir;
          case vd_fs_type d of
            VFS_FS_MINIX3 \<Rightarrow>
              do { (inode_num, _) \<leftarrow> target_of v d fname;
                   (s, _) \<leftarrow> minix3_append_to_file (v_fs v) inode_num buffer;
                   Some (v\<lparr>v_fs := s\<rparr>) }
          | _ \<Rightarrow> Some v }"

text \<open>
  \<open>vfs_bmp_to_file\<close>: a picture on a block device, whose contents are \<open>dev\<close>, is appended to a new file.
  A wrong magic number is only reported; the size is read at byte 34 and cut to 32 bits where the
  bytes are appended.
\<close>

definition vfs_bmp_to_file :: "vfs \<Rightarrow> nat \<Rightarrow> u8 list \<Rightarrow> (nat \<Rightarrow> u8) \<Rightarrow> vfs option" where
  "vfs_bmp_to_file v vdir fname dev =
     do { d \<leftarrow> v_dirs v vdir;
          case vd_fs_type d of
            VFS_FS_MINIX3 \<Rightarrow>
              do { v1 \<leftarrow> vfs_touch v vdir fname;
                   let image_size = (ucast (rd32 dev 34) :: u64);
                   let offset_to_pixels = 54;
                   let file_size = image_size + offset_to_pixels;
                   vfs_append v1 vdir fname (disk_read dev 0 (unat (ucast file_size :: u32))) }
          | _ \<Rightarrow> Some v }"

text \<open>
  The commands the console runs, always in the working directory. The addresses of new directories
  are fresh.
\<close>

inductive vfs_step :: "vfs \<Rightarrow> vfs \<Rightarrow> bool" where
  cd: "vfs_cd v path new = Some v' \<Longrightarrow> new \<noteq> 0 \<Longrightarrow> v_dirs v new = None \<Longrightarrow> vfs_step v v'"
| touch: "vfs_touch v (v_dir_pwd v) fname = Some v' \<Longrightarrow> vfs_step v v'"
| rm: "vfs_rm v (v_dir_pwd v) fname = Some v' \<Longrightarrow> vfs_step v v'"
| mkdir: "vfs_mkdir v (v_dir_pwd v) dirname new = Some v' \<Longrightarrow> new \<noteq> 0 \<Longrightarrow> v_dirs v new = None \<Longrightarrow> vfs_step v v'"
| rmdir: "vfs_rmdir v (v_dir_pwd v) dirname = Some v' \<Longrightarrow> vfs_step v v'"
| append: "vfs_append v (v_dir_pwd v) fname buffer = Some v' \<Longrightarrow> vfs_step v v'"
| bmp: "vfs_bmp_to_file v (v_dir_pwd v) fname dev = Some v' \<Longrightarrow> vfs_step v v'"

section \<open>The tree invariant\<close>

text \<open>A directory reached from the root through the lists of children, with its depth and path.\<close>

inductive rooted :: "(nat \<rightharpoonup> vfs_directory) \<Rightarrow> nat \<Rightarrow> nat \<Rightarrow> nat \<Rightarrow> u8 list \<Rightarrow> bool" for ds r where
  root: "ds r = Some d \<Longrightarrow> rooted ds r r 0 (vd_name d)"
| child: "rooted ds r p n path \<Longrightarrow> ds p = Some dp \<Longrightarrow> c \<in> set (vd_children dp) \<Longrightarrow> ds c = Some d \<Longrightarrow>
    vd_parent d = p \<Longrightarrow> c \<noteq> p \<Longrightarrow> c \<noteq> r \<Longrightarrow> c \<noteq> 0 \<Longrightarrow> rooted ds r c (Suc n) (path @ vd_name d)"

inductive_cases rooted_E: "rooted ds r c n path"

text \<open>Every child on a list is there, knows its parent, and is on the list once.\<close>

definition dirs_wf :: "(nat \<rightharpoonup> vfs_directory) \<Rightarrow> nat \<Rightarrow> bool" where
  "dirs_wf ds r \<longleftrightarrow> r \<noteq> 0 \<and> (\<exists>d. ds r = Some d \<and> vd_parent d = r) \<and>
     (\<forall>a d. ds a = Some d \<longrightarrow> distinct (vd_children d) \<and>
        (\<forall>c \<in> set (vd_children d). c \<noteq> 0 \<and> c \<noteq> r \<and> c \<noteq> a \<and> (\<exists>e. ds c = Some e \<and> vd_parent e = a)))"

definition vfs_wf :: "vfs \<Rightarrow> bool" where
  "vfs_wf v \<longleftrightarrow> dirs_wf (v_dirs v) (v_dir_root v) \<and>
     (\<exists>n. rooted (v_dirs v) (v_dir_root v) (v_dir_pwd v) n (vfs_pwd v)) \<and> length (vfs_pwd v) < VFS_PATH_LENGTH"

lemma dirs_wf_child:
  "dirs_wf ds r \<Longrightarrow> ds a = Some d \<Longrightarrow> c \<in> set (vd_children d) \<Longrightarrow>
   c \<noteq> 0 \<and> c \<noteq> r \<and> c \<noteq> a \<and> (\<exists>e. ds c = Some e \<and> vd_parent e = a)"
  unfolding dirs_wf_def by blast

lemma rooted_some: "rooted ds r c n path \<Longrightarrow> \<exists>d. ds c = Some d"
  by (auto elim: rooted.cases)

lemma rooted_child:
  "dirs_wf ds r \<Longrightarrow> rooted ds r p n path \<Longrightarrow> ds p = Some dp \<Longrightarrow> c \<in> set (vd_children dp) \<Longrightarrow> ds c = Some d \<Longrightarrow>
   rooted ds r c (Suc n) (path @ vd_name d)"
  by (drule (2) dirs_wf_child) (auto intro: rooted.child)

lemma rooted_parent:
  assumes "dirs_wf ds r" and "rooted ds r c n path" and "ds c = Some d"
  obtains m p' where "rooted ds r (vd_parent d) m p'" and "length p' \<le> length path"
    and "\<exists>q. path = p' @ q" and "c \<noteq> r \<Longrightarrow> n = Suc m \<and> path = p' @ vd_name d"
proof (cases "c = r")
  case True
  then have "vd_parent d = r" "path = vd_name d"
    using assms by (auto simp: dirs_wf_def elim!: rooted_E)
  then show ?thesis using that [of 0 "vd_name d"] rooted.root assms(3) True by auto
next
  case False
  from assms(2) obtain m p' where "rooted ds r (vd_parent d) m p'" "n = Suc m" "path = p' @ vd_name d"
    by (cases rule: rooted.cases) (use False assms(3) in auto)
  then show ?thesis using that by auto
qed

lemma rooted_depth:
  "rooted ds r c n path \<Longrightarrow> rooted ds r c m q \<Longrightarrow> n = m \<and> path = q"
proof (induction arbitrary: m q rule: rooted.induct)
  case (root d)
  then show ?case by (auto elim: rooted_E)
next
  case (child p n path dp c d)
  from child.prems obtain m' q' where "m = Suc m'" "q = q' @ vd_name d" "rooted ds r p m' q'"
    by (cases rule: rooted.cases) (use child.hyps in auto)
  then show ?case using child.IH by blast
qed

lemma get_path_from_rooted:
  assumes "dirs_wf ds r"
  shows "rooted ds r c n path \<Longrightarrow> length path + length full < VFS_PATH_LENGTH \<Longrightarrow>
    get_path_from ds c full = Some (path @ full)"
proof (induction arbitrary: full rule: rooted.induct)
  case (root d)
  then show ?case using assms by (subst get_path_from.simps) (auto simp: dirs_wf_def)
next
  case (child p n path dp c d)
  have "get_path_from ds p (vd_name d @ full) = Some (path @ vd_name d @ full)"
    using child.IH [of "vd_name d @ full"] child.prems by simp
  then show ?case using child.hyps child.prems by (subst get_path_from.simps) auto
qed

lemma vfs_get_path_rooted:
  "dirs_wf ds r \<Longrightarrow> rooted ds r c n path \<Longrightarrow> length path < VFS_PATH_LENGTH \<Longrightarrow> vfs_get_path ds c = Some path"
  using get_path_from_rooted [of ds r c n path "[]"] by (simp add: vfs_get_path_def)

text \<open>A path that was computed is the one from the root.\<close>

lemma get_path_from_length:
  assumes "dirs_wf ds r"
  shows "rooted ds r c n path \<Longrightarrow> get_path_from ds c full = Some p \<Longrightarrow> p = path @ full \<and> length p < VFS_PATH_LENGTH"
proof (induction arbitrary: full rule: rooted.induct)
  case (root d)
  then show ?case using assms
    by (subst (asm) get_path_from.simps) (auto simp: dirs_wf_def Let_def split: if_splits)
next
  case (child p' n path dp c d)
  from child.prems child.hyps have "get_path_from ds p' (vd_name d @ full) = Some p"
    by (subst (asm) get_path_from.simps) (auto simp: Let_def split: if_splits)
  from child.IH [OF this] show ?case by auto
qed

lemma vfs_update_pwd_wf:
  assumes "dirs_wf (v_dirs v) (v_dir_root v)" and "rooted (v_dirs v) (v_dir_root v) (v_dir_pwd v) n path"
    and "vfs_update_pwd v = Some v'"
  shows "vfs_wf v' \<and> v' = v\<lparr>vfs_pwd := path\<rparr>"
proof -
  obtain p where p: "get_path_from (v_dirs v) (v_dir_pwd v) [] = Some p" and v': "v' = v\<lparr>vfs_pwd := p\<rparr>"
    using assms(3) by (auto simp: vfs_update_pwd_def vfs_get_path_def split: Option.bind_splits)
  from get_path_from_length [OF assms(1,2) p] have "p = path" "length path < VFS_PATH_LENGTH" by auto
  then show ?thesis using assms(1,2) v' unfolding vfs_wf_def by auto
qed

lemma vfs_wf_dirs: "vfs_wf v \<Longrightarrow> dirs_wf (v_dirs v) (v_dir_root v)"
  by (simp add: vfs_wf_def)

text \<open>The tree and the working directory do not change with the file system below.\<close>

lemma vfs_wf_fs [simp]: "vfs_wf (v\<lparr>v_fs := s\<rparr>) = vfs_wf v"
  by (simp add: vfs_wf_def)

subsection \<open>A new child\<close>

lemma rooted_cache:
  assumes "ds new = None" and "ds p = Some d"
  shows "rooted ds r c n path \<Longrightarrow>
    rooted (ds(new \<mapsto> e, p \<mapsto> d\<lparr>vd_children := new # vd_children d\<rparr>)) r c n path"
proof (induction rule: rooted.induct)
  case (root d')
  let ?ds = "ds(new \<mapsto> e, p \<mapsto> d\<lparr>vd_children := new # vd_children d\<rparr>)"
  obtain d'' where "?ds r = Some d''" "vd_name d'' = vd_name d'"
    using root assms by (cases "r = p"; cases "r = new") auto
  then show ?case using rooted.root [of ?ds r d''] by metis
next
  case (child q n path dq c d')
  let ?ds = "ds(new \<mapsto> e, p \<mapsto> d\<lparr>vd_children := new # vd_children d\<rparr>)"
  obtain dq' where q: "?ds q = Some dq'" "c \<in> set (vd_children dq')"
    using child.hyps assms by (cases "q = p"; cases "q = new") auto
  obtain d'' where "?ds c = Some d''" "vd_name d'' = vd_name d'" "vd_parent d'' = q"
    using child.hyps assms by (cases "c = p"; cases "c = new") auto
  then show ?case using rooted.child [OF child.IH q] child.hyps by metis
qed

lemma dirs_wf_cache:
  assumes wf: "dirs_wf ds r" and new: "ds new = None" "new \<noteq> 0" and d: "ds p = Some d"
    and e: "vd_parent e = p" "vd_children e = []"
  shows "dirs_wf (ds(new \<mapsto> e, p \<mapsto> d\<lparr>vd_children := new # vd_children d\<rparr>)) r"
proof -
  let ?ds = "ds(new \<mapsto> e, p \<mapsto> d\<lparr>vd_children := new # vd_children d\<rparr>)"
  have new': "new \<noteq> r" "new \<noteq> p" using wf new d by (auto simp: dirs_wf_def)
  have ex: "\<exists>x'. ?ds c = Some x' \<and> vd_parent x' = vd_parent x" if "ds c = Some x" for c x
    using that new d by (cases "c = p") auto
  have "distinct (vd_children x) \<and>
      (\<forall>c \<in> set (vd_children x). c \<noteq> 0 \<and> c \<noteq> r \<and> c \<noteq> a \<and> (\<exists>y. ?ds c = Some y \<and> vd_parent y = a))"
    if a: "?ds a = Some x" for a x
  proof (cases "a = new \<or> a = p")
    case True
    moreover have "new \<notin> set (vd_children d)" using dirs_wf_child [OF wf d, of new] new(1) by auto
    moreover have "distinct (vd_children d)" using wf d unfolding dirs_wf_def by blast
    ultimately show ?thesis using a e new' new(2) dirs_wf_child [OF wf d] ex by fastforce
  next
    case False
    then have x: "ds a = Some x" using a by simp
    then have "distinct (vd_children x)" using wf unfolding dirs_wf_def by blast
    then show ?thesis using dirs_wf_child [OF wf x] ex by metis
  qed
  moreover have "\<exists>x. ?ds r = Some x \<and> vd_parent x = r" using wf ex unfolding dirs_wf_def by metis
  ultimately show ?thesis using wf unfolding dirs_wf_def by blast
qed

lemma vfs_cache_path_cases:
  assumes "vfs_cache_path v p path new = Some (v', c)"
  obtains "v' = v" | d e where "v_dirs v p = Some d" and "vd_parent e = p" and "vd_children e = []" and "vd_name e = path"
    and "v' = v\<lparr>v_dirs := (v_dirs v)(new \<mapsto> e, p \<mapsto> d\<lparr>vd_children := new # vd_children d\<rparr>)\<rparr>"
proof -
  obtain d where "v_dirs v p = Some d"
    using assms by (auto simp: vfs_cache_path_def split: Option.bind_splits)
  moreover from this have "v' = v \<or> (\<exists>n f. v' = v\<lparr>v_dirs := (v_dirs v)(new \<mapsto> new_child d p path n f,
      p \<mapsto> d\<lparr>vd_children := new # vd_children d\<rparr>)\<rparr>)"
    using assms by (auto simp: vfs_cache_path_def fit_def split: Option.bind_splits fs_kind.splits if_splits prod.splits)
  ultimately show ?thesis
    using that(1) that(2) [of d "new_child d p path _ _"] by (auto simp only: new_child_def vfs_directory.simps)
qed

lemma vfs_cache_path_wf:
  assumes wf: "vfs_wf v" and "vfs_cache_path v p path new = Some (v', c)" and new: "new \<noteq> 0" "v_dirs v new = None"
  shows "vfs_wf v'"
  using assms(2)
proof (cases rule: vfs_cache_path_cases)
  case 1
  then show ?thesis using wf by simp
next
  case (2 d e)
  let ?r = "v_dir_root v"
  obtain n where "rooted (v_dirs v) ?r (v_dir_pwd v) n (vfs_pwd v)" using wf by (auto simp: vfs_wf_def)
  from rooted_cache [OF new(2) 2(1) this, of e] dirs_wf_cache [OF vfs_wf_dirs [OF wf] new(2,1) 2(1,2,3)]
  show ?thesis using wf 2(5) by (auto simp: vfs_wf_def)
qed

subsection \<open>Moving\<close>

lemma child_named_Some:
  "child_named ds cs path = Some (Some c) \<Longrightarrow> c \<in> set cs \<and> (\<exists>d. ds c = Some d \<and> vd_name d = path)"
  by (induction cs) (auto split: Option.bind_splits if_splits)

lemma vfs_cd_into_cached_path_wf:
  assumes wf: "vfs_wf v" and "vfs_cd_into_cached_path v path = Some (v', c)"
  shows "vfs_wf v'"
proof (cases "v' = v")
  case False
  then obtain d a where d: "v_dirs v (v_dir_pwd v) = Some d"
      and a: "child_named (v_dirs v) (vd_children d) path = Some (Some a)"
      and u: "vfs_update_pwd (v\<lparr>v_dir_pwd := a\<rparr>) = Some v'"
    using assms(2) by (auto simp: vfs_cd_into_cached_path_def split: Option.bind_splits if_splits option.splits)
  obtain e where e: "a \<in> set (vd_children d)" "v_dirs v a = Some e" using child_named_Some [OF a] by blast
  obtain n where "rooted (v_dirs v) (v_dir_root v) (v_dir_pwd v) n (vfs_pwd v)" using wf by (auto simp: vfs_wf_def)
  from rooted_child [OF vfs_wf_dirs [OF wf] this d e] show ?thesis
    using vfs_update_pwd_wf [OF _ _ u] vfs_wf_dirs [OF wf] by auto
qed (use wf in simp)

lemma vfs_cd_wf:
  assumes wf: "vfs_wf v" and cd: "vfs_cd v path new = Some v'" and new: "new \<noteq> 0" "v_dirs v new = None"
  shows "vfs_wf v'"
proof -
  note dirs = vfs_wf_dirs [OF wf]
  obtain n where r: "rooted (v_dirs v) (v_dir_root v) (v_dir_pwd v) n (vfs_pwd v)" using wf by (auto simp: vfs_wf_def)
  consider (stay) "path = [dot]" | (top) "path = []" | (up) "path = [dot, dot]"
    | (down) "path \<noteq> [dot]" "path \<noteq> []" "path \<noteq> [dot, dot]" by blast
  then show ?thesis
  proof cases
    case stay
    then show ?thesis using wf cd by (simp add: vfs_cd_def)
  next
    case top
    obtain d where "v_dirs v (v_dir_root v) = Some d" using dirs by (auto simp: dirs_wf_def)
    from rooted.root [of "v_dirs v", OF this] show ?thesis
      using vfs_update_pwd_wf [of "v\<lparr>v_dir_pwd := v_dir_root v\<rparr>"] dirs cd top by (auto simp: vfs_cd_def)
  next
    case up
    then obtain d where d: "v_dirs v (v_dir_pwd v) = Some d" "vfs_update_pwd (v\<lparr>v_dir_pwd := vd_parent d\<rparr>) = Some v'"
      using cd by (auto simp: vfs_cd_def split: Option.bind_splits)
    obtain m p where "rooted (v_dirs v) (v_dir_root v) (vd_parent d) m p" using rooted_parent [OF dirs r d(1)] by blast
    then show ?thesis using vfs_update_pwd_wf [OF _ _ d(2)] dirs by auto
  next
    case down
    let ?x = "vfs_process_path path"
    have "map_option fst (vfs_cd_into_cached_path v ?x) = Some v' \<or>
        (\<exists>v1 c. vfs_cache_path v (v_dir_pwd v) ?x new = Some (v1, c) \<and>
          (v' = v1 \<or> map_option fst (vfs_cd_into_cached_path v1 ?x) = Some v'))"
      using cd down by (auto simp: vfs_cd_def fit_def split: Option.bind_splits if_splits)
    then show ?thesis using vfs_cd_into_cached_path_wf vfs_cache_path_wf [OF wf _ new] wf
      by auto blast
  qed
qed

subsection \<open>Removing a child\<close>

lemma find_in_llist: "vfs_find_in_llist cs c = (if c \<in> set cs then 0 else -1)"
proof -
  have "find_in_llist_from cs c i = (if c \<in> set cs then i else -1)" for i by (induction cs) auto
  then show ?thesis by (simp add: vfs_find_in_llist_def)
qed

lemma remove_from_llist: "vfs_remove_from_llist cs c = remove1 c cs"
  by (simp add: vfs_remove_from_llist_def find_in_llist remove1_idem)

text \<open>
  Taking a child off the list of \<open>p\<close>, and possibly freeing it, leaves everything rooted that is not
  deeper than \<open>p\<close>.
\<close>

lemma rooted_uncache:
  assumes wf: "dirs_wf ds r" and p: "rooted ds r p N q" "ds p = Some d" "c \<in> set (vd_children d)"
    and ds': "\<And>x. x \<noteq> p \<Longrightarrow> x \<noteq> c \<Longrightarrow> ds' x = ds x" "ds' p = Some (d\<lparr>vd_children := cs\<rparr>)"
  shows "rooted ds r a n path \<Longrightarrow> n \<le> N \<Longrightarrow> rooted ds' r a n path"
proof (induction rule: rooted.induct)
  case (root d')
  have "c \<noteq> r" using dirs_wf_child [OF wf p(2,3)] by simp
  then obtain d'' where "ds' r = Some d''" "vd_name d'' = vd_name d'"
    using root ds' p(2) by (cases "r = p") auto
  then show ?case using rooted.root by metis
next
  case (child b n path db a d')
  obtain e where e: "ds c = Some e" "vd_parent e = p" using dirs_wf_child [OF wf p(2,3)] by blast
  have deep: "m = Suc N" if "rooted ds r c m path'" for m path'
    using rooted_depth [OF that rooted_child [OF wf p e(1)]] by simp
  have a: "rooted ds r a (Suc n) (path @ vd_name d')"
    using child.hyps by (intro rooted.child)
  have "b \<noteq> p" using rooted_depth [OF child.hyps(1), of N q] p(1) child.prems by auto
  moreover have "b \<noteq> c" using deep [of n path] child.hyps(1) child.prems by auto
  ultimately have b: "ds' b = Some db" using ds'(1) child.hyps by simp
  have "a \<noteq> c" using deep [of "Suc n"] a child.prems by auto
  then obtain d'' where "ds' a = Some d''" "vd_name d'' = vd_name d'" "vd_parent d'' = b"
    using child.hyps p(2) ds' by (cases "a = p") auto
  then show ?case using rooted.child [OF child.IH b child.hyps(3)] child.hyps child.prems by (metis Suc_leD)
qed

lemma dirs_wf_uncache:
  assumes wf: "dirs_wf ds r" and d: "ds p = Some d" "c \<in> set (vd_children d)"
    and ds': "\<And>x. x \<noteq> p \<Longrightarrow> x \<noteq> c \<Longrightarrow> ds' x = ds x" "ds' p = Some (d\<lparr>vd_children := remove1 c (vd_children d)\<rparr>)"
      "ds' c = ds c \<or> ds' c = None"
  shows "dirs_wf ds' r"
proof -
  obtain e where e: "ds c = Some e" "vd_parent e = p" "c \<noteq> r" "c \<noteq> p" using dirs_wf_child [OF wf d] by blast
  have ex: "\<exists>x'. ds' b = Some x' \<and> vd_parent x' = vd_parent x" if "ds b = Some x" "b \<noteq> c" for b x
    using that d ds' by (cases "b = p") auto
  have orig: "\<exists>x'. ds a = Some x' \<and> set (vd_children x) \<subseteq> set (vd_children x') - (if a = p then {c} else {}) \<and>
      distinct (vd_children x)" if a: "ds' a = Some x" for a x
  proof -
    have dist: "distinct (vd_children y)" if "ds b = Some y" for b y using wf that unfolding dirs_wf_def by blast
    consider "a = p" | "a \<noteq> p" "ds a = Some x" using a ds'(1) [of a] ds'(3) by (cases "a = c") auto
    then show ?thesis
    proof cases
      case 1
      then have "x = d\<lparr>vd_children := remove1 c (vd_children d)\<rparr>" using a ds'(2) by simp
      then show ?thesis using 1 d dist [OF d(1)] by simp
    qed (use dist in simp)
  qed
  have "distinct (vd_children x) \<and>
      (\<forall>b \<in> set (vd_children x). b \<noteq> 0 \<and> b \<noteq> r \<and> b \<noteq> a \<and> (\<exists>y. ds' b = Some y \<and> vd_parent y = a))"
    if a: "ds' a = Some x" for a x
  proof -
    obtain x' where x': "ds a = Some x'" "set (vd_children x) \<subseteq> set (vd_children x') - (if a = p then {c} else {})"
        "distinct (vd_children x)" using orig [OF a] by blast
    have "b \<noteq> 0 \<and> b \<noteq> r \<and> b \<noteq> a \<and> (\<exists>y. ds' b = Some y \<and> vd_parent y = a)" if b: "b \<in> set (vd_children x)" for b
    proof -
      obtain y where y: "b \<noteq> 0" "b \<noteq> r" "b \<noteq> a" "ds b = Some y" "vd_parent y = a"
        using dirs_wf_child [OF wf x'(1), of b] x'(2) b by blast
      then have "b \<noteq> c" using e x'(2) b by (auto split: if_splits)
      then show ?thesis using y ex by blast
    qed
    then show ?thesis using x'(3) by blast
  qed
  moreover have "\<exists>x. ds' r = Some x \<and> vd_parent x = r" using wf ex e(3) unfolding dirs_wf_def by metis
  ultimately show ?thesis using wf unfolding dirs_wf_def by blast
qed

lemma uncache_wf:
  assumes wf: "vfs_wf v" and "uncache v (v_dir_pwd v) dirname = Some v'"
  shows "vfs_wf v'"
proof (cases "v' = v")
  case False
  let ?p = "v_dir_pwd v" and ?r = "v_dir_root v"
  obtain d c where d: "v_dirs v ?p = Some d"
      and c: "child_named (v_dirs v) (vd_children d) (vfs_process_path dirname) = Some (Some c)"
      and f: "vfs_free_directory_llist_node (v\<lparr>v_dirs := (v_dirs v)(?p \<mapsto>
          d\<lparr>vd_children := remove1 c (vd_children d)\<rparr>)\<rparr>) c = Some v'"
    using assms(2) False
    by (auto simp: uncache_def fit_def remove_from_llist split: Option.bind_splits if_splits option.splits)
  have cd: "c \<in> set (vd_children d)" using child_named_Some [OF c] by blast
  have "c \<noteq> ?p" using dirs_wf_child [OF vfs_wf_dirs [OF wf] d cd] by simp
  then have v': "\<exists>ds'. v' = v\<lparr>v_dirs := ds'\<rparr> \<and> (\<forall>x. x \<noteq> ?p \<longrightarrow> x \<noteq> c \<longrightarrow> ds' x = v_dirs v x) \<and>
      ds' ?p = Some (d\<lparr>vd_children := remove1 c (vd_children d)\<rparr>) \<and> (ds' c = v_dirs v c \<or> ds' c = None)"
    using f by (auto simp: vfs_free_directory_llist_node_def split: Option.bind_splits if_splits)
  then obtain ds' where ds': "v' = v\<lparr>v_dirs := ds'\<rparr>" "\<And>x. x \<noteq> ?p \<Longrightarrow> x \<noteq> c \<Longrightarrow> ds' x = v_dirs v x"
      "ds' ?p = Some (d\<lparr>vd_children := remove1 c (vd_children d)\<rparr>)" "ds' c = v_dirs v c \<or> ds' c = None" by blast
  obtain n where n: "rooted (v_dirs v) ?r ?p n (vfs_pwd v)" using wf by (auto simp: vfs_wf_def)
  have "rooted ds' ?r ?p n (vfs_pwd v)"
    using rooted_uncache [OF vfs_wf_dirs [OF wf] n d cd ds'(2,3) n] by simp
  moreover have "dirs_wf ds' ?r" by (rule dirs_wf_uncache [OF vfs_wf_dirs [OF wf] d cd ds'(2,3,4)])
  ultimately show ?thesis using wf ds'(1) by (auto simp: vfs_wf_def)
qed (use wf in simp)

lemma vfs_step_wf: "vfs_step v v' \<Longrightarrow> vfs_wf v \<Longrightarrow> vfs_wf v'"
proof (induction rule: vfs_step.induct)
  case (cd v path new v')
  then show ?case using vfs_cd_wf by blast
next
  case (mkdir v dirname new v')
  then obtain s v2 c where "vfs_cache_path (v\<lparr>v_fs := s\<rparr>) (v_dir_pwd v) (vfs_process_path dirname) new = Some (v', c)"
    by (auto simp: vfs_mkdir_def fit_def split: Option.bind_splits fs_kind.splits if_splits)
      (metis vfs.surjective vfs.update_convs(1))+
  then show ?case using vfs_cache_path_wf [of "v\<lparr>v_fs := s\<rparr>"] mkdir by simp
next
  case (rmdir v dirname v')
  then show ?case
    by (auto simp: vfs_rmdir_def fit_def Let_def split: Option.bind_splits fs_kind.splits if_splits)
      (metis uncache_wf vfs_wf_fs vfs.select_convs(6) vfs.surjective vfs.update_convs(1))+
qed (auto simp: vfs_touch_def vfs_rm_def vfs_append_def vfs_bmp_to_file_def split: Option.bind_splits fs_kind.splits)

section \<open>The path shown is the path of the directory\<close>

lemma vfs_up:
  assumes wf: "vfs_wf v"
  shows "\<exists>v'. vfs_cd v [dot, dot] new = Some v' \<and> (\<exists>q. vfs_pwd v = vfs_pwd v' @ q)"
proof -
  obtain n where r: "rooted (v_dirs v) (v_dir_root v) (v_dir_pwd v) n (vfs_pwd v)" using wf by (auto simp: vfs_wf_def)
  obtain d where d: "v_dirs v (v_dir_pwd v) = Some d" using rooted_some [OF r] by blast
  obtain m p q where p: "rooted (v_dirs v) (v_dir_root v) (vd_parent d) m p" "length p \<le> length (vfs_pwd v)"
      "vfs_pwd v = p @ q" using rooted_parent [OF vfs_wf_dirs [OF wf] r d] by metis
  have "length p < VFS_PATH_LENGTH" using wf p(2) by (simp add: vfs_wf_def)
  from vfs_get_path_rooted [OF vfs_wf_dirs [OF wf] p(1) this] show ?thesis
    using d p(3) by (simp add: vfs_cd_def vfs_update_pwd_def)
qed

lemma vfs_top:
  assumes wf: "vfs_wf v" and d: "v_dirs v (v_dir_root v) = Some d" and "length (vd_name d) < VFS_PATH_LENGTH"
  shows "vfs_cd v [] new = Some (v\<lparr>v_dir_pwd := v_dir_root v, vfs_pwd := vd_name d\<rparr>)"
  using vfs_get_path_rooted [OF vfs_wf_dirs [OF wf] rooted.root [of "v_dirs v", OF d] assms(3)]
  by (simp add: vfs_cd_def vfs_update_pwd_def)

lemma vfs_init_wf:
  assumes "v_dirs v = Map.empty" and "root \<noteq> 0"
  shows "\<exists>v'. vfs_init v root = Some v' \<and> vfs_wf v' \<and> v_dir_root v' = root \<and> v_dir_pwd v' = root \<and>
    v_dirs v' = [root \<mapsto> os_root root] \<and> vfs_pwd v' = [slash]"
proof -
  let ?ds = "[root \<mapsto> os_root root]"
  have wf: "dirs_wf ?ds root" using assms(2) by (auto simp: dirs_wf_def os_root_def)
  have r: "rooted ?ds root root 0 [slash]" using rooted.root [of ?ds root "os_root root"] by (simp add: os_root_def)
  from vfs_get_path_rooted [OF wf r] have "vfs_get_path ?ds root = Some [slash]" by simp
  then show ?thesis using assms wf r by (auto simp: vfs_init_def vfs_update_pwd_def vfs_wf_def)
qed

lemma rooted_same_shape:
  assumes "\<And>x. map_option (\<lambda>d. (vd_name d, vd_parent d, vd_children d)) (ds' x) =
      map_option (\<lambda>d. (vd_name d, vd_parent d, vd_children d)) (ds x)"
  shows "rooted ds r c n path \<Longrightarrow> rooted ds' r c n path"
proof (induction rule: rooted.induct)
  case (root d)
  then show ?case using assms [of r] rooted.root [of ds' r] by (cases "ds' r") auto
next
  case (child p n path dp c d)
  then obtain dp' d' where "ds' p = Some dp'" "vd_children dp' = vd_children dp" "ds' c = Some d'"
      "vd_name d' = vd_name d" "vd_parent d' = p"
    using assms [of p] assms [of c] by (cases "ds' p"; cases "ds' c") auto
  then show ?case using rooted.child [OF child.IH, of dp' c d'] child.hyps by simp
qed

lemma vfs_mount_minix3_wf:
  assumes wf: "vfs_wf v" and "vfs_mount_minix3 v a = Some (v', c)"
  shows "vfs_wf v'"
proof (cases "v' = v")
  case False
  then obtain d d' where d: "v_dirs v a = Some d" and v': "v' = v\<lparr>v_dirs := (v_dirs v)(a \<mapsto> d')\<rparr>"
      and d': "vd_name d' = vd_name d" "vd_parent d' = vd_parent d" "vd_children d' = vd_children d"
    using assms(2) by (auto simp: vfs_mount_minix3_def split: if_splits Option.bind_splits)
  obtain n where r: "rooted (v_dirs v) (v_dir_root v) (v_dir_pwd v) n (vfs_pwd v)" using wf by (auto simp: vfs_wf_def)
  have "rooted ((v_dirs v)(a \<mapsto> d')) (v_dir_root v) (v_dir_pwd v) n (vfs_pwd v)"
    by (rule rooted_same_shape [OF _ r]) (use d d' in auto)
  moreover have "dirs_wf ((v_dirs v)(a \<mapsto> d')) (v_dir_root v)"
    using vfs_wf_dirs [OF wf] d d' unfolding dirs_wf_def by (auto; metis option.inject)
  ultimately show ?thesis using wf v' by (auto simp: vfs_wf_def)
qed (use wf in simp)

text \<open>
  Once the root is set up and mounted, and after any sequence of commands, the path shown is the
  path of the working directory from the root, no list of children has a freed directory on it, and
  \<open>cd ..\<close> returns and shortens the path.
\<close>

theorem vfs_pwd_is_path:
  assumes "v_dirs v0 = Map.empty" and "root \<noteq> 0" and "vfs_init v0 root = Some v1"
    and "vfs_mount_minix3 v1 root = Some (v2, c)" and "vfs_step\<^sup>*\<^sup>* v2 v"
  shows "vfs_get_path (v_dirs v) (v_dir_pwd v) = Some (vfs_pwd v) \<and>
    (\<forall>a d b. v_dirs v a = Some d \<longrightarrow> b \<in> set (vd_children d) \<longrightarrow>
       (\<exists>e. v_dirs v b = Some e \<and> vd_parent e = a)) \<and>
    (\<exists>v'. vfs_cd v [dot, dot] new = Some v' \<and> (\<exists>q. vfs_pwd v = vfs_pwd v' @ q))"
proof -
  have "vfs_wf v1" using vfs_init_wf [OF assms(1,2)] assms(3) by auto
  then have "vfs_wf v2" using vfs_mount_minix3_wf assms(4) by blast
  with assms(5) have wf: "vfs_wf v" by (induction rule: rtranclp_induct) (auto intro: vfs_step_wf)
  then obtain n where "rooted (v_dirs v) (v_dir_root v) (v_dir_pwd v) n (vfs_pwd v)" "length (vfs_pwd v) < VFS_PATH_LENGTH"
    by (auto simp: vfs_wf_def)
  then show ?thesis using vfs_get_path_rooted [OF vfs_wf_dirs [OF wf]] dirs_wf_child [OF vfs_wf_dirs [OF wf]] vfs_up [OF wf]
    by blast
qed

lemma vfs_cd_into_named:
  "v_dirs v (v_dir_pwd v) = Some d \<Longrightarrow> child_named (v_dirs v) (vd_children d) path = Some (Some c) \<Longrightarrow>
   vfs_get_path (v_dirs v) c = Some p \<Longrightarrow>
   vfs_cd_into_cached_path v path = Some (v\<lparr>v_dir_pwd := c, vfs_pwd := p\<rparr>, 1)"
  by (simp add: vfs_cd_into_cached_path_def vfs_is_path_cached_def vfs_update_pwd_def)

lemma child_named_new: "ds new = Some e \<Longrightarrow> vd_name e = path \<Longrightarrow> child_named ds (new # cs) path = Some (Some new)"
  by simp

text \<open>
  Going into a subdirectory that the file system has and the tree does not goes to a directory
  with the inode number found there, with its name added to the path, and \<open>cd ..\<close> returns to where
  it started, with the path it had.
\<close>

theorem vfs_cd_down_up:
  assumes wf: "vfs_wf v" and d: "v_dirs v (v_dir_pwd v) = Some d" "vd_fs_type d = VFS_FS_MINIX3"
    and path: "path \<notin> {[], [dot], [dot, dot]}" "last path \<noteq> slash" "length path + 2 \<le> MX3_NAME_LEN"
      "length (vfs_pwd v) + length path + 2 \<le> VFS_PATH_LENGTH"
    and uncached: "vfs_is_path_cached v (v_dir_pwd v) (path @ [slash]) = Some False"
    and found: "minix3_get_inode_from_name (v_fs v) (minix3_get_inode (v_fs v) (vd_inode_num d)) path = Some (0, Some (n, f))"
    and new: "new \<noteq> 0" "v_dirs v new = None"
  shows "\<exists>v1 v2 e. vfs_cd v path new = Some v1 \<and> v_dirs v1 (v_dir_pwd v1) = Some e \<and> vd_inode_num e = n \<and>
    vfs_pwd v1 = vfs_pwd v @ path @ [slash] \<and> vfs_cd v1 [dot, dot] new' = Some v2 \<and>
    v_dir_pwd v2 = v_dir_pwd v \<and> vfs_pwd v2 = vfs_pwd v"
proof -
  let ?p = "v_dir_pwd v" and ?e = "new_child d (v_dir_pwd v) (path @ [slash]) n f" and ?r = "v_dir_root v"
  let ?ds = "(v_dirs v)(new \<mapsto> ?e, ?p \<mapsto> d\<lparr>vd_children := new # vd_children d\<rparr>)"
  let ?v1 = "v\<lparr>v_dirs := ?ds, v_dir_pwd := new, vfs_pwd := vfs_pwd v @ path @ [slash]\<rparr>"
  have pp: "vfs_process_path path = path @ [slash]" using path(1,2) by (cases path) (auto simp: vfs_process_path_def)
  have mp: "vfs_path_to_minix3_path (path @ [slash]) = path" by (simp add: vfs_path_to_minix3_path_def)
  have ne: "new \<noteq> ?p" using new d by auto
  obtain m where r: "rooted (v_dirs v) ?r ?p m (vfs_pwd v)" using wf by (auto simp: vfs_wf_def)
  have e: "vd_parent ?e = ?p" "vd_children ?e = []" "vd_name ?e = path @ [slash]" by (simp_all add: new_child_def)
  have dirs: "dirs_wf ?ds ?r" by (rule dirs_wf_cache [OF vfs_wf_dirs [OF wf] new(2,1) d(1) e(1,2)])
  have rp: "rooted ?ds ?r ?p m (vfs_pwd v)" by (rule rooted_cache [OF new(2) d(1) r])
  have dsn: "?ds new = Some ?e" using ne by simp
  have rn: "rooted ?ds ?r new (Suc m) (vfs_pwd v @ path @ [slash])"
    using rooted_child [OF dirs rp, of "d\<lparr>vd_children := new # vd_children d\<rparr>" new ?e] dsn e(3) by simp
  have gp: "vfs_get_path ?ds new = Some (vfs_pwd v @ path @ [slash])"
    by (rule vfs_get_path_rooted [OF dirs rn]) (use path(4) in simp)
  have up: "vfs_get_path ?ds ?p = Some (vfs_pwd v)"
    by (rule vfs_get_path_rooted [OF dirs rp]) (use path(4) in simp)
  have cache: "vfs_cache_path v ?p (path @ [slash]) new = Some (v\<lparr>v_dirs := ?ds\<rparr>, 0)"
    using d found path(3) mp by (simp add: vfs_cache_path_def fit_def)
  have named: "child_named ?ds (new # vd_children d) (path @ [slash]) = Some (Some new)"
    using child_named_new [of ?ds new, OF dsn e(3)] .
  have "vfs_cd v path new = map_option fst (vfs_cd_into_cached_path (v\<lparr>v_dirs := ?ds\<rparr>) (path @ [slash]))"
    using path uncached cache by (simp add: vfs_cd_def pp fit_def)
  also have "\<dots> = Some ?v1"
    using vfs_cd_into_named [of "v\<lparr>v_dirs := ?ds\<rparr>" "d\<lparr>vd_children := new # vd_children d\<rparr>" "path @ [slash]" new] named gp
    by (simp del: child_named.simps)
  finally have 1: "vfs_cd v path new = Some ?v1" .
  have "vfs_cd ?v1 [dot, dot] new' = Some (?v1\<lparr>v_dir_pwd := ?p, vfs_pwd := vfs_pwd v\<rparr>)"
    using dsn e(1) up by (simp add: vfs_cd_def vfs_update_pwd_def del: fun_upd_apply)
  then show ?thesis using 1 dsn by (intro exI [of _ ?v1] exI [of _ "?v1\<lparr>v_dir_pwd := ?p, vfs_pwd := vfs_pwd v\<rparr>"] exI [of _ ?e]) (simp add: new_child_def)
qed

text \<open>A disk whose root directory, inode 1, has one entry in zone 7: \<open>d\<close>, the directory of inode 2.\<close>

definition demo_tree_fs :: mx3 where
  "demo_tree_fs = demo_fs\<lparr>mx_disk := demo_disk(4097 := 0x40, 4104 := 64, 4120 := 7, 4161 := 0x40,
     7168 := 2, 7172 := 0x64)\<rparr>"

definition demo_vfs :: vfs where
  "demo_vfs = \<lparr>v_fs = demo_tree_fs, mx3_fs_exists = True, mx3_block_dev = 0, v_dirs = Map.empty,
     v_dir_root = 0, v_dir_pwd = 0, vfs_pwd = []\<rparr>"

definition demo_mounted :: vfs where
  "demo_mounted = demo_vfs\<lparr>v_dirs := [100 \<mapsto> (os_root 100)\<lparr>vd_which_dev := 0, vd_fs_type := VFS_FS_MINIX3,
     vd_inode_num := 1, vd_inode := Some (vnode_of (minix3_get_inode demo_tree_fs 1))\<rparr>],
     v_dir_root := 100, v_dir_pwd := 100, vfs_pwd := [slash]\<rparr>"

definition demo_init :: vfs where
  "demo_init = demo_vfs\<lparr>v_dirs := [100 \<mapsto> os_root 100], v_dir_root := 100, v_dir_pwd := 100, vfs_pwd := [slash]\<rparr>"

lemma demo_init_eq: "vfs_init demo_vfs 100 = Some demo_init"
  by (simp add: vfs_init_def vfs_update_pwd_def vfs_get_path_def get_path_from.simps demo_vfs_def demo_init_def os_root_def)

lemma demo_mount_eq: "vfs_mount_minix3 demo_init 100 = Some (demo_mounted, 0)"
  by (simp add: vfs_mount_minix3_def demo_init_def demo_vfs_def demo_mounted_def)

lemma demo_mounted_wf: "vfs_wf demo_mounted"
  using vfs_init_wf [of demo_vfs 100] demo_init_eq demo_mount_eq vfs_mount_minix3_wf by (auto simp: demo_vfs_def)

lemma demo_tree_super: "imap_blocks (super demo_tree_fs) = 1" "zone_blocks (super demo_tree_fs) = 1"
  "mx3_block_size demo_tree_fs = 1024"
  by (simp_all add: super_def parse_superblock_def demo_tree_fs_def demo_fs_def demo_disk_def rd16_def rd32_def push_bit_eq_mult)

lemma zero_zones: "replicate 10 (0 :: u32) = [0, 0, 0, 0, 0, 0, 0, 0, 0, 0]"
  by (simp add: numeral_eq_Suc)

lemma demo_tree_inodes:
  "minix3_get_inode demo_tree_fs 1 = zero_inode\<lparr>i_mode := 0x4000, i_size := 64, i_zones := [7, 0, 0, 0, 0, 0, 0, 0, 0, 0]\<rparr>"
  "minix3_get_inode demo_tree_fs 2 = zero_inode\<lparr>i_mode := 0x4000\<rparr>"
  by (simp_all add: minix3_get_inode_def inode_offset_def demo_tree_super parse_inode_def zero_inode_def zero_zones upt_rec)
    (simp_all add: demo_tree_fs_def demo_fs_def demo_disk_def rd16_def rd32_def push_bit_eq_mult)

text \<open>The lookup in a root directory with one entry, which has the inode 2.\<close>

lemma one_entry_lookup:
  assumes bs: "mx3_block_size s = 1024"
    and dir: "minix3_get_inode s 1 = zero_inode\<lparr>i_mode := 0x4000, i_size := 64, i_zones := [7, 0, 0, 0, 0, 0, 0, 0, 0, 0]\<rparr>"
    and entry: "entry_inode (read_block s 7168) 0 = 2" "entry_name (read_block s 7168) 0 = name"
  shows "minix3_get_inode_from_name s (minix3_get_inode s 1) name =
    Some (if \<not> is_directory (minix3_get_inode s 2) then MX3_RETURN_CODE_NOT_DIRECTORY else 0, Some (2, minix3_get_inode s 2))"
proof -
  let ?dir = "minix3_get_inode s 1"
  have max: "1 < unat (minix3_get_file_max_zones (mx3_block_size s))" by (simp add: bs minix3_get_file_max_zones_def)
  have g: "minix3_gzbars s ?dir (of_nat i) =
      Some (zone_addr64 s (file_zone s ?dir i), after_zones s (map (file_zone s ?dir) [0..<i]) 64)" if "i < 2" for i
  proof -
    have "unat (of_nat i :: u32) = i" using that by (simp add: unat_of_nat)
    then show ?thesis using zone_walker_get [of s ?dir "of_nat i"] that
      by (auto simp: minix3_gzbars_def has_path_def dir zero_inode_def)
  qed
  have "[0..<dirs_per_block s] = 0 # [1..<16]" by (simp add: dirs_per_block_def bs upt_rec)
  then have "find_entry s (read_block s 7168) name = Some 2" by (simp add: find_entry_def entry)
  moreover have "file_zone s ?dir 0 = 7" "file_zone s ?dir 1 = 0" by (simp_all add: file_zone_def dir)
  ultimately have "name_from s ?dir name 0 None = Some (Some (2, minix3_get_inode s 2))"
    using max g [of 0] g [of 1] by (simp add: name_from.simps zone_addr64_def bs less_block_def)
  moreover have "is_directory ?dir" by (simp add: is_directory_def dir)
  ultimately show ?thesis by (simp add: minix3_get_inode_from_name_def)
qed

lemma demo_tree_lookup:
  "minix3_get_inode_from_name demo_tree_fs (minix3_get_inode demo_tree_fs 1) [0x64] =
   Some (0, Some (2, minix3_get_inode demo_tree_fs 2))"
proof -
  have "entry_inode (read_block demo_tree_fs 7168) 0 = 2"
    by (simp add: entry_inode_def read_block_def demo_tree_super)
      (simp add: demo_tree_fs_def demo_fs_def demo_disk_def rd32_def)
  moreover have "entry_name (read_block demo_tree_fs 7168) 0 = [0x64]"
    by (simp add: entry_name_def read_block_def demo_tree_super disk_read_def drop_map)
      (simp add: demo_tree_fs_def demo_fs_def demo_disk_def upt_rec [of 4] upt_rec [of 5])
  moreover have "is_directory (minix3_get_inode demo_tree_fs 2)" by (simp add: is_directory_def demo_tree_inodes)
  ultimately show ?thesis using one_entry_lookup [OF demo_tree_super(3) demo_tree_inodes(1)] by simp
qed

theorem vfs_pwd_is_path_witness:
  "vfs_get_path (v_dirs demo_mounted) 100 = Some [slash] \<and> (\<exists>v'. vfs_cd demo_mounted [dot, dot] 200 = Some v')"
  using vfs_pwd_is_path [of demo_vfs 100 demo_init demo_mounted 0 demo_mounted 200] demo_init_eq demo_mount_eq
  by (auto simp: demo_vfs_def) (auto simp: demo_mounted_def)

theorem vfs_cd_down_up_witness:
  "\<exists>v1 v2. vfs_cd demo_mounted [0x64] 200 = Some v1 \<and> vfs_pwd v1 = [slash, 0x64, slash] \<and>
     vfs_cd v1 [dot, dot] 300 = Some v2 \<and> vfs_pwd v2 = [slash]"
proof -
  have m: "v_dirs demo_mounted 100 = Some ((os_root 100)\<lparr>vd_which_dev := 0, vd_fs_type := VFS_FS_MINIX3,
      vd_inode_num := 1, vd_inode := Some (vnode_of (minix3_get_inode demo_tree_fs 1))\<rparr>)"
    "v_dirs demo_mounted 200 = None" "v_dir_pwd demo_mounted = 100" "vfs_pwd demo_mounted = [slash]"
    "v_fs demo_mounted = demo_tree_fs" by (simp_all add: demo_mounted_def demo_vfs_def)
  then have "vfs_is_path_cached demo_mounted 100 [0x64, slash] = Some False"
    by (simp add: vfs_is_path_cached_def os_root_def)
  then show ?thesis
    using vfs_cd_down_up [OF demo_mounted_wf, of _ "[0x64]" 2 "minix3_get_inode demo_tree_fs 2" 200 300] m demo_tree_lookup
    by fastforce
qed

end
