(* ===== verification/Minix3_Append.thy ===== *)
theory Minix3_Append
  imports Minix3_Files
begin

text \<open>
  Appending to a file and reading it back, for files that stay in their direct zones: the layout of
  the disk, taking a zone, the invariant \<open>file_in\<close> of a file, and the round trip. What an operation
  leaves alone is the relation \<open>grown\<close>: the bytes of all zones in use, the inodes and the superblock.
\<close>

section \<open>Layout of the disk\<close>

abbreviation bsz :: "mx3 \<Rightarrow> nat" where
  "bsz s \<equiv> unat (mx3_block_size s)"

definition inodes_begin :: "mx3 \<Rightarrow> nat" where
  "inodes_begin s = zmap_begin s + unat (zone_blocks (super s)) * bsz s"

definition data_begin :: "mx3 \<Rightarrow> nat" where
  "data_begin s = unat (first_data_zone (super s)) * bsz s"

definition layout_ok :: "mx3 \<Rightarrow> bool" where
  "layout_ok s \<longleftrightarrow> 64 \<le> bsz s \<and> 2 \<le> unat (first_data_zone (super s)) \<and>
     zmap_begin s + unat (num_zones (super s)) div 8 < inodes_begin s \<and> inodes_begin s \<le> data_begin s \<and>
     (unat (first_data_zone (super s)) + unat (num_zones (super s))) * bsz s < 2 ^ 32"

definition in_table :: "mx3 \<Rightarrow> u32 \<Rightarrow> bool" where
  "in_table s n \<longleftrightarrow> inode_offset s n + SIZEOF_INODE \<le> data_begin s"

definition data_zone :: "mx3 \<Rightarrow> u32 \<Rightarrow> bool" where
  "data_zone s z \<longleftrightarrow> minix3_is_zone_in_range s z \<and> minix3_is_zone_occupied s z"

definition search_start :: "mx3 \<Rightarrow> u32" where
  "search_start s = (if test_available_zone_num s = 0 then ucast (first_data_zone (super s)) else test_available_zone_num s)"

definition free_ahead :: "mx3 \<Rightarrow> u32 set" where
  "free_ahead s = {z. search_start s \<le> z \<and> free_zone s z}"

lemma inode_offset_begin: "inode_offset s n = inodes_begin s + unat (n - 1) * SIZEOF_INODE"
  by (simp add: inode_offset_def inodes_begin_def zmap_begin_def)

lemma in_range_zone:
  assumes "layout_ok s" "minix3_is_zone_in_range s z"
  shows "unat (first_data_zone (super s)) \<le> unat z" "unat (bitmap_zone s z) < unat (num_zones (super s))"
    and "zone_addr32 s z = zone_addr64 s z" "data_begin s \<le> zone_addr64 s z" "z \<noteq> 0" "zone_addr64 s z \<noteq> 0"
proof -
  let ?f = "ucast (first_data_zone (super s)) :: u32"
  have f: "?f \<le> z" "bitmap_zone s z < num_zones (super s)"
    using assms(2) by (auto simp: minix3_is_zone_in_range_def Let_def not_less not_le split: if_splits)
  then have uz: "unat z = unat (first_data_zone (super s)) + unat (bitmap_zone s z)"
    by (simp add: bitmap_zone_def unat_sub word_le_nat_alt unat_bs)
  show 1: "unat (first_data_zone (super s)) \<le> unat z" using f(1) by (simp add: word_le_nat_alt unat_bs)
  show 2: "unat (bitmap_zone s z) < unat (num_zones (super s))" using f(2) by (simp add: word_less_nat_alt)
  show "data_begin s \<le> zone_addr64 s z" using 1 by (simp add: data_begin_def zone_addr64_def mult.commute)
  show "z \<noteq> 0" using 1 assms(1) by (auto simp: layout_ok_def)
  then show "zone_addr64 s z \<noteq> 0" using assms(1) by (auto simp: layout_ok_def zone_addr64_def unat_eq_0)
  have "unat z * bsz s \<le> (unat (first_data_zone (super s)) + unat (num_zones (super s))) * bsz s"
    using uz 2 by (intro mult_le_mono1) simp
  also have "\<dots> < 2 ^ 32" using assms(1) by (simp add: layout_ok_def)
  finally have "bsz s * unat z < 2 ^ 32" by (simp only: mult.commute)
  then show "zone_addr32 s z = zone_addr64 s z"
    by (simp add: zone_addr32_def zone_addr64_def unat_word_ariths unat_bs)
qed

text \<open>A write behind the inode table leaves the status of all zones alone.\<close>

lemma write_data:
  assumes "layout_ok s" "data_begin s \<le> a" and s'_def: "s' = s\<lparr>mx_disk := disk_write (mx_disk s) a bs\<rparr>"
  shows "super s' = super s" "mx3_block_size s' = mx3_block_size s" "zmap_begin s' = zmap_begin s"
    and "minix3_is_zone_in_range s' z = minix3_is_zone_in_range s z"
    and "minix3_is_zone_in_range s z \<Longrightarrow> minix3_is_zone_occupied s' z = minix3_is_zone_occupied s z"
proof -
  have b: "MX3_BOOT_BLOCK_SIZE + 31 \<le> a"
    using assms(1,2) by (simp add: layout_ok_def inodes_begin_def zmap_begin_def)
  show su: "super s' = super s" and "mx3_block_size s' = mx3_block_size s" and zm: "zmap_begin s' = zmap_begin s"
    using b by (simp_all add: s'_def)
  then show r: "minix3_is_zone_in_range s' z = minix3_is_zone_in_range s z"
    by (simp add: minix3_is_zone_in_range_def bitmap_zone_def)
  assume z: "minix3_is_zone_in_range s z"
  have "unat (bitmap_zone s z div 8) \<le> unat (num_zones (super s)) div 8"
    using in_range_zone(2) [OF assms(1) z] by (simp add: unat_div div_le_mono)
  then have "zmap_begin s + unat (bitmap_zone s z div 8) < a"
    using assms(1,2) by (simp add: layout_ok_def)
  then show "minix3_is_zone_occupied s' z = minix3_is_zone_occupied s z"
    using su zm by (simp add: minix3_is_zone_occupied_def bitmap_zone_def Let_def map_bit_iff)
      (simp add: s'_def disk_write_def)
qed

lemma layout_ok_cong:
  "super s' = super s \<Longrightarrow> mx3_block_size s' = mx3_block_size s \<Longrightarrow> layout_ok s' = layout_ok s"
  by (simp add: layout_ok_def inodes_begin_def data_begin_def zmap_begin_def)

text \<open>Zones do not overlap.\<close>

lemma zone_apart:
  assumes "j < bsz s" "j' < bsz s" "zone_addr64 s z + j = zone_addr64 s z' + j'"
  shows "z = z' \<and> j = j'"
proof -
  have "(bsz s * unat z + j) div bsz s = (bsz s * unat z' + j') div bsz s"
    using assms(3) by (simp add: zone_addr64_def)
  then have "unat z = unat z'" using assms(1,2) by simp
  then show ?thesis using assms(3) by (simp add: zone_addr64_def word_unat_eq_iff)
qed

section \<open>Taking a zone\<close>

definition grown :: "mx3 \<Rightarrow> mx3 \<Rightarrow> bool" where
  "grown s s' \<longleftrightarrow> mx3_block_size s' = mx3_block_size s \<and> super s' = super s \<and>
     (\<forall>a. (a < zmap_begin s \<or> inodes_begin s \<le> a) \<and> a < data_begin s \<longrightarrow> mx_disk s' a = mx_disk s a) \<and>
     (\<forall>z. data_zone s z \<longrightarrow> data_zone s' z \<and> (\<forall>k < bsz s. mx_disk s' (zone_addr64 s z + k) = mx_disk s (zone_addr64 s z + k)))"

lemma grown_same:
  assumes "grown s s'"
  shows "mx3_block_size s' = mx3_block_size s" "super s' = super s" "zone_addr64 s' = zone_addr64 s" "ppz s' = ppz s"
    "inodes_begin s' = inodes_begin s" "data_begin s' = data_begin s" "layout_ok s' = layout_ok s"
    "inode_offset s' = inode_offset s" "zmap_begin s' = zmap_begin s"
  using assms
  by (simp_all add: grown_def layout_ok_def inodes_begin_def data_begin_def zmap_begin_def zone_addr64_def ppz_def
      inode_offset_def fun_eq_iff)

lemma grown_trans: "grown s s1 \<Longrightarrow> grown s1 s2 \<Longrightarrow> grown s s2"
proof -
  assume a: "grown s s1" and b: "grown s1 s2"
  note a' = a [unfolded grown_def] and b' = b [unfolded grown_def grown_same [OF a]]
  have "data_zone s2 z \<and> (\<forall>k < bsz s. mx_disk s2 (zone_addr64 s z + k) = mx_disk s (zone_addr64 s z + k))"
    if "data_zone s z" for z
    using a' b' that by metis
  then show "grown s s2" using a' b' by (simp add: grown_def)
qed

lemma grown_refl [simp]: "grown s s"
  by (simp add: grown_def)

lemma set_data_zone:
  assumes ok: "layout_ok s" and z: "minix3_is_zone_in_range s z" and s': "s' = fst (minix3_set_zone_occupied s z)"
  shows "super s' = super s" "mx3_block_size s' = mx3_block_size s"
    and "minix3_is_zone_occupied s' y = (y = z \<or> minix3_is_zone_occupied s y)"
    and "a < zmap_begin s \<or> inodes_begin s \<le> a \<Longrightarrow> mx_disk s' a = mx_disk s a" "search_start s' = search_start s"
proof -
  have b: "31 \<le> bsz s" using ok by (simp add: layout_ok_def)
  have e: "minix3_set_zone_as s z True = (s', snd (minix3_set_zone_as s z True))"
    using s' by (simp add: minix3_set_zone_occupied_def)
  note c = minix3_set_zone_as_correct [OF b z e]
  show su: "super s' = super s" using c by blast
  show "minix3_is_zone_occupied s' y = (y = z \<or> minix3_is_zone_occupied s y)" using c by auto
  have d: "s' = s\<lparr>mx_disk := mx_disk s'\<rparr>" using s'
    by (simp add: minix3_set_zone_occupied_def minix3_set_zone_as_def Let_def)
  show "mx3_block_size s' = mx3_block_size s" by (subst d) simp
  have "test_available_zone_num s' = test_available_zone_num s" by (subst d) simp
  then show "search_start s' = search_start s" using su by (simp add: search_start_def)
  assume "a < zmap_begin s \<or> inodes_begin s \<le> a"
  moreover have "unat (bitmap_zone s z div 8) \<le> unat (num_zones (super s)) div 8"
    using in_range_zone(2) [OF ok z] by (simp add: unat_div div_le_mono)
  then have "zmap_begin s + unat (bitmap_zone s z div 8) < inodes_begin s" using ok by (simp add: layout_ok_def)
  ultimately show "mx_disk s' a = mx_disk s a" using c by (metis leD not_add_less1)
qed

lemma take_zone:
  assumes ok: "layout_ok s" and st: "ucast (first_data_zone (super s)) \<le> search_start s" and ne: "free_ahead s \<noteq> {}"
  obtains s1 s2 z where "minix3_get_available_zone s = Some (s1, z)" "s2 = fst (minix3_set_zone_occupied s1 z)"
    "grown s s2" "data_zone s2 z" "z \<in> free_ahead s" "free_ahead s2 = free_ahead s - {z}"
    "ucast (first_data_zone (super s2)) \<le> search_start s2" "\<forall>x < bsz s. mx_disk s2 (zone_addr64 s z + x) = 0"
proof -
  define z where "z = Min (free_ahead s)"
  have z: "z \<in> free_ahead s" using ne by (simp add: z_def)
  have first: "\<not> free_zone s y" if "search_start s \<le> y" "y < z" for y
  proof
    assume "free_zone s y"
    then have "z \<le> y" using that(1) unfolding z_def by (intro Min_le) (simp_all add: free_ahead_def)
    then show False using that(2) by simp
  qed
  have fz: "search_start s \<le> z" "minix3_is_zone_in_range s z" "\<not> minix3_is_zone_occupied s z"
    using z by (simp_all add: free_ahead_def free_zone_def)
  define s0 where "s0 = s\<lparr>test_available_zone_num := z\<rparr>"
  define s1 where "s1 = minix3_set_zone_to_zero s0 z"
  define s2 where "s2 = fst (minix3_set_zone_occupied s1 z)"
  have same0: "super s0 = super s" "mx3_block_size s0 = mx3_block_size s" "mx_disk s0 = mx_disk s"
    "zone_addr32 s0 z = zone_addr32 s z" by (simp_all add: s0_def zone_addr32_def)
  then have st0: "minix3_is_zone_in_range s0 y = minix3_is_zone_in_range s y"
      "minix3_is_zone_occupied s0 y = minix3_is_zone_occupied s y" for y
    by (simp_all add: minix3_is_zone_in_range_def minix3_is_zone_occupied_def bitmap_zone_def zmap_begin_def)
  have ok0: "layout_ok s0" and d0: "data_begin s0 = data_begin s" "inodes_begin s0 = inodes_begin s"
    using ok same0 layout_ok_cong [of s0 s] by (simp_all add: data_begin_def inodes_begin_def zmap_begin_def)
  have a: "zone_addr32 s z = zone_addr64 s z" "data_begin s \<le> zone_addr64 s z"
    using in_range_zone [OF ok fz(2)] by simp_all
  have s1: "s1 = s0\<lparr>mx_disk := disk_write (mx_disk s0) (zone_addr64 s z) (replicate (bsz s) 0)\<rparr>"
    using same0 a(1) by (simp add: s1_def minix3_set_zone_to_zero_def)
  have w: "super s1 = super s" "mx3_block_size s1 = mx3_block_size s"
      "minix3_is_zone_in_range s1 y = minix3_is_zone_in_range s y"
      "minix3_is_zone_in_range s y \<Longrightarrow> minix3_is_zone_occupied s1 y = minix3_is_zone_occupied s y" for y
    using write_data [OF ok0 a(2) [folded d0(1)] s1] same0 st0 by simp_all
  have ok1: "layout_ok s1" and i1: "inodes_begin s1 = inodes_begin s" and zm1: "zmap_begin s1 = zmap_begin s"
    using w ok layout_ok_cong [of s1 s] write_data(3) [OF ok0 a(2) [folded d0(1)] s1] same0
    by (simp_all add: inodes_begin_def zmap_begin_def)
  have r1: "minix3_is_zone_in_range s1 z" using w fz by simp
  note o = set_data_zone [OF ok1 r1 s2_def]
  have su: "super s2 = super s" "mx3_block_size s2 = mx3_block_size s" using o w by simp_all
  have r2: "minix3_is_zone_in_range s2 y = minix3_is_zone_in_range s y" for y
    using su by (simp add: minix3_is_zone_in_range_def bitmap_zone_def)
  have oc: "minix3_is_zone_occupied s2 y = (y = z \<or> minix3_is_zone_occupied s y)" if "minix3_is_zone_in_range s y" for y
    using o(3) w(4) [OF that] by simp
  have disk: "mx_disk s2 x = mx_disk s x" if "x < zmap_begin s \<or> inodes_begin s \<le> x" "\<not> (zone_addr64 s z \<le> x \<and> x < zone_addr64 s z + bsz s)" for x
    using o(4) [of x] that i1 zm1 by (simp add: s1 same0 disk_write_def)
  have ss: "search_start s2 = z"
    using o(5) in_range_zone(5) [OF ok fz(2)] by (simp add: s1 s0_def search_start_def)
  have "grown s s2"
    unfolding grown_def
  proof (intro conjI allI impI)
    fix x assume "(x < zmap_begin s \<or> inodes_begin s \<le> x) \<and> x < data_begin s"
    then show "mx_disk s2 x = mx_disk s x" using a(2) by (intro disk) auto
  next
    fix y k assume y: "data_zone s y" and k: "k < bsz s"
    have "y \<noteq> z" using y fz(3) by (auto simp: data_zone_def)
    then have "\<not> (zone_addr64 s z \<le> zone_addr64 s y + k \<and> zone_addr64 s y + k < zone_addr64 s z + bsz s)"
      using zone_apart [OF k, of "zone_addr64 s y + k - zone_addr64 s z" y z] by auto
    moreover have "zone_addr64 s y + k < zmap_begin s \<or> inodes_begin s \<le> zone_addr64 s y + k"
      using in_range_zone(4) [OF ok] y ok by (force simp: data_zone_def layout_ok_def)
    ultimately show "mx_disk s2 (zone_addr64 s y + k) = mx_disk s (zone_addr64 s y + k)" by (intro disk)
  qed (use su r2 oc in \<open>auto simp: data_zone_def\<close>)
  moreover have "data_zone s2 z" using r2 oc fz by (simp add: data_zone_def)
  moreover have "free_ahead s2 = free_ahead s - {z}"
    using r2 oc first fz(1) by (auto simp: free_ahead_def free_zone_def ss not_less) (meson not_less free_zone_def)
  moreover have "ucast (first_data_zone (super s2)) \<le> search_start s2"
    using st fz(1) su ss by simp
  moreover have "minix3_get_available_zone s = Some (s1, z)"
    using available_zone_first [OF st fz(1)] first fz
    by (simp add: minix3_get_available_zone_def free_zone_def s1_def s0_def flip: search_start_def)
  moreover have "mx_disk s2 (zone_addr64 s z + x) = 0" if "x < bsz s" for x
  proof -
    have "inodes_begin s1 \<le> zone_addr64 s z + x" using a(2) ok i1 by (simp add: layout_ok_def)
    then show ?thesis using o(4) that by (simp add: s1 disk_write_def)
  qed
  ultimately show thesis using that z s2_def by blast
qed

section \<open>Files in their direct zones\<close>

definition zones_in :: "mx3 \<Rightarrow> mx3_inode \<Rightarrow> nat \<Rightarrow> bool" where
  "zones_in s f k \<longleftrightarrow> k \<le> 7 \<and> length (i_zones f) = 10 \<and> (\<forall>n < k. data_zone s (i_zones f ! n)) \<and>
     distinct (take k (i_zones f)) \<and> unat (i_size f) \<le> k * bsz s"

text \<open>The file has exactly the zones that its size needs.\<close>

definition file_in :: "mx3 \<Rightarrow> mx3_inode \<Rightarrow> nat \<Rightarrow> bool" where
  "file_in s f k \<longleftrightarrow> zones_in s f k \<and> k * bsz s < unat (i_size f) + bsz s"

definition contents :: "mx3 \<Rightarrow> mx3_inode \<Rightarrow> u8 list" where
  "contents s f = map (file_byte s f) [0..<unat (i_size f)]"

text \<open>The bytes behind the end of the file in its last zone are zero.\<close>

definition tail_zero :: "mx3 \<Rightarrow> mx3_inode \<Rightarrow> nat \<Rightarrow> bool" where
  "tail_zero s f k \<longleftrightarrow>
     (\<forall>i. unat (i_size f) \<le> i \<and> i < k * bsz s \<longrightarrow>
        mx_disk s (zone_addr64 s (i_zones f ! (i div bsz s)) + i mod bsz s) = 0)"

lemma zones_in_byte:
  assumes "layout_ok s" "zones_in s f k" "i < unat (i_size f)"
  shows "i div bsz s < k" "i mod bsz s < bsz s"
    and "file_byte s f i = mx_disk s (zone_addr64 s (i_zones f ! (i div bsz s)) + i mod bsz s)"
proof -
  have b: "0 < bsz s" using assms(1) by (simp add: layout_ok_def)
  show d: "i div bsz s < k" using assms(2,3) b by (simp add: zones_in_def div_less_iff_less_mult)
  show "i mod bsz s < bsz s" using b by simp
  show "file_byte s f i = mx_disk s (zone_addr64 s (i_zones f ! (i div bsz s)) + i mod bsz s)"
    using d assms(2) by (simp add: file_byte_def zones_in_def file_zone_parts(1) Let_def)
qed

lemma zones_in_no_holes:
  assumes "layout_ok s" "zones_in s f k"
  shows "no_holes s f"
  unfolding no_holes_def
proof (intro allI impI)
  fix n assume "n * bsz s < unat (i_size f)"
  also have "\<dots> \<le> k * bsz s" using assms(2) by (simp add: zones_in_def)
  finally have "n * bsz s < k * bsz s" .
  then have n: "n < k" by simp
  then have "i_zones f ! n \<noteq> 0" using assms in_range_zone(5) by (auto simp: zones_in_def data_zone_def)
  then show "has_path s f n \<and> file_zone s f n \<noteq> 0"
    using n assms(2) by (simp add: has_path_def zones_in_def file_zone_parts(1))
qed

lemma zones_in_size: "layout_ok s \<Longrightarrow> zones_in s f k \<Longrightarrow> unat (i_size f) + bsz s < 2 ^ 32"
proof -
  assume z: "zones_in s f k"
  then have "unat (i_size f) \<le> 7 * bsz s" by (auto simp: zones_in_def intro: le_trans)
  moreover have "bsz s < 2 ^ 16" using unsigned_less [of "mx3_block_size s"] by simp
  ultimately show ?thesis by simp
qed

lemma zones_in_grown:
  assumes ok: "layout_ok s" and z: "zones_in s f k" and g: "grown s s'"
  shows "zones_in s' f k" "contents s' f = contents s f" "file_in s f k \<Longrightarrow> file_in s' f k"
proof -
  show z': "zones_in s' f k" using z g grown_same(1) [OF g] by (simp add: zones_in_def grown_def)
  then show "file_in s f k \<Longrightarrow> file_in s' f k" using grown_same(1) [OF g] by (simp add: file_in_def)
  have "file_byte s' f i = file_byte s f i" if i: "i < unat (i_size f)" for i
  proof -
    have "layout_ok s'" using ok g by (simp add: grown_same)
    then show ?thesis
      using zones_in_byte [OF ok z i] zones_in_byte(3) [OF _ z' i] z g grown_same(1,3) [OF g]
      by (simp add: zones_in_def grown_def)
  qed
  then show "contents s' f = contents s f" by (simp add: contents_def)
qed

lemma last_file_zone_in:
  assumes ok: "layout_ok s" and f: "file_in s f k" and k: "0 < k"
  shows "minix3_get_last_file_zone s f = Some (of_nat (k - 1))" "i_size f \<noteq> 0"
    and "\<exists>rem. minix3_gzbars s f (of_nat (k - 1)) = Some (zone_addr64 s (i_zones f ! (k - 1)), rem) \<and>
      unat rem = unat (i_size f) - (k - 1) * bsz s"
proof -
  have z: "zones_in s f k" and lt: "k * bsz s < unat (i_size f) + bsz s" using f by (simp_all add: file_in_def)
  have b: "64 \<le> bsz s" using ok by (simp add: layout_ok_def)
  obtain q where q: "k = Suc q" using k by (cases k) auto
  have k7: "k \<le> 7" and le: "unat (i_size f) \<le> k * bsz s" using z by (simp_all add: zones_in_def)
  have gt: "q * bsz s < unat (i_size f)" using lt by (simp add: q)
  then show nz: "i_size f \<noteq> 0" by auto
  obtain rem where r: "minix3_gzbars s f (of_nat q) = Some (zone_addr64 s (file_zone s f q), rem)"
      "unat rem = unat (i_size f) - q * bsz s"
    using gzbars_no_holes [OF zones_in_no_holes [OF ok z] gt] k7 q by auto
  then show "\<exists>rem. minix3_gzbars s f (of_nat (k - 1)) = Some (zone_addr64 s (i_zones f ! (k - 1)), rem) \<and>
      unat rem = unat (i_size f) - (k - 1) * bsz s"
    using k7 by (simp add: q file_zone_parts(1))
  have "(unat (i_size f) - 1) div bsz s = q"
    using gt le b by (intro div_nat_eqI) (simp_all add: q mult.commute)
  then have d: "(i_size f - 1) div ucast (mx3_block_size s) = of_nat q"
    using nz k7 q by (intro word_unat_eq_iff [THEN iffD2]) (simp add: unat_div unat_bs unat_minus_one unat_of_nat)
  have "\<not> rem > ucast (mx3_block_size s)" using r(2) le by (simp add: word_less_nat_alt unat_bs q)
  then have "last_zone_from s f (of_nat q) = Some (of_nat q)" using r(1) by (simp add: last_zone_from.simps)
  then show "minix3_get_last_file_zone s f = Some (of_nat (k - 1))"
    using nz d by (simp add: minix3_get_last_file_zone_def q)
qed

lemma set_zone_to_direct:
  assumes "length (i_zones f) = 10" "n < 7"
  shows "minix3_set_zone_to s f (of_nat n) z = Some (s, f\<lparr>i_zones := (i_zones f)[n := z]\<rparr>, z)"
proof -
  have "unat (of_nat n :: u32) = n" using assms(2) by (simp add: unat_of_nat)
  then show ?thesis
    using scan_ptrs_spec [of 0 "take 7 (i_zones f)" "of_nat n" s "i_size f" 0] assms
    by (simp add: minix3_set_zone_to_def minix3_zone_walker_def)
qed

section \<open>Writing at the end of a file\<close>

lemma write_zone:
  assumes ok: "layout_ok s" and z: "data_zone s z" and w: "off + length ws \<le> bsz s"
    and s': "s' = s\<lparr>mx_disk := disk_write (mx_disk s) (zone_addr64 s z + off) ws\<rparr>"
  shows "super s' = super s" "mx3_block_size s' = mx3_block_size s" "data_zone s' y = data_zone s y"
    and "a < data_begin s \<Longrightarrow> mx_disk s' a = mx_disk s a"
    and "j < bsz s \<Longrightarrow> mx_disk s' (zone_addr64 s y + j) =
      (if y = z \<and> off \<le> j \<and> j < off + length ws then ws ! (j - off) else mx_disk s (zone_addr64 s y + j))"
    and "free_ahead s' = free_ahead s" "search_start s' = search_start s"
proof -
  have a: "data_begin s \<le> zone_addr64 s z + off"
    using in_range_zone(4) [OF ok] z by (simp add: data_zone_def trans_le_add1)
  note wd = write_data [OF ok a s']
  show "super s' = super s" "mx3_block_size s' = mx3_block_size s" by (rule wd)+
  show "data_zone s' y = data_zone s y" using wd(4,5) by (auto simp: data_zone_def)
  show ss: "search_start s' = search_start s" using wd(1) by (simp add: search_start_def s')
  show "free_ahead s' = free_ahead s" using wd(4,5) by (auto simp: free_ahead_def free_zone_def ss)
  show "mx_disk s' a = mx_disk s a" if "a < data_begin s" using that a by (simp add: s' disk_write_def)
  assume j: "j < bsz s"
  show "mx_disk s' (zone_addr64 s y + j) =
      (if y = z \<and> off \<le> j \<and> j < off + length ws then ws ! (j - off) else mx_disk s (zone_addr64 s y + j))"
  proof (cases "zone_addr64 s z + off \<le> zone_addr64 s y + j \<and> zone_addr64 s y + j < zone_addr64 s z + off + length ws")
    case True
    then obtain j' where "zone_addr64 s y + j = zone_addr64 s z + j'" "j' < bsz s" "off \<le> j'"
      using w by (intro that [of "zone_addr64 s y + j - zone_addr64 s z"]) auto
    then show ?thesis using zone_apart [OF j] True by (auto simp: s' disk_write_def)
  next
    case False
    then show ?thesis by (auto simp: s' disk_write_def)
  qed
qed

lemma extend_file:
  assumes ok: "layout_ok s" and f: "zones_in s f (Suc q)" and q: "q * bsz s \<le> unat (i_size f)"
    and w: "unat (i_size f) + length ws \<le> Suc q * bsz s"
    and s': "s' = s\<lparr>mx_disk := disk_write (mx_disk s) (zone_addr64 s (i_zones f ! q) + (unat (i_size f) - q * bsz s)) ws\<rparr>"
    and f': "f' = f\<lparr>i_size := i_size f + of_nat (length ws)\<rparr>"
  shows "zones_in s' f' (Suc q)" "contents s' f' = contents s f @ ws" "unat (i_size f') = unat (i_size f) + length ws"
proof -
  let ?off = "unat (i_size f) - q * bsz s"
  have z: "data_zone s (i_zones f ! q)" and q7: "q < 7" using f by (simp_all add: zones_in_def)
  have "?off + length ws \<le> bsz s" using w q by simp
  note W = write_zone [OF ok z this s']
  note w
  also have "Suc q * bsz s \<le> 7 * bsz s" using q7 by (intro mult_le_mono1) simp
  also have "bsz s < 2 ^ 16" using unsigned_less [of "mx3_block_size s"] by simp
  finally have "unat (i_size f) + length ws < 2 ^ 32" by simp
  then show sz: "unat (i_size f') = unat (i_size f) + length ws" by (simp add: f' unat_word_ariths unat_of_nat)
  show f1: "zones_in s' f' (Suc q)"
    using f w W(2,3) sz by (simp add: zones_in_def f' del: mult_Suc)
  have ok': "layout_ok s'" using ok layout_ok_cong [OF W(1,2)] by simp
  have ad: "zone_addr64 s' = zone_addr64 s" using W(2) by (simp add: zone_addr64_def fun_eq_iff)
  have b: "0 < bsz s" using ok by (simp add: layout_ok_def)
  have byte: "file_byte s' f' i = (if i < unat (i_size f) then file_byte s f i else ws ! (i - unat (i_size f)))"
    if i: "i < unat (i_size f) + length ws" for i
  proof -
    have n: "i div bsz s < Suc q" "i mod bsz s < bsz s"
      and e: "file_byte s' f' i = mx_disk s' (zone_addr64 s (i_zones f ! (i div bsz s)) + i mod bsz s)"
      using zones_in_byte [OF ok' f1, of i] i sz W(2) ad by (simp_all add: f')
    have same: "i_zones f ! (i div bsz s) = i_zones f ! q \<longleftrightarrow> i div bsz s = q"
      using f n(1) q7 nth_eq_iff_index_eq [of "take (Suc q) (i_zones f)" "i div bsz s" q] by (simp add: zones_in_def)
    have split: "i = (i div bsz s) * bsz s + i mod bsz s" by simp
    show ?thesis
    proof (cases "i div bsz s = q")
      case True
      then have m: "i mod bsz s = i - q * bsz s" "q * bsz s \<le> i" using split by (auto simp: algebra_simps)
      have "?off \<le> i mod bsz s \<longleftrightarrow> unat (i_size f) \<le> i" "i mod bsz s < ?off + length ws"
        "i mod bsz s - ?off = i - unat (i_size f)" using m q i by auto
      then show ?thesis
        using e W(5) [OF n(2), of "i_zones f ! q"] zones_in_byte(3) [OF ok f, of i] True by auto
    next
      case False
      then have "Suc (i div bsz s) \<le> q" using n(1) by simp
      then have "Suc (i div bsz s) * bsz s \<le> q * bsz s" by (rule mult_le_mono1)
      then have "i < unat (i_size f)" using q dividend_less_div_times [OF b, of i] by simp
      then show ?thesis using e W(5) [OF n(2)] same False zones_in_byte(3) [OF ok f] by simp
    qed
  qed
  show "contents s' f' = contents s f @ ws"
    unfolding contents_def sz by (rule nth_equalityI) (simp_all add: byte nth_append)
qed

section \<open>Adding zones\<close>

lemma append_zone_in:
  assumes ok: "layout_ok s" and st: "ucast (first_data_zone (super s)) \<le> search_start s" and ne: "free_ahead s \<noteq> {}"
    and f: "file_in s f k" and k: "k < 7" and sz: "unat (i_size f) = k * bsz s"
  obtains s1 z where "minix3_append_zone s f = Some (s1, f\<lparr>i_zones := (i_zones f)[k := z]\<rparr>, zone_addr64 s1 z)"
    "grown s s1" "zones_in s1 (f\<lparr>i_zones := (i_zones f)[k := z]\<rparr>) (Suc k)"
    "contents s1 (f\<lparr>i_zones := (i_zones f)[k := z]\<rparr>) = contents s f" "free_ahead s1 = free_ahead s - {z}" "z \<in> free_ahead s"
    "ucast (first_data_zone (super s1)) \<le> search_start s1" "data_zone s1 z" "\<not> data_zone s z"
    "\<forall>x < bsz s. mx_disk s1 (zone_addr64 s z + x) = 0"
proof -
  obtain s0 s1 z where t: "minix3_get_available_zone s = Some (s0, z)" "s1 = fst (minix3_set_zone_occupied s0 z)"
    "grown s s1" "data_zone s1 z" "z \<in> free_ahead s" "free_ahead s1 = free_ahead s - {z}"
    "ucast (first_data_zone (super s1)) \<le> search_start s1" "\<forall>x < bsz s. mx_disk s1 (zone_addr64 s z + x) = 0"
    by (rule take_zone [OF ok st ne]) (rule that, assumption+)
  have nd: "\<not> data_zone s z" using t(5) by (simp add: free_ahead_def free_zone_def data_zone_def)
  have zi: "zones_in s f k" using f by (simp add: file_in_def)
  let ?f = "f\<lparr>i_zones := (i_zones f)[k := z]\<rparr>"
  have ok1: "layout_ok s1" using ok t(3) by (simp add: grown_same)
  have nz: "(if i_size f = 0 then Some 0 else do { z \<leftarrow> minix3_get_last_file_zone s f; Some (z + 1) }) = Some (of_nat k)"
  proof (cases "k = 0")
    case True
    then show ?thesis using sz by (simp add: unat_eq_0)
  next
    case False
    then show ?thesis using last_file_zone_in [OF ok f] k by simp
  qed
  have "minix3_append_zone s f = Some (s1, ?f, zone_addr32 s1 z)"
    unfolding minix3_append_zone_def nz
    using t(1,2) set_zone_to_direct [of f k s1 z] zi k by (simp add: zones_in_def)
  moreover have "zone_addr32 s1 z = zone_addr64 s1 z" using in_range_zone(3) [OF ok1] t(4) by (simp add: data_zone_def)
  note a1 = calculation this
  have z1: "zones_in s1 f k" by (rule zones_in_grown(1) [OF ok zi t(3)])
  have nk: "i_zones f ! n \<noteq> z" if "n < k" for n using zi nd that by (auto simp: zones_in_def)
  have "take (Suc k) (i_zones ?f) = take k (i_zones f) @ [z]"
    using zi k by (simp add: zones_in_def take_Suc_conv_app_nth)
  moreover have "z \<notin> set (take k (i_zones f))" using nk zi by (auto simp: in_set_conv_nth zones_in_def)
  ultimately have d: "distinct (take (Suc k) (i_zones ?f))" using zi by (simp add: zones_in_def)
  have "data_zone s1 (i_zones ?f ! n)" if "n < Suc k" for n
    using that z1 k t(4) by (cases "n = k") (simp_all add: zones_in_def)
  moreover have "unat (i_size f) \<le> Suc k * bsz s1" using sz grown_same(1) [OF t(3)] by simp
  ultimately have zf: "zones_in s1 ?f (Suc k)" using d zi k unfolding zones_in_def by simp
  have "file_byte s1 ?f i = file_byte s1 f i" if "i < unat (i_size f)" for i
    using zones_in_byte [OF ok1 z1 that] zones_in_byte(3) [OF ok1 zf] that by simp
  then have "contents s1 ?f = contents s1 f" by (simp add: contents_def)
  then have "contents s1 ?f = contents s f" using zones_in_grown(2) [OF ok zi t(3)] by simp
  then show thesis using that [of s1 z] t nd a1 zf by simp
qed

lemma grown_write:
  assumes ok: "layout_ok s1" and g: "grown s s1" and z: "data_zone s1 z" "\<not> data_zone s z" and w: "length ws \<le> bsz s1"
    and s2: "s2 = s1\<lparr>mx_disk := disk_write (mx_disk s1) (zone_addr64 s1 z) ws\<rparr>"
  shows "grown s s2"
proof -
  note W = write_zone [OF ok z(1), of 0 ws s2, unfolded add_0 add_0_right, OF w s2]
  show ?thesis
    using g W(1-5) z(2) grown_same [OF g] unfolding grown_def by (metis add.right_neutral)
qed

text \<open>Zones that a file gets were not in use.\<close>

definition new_zones :: "mx3 \<Rightarrow> mx3_inode \<Rightarrow> mx3_inode \<Rightarrow> bool" where
  "new_zones s f f' \<longleftrightarrow> (\<forall>n. i_zones f' ! n = i_zones f ! n \<or> \<not> data_zone s (i_zones f' ! n))"

lemma new_zones_trans: "new_zones s f f1 \<Longrightarrow> new_zones s1 f1 f2 \<Longrightarrow> grown s s1 \<Longrightarrow> new_zones s f f2"
  unfolding new_zones_def grown_def by metis

text \<open>One round of the loop.\<close>

lemma append_round:
  assumes ok: "layout_ok s" and st: "ucast (first_data_zone (super s)) \<le> search_start s" and ne: "free_ahead s \<noteq> {}"
    and f: "file_in s f k" and k: "k < 7" and sz: "unat (i_size f) = k * bsz s" and b: "buffer \<noteq> []"
  obtains s2 f2 z where "append_from s f buffer = append_from s2 f2 (drop (bsz s) buffer)"
    "grown s s2" "file_in s2 f2 (Suc k)" "contents s2 f2 = contents s f @ take (bsz s) buffer"
    "unat (i_size f2) = unat (i_size f) + min (bsz s) (length buffer)" "i_mode f2 = i_mode f"
    "free_ahead s2 = free_ahead s - {z}" "z \<in> free_ahead s" "ucast (first_data_zone (super s2)) \<le> search_start s2"
    "tail_zero s2 f2 (Suc k)" "new_zones s f f2"
proof -
  obtain s1 z where a: "minix3_append_zone s f = Some (s1, f\<lparr>i_zones := (i_zones f)[k := z]\<rparr>, zone_addr64 s1 z)"
    "grown s s1" "zones_in s1 (f\<lparr>i_zones := (i_zones f)[k := z]\<rparr>) (Suc k)"
    "contents s1 (f\<lparr>i_zones := (i_zones f)[k := z]\<rparr>) = contents s f" "free_ahead s1 = free_ahead s - {z}" "z \<in> free_ahead s"
    "ucast (first_data_zone (super s1)) \<le> search_start s1" "data_zone s1 z" "\<not> data_zone s z"
    "\<forall>x < bsz s. mx_disk s1 (zone_addr64 s z + x) = 0"
    by (rule append_zone_in [OF ok st ne f k sz]) (rule that, assumption+)
  define f1 where "f1 = f\<lparr>i_zones := (i_zones f)[k := z]\<rparr>"
  define ws where "ws = take (bsz s) buffer"
  define s2 where "s2 = s1\<lparr>mx_disk := disk_write (mx_disk s1) (zone_addr64 s1 z) ws\<rparr>"
  define f2 where "f2 = f1\<lparr>i_size := i_size f1 + of_nat (length ws)\<rparr>"
  note a' = a [folded f1_def]
  have bs: "bsz s1 = bsz s" using grown_same(1) [OF a(2)] by simp
  have ok1: "layout_ok s1" using ok a(2) by (simp add: grown_same)
  have l: "length ws = min (bsz s) (length buffer)" by (simp add: ws_def min.commute)
  have "length (i_zones f) = 10" using f by (simp add: file_in_def zones_in_def)
  then have zk: "i_zones f1 ! k = z" and sz1: "i_size f1 = i_size f" using k by (simp_all add: f1_def)
  have c: "k * bsz s1 \<le> unat (i_size f1)" "unat (i_size f1) + length ws \<le> Suc k * bsz s1"
    using sz sz1 bs l by simp_all
  have "s2 = s1\<lparr>mx_disk := disk_write (mx_disk s1) (zone_addr64 s1 (i_zones f1 ! k) + (unat (i_size f1) - k * bsz s1)) ws\<rparr>"
    using sz sz1 bs zk by (simp add: s2_def)
  note E = extend_file [OF ok1 a'(3) c this f2_def]
  have "append_from s f buffer = append_from s2 f2 (drop (min (bsz s) (length buffer)) buffer)"
    using a'(1) b bs by (subst append_from.simps)
      (simp add: s2_def f2_def Let_def l ws_def min_def)
  also have "drop (min (bsz s) (length buffer)) buffer = drop (bsz s) buffer" by (simp add: min_def)
  finally have ap: "append_from s f buffer = append_from s2 f2 (drop (bsz s) buffer)" .
  have lw: "length ws \<le> bsz s1" using l bs by simp
  have g: "grown s s2" by (rule grown_write [OF ok1 a'(2,8,9) lw s2_def])
  note W = write_zone [OF ok1 a'(8), of 0 ws s2, unfolded add_0 add_0_right, OF lw s2_def]
  have "0 < length ws" using b ok l by (simp add: layout_ok_def)
  then have fi: "file_in s2 f2 (Suc k)" using E(1,3) sz sz1 W(2) bs by (simp add: file_in_def)
  have ct: "contents s2 f2 = contents s f @ take (bsz s) buffer" using E(2) a'(4) by (simp add: ws_def)
  have sf: "unat (i_size f2) = unat (i_size f) + min (bsz s) (length buffer)" using E(3) sz1 l by simp
  have tz: "tail_zero s2 f2 (Suc k)"
    unfolding tail_zero_def
  proof (intro allI impI)
    fix i assume i: "unat (i_size f2) \<le> i \<and> i < Suc k * bsz s2"
    have b2: "bsz s2 = bsz s" "zone_addr64 s2 = zone_addr64 s" using grown_same [OF g] by simp_all
    have ge: "k * bsz s + length ws \<le> i" and lt: "i < k * bsz s + bsz s" using i sf sz l b2 by simp_all
    then have "i div bsz s = k" by (intro div_nat_eqI) (simp_all add: mult.commute)
    then have d: "i div bsz s = k" "i mod bsz s = i - k * bsz s"
      using minus_div_mult_eq_mod [of i "bsz s"] by simp_all
    have "i mod bsz s < bsz s" "\<not> i mod bsz s < length ws" using d(2) ge lt by linarith+
    then have "mx_disk s2 (zone_addr64 s z + i mod bsz s) = mx_disk s1 (zone_addr64 s z + i mod bsz s)"
      using W(5) [of "i mod bsz s" z] bs grown_same(3) [OF a(2)] by simp
    then show "mx_disk s2 (zone_addr64 s2 (i_zones f2 ! (i div bsz s2)) + i mod bsz s2) = 0"
      using a(10) d(1) \<open>i mod bsz s < bsz s\<close> b2 zk by (simp add: f2_def)
  qed
  have nz: "new_zones s f f2"
    unfolding new_zones_def
  proof
    fix n
    have "i_zones f2 = (i_zones f)[k := z]" by (simp add: f2_def f1_def)
    moreover have "i_zones f2 ! k = z" using zk by (simp add: f2_def)
    ultimately show "i_zones f2 ! n = i_zones f ! n \<or> \<not> data_zone s (i_zones f2 ! n)"
      using a(9) by (cases "n = k") simp_all
  qed
  show thesis
    by (rule that [OF ap g fi ct sf _ _ a'(6) _ tz nz]) (use W a' in \<open>simp_all add: f2_def f1_def\<close>)
qed

lemma append_from_in:
  assumes "layout_ok s" "ucast (first_data_zone (super s)) \<le> search_start s" "file_in s f k"
    and "buffer = [] \<or> unat (i_size f) = k * bsz s" "unat (i_size f) + length buffer \<le> 7 * bsz s"
    and "(length buffer + bsz s - 1) div bsz s \<le> card (free_ahead s)"
  shows "\<exists>s' f' k'. append_from s f buffer = Some (s', f') \<and> grown s s' \<and> file_in s' f' k' \<and>
    contents s' f' = contents s f @ buffer \<and> unat (i_size f') = unat (i_size f) + length buffer \<and>
    new_zones s f f' \<and> i_mode f' = i_mode f \<and> (tail_zero s f k \<or> buffer \<noteq> [] \<longrightarrow> tail_zero s' f' k') \<and>
    card (free_ahead s) \<le> card (free_ahead s') + (length buffer + bsz s - 1) div bsz s \<and>
    ucast (first_data_zone (super s')) \<le> search_start s'"
  using assms
proof (induction "length buffer" arbitrary: s f k buffer rule: less_induct)
  case less
  note ok = less.prems(1) and st = less.prems(2) and fi = less.prems(3)
  show ?case
  proof (cases "buffer = []")
    case True
    then show ?thesis using fi st by (subst append_from.simps) (auto intro: exI [of _ k] simp: new_zones_def)
  next
    case False
    have b: "0 < bsz s" using ok by (simp add: layout_ok_def)
    have sz: "unat (i_size f) = k * bsz s" using less.prems(4) False by simp
    have "0 < length buffer" using False by simp
    then have "k * bsz s < 7 * bsz s" using less.prems(5) sz by linarith
    then have k: "k < 7" by simp
    have "bsz s \<le> length buffer + bsz s - 1" using False by (cases buffer) auto
    then have "1 \<le> (length buffer + bsz s - 1) div bsz s" using b by (simp add: div_greater_zero_iff Suc_le_eq)
    then have ne: "free_ahead s \<noteq> {}" using less.prems(6) by auto
    obtain s2 f2 z where r: "append_from s f buffer = append_from s2 f2 (drop (bsz s) buffer)"
      "grown s s2" "file_in s2 f2 (Suc k)" "contents s2 f2 = contents s f @ take (bsz s) buffer"
      "unat (i_size f2) = unat (i_size f) + min (bsz s) (length buffer)" "i_mode f2 = i_mode f"
      "free_ahead s2 = free_ahead s - {z}" "z \<in> free_ahead s" "ucast (first_data_zone (super s2)) \<le> search_start s2"
      "tail_zero s2 f2 (Suc k)" "new_zones s f f2"
      by (rule append_round [OF ok st ne fi k sz False]) (rule that, assumption+)
    have bs: "bsz s2 = bsz s" using grown_same(1) [OF r(2)] by simp
    have "0 < card (free_ahead s)" using ne by (simp add: card_gt_0_iff)
    moreover have "card (free_ahead s2) = card (free_ahead s) - 1" using r(7,8) by simp
    moreover have "(length (drop (bsz s) buffer) + bsz s2 - 1) div bsz s2 = (length buffer + bsz s - 1) div bsz s - 1"
    proof (cases "length buffer \<le> bsz s")
      case True
      then have "(length buffer + bsz s - 1) div bsz s < 2" using b by (simp add: div_less_iff_less_mult)
      then show ?thesis using b bs True by simp
    next
      case F: False
      have "(length buffer + bsz s - 1) div bsz s = (length buffer - 1 + bsz s) div bsz s" using False by (cases buffer) auto
      also have "\<dots> = (length buffer - 1) div bsz s + 1" by (rule div_add_self2) (use b in linarith)
      finally show ?thesis using F bs by simp
    qed
    ultimately have cd: "card (free_ahead s) = card (free_ahead s2) + 1"
      "(length buffer + bsz s - 1) div bsz s = (length (drop (bsz s) buffer) + bsz s2 - 1) div bsz s2 + 1"
      using \<open>1 \<le> (length buffer + bsz s - 1) div bsz s\<close> by simp_all
    have "\<exists>s' f' k'. append_from s2 f2 (drop (bsz s) buffer) = Some (s', f') \<and> grown s2 s' \<and> file_in s' f' k' \<and>
      contents s' f' = contents s2 f2 @ drop (bsz s) buffer \<and>
      unat (i_size f') = unat (i_size f2) + length (drop (bsz s) buffer) \<and> new_zones s2 f2 f' \<and> i_mode f' = i_mode f2 \<and>
      (tail_zero s2 f2 (Suc k) \<or> drop (bsz s) buffer \<noteq> [] \<longrightarrow> tail_zero s' f' k') \<and>
      card (free_ahead s2) \<le> card (free_ahead s') + (length (drop (bsz s) buffer) + bsz s2 - 1) div bsz s2 \<and>
      ucast (first_data_zone (super s')) \<le> search_start s'"
    proof (rule less.hyps [OF _ _ r(9,3)])
      show "length (drop (bsz s) buffer) < length buffer" using b False by simp
      show "layout_ok s2" using ok r(2) by (simp add: grown_same)
      show "drop (bsz s) buffer = [] \<or> unat (i_size f2) = Suc k * bsz s2" using r(5) sz bs by (auto simp: min_def)
      show "unat (i_size f2) + length (drop (bsz s) buffer) \<le> 7 * bsz s2" using r(5) less.prems(5) bs by auto
      show "(length (drop (bsz s) buffer) + bsz s2 - 1) div bsz s2 \<le> card (free_ahead s2)"
        using less.prems(6) cd by linarith
    qed
    then obtain s' f' k' where q: "append_from s2 f2 (drop (bsz s) buffer) = Some (s', f')" "grown s2 s'" "file_in s' f' k'"
      "new_zones s2 f2 f'"
      "tail_zero s' f' k'" "card (free_ahead s2) \<le> card (free_ahead s') + (length (drop (bsz s) buffer) + bsz s2 - 1) div bsz s2"
      "contents s' f' = contents s2 f2 @ drop (bsz s) buffer"
      "unat (i_size f') = unat (i_size f2) + length (drop (bsz s) buffer)" "i_mode f' = i_mode f2"
      "ucast (first_data_zone (super s')) \<le> search_start s'" using r(10) by blast
    have "card (free_ahead s) \<le> card (free_ahead s') + (length buffer + bsz s - 1) div bsz s" using q(6) cd by linarith
    then show ?thesis
      using r(1,4,5,6) q(1-3,5,7-) new_zones_trans [OF r(11) q(4) r(2)] grown_trans [OF r(2)]
      by (intro exI [of _ s'] exI [of _ f'] exI [of _ k']) (simp add: min_def)
  qed
qed

section \<open>Appending and reading\<close>

definition file_zones :: "mx3 \<Rightarrow> nat \<Rightarrow> nat" where
  "file_zones s size_of_file = (size_of_file + bsz s - 1) div bsz s"

definition small_file :: "mx3 \<Rightarrow> mx3_inode \<Rightarrow> bool" where
  "small_file s f \<longleftrightarrow> file_in s f (file_zones s (unat (i_size f))) \<and> (i_size f = 0 \<longrightarrow> i_zones f ! 0 = 0)"

lemma file_zones_eq: "k * bsz s < n + bsz s \<Longrightarrow> n \<le> k * bsz s \<Longrightarrow> file_zones s n = k"
  unfolding file_zones_def by (rule div_nat_eqI) (auto simp: mult.commute)

lemma file_in_zones: "file_in s f k \<Longrightarrow> k = file_zones s (unat (i_size f))"
  by (rule file_zones_eq [symmetric]) (auto simp: file_in_def zones_in_def)

lemma file_zones_add: "0 < bsz s \<Longrightarrow> file_zones s (k * bsz s + n) = k + (n + bsz s - 1) div bsz s"
proof -
  assume b: "0 < bsz s"
  have "k * bsz s + n + bsz s - 1 = (n + bsz s - 1) + k * bsz s" using b by simp
  then show ?thesis using b by (simp only: file_zones_def div_mult_self1)
qed

text \<open>What the first part of the call does: it fills up the last zone.\<close>

lemma append_fill:
  assumes ok: "layout_ok s" and f: "small_file s f"
  obtains i a rem s1 f1 w where "minix3_get_last_file_zone s f = Some i" "minix3_gzbars s f i = Some (a, rem)"
    "(s1, f1, drop w buffer) =
      (if a \<noteq> 0 then
         (s\<lparr>mx_disk := disk_write (mx_disk s) (a + unat rem) (take w buffer)\<rparr>, f\<lparr>i_size := i_size f + of_nat w\<rparr>, drop w buffer)
       else (s, f, buffer))"
    "a \<noteq> 0 \<Longrightarrow> w = min (unat (ucast (mx3_block_size s) - rem)) (length buffer)"
    "file_in s1 f1 (file_zones s (unat (i_size f)))" "contents s1 f1 = contents s f @ take w buffer"
    "unat (i_size f1) = unat (i_size f) + w" "w \<le> length buffer"
    "w = length buffer \<or> unat (i_size f1) = file_zones s (unat (i_size f)) * bsz s"
    "super s1 = super s" "mx3_block_size s1 = mx3_block_size s" "free_ahead s1 = free_ahead s" "search_start s1 = search_start s"
    "\<And>x. x < data_begin s \<Longrightarrow> mx_disk s1 x = mx_disk s x" "\<And>y. data_zone s1 y = data_zone s y"
    "\<And>y j. y \<notin> set (i_zones f) \<Longrightarrow> j < bsz s \<Longrightarrow> mx_disk s1 (zone_addr64 s y + j) = mx_disk s (zone_addr64 s y + j)" "i_size f = 0 \<Longrightarrow> f1 = f"
    "i_mode f1 = i_mode f" "i_zones f1 = i_zones f"
    "tail_zero s f (file_zones s (unat (i_size f))) \<longrightarrow> tail_zero s1 f1 (file_zones s (unat (i_size f)))"
proof (cases "i_size f = 0")
  case True
  have "has_path s f (unat (0 :: u32))" using f by (simp add: small_file_def file_in_def zones_in_def has_path_def)
  from zone_walker_get [OF this] have "minix3_gzbars s f 0 = Some (0, i_size f)"
    using f True by (simp add: minix3_gzbars_def file_zone_parts(1) zone_addr64_def small_file_def)
  moreover have "file_zones s 0 = 0" using ok by (auto simp: file_zones_def layout_ok_def)
  ultimately show thesis
    using that [of 0 0 "i_size f" s f 0] f True by (simp add: small_file_def minix3_get_last_file_zone_def)
next
  case False
  let ?k = "file_zones s (unat (i_size f))"
  have fi: "file_in s f ?k" and b: "64 \<le> bsz s" using f ok by (simp_all add: small_file_def layout_ok_def)
  have "?k \<noteq> 0"
  proof
    assume "?k = 0"
    then have "unat (i_size f) = 0" using fi by (simp add: file_in_def zones_in_def)
    then show False using False by (simp add: unat_eq_0)
  qed
  then obtain q where q: "?k = Suc q" using not0_implies_Suc by blast
  note l = last_file_zone_in [OF ok fi]
  obtain rem where g: "minix3_gzbars s f (of_nat q) = Some (zone_addr64 s (i_zones f ! q), rem)"
      "unat rem = unat (i_size f) - q * bsz s" using l(3) q by auto
  have zi: "zones_in s f (Suc q)" "Suc q * bsz s < unat (i_size f) + bsz s" using fi by (simp_all add: file_in_def q)
  have le: "q * bsz s \<le> unat (i_size f)" "unat (i_size f) \<le> Suc q * bsz s" using zi by (simp_all add: zones_in_def)
  have dz: "data_zone s (i_zones f ! q)" "i_zones f ! q \<in> set (i_zones f)" using zi(1) by (auto simp: zones_in_def)
  define w where "w = min (unat (ucast (mx3_block_size s) - rem)) (length buffer)"
  have "rem \<le> ucast (mx3_block_size s)" using g(2) le by (simp add: word_le_nat_alt unat_bs)
  then have ur: "unat (ucast (mx3_block_size s) - rem) = Suc q * bsz s - unat (i_size f)"
    using g(2) le by (simp add: unat_sub unat_bs)
  define s1 where "s1 = s\<lparr>mx_disk := disk_write (mx_disk s) (zone_addr64 s (i_zones f ! q) + unat rem) (take w buffer)\<rparr>"
  define f1 where "f1 = f\<lparr>i_size := i_size f + of_nat w\<rparr>"
  have wl: "length (take w buffer) = w" "w \<le> length buffer" by (simp_all add: w_def)
  have c: "unat (i_size f) + length (take w buffer) \<le> Suc q * bsz s" unfolding wl(1) w_def ur using le by simp
  have f1: "f1 = f\<lparr>i_size := i_size f + of_nat (length (take w buffer))\<rparr>" by (simp only: f1_def wl)
  note E = extend_file [OF ok zi(1) le(1) c s1_def [unfolded g(2)] f1, unfolded wl(1)]
  have "unat rem + length (take w buffer) \<le> bsz s" using c g(2) le(1) by simp
  note W = write_zone [OF ok dz(1) this s1_def]
  have a: "zone_addr64 s (i_zones f ! q) \<noteq> 0" using in_range_zone(6) [OF ok] dz(1) by (simp add: data_zone_def)
  have fi1: "file_in s1 f1 ?k" using E(1,3) zi(2) W(2) by (simp add: file_in_def q)
  have fu: "w = length buffer \<or> unat (i_size f1) = ?k * bsz s" unfolding E(3) q w_def ur using le by (auto simp: min_def)
  show thesis
  proof (rule that [OF _ g(1) _ _ fi1 E(2) E(3) wl(2) fu W(1) W(2) W(6) W(7) W(4) W(3)])
    show "minix3_get_last_file_zone s f = Some (of_nat q)" using l(1) q by simp
    show "(s1, f1, drop w buffer) =
      (if zone_addr64 s (i_zones f ! q) \<noteq> 0 then
         (s\<lparr>mx_disk := disk_write (mx_disk s) (zone_addr64 s (i_zones f ! q) + unat rem) (take w buffer)\<rparr>,
          f\<lparr>i_size := i_size f + of_nat w\<rparr>, drop w buffer)
       else (s, f, buffer))" using a by (simp add: s1_def f1_def)
    show "w = min (unat (ucast (mx3_block_size s) - rem)) (length buffer)" by (rule w_def)
    show "mx_disk s1 (zone_addr64 s y + j) = mx_disk s (zone_addr64 s y + j)" if "y \<notin> set (i_zones f)" "j < bsz s" for y j
      using W(5) [OF that(2), of y] that(1) dz(2) by auto
    show "f1 = f" if "i_size f = 0" using that False by simp
    show "i_mode f1 = i_mode f" "i_zones f1 = i_zones f" by (simp_all add: f1_def)
    show "tail_zero s f ?k \<longrightarrow> tail_zero s1 f1 ?k"
    proof
      assume t: "tail_zero s f ?k"
      show "tail_zero s1 f1 ?k"
        unfolding tail_zero_def
      proof (intro allI impI)
        fix i assume i: "unat (i_size f1) \<le> i \<and> i < ?k * bsz s1"
        have b2: "bsz s1 = bsz s" "zone_addr64 s1 = zone_addr64 s" using W(2) by (simp_all add: zone_addr64_def fun_eq_iff)
        have ge: "unat (i_size f) + w \<le> i" and lt: "i < Suc q * bsz s" using i E(3) b2 by (simp_all add: q)
        then have "i div bsz s = q" using le by (intro div_nat_eqI) (simp_all add: mult.commute)
        then have d: "i div bsz s = q" "i mod bsz s = i - q * bsz s"
          using minus_div_mult_eq_mod [of i "bsz s"] by simp_all
        have "i mod bsz s < bsz s" "\<not> i mod bsz s < unat rem + length (take w buffer)"
          unfolding wl(1) using d(2) ge lt g(2) le(1) by simp_all
        then have "mx_disk s1 (zone_addr64 s (i_zones f ! q) + i mod bsz s) = mx_disk s (zone_addr64 s (i_zones f ! q) + i mod bsz s)"
          using W(5) [of "i mod bsz s" "i_zones f ! q"] by simp
        also have "\<dots> = 0" using t [unfolded tail_zero_def, rule_format, of i] ge lt d by (simp add: q)
        finally show "mx_disk s1 (zone_addr64 s1 (i_zones f1 ! (i div bsz s1)) + i mod bsz s1) = 0"
          using d b2 by (simp add: f1_def)
      qed
    qed
  qed
qed

lemma put_inode_in:
  assumes ok: "layout_ok s" and t: "in_table s n" and l: "length (i_zones f) = 10" and s': "s' = minix3_put_inode s n f"
  shows "super s' = super s" "mx3_block_size s' = mx3_block_size s" "data_zone s' y = data_zone s y"
    and "a < inodes_begin s \<or> data_begin s \<le> a \<Longrightarrow> mx_disk s' a = mx_disk s a"
    and "minix3_get_inode s' n = f" "j \<noteq> n \<Longrightarrow> minix3_get_inode s' j = minix3_get_inode s j"
proof -
  have b: "31 \<le> bsz s" using ok by (simp add: layout_ok_def)
  note p = minix3_inode_roundtrip [OF b l, of n]
  show su: "super s' = super s" and "minix3_get_inode s' n = f" "j \<noteq> n \<Longrightarrow> minix3_get_inode s' j = minix3_get_inode s j"
    using p by (auto simp: s')
  show "mx3_block_size s' = mx3_block_size s" by (simp add: s' minix3_put_inode_def)
  have d: "mx_disk s' a = mx_disk s a" if "a < inodes_begin s \<or> data_begin s \<le> a" for a
    using that t inode_offset_begin [of s n] inode_bytes_length [OF l]
    by (auto simp: s' minix3_put_inode_def in_table_def disk_write_def)
  then show "a < inodes_begin s \<or> data_begin s \<le> a \<Longrightarrow> mx_disk s' a = mx_disk s a" .
  have r: "minix3_is_zone_in_range s' y = minix3_is_zone_in_range s y"
    using su by (simp add: minix3_is_zone_in_range_def bitmap_zone_def)
  have zm: "zmap_begin s' = zmap_begin s" using su by (simp add: zmap_begin_def) (simp add: s' minix3_put_inode_def)
  have "minix3_is_zone_occupied s' y = minix3_is_zone_occupied s y" if z: "minix3_is_zone_in_range s y"
  proof -
    have "unat (bitmap_zone s y div 8) \<le> unat (num_zones (super s)) div 8"
      using in_range_zone(2) [OF ok z] by (simp add: unat_div div_le_mono)
    then have "zmap_begin s + unat (bitmap_zone s y div 8) < inodes_begin s" using ok by (simp add: layout_ok_def)
    then show ?thesis using su zm d by (simp add: minix3_is_zone_occupied_def bitmap_zone_def Let_def map_bit_iff)
  qed
  then show "data_zone s' y = data_zone s y" using r by (auto simp: data_zone_def)
qed

lemma zones_in_cong:
  assumes ok: "layout_ok s" and z: "zones_in s f k" and same: "super s' = super s" "mx3_block_size s' = mx3_block_size s"
    and dz: "\<And>y. data_zone s' y = data_zone s y" and d: "\<And>a. data_begin s \<le> a \<Longrightarrow> mx_disk s' a = mx_disk s a"
  shows "zones_in s' f k" "contents s' f = contents s f"
proof -
  show z': "zones_in s' f k" using z same dz by (simp add: zones_in_def)
  have ok': "layout_ok s'" using ok layout_ok_cong [OF same] by simp
  have "file_byte s' f i = file_byte s f i" if i: "i < unat (i_size f)" for i
  proof -
    let ?z = "i_zones f ! (i div bsz s)"
    have "data_zone s ?z" using zones_in_byte(1) [OF ok z i] z by (simp add: zones_in_def)
    then have "data_begin s \<le> zone_addr64 s ?z + i mod bsz s"
      using in_range_zone(4) [OF ok] by (simp add: data_zone_def trans_le_add1)
    then show ?thesis
      using zones_in_byte(3) [OF ok z i] zones_in_byte(3) [OF ok' z' i] same(2) d by (simp add: zone_addr64_def)
  qed
  then show "contents s' f = contents s f" by (simp add: contents_def)
qed

lemma tail_zero_cong:
  assumes ok: "layout_ok s" and z: "zones_in s f k" and same: "mx3_block_size s' = mx3_block_size s"
    and d: "\<And>a. data_begin s \<le> a \<Longrightarrow> mx_disk s' a = mx_disk s a"
  shows "tail_zero s' f k = tail_zero s f k"
proof -
  have "mx_disk s' (zone_addr64 s (i_zones f ! (i div bsz s)) + i mod bsz s) =
      mx_disk s (zone_addr64 s (i_zones f ! (i div bsz s)) + i mod bsz s)" if "i < k * bsz s" for i
  proof -
    have "i div bsz s < k" using that ok by (simp add: div_less_iff_less_mult layout_ok_def)
    then have "data_zone s (i_zones f ! (i div bsz s))" using z by (simp add: zones_in_def)
    then show ?thesis using in_range_zone(4) [OF ok] by (intro d) (simp add: data_zone_def trans_le_add1)
  qed
  then show ?thesis using same by (simp add: tail_zero_def zone_addr64_def)
qed

text \<open>The zones that the loop needs, after the last zone has been filled up.\<close>

lemma zones_for_rest:
  assumes "0 < bsz s" "w \<le> n" "w = n \<or> m + w = file_zones s m * bsz s"
  shows "(n - w + bsz s - 1) div bsz s \<le> file_zones s (m + n) - file_zones s m"
proof (cases "w = n")
  case True
  then show ?thesis using assms(1) by simp
next
  case False
  then have "m + n = file_zones s m * bsz s + (n - w)" using assms(2,3) by simp
  then show ?thesis using file_zones_add [OF assms(1), of "file_zones s m" "n - w"] by simp
qed

lemma append_to_file_in:
  assumes ok: "layout_ok s" and t: "in_table s n" and f: "small_file s (minix3_get_inode s n)"
    and st: "ucast (first_data_zone (super s)) \<le> search_start s"
    and len: "unat (i_size (minix3_get_inode s n)) + length buffer \<le> 7 * bsz s"
    and room: "file_zones s (unat (i_size (minix3_get_inode s n)) + length buffer) \<le>
      file_zones s (unat (i_size (minix3_get_inode s n))) + card (free_ahead s)"
  shows "\<exists>s'. minix3_append_to_file s n buffer = Some (s', 0) \<and> super s' = super s \<and> mx3_block_size s' = mx3_block_size s \<and>
    contents s' (minix3_get_inode s' n) = contents s (minix3_get_inode s n) @ buffer \<and>
    small_file s' (minix3_get_inode s' n) \<and> i_mode (minix3_get_inode s' n) = i_mode (minix3_get_inode s n) \<and>
    unat (i_size (minix3_get_inode s' n)) = unat (i_size (minix3_get_inode s n)) + length buffer \<and>
    (\<forall>a < zmap_begin s. mx_disk s' a = mx_disk s a) \<and>
    (tail_zero s (minix3_get_inode s n) (file_zones s (unat (i_size (minix3_get_inode s n)))) \<longrightarrow>
       tail_zero s' (minix3_get_inode s' n) (file_zones s' (unat (i_size (minix3_get_inode s' n))))) \<and>
    card (free_ahead s) \<le> card (free_ahead s') + (file_zones s (unat (i_size (minix3_get_inode s n)) + length buffer) -
      file_zones s (unat (i_size (minix3_get_inode s n)))) \<and>
    ucast (first_data_zone (super s')) \<le> search_start s' \<and>
    (\<forall>y. data_zone s y \<longrightarrow> data_zone s' y) \<and> new_zones s (minix3_get_inode s n) (minix3_get_inode s' n) \<and>
    (\<forall>j. j \<noteq> n \<and> in_table s j \<longrightarrow> minix3_get_inode s' j = minix3_get_inode s j) \<and>
    (\<forall>y k. data_zone s y \<and> y \<notin> set (i_zones (minix3_get_inode s n)) \<and> k < bsz s \<longrightarrow>
       mx_disk s' (zone_addr64 s y + k) = mx_disk s (zone_addr64 s y + k))"
proof -
  define f where "f = minix3_get_inode s n"
  note assms' = assms(3,5,6) [folded f_def]
  have b: "0 < bsz s" using ok by (simp add: layout_ok_def)
  obtain i a rem s1 f1 w where p: "minix3_get_last_file_zone s f = Some i" "minix3_gzbars s f i = Some (a, rem)"
    "(s1, f1, drop w buffer) =
      (if a \<noteq> 0 then
         (s\<lparr>mx_disk := disk_write (mx_disk s) (a + unat rem) (take w buffer)\<rparr>, f\<lparr>i_size := i_size f + of_nat w\<rparr>, drop w buffer)
       else (s, f, buffer))"
    "a \<noteq> 0 \<Longrightarrow> w = min (unat (ucast (mx3_block_size s) - rem)) (length buffer)"
    "file_in s1 f1 (file_zones s (unat (i_size f)))" "contents s1 f1 = contents s f @ take w buffer"
    "unat (i_size f1) = unat (i_size f) + w" "w \<le> length buffer"
    "w = length buffer \<or> unat (i_size f1) = file_zones s (unat (i_size f)) * bsz s"
    "super s1 = super s" "mx3_block_size s1 = mx3_block_size s" "free_ahead s1 = free_ahead s" "search_start s1 = search_start s"
    "\<And>x. x < data_begin s \<Longrightarrow> mx_disk s1 x = mx_disk s x" "\<And>y. data_zone s1 y = data_zone s y"
    "\<And>y j. y \<notin> set (i_zones f) \<Longrightarrow> j < bsz s \<Longrightarrow> mx_disk s1 (zone_addr64 s y + j) = mx_disk s (zone_addr64 s y + j)" "i_size f = 0 \<Longrightarrow> f1 = f"
    "i_mode f1 = i_mode f" "i_zones f1 = i_zones f"
    "tail_zero s f (file_zones s (unat (i_size f))) \<longrightarrow> tail_zero s1 f1 (file_zones s (unat (i_size f)))"
    by (rule append_fill [OF ok assms'(1)]) (rule that, assumption+)
  have ok1: "layout_ok s1" using ok layout_ok_cong [OF p(10,11)] by simp
  have same1: "inodes_begin s1 = inodes_begin s" "data_begin s1 = data_begin s" "zone_addr64 s1 = zone_addr64 s"
    "inode_offset s1 = inode_offset s"
    using p(10,11) by (simp_all add: inodes_begin_def data_begin_def zmap_begin_def zone_addr64_def inode_offset_def fun_eq_iff)
  have rest: "(length (drop w buffer) + bsz s1 - 1) div bsz s1 \<le>
      file_zones s (unat (i_size f) + length buffer) - file_zones s (unat (i_size f))"
    using zones_for_rest [OF b p(8), of "unat (i_size f)"] p(7,9,11) by simp
  then have "(length (drop w buffer) + bsz s1 - 1) div bsz s1 \<le> card (free_ahead s1)"
    using assms'(3) p(12) by simp
  then have "\<exists>s2 f2 k'. append_from s1 f1 (drop w buffer) = Some (s2, f2) \<and> grown s1 s2 \<and> file_in s2 f2 k' \<and>
      contents s2 f2 = contents s1 f1 @ drop w buffer \<and> unat (i_size f2) = unat (i_size f1) + length (drop w buffer) \<and>
      new_zones s1 f1 f2 \<and> i_mode f2 = i_mode f1 \<and>
      (tail_zero s1 f1 (file_zones s (unat (i_size f))) \<or> drop w buffer \<noteq> [] \<longrightarrow> tail_zero s2 f2 k') \<and>
      card (free_ahead s1) \<le> card (free_ahead s2) + (length (drop w buffer) + bsz s1 - 1) div bsz s1 \<and>
      ucast (first_data_zone (super s2)) \<le> search_start s2"
    using assms'(2) st p by (intro append_from_in [OF ok1 _ p(5)]) auto
  then obtain s2 f2 k' where q: "append_from s1 f1 (drop w buffer) = Some (s2, f2)" "grown s1 s2" "file_in s2 f2 k'"
    "contents s2 f2 = contents s1 f1 @ drop w buffer" "unat (i_size f2) = unat (i_size f1) + length (drop w buffer)"
    "i_mode f2 = i_mode f1"
    "tail_zero s1 f1 (file_zones s (unat (i_size f))) \<longrightarrow> tail_zero s2 f2 k'"
    "card (free_ahead s1) \<le> card (free_ahead s2) + (length (drop w buffer) + bsz s1 - 1) div bsz s1"
    "ucast (first_data_zone (super s2)) \<le> search_start s2" "new_zones s1 f1 f2" by blast
  note g = grown_same [OF q(2)]
  have ok2: "layout_ok s2" using ok1 g by simp
  have t2: "in_table s2 n" using t g same1 by (simp add: in_table_def)
  have l2: "length (i_zones f2) = 10" using q(3) by (simp add: file_in_def zones_in_def)
  define s3 where "s3 = minix3_put_inode s2 n f2"
  note P = put_inode_in [OF ok2 t2 l2 s3_def]
  have "test_available_zone_num s3 = test_available_zone_num s2" by (simp add: s3_def minix3_put_inode_def)
  then have ss: "search_start s3 = search_start s2" using P(1) by (simp add: search_start_def)
  note Z = zones_in_cong [OF ok2 _ P(1-3) P(4) [OF disjI2], of f2 k']
  have zi: "zones_in s2 f2 k'" using q(3) by (simp add: file_in_def)
  have "minix3_append_to_file s n buffer = Some (s3, 0)"
    using p(1,2) q(1) p(3,4)
    by (cases "a = 0") (auto simp: minix3_append_to_file_def s3_def Let_def simp flip: f_def)
  moreover have "contents s3 (minix3_get_inode s3 n) = contents s f @ buffer"
    using Z(2) zi q(4) p(6) P(5) by simp
  moreover have "small_file s3 f2"
  proof -
    have "file_in s3 f2 k'" using Z(1) [OF zi] q(3) P(2) by (simp add: file_in_def)
    moreover have "i_zones f2 ! 0 = 0" if "i_size f2 = 0"
    proof -
      have z: "unat (i_size f) + w = 0" "drop w buffer = []" using that q(5) p(7) by auto
      then have "i_size f = 0" by (simp add: unat_eq_0)
      moreover have "f2 = f1" using q(1) z(2) by (simp add: append_from.simps)
      ultimately show ?thesis using p(17) assms'(1) by (simp add: small_file_def)
    qed
    ultimately show ?thesis using file_in_zones [of s3 f2 k'] by (simp add: small_file_def)
  qed
  moreover have "minix3_get_inode s3 j = minix3_get_inode s j" if "j \<noteq> n" "in_table s j" for j
  proof -
    have off: "inode_offset s2 j = inode_offset s j" using g same1 by simp
    have "minix3_get_inode s2 j = minix3_get_inode s j"
      unfolding minix3_get_inode_def off
      by (rule parse_inode_cong)
        (use that(2) q(2) p(14) inode_offset_begin [of s j] same1 in \<open>auto simp: in_table_def grown_def\<close>)
    then show ?thesis using P(6) [OF that(1)] by simp
  qed
  moreover have "mx_disk s3 (zone_addr64 s y + k) = mx_disk s (zone_addr64 s y + k)"
    if y: "data_zone s y" "y \<notin> set (i_zones f)" "k < bsz s" for y k
  proof -
    have "data_begin s2 \<le> zone_addr64 s y + k"
      using in_range_zone(4) [OF ok] y(1) g same1 by (simp add: data_zone_def trans_le_add1)
    then have "mx_disk s3 (zone_addr64 s y + k) = mx_disk s2 (zone_addr64 s y + k)" by (rule P(4) [OF disjI2])
    also have "\<dots> = mx_disk s1 (zone_addr64 s y + k)" using q(2) p(11,15) y same1 by (simp add: grown_def)
    finally show ?thesis using p(16) [OF y(2,3)] by simp
  qed
  moreover have "mx_disk s3 a = mx_disk s a" if "a < zmap_begin s" for a
  proof -
    have "a < zmap_begin s1" "a < inodes_begin s2" "a < data_begin s1"
      using that g same1 ok by (simp_all add: inodes_begin_def layout_ok_def) (simp_all add: zmap_begin_def p(10,11))
    then show ?thesis using P(4) q(2) p(14) same1 by (simp add: grown_def)
  qed
  moreover have m: "i_mode f2 = i_mode f" "unat (i_size f2) = unat (i_size f) + length buffer"
    using q(5,6) p(7,8,18) by simp_all
  moreover have "tail_zero s3 f2 (file_zones s3 (unat (i_size f2)))" if "tail_zero s f (file_zones s (unat (i_size f)))"
  proof -
    have t: "tail_zero s2 f2 k'" using that p(20) q(7) by blast
    have "k' = file_zones s3 (unat (i_size f2))" using file_in_zones [OF q(3)] P(2) by (simp add: file_zones_def)
    then show ?thesis using t tail_zero_cong [OF ok2 zi P(2) P(4) [OF disjI2]] by simp
  qed
  moreover have "card (free_ahead s) \<le> card (free_ahead s3) + (file_zones s (unat (i_size f) + length buffer) - file_zones s (unat (i_size f)))"
  proof -
    have "free_ahead s3 = free_ahead s2"
    proof -
      have "minix3_is_zone_in_range s3 y = minix3_is_zone_in_range s2 y" for y
        using P(1) by (simp add: minix3_is_zone_in_range_def bitmap_zone_def)
      then have "free_zone s3 y = free_zone s2 y" for y using P(3) [of y] by (auto simp: free_zone_def data_zone_def)
      then show "free_ahead s3 = free_ahead s2" by (simp add: free_ahead_def ss)
    qed
    then show ?thesis using q(8) p(12) rest by simp
  qed
  moreover have "ucast (first_data_zone (super s3)) \<le> search_start s3"
    using q(9) P(1) ss by simp
  moreover have "new_zones s f f2" using q(10) p(15,19) by (simp add: new_zones_def)
  moreover have "data_zone s3 y" if "data_zone s y" for y
    using that p(15) q(2) P(3) by (simp add: grown_def)
  ultimately show ?thesis
    using P(1,2,5) g p(10,11) by (intro exI [of _ s3]) (simp add: f_def)
qed



end
