(* ===== verification/Minix3_Create.thy ===== *)
theory Minix3_Create
  imports Minix3_Append
begin

text \<open>
  Creating a file and finding it: a directory as the list of entries in its contents, the lookup of
  a name on it, taking an inode, and \<open>minix3_touch_reg\<close> followed by a lookup.
\<close>

section \<open>Entries\<close>

text \<open>An entry of 64 bytes has the name and is in use.\<close>

definition entry_matches :: "u8 list \<Rightarrow> u8 list \<Rightarrow> bool" where
  "entry_matches e name \<longleftrightarrow> rd32 (\<lambda>a. e ! a) 0 \<noteq> 0 \<and> take (length name + 1) (drop 4 e) = name @ [0]"

lemma takeWhile_eq_name:
  assumes "0 \<notin> set name" "length name < length xs"
  shows "takeWhile (\<lambda>b. b \<noteq> (0 :: u8)) xs = name \<longleftrightarrow> take (length name + 1) xs = name @ [0]"
proof
  assume t: "takeWhile (\<lambda>b. b \<noteq> 0) xs = name"
  have d: "xs = name @ dropWhile (\<lambda>b. b \<noteq> 0) xs" by (simp flip: t)
  show "take (length name + 1) xs = name @ [0]"
  proof (cases "dropWhile (\<lambda>b. b \<noteq> 0) xs")
    case Nil
    then have "length xs = length name" using d by (metis append_Nil2)
    then show ?thesis using assms(2) by simp
  next
    case (Cons x ys)
    then have "x = 0" using hd_dropWhile [of "\<lambda>b. b \<noteq> 0" xs] by simp
    then show ?thesis using d Cons by (metis append_Cons append_Nil append_assoc append_eq_conv_conj length_append_singleton Suc_eq_plus1)
  qed
next
  assume t: "take (length name + 1) xs = name @ [0]"
  define ys where "ys = drop (length name + 1) xs"
  have x: "xs = name @ 0 # ys"
    using append_take_drop_id [of "length name + 1" xs] unfolding t ys_def [symmetric] by simp
  have "\<And>x. x \<in> set name \<Longrightarrow> x \<noteq> 0" using assms(1) by auto
  then show "takeWhile (\<lambda>b. b \<noteq> 0) xs = name" unfolding x by (subst takeWhile_append2) auto
qed

lemma entry_matches_zone:
  assumes "0 \<notin> set name" "length name \<le> 59" "64 * j + 64 \<le> length zone"
  shows "entry_inode zone j \<noteq> 0 \<and> entry_name zone j = name \<longleftrightarrow> entry_matches (take 64 (drop (64 * j) zone)) name"
proof -
  let ?e = "take 64 (drop (64 * j) zone)"
  have "entry_inode zone j = rd32 (\<lambda>a. ?e ! a) 0"
    unfolding entry_inode_def using assms(3) by (intro rd32_cong) simp
  moreover have "take (length name + 1) (drop (64 * j + 4) zone) = take (length name + 1) (drop 4 ?e)"
    using assms(2) by (simp add: drop_take min_def add.commute)
  moreover have "length name < length (drop (64 * j + 4) zone)" using assms(2,3) by simp
  ultimately show ?thesis
    unfolding entry_matches_def entry_name_def using takeWhile_eq_name [OF assms(1)] by simp
qed

text \<open>An entry that was written.\<close>

lemma dir_entry_matches:
  assumes "0 \<notin> set name" "length name \<le> 59" "n \<noteq> 0"
  shows "entry_matches (dir_entry_bytes n name) name" "rd32 (\<lambda>a. dir_entry_bytes n name ! a) 0 = n"
    and "length (dir_entry_bytes n name) = 64"
proof -
  show l: "length (dir_entry_bytes n name) = 64" by (simp add: dir_entry_bytes_def)
  have "dir_entry_bytes n name ! k = le32 n ! k" if "k < 4" for k
    using that by (simp add: dir_entry_bytes_def nth_append)
  then show r: "rd32 (\<lambda>a. dir_entry_bytes n name ! a) 0 = n" by (intro rd32_le32) simp
  have "drop 4 (dir_entry_bytes n name) = take 60 (name @ replicate 60 0)"
    by (simp add: dir_entry_bytes_def drop_take)
  then have "take (length name + 1) (drop 4 (dir_entry_bytes n name)) = name @ [0]"
    using assms(2) by (simp add: min_def)
  then show "entry_matches (dir_entry_bytes n name) name" using r assms(3) by (simp add: entry_matches_def)
qed

section \<open>Lookup in a directory\<close>

abbreviation (input) block_of :: "mx3 \<Rightarrow> mx3_inode \<Rightarrow> nat \<Rightarrow> u8 list" where
  "block_of s dir i \<equiv> read_block s (zone_addr64 s (i_zones dir ! i))"

definition found_in :: "mx3 \<Rightarrow> mx3_inode \<Rightarrow> u8 list \<Rightarrow> nat \<Rightarrow> (u32 \<times> mx3_inode) option \<Rightarrow> (u32 \<times> mx3_inode) option" where
  "found_in s dir name i found =
     (case find_entry s (block_of s dir i) name of None \<Rightarrow> found | Some n \<Rightarrow> Some (n, minix3_get_inode s n))"

lemma max_zones_ge:
  assumes "bsz s \<le> 4096"
  shows "7 \<le> unat (minix3_get_file_max_zones (mx3_block_size s))"
proof -
  let ?p = "bsz s div 4"
  have p: "?p \<le> 1024" using assms by simp
  then have "?p * ?p \<le> 1024 * 1024" by (intro mult_le_mono)
  moreover from this p have "?p * ?p * ?p \<le> 1024 * 1024 * 1024" by (intro mult_le_mono)
  moreover have u: "unat (ucast (mx3_block_size s) div 4 :: u32) = ?p" by (simp add: unat_div unat_bs)
  ultimately have "unat (minix3_get_file_max_zones (mx3_block_size s)) = 7 + ?p + ?p * ?p + ?p * ?p * ?p"
    using p by (simp add: minix3_get_file_max_zones_def Let_def unat_word_ariths)
  then show ?thesis by simp
qed

lemma gzbars_in:
  assumes ok: "layout_ok s" and f: "file_in s f k" and i: "i \<le> k" "i < 7"
  obtains rem where "minix3_gzbars s f (of_nat i) = Some (zone_addr64 s (i_zones f ! i), rem)" "rem = 0 \<longleftrightarrow> i = k"
proof -
  have z: "zones_in s f k" "k * bsz s < unat (i_size f) + bsz s" using f by (simp_all add: file_in_def)
  have u: "unat (of_nat i :: u32) = i" using i by (simp add: unat_of_nat)
  have p: "has_path s f i" using z(1) i by (simp add: zones_in_def has_path_def)
  have l: "length (i_zones f) = 10" using z(1) by (simp add: zones_in_def)
  have "0 \<notin> set (map (file_zone s f) [0..<i])"
  proof
    assume "0 \<in> set (map (file_zone s f) [0..<i])"
    then obtain m where "m < i" "file_zone s f m = 0" by auto
    then have "data_zone s 0" using z(1) i by (auto simp: zones_in_def file_zone_parts(1)) (metis less_le_trans)
    then show False using in_range_zone(5) [OF ok] by (auto simp: data_zone_def)
  qed
  from after_zones_unat [OF this]
  have r: "unat (after_zones s (map (file_zone s f) [0..<i]) (i_size f)) = unat (i_size f) - i * bsz s" by simp
  have "unat (i_size f) - i * bsz s = 0 \<longleftrightarrow> i = k"
  proof
    assume "unat (i_size f) - i * bsz s = 0"
    then have "k * bsz s < Suc i * bsz s" using z(2) by simp
    then have "k < Suc i" by (simp only: mult_less_cancel2)
    then show "i = k" using i(1) by simp
  qed (use z(1) in \<open>simp add: zones_in_def\<close>)
  then have "after_zones s (map (file_zone s f) [0..<i]) (i_size f) = 0 \<longleftrightarrow> i = k"
    using r by (metis unat_eq_0)
  moreover have "minix3_gzbars s f (of_nat i) =
      Some (zone_addr64 s (i_zones f ! i), after_zones s (map (file_zone s f) [0..<i]) (i_size f))"
    using zone_walker_get [of s f "of_nat i"] p u i by (simp add: minix3_gzbars_def file_zone_parts(1))
  ultimately show thesis using that by blast
qed

lemma name_from_in:
  assumes ok: "layout_ok s" and f: "file_in s dir k" and k: "k < 7" and b: "bsz s \<le> 4096"
  shows "i \<le> k \<Longrightarrow> name_from s dir name i found = Some (fold (found_in s dir name) [i..<k] found)"
proof (induction "k - i" arbitrary: i found)
  case 0
  then have "i = k" by simp
  moreover obtain rem where "minix3_gzbars s dir (of_nat k) = Some (zone_addr64 s (i_zones dir ! k), rem)" "rem = 0"
    using gzbars_in [OF ok f, of k] k by auto
  ultimately show ?case by (simp add: name_from.simps)
next
  case (Suc m)
  then have i: "i < k" by simp
  obtain rem where g: "minix3_gzbars s dir (of_nat i) = Some (zone_addr64 s (i_zones dir ! i), rem)" "rem \<noteq> 0"
    using gzbars_in [OF ok f, of i] i k by auto
  have "data_zone s (i_zones dir ! i)" using f i by (simp add: file_in_def zones_in_def)
  then have a: "zone_addr64 s (i_zones dir ! i) \<noteq> 0" using in_range_zone(6) [OF ok] by (simp add: data_zone_def)
  have "i < unat (minix3_get_file_max_zones (mx3_block_size s))" using max_zones_ge [OF b] i k by simp
  then have "name_from s dir name i found = name_from s dir name (i + 1) (found_in s dir name i found)"
    using g a by (subst name_from.simps) (simp add: found_in_def)
  then show ?case using Suc.hyps(1) [of "i + 1" "found_in s dir name i found"] Suc.hyps(2) i
    by (simp add: upt_conv_Cons)
qed

text \<open>Nothing is found exactly if no entry of a block matches.\<close>

lemma found_none:
  "fold (found_in s dir name) js found = None \<longleftrightarrow> found = None \<and> (\<forall>i \<in> set js. find_entry s (block_of s dir i) name = None)"
proof (induction js arbitrary: found)
  case (Cons i js)
  have "found_in s dir name i found = None \<longleftrightarrow> found = None \<and> find_entry s (block_of s dir i) name = None"
    by (auto simp: found_in_def split: option.split)
  then show ?case using Cons by auto
qed simp

lemma length_read_block [simp]: "length (read_block s a) = bsz s"
  by (simp add: read_block_def disk_read_def)

lemma find_entry_none:
  assumes "0 \<notin> set name" "length name \<le> 59" "64 dvd bsz s" "length zone = bsz s"
  shows "find_entry s zone name = None \<longleftrightarrow>
    (\<forall>j < dirs_per_block s. \<not> entry_matches (take 64 (drop (64 * j) zone)) name)"
proof -
  have "64 * j + 64 \<le> length zone" if "j < dirs_per_block s" for j
    using that assms(3,4) by (auto simp: dirs_per_block_def elim!: dvdE)
  then show ?thesis
    using entry_matches_zone [OF assms(1,2)] by (auto simp: find_entry_def find_None_iff)
qed

lemma find_entry_first:
  assumes "0 \<notin> set name" "length name \<le> 59" "64 dvd bsz s" "length zone = bsz s"
    and "j < dirs_per_block s" "entry_matches (take 64 (drop (64 * j) zone)) name"
    and "\<And>j'. j' < j \<Longrightarrow> \<not> entry_matches (take 64 (drop (64 * j') zone)) name"
  shows "find_entry s zone name = Some (rd32 (\<lambda>a. take 64 (drop (64 * j) zone) ! a) 0)"
proof -
  have le: "64 * j' + 64 \<le> length zone" if "j' < dirs_per_block s" for j'
    using that assms(3,4) by (auto simp: dirs_per_block_def elim!: dvdE)
  let ?P = "\<lambda>j. entry_inode zone j \<noteq> 0 \<and> entry_name zone j = name"
  have m: "?P j' \<longleftrightarrow> entry_matches (take 64 (drop (64 * j') zone)) name" if "j' < dirs_per_block s" for j'
    using entry_matches_zone [OF assms(1,2) le [OF that]] .
  have "find ?P [0..<dirs_per_block s] = Some j"
    unfolding find_Some_iff using assms(5-7) m by (intro exI [of _ j]) auto
  moreover have "entry_inode zone j = rd32 (\<lambda>a. take 64 (drop (64 * j) zone) ! a) 0"
    unfolding entry_inode_def using le [OF assms(5)] by (intro rd32_cong) simp
  ultimately show ?thesis by (simp add: find_entry_def)
qed

lemma block_entry:
  assumes ok: "layout_ok s" and z: "zones_in s f k" and i: "i * bsz s + x + 64 \<le> unat (i_size f)" "x + 64 \<le> bsz s"
  shows "take 64 (drop x (block_of s f i)) = take 64 (drop (i * bsz s + x) (contents s f))" "i < k"
proof -
  have d: "(i * bsz s + y) div bsz s = i" "(i * bsz s + y) mod bsz s = y" if "y < bsz s" for y
    using that by simp_all
  show "i < k" using zones_in_byte(1) [OF ok z, of "i * bsz s + x"] d(1) [of x] i by simp
  show "take 64 (drop x (block_of s f i)) = take 64 (drop (i * bsz s + x) (contents s f))"
  proof (rule nth_equalityI)
    show "length (take 64 (drop x (block_of s f i))) = length (take 64 (drop (i * bsz s + x) (contents s f)))"
      using i by (simp add: contents_def)
    fix y assume "y < length (take 64 (drop x (block_of s f i)))"
    then have y: "y < 64" by simp
    have lt: "i * bsz s + (x + y) < unat (i_size f)" and b: "x + y < bsz s" using i y by simp_all
    have "file_byte s f (i * bsz s + (x + y)) = mx_disk s (zone_addr64 s (i_zones f ! i) + (x + y))"
      using zones_in_byte(3) [OF ok z lt] d [OF b] by simp
    then show "take 64 (drop x (block_of s f i)) ! y = take 64 (drop (i * bsz s + x) (contents s f)) ! y"
      using y i by (simp add: contents_def read_block_def disk_read_def add.assoc)
  qed
qed

text \<open>A directory to which an entry with a new name was appended.\<close>

lemma lookup_appended:
  assumes ok: "layout_ok s" "layout_ok s'" and f: "file_in s dir k" "file_in s' dir' k'" and k: "k < 7" "k' < 7"
    and bs: "bsz s' = bsz s" "64 dvd bsz s" "bsz s \<le> 4096" and sz: "64 dvd unat (i_size dir)"
    and c: "contents s' dir' = contents s dir @ e" "length e = 64"
    and name: "0 \<notin> set name" "length name \<le> 59" and e: "entry_matches e name"
    and none: "name_from s dir name 0 None = Some None"
  shows "name_from s' dir' name 0 None = Some (Some (rd32 (\<lambda>a. e ! a) 0, minix3_get_inode s' (rd32 (\<lambda>a. e ! a) 0)))"
proof -
  let ?s = "unat (i_size dir)" and ?b = "bsz s"
  have b: "0 < ?b" using ok by (simp add: layout_ok_def)
  have z: "zones_in s dir k" "zones_in s' dir' k'" using f by (simp_all add: file_in_def)
  have l: "length (contents t h) = unat (i_size h)" for t h by (simp add: contents_def)
  have sz': "unat (i_size dir') = ?s + 64" using c l [of s' dir'] l [of s dir] by simp
  define q where "q = ?s div ?b"
  define j where "j = ?s mod ?b div 64"
  obtain B where B: "?b = 64 * B" using bs(2) by auto
  obtain S where S: "?s = 64 * S" using sz by auto
  have "?s mod ?b = 64 * (S mod B)" unfolding B S by (rule mod_mult_mult1)
  then have j: "64 * j = ?s mod ?b" "j < B" using b B by (simp_all add: j_def)
  have s: "?s = q * ?b + 64 * j" by (simp add: q_def j)
  have jb: "64 * j + 64 \<le> ?b" using j(2) B by simp
  have dp: "dirs_per_block s = B" "dirs_per_block s' = B" using B bs(1) by (simp_all add: dirs_per_block_def)
  have "fold (found_in s dir name) [0..<k] None = None"
    using none name_from_in [OF ok(1) f(1) k(1) bs(3), of 0 name None] by simp
  then have nb: "find_entry s (block_of s dir i) name = None" if "i < k" for i
    using that by (auto simp: found_none)
  have old: "take 64 (drop (i * ?b + 64 * j') (contents s' dir')) = take 64 (drop (i * ?b + 64 * j') (contents s dir))"
    if "i * ?b + 64 * j' + 64 \<le> ?s" for i j'
    using that by (simp add: c l)
  have no: "\<not> entry_matches (take 64 (drop (64 * j') (block_of s' dir' i))) name"
    if "j' < B" and lt: "i * ?b + 64 * j' + 64 \<le> ?s" for i j'
  proof -
    have x: "64 * j' + 64 \<le> ?b" using that(1) B by simp
    note e1 = block_entry [OF ok(1) z(1) lt x]
    have "\<not> entry_matches (take 64 (drop (64 * j') (block_of s dir i))) name"
      using nb [OF e1(2)] find_entry_none [OF name bs(2)] that(1) dp by simp
    then show ?thesis
      using e1(1) old [OF lt] block_entry(1) [OF ok(2) z(2), of i "64 * j'"] lt x sz' bs(1) by simp
  qed
  have "k' = Suc q"
  proof -
    have "k' * ?b < ?s + 64 + ?b" "?s + 64 \<le> k' * ?b" using f(2) sz' bs(1) by (simp_all add: file_in_def zones_in_def)
    then have "k' * ?b < q * ?b + ?b + ?b" "q * ?b < k' * ?b" using s jb by linarith+
    then have "k' * ?b < Suc (Suc q) * ?b" "q * ?b < k' * ?b" by (simp_all only: mult_Suc add.assoc add.commute)
    then have "k' < Suc (Suc q)" "q < k'" by (simp_all only: mult_less_cancel2)
    then show ?thesis by simp
  qed
  moreover have "find_entry s' (block_of s' dir' i) name = None" if "i < q" for i
  proof -
    have "Suc i * ?b \<le> q * ?b" using that by (intro mult_le_mono1) simp
    then have "i * ?b + 64 * j' + 64 \<le> ?s" if "j' < B" for j' using that s B by simp
    then show ?thesis using find_entry_none [OF name, of s'] no bs dp by simp
  qed
  then have "fold (found_in s' dir' name) [0..<q] None = None" by (simp add: found_none)
  moreover have "find_entry s' (block_of s' dir' q) name = Some (rd32 (\<lambda>a. e ! a) 0)"
  proof -
    have "take 64 (drop (64 * j) (block_of s' dir' q)) = take 64 (drop (q * ?b + 64 * j) (contents s' dir'))"
      using block_entry(1) [OF ok(2) z(2), of q "64 * j"] s sz' jb bs(1) by simp
    also have "\<dots> = e" using s l [of s dir] c by simp
    finally have "take 64 (drop (64 * j) (block_of s' dir' q)) = e" .
    moreover have "q * ?b + 64 * j' + 64 \<le> ?s" "j' < B" if "j' < j" for j' using that s j(2) by simp_all
    ultimately show ?thesis
      using find_entry_first [OF name, of s' "block_of s' dir' q" j] no e bs dp j(2) by simp
  qed
  ultimately show ?thesis
    using name_from_in [OF ok(2) f(2) k(2), of 0 name None] bs by (simp add: found_in_def)
qed

section \<open>Taking an inode\<close>

definition free_inode :: "mx3 \<Rightarrow> u32 \<Rightarrow> bool" where
  "free_inode s n \<longleftrightarrow> minix3_is_inode_in_range s n \<and> \<not> minix3_is_inode_occupied s n"

definition inodes_ok :: "mx3 \<Rightarrow> bool" where
  "inodes_ok s \<longleftrightarrow> imap_begin s + unat (num_inodes (super s)) div 8 < zmap_begin s \<and>
     inodes_begin s + (unat (num_inodes (super s)) + 1) * SIZEOF_INODE \<le> data_begin s"

lemma inode_in_range:
  assumes "minix3_is_inode_in_range s n"
  shows "n \<noteq> 0" "unat (n - 1) \<le> unat (num_inodes (super s))" "inodes_ok s \<Longrightarrow> in_table s n"
proof -
  show "n \<noteq> 0" and u: "unat (n - 1) \<le> unat (num_inodes (super s))"
    using assms by (auto simp: minix3_is_inode_in_range_def word_le_nat_alt not_less split: if_splits)
  then have "unat (n - 1) * 64 + 64 \<le> (unat (num_inodes (super s)) + 1) * 64" by simp
  then show "inodes_ok s \<Longrightarrow> in_table s n" by (simp add: inodes_ok_def in_table_def inode_offset_begin)
qed

lemma available_inode_first:
  assumes "t \<noteq> 0" "t \<le> m" "free_inode s m" and "\<And>y. t \<le> y \<Longrightarrow> y < m \<Longrightarrow> \<not> free_inode s y"
  shows "available_inode_from s t = Some m"
  using assms
proof (induction "unat m - unat t" arbitrary: t)
  case 0
  then have "t = m" by (simp add: word_le_nat_alt word_unat_eq_iff)
  then show ?case using 0 by (simp add: free_inode_def available_inode_from.simps)
next
  case (Suc k)
  then have lt: "t < m" by (simp add: word_less_nat_alt)
  have t1: "unat (t + 1) = unat t + 1"
    using lt unat_lt_32 [of m] by (simp add: unat_word_ariths word_less_nat_alt)
  have "m \<noteq> 0" using lt by auto
  then have "unat (t - 1) \<le> unat (m - 1)"
    using lt Suc.prems(1) unat_minus_one [of t] unat_minus_one [of m] by (simp add: word_less_nat_alt)
  also have "\<dots> \<le> unat (num_inodes (super s))"
    using Suc.prems(3) by (intro inode_in_range(2)) (simp add: free_inode_def)
  finally have "minix3_is_inode_in_range s t"
    using Suc.prems(1) by (simp add: minix3_is_inode_in_range_def not_less word_le_nat_alt)
  moreover from this have "minix3_is_inode_occupied s t" using Suc.prems(4) [of t] lt by (auto simp: free_inode_def)
  moreover have "available_inode_from s (t + 1) = Some m"
  proof (rule Suc.hyps(1) [OF _ _ _ Suc.prems(3)])
    show "k = unat m - unat (t + 1)" using Suc.hyps(2) t1 by simp
    show "t + 1 \<noteq> 0" using t1 by auto
    show "t + 1 \<le> m" using t1 lt by (simp add: word_le_nat_alt word_less_nat_alt)
    fix y assume "t + 1 \<le> y" "y < m"
    then show "\<not> free_inode s y" using Suc.prems(4) [of y] t1 by (simp add: word_le_nat_alt)
  qed
  ultimately show ?case by (simp add: available_inode_from.simps)
qed

lemma take_inode:
  assumes "test_available_inode_num s \<noteq> 0" "test_available_inode_num s \<le> m" "free_inode s m"
  obtains n where "minix3_get_available_inode s = Some (s\<lparr>test_available_inode_num := n\<rparr>, n)" "free_inode s n"
proof -
  define A where "A = {y. test_available_inode_num s \<le> y \<and> free_inode s y}"
  define n where "n = Min A"
  have "m \<in> A" using assms by (simp add: A_def)
  then have n: "n \<in> A" unfolding n_def by (intro Min_in) auto
  have f: "\<not> free_inode s y" if "test_available_inode_num s \<le> y" "y < n" for y
  proof
    assume "free_inode s y"
    then have "n \<le> y" using that(1) unfolding n_def by (intro Min_le) (simp_all add: A_def)
    then show False using that(2) by simp
  qed
  have "available_inode_from s (test_available_inode_num s) = Some n"
    by (rule available_inode_first [OF assms(1)]) (use n f in \<open>simp_all add: A_def\<close>)
  then show thesis using n that [of n] by (simp add: minix3_get_available_inode_def A_def)
qed

text \<open>Changes outside the data, which leave all files as they are.\<close>

definition same_files :: "mx3 \<Rightarrow> mx3 \<Rightarrow> bool" where
  "same_files s s' \<longleftrightarrow> super s' = super s \<and> mx3_block_size s' = mx3_block_size s \<and>
     test_available_zone_num s' = test_available_zone_num s \<and> (\<forall>y. data_zone s' y = data_zone s y) \<and>
     (\<forall>a \<ge> data_begin s. mx_disk s' a = mx_disk s a)"

lemma same_files_trans: "same_files s s1 \<Longrightarrow> same_files s1 s2 \<Longrightarrow> same_files s s2"
  by (auto simp: same_files_def data_begin_def)

lemma same_files:
  assumes ok: "layout_ok s" and g: "same_files s s'"
  shows "layout_ok s'" "search_start s' = search_start s" "free_ahead s' = free_ahead s" "file_zones s' = file_zones s"
    "in_table s' = in_table s" "small_file s f \<Longrightarrow> small_file s' f" "small_file s f \<Longrightarrow> contents s' f = contents s f"
proof -
  have e: "super s' = super s" "mx3_block_size s' = mx3_block_size s"
    "test_available_zone_num s' = test_available_zone_num s" "\<And>y. data_zone s' y = data_zone s y"
    "\<And>a. data_begin s \<le> a \<Longrightarrow> mx_disk s' a = mx_disk s a" using g by (simp_all add: same_files_def)
  show "layout_ok s'" using ok layout_ok_cong [OF e(1,2)] by simp
  show ss: "search_start s' = search_start s" using e by (simp add: search_start_def)
  have "minix3_is_zone_in_range s' y = minix3_is_zone_in_range s y" for y
    using e(1) by (simp add: minix3_is_zone_in_range_def bitmap_zone_def)
  then have "free_zone s' y = free_zone s y" for y using e(4) [of y] by (auto simp: free_zone_def data_zone_def)
  then show "free_ahead s' = free_ahead s" by (simp add: free_ahead_def ss)
  show fz: "file_zones s' = file_zones s" using e(2) by (simp add: file_zones_def fun_eq_iff)
  show "in_table s' = in_table s" using e(1,2) by (simp add: in_table_def inode_offset_def data_begin_def fun_eq_iff)
  assume f: "small_file s f"
  then have "zones_in s f (file_zones s (unat (i_size f)))" by (simp add: small_file_def file_in_def)
  note Z = zones_in_cong [OF ok this e(1,2,4,5)]
  show "contents s' f = contents s f" by (rule Z(2))
  show "small_file s' f" using Z(1) f fz e(2) by (simp add: small_file_def file_in_def)
qed

lemma set_inode_in:
  assumes ok: "layout_ok s" "inodes_ok s" and n: "minix3_is_inode_in_range s n"
    and s': "s' = fst (minix3_set_inode_as s n as)"
  shows "same_files s s'" "minix3_get_inode s' j = minix3_get_inode s j" "minix3_is_inode_occupied s' n = as"
    and "zmap_begin s \<le> a \<Longrightarrow> mx_disk s' a = mx_disk s a"
proof -
  have b: "31 \<le> bsz s" using ok(1) by (simp add: layout_ok_def)
  have e: "minix3_set_inode_as s n as = (s', snd (minix3_set_inode_as s n as))"
    using s' by simp
  note c = minix3_set_inode_as_correct [OF b n e]
  show "minix3_is_inode_occupied s' n = as" using c by simp
  have su: "super s' = super s" using c by blast
  obtain v where d: "s' = s\<lparr>mx_disk := disk_write (mx_disk s) (imap_begin s + unat ((n - 1) div 8)) [v]\<rparr>"
    using s' inode_in_range(1) [OF n] by (auto simp: minix3_set_inode_as_def Let_def)
  have "unat ((n - 1) div 8) \<le> unat (num_inodes (super s)) div 8"
    using inode_in_range(2) [OF n] by (simp add: unat_div div_le_mono)
  then have "imap_begin s + unat ((n - 1) div 8) < zmap_begin s" using ok(2) by (simp add: inodes_ok_def)
  then have same: "mx_disk s' a = mx_disk s a" if "zmap_begin s \<le> a" for a
    using that by (simp add: d disk_write_def)
  then show "zmap_begin s \<le> a \<Longrightarrow> mx_disk s' a = mx_disk s a" .
  have zm: "zmap_begin s' = zmap_begin s" using su by (simp add: zmap_begin_def) (simp add: d)
  have "data_zone s' y = data_zone s y" for y
    using su zm same
    by (simp add: data_zone_def minix3_is_zone_in_range_def minix3_is_zone_occupied_def bitmap_zone_def Let_def map_bit_iff)
  moreover have bl: "zmap_begin s \<le> data_begin s" "zmap_begin s \<le> inodes_begin s" using ok(1) by (simp_all add: layout_ok_def)
  ultimately show "same_files s s'" using su same by (simp add: same_files_def) (simp add: d)
  have "inode_offset s' j = inode_offset s j" using su by (simp add: inode_offset_def) (simp add: d)
  then show "minix3_get_inode s' j = minix3_get_inode s j"
    unfolding minix3_get_inode_def using same bl inode_offset_begin [of s j] by (auto intro!: parse_inode_cong)
qed

lemma put_inode_same_files:
  assumes ok: "layout_ok s" and t: "in_table s n" and l: "length (i_zones f) = 10"
  shows "same_files s (minix3_put_inode s n f)"
  using put_inode_in(1-4) [OF ok t l refl] by (simp add: same_files_def) (simp add: minix3_put_inode_def)

lemma inode_occupied_cong:
  assumes "inodes_ok s" "super s' = super s" "mx3_block_size s' = mx3_block_size s"
    and "\<And>a. a < zmap_begin s \<Longrightarrow> mx_disk s' a = mx_disk s a" "minix3_is_inode_in_range s n"
  shows "minix3_is_inode_occupied s' n = minix3_is_inode_occupied s n"
proof -
  have "unat ((n - 1) div 8) \<le> unat (num_inodes (super s)) div 8"
    using inode_in_range(2) [OF assms(5)] by (simp add: unat_div div_le_mono)
  then have "imap_begin s + unat ((n - 1) div 8) < zmap_begin s" using assms(1) by (simp add: inodes_ok_def)
  then show ?thesis using assms(2-4) by (simp add: minix3_is_inode_occupied_def map_bit_iff imap_begin_def)
qed

lemma room_for_entry: "64 \<le> bsz s \<Longrightarrow> file_zones s (x + 64) \<le> file_zones s x + 1"
proof -
  assume b: "64 \<le> bsz s"
  then have "(x + 64 + bsz s - 1) div bsz s \<le> (x + bsz s - 1 + bsz s) div bsz s" by (intro div_le_mono) simp
  also have "\<dots> = (x + bsz s - 1) div bsz s + 1" by (rule div_add_self2) (use b in linarith)
  finally show ?thesis by (simp add: file_zones_def)
qed

section \<open>Creating a file and finding it\<close>

definition dir_ok :: "mx3 \<Rightarrow> mx3_inode \<Rightarrow> bool" where
  "dir_ok s dir \<longleftrightarrow> is_directory dir \<and> small_file s dir \<and> 64 dvd unat (i_size dir) \<and> 64 dvd bsz s \<and> bsz s \<le> 4096"

lemma small_file_zones_6:
  assumes "small_file s f" "unat (i_size f) \<le> 6 * bsz s"
  shows "file_zones s (unat (i_size f)) < 7"
proof -
  have "file_zones s (unat (i_size f)) * bsz s < unat (i_size f) + bsz s" using assms(1) by (simp add: small_file_def file_in_def)
  then have "file_zones s (unat (i_size f)) * bsz s < 7 * bsz s" using assms(2) by linarith
  then show ?thesis by (simp only: mult_less_cancel2)
qed

text \<open>A name that is not there is not there after a change outside the data.\<close>

lemma name_not_found_same:
  assumes ok: "layout_ok s" and g: "same_files s s'" and f: "small_file s dir" "unat (i_size dir) \<le> 6 * bsz s" "bsz s \<le> 4096"
    and n: "name_from s dir name 0 None = Some None"
  shows "name_from s' dir name 0 None = Some None"
proof -
  let ?k = "file_zones s (unat (i_size dir))"
  note F = same_files [OF ok g]
  have bs: "mx3_block_size s' = mx3_block_size s" using g by (simp add: same_files_def)
  have k: "?k < 7" by (rule small_file_zones_6 [OF f(1,2)])
  have fi: "file_in s dir ?k" "file_in s' dir ?k" using f(1) F(6) [OF f(1)] F(4) by (simp_all add: small_file_def)
  have "block_of s' dir i = block_of s dir i" if "i < ?k" for i
  proof -
    have "data_zone s (i_zones dir ! i)" using fi(1) that by (simp add: file_in_def zones_in_def)
    then have "data_begin s \<le> zone_addr64 s (i_zones dir ! i)" using in_range_zone(4) [OF ok] by (simp add: data_zone_def)
    then show ?thesis using g by (simp add: read_block_def disk_read_def zone_addr64_def same_files_def)
  qed
  then have "find_entry s' (block_of s' dir i) name = find_entry s (block_of s dir i) name" if "i < ?k" for i
    using that bs by (simp add: find_entry_def dirs_per_block_def)
  moreover have "fold (found_in s dir name) [0..<?k] None = None"
    using n name_from_in [OF ok fi(1) k f(3), of 0 name None] by simp
  ultimately have "fold (found_in s' dir name) [0..<?k] None = None" by (simp add: found_none)
  then show ?thesis using name_from_in [OF F(1) fi(2) k, of 0 name None] f(3) bs by simp
qed

text \<open>An entry appended to a directory is found by the next lookup of its name.\<close>

lemma append_entry_lookup:
  assumes ok: "layout_ok s" and t: "in_table s p" and dir: "dir = minix3_get_inode s p" "dir_ok s dir" "unat (i_size dir) + 64 \<le> 6 * bsz s"
    and name: "0 \<notin> set fname" "length fname \<le> 59" "name_from s dir fname 0 None = Some None"
    and st: "ucast (first_data_zone (super s)) \<le> search_start s" "free_ahead s \<noteq> {}"
    and n: "n \<noteq> 0"
  obtains s' where "minix3_append_to_file s p (dir_entry_bytes n fname) = Some (s', 0)" "super s' = super s"
    "mx3_block_size s' = mx3_block_size s" "contents s' (minix3_get_inode s' p) = contents s dir @ dir_entry_bytes n fname"
    "dir_ok s' (minix3_get_inode s' p)" "unat (i_size (minix3_get_inode s' p)) = unat (i_size dir) + 64"
    "name_from s' (minix3_get_inode s' p) fname 0 None = Some (Some (n, minix3_get_inode s' n))"
    "\<forall>a < zmap_begin s. mx_disk s' a = mx_disk s a"
    "\<forall>j. j \<noteq> p \<and> in_table s j \<longrightarrow> minix3_get_inode s' j = minix3_get_inode s j"
    "tail_zero s dir (file_zones s (unat (i_size dir))) \<longrightarrow>
       tail_zero s' (minix3_get_inode s' p) (file_zones s' (unat (i_size (minix3_get_inode s' p))))"
    "card (free_ahead s) \<le> card (free_ahead s') + 1" "ucast (first_data_zone (super s')) \<le> search_start s'"
    "\<forall>y. data_zone s y \<longrightarrow> data_zone s' y" "new_zones s dir (minix3_get_inode s' p)"
    "\<forall>y k. data_zone s y \<and> y \<notin> set (i_zones dir) \<and> k < bsz s \<longrightarrow>
       mx_disk s' (zone_addr64 s y + k) = mx_disk s (zone_addr64 s y + k)"
proof -
  have d: "is_directory dir" "small_file s dir" "64 dvd unat (i_size dir)" "64 dvd bsz s" "bsz s \<le> 4096"
    using dir(2) by (simp_all add: dir_ok_def)
  have b: "64 \<le> bsz s" using ok by (simp add: layout_ok_def)
  note e = dir_entry_matches [OF name(1,2) n]
  note rm = room_for_entry [OF b, of "unat (i_size dir)"]
  have "0 < card (free_ahead s)" using st(2) by (simp add: card_gt_0_iff)
  then have room: "file_zones s (unat (i_size dir) + length (dir_entry_bytes n fname)) \<le>
      file_zones s (unat (i_size dir)) + card (free_ahead s)"
    using rm e(3) by simp
  have len: "unat (i_size dir) + length (dir_entry_bytes n fname) \<le> 7 * bsz s" using dir(3) e(3) by simp
  obtain s' where s': "minix3_append_to_file s p (dir_entry_bytes n fname) = Some (s', 0)" "super s' = super s"
    "mx3_block_size s' = mx3_block_size s" "contents s' (minix3_get_inode s' p) = contents s dir @ dir_entry_bytes n fname"
    "small_file s' (minix3_get_inode s' p)" "i_mode (minix3_get_inode s' p) = i_mode dir"
    "unat (i_size (minix3_get_inode s' p)) = unat (i_size dir) + length (dir_entry_bytes n fname)"
    "\<forall>a < zmap_begin s. mx_disk s' a = mx_disk s a"
    "tail_zero s dir (file_zones s (unat (i_size dir))) \<longrightarrow>
       tail_zero s' (minix3_get_inode s' p) (file_zones s' (unat (i_size (minix3_get_inode s' p))))"
    "card (free_ahead s) \<le> card (free_ahead s') + (file_zones s (unat (i_size dir) + length (dir_entry_bytes n fname)) -
      file_zones s (unat (i_size dir)))" "ucast (first_data_zone (super s')) \<le> search_start s'"
    "\<forall>y. data_zone s y \<longrightarrow> data_zone s' y" "new_zones s dir (minix3_get_inode s' p)"
    "\<forall>j. j \<noteq> p \<and> in_table s j \<longrightarrow> minix3_get_inode s' j = minix3_get_inode s j"
    "\<forall>y k. data_zone s y \<and> y \<notin> set (i_zones dir) \<and> k < bsz s \<longrightarrow>
       mx_disk s' (zone_addr64 s y + k) = mx_disk s (zone_addr64 s y + k)"
    using append_to_file_in [OF ok t d(2) [unfolded dir(1)] st(1) len [unfolded dir(1)] room [unfolded dir(1)]]
    unfolding dir(1) [symmetric] by blast
  have ok': "layout_ok s'" using ok layout_ok_cong [OF s'(2,3)] by simp
  have k: "file_zones s (unat (i_size dir)) < 7" using small_file_zones_6 [OF d(2)] dir(3) by simp
  have k': "file_zones s' (unat (i_size (minix3_get_inode s' p))) < 7"
    using small_file_zones_6 [OF s'(5)] dir(3) s'(3,7) e(3) by simp
  have fi: "file_in s dir (file_zones s (unat (i_size dir)))"
      "file_in s' (minix3_get_inode s' p) (file_zones s' (unat (i_size (minix3_get_inode s' p))))"
    using d(2) s'(5) by (simp_all add: small_file_def)
  have bs: "bsz s' = bsz s" using s'(3) by simp
  have look: "name_from s' (minix3_get_inode s' p) fname 0 None = Some (Some (n, minix3_get_inode s' n))"
    using lookup_appended [OF ok ok' fi k k' bs d(4,5,3) s'(4) e(3) name(1,2) e(1) name(3)] by (simp add: e(2))
  have "is_directory (minix3_get_inode s' p)" using d(1) s'(6) by (simp add: is_directory_def)
  moreover have size: "unat (i_size (minix3_get_inode s' p)) = unat (i_size dir) + 64" using s'(7) e(3) by simp
  ultimately have dk: "dir_ok s' (minix3_get_inode s' p)" using d s'(5) bs by (simp add: dir_ok_def)
  have cd: "card (free_ahead s) \<le> card (free_ahead s') + 1" using s'(10) rm e(3) by simp
  show thesis by (rule that [OF s'(1-4) dk size look s'(8,14,9) cd s'(11-13,15)])
qed

text \<open>Creating a file or a directory.\<close>

lemma touch_common_in:
  assumes ok: "layout_ok s" "inodes_ok s" and p: "in_table s p" "minix3_is_inode_occupied s p"
    and dir: "dir = minix3_get_inode s p" "dir_ok s dir" "unat (i_size dir) + 64 \<le> 6 * bsz s"
    and name: "0 \<notin> set fname" "length fname \<le> 59"
      "minix3_get_inode_from_name s dir fname = Some (MX3_RETURN_CODE_NOT_FOUND, None)"
    and st: "ucast (first_data_zone (super s)) \<le> search_start s" "free_ahead s \<noteq> {}"
    and i: "test_available_inode_num s \<noteq> 0" "test_available_inode_num s \<le> m" "free_inode s m"
  obtains s' n where "minix3_touch_common s p fname f_mode u g = Some (s', 0)"
    "\<not> minix3_is_inode_occupied s n" "minix3_is_inode_occupied s' n" "in_table s n" "n \<noteq> p" "n \<noteq> 0"
    "minix3_get_inode s' n = new_inode f_mode u g"
    "name_from s' (minix3_get_inode s' p) fname 0 None = Some (Some (n, new_inode f_mode u g))"
    "super s' = super s" "mx3_block_size s' = mx3_block_size s" "dir_ok s' (minix3_get_inode s' p)"
    "unat (i_size (minix3_get_inode s' p)) = unat (i_size dir) + 64"
    "card (free_ahead s) \<le> card (free_ahead s') + 1" "ucast (first_data_zone (super s')) \<le> search_start s'"
    "minix3_is_inode_in_range s n" "contents s' (minix3_get_inode s' p) = contents s dir @ dir_entry_bytes n fname"
    "tail_zero s dir (file_zones s (unat (i_size dir))) \<longrightarrow>
       tail_zero s' (minix3_get_inode s' p) (file_zones s' (unat (i_size (minix3_get_inode s' p))))"
proof -
  let ?new = "new_inode f_mode u g"
  obtain n where n: "minix3_get_available_inode s = Some (s\<lparr>test_available_inode_num := n\<rparr>, n)" "free_inode s n"
    using take_inode [OF i] by blast
  define s1 where "s1 = s\<lparr>test_available_inode_num := n\<rparr>"
  define s2 where "s2 = fst (minix3_set_inode_occupied s1 n)"
  define s3 where "s3 = minix3_put_inode s2 n ?new"
  have su1: "super s1 = super s" "mx3_block_size s1 = mx3_block_size s" "mx_disk s1 = mx_disk s" by (simp_all add: s1_def)
  have same1: "same_files s s1" and g1: "minix3_get_inode s1 j = minix3_get_inode s j"
    and i1: "inodes_ok s1" "minix3_is_inode_in_range s1 j = minix3_is_inode_in_range s j" for j
    using ok(2) su1
    by (simp_all add: same_files_def data_zone_def minix3_is_zone_in_range_def minix3_is_zone_occupied_def bitmap_zone_def
        zmap_begin_def imap_begin_def minix3_get_inode_def inode_offset_def inodes_ok_def inodes_begin_def data_begin_def minix3_is_inode_in_range_def)
      (simp add: s1_def)
  have ok1: "layout_ok s1" using same_files(1) [OF ok(1) same1] .
  have nr: "minix3_is_inode_in_range s1 n" "n \<noteq> 0" using n(2) i1 inode_in_range(1) by (auto simp: free_inode_def)
  note S = set_inode_in [OF ok1 i1(1) nr(1) s2_def [unfolded minix3_set_inode_occupied_def]]
  have same2: "same_files s s2" by (rule same_files_trans [OF same1 S(1)])
  note F2 = same_files [OF ok(1) same2]
  have su2: "super s2 = super s" "mx3_block_size s2 = mx3_block_size s" using same2 by (simp_all add: same_files_def)
  have t: "in_table s n" using inode_in_range(3) [OF _ ok(2)] n(2) by (simp add: free_inode_def)
  have t2: "in_table s2 n" using t F2(5) by simp
  have l: "length (i_zones ?new) = 10" by (simp add: new_inode_def zero_inode_def)
  note P = put_inode_in [OF F2(1) t2 l s3_def]
  have same3: "same_files s s3" unfolding s3_def by (rule same_files_trans [OF same2 put_inode_same_files [OF F2(1) t2 l]])
  note F = same_files [OF ok(1) same3]
  have su3: "super s3 = super s" "mx3_block_size s3 = mx3_block_size s" using same3 by (simp_all add: same_files_def)
  have np: "n \<noteq> p" using n(2) p(2) by (auto simp: free_inode_def)
  have dir3: "dir = minix3_get_inode s3 p" using P(6) np S(2) g1 dir(1) by simp
  have d: "dir_ok s3 dir" using dir(2) F(6) su3 by (simp add: dir_ok_def)
  have isd: "is_directory dir" "small_file s dir" using dir(2) by (simp_all add: dir_ok_def)
  have "name_from s dir fname 0 None = Some None"
    using name(3) isd(1) by (auto simp: minix3_get_inode_from_name_def split: option.splits bind_splits if_splits)
  then have nf: "name_from s3 dir fname 0 None = Some None"
    using dir(2,3) by (intro name_not_found_same [OF ok(1) same3 isd(2)]) (simp_all add: dir_ok_def)
  have t3: "in_table s3 p" "in_table s3 n" using p(1) t F(5) by simp_all
  have len3: "unat (i_size dir) + 64 \<le> 6 * bsz s3" using dir(3) su3 by simp
  have st3: "ucast (first_data_zone (super s3)) \<le> search_start s3" "free_ahead s3 \<noteq> {}"
    using st F(2,3) su3 by simp_all
  obtain s' where s': "minix3_append_to_file s3 p (dir_entry_bytes n fname) = Some (s', 0)" "super s' = super s3"
    "mx3_block_size s' = mx3_block_size s3" "dir_ok s' (minix3_get_inode s' p)"
    "unat (i_size (minix3_get_inode s' p)) = unat (i_size dir) + 64"
    "name_from s' (minix3_get_inode s' p) fname 0 None = Some (Some (n, minix3_get_inode s' n))"
    "\<forall>a < zmap_begin s3. mx_disk s' a = mx_disk s3 a"
    "\<forall>j. j \<noteq> p \<and> in_table s3 j \<longrightarrow> minix3_get_inode s' j = minix3_get_inode s3 j"
    "card (free_ahead s3) \<le> card (free_ahead s') + 1" "ucast (first_data_zone (super s')) \<le> search_start s'"
    "contents s' (minix3_get_inode s' p) = contents s3 dir @ dir_entry_bytes n fname"
    "tail_zero s3 dir (file_zones s3 (unat (i_size dir))) \<longrightarrow>
       tail_zero s' (minix3_get_inode s' p) (file_zones s' (unat (i_size (minix3_get_inode s' p))))"
    by (rule append_entry_lookup [OF F(1) t3(1) dir3 d len3 name(1,2) nf st3 nr(2)]) (rule that, assumption+)
  have new: "minix3_get_inode s' n = ?new" using s'(8) t3(2) np P(5) by simp
  have occ: "minix3_is_inode_occupied s' n"
  proof -
    have zm: "zmap_begin s2 = zmap_begin s1" "zmap_begin s3 = zmap_begin s1" "zmap_begin s1 \<le> inodes_begin s2"
      using su1 su2 su3 ok1 by (simp_all add: zmap_begin_def inodes_begin_def)
    have "mx_disk s' a = mx_disk s2 a" if "a < zmap_begin s2" for a
      using s'(7) P(4) that zm by simp
    moreover have "inodes_ok s2"
      using i1(1) su1 su2 by (simp add: inodes_ok_def imap_begin_def zmap_begin_def inodes_begin_def data_begin_def)
    moreover have "minix3_is_inode_in_range s2 n"
      using nr(1) unfolding minix3_is_inode_in_range_def su1 su2 .
    ultimately show ?thesis
      using inode_occupied_cong [of s2 s' n] S(3) s'(2,3) su2 su3 by simp
  qed
  have "minix3_get_available_inode s = Some (s1, n)" using n(1) by (simp add: s1_def)
  then have run: "minix3_touch_common s p fname f_mode u g = Some (s', 0)"
    using name(3) isd(1) s'(1) by (simp add: minix3_touch_common_def Let_def s3_def s2_def flip: dir(1))
  have no: "\<not> minix3_is_inode_occupied s n" using n(2) by (simp add: free_inode_def)
  have zi: "zones_in s dir (file_zones s (unat (i_size dir)))" using isd(2) by (simp add: small_file_def file_in_def)
  have "tail_zero s3 dir k = tail_zero s dir k" if "k = file_zones s (unat (i_size dir))" for k
    unfolding that using same3 by (intro tail_zero_cong [OF ok(1) zi]) (simp_all add: same_files_def)
  note tz = this [OF refl]
  have rn: "minix3_is_inode_in_range s n" using n(2) by (simp add: free_inode_def)
  show thesis
    by (rule that [OF run no occ t np nr(2) new _ _ _ _ _ _ _ rn]) (use s' su3 F(3,4) F(7) [OF isd(2)] tz new in simp_all)
qed

text \<open>Creating a name again.\<close>

lemma touch_again:
  assumes "is_directory (minix3_get_inode s p)" "name_from s (minix3_get_inode s p) fname 0 None = Some (Some (n, f))"
  shows "minix3_touch_common s p fname f_mode u g = Some (s, 4)"
  using assms by (simp add: minix3_touch_common_def minix3_get_inode_from_name_def Let_def)

text \<open>
  C18: A file that was created is found: if no entry of a directory has the name, and an inode and a
  zone are free ahead of the searches, the call takes a free inode, and the next lookup of the name
  gives that inode, a fresh regular file. Creating the name again fails and changes nothing.
\<close>

theorem minix3_touch_then_lookup:
  assumes "layout_ok s" and "inodes_ok s" and "in_table s p" and "minix3_is_inode_occupied s p"
    and "dir = minix3_get_inode s p" and "dir_ok s dir" and "unat (i_size dir) + 64 \<le> 6 * bsz s"
    and "0 \<notin> set fname" and "length fname \<le> 59"
    and "minix3_get_inode_from_name s dir fname = Some (MX3_RETURN_CODE_NOT_FOUND, None)"
    and "ucast (first_data_zone (super s)) \<le> search_start s" and "free_ahead s \<noteq> {}"
    and "test_available_inode_num s \<noteq> 0" and "test_available_inode_num s \<le> m" and "free_inode s m"
  shows "\<exists>s' n. minix3_touch_reg s p fname = Some (s', 0) \<and>
    \<not> minix3_is_inode_occupied s n \<and> minix3_is_inode_occupied s' n \<and>
    minix3_get_inode_from_name s' (minix3_get_inode s' p) fname =
      Some (MX3_RETURN_CODE_NOT_DIRECTORY, Some (n, new_inode 0x81ff 0xd000 0xd000)) \<and>
    minix3_touch_reg s' p fname = Some (s', 4)"
proof -
  obtain s' n where s': "minix3_touch_common s p fname 0x81ff 0xd000 0xd000 = Some (s', 0)"
    "\<not> minix3_is_inode_occupied s n" "minix3_is_inode_occupied s' n"
    "name_from s' (minix3_get_inode s' p) fname 0 None = Some (Some (n, new_inode 0x81ff 0xd000 0xd000))"
    "dir_ok s' (minix3_get_inode s' p)"
    by (rule touch_common_in [OF assms(1-15)]) (rule that, assumption+)
  have d: "is_directory (minix3_get_inode s' p)" using s'(5) by (simp add: dir_ok_def)
  have "minix3_get_inode_from_name s' (minix3_get_inode s' p) fname =
      Some (MX3_RETURN_CODE_NOT_DIRECTORY, Some (n, new_inode 0x81ff 0xd000 0xd000))"
    using d s'(4) by (simp add: minix3_get_inode_from_name_def new_inode_def is_directory_def)
  then show ?thesis
    using s'(1-3) touch_again [OF d s'(4)] by (auto simp: minix3_touch_reg_def)
qed

text \<open>
  A file named \<open>a\<close> in a directory that is empty: the first inode of a small disk, made a directory;
  the search for inodes starts at the second.
\<close>

definition demo_fs_dir :: mx3 where
  "demo_fs_dir = \<lparr>mx_disk = demo_disk(2048 := 3, 4097 := 0x40), mx3_block_size = 1024, test_available_zone_num = 0,
     test_available_inode_num = 2, mx_junk = 0\<rparr>"

lemma demo_fs_dir:
  "layout_ok demo_fs_dir" "inodes_ok demo_fs_dir" "in_table demo_fs_dir 1" "minix3_is_inode_occupied demo_fs_dir 1"
  "dir_ok demo_fs_dir (minix3_get_inode demo_fs_dir 1)" "i_size (minix3_get_inode demo_fs_dir 1) = 0" "bsz demo_fs_dir = 1024"
  "minix3_get_inode_from_name demo_fs_dir (minix3_get_inode demo_fs_dir 1) [0x61] = Some (MX3_RETURN_CODE_NOT_FOUND, None)"
  "ucast (first_data_zone (super demo_fs_dir)) \<le> search_start demo_fs_dir" "3 \<le> card (free_ahead demo_fs_dir)"
  "test_available_inode_num demo_fs_dir = 2" "free_inode demo_fs_dir 3"
proof -
  let ?s = demo_fs_dir and ?d = "minix3_get_inode demo_fs_dir 1"
  have su: "super ?s = super demo_fs"
    unfolding super_def by (rule parse_superblock_cong) (simp add: demo_fs_dir_def demo_fs_def demo_disk_def)
  show f: "bsz ?s = 1024" "test_available_inode_num ?s = 2" by (simp_all add: demo_fs_dir_def)
  have bs: "mx3_block_size ?s = 1024" by (simp add: demo_fs_dir_def)
  have b: "inode_offset ?s 1 = 4096" "data_begin ?s = 6144" "zmap_begin ?s = 3072"
    "inodes_begin ?s = 4096" "imap_begin ?s = 2048"
    by (simp_all add: su demo_super inode_offset_def data_begin_def zmap_begin_def inodes_begin_def imap_begin_def bs)
  have "rd32 (mx_disk ?s) a = 0" if "4098 \<le> a" for a
    using that by (simp add: rd32_def demo_fs_dir_def demo_disk_def)
  moreover have "rd16 (mx_disk ?s) 4096 = 0x4000"
    by (simp add: rd16_def demo_fs_dir_def demo_disk_def push_bit_eq_mult)
  ultimately have d: "i_size ?d = 0" "i_zones ?d = replicate 10 0" "i_mode ?d = 0x4000"
    by (simp_all add: minix3_get_inode_def b parse_inode_def map_replicate_const)
  show "i_size ?d = 0" by (rule d(1))
  show l: "layout_ok ?s" "inodes_ok ?s" by (simp_all add: layout_ok_def inodes_ok_def b bs su demo_super)
  show "in_table ?s 1" by (simp add: in_table_def b)
  have o: "minix3_is_inode_occupied ?s 1" "\<not> minix3_is_inode_occupied ?s 3"
    by (simp_all add: minix3_is_inode_occupied_def map_bit_iff b)
      (simp_all add: demo_fs_dir_def demo_disk_def bit_iff_odd_drop_bit)
  show "minix3_is_inode_occupied ?s 1" by (rule o(1))
  show dk: "dir_ok ?s ?d"
    by (simp add: dir_ok_def is_directory_def d small_file_def file_in_def zones_in_def file_zones_def bs)
  have st: "search_start ?s = 6" by (simp add: search_start_def su demo_super) (simp add: demo_fs_dir_def)
  show "ucast (first_data_zone (super ?s)) \<le> search_start ?s" by (simp add: st su demo_super)
  have "free_zone ?s 7" "free_zone ?s 8" "free_zone ?s 9"
    unfolding free_zone_def minix3_is_zone_in_range_def minix3_is_zone_occupied_def bitmap_zone_def su demo_super map_bit_iff b
    by (simp_all add: demo_fs_dir_def demo_disk_def bit_iff_odd_drop_bit word_le_nat_alt)
  then have z: "{7, 8, 9} \<subseteq> free_ahead ?s" by (simp add: free_ahead_def st word_le_nat_alt)
  have "card {7, 8, 9 :: u32} = 3" by simp
  then show "3 \<le> card (free_ahead ?s)" using card_mono [OF _ z] by simp
  show "free_inode ?s 3" using o(2) by (simp add: free_inode_def minix3_is_inode_in_range_def su demo_super word_less_nat_alt)
  have "name_from ?s ?d [0x61] 0 None = Some None"
    using name_from_in [OF l(1), of ?d 0 0 "[0x61]" None] dk f
    by (simp add: dir_ok_def small_file_def d file_zones_def)
  then show "minix3_get_inode_from_name ?s ?d [0x61] = Some (MX3_RETURN_CODE_NOT_FOUND, None)"
    using dk by (simp add: minix3_get_inode_from_name_def dir_ok_def)
qed

theorem minix3_touch_then_lookup_witness:
  "\<exists>s' n. minix3_touch_reg demo_fs_dir 1 [0x61] = Some (s', 0) \<and>
    minix3_get_inode_from_name s' (minix3_get_inode s' 1) [0x61] =
      Some (MX3_RETURN_CODE_NOT_DIRECTORY, Some (n, new_inode 0x81ff 0xd000 0xd000))"
proof -
  note D = demo_fs_dir
  have ne: "free_ahead demo_fs_dir \<noteq> {}" using D(10) by auto
  have "\<exists>s' n. minix3_touch_reg demo_fs_dir 1 [0x61] = Some (s', 0) \<and>
    \<not> minix3_is_inode_occupied demo_fs_dir n \<and> minix3_is_inode_occupied s' n \<and>
    minix3_get_inode_from_name s' (minix3_get_inode s' 1) [0x61] =
      Some (MX3_RETURN_CODE_NOT_DIRECTORY, Some (n, new_inode 0x81ff 0xd000 0xd000)) \<and>
    minix3_touch_reg s' 1 [0x61] = Some (s', 4)"
    by (rule minix3_touch_then_lookup [OF D(1-4) refl D(5) _ _ _ D(8,9) ne _ _ D(12)]) (simp_all add: D(6,7,11) word_le_nat_alt)
  then show ?thesis by blast
qed

end
