(* ===== verification/Minix3_Remove.thy ===== *)
theory Minix3_Remove
  imports Minix3_Create
begin

text \<open>
  Removing a file: freeing its zones and its inode, and clearing its entry in the directory. What
  changes only the bitmaps is the relation \<open>bitmaps_only\<close>.
\<close>

section \<open>Freeing zones\<close>

definition bitmaps_only :: "mx3 \<Rightarrow> mx3 \<Rightarrow> bool" where
  "bitmaps_only s s' \<longleftrightarrow> super s' = super s \<and> mx3_block_size s' = mx3_block_size s \<and> (\<forall>a \<ge> inodes_begin s. mx_disk s' a = mx_disk s a)"

lemma bitmaps_only_same:
  assumes "bitmaps_only s s'"
  shows "layout_ok s' = layout_ok s" "inodes_ok s' = inodes_ok s" "zone_addr64 s' = zone_addr64 s" "data_begin s' = data_begin s"
    "inodes_begin s' = inodes_begin s" "file_zones s' = file_zones s" "mx3_block_size s' = mx3_block_size s"
    "minix3_is_zone_in_range s' = minix3_is_zone_in_range s" "minix3_is_inode_in_range s' = minix3_is_inode_in_range s"
    "inode_offset s' = inode_offset s" "in_table s' = in_table s"
  using assms
  by (simp_all add: bitmaps_only_def layout_ok_def inodes_ok_def zone_addr64_def data_begin_def inodes_begin_def zmap_begin_def
      imap_begin_def file_zones_def minix3_is_zone_in_range_def bitmap_zone_def minix3_is_inode_in_range_def inode_offset_def
      in_table_def fun_eq_iff)

lemma bitmaps_only_trans: "bitmaps_only s s1 \<Longrightarrow> bitmaps_only s1 s2 \<Longrightarrow> bitmaps_only s s2"
  using bitmaps_only_same(5) [of s s1] by (auto simp: bitmaps_only_def)

lemma bitmaps_only_inode: "bitmaps_only s s' \<Longrightarrow> minix3_get_inode s' j = minix3_get_inode s j"
  using bitmaps_only_same(10) [of s s'] inode_offset_begin [of s j]
  unfolding minix3_get_inode_def by (auto intro!: parse_inode_cong simp: bitmaps_only_def)

lemma clear_zone_bit:
  assumes ok: "layout_ok s" and z: "minix3_is_zone_in_range s z" and s': "s' = fst (minix3_set_zone_unoccupied s z)"
  shows "bitmaps_only s s'" "minix3_is_zone_occupied s' y = (y \<noteq> z \<and> minix3_is_zone_occupied s y)"
proof -
  have b: "31 \<le> bsz s" using ok by (simp add: layout_ok_def)
  have e: "minix3_set_zone_as s z False = (s', snd (minix3_set_zone_as s z False))"
    using s' by (simp add: minix3_set_zone_unoccupied_def)
  note c = minix3_set_zone_as_correct [OF b z e]
  show "minix3_is_zone_occupied s' y = (y \<noteq> z \<and> minix3_is_zone_occupied s y)" using c by auto
  have d: "s' = s\<lparr>mx_disk := mx_disk s'\<rparr>" using s'
    by (simp add: minix3_set_zone_unoccupied_def minix3_set_zone_as_def Let_def)
  have bs: "mx3_block_size s' = mx3_block_size s" by (subst d) simp
  have "unat (bitmap_zone s z div 8) \<le> unat (num_zones (super s)) div 8"
    using in_range_zone(2) [OF ok z] by (simp add: unat_div div_le_mono)
  then have "zmap_begin s + unat (bitmap_zone s z div 8) < inodes_begin s" using ok by (simp add: layout_ok_def)
  then have "mx_disk s' a = mx_disk s a" if "inodes_begin s \<le> a" for a using c that by (metis leD)
  then show "bitmaps_only s s'" using c bs by (simp add: bitmaps_only_def)
qed

lemma clear_ptrs_spec:
  assumes "layout_ok s" "\<And>z. z \<in> set zs \<Longrightarrow> z \<noteq> 0 \<Longrightarrow> minix3_is_zone_in_range s z"
  shows "bitmaps_only s (fst (clear_ptrs s zs rem)) \<and>
    (\<forall>y. minix3_is_zone_in_range s y \<longrightarrow>
       minix3_is_zone_occupied (fst (clear_ptrs s zs rem)) y = (y \<notin> set zs \<and> minix3_is_zone_occupied s y)) \<and>
    snd (clear_ptrs s zs rem) = after_zones s zs rem"
  using assms
proof (induction zs arbitrary: s rem)
  case Nil
  then show ?case by (simp add: bitmaps_only_def)
next
  case (Cons z zs)
  show ?case
  proof (cases "z = 0")
    case True
    then have nz: "minix3_is_zone_in_range s y \<Longrightarrow> y \<noteq> z" for y using in_range_zone(5) [OF Cons.prems(1)] by blast
    have "bitmaps_only s (fst (clear_ptrs s zs rem)) \<and>
      (\<forall>y. minix3_is_zone_in_range s y \<longrightarrow>
         minix3_is_zone_occupied (fst (clear_ptrs s zs rem)) y = (y \<notin> set zs \<and> minix3_is_zone_occupied s y)) \<and>
      snd (clear_ptrs s zs rem) = after_zones s zs rem"
      by (rule Cons.IH [OF Cons.prems(1)]) (use Cons.prems(2) in simp)
    then show ?thesis using True nz by simp
  next
    case False
    define s1 where "s1 = fst (minix3_set_zone_unoccupied s z)"
    note c = clear_zone_bit [OF Cons.prems(1) Cons.prems(2) [OF list.set_intros(1) False] s1_def]
    note e = bitmaps_only_same [OF c(1)]
    have az: "after_zones s1 zs r = after_zones s zs r" for r
      using e(7) by (induction zs arbitrary: r) (simp_all add: less_block_def)
    have IH: "bitmaps_only s1 (fst (clear_ptrs s1 zs (less_block s rem))) \<and>
      (\<forall>y. minix3_is_zone_in_range s1 y \<longrightarrow>
         minix3_is_zone_occupied (fst (clear_ptrs s1 zs (less_block s rem))) y = (y \<notin> set zs \<and> minix3_is_zone_occupied s1 y)) \<and>
      snd (clear_ptrs s1 zs (less_block s rem)) = after_zones s1 zs (less_block s rem)"
      by (rule Cons.IH) (use Cons.prems e in auto)
    then show ?thesis
      using False c(2) e(8) az bitmaps_only_trans [OF c(1)] by (auto simp flip: s1_def)
  qed
qed

text \<open>All zones of a small file are freed, and those of others stay.\<close>

definition only_its_zones :: "mx3 \<Rightarrow> mx3_inode \<Rightarrow> bool" where
  "only_its_zones s f \<longleftrightarrow> (\<forall>n < 7. file_zones s (unat (i_size f)) \<le> n \<longrightarrow> i_zones f ! n = 0)"

lemma clear_all_zones_small:
  assumes ok: "layout_ok s" and f: "small_file s f" "only_its_zones s f"
  defines "s' \<equiv> fst (minix3_clear_all_zones s f)"
  shows "bitmaps_only s s'"
    and "minix3_is_zone_in_range s y \<Longrightarrow> minix3_is_zone_occupied s' y = (y \<notin> set (take 7 (i_zones f)) \<and> minix3_is_zone_occupied s y)"
proof -
  let ?k = "file_zones s (unat (i_size f))" and ?zs = "take 7 (i_zones f)"
  have z: "zones_in s f ?k" using f(1) by (simp add: small_file_def file_in_def)
  have k7: "?k \<le> 7" and l: "length (i_zones f) = 10" and sz: "unat (i_size f) \<le> ?k * bsz s" using z by (simp_all add: zones_in_def)
  have first: "minix3_is_zone_in_range s (i_zones f ! n)" "i_zones f ! n \<noteq> 0" if "n < ?k" for n
    using z that in_range_zone(5) [OF ok] by (auto simp: zones_in_def data_zone_def)
  have "minix3_is_zone_in_range s x" if "x \<in> set ?zs" "x \<noteq> 0" for x
  proof -
    obtain n where "n < 7" "i_zones f ! n = x" using \<open>x \<in> set ?zs\<close> l by (auto simp: in_set_conv_nth)
    then show ?thesis using first(1) [of n] f(2) \<open>x \<noteq> 0\<close> by (cases "n < ?k") (auto simp: only_its_zones_def)
  qed
  note c = clear_ptrs_spec [OF ok this, of ?zs "i_size f"]
  have "after_zones s ?zs (i_size f) = after_zones s (drop ?k ?zs) (after_zones s (take ?k ?zs) (i_size f))"
    unfolding after_zones_append [symmetric] append_take_drop_id ..
  moreover have "0 \<notin> set (take ?k ?zs)" using first(2) k7 l by (auto simp: in_set_conv_nth)
  then have "unat (after_zones s (take ?k ?zs) (i_size f)) = 0" using after_zones_unat sz k7 l by (simp add: min_def)
  then have "after_zones s (take ?k ?zs) (i_size f) = 0" by (simp add: unat_eq_0)
  moreover have "unat (after_zones s zs 0) = 0" for zs
    by (induction zs) (simp_all add: less_block_def)
  then have "after_zones s zs 0 = 0" for zs by (simp add: unat_eq_0)
  ultimately have "snd (clear_ptrs s ?zs (i_size f)) = 0" using c by simp
  then have "s' = fst (clear_ptrs s ?zs (i_size f))"
    by (simp add: s'_def minix3_clear_all_zones_def case_prod_beta Let_def)
  then show "bitmaps_only s s'"
    and "minix3_is_zone_in_range s y \<Longrightarrow> minix3_is_zone_occupied s' y = (y \<notin> set ?zs \<and> minix3_is_zone_occupied s y)"
    using c by simp_all
qed

section \<open>Clearing an entry\<close>

definition cleared :: "nat \<Rightarrow> u8 list \<Rightarrow> u32 \<Rightarrow> u8 list" where
  "cleared n zone child =
     (case find (\<lambda>j. entry_inode zone j = child) [0..<n] of
        None \<Rightarrow> zone | Some j \<Rightarrow> take (64 * j) zone @ [0, 0, 0, 0] @ drop (64 * j + 4) zone)"

definition data_only :: "mx3 \<Rightarrow> mx3 \<Rightarrow> bool" where
  "data_only s s' \<longleftrightarrow> super s' = super s \<and> mx3_block_size s' = mx3_block_size s \<and>
     (\<forall>y. data_zone s' y = data_zone s y) \<and> (\<forall>a < data_begin s. mx_disk s' a = mx_disk s a)"

lemma data_only_same:
  assumes "data_only s s'"
  shows "layout_ok s' = layout_ok s" "zone_addr64 s' = zone_addr64 s" "data_begin s' = data_begin s"
    "mx3_block_size s' = mx3_block_size s" "dirs_per_block s' = dirs_per_block s" "file_in s' f k = file_in s f k"
    "file_zones s' = file_zones s"
  using assms
  by (simp_all add: data_only_def layout_ok_def zone_addr64_def data_begin_def inodes_begin_def zmap_begin_def
      dirs_per_block_def file_in_def zones_in_def file_zones_def fun_eq_iff)

lemma data_only_trans: "data_only s s1 \<Longrightarrow> data_only s1 s2 \<Longrightarrow> data_only s s2"
  using data_only_same(3) [of s s1] by (auto simp: data_only_def)

lemma nth_read_block: "x < bsz s \<Longrightarrow> read_block s a ! x = mx_disk s (a + x)"
  by (simp add: read_block_def disk_read_def)

lemma read_block_cong:
  assumes "bsz s' = bsz s" "\<And>x. x < bsz s \<Longrightarrow> mx_disk s' (a + x) = mx_disk s (a + x)"
  shows "read_block s' a = read_block s a"
  by (rule nth_equalityI) (use assms in \<open>simp_all add: nth_read_block\<close>)

lemma entry_room: "64 dvd bsz s \<Longrightarrow> j < dirs_per_block s \<Longrightarrow> 64 * j + 64 \<le> bsz s"
  by (auto simp: dirs_per_block_def elim!: dvdE)

lemma clear_entry_in:
  assumes ok: "layout_ok s" and z: "data_zone s z" and d: "64 dvd bsz s"
    and s': "s' = clear_entry s (zone_addr64 s z) child"
  shows "data_only s s'" "read_block s' (zone_addr64 s z) = cleared (dirs_per_block s) (read_block s (zone_addr64 s z)) child"
    and "y \<noteq> z \<Longrightarrow> x < bsz s \<Longrightarrow> mx_disk s' (zone_addr64 s y + x) = mx_disk s (zone_addr64 s y + x)"
proof -
  let ?zone = "read_block s (zone_addr64 s z)"
  have "data_only s s' \<and> read_block s' (zone_addr64 s z) = cleared (dirs_per_block s) ?zone child \<and>
    (y \<noteq> z \<longrightarrow> x < bsz s \<longrightarrow> mx_disk s' (zone_addr64 s y + x) = mx_disk s (zone_addr64 s y + x))"
  proof (cases "find (\<lambda>j. entry_inode ?zone j = child) [0..<dirs_per_block s]")
    case None
    then show ?thesis by (simp add: s' clear_entry_def cleared_def data_only_def)
  next
    case (Some j)
    then have "j < dirs_per_block s" by (auto simp: find_Some_iff)
    note r = entry_room [OF d this]
    define ws where "ws = [0, 0, 0, 0] @ take 60 (drop (64 * j + 4) ?zone)"
    have l: "length ws = 64" using r by (simp add: ws_def)
    have w: "64 * j + length ws \<le> bsz s" using r l by simp
    have s1: "s' = s\<lparr>mx_disk := disk_write (mx_disk s) (zone_addr64 s z + 64 * j) ws\<rparr>"
      using Some by (simp add: s' clear_entry_def ws_def)
    note W = write_zone [OF ok z w s1]
    have "read_block s' (zone_addr64 s z) = take (64 * j) ?zone @ [0, 0, 0, 0] @ drop (64 * j + 4) ?zone"
    proof (rule nth_equalityI)
      show "length (read_block s' (zone_addr64 s z)) = length (take (64 * j) ?zone @ [0, 0, 0, 0] @ drop (64 * j + 4) ?zone)"
        using r W(2) by simp
      fix i assume "i < length (read_block s' (zone_addr64 s z))"
      then have i: "i < bsz s" using W(2) by simp
      have n: "?zone ! i = mx_disk s (zone_addr64 s z + i)" "read_block s' (zone_addr64 s z) ! i = mx_disk s' (zone_addr64 s z + i)"
        using i W(2) by (simp_all add: nth_read_block)
      have old: "(take (64 * j) ?zone @ [0, 0, 0, 0] @ drop (64 * j + 4) ?zone) ! i = ?zone ! i" if "i < 64 * j \<or> 64 * j + 4 \<le> i"
        using that i r by (auto simp: nth_append)
      consider "i < 64 * j \<or> 64 * j + 64 \<le> i" | "64 * j \<le> i" "i < 64 * j + 4" | "64 * j + 4 \<le> i" "i < 64 * j + 64" by linarith
      then show "read_block s' (zone_addr64 s z) ! i = (take (64 * j) ?zone @ [0, 0, 0, 0] @ drop (64 * j + 4) ?zone) ! i"
      proof cases
        case 1
        then show ?thesis using W(5) [OF i, of z] old n l by auto
      next
        case 2
        then have q: "i - 64 * j < length [0, 0, 0, 0 :: u8]" by simp
        then have "ws ! (i - 64 * j) = [0, 0, 0, 0] ! (i - 64 * j)" unfolding ws_def nth_append by (rule if_P)
        moreover have "(take (64 * j) ?zone @ [0, 0, 0, 0] @ drop (64 * j + 4) ?zone) ! i = [0, 0, 0, 0] ! (i - 64 * j)"
          using 2 r q by (simp only: nth_append [of "take (64 * j) ?zone"] nth_append [of "[0, 0, 0, 0]"]) simp
        ultimately show ?thesis using W(5) [OF i, of z] n l 2 by simp
      next
        case 3
        then have "\<not> i - 64 * j < length [0, 0, 0, 0 :: u8]" by simp
        then have "ws ! (i - 64 * j) = take 60 (drop (64 * j + 4) ?zone) ! (i - 64 * j - length [0, 0, 0, 0 :: u8])"
          unfolding ws_def nth_append by (rule if_not_P)
        also have "\<dots> = ?zone ! i" using i 3 by simp
        finally have "ws ! (i - 64 * j) = ?zone ! i" .
        then show ?thesis using W(5) [OF i, of z] old n l 3 by simp
      qed
    qed
    then show ?thesis
      using Some W(1-4) W(5) [of x y] by (simp add: cleared_def data_only_def)
  qed
  then show "data_only s s'" "read_block s' (zone_addr64 s z) = cleared (dirs_per_block s) ?zone child"
    and "y \<noteq> z \<Longrightarrow> x < bsz s \<Longrightarrow> mx_disk s' (zone_addr64 s y + x) = mx_disk s (zone_addr64 s y + x)" by blast+
qed

lemma clear_entries_in:
  assumes "layout_ok s" "file_in s dir k" and k: "k < 7" and "bsz s \<le> 4096" "64 dvd bsz s" "i \<le> k"
  shows "\<exists>s'. clear_entries_from s dir child i = Some s' \<and> data_only s s' \<and>
    (\<forall>n < k. block_of s' dir n = (if i \<le> n then cleared (dirs_per_block s) (block_of s dir n) child else block_of s dir n)) \<and>
    (\<forall>y x. y \<notin> set (take k (i_zones dir)) \<and> x < bsz s \<longrightarrow> mx_disk s' (zone_addr64 s y + x) = mx_disk s (zone_addr64 s y + x))"
  using assms(1,2,4-6)
proof (induction "k - i" arbitrary: s i)
  case 0
  then have "i = k" by simp
  moreover obtain rem where "minix3_gzbars s dir (of_nat k) = Some (zone_addr64 s (i_zones dir ! k), rem)" "rem = 0"
    using gzbars_in [OF 0(2,3), of k] k by auto
  ultimately show ?case by (intro exI [of _ s]) (simp add: clear_entries_from.simps data_only_def)
next
  case (Suc m)
  note ok = Suc.prems(1) and f = Suc.prems(2) and d = Suc.prems(4)
  have i: "i < k" and m: "m = k - (i + 1)" using Suc.hyps(2) by simp_all
  obtain rem where g: "minix3_gzbars s dir (of_nat i) = Some (zone_addr64 s (i_zones dir ! i), rem)" "rem \<noteq> 0"
    using gzbars_in [OF ok f, of i] i k by auto
  have l: "length (i_zones dir) = 10" and dist: "distinct (take k (i_zones dir))" and dz: "data_zone s (i_zones dir ! i)"
    using f i by (simp_all add: file_in_def zones_in_def)
  define s1 where "s1 = clear_entry s (zone_addr64 s (i_zones dir ! i)) child"
  note c = clear_entry_in [OF ok dz d s1_def]
  note e = data_only_same [OF c(1)]
  have a: "zone_addr64 s (i_zones dir ! i) \<noteq> 0" using in_range_zone(6) [OF ok] dz by (simp add: data_zone_def)
  have "i < unat (minix3_get_file_max_zones (mx3_block_size s))" using max_zones_ge [OF Suc.prems(3)] i k by simp
  then have step: "clear_entries_from s dir child i = clear_entries_from s1 dir child (i + 1)"
    using g a by (subst clear_entries_from.simps) (simp add: s1_def)
  obtain s' where s': "clear_entries_from s1 dir child (i + 1) = Some s'" "data_only s1 s'"
    "\<forall>n < k. block_of s' dir n = (if i + 1 \<le> n then cleared (dirs_per_block s1) (block_of s1 dir n) child else block_of s1 dir n)"
    "\<forall>y x. y \<notin> set (take k (i_zones dir)) \<and> x < bsz s1 \<longrightarrow> mx_disk s' (zone_addr64 s1 y + x) = mx_disk s1 (zone_addr64 s1 y + x)"
    using Suc.hyps(1) [OF m, of s1] ok f Suc.prems(3) d i e by auto
  have b1: "block_of s1 dir n = (if n = i then cleared (dirs_per_block s) (block_of s dir n) child else block_of s dir n)"
    if "n < k" for n
  proof (cases "n = i")
    case True
    then show ?thesis using c(2) e by simp
  next
    case False
    then have "i_zones dir ! n \<noteq> i_zones dir ! i"
      using dist that i k l nth_eq_iff_index_eq [of "take k (i_zones dir)" n i] by simp
    then have "block_of s1 dir n = block_of s dir n" unfolding e(2) by (intro read_block_cong) (simp_all add: e c(3))
    then show ?thesis using False e by simp
  qed
  have "i_zones dir ! i \<in> set (take k (i_zones dir))" using i l k by (auto simp: in_set_conv_nth)
  then have o: "mx_disk s' (zone_addr64 s y + x) = mx_disk s (zone_addr64 s y + x)"
    if "y \<notin> set (take k (i_zones dir))" "x < bsz s" for y x
    using s'(4) c(3) [of y x] that e by auto
  have "block_of s' dir n = (if i \<le> n then cleared (dirs_per_block s) (block_of s dir n) child else block_of s dir n)"
    if "n < k" for n
  proof -
    consider "n < i" | "n = i" | "Suc i \<le> n" by linarith
    then show ?thesis
      using s'(3) [rule_format, OF that] b1 [OF that] data_only_same(2) [OF s'(2)] e by cases simp_all
  qed
  then show ?case using step s'(1) data_only_trans [OF c(1) s'(2)] o by auto
qed

section \<open>Removing a file\<close>

lemma nth_cleared:
  assumes "find (\<lambda>j. entry_inode zone j = child) [0..<d] = Some j" "64 * j + 64 \<le> length zone" "x < length zone"
  shows "cleared d zone child ! x = (if 64 * j \<le> x \<and> x < 64 * j + 4 then 0 else zone ! x)"
proof -
  have z: "[0, 0, 0, 0] ! q = (0 :: u8)" if "q < 4" for q
  proof -
    have "[0, 0, 0, 0 :: u8] = replicate 4 0" by (simp add: numeral_eq_Suc)
    then show ?thesis using that by simp
  qed
  consider "x < 64 * j" | "64 * j \<le> x" "x < 64 * j + 4" | "64 * j + 4 \<le> x" by linarith
  then show ?thesis
  proof cases
    case 2
    then have q: "x - 64 * j < 4" by simp
    then have "([0, 0, 0, 0] @ drop (64 * j + 4) zone) ! (x - 64 * j) = [0, 0, 0, 0 :: u8] ! (x - 64 * j)"
      unfolding nth_append by (intro if_P) simp
    then have "(take (64 * j) zone @ [0, 0, 0, 0] @ drop (64 * j + 4) zone) ! x = 0"
      using 2 assms(2) z [OF q] by (simp add: nth_append [of "take (64 * j) zone"] min_def del: append.simps)
    then show ?thesis using 2 assms(1) by (simp add: cleared_def)
  qed (use assms in \<open>simp_all add: cleared_def nth_append\<close>)
qed

lemma length_cleared:
  assumes "\<And>j. j < d \<Longrightarrow> 64 * j + 64 \<le> length zone"
  shows "length (cleared d zone child) = length zone"
proof (cases "find (\<lambda>j. entry_inode zone j = child) [0..<d]")
  case (Some j)
  then have "64 * j + 64 \<le> length zone" by (intro assms) (auto simp: find_Some_iff)
  then show ?thesis using Some by (simp add: cleared_def)
qed (simp add: cleared_def)

lemma find_cleared:
  assumes name: "0 \<notin> set name" "length name \<le> 59" and d: "64 dvd bsz s" "length zone = bsz s"
    and only: "\<And>j. j < dirs_per_block s \<Longrightarrow> entry_matches (take 64 (drop (64 * j) zone)) name \<Longrightarrow>
      find (\<lambda>j. entry_inode zone j = child) [0..<dirs_per_block s] = Some j"
  shows "find_entry s (cleared (dirs_per_block s) zone child) name = None"
proof -
  let ?z = "cleared (dirs_per_block s) zone child"
  have room: "64 * j + 64 \<le> length zone" if "j < dirs_per_block s" for j using entry_room [OF d(1) that] d(2) by simp
  have l: "length ?z = length zone" by (rule length_cleared [OF room])
  have "\<not> entry_matches (take 64 (drop (64 * j) ?z)) name" if j: "j < dirs_per_block s" for j
  proof (cases "find (\<lambda>j. entry_inode zone j = child) [0..<dirs_per_block s]")
    case None
    then have "?z = zone" by (simp add: cleared_def)
    then show ?thesis using only [OF j] None by auto
  next
    case (Some j0)
    then have "j0 < dirs_per_block s" by (auto simp: find_Some_iff)
    note n = nth_cleared [OF Some room [OF this]]
    show ?thesis
    proof (cases "j = j0")
      case True
      have "take 64 (drop (64 * j) ?z) ! k = 0" if "k < 4" for k
        using n [of "64 * j + k"] that room [OF j] l True by simp
      then have "rd32 (\<lambda>a. take 64 (drop (64 * j) ?z) ! a) 0 = 0" by (simp add: rd32_def)
      then show ?thesis by (simp add: entry_matches_def)
    next
      case False
      have "take 64 (drop (64 * j) ?z) = take 64 (drop (64 * j) zone)"
      proof (rule nth_equalityI)
        fix k assume "k < length (take 64 (drop (64 * j) ?z))"
        then have "64 * j + k < length zone" "\<not> (64 * j0 \<le> 64 * j + k \<and> 64 * j + k < 64 * j0 + 4)" "k < 64"
          using l False by auto
        then show "take 64 (drop (64 * j) ?z) ! k = take 64 (drop (64 * j) zone) ! k"
          using n [of "64 * j + k"] l by auto
      qed (simp add: l)
      then show ?thesis using only [OF j] Some False by auto
    qed
  qed
  then show ?thesis using find_entry_none [OF name d(1), of ?z] l d(2) by simp
qed

text \<open>
  The entries with the name are those of the child, which has no other entry before one of them in
  the same block.
\<close>

definition only_entry :: "mx3 \<Rightarrow> mx3_inode \<Rightarrow> u32 \<Rightarrow> u8 list \<Rightarrow> bool" where
  "only_entry s dir child name \<longleftrightarrow>
     (\<forall>i < file_zones s (unat (i_size dir)). \<forall>j < dirs_per_block s.
        entry_inode (block_of s dir i) j \<noteq> 0 \<and> entry_name (block_of s dir i) j = name \<longrightarrow>
        entry_inode (block_of s dir i) j = child \<and> (\<forall>j' < j. entry_inode (block_of s dir i) j' \<noteq> child))"

lemma only_entry_find:
  assumes "only_entry s dir child name" "0 \<notin> set name" "length name \<le> 59" "64 dvd bsz s"
    and "i < file_zones s (unat (i_size dir))" "j < dirs_per_block s"
    and "entry_matches (take 64 (drop (64 * j) (block_of s dir i))) name"
  shows "find (\<lambda>j. entry_inode (block_of s dir i) j = child) [0..<dirs_per_block s] = Some j"
proof -
  have "64 * j + 64 \<le> length (block_of s dir i)" using entry_room [OF assms(4,6)] by simp
  then have "entry_inode (block_of s dir i) j \<noteq> 0 \<and> entry_name (block_of s dir i) j = name"
    using entry_matches_zone [OF assms(2,3)] assms(7) by simp
  then have "entry_inode (block_of s dir i) j = child \<and> (\<forall>j' < j. entry_inode (block_of s dir i) j' \<noteq> child)"
    using assms(1) [unfolded only_entry_def, rule_format, OF assms(5,6)] by blast
  then show ?thesis unfolding find_Some_iff using assms(6) by (intro exI [of _ j]) auto
qed

lemma free_file:
  assumes ok: "layout_ok s" and f: "small_file s f" "only_its_zones s f"
  defines "s' \<equiv> (if i_size f > 0 then fst (minix3_clear_all_zones s f) else s)"
  shows "bitmaps_only s s'"
    and "minix3_is_zone_in_range s y \<Longrightarrow> minix3_is_zone_occupied s' y = (y \<notin> set (take 7 (i_zones f)) \<and> minix3_is_zone_occupied s y)"
proof -
  have "bitmaps_only s s' \<and> (minix3_is_zone_in_range s y \<longrightarrow>
    minix3_is_zone_occupied s' y = (y \<notin> set (take 7 (i_zones f)) \<and> minix3_is_zone_occupied s y))"
  proof (cases "i_size f > 0")
    case True
    then show ?thesis using clear_all_zones_small [OF ok f] by (simp add: s'_def)
  next
    case False
    then have "i_size f = 0" by (simp add: word_gt_0)
    then have "file_zones s (unat (i_size f)) = 0" using ok by (auto simp: file_zones_def layout_ok_def)
    moreover have "length (i_zones f) = 10" using f(1) by (simp add: small_file_def file_in_def zones_in_def)
    ultimately have "x = 0" if "x \<in> set (take 7 (i_zones f))" for x
      using that f(2) by (auto simp: in_set_conv_nth only_its_zones_def)
    then have "y \<notin> set (take 7 (i_zones f))" if "minix3_is_zone_in_range s y"
      using in_range_zone(5) [OF ok that] by blast
    then show ?thesis using False by (auto simp: s'_def bitmaps_only_def)
  qed
  then show "bitmaps_only s s'"
    and "minix3_is_zone_in_range s y \<Longrightarrow> minix3_is_zone_occupied s' y = (y \<notin> set (take 7 (i_zones f)) \<and> minix3_is_zone_occupied s y)"
    by blast+
qed

text \<open>The entries of a directory after the bitmaps have changed, and after the entry has been cleared.\<close>

lemma clear_entry_lookup:
  assumes ok: "layout_ok s" and b: "bitmaps_only s s2" and dir: "dir_ok s dir" "unat (i_size dir) \<le> 6 * bsz s"
    and dz: "\<And>m. m < file_zones s (unat (i_size dir)) \<Longrightarrow> data_zone s2 (i_zones dir ! m)"
    and name: "0 \<notin> set name" "length name \<le> 59" and only: "only_entry s dir child name"
  shows "\<exists>s3. clear_entries_from s2 dir child 0 = Some s3 \<and> data_only s2 s3 \<and> name_from s3 dir name 0 None = Some None \<and>
    (\<forall>y x. y \<notin> set (take 7 (i_zones dir)) \<and> x < bsz s \<longrightarrow> mx_disk s3 (zone_addr64 s y + x) = mx_disk s2 (zone_addr64 s y + x))"
proof -
  let ?k = "file_zones s (unat (i_size dir))"
  have d: "small_file s dir" "64 dvd bsz s" "bsz s \<le> 4096" using dir(1) by (simp_all add: dir_ok_def)
  have k: "?k < 7" by (rule small_file_zones_6 [OF d(1) dir(2)])
  note e = bitmaps_only_same [OF b]
  have fi: "file_in s dir ?k" using d(1) by (simp add: small_file_def)
  then have fi2: "file_in s2 dir ?k" using dz e(7) by (simp add: file_in_def zones_in_def)
  have ok2: "layout_ok s2" using ok e by simp
  have dp: "dirs_per_block s2 = dirs_per_block s" using e(7) by (simp add: dirs_per_block_def)
  have blk: "block_of s2 dir n = block_of s dir n" if "n < ?k" for n
  proof -
    have "data_zone s (i_zones dir ! n)" using fi that by (simp add: file_in_def zones_in_def)
    then have "inodes_begin s \<le> zone_addr64 s (i_zones dir ! n)"
      using in_range_zone(4) [OF ok] ok by (force simp: data_zone_def layout_ok_def)
    then show ?thesis using b unfolding e(3) by (intro read_block_cong) (simp_all add: bitmaps_only_def)
  qed
  obtain s3 where s3: "clear_entries_from s2 dir child 0 = Some s3" "data_only s2 s3"
    "\<forall>n < ?k. block_of s3 dir n = cleared (dirs_per_block s2) (block_of s2 dir n) child"
    "\<forall>y x. y \<notin> set (take ?k (i_zones dir)) \<and> x < bsz s2 \<longrightarrow> mx_disk s3 (zone_addr64 s2 y + x) = mx_disk s2 (zone_addr64 s2 y + x)"
    using clear_entries_in [OF ok2 fi2 k, of 0 child] d e(7) by auto
  note e3 = data_only_same [OF s3(2)]
  have "find_entry s3 (block_of s3 dir n) name = None" if n: "n < ?k" for n
  proof -
    have "block_of s3 dir n = cleared (dirs_per_block s) (block_of s dir n) child" using s3(3) n blk [OF n] dp by simp
    moreover have "find_entry s (cleared (dirs_per_block s) (block_of s dir n) child) name = None"
      by (rule find_cleared [OF name d(2) length_read_block]) (rule only_entry_find [OF only name d(2) n])
    moreover have "find_entry s3 z name = find_entry s z name" for z using e3(5) dp by (simp add: find_entry_def)
    ultimately show ?thesis by simp
  qed
  then have "fold (found_in s3 dir name) [0..<?k] None = None" by (simp add: found_none)
  then have "name_from s3 dir name 0 None = Some None"
    using name_from_in [of s3 dir ?k 0 name None] ok2 fi2 k d(3) e(7) e3 by simp
  moreover have "set (take ?k (i_zones dir)) \<subseteq> set (take 7 (i_zones dir))" using k by (intro set_take_subset_set_take) simp
  ultimately show ?thesis using s3(1,2,4) e by auto
qed

text \<open>Freeing an inode and clearing its entry, when its zones are free already.\<close>

lemma unlink_in:
  assumes ok: "layout_ok s" "inodes_ok s" and b1: "bitmaps_only s s1"
    and Z: "\<forall>y. minix3_is_zone_in_range s y \<longrightarrow> minix3_is_zone_occupied s1 y = (y \<notin> Z \<and> minix3_is_zone_occupied s y)"
    and c: "minix3_is_inode_in_range s child"
    and dir: "dir_ok s dir" "unat (i_size dir) \<le> 6 * bsz s" "\<forall>m < file_zones s (unat (i_size dir)). i_zones dir ! m \<notin> Z"
    and name: "0 \<notin> set name" "length name \<le> 59" and only: "only_entry s dir child name"
  obtains s3 where "clear_entries_from (fst (minix3_set_inode_unoccupied s1 child)) dir child 0 = Some s3"
    "super s3 = super s" "mx3_block_size s3 = mx3_block_size s" "name_from s3 dir name 0 None = Some None"
    "\<not> minix3_is_inode_occupied s3 child" "\<forall>y. data_zone s3 y = (y \<notin> Z \<and> data_zone s y)"
    "\<forall>z. minix3_is_zone_in_range s z \<longrightarrow> minix3_is_zone_occupied s3 z = (z \<notin> Z \<and> minix3_is_zone_occupied s z)"
    "\<forall>j. in_table s j \<longrightarrow> minix3_get_inode s3 j = minix3_get_inode s j"
    "\<forall>y x. minix3_is_zone_in_range s y \<and> y \<notin> set (take 7 (i_zones dir)) \<and> x < bsz s \<longrightarrow>
       mx_disk s3 (zone_addr64 s y + x) = mx_disk s (zone_addr64 s y + x)"
proof -
  define s2 where "s2 = fst (minix3_set_inode_as s1 child False)"
  note e1 = bitmaps_only_same [OF b1]
  have ok1: "layout_ok s1" "inodes_ok s1" "minix3_is_inode_in_range s1 child" using ok c e1 by simp_all
  note I = set_inode_in [OF ok1 s2_def]
  have b12: "bitmaps_only s1 s2"
    using I(1,4) ok1(1) by (simp add: bitmaps_only_def same_files_def layout_ok_def inodes_begin_def)
  have b: "bitmaps_only s s2" by (rule bitmaps_only_trans [OF b1 b12])
  note e = bitmaps_only_same [OF b]
  have occ: "data_zone s2 z = (z \<notin> Z \<and> data_zone s z)" for z
    using I(1) Z e1(8) by (auto simp: same_files_def data_zone_def)
  have "data_zone s2 (i_zones dir ! m)" if "m < file_zones s (unat (i_size dir))" for m
    using occ that dir(1,3) by (simp add: dir_ok_def small_file_def file_in_def zones_in_def)
  then obtain s3 where s3: "clear_entries_from s2 dir child 0 = Some s3" "data_only s2 s3"
    "name_from s3 dir name 0 None = Some None"
    "\<forall>y x. y \<notin> set (take 7 (i_zones dir)) \<and> x < bsz s \<longrightarrow> mx_disk s3 (zone_addr64 s y + x) = mx_disk s2 (zone_addr64 s y + x)"
    using clear_entry_lookup [OF ok(1) b dir(1,2) _ name only] by blast
  have e3: "super s3 = super s2" "mx3_block_size s3 = mx3_block_size s2" "\<And>a. a < data_begin s \<Longrightarrow> mx_disk s3 a = mx_disk s2 a"
    "\<And>y. data_zone s3 y = data_zone s2 y" using s3(2) e(4) by (simp_all add: data_only_def)
  have su: "super s3 = super s" "mx3_block_size s3 = mx3_block_size s" using e3(1,2) b by (simp_all add: bitmaps_only_def)
  have inode: "minix3_get_inode s3 j = minix3_get_inode s j" if "in_table s j" for j
  proof -
    have "inode_offset s3 j = inode_offset s2 j" using e3 by (simp add: inode_offset_def)
    then have "minix3_get_inode s3 j = minix3_get_inode s2 j"
      unfolding minix3_get_inode_def using that e3(3) e(10) by (auto intro!: parse_inode_cong simp: in_table_def)
    then show ?thesis using bitmaps_only_inode [OF b] by simp
  qed
  have run: "clear_entries_from (fst (minix3_set_inode_unoccupied s1 child)) dir child 0 = Some s3"
    using s3(1) by (simp add: s2_def minix3_set_inode_unoccupied_def)
  have free: "\<not> minix3_is_inode_occupied s3 child"
  proof -
    have "layout_ok s2" using ok(1) e(1) by simp
    then have "zmap_begin s2 \<le> data_begin s2" by (simp add: layout_ok_def)
    then have z: "zmap_begin s2 \<le> data_begin s" using e(4) by simp
    have "minix3_is_inode_occupied s3 child = minix3_is_inode_occupied s2 child"
      by (rule inode_occupied_cong) (use e e3 z ok(2) c in simp_all)
    then show ?thesis using I(3) by simp
  qed
  have zones: "minix3_is_zone_occupied s3 z = (z \<notin> Z \<and> minix3_is_zone_occupied s z)"
    if "minix3_is_zone_in_range s z" for z
  proof -
    have "minix3_is_zone_in_range s3 z" using that e(8) e3(1) by (metis minix3_is_zone_in_range_def bitmap_zone_def)
    then show ?thesis using occ [of z] e3(4) [of z] that by (simp add: data_zone_def)
  qed
  have bytes: "mx_disk s3 (zone_addr64 s y + x) = mx_disk s (zone_addr64 s y + x)"
    if y: "minix3_is_zone_in_range s y" "y \<notin> set (take 7 (i_zones dir))" "x < bsz s" for y x
  proof -
    have "inodes_begin s \<le> zone_addr64 s y + x" using in_range_zone(4) [OF ok(1) y(1)] ok(1) by (simp add: layout_ok_def)
    then show ?thesis using s3(4) y b by (simp add: bitmaps_only_def)
  qed
  show thesis by (rule that [OF run su s3(3) free]) (use e3(4) occ zones inode bytes in simp_all)
qed


text \<open>
  A disk whose root directory (inode 1, zone 6) has an entry \<open>a\<close> for inode 2, an empty regular file.
\<close>

definition demo_fs_rm :: mx3 where
  "demo_fs_rm = \<lparr>mx_disk = demo_disk(2048 := 3, 4097 := 0x40, 4104 := 64, 4120 := 6, 4160 := 0xff, 4161 := 0x81,
     6144 := 2, 6148 := 0x61), mx3_block_size = 1024, test_available_zone_num = 0, test_available_inode_num = 2, mx_junk = 0\<rparr>"


end
