(* ===== verification/Minix3_Mkdir.thy ===== *)
theory Minix3_Mkdir
  imports Minix3_Remove
begin

text \<open>
  Making a directory: the lookup of a name as a property of the directory's contents, how a lookup
  survives changes elsewhere on the disk, and \<open>minix3_mkdir\<close> followed by lookups in the parent and
  in the new directory.
\<close>

section \<open>Lookup on the contents\<close>

text \<open>The entry of 64 bytes with the index \<open>m\<close>.\<close>

abbreviation (input) entry_of :: "mx3 \<Rightarrow> mx3_inode \<Rightarrow> nat \<Rightarrow> u8 list" where
  "entry_of s dir m \<equiv> take 64 (drop (64 * m) (contents s dir))"

lemma entry_fits: "64 * m < z \<Longrightarrow> 64 dvd z \<Longrightarrow> 64 * m + 64 \<le> (z :: nat)"
  by (auto elim!: dvdE)

lemma block_entry_matches:
  assumes ok: "layout_ok s" and z: "zones_in s f k" and t: "tail_zero s f k"
    and d: "64 dvd unat (i_size f)" "64 dvd bsz s" and i: "i < k" and j: "j < dirs_per_block s"
  shows "entry_matches (take 64 (drop (64 * j) (block_of s f i))) name \<longleftrightarrow>
    i * bsz s + 64 * j < unat (i_size f) \<and> entry_matches (entry_of s f (i * dirs_per_block s + j)) name"
proof (cases "i * bsz s + 64 * j < unat (i_size f)")
  case True
  obtain B where B: "bsz s = 64 * B" using d(2) by auto
  have at: "i * bsz s + 64 * j = 64 * (i * B + j)" using B by (simp add: algebra_simps)
  from True have "i * bsz s + 64 * j + 64 \<le> unat (i_size f)" unfolding at by (rule entry_fits [OF _ d(1)])
  from block_entry(1) [OF ok z this entry_room [OF d(2) j]]
  have "take 64 (drop (64 * j) (block_of s f i)) = take 64 (drop (i * bsz s + 64 * j) (contents s f))" .
  moreover have "i * bsz s + 64 * j = 64 * (i * dirs_per_block s + j)" using B by (simp add: dirs_per_block_def algebra_simps)
  ultimately show ?thesis using True by simp
next
  case False
  have r: "64 * j + 64 \<le> bsz s" by (rule entry_room [OF d(2) j])
  have "take 64 (drop (64 * j) (block_of s f i)) ! a = 0" if "a < 4" for a
  proof -
    have x: "64 * j + a < bsz s" using r that by simp
    have "Suc i * bsz s \<le> k * bsz s" using i by (intro mult_le_mono1) simp
    then have "i * bsz s + (64 * j + a) < k * bsz s" using x by simp
    moreover have "(i * bsz s + (64 * j + a)) div bsz s = i" "(i * bsz s + (64 * j + a)) mod bsz s = 64 * j + a"
      using x by simp_all
    moreover have "unat (i_size f) \<le> i * bsz s + (64 * j + a)" using False by simp
    ultimately have "mx_disk s (zone_addr64 s (i_zones f ! i) + (64 * j + a)) = 0"
      using t unfolding tail_zero_def by metis
    then show ?thesis using x that r by (simp add: nth_read_block)
  qed
  then have "rd32 (\<lambda>a. take 64 (drop (64 * j) (block_of s f i)) ! a) 0 = 0" by (simp add: rd32_def)
  then show ?thesis using False by (simp add: entry_matches_def)
qed

lemma fold_found_none:
  assumes "\<And>i. i \<in> set js \<Longrightarrow> find_entry s (block_of s dir i) name = None"
  shows "fold (found_in s dir name) js found = found"
  using assms by (induction js arbitrary: found) (simp_all add: found_in_def)

text \<open>A directory in which no entry has the name.\<close>

lemma lookup_none:
  assumes ok: "layout_ok s" and d: "dir_ok s dir" and k: "unat (i_size dir) \<le> 6 * bsz s"
    and t: "tail_zero s dir (file_zones s (unat (i_size dir)))" and name: "0 \<notin> set name" "length name \<le> 59"
    and none: "\<And>m. 64 * m < unat (i_size dir) \<Longrightarrow> \<not> entry_matches (entry_of s dir m) name"
  shows "name_from s dir name 0 None = Some None"
proof -
  let ?k = "file_zones s (unat (i_size dir))"
  have d': "small_file s dir" "64 dvd unat (i_size dir)" "64 dvd bsz s" "bsz s \<le> 4096" using d by (simp_all add: dir_ok_def)
  have f: "file_in s dir ?k" "zones_in s dir ?k" using d'(1) by (simp_all add: small_file_def file_in_def)
  have B: "bsz s = 64 * dirs_per_block s" using d'(3) by (simp add: dirs_per_block_def)
  have "find_entry s (block_of s dir i) name = None" if "i < ?k" for i
    unfolding find_entry_none [OF name d'(3) length_read_block]
  proof (intro allI impI)
    fix j assume j: "j < dirs_per_block s"
    have "i * bsz s + 64 * j = 64 * (i * dirs_per_block s + j)" using B by (simp add: algebra_simps)
    then show "\<not> entry_matches (take 64 (drop (64 * j) (block_of s dir i))) name"
      using block_entry_matches [OF ok f(2) t d'(2,3) that j, of name] none [of "i * dirs_per_block s + j"] by metis
  qed
  then show ?thesis
    using name_from_in [OF ok f(1) small_file_zones_6 [OF d'(1) k] d'(4), of 0 name None]
      fold_found_none [of "[0..<?k]" s dir name None] by simp
qed

text \<open>A directory in which one entry has the name.\<close>

lemma lookup_unique:
  assumes ok: "layout_ok s" and d: "dir_ok s dir" and k: "unat (i_size dir) \<le> 6 * bsz s"
    and t: "tail_zero s dir (file_zones s (unat (i_size dir)))" and name: "0 \<notin> set name" "length name \<le> 59"
    and m: "64 * m < unat (i_size dir)" "entry_matches (entry_of s dir m) name"
    and only: "\<And>m'. 64 * m' < unat (i_size dir) \<Longrightarrow> m' \<noteq> m \<Longrightarrow> \<not> entry_matches (entry_of s dir m') name"
    and n: "n = rd32 (\<lambda>a. entry_of s dir m ! a) 0"
  shows "name_from s dir name 0 None = Some (Some (n, minix3_get_inode s n))"
proof -
  let ?k = "file_zones s (unat (i_size dir))" and ?B = "dirs_per_block s"
  have d': "small_file s dir" "64 dvd unat (i_size dir)" "64 dvd bsz s" "bsz s \<le> 4096" using d by (simp_all add: dir_ok_def)
  have f: "file_in s dir ?k" "zones_in s dir ?k" using d'(1) by (simp_all add: small_file_def file_in_def)
  have B: "bsz s = 64 * ?B" using d'(3) by (simp add: dirs_per_block_def)
  have "0 < bsz s" using ok by (simp add: layout_ok_def)
  then have B0: "0 < ?B" using B by simp
  define i0 where "i0 = m div ?B"
  define j0 where "j0 = m mod ?B"
  have ij: "m = i0 * ?B + j0" "j0 < ?B" using B0 by (simp_all add: i0_def j0_def)
  have "64 * m < ?k * bsz s" using m(1) f(2) by (simp add: zones_in_def)
  then have "64 * m < 64 * (?k * ?B)" unfolding B by (simp only: ac_simps)
  then have "m < ?k * ?B" by simp
  then have i0: "i0 < ?k" unfolding i0_def by (rule less_mult_imp_div_less)
  have at: "i * bsz s + 64 * j = 64 * (i * ?B + j)" for i j using B by (simp add: algebra_simps)
  note E = block_entry_matches [OF ok f(2) t d'(2,3)]
  have inj: "i = i0 \<and> j = j0" if "i * ?B + j = m" "j < ?B" for i j
    using that ij(2) by (auto simp: i0_def j0_def)
  have no: "\<not> entry_matches (take 64 (drop (64 * j) (block_of s dir i))) name"
    if "i < ?k" "j < ?B" "i \<noteq> i0 \<or> j \<noteq> j0" for i j
    using E [OF that(1,2)] only [of "i * ?B + j"] inj [of i j] that at by auto
  have none: "find_entry s (block_of s dir i) name = None" if "i < ?k" "i \<noteq> i0" for i
    unfolding find_entry_none [OF name d'(3) length_read_block] using no that by simp
  have "entry_matches (take 64 (drop (64 * j0) (block_of s dir i0))) name"
    using E [OF i0 ij(2)] m at [of i0 j0] ij(1) by simp
  moreover have "\<not> entry_matches (take 64 (drop (64 * j') (block_of s dir i0))) name" if "j' < j0" for j'
    using no [OF i0, of j'] that ij(2) by simp
  ultimately have "find_entry s (block_of s dir i0) name =
      Some (rd32 (\<lambda>a. take 64 (drop (64 * j0) (block_of s dir i0)) ! a) 0)"
    by (intro find_entry_first [OF name d'(3) length_read_block ij(2)])
  also have "take 64 (drop (64 * j0) (block_of s dir i0)) = entry_of s dir m"
  proof -
    have "i0 * bsz s + 64 * j0 + 64 \<le> unat (i_size dir)"
      unfolding at ij(1) [symmetric] by (rule entry_fits [OF m(1) d'(2)])
    from block_entry(1) [OF ok f(2) this entry_room [OF d'(3) ij(2)]]
    show ?thesis unfolding at ij(1) [symmetric] .
  qed
  finally have found: "find_entry s (block_of s dir i0) name = Some n" by (simp add: n)
  have "[0..<?k] = [0..<i0] @ i0 # [Suc i0..<?k]"
    using i0 upt_add_eq_append [of 0 i0 "?k - i0"] by (simp add: upt_conv_Cons)
  then have "fold (found_in s dir name) [0..<?k] None = Some (n, minix3_get_inode s n)"
    using fold_found_none [of "[0..<i0]" s dir name None] fold_found_none [of "[Suc i0..<?k]" s dir name] none i0 found
    by (simp add: found_in_def)
  then show ?thesis
    using name_from_in [OF ok f(1) small_file_zones_6 [OF d'(1) k] d'(4), of 0 name None] by simp
qed

text \<open>The entries of a directory in which a lookup found nothing.\<close>

lemma lookup_none_entries:
  assumes ok: "layout_ok s" and d: "dir_ok s dir" and k: "unat (i_size dir) \<le> 6 * bsz s"
    and name: "0 \<notin> set name" "length name \<le> 59" and none: "name_from s dir name 0 None = Some None"
    and m: "64 * m < unat (i_size dir)"
  shows "\<not> entry_matches (entry_of s dir m) name"
proof -
  let ?k = "file_zones s (unat (i_size dir))" and ?B = "dirs_per_block s"
  have d': "small_file s dir" "64 dvd unat (i_size dir)" "64 dvd bsz s" "bsz s \<le> 4096" using d by (simp_all add: dir_ok_def)
  have f: "file_in s dir ?k" "zones_in s dir ?k" using d'(1) by (simp_all add: small_file_def file_in_def)
  have B: "bsz s = 64 * ?B" using d'(3) by (simp add: dirs_per_block_def)
  have "0 < bsz s" using ok by (simp add: layout_ok_def)
  then have j: "m mod ?B < ?B" using B by simp
  have at: "(m div ?B) * bsz s + 64 * (m mod ?B) = 64 * m"
  proof -
    have "(m div ?B) * bsz s = 64 * (m div ?B * ?B)" by (subst B) (simp only: ac_simps)
    then have "(m div ?B) * bsz s + 64 * (m mod ?B) = 64 * (m div ?B * ?B + m mod ?B)" by (simp only: distrib_left)
    then show ?thesis by (simp only: div_mult_mod_eq)
  qed
  have "(m div ?B) * bsz s + 64 * (m mod ?B) + 64 \<le> unat (i_size dir)"
    unfolding at by (rule entry_fits [OF m d'(2)])
  note e = block_entry [OF ok f(2) this entry_room [OF d'(3) j], unfolded at]
  have "fold (found_in s dir name) [0..<?k] None = None"
    using none name_from_in [OF ok f(1) small_file_zones_6 [OF d'(1) k] d'(4), of 0 name None] by simp
  then have "find_entry s (block_of s dir (m div ?B)) name = None" using e(2) by (simp add: found_none)
  then show ?thesis using j e(1) unfolding find_entry_none [OF name d'(3) length_read_block] by metis
qed

section \<open>Files that other operations leave alone\<close>

text \<open>The file keeps its size, and its zones and their bytes.\<close>

definition carried :: "mx3 \<Rightarrow> mx3 \<Rightarrow> mx3_inode \<Rightarrow> mx3_inode \<Rightarrow> bool" where
  "carried s s' f f' \<longleftrightarrow> mx3_block_size s' = mx3_block_size s \<and> i_zones f' = i_zones f \<and> i_size f' = i_size f \<and>
     i_mode f' = i_mode f \<and> (\<forall>i < file_zones s (unat (i_size f)). data_zone s' (i_zones f ! i) \<and>
       (\<forall>x < bsz s. mx_disk s' (zone_addr64 s (i_zones f ! i) + x) = mx_disk s (zone_addr64 s (i_zones f ! i) + x)))"

lemma carried_same:
  assumes "carried s s' f f'"
  shows "mx3_block_size s' = mx3_block_size s" "zone_addr64 s' = zone_addr64 s" "file_zones s' = file_zones s"
    "dirs_per_block s' = dirs_per_block s" "i_zones f' = i_zones f" "i_size f' = i_size f"
    "is_directory f' = is_directory f"
  using assms by (simp_all add: carried_def zone_addr64_def file_zones_def dirs_per_block_def is_directory_def fun_eq_iff)

lemma carried_file:
  assumes "carried s s' f f'"
  shows "small_file s f \<Longrightarrow> small_file s' f'" "dir_ok s f \<Longrightarrow> dir_ok s' f'"
proof -
  show "small_file s f \<Longrightarrow> small_file s' f'"
    using assms carried_same [OF assms] by (simp add: carried_def small_file_def file_in_def zones_in_def)
  then show "dir_ok s f \<Longrightarrow> dir_ok s' f'" using carried_same [OF assms] by (simp add: dir_ok_def)
qed

lemma carried_block:
  assumes "carried s s' f f'" "i < file_zones s (unat (i_size f))"
  shows "block_of s' f' i = block_of s f i"
  unfolding carried_same [OF assms(1)] using assms carried_same(1) [OF assms(1)]
  by (intro read_block_cong) (simp_all add: carried_def)

lemma carried_contents:
  assumes ok: "layout_ok s" "layout_ok s'" and c: "carried s s' f f'" and f: "small_file s f"
  shows "contents s' f' = contents s f"
    and "tail_zero s' f' (file_zones s (unat (i_size f))) = tail_zero s f (file_zones s (unat (i_size f)))"
proof -
  let ?k = "file_zones s (unat (i_size f))"
  note e = carried_same [OF c]
  have z: "zones_in s f ?k" using f by (simp add: small_file_def file_in_def)
  have z': "zones_in s' f' ?k" using carried_file(1) [OF c f] e by (simp add: small_file_def file_in_def)
  have b: "0 < bsz s" using ok(1) by (simp add: layout_ok_def)
  have same: "mx_disk s' (zone_addr64 s (i_zones f ! (i div bsz s)) + i mod bsz s) =
      mx_disk s (zone_addr64 s (i_zones f ! (i div bsz s)) + i mod bsz s)" if "i < ?k * bsz s" for i
    using c b that by (simp add: carried_def div_less_iff_less_mult)
  have sz: "unat (i_size f) \<le> ?k * bsz s" using z by (simp add: zones_in_def)
  have "file_byte s' f' i = file_byte s f i" if "i < unat (i_size f)" for i
    using zones_in_byte(3) [OF ok(1) z that] zones_in_byte(3) [OF ok(2) z', of i] same [of i] that sz e by simp
  then show "contents s' f' = contents s f" using e by (simp add: contents_def)
  show "tail_zero s' f' ?k = tail_zero s f ?k" using same by (simp add: tail_zero_def e)
qed

text \<open>A lookup gives the same inode number.\<close>

lemma lookup_carried:
  assumes ok: "layout_ok s" "layout_ok s'" and d: "dir_ok s dir" and k: "unat (i_size dir) \<le> 6 * bsz s"
    and c: "carried s s' dir dir'" and r: "name_from s dir name 0 None = Some r"
  shows "name_from s' dir' name 0 None = Some (map_option (\<lambda>(n, _). (n, minix3_get_inode s' n)) r)"
proof -
  let ?k = "file_zones s (unat (i_size dir))" and ?h = "map_option (\<lambda>(n, _). (n, minix3_get_inode s' n))"
  note e = carried_same [OF c]
  have d': "small_file s dir" "bsz s \<le> 4096" using d by (simp_all add: dir_ok_def)
  have f: "file_in s dir ?k" using d'(1) by (simp add: small_file_def)
  have f': "file_in s' dir' ?k" using carried_file(1) [OF c d'(1)] e by (simp add: small_file_def)
  have k7: "?k < 7" by (rule small_file_zones_6 [OF d'(1) k])
  have g: "find_entry s' (block_of s' dir' i) name = find_entry s (block_of s dir i) name" if "i < ?k" for i
    unfolding carried_block [OF c that] by (simp add: find_entry_def e)
  have "fold (found_in s' dir' name) js (?h r) = ?h (fold (found_in s dir name) js r)"
    if "\<forall>i \<in> set js. i < ?k" for js r
    using that
  proof (induction js arbitrary: r)
    case (Cons i js)
    have "found_in s' dir' name i (?h r) = ?h (found_in s dir name i r)"
      using g [of i] Cons.prems by (simp add: found_in_def split: option.split)
    then show ?case using Cons by simp
  qed simp
  from this [of "[0..<?k]" None]
  have "fold (found_in s' dir' name) [0..<?k] None = ?h (fold (found_in s dir name) [0..<?k] None)" by simp
  moreover have "fold (found_in s dir name) [0..<?k] None = r"
    using name_from_in [OF ok(1) f k7 d'(2), of 0 name None] r by simp
  ultimately show ?thesis using name_from_in [OF ok(2) f' k7, of 0 name None] e(1) d'(2) by simp
qed

section \<open>Making a directory\<close>

lemma in_table_pos:
  assumes ok: "layout_ok s" and t: "in_table s n"
  shows "n \<noteq> 0"
proof
  assume n: "n = 0"
  have "data_begin s < 2 ^ 32" using ok by (auto simp: layout_ok_def data_begin_def algebra_simps)
  moreover have "inodes_begin s + unat (- 1 :: u32) * 64 + 64 \<le> data_begin s"
    using t by (simp add: n in_table_def inode_offset_begin)
  moreover have "unat (- 1 :: u32) = 2 ^ 32 - 1" by (simp add: unsigned_minus_1_eq_mask mask_eq_exp_minus_1)
  ultimately show False by simp
qed

text \<open>The new directory before its entries are written.\<close>

abbreviation (input) new_dir :: mx3_inode where
  "new_dir \<equiv> (new_inode 0x41ff 0xd000 0xd000)\<lparr>i_nlinks := 2\<rparr>"

lemma new_dir_ok:
  assumes "layout_ok s" "64 dvd bsz s" "bsz s \<le> 4096"
  shows "dir_ok s new_dir" "file_zones s (unat (i_size new_dir)) = 0" "contents s new_dir = []"
    "tail_zero s new_dir 0" "i_zones new_dir = replicate 10 0" "i_size new_dir = 0" "name_from s new_dir name 0 None = Some None"
proof -
  have b: "64 \<le> bsz s" using assms(1) by (simp add: layout_ok_def)
  show z: "i_zones new_dir = replicate 10 0" "i_size new_dir = 0" by (simp_all add: new_inode_def zero_inode_def)
  show k: "file_zones s (unat (i_size new_dir)) = 0" using b z by (simp add: file_zones_def)
  have f: "file_in s new_dir 0" using b z by (simp add: file_in_def zones_in_def)
  have "is_directory new_dir" by (simp add: is_directory_def new_inode_def)
  then show "dir_ok s new_dir" using assms(2,3) f k z by (simp add: dir_ok_def small_file_def)
  show "contents s new_dir = []" using z by (simp add: contents_def)
  show "tail_zero s new_dir 0" by (simp add: tail_zero_def)
  show "name_from s new_dir name 0 None = Some None"
    using name_from_in [OF assms(1) f _ assms(3), of 0 name None] by simp
qed

text \<open>The two entries that every directory has.\<close>

abbreviation (input) dot :: "u8 list" where "dot \<equiv> [0x2e]"

abbreviation (input) dot_dot :: "u8 list" where "dot_dot \<equiv> [0x2e, 0x2e]"

lemma dots_differ: "\<not> entry_matches (dir_entry_bytes n dot_dot) dot" "\<not> entry_matches (dir_entry_bytes n dot) dot_dot"
proof -
  have d: "drop 4 (dir_entry_bytes n name) = take 60 (name @ replicate 60 0)" for name
    by (simp add: dir_entry_bytes_def drop_take)
  show "\<not> entry_matches (dir_entry_bytes n dot_dot) dot" "\<not> entry_matches (dir_entry_bytes n dot) dot_dot"
    unfolding entry_matches_def d by (simp_all add: take_Cons')
qed

lemma two_entries:
  assumes "contents s f = e1 @ e2" "length e1 = 64" "length e2 = 64"
  shows "entry_of s f 0 = e1" "entry_of s f 1 = e2" "unat (i_size f) = 128" "64 * m < unat (i_size f) \<Longrightarrow> m = 0 \<or> m = 1"
proof -
  show "entry_of s f 0 = e1" "entry_of s f 1 = e2" using assms by simp_all
  have "unat (i_size f) = length (contents s f)" by (simp add: contents_def)
  then show u: "unat (i_size f) = 128" using assms by simp
  show "64 * m < unat (i_size f) \<Longrightarrow> m = 0 \<or> m = 1" unfolding u by auto
qed

lemma write_dots:
  assumes ok: "layout_ok s" and t: "in_table s n" "in_table s p" "n \<noteq> p" and n: "minix3_get_inode s n = new_dir"
    and st: "ucast (first_data_zone (super s)) \<le> search_start s" "2 \<le> card (free_ahead s)"
    and bs: "64 dvd bsz s" "bsz s \<le> 4096"
  obtains s4 s' f where "minix3_append_to_file s n (dir_entry_bytes n dot) = Some (s4, 0)"
    "minix3_append_to_file s4 n (dir_entry_bytes p dot_dot) = Some (s', 0)"
    "super s' = super s" "mx3_block_size s' = mx3_block_size s" "f = minix3_get_inode s' n" "dir_ok s' f" "unat (i_size f) = 128"
    "name_from s' f dot 0 None = Some (Some (n, f))"
    "name_from s' f dot_dot 0 None = Some (Some (p, minix3_get_inode s' p))"
    "\<forall>j. j \<noteq> n \<and> in_table s j \<longrightarrow> minix3_get_inode s' j = minix3_get_inode s j"
    "\<forall>a < zmap_begin s. mx_disk s' a = mx_disk s a"
    "\<forall>y. data_zone s y \<longrightarrow> data_zone s' y \<and> (\<forall>k < bsz s. mx_disk s' (zone_addr64 s y + k) = mx_disk s (zone_addr64 s y + k))"
    "\<forall>y. data_zone s y \<longrightarrow> y \<notin> set (i_zones f)"
proof -
  note N = new_dir_ok [OF ok bs]
  have b: "64 \<le> bsz s" using ok by (simp add: layout_ok_def)
  have nz: "n \<noteq> 0" "p \<noteq> 0" using in_table_pos [OF ok] t by blast+
  have len: "unat (i_size new_dir) + 64 \<le> 6 * bsz s" using b N(6) by simp
  have ne: "free_ahead s \<noteq> {}" using st(2) by auto
  have nm: "0 \<notin> set dot" "length dot \<le> 59" "0 \<notin> set dot_dot" "length dot_dot \<le> 59" by simp_all
  obtain s4 where s4: "minix3_append_to_file s n (dir_entry_bytes n dot) = Some (s4, 0)" "super s4 = super s"
    "mx3_block_size s4 = mx3_block_size s" "contents s4 (minix3_get_inode s4 n) = contents s new_dir @ dir_entry_bytes n dot"
    "dir_ok s4 (minix3_get_inode s4 n)" "unat (i_size (minix3_get_inode s4 n)) = unat (i_size new_dir) + 64"
    "\<forall>a < zmap_begin s. mx_disk s4 a = mx_disk s a"
    "\<forall>j. j \<noteq> n \<and> in_table s j \<longrightarrow> minix3_get_inode s4 j = minix3_get_inode s j"
    "tail_zero s new_dir (file_zones s (unat (i_size new_dir))) \<longrightarrow>
       tail_zero s4 (minix3_get_inode s4 n) (file_zones s4 (unat (i_size (minix3_get_inode s4 n))))"
    "card (free_ahead s) \<le> card (free_ahead s4) + 1" "ucast (first_data_zone (super s4)) \<le> search_start s4"
    "\<forall>y. data_zone s y \<longrightarrow> data_zone s4 y" "new_zones s new_dir (minix3_get_inode s4 n)"
    "\<forall>y k. data_zone s y \<and> y \<notin> set (i_zones new_dir) \<and> k < bsz s \<longrightarrow>
       mx_disk s4 (zone_addr64 s y + k) = mx_disk s (zone_addr64 s y + k)"
    by (rule append_entry_lookup [OF ok t(1) n [symmetric] N(1) len nm(1,2) N(7) st(1) ne nz(1)]) (rule that, assumption+)
  define f4 where "f4 = minix3_get_inode s4 n"
  note s4' = s4 [folded f4_def]
  note e1 = dir_entry_matches [OF nm(1,2) nz(1)]
  have ok4: "layout_ok s4" using ok layout_ok_cong [OF s4(2,3)] by simp
  have c4: "contents s4 f4 = dir_entry_bytes n dot" using s4'(4) N(3) by simp
  have z4: "unat (i_size f4) = 64" using s4'(6) N(6) by simp
  have t4: "tail_zero s4 f4 (file_zones s4 (unat (i_size f4)))" using s4'(9) N(2,4) by simp
  have nf: "name_from s4 f4 dot_dot 0 None = Some None"
  proof (rule lookup_none [OF ok4 s4'(5) _ t4 nm(3,4)])
    show "unat (i_size f4) \<le> 6 * bsz s4" using z4 b s4(3) by simp
    fix m assume "64 * m < unat (i_size f4)"
    then have "m = 0" using z4 by simp
    then show "\<not> entry_matches (entry_of s4 f4 m) dot_dot" using c4 e1(3) dots_differ(2) by simp
  qed
  have len4: "unat (i_size f4) + 64 \<le> 6 * bsz s4" using z4 b s4(3) by simp
  have ne4: "free_ahead s4 \<noteq> {}" using st(2) s4(10) by auto
  have it: "in_table s4 = in_table s" using s4(2,3) by (simp add: in_table_def inode_offset_def data_begin_def fun_eq_iff)
  have tn: "in_table s4 n" using t(1) it by simp
  obtain s' where s': "minix3_append_to_file s4 n (dir_entry_bytes p dot_dot) = Some (s', 0)" "super s' = super s4"
    "mx3_block_size s' = mx3_block_size s4" "contents s' (minix3_get_inode s' n) = contents s4 f4 @ dir_entry_bytes p dot_dot"
    "dir_ok s' (minix3_get_inode s' n)"
    "name_from s' (minix3_get_inode s' n) dot_dot 0 None = Some (Some (p, minix3_get_inode s' p))"
    "\<forall>a < zmap_begin s4. mx_disk s' a = mx_disk s4 a"
    "\<forall>j. j \<noteq> n \<and> in_table s4 j \<longrightarrow> minix3_get_inode s' j = minix3_get_inode s4 j"
    "tail_zero s4 f4 (file_zones s4 (unat (i_size f4))) \<longrightarrow>
       tail_zero s' (minix3_get_inode s' n) (file_zones s' (unat (i_size (minix3_get_inode s' n))))"
    "\<forall>y. data_zone s4 y \<longrightarrow> data_zone s' y" "new_zones s4 f4 (minix3_get_inode s' n)"
    "\<forall>y k. data_zone s4 y \<and> y \<notin> set (i_zones f4) \<and> k < bsz s4 \<longrightarrow>
       mx_disk s' (zone_addr64 s4 y + k) = mx_disk s4 (zone_addr64 s4 y + k)"
    by (rule append_entry_lookup [OF ok4 tn f4_def s4'(5) len4 nm(3,4) nf s4(11) ne4 nz(2)]) (rule that, assumption+)
  define f where "f = minix3_get_inode s' n"
  note s5 = s' [folded f_def]
  have ok5: "layout_ok s'" using ok4 layout_ok_cong [OF s'(2,3)] by simp
  have c: "contents s' f = dir_entry_bytes n dot @ dir_entry_bytes p dot_dot" using s5(4) c4 by simp
  note T = two_entries [OF c e1(3) dir_entry_matches(3) [OF nm(3,4) nz(2)]]
  have "name_from s' f dot 0 None = Some (Some (n, minix3_get_inode s' n))"
  proof (rule lookup_unique [OF ok5 s5(5) _ _ nm(1,2)])
    show "unat (i_size f) \<le> 6 * bsz s'" using T(3) b s4(3) s'(3) by simp
    show "tail_zero s' f (file_zones s' (unat (i_size f)))" using s5(9) t4 by simp
    show "64 * 0 < unat (i_size f)" using T(3) by simp
    show "entry_matches (entry_of s' f 0) dot" using T(1) e1(1) by simp
    show "n = rd32 (\<lambda>a. entry_of s' f 0 ! a) 0" unfolding T(1) using e1(2) by simp
    fix m' assume "64 * m' < unat (i_size f)" "m' \<noteq> 0"
    then have m': "m' = 1" using T(4) by blast
    show "\<not> entry_matches (entry_of s' f m') dot" unfolding m' T(2) by (rule dots_differ(1))
  qed
  then have look: "name_from s' f dot 0 None = Some (Some (n, f))" by (simp flip: f_def)
  have same: "zmap_begin s4 = zmap_begin s" "zone_addr64 s4 = zone_addr64 s"
    using s4(2,3) by (simp_all add: zmap_begin_def zone_addr64_def fun_eq_iff)
  have fresh: "y \<notin> set (i_zones h')" if z: "new_zones t h h'" "length (i_zones h') = 10" "length (i_zones h) = 10"
      and y: "data_zone t y" "y \<notin> set (i_zones h)" for t h h' y
  proof
    assume "y \<in> set (i_zones h')"
    then obtain i where i: "i < 10" "i_zones h' ! i = y" using z(2) by (auto simp: in_set_conv_nth)
    then have "i_zones h ! i = y" using z(1) y(1) unfolding new_zones_def by metis
    then show False using i(1) y(2) z(3) by (metis nth_mem)
  qed
  have l: "length (i_zones f4) = 10" "length (i_zones f) = 10" "length (i_zones new_dir) = 10"
    using s4'(5) s5(5) N(5) by (simp_all add: dir_ok_def small_file_def file_in_def zones_in_def)
  have apart: "y \<notin> set (i_zones new_dir)" "y \<notin> set (i_zones f4)" "y \<notin> set (i_zones f)" if y: "data_zone s y" for y
  proof -
    have "y \<noteq> 0" using y in_range_zone(5) [OF ok] by (simp add: data_zone_def)
    then show y0: "y \<notin> set (i_zones new_dir)" using N(5) by simp
    show y4: "y \<notin> set (i_zones f4)" by (rule fresh [OF s4'(13) l(1,3) y y0])
    show "y \<notin> set (i_zones f)" by (rule fresh [OF s5(11) l(2,1) _ y4]) (use s4'(12) y in simp)
  qed
  have bytes: "data_zone s' y \<and> (\<forall>k < bsz s. mx_disk s' (zone_addr64 s y + k) = mx_disk s (zone_addr64 s y + k))"
    if y: "data_zone s y" for y
    using s5(10,12) s4'(12,14) y apart(1,2) [OF y] same s4(3) by simp
  have other: "minix3_get_inode s' j = minix3_get_inode s j" if "j \<noteq> n" "in_table s j" for j
    using s'(8) s4(8) it that by simp
  show thesis
    by (rule that [OF s4(1) s'(1) _ _ f_def s5(5) T(3) look s5(6)]) (use s'(2,3,7) s4(2,3,7) same other bytes apart(3) in simp_all)
qed

text \<open>
  A directory that was made is found in its parent, its two entries give itself and the parent, and
  the test for an empty directory accepts it.
\<close>

lemma dir_name_found:
  "is_directory dir \<Longrightarrow> is_directory f \<Longrightarrow> name_from s dir name 0 None = Some (Some (n, f)) \<Longrightarrow>
     minix3_get_inode_from_name s dir name = Some (0, Some (n, f))"
  by (simp add: minix3_get_inode_from_name_def)

lemma mkdir_in:
  assumes ok: "layout_ok s" "inodes_ok s" and p: "in_table s p" "minix3_is_inode_occupied s p"
    and dir: "dir = minix3_get_inode s p" "dir_ok s dir" "unat (i_size dir) + 64 \<le> 6 * bsz s"
    and name: "0 \<notin> set dirname" "length dirname \<le> 59"
      "minix3_get_inode_from_name s dir dirname = Some (MX3_RETURN_CODE_NOT_FOUND, None)"
    and st: "ucast (first_data_zone (super s)) \<le> search_start s" "3 \<le> card (free_ahead s)"
    and i: "test_available_inode_num s \<noteq> 0" "test_available_inode_num s \<le> m" "free_inode s m"
  obtains s' n f where "minix3_mkdir s p dirname = Some (s', 0)"
    "\<not> minix3_is_inode_occupied s n" "minix3_is_inode_occupied s' n" "n \<noteq> p" "f = minix3_get_inode s' n"
    "dir_ok s' (minix3_get_inode s' p)" "dir_ok s' f" "unat (i_size f) = 128"
    "name_from s' (minix3_get_inode s' p) dirname 0 None = Some (Some (n, f))"
    "name_from s' f dot 0 None = Some (Some (n, f))"
    "name_from s' f dot_dot 0 None = Some (Some (p, minix3_get_inode s' p))"
    "super s' = super s" "mx3_block_size s' = mx3_block_size s" "minix3_is_inode_in_range s n"
    "contents s' (minix3_get_inode s' p) = contents s dir @ dir_entry_bytes n dirname"
    "tail_zero s dir (file_zones s (unat (i_size dir))) \<longrightarrow>
       tail_zero s' (minix3_get_inode s' p) (file_zones s' (unat (i_size (minix3_get_inode s' p))))"
    "\<forall>i < file_zones s' (unat (i_size (minix3_get_inode s' p))). i_zones (minix3_get_inode s' p) ! i \<notin> set (i_zones f)"
proof -
  let ?new = "new_inode 0x41ff 0xd000 0xd000"
  have ne: "free_ahead s \<noteq> {}" using st(2) by auto
  obtain s1 n where s1: "minix3_touch_common s p dirname 0x41ff 0xd000 0xd000 = Some (s1, 0)"
    "\<not> minix3_is_inode_occupied s n" "minix3_is_inode_occupied s1 n" "in_table s n" "n \<noteq> p" "n \<noteq> 0"
    "minix3_get_inode s1 n = ?new" "name_from s1 (minix3_get_inode s1 p) dirname 0 None = Some (Some (n, ?new))"
    "super s1 = super s" "mx3_block_size s1 = mx3_block_size s" "dir_ok s1 (minix3_get_inode s1 p)"
    "unat (i_size (minix3_get_inode s1 p)) = unat (i_size dir) + 64"
    "card (free_ahead s) \<le> card (free_ahead s1) + 1" "ucast (first_data_zone (super s1)) \<le> search_start s1"
    "minix3_is_inode_in_range s n" "contents s1 (minix3_get_inode s1 p) = contents s dir @ dir_entry_bytes n dirname"
    "tail_zero s dir (file_zones s (unat (i_size dir))) \<longrightarrow>
       tail_zero s1 (minix3_get_inode s1 p) (file_zones s1 (unat (i_size (minix3_get_inode s1 p))))"
    by (rule touch_common_in [OF ok p dir name st(1) ne i, of "0x41ff" "0xd000" "0xd000"]) (rule that, assumption+)
  define d1 where "d1 = minix3_get_inode s1 p"
  note s1' = s1 [folded d1_def]
  define s2 where "s2 = minix3_put_inode s1 p (d1\<lparr>i_nlinks := i_nlinks d1 + 1\<rparr>)"
  define s3 where "s3 = minix3_put_inode s2 n (?new\<lparr>i_nlinks := i_nlinks ?new + 1\<rparr>)"
  have D: "is_directory d1" "small_file s1 d1" "64 dvd bsz s1" "bsz s1 \<le> 4096" using s1'(11) by (simp_all add: dir_ok_def)
  have ok1: "layout_ok s1" using ok layout_ok_cong [OF s1(9,10)] by simp
  have it: "in_table s1 = in_table s" using s1(9,10) by (simp add: in_table_def inode_offset_def data_begin_def fun_eq_iff)
  have t1: "in_table s1 p" "in_table s1 n" using p(1) s1(4) it by simp_all
  have l1: "length (i_zones (d1\<lparr>i_nlinks := i_nlinks d1 + 1\<rparr>)) = 10"
    using D(2) by (simp add: small_file_def file_in_def zones_in_def)
  have g2: "same_files s1 s2" unfolding s2_def by (rule put_inode_same_files [OF ok1 t1(1) l1])
  note F2 = same_files [OF ok1 g2]
  note P2 = put_inode_in [OF ok1 t1(1) l1 s2_def]
  have t2: "in_table s2 n" using t1(2) F2(5) by simp
  have new: "?new\<lparr>i_nlinks := i_nlinks ?new + 1\<rparr> = new_dir" by (simp add: new_inode_def)
  have l2: "length (i_zones new_dir) = 10" by (simp add: new_inode_def zero_inode_def)
  have g23: "same_files s2 s3" unfolding s3_def new by (rule put_inode_same_files [OF F2(1) t2 l2])
  have g3: "same_files s1 s3" by (rule same_files_trans [OF g2 g23])
  note F3 = same_files [OF ok1 g3]
  note P3 = put_inode_in [OF F2(1) t2 l2 s3_def [unfolded new]]
  have su3: "super s3 = super s1" "mx3_block_size s3 = mx3_block_size s1" using g3 by (simp_all add: same_files_def)
  have t3: "in_table s3 n" "in_table s3 p" using t1 F3(5) by simp_all
  have st3: "ucast (first_data_zone (super s3)) \<le> search_start s3" "2 \<le> card (free_ahead s3)"
    using s1(13,14) st(2) F3(2,3) su3 by simp_all
  have b3: "64 dvd bsz s3" "bsz s3 \<le> 4096" using D(3,4) su3 by simp_all
  obtain s4 s' f where s': "minix3_append_to_file s3 n (dir_entry_bytes n dot) = Some (s4, 0)"
    "minix3_append_to_file s4 n (dir_entry_bytes p dot_dot) = Some (s', 0)"
    "super s' = super s3" "mx3_block_size s' = mx3_block_size s3" "f = minix3_get_inode s' n" "dir_ok s' f" "unat (i_size f) = 128"
    "name_from s' f dot 0 None = Some (Some (n, f))"
    "name_from s' f dot_dot 0 None = Some (Some (p, minix3_get_inode s' p))"
    "\<forall>j. j \<noteq> n \<and> in_table s3 j \<longrightarrow> minix3_get_inode s' j = minix3_get_inode s3 j"
    "\<forall>a < zmap_begin s3. mx_disk s' a = mx_disk s3 a"
    "\<forall>y. data_zone s3 y \<longrightarrow> data_zone s' y \<and> (\<forall>k < bsz s3. mx_disk s' (zone_addr64 s3 y + k) = mx_disk s3 (zone_addr64 s3 y + k))"
    "\<forall>y. data_zone s3 y \<longrightarrow> y \<notin> set (i_zones f)"
    by (rule write_dots [OF F3(1) t3 s1(5) P3(5) st3 b3]) (rule that, assumption+)
  have ok': "layout_ok s'" using F3(1) layout_ok_cong [OF s'(3,4)] by simp
  have dp: "minix3_get_inode s' p = d1\<lparr>i_nlinks := i_nlinks d1 + 1\<rparr>"
    using s'(10) s1(5) t3(2) P3(6) P2(5) by metis
  have size: "unat (i_size d1) \<le> 6 * bsz s1" using s1'(12) dir(3) s1(10) by simp
  have za: "zone_addr64 s3 = zone_addr64 s1" using su3 by (simp add: zone_addr64_def fun_eq_iff)
  have dz: "data_zone s1 (i_zones d1 ! i)" if "i < file_zones s1 (unat (i_size d1))" for i
    using D(2) that by (simp add: small_file_def file_in_def zones_in_def)
  have keep: "data_zone s3 y \<and> data_zone s' y \<and> (\<forall>k < bsz s1. mx_disk s' (zone_addr64 s1 y + k) = mx_disk s1 (zone_addr64 s1 y + k))"
    if y: "data_zone s1 y" for y
  proof -
    have "data_zone s3 y" "data_begin s1 \<le> zone_addr64 s1 y"
      using y g3 in_range_zone(4) [OF ok1] by (simp_all add: same_files_def data_zone_def)
    then show ?thesis using s'(12) g3 su3 za by (simp add: same_files_def)
  qed
  have c: "carried s1 s' d1 (minix3_get_inode s' p)"
    unfolding carried_def dp using s'(4) su3 keep dz by simp
  note cs = carried_same [OF c]
  note cc = carried_contents [OF ok1 ok' c D(2)]
  have look: "name_from s' (minix3_get_inode s' p) dirname 0 None = Some (Some (n, f))"
    using lookup_carried [OF ok1 ok' s1'(11) size c s1'(8)] s'(5) by simp
  have dk: "dir_ok s' (minix3_get_inode s' p)" by (rule carried_file(2) [OF c s1'(11)])
  have apart: "\<forall>i < file_zones s' (unat (i_size (minix3_get_inode s' p))). i_zones (minix3_get_inode s' p) ! i \<notin> set (i_zones f)"
    using s'(13) keep dz cs by simp
  have occ: "minix3_is_inode_occupied s' n"
  proof -
    have zm: "zmap_begin s3 = zmap_begin s1" "zmap_begin s2 = zmap_begin s1" "zmap_begin s1 \<le> inodes_begin s1" "inodes_begin s2 = inodes_begin s1"
      using su3 P2(1,2) ok1 by (simp_all add: zmap_begin_def inodes_begin_def)
    have "mx_disk s' a = mx_disk s1 a" if "a < zmap_begin s1" for a using s'(11) P3(4) P2(4) that zm by simp
    moreover have "inodes_ok s1"
      using ok(2) s1(9,10) by (simp add: inodes_ok_def imap_begin_def zmap_begin_def inodes_begin_def data_begin_def)
    moreover have "minix3_is_inode_in_range s1 n" using s1(15) unfolding minix3_is_inode_in_range_def s1(9) .
    ultimately show ?thesis using s1(3) inode_occupied_cong [of s1 s' n] s'(3,4) su3 by simp
  qed
  have run: "minix3_mkdir s p dirname = Some (s', 0)"
  proof -
    have "is_directory ?new" by (simp add: is_directory_def new_inode_def)
    from dir_name_found [OF D(1) this s1'(8)] show ?thesis
      using s1(1) s'(1,2)
      by (simp add: minix3_mkdir_def minix3_touch_dir_def Let_def s3_def s2_def flip: d1_def)
  qed
  show thesis
    by (rule that [OF run s1(2) occ s1(5) s'(5) dk s'(6,7) look s'(8,9) _ _ s1(15) _ _ apart])
      (use s'(3,4) su3 s1(9,10) s1'(16,17) cc cs in simp_all)
qed

section \<open>Removing a directory\<close>

lemma clear_zone_direct:
  assumes "length (i_zones f) = 10" "n < 7"
  shows "minix3_clear_zone s f (of_nat n) =
    Some (fst (minix3_set_zone_unoccupied s (i_zones f ! n)), f\<lparr>i_zones := (i_zones f)[n := 0]\<rparr>)"
proof -
  have u: "unat (of_nat n :: u32) = n" using assms(2) by (simp add: unat_of_nat)
  then have "has_path s f (unat (of_nat n :: u32))" using assms by (simp add: has_path_def)
  from zone_walker_get [OF this] have "minix3_get_zone s f (of_nat n) = Some (i_zones f ! n)"
    using u assms(2) by (simp add: minix3_get_zone_def file_zone_parts(1))
  then show ?thesis using set_zone_to_direct [OF assms] by (simp add: minix3_clear_zone_def)
qed

text \<open>A directory with nothing but its two entries, in one zone.\<close>

lemma rmdir_in:
  assumes ok: "layout_ok s" "inodes_ok s" "128 \<le> bsz s" and p: "in_table s p"
    and dir: "dir = minix3_get_inode s p" "dir_ok s dir" "unat (i_size dir) \<le> 6 * bsz s"
    and name: "0 \<notin> set name" "length name \<le> 59" "name_from s dir name 0 None = Some (Some (child, f))"
    and only: "only_entry s dir child name" and c: "minix3_is_inode_in_range s child" "child \<noteq> 1"
    and f: "dir_ok s f" "unat (i_size f) = 128" "name_from s f dot 0 None = Some (Some (child, f))"
    and apart: "\<forall>m < file_zones s (unat (i_size dir)). i_zones dir ! m \<notin> set (i_zones f)"
  obtains s' where "minix3_rmdir s p name = Some (s', 0)"
    "minix3_get_inode s' p = dir\<lparr>i_nlinks := i_nlinks dir - 1\<rparr>" "name_from s' (minix3_get_inode s' p) name 0 None = Some None"
    "\<not> minix3_is_inode_occupied s' child" "\<not> minix3_is_zone_occupied s' (i_zones f ! 0)"
    "\<forall>j. j \<noteq> p \<and> in_table s j \<longrightarrow> minix3_get_inode s' j = minix3_get_inode s j"
proof -
  let ?z = "i_zones f ! 0" and ?dir = "dir\<lparr>i_nlinks := i_nlinks dir - 1\<rparr>"
  have d: "is_directory dir" "small_file s dir" and df: "is_directory f" "small_file s f"
    using dir(2) f(1) by (simp_all add: dir_ok_def)
  have k: "file_zones s (unat (i_size f)) = 1" using ok(3) f(2) by (intro file_zones_eq) simp_all
  then have fi: "file_in s f 1" using df(2) by (simp add: small_file_def)
  then have l: "length (i_zones f) = 10" and dz: "data_zone s ?z" by (simp_all add: file_in_def zones_in_def)
  have zr: "minix3_is_zone_in_range s ?z" using dz by (simp add: data_zone_def)
  define s1 where "s1 = fst (minix3_set_zone_unoccupied s ?z)"
  note Z = clear_zone_bit [OF ok(1) zr s1_def]
  have Z': "\<forall>y. minix3_is_zone_in_range s y \<longrightarrow> minix3_is_zone_occupied s1 y = (y \<notin> {?z} \<and> minix3_is_zone_occupied s y)"
    using Z(2) by simp
  have zf: "?z \<in> set (i_zones f)" using l by simp
  then have apart': "\<forall>m < file_zones s (unat (i_size dir)). i_zones dir ! m \<notin> {?z}" using apart by auto
  obtain s3 where s3: "clear_entries_from (fst (minix3_set_inode_unoccupied s1 child)) dir child 0 = Some s3"
    "super s3 = super s" "mx3_block_size s3 = mx3_block_size s" "name_from s3 dir name 0 None = Some None"
    "\<not> minix3_is_inode_occupied s3 child" "\<forall>y. data_zone s3 y = (y \<notin> {?z} \<and> data_zone s y)"
    "\<forall>j. in_table s j \<longrightarrow> minix3_get_inode s3 j = minix3_get_inode s j"
    by (rule unlink_in [OF ok(1,2) Z(1) Z' c(1) dir(2,3) apart' name(1,2) only]) (rule that, assumption+)
  have ok3: "layout_ok s3" using ok(1) layout_ok_cong [OF s3(2,3)] by simp
  have t3: "in_table s3 = in_table s" using s3(2,3) by (simp add: in_table_def inode_offset_def data_begin_def fun_eq_iff)
  have fz: "file_zones s3 = file_zones s" using s3(3) by (simp add: file_zones_def fun_eq_iff)
  have dk3: "dir_ok s3 dir"
    using dir(2) s3(3,6) apart' fz by (simp add: dir_ok_def small_file_def file_in_def zones_in_def)
  define s' where "s' = minix3_put_inode s3 p ?dir"
  have lz: "length (i_zones ?dir) = 10" using d(2) by (simp add: small_file_def file_in_def zones_in_def)
  have tp: "in_table s3 p" using p t3 by simp
  note P = put_inode_in [OF ok3 tp lz s'_def]
  have ok': "layout_ok s'" using ok3 layout_ok_cong [OF P(1,2)] by simp
  have "carried s3 s' dir ?dir"
  proof -
    have "data_zone s3 (i_zones dir ! i) \<and> data_begin s3 \<le> zone_addr64 s3 (i_zones dir ! i)"
      if "i < file_zones s3 (unat (i_size dir))" for i
      using dk3 that in_range_zone(4) [OF ok3] by (simp add: dir_ok_def small_file_def file_in_def zones_in_def data_zone_def)
    then show ?thesis using P(2-4) by (simp add: carried_def trans_le_add1)
  qed
  from lookup_carried [OF ok3 ok' dk3 _ this s3(4)] have none: "name_from s' ?dir name 0 None = Some None"
    using dir(3) s3(3) by simp
  have "i_size f = 128" using f(2) by (simp add: word_unat_eq_iff)
  then have check: "minix3_rmdir_check s f = Some 0"
    using dir_name_found [OF df(1) df(1) f(3)] by (simp add: minix3_rmdir_check_def)
  have last0: "minix3_get_last_file_zone s f = Some 0" using last_file_zone_in(1) [OF ok(1) fi] by simp
  have clear: "minix3_clear_zone s f 0 = Some (s1, f\<lparr>i_zones := (i_zones f)[0 := 0]\<rparr>)"
    using clear_zone_direct [OF l, of 0 s] by (simp add: s1_def)
  have run: "minix3_rmdir s p name = Some (s', 0)"
    using d(1) dir_name_found [OF d(1) df(1) name(3)] check c(2) last0 clear s3(1)
    by (simp add: minix3_rmdir_def Let_def s'_def flip: dir(1))
  have free: "\<not> minix3_is_inode_occupied s' child"
  proof -
    have io: "inodes_ok s3" using ok(2) s3(2,3) by (simp add: inodes_ok_def imap_begin_def zmap_begin_def inodes_begin_def data_begin_def)
    have cr: "minix3_is_inode_in_range s3 child" using c(1) unfolding minix3_is_inode_in_range_def s3(2) .
    have "zmap_begin s3 \<le> inodes_begin s3" using ok3 by (simp add: layout_ok_def)
    then show ?thesis using inode_occupied_cong [OF io P(1,2) _ cr] P(4) s3(5) by simp
  qed
  have zone: "\<not> minix3_is_zone_occupied s' ?z"
  proof -
    have "minix3_is_zone_in_range s' ?z" using zr P(1) s3(2) by (simp add: minix3_is_zone_in_range_def bitmap_zone_def)
    moreover have "\<not> data_zone s' ?z" using P(3) s3(6) by simp
    ultimately show ?thesis by (simp add: data_zone_def)
  qed
  show thesis by (rule that [OF run P(5) _ free zone]) (use none P(5,6) s3(7) t3 in simp_all)
qed

text \<open>The entry of a new name is the only one for its inode.\<close>

lemma only_entry_last:
  assumes ok: "layout_ok s" and d: "dir_ok s dir" and t: "tail_zero s dir (file_zones s (unat (i_size dir)))"
    and c: "contents s dir = xs @ e" "length xs = 64 * M" "length e = 64"
    and e: "rd32 (\<lambda>a. e ! a) 0 = n" and name: "0 \<notin> set name" "length name \<le> 59"
    and none: "\<And>m. m < M \<Longrightarrow> \<not> entry_matches (take 64 (drop (64 * m) xs)) name"
    and other: "\<And>m. m < M \<Longrightarrow> rd32 (\<lambda>a. take 64 (drop (64 * m) xs) ! a) 0 \<noteq> n"
  shows "only_entry s dir n name"
  unfolding only_entry_def
proof (intro allI impI)
  let ?B = "dirs_per_block s"
  fix i j assume i: "i < file_zones s (unat (i_size dir))" and j: "j < ?B"
    and m: "entry_inode (block_of s dir i) j \<noteq> 0 \<and> entry_name (block_of s dir i) j = name"
  have d': "small_file s dir" "64 dvd unat (i_size dir)" "64 dvd bsz s" using d by (simp_all add: dir_ok_def)
  have z: "zones_in s dir (file_zones s (unat (i_size dir)))" using d'(1) by (simp add: small_file_def file_in_def)
  have at: "i * bsz s + 64 * j' = 64 * (i * ?B + j')" for j'
    using d'(3) by (auto simp: dirs_per_block_def algebra_simps elim!: dvdE)
  have sz: "unat (i_size dir) = 64 * Suc M"
    using c by (metis contents_def diff_zero length_append length_map length_upt mult_Suc_right add.commute)
  have room: "64 * j' + 64 \<le> length (block_of s dir i)" if "j' < ?B" for j' using entry_room [OF d'(3) that] by simp
  have "entry_matches (take 64 (drop (64 * j) (block_of s dir i))) name"
    using m entry_matches_zone [OF name room [OF j]] by blast
  then have em: "i * ?B + j < Suc M" "entry_matches (entry_of s dir (i * ?B + j)) name"
    using block_entry_matches [OF ok z t d'(2,3) i j] unfolding at sz by simp_all
  have chunk: "entry_of s dir m = take 64 (drop (64 * m) xs)" if "m < M" for m using that c by simp
  have M: "i * ?B + j = M" using em none chunk by (metis less_Suc_eq)
  have inode: "entry_inode (block_of s dir i) j' = rd32 (\<lambda>a. entry_of s dir (i * ?B + j') ! a) 0" if "j' \<le> j" for j'
  proof -
    have "i * ?B + j' \<le> M" using that M by simp
    then have "64 * (i * ?B + j') + 64 \<le> unat (i_size dir)" unfolding sz by simp
    note b = block_entry(1) [OF ok z this [folded at] entry_room [OF d'(3)], unfolded at]
    have jB: "j' < ?B" using that j by simp
    show ?thesis unfolding b [OF jB, symmetric] entry_inode_def using room [OF jB] by (intro rd32_cong) simp
  qed
  have "entry_of s dir M = e" using c by simp
  then have "entry_inode (block_of s dir i) j = n" using inode [of j] M e by simp
  moreover have "entry_inode (block_of s dir i) j' \<noteq> n" if "j' < j" for j'
  proof -
    have "i * ?B + j' < M" using that M by simp
    then show ?thesis unfolding inode [OF less_imp_le [OF that]] using chunk other by metis
  qed
  ultimately show "entry_inode (block_of s dir i) j = n \<and> (\<forall>j' < j. entry_inode (block_of s dir i) j' \<noteq> n)" by blast
qed

section \<open>Directories come and go\<close>

text \<open>
  C20: A directory that was made is found: if no entry of the parent has the name, and an inode and
  three zones are free ahead of the searches, the call takes a free inode, and the lookup of the name
  gives it. In the new directory the name \<open>.\<close> gives the directory itself and \<open>..\<close> the parent, and the
  test whether it may be removed accepts it.
\<close>

theorem minix3_mkdir_then_lookup:
  assumes "layout_ok s" and "inodes_ok s" and "in_table s p" and "minix3_is_inode_occupied s p"
    and "dir = minix3_get_inode s p" and "dir_ok s dir" and "unat (i_size dir) + 64 \<le> 6 * bsz s"
    and "0 \<notin> set dirname" and "length dirname \<le> 59"
    and "minix3_get_inode_from_name s dir dirname = Some (MX3_RETURN_CODE_NOT_FOUND, None)"
    and "ucast (first_data_zone (super s)) \<le> search_start s" and "3 \<le> card (free_ahead s)"
    and "test_available_inode_num s \<noteq> 0" and "test_available_inode_num s \<le> m" and "free_inode s m"
  shows "\<exists>s' n f. minix3_mkdir s p dirname = Some (s', 0) \<and>
    \<not> minix3_is_inode_occupied s n \<and> minix3_is_inode_occupied s' n \<and> f = minix3_get_inode s' n \<and>
    minix3_get_inode_from_name s' (minix3_get_inode s' p) dirname = Some (0, Some (n, f)) \<and>
    minix3_get_inode_from_name s' f [0x2e] = Some (0, Some (n, f)) \<and>
    minix3_get_inode_from_name s' f [0x2e, 0x2e] = Some (0, Some (p, minix3_get_inode s' p)) \<and>
    minix3_rmdir_check s' f = Some 0"
proof -
  obtain s' n f where s': "minix3_mkdir s p dirname = Some (s', 0)"
    "\<not> minix3_is_inode_occupied s n" "minix3_is_inode_occupied s' n" "f = minix3_get_inode s' n"
    "dir_ok s' (minix3_get_inode s' p)" "dir_ok s' f" "unat (i_size f) = 128"
    "name_from s' (minix3_get_inode s' p) dirname 0 None = Some (Some (n, f))"
    "name_from s' f dot 0 None = Some (Some (n, f))"
    "name_from s' f dot_dot 0 None = Some (Some (p, minix3_get_inode s' p))"
    by (rule mkdir_in [OF assms]) (rule that, assumption+)
  have d: "is_directory (minix3_get_inode s' p)" "is_directory f" using s'(5,6) by (simp_all add: dir_ok_def)
  note look = dir_name_found [OF d s'(8)] dir_name_found [OF d(2,2) s'(9)] dir_name_found [OF d(2,1) s'(10)]
  have "i_size f = 128" using s'(7) by (simp add: word_unat_eq_iff)
  then have "minix3_rmdir_check s' f = Some 0" using look(2) by (simp add: minix3_rmdir_check_def)
  then show ?thesis using s'(1-4) look by blast
qed

text \<open>
  C21: A directory that was made can be removed again: the removal succeeds, its name is not found any
  more, its inode is free again, and the parent's count of links is as after a name was taken back. The
  entries of the parent are those of inodes in use, and inode 1, which is not removed, is in use.
\<close>

theorem minix3_mkdir_then_rmdir:
  assumes "layout_ok s" and "inodes_ok s" and "in_table s p" and "minix3_is_inode_occupied s p"
    and "dir = minix3_get_inode s p" and "dir_ok s dir" and "unat (i_size dir) + 64 \<le> 6 * bsz s"
    and "0 \<notin> set dirname" and "length dirname \<le> 59"
    and "minix3_get_inode_from_name s dir dirname = Some (MX3_RETURN_CODE_NOT_FOUND, None)"
    and "ucast (first_data_zone (super s)) \<le> search_start s" and "3 \<le> card (free_ahead s)"
    and "test_available_inode_num s \<noteq> 0" and "test_available_inode_num s \<le> m" and "free_inode s m"
    and "128 \<le> bsz s" and "minix3_is_inode_occupied s 1" and "tail_zero s dir (file_zones s (unat (i_size dir)))"
    and "\<And>m. 64 * m < unat (i_size dir) \<Longrightarrow>
      rd32 (\<lambda>a. entry_of s dir m ! a) 0 = 0 \<or> minix3_is_inode_occupied s (rd32 (\<lambda>a. entry_of s dir m ! a) 0)"
  shows "\<exists>s' s'' n. minix3_mkdir s p dirname = Some (s', 0) \<and> minix3_rmdir s' p dirname = Some (s'', 0) \<and>
    \<not> minix3_is_inode_occupied s n \<and> minix3_is_inode_occupied s' n \<and> \<not> minix3_is_inode_occupied s'' n \<and>
    \<not> minix3_is_zone_occupied s'' (i_zones (minix3_get_inode s' n) ! 0) \<and>
    minix3_get_inode_from_name s'' (minix3_get_inode s'' p) dirname = Some (MX3_RETURN_CODE_NOT_FOUND, None) \<and>
    minix3_get_inode s'' p = (minix3_get_inode s' p)\<lparr>i_nlinks := i_nlinks (minix3_get_inode s' p) - 1\<rparr>"
proof -
  obtain s' n f where s': "minix3_mkdir s p dirname = Some (s', 0)"
    "\<not> minix3_is_inode_occupied s n" "minix3_is_inode_occupied s' n" "f = minix3_get_inode s' n"
    "dir_ok s' (minix3_get_inode s' p)" "dir_ok s' f" "unat (i_size f) = 128"
    "name_from s' (minix3_get_inode s' p) dirname 0 None = Some (Some (n, f))"
    "name_from s' f dot 0 None = Some (Some (n, f))"
    "super s' = super s" "mx3_block_size s' = mx3_block_size s" "minix3_is_inode_in_range s n"
    "contents s' (minix3_get_inode s' p) = contents s dir @ dir_entry_bytes n dirname"
    "tail_zero s dir (file_zones s (unat (i_size dir))) \<longrightarrow>
       tail_zero s' (minix3_get_inode s' p) (file_zones s' (unat (i_size (minix3_get_inode s' p))))"
    "\<forall>i < file_zones s' (unat (i_size (minix3_get_inode s' p))). i_zones (minix3_get_inode s' p) ! i \<notin> set (i_zones f)"
    by (rule mkdir_in [OF assms(1-15)]) (rule that, assumption+)
  have ok': "layout_ok s'" using assms(1) layout_ok_cong [OF s'(10,11)] by simp
  have io: "inodes_ok s'"
    using assms(2) s'(10,11) by (simp add: inodes_ok_def imap_begin_def zmap_begin_def inodes_begin_def data_begin_def)
  have t: "in_table s' p" using assms(3) s'(10,11) by (simp add: in_table_def inode_offset_def data_begin_def)
  have r: "minix3_is_inode_in_range s' n" using s'(12) unfolding minix3_is_inode_in_range_def s'(10) .
  have n: "n \<noteq> 1" "n \<noteq> 0" using s'(2) assms(17) inode_in_range(1) [OF s'(12)] by auto
  note e = dir_entry_matches [OF assms(8,9) n(2)]
  have lc: "length (contents s dir) = unat (i_size dir)" by (simp add: contents_def)
  have "unat (i_size (minix3_get_inode s' p)) = length (contents s' (minix3_get_inode s' p))" by (simp add: contents_def)
  then have size: "unat (i_size (minix3_get_inode s' p)) \<le> 6 * bsz s'"
    using s'(11,13) e(3) lc assms(7) by simp
  have isd: "is_directory dir" using assms(6) by (simp add: dir_ok_def)
  then have nf: "name_from s dir dirname 0 None = Some None"
    using assms(10) by (auto simp: minix3_get_inode_from_name_def split: option.splits bind_splits if_splits)
  have M: "unat (i_size dir) = 64 * (unat (i_size dir) div 64)" using assms(6) by (simp add: dir_ok_def)
  have only: "only_entry s' (minix3_get_inode s' p) n dirname"
  proof (rule only_entry_last [OF ok' s'(5) _ s'(13) _ e(3,2) assms(8,9)])
    show "length (contents s dir) = 64 * (unat (i_size dir) div 64)" using lc M by simp
    fix m assume "m < unat (i_size dir) div 64"
    then have m: "64 * m < unat (i_size dir)" by simp
    show "\<not> entry_matches (entry_of s dir m) dirname"
      by (rule lookup_none_entries [OF assms(1,6) _ assms(8,9) nf m]) (use assms(7) in simp)
    show "rd32 (\<lambda>a. entry_of s dir m ! a) 0 \<noteq> n" using assms(19) [OF m] s'(2) n(2) by auto
  qed (use s'(14) assms(18) in blast)
  have b: "128 \<le> bsz s'" using assms(16) s'(11) by simp
  obtain s'' where "minix3_rmdir s' p dirname = Some (s'', 0)"
    "minix3_get_inode s'' p = (minix3_get_inode s' p)\<lparr>i_nlinks := i_nlinks (minix3_get_inode s' p) - 1\<rparr>"
    "name_from s'' (minix3_get_inode s'' p) dirname 0 None = Some None"
    "\<not> minix3_is_inode_occupied s'' n" "\<not> minix3_is_zone_occupied s'' (i_zones f ! 0)"
    by (rule rmdir_in [OF ok' io b t refl s'(5) size assms(8,9) s'(8) only r n(1) s'(6,7,9,15)]) (rule that, assumption+)
  moreover from this have "minix3_get_inode_from_name s'' (minix3_get_inode s'' p) dirname = Some (MX3_RETURN_CODE_NOT_FOUND, None)"
    using s'(5) by (simp add: minix3_get_inode_from_name_def dir_ok_def is_directory_def)
  ultimately show ?thesis using s'(1-4) by blast
qed

text \<open>The directory \<open>a\<close> in the empty directory of \<open>demo_fs_dir\<close>, whose zones 7, 8 and 9 are free.\<close>

theorem minix3_mkdir_then_lookup_witness:
  "\<exists>s' n f. minix3_mkdir demo_fs_dir 1 [0x61] = Some (s', 0) \<and>
    minix3_get_inode_from_name s' (minix3_get_inode s' 1) [0x61] = Some (0, Some (n, f)) \<and>
    minix3_get_inode_from_name s' f [0x2e, 0x2e] = Some (0, Some (1, minix3_get_inode s' 1))"
proof -
  note D = demo_fs_dir
  have "\<exists>s' n f. minix3_mkdir demo_fs_dir 1 [0x61] = Some (s', 0) \<and>
    \<not> minix3_is_inode_occupied demo_fs_dir n \<and> minix3_is_inode_occupied s' n \<and> f = minix3_get_inode s' n \<and>
    minix3_get_inode_from_name s' (minix3_get_inode s' 1) [0x61] = Some (0, Some (n, f)) \<and>
    minix3_get_inode_from_name s' f [0x2e] = Some (0, Some (n, f)) \<and>
    minix3_get_inode_from_name s' f [0x2e, 0x2e] = Some (0, Some (1, minix3_get_inode s' 1)) \<and>
    minix3_rmdir_check s' f = Some 0"
    by (rule minix3_mkdir_then_lookup [OF D(1-4) refl D(5) _ _ _ D(8-10) _ _ D(12)]) (simp_all add: D(6,7,11) word_le_nat_alt)
  then show ?thesis by blast
qed

theorem minix3_mkdir_then_rmdir_witness:
  "\<exists>s' s''. minix3_mkdir demo_fs_dir 1 [0x61] = Some (s', 0) \<and> minix3_rmdir s' 1 [0x61] = Some (s'', 0) \<and>
    minix3_get_inode_from_name s'' (minix3_get_inode s'' 1) [0x61] = Some (MX3_RETURN_CODE_NOT_FOUND, None)"
proof -
  note D = demo_fs_dir
  have k: "file_zones demo_fs_dir 0 = 0" by (simp add: file_zones_def D(7))
  have "\<exists>s' s'' n. minix3_mkdir demo_fs_dir 1 [0x61] = Some (s', 0) \<and> minix3_rmdir s' 1 [0x61] = Some (s'', 0) \<and>
    \<not> minix3_is_inode_occupied demo_fs_dir n \<and> minix3_is_inode_occupied s' n \<and> \<not> minix3_is_inode_occupied s'' n \<and>
    \<not> minix3_is_zone_occupied s'' (i_zones (minix3_get_inode s' n) ! 0) \<and>
    minix3_get_inode_from_name s'' (minix3_get_inode s'' 1) [0x61] = Some (MX3_RETURN_CODE_NOT_FOUND, None) \<and>
    minix3_get_inode s'' 1 = (minix3_get_inode s' 1)\<lparr>i_nlinks := i_nlinks (minix3_get_inode s' 1) - 1\<rparr>"
    by (rule minix3_mkdir_then_rmdir [OF D(1-4) refl D(5) _ _ _ D(8-10) _ _ D(12) _ D(4)])
      (simp_all add: D(6,7,11) k tail_zero_def word_le_nat_alt)
  then show ?thesis by blast
qed

end
