(* ===== verification/Mem_Utils.thy ===== *)
theory Mem_Utils
  imports Kernel_Prelude
begin

text \<open>
  The memory routines of \<^verbatim>\<open>src/utils.c\<close>: \<open>memset\<close>, \<open>memcpy\<close> and \<open>memcmp\<close>. The
  first two run their bulk in eight-byte accesses and the remainder byte by byte; the theorems
  show that they agree with the byte-wise closed forms of the prelude. The size is a C
  \<open>int\<close>, and a negative size runs no iteration of either loop.
\<close>

section \<open>memset\<close>

text \<open>The loop \<open>*ldst++ = *((long*)l)\<close>; the result is the memory and the final pointer.\<close>

fun memset_longs :: "mem \<Rightarrow> u64 \<Rightarrow> u64 \<Rightarrow> nat \<Rightarrow> mem \<times> u64" where
  "memset_longs m ldst w 0 = (m, ldst)"
| "memset_longs m ldst w (Suc k) = memset_longs (store64 m ldst w) (ldst + 8) w k"

fun memset_chars :: "mem \<Rightarrow> u64 \<Rightarrow> u8 \<Rightarrow> nat \<Rightarrow> mem" where
  "memset_chars m cdst c 0 = m"
| "memset_chars m cdst c (Suc k) = memset_chars (m(cdst := c)) (cdst + 1) c k"

text \<open>The array \<open>l\<close> holds eight copies of \<open>data\<close>; reading it as a \<open>long\<close> gives the word.\<close>

definition memset :: "mem \<Rightarrow> u64 \<Rightarrow> u8 \<Rightarrow> int \<Rightarrow> mem" where
  "memset m dst data sz =
     (let l = (\<lambda>_. data);
          num_8_byte_copies = nat sz div 8;
          num_1_byte_copies = nat sz mod 8;
          (m1, cdst) = memset_longs m dst (load64 l 0) num_8_byte_copies
      in memset_chars m1 cdst data num_1_byte_copies)"

section \<open>memcpy\<close>

fun memcpy_longs :: "mem \<Rightarrow> u64 \<Rightarrow> u64 \<Rightarrow> nat \<Rightarrow> mem \<times> u64 \<times> u64" where
  "memcpy_longs m ldst lsrc 0 = (m, ldst, lsrc)"
| "memcpy_longs m ldst lsrc (Suc k) =
     memcpy_longs (store64 m ldst (load64 m lsrc)) (ldst + 8) (lsrc + 8) k"

fun memcpy_chars :: "mem \<Rightarrow> u64 \<Rightarrow> u64 \<Rightarrow> nat \<Rightarrow> mem" where
  "memcpy_chars m cdst csrc 0 = m"
| "memcpy_chars m cdst csrc (Suc k) =
     memcpy_chars (m(cdst := m csrc)) (cdst + 1) (csrc + 1) k"

definition memcpy :: "mem \<Rightarrow> u64 \<Rightarrow> u64 \<Rightarrow> int \<Rightarrow> mem" where
  "memcpy m dst src sz =
     (let num_8_byte_copies = nat sz div 8;
          num_1_byte_copies = nat sz mod 8;
          (m1, cdst, csrc) = memcpy_longs m dst src num_8_byte_copies
      in memcpy_chars m1 cdst csrc num_1_byte_copies)"

section \<open>memcmp\<close>

text \<open>Unlike the standard library's function, this one answers 1 for equal ranges.\<close>

fun memcmp_from :: "mem \<Rightarrow> u64 \<Rightarrow> u64 \<Rightarrow> nat \<Rightarrow> int" where
  "memcmp_from m hay need 0 = 1"
| "memcmp_from m hay need (Suc k) =
     (if m hay \<noteq> m need then 0 else memcmp_from m (hay + 1) (need + 1) k)"

definition memcmp :: "mem \<Rightarrow> u64 \<Rightarrow> u64 \<Rightarrow> int \<Rightarrow> int" where
  "memcmp m haystack needle sz = memcmp_from m haystack needle (nat sz)"

section \<open>Agreement with the byte-wise specifications\<close>

lemma memset_longs_fill:
  "8 * k \<le> 2 ^ 64 \<Longrightarrow>
   memset_longs m d (load64 (\<lambda>_. c) 0) k = (fill m d c (8 * k), d + of_nat (8 * k))"
proof (induction k arbitrary: m d)
  case (Suc k)
  have "fill (fill m d c 8) (d + 8) c (8 * k) = fill m d c (8 + 8 * k)"
    using fill_fill [of 8 "8 * k" m d c] Suc.prems by simp
  then show ?case
    using Suc by (simp add: store64_load64_fill algebra_simps)
qed simp

lemma fill_one: "fill m d c (Suc 0) = m(d := c)"
  by (auto simp: fill_def unat_eq_0)

lemma memset_chars_fill: "k < 2 ^ 64 \<Longrightarrow> memset_chars m d c k = fill m d c k"
proof (induction k arbitrary: m d)
  case (Suc k)
  have "fill (fill m d c 1) (d + 1) c k = fill m d c (1 + k)"
    using fill_fill [of 1 k m d c] Suc.prems by simp
  then show ?case
    using Suc by (simp add: fill_one)
qed simp

lemma memset_fill:
  assumes "sz < 2 ^ 63"
  shows "memset m d c sz = fill m d c (nat sz)"
proof -
  let ?q = "nat sz div 8" and ?r = "nat sz mod 8"
  have n: "8 * ?q + ?r = nat sz" by simp
  have b: "nat sz < 2 ^ 63" using assms by simp
  have "fill (fill m d c (8 * ?q)) (d + of_nat (8 * ?q)) c ?r = fill m d c (nat sz)"
    using fill_fill [of "8 * ?q" ?r m d c] n b by simp
  then show ?thesis
    using b n by (simp add: memset_def memset_longs_fill memset_chars_fill)
qed

lemma apart_shift:
  assumes "apart d (k + n) s (k + n)" and "k + n \<le> 2 ^ 64" and "k < 2 ^ 64"
  shows "apart (d + of_nat k) n (s + of_nat k) n"
  unfolding apart_def
proof (intro allI notI)
  fix x
  assume "unat (x - (d + of_nat k)) < n \<and> unat (x - (s + of_nat k)) < n"
  then have "unat (x - d) < k + n" "unat (x - s) < k + n"
    using unat_diff_of_nat [OF assms(3), of "x - d"] unat_diff_of_nat [OF assms(3), of "x - s"]
      assms(2,3) by (auto simp: diff_diff_eq split: if_splits)
  then show False using assms(1) unfolding apart_def by blast
qed

lemma memcpy_longs_copy:
  "8 * k \<le> 2 ^ 64 \<Longrightarrow> apart d (8 * k) s (8 * k) \<Longrightarrow>
   memcpy_longs m d s k = (copy m d s (8 * k), d + of_nat (8 * k), s + of_nat (8 * k))"
proof (induction k arbitrary: m d s)
  case (Suc k)
  have "apart (d + 8) (8 * k) (s + 8) (8 * k)"
    using apart_shift [of d 8 "8 * k" s] Suc.prems by simp
  moreover have "copy (copy m d s 8) (d + 8) (s + 8) (8 * k) = copy m d s (8 + 8 * k)"
    using copy_copy [of 8 "8 * k" d s m] Suc.prems by simp
  ultimately show ?case
    using Suc by (simp add: store64_load64_copy algebra_simps)
qed simp

lemma copy_one: "copy m d s (Suc 0) = m(d := m s)"
  by (auto simp: copy_def unat_eq_0)

lemma memcpy_chars_copy:
  "k < 2 ^ 64 \<Longrightarrow> apart d k s k \<Longrightarrow> memcpy_chars m d s k = copy m d s k"
proof (induction k arbitrary: m d s)
  case (Suc k)
  have "apart (d + 1) k (s + 1) k"
    using apart_shift [of d 1 k s] Suc.prems by simp
  moreover have "copy (copy m d s 1) (d + 1) (s + 1) k = copy m d s (1 + k)"
    using copy_copy [of 1 k d s m] Suc.prems by simp
  ultimately show ?case
    using Suc by (simp add: copy_one)
qed simp

lemma memcpy_copy:
  assumes "sz < 2 ^ 63" and ap: "apart d (nat sz) s (nat sz)"
  shows "memcpy m d s sz = copy m d s (nat sz)"
proof -
  let ?q = "nat sz div 8" and ?r = "nat sz mod 8"
  have n: "8 * ?q + ?r = nat sz" by simp
  have b: "nat sz < 2 ^ 63" using assms(1) by simp
  have 1: "apart d (8 * ?q) s (8 * ?q)" using ap by (rule apart_mono) auto
  have 2: "apart (d + of_nat (8 * ?q)) ?r (s + of_nat (8 * ?q)) ?r"
    using apart_shift [of d "8 * ?q" ?r s] ap n b by simp
  have "copy (copy m d s (8 * ?q)) (d + of_nat (8 * ?q)) (s + of_nat (8 * ?q)) ?r = copy m d s (nat sz)"
    using copy_copy [of "8 * ?q" ?r d s m] n b ap by simp
  then show ?thesis
    using b n 1 2 by (simp add: memcpy_def memcpy_longs_copy memcpy_chars_copy)
qed

lemma memcpy_nat:
  assumes "c < 2 ^ 31" and "apart d c s c"
  shows "memcpy m d s (int c) = copy m d s c"
  using memcpy_copy [of "int c" d s m] assms by simp

lemma memcmp_from_iff:
  "memcmp_from m h d n = (if \<forall>k < n. m (h + of_nat k) = m (d + of_nat k) then 1 else 0)"
proof (induction n arbitrary: h d)
  case (Suc n)
  have "(\<forall>k < Suc n. m (h + of_nat k) = m (d + of_nat k)) \<longleftrightarrow>
        m h = m d \<and> (\<forall>k < n. m (h + 1 + of_nat k) = m (d + 1 + of_nat k))"
    by (simp add: All_less_Suc2 add.assoc)
  then show ?case using Suc by simp
qed simp

section \<open>Properties\<close>

text \<open>
  For ranges that do not overlap, \<open>memcpy\<close> puts at every destination address the byte at
  the corresponding source address and changes no other byte.
\<close>

theorem memcpy_correct:
  assumes "sz < 2 ^ 31" and "apart d (nat sz) s (nat sz)"
  shows "memcpy m d s sz x = (if unat (x - d) < nat sz then m (s + (x - d)) else m x)"
  using memcpy_copy [OF _ assms(2)] assms(1) by (simp add: copy_def)

lemma apart_witness: "apart 0 11 16 11"
proof -
  have False if "unat x < 11" "unat (x - 16) < 11" for x :: u64
    using that unat_diff_of_nat [of 16 x] by simp
  then show ?thesis by (auto simp: apart_def)
qed

theorem memcpy_correct_witness: "memcpy (\<lambda>a. ucast a) 0 16 11 10 = 26"
  using memcpy_correct [of 11 0 16 "\<lambda>a. ucast a" 10] apart_witness by simp

end
