(* ===== verification/Page.thy ===== *)
theory Page
  imports Mem_Utils
begin

text \<open>
  The physical page allocator of \<^verbatim>\<open>src/page.c\<close>. Two bits per page, packed four pages to
  a byte at the start of the heap, record whether a page is taken and whether it is the last of
  its allocation. The bits live in byte memory, as in the code; the linker symbols that bound
  the heap are the record \<open>heap_syms\<close>, a parameter of every operation.

  The locale \<open>page_marks\<close> states the read-over-write laws of the six bit operations; runs of
  marks are reasoned about once inside it and the code's bit operations are an interpretation.
\<close>

section \<open>Model\<close>

record heap_syms =
  heap_start :: u64
  heap_end :: u64

subsection \<open>The bookkeeping bits\<close>

definition is_taken :: "mem \<Rightarrow> u64 \<Rightarrow> nat \<Rightarrow> bool" where
  "is_taken m b page_n =
     (let which_byte = page_n div 4; which_bit = 2 * (page_n mod 4)
      in drop_bit which_bit (m (b + of_nat which_byte)) AND 1 = 1)"

definition clear_taken :: "mem \<Rightarrow> u64 \<Rightarrow> nat \<Rightarrow> mem" where
  "clear_taken m b page_n =
     (let which_byte = page_n div 4; which_bit = 2 * (page_n mod 4); a = b + of_nat which_byte
      in m(a := m a AND NOT (push_bit which_bit 1)))"

definition set_taken :: "mem \<Rightarrow> u64 \<Rightarrow> nat \<Rightarrow> mem" where
  "set_taken m b page_n =
     (let which_byte = page_n div 4; which_bit = 2 * (page_n mod 4); a = b + of_nat which_byte
      in m(a := m a OR push_bit which_bit 1))"

definition is_last :: "mem \<Rightarrow> u64 \<Rightarrow> nat \<Rightarrow> bool" where
  "is_last m b page_n =
     (let which_byte = page_n div 4; which_bit = 2 * (page_n mod 4) + 1
      in drop_bit which_bit (m (b + of_nat which_byte)) AND 1 = 1)"

definition clear_last :: "mem \<Rightarrow> u64 \<Rightarrow> nat \<Rightarrow> mem" where
  "clear_last m b page_n =
     (let which_byte = page_n div 4; which_bit = 2 * (page_n mod 4) + 1; a = b + of_nat which_byte
      in m(a := m a AND NOT (push_bit which_bit 1)))"

definition set_last :: "mem \<Rightarrow> u64 \<Rightarrow> nat \<Rightarrow> mem" where
  "set_last m b page_n =
     (let which_byte = page_n div 4; which_bit = 2 * (page_n mod 4) + 1; a = b + of_nat which_byte
      in m(a := m a OR push_bit which_bit 1))"

subsection \<open>Sizes computed from the linker symbols\<close>

definition heap_memory :: "heap_syms \<Rightarrow> u64" where
  "heap_memory hs = heap_end hs - heap_start hs"

definition total_pages :: "heap_syms \<Rightarrow> u64" where
  "total_pages hs = heap_memory hs div 4096"

definition bookkeeping_bytes :: "heap_syms \<Rightarrow> u64" where
  "bookkeeping_bytes hs = total_pages hs div 4"

text \<open>\<open>(x + PAGE_SIZE - 1) & (-PAGE_SIZE)\<close>\<close>

definition page_round_up :: "u64 \<Rightarrow> u64" where
  "page_round_up x = (x + 4096 - 1) AND (- 4096)"

definition pages_for_bookkeeping :: "heap_syms \<Rightarrow> u64" where
  "pages_for_bookkeeping hs = page_round_up (bookkeeping_bytes hs) div 4096"

subsection \<open>Operations\<close>

text \<open>
  \<open>page_init\<close>: with no bookkeeping page (a heap of fewer than four pages) the code would mark
  page \<open>-1\<close>, a shift by a negative amount; the result is then \<open>None\<close>.
\<close>

definition page_init :: "heap_syms \<Rightarrow> mem \<Rightarrow> mem option" where
  "page_init hs m =
     (let char_start = heap_start hs;
          m1 = memset m (heap_start hs) 0 (sint (ucast (bookkeeping_bytes hs) :: u32));
          n = unat (pages_for_bookkeeping hs);
          m2 = fold (\<lambda>i m. set_taken m char_start i) [0..<n] m1
      in if n = 0 then None else Some (set_last m2 char_start (n - 1)))"

text \<open>The inner loop of \<open>page_znalloc\<close>: from page \<open>j\<close>, with \<open>consecutive\<close> free pages seen.\<close>

function znalloc_scan :: "heap_syms \<Rightarrow> mem \<Rightarrow> int \<Rightarrow> nat \<Rightarrow> nat \<Rightarrow> nat option" where
  "znalloc_scan hs m n j consecutive =
     (if j < unat (total_pages hs) then
        (if is_taken m (heap_start hs) j then None
         else if int (consecutive + 1) \<ge> n then Some (consecutive + 1)
         else znalloc_scan hs m n (j + 1) (consecutive + 1))
      else None)"
  by pat_completeness auto
termination
  by (relation "measure (\<lambda>(hs, m, n, j, c). unat (total_pages hs) - j)") auto

text \<open>The outer loop: the first page number tried is \<open>i\<close>, and only the first tenth is tried.\<close>

function znalloc_search :: "heap_syms \<Rightarrow> mem \<Rightarrow> int \<Rightarrow> nat \<Rightarrow> (nat \<times> nat) option" where
  "znalloc_search hs m n i =
     (if i < unat (total_pages hs div 10) then
        (if \<not> is_taken m (heap_start hs) i then
           (case znalloc_scan hs m n i 0 of
              Some consecutive \<Rightarrow> Some (i, consecutive)
            | None \<Rightarrow> znalloc_search hs m n (i + 1))
         else znalloc_search hs m n (i + 1))
      else None)"
  by pat_completeness auto
termination
  by (relation "measure (\<lambda>(hs, m, n, i). unat (total_pages hs div 10) - i)") auto

declare znalloc_scan.simps [simp del] znalloc_search.simps [simp del]

definition page_znalloc :: "heap_syms \<Rightarrow> mem \<Rightarrow> int \<Rightarrow> mem \<times> u64" where
  "page_znalloc hs m n =
     (let start = heap_start hs; char_start = start in
      case znalloc_search hs m n 0 of
        None \<Rightarrow> (m, NULL)
      | Some (i, consecutive) \<Rightarrow>
          (let m1 = fold (\<lambda>j m. set_taken m char_start (i + j)) [0..<consecutive] m;
               m2 = set_last m1 char_start (i + consecutive - 1);
               bk = (bookkeeping_bytes hs + 4095) AND (- 4096);
               p = start + bk + of_nat (PAGE_SIZE * i)
           in (memset m2 p 0 (int (PAGE_SIZE * consecutive)), p)))"

definition page_zalloc :: "heap_syms \<Rightarrow> mem \<Rightarrow> mem \<times> u64" where
  "page_zalloc hs m = page_znalloc hs m 1"

text \<open>
  The \<open>do ... while(1)\<close> loop of \<open>page_free\<close>. A walk that leaves the page numbers of the heap
  reads bits outside the bookkeeping area; the result is then \<open>None\<close>.
\<close>

function page_free_loop :: "heap_syms \<Rightarrow> mem \<Rightarrow> nat \<Rightarrow> mem option" where
  "page_free_loop hs m location =
     (if location < unat (total_pages hs) then
        (if \<not> is_taken m (heap_start hs) location then Some m
         else if is_last m (heap_start hs) location then
           Some (clear_last (clear_taken m (heap_start hs) location) (heap_start hs) location)
         else page_free_loop hs (clear_taken m (heap_start hs) location) (location + 1))
      else None)"
  by pat_completeness auto
termination
  by (relation "measure (\<lambda>(hs, m, l). unat (total_pages hs) - l)") auto

declare page_free_loop.simps [simp del]

definition page_location :: "heap_syms \<Rightarrow> u64 \<Rightarrow> u64" where
  "page_location hs page = (page - bookkeeping_bytes hs - heap_start hs) div 4096"

text \<open>
  \<open>page_free\<close>. Freeing page 0, or a pointer below the first page, makes the code inspect page
  number \<open>-1\<close> (a negative shift) or a page number that does not fit its \<open>int\<close> parameter:
  \<open>None\<close>. The report "free of bookkeeping pages" does not stop the call.
\<close>

definition page_free :: "heap_syms \<Rightarrow> mem \<Rightarrow> u64 \<Rightarrow> mem option" where
  "page_free hs m page =
     (let start = heap_start hs; location = unat (page_location hs page) in
      if page < start \<or> page > heap_end hs then Some m
      else if location = 0 \<or> location \<ge> 2 ^ 31 then None
      else
        (let m1 = (if is_taken m start (location - 1) then set_last m start (location - 1) else m)
         in page_free_loop hs m1 location))"

section \<open>Laws of the mark bits\<close>

locale page_marks =
  fixes taken :: "'m \<Rightarrow> nat \<Rightarrow> bool" and final :: "'m \<Rightarrow> nat \<Rightarrow> bool"
    and set_t :: "'m \<Rightarrow> nat \<Rightarrow> 'm" and clr_t :: "'m \<Rightarrow> nat \<Rightarrow> 'm"
    and set_f :: "'m \<Rightarrow> nat \<Rightarrow> 'm" and clr_f :: "'m \<Rightarrow> nat \<Rightarrow> 'm"
    and idx :: "nat \<Rightarrow> bool"
  assumes taken_set_t: "idx p \<Longrightarrow> idx q \<Longrightarrow> taken (set_t m p) q \<longleftrightarrow> p = q \<or> taken m q"
    and taken_clr_t: "idx p \<Longrightarrow> idx q \<Longrightarrow> taken (clr_t m p) q \<longleftrightarrow> p \<noteq> q \<and> taken m q"
    and taken_set_f: "idx p \<Longrightarrow> idx q \<Longrightarrow> taken (set_f m p) q \<longleftrightarrow> taken m q"
    and taken_clr_f: "idx p \<Longrightarrow> idx q \<Longrightarrow> taken (clr_f m p) q \<longleftrightarrow> taken m q"
    and final_set_t: "idx p \<Longrightarrow> idx q \<Longrightarrow> final (set_t m p) q \<longleftrightarrow> final m q"
    and final_clr_t: "idx p \<Longrightarrow> idx q \<Longrightarrow> final (clr_t m p) q \<longleftrightarrow> final m q"
    and final_set_f: "idx p \<Longrightarrow> idx q \<Longrightarrow> final (set_f m p) q \<longleftrightarrow> p = q \<or> final m q"
    and final_clr_f: "idx p \<Longrightarrow> idx q \<Longrightarrow> final (clr_f m p) q \<longleftrightarrow> p \<noteq> q \<and> final m q"
    and idx_down: "idx q \<Longrightarrow> p \<le> q \<Longrightarrow> idx p"
begin

lemmas mark_laws =
  taken_set_t taken_clr_t taken_set_f taken_clr_f
  final_set_t final_clr_t final_set_f final_clr_f

text \<open>Marking a run of pages takes exactly those pages.\<close>

lemma taken_mark_run:
  "idx (i + c) \<Longrightarrow> idx q \<Longrightarrow>
   taken (fold (\<lambda>j m. set_t m (i + j)) [0..<c] m) q \<longleftrightarrow> i \<le> q \<and> q < i + c \<or> taken m q"
proof (induction c)
  case (Suc c)
  have "idx (i + c)" using Suc.prems(1) by (rule idx_down) simp
  with Suc show ?case by (auto simp: mark_laws)
qed auto

lemma final_mark_run:
  "idx (i + c) \<Longrightarrow> idx q \<Longrightarrow>
   final (fold (\<lambda>j m. set_t m (i + j)) [0..<c] m) q \<longleftrightarrow> final m q"
proof (induction c)
  case (Suc c)
  have "idx (i + c)" using Suc.prems(1) by (rule idx_down) simp
  with Suc show ?case by (simp add: mark_laws)
qed simp

end

lemma bit_test: "(drop_bit k (w :: u8) AND 1 = 1) = bit w k"
  by (simp add: and_one_eq bit_iff_odd_drop_bit odd_iff_mod_2_eq_one)

lemma mark_byte:
  assumes "p < 2 ^ 64" and "q < 2 ^ 64"
  shows "(m(b + of_nat (p div 4) := w)) (b + (of_nat (q div 4) :: u64)) =
    (if p div 4 = q div 4 then w else m (b + of_nat (q div 4)))"
proof -
  have "p div 4 < 2 ^ 64" "q div 4 < 2 ^ 64" using assms by linarith+
  then have "(of_nat (p div 4) :: u64) = of_nat (q div 4) \<longleftrightarrow> p div 4 = q div 4"
    by (rule of_nat_inj_64)
  then show ?thesis by auto
qed

lemma div_mod_4_eqD: "p div 4 = q div 4 \<Longrightarrow> p mod 4 = q mod 4 \<Longrightarrow> p = (q :: nat)"
  by (metis mult_div_mod_eq)

lemma bit_set_mark: "k < 8 \<Longrightarrow> bit (w OR push_bit k (1 :: u8)) j \<longleftrightarrow> k = j \<or> bit w j"
  by (auto simp: bit_simps)

lemma bit_clear_mark: "j < 8 \<Longrightarrow> bit (w AND NOT (push_bit k (1 :: u8))) j \<longleftrightarrow> k \<noteq> j \<and> bit w j"
  by (auto simp: bit_simps)

lemma double_mod_4: "2 * (p mod 4) < (8 :: nat)" "2 * (p mod 4) + 1 < (8 :: nat)"
  by presburger+

lemma same_mark_iff:
  "(p div 4 = q div 4 \<and> 2 * (p mod 4) = 2 * (q mod 4)) = (p = (q :: nat))"
  "(p div 4 = q div 4 \<and> 2 * (p mod 4) + 1 = 2 * (q mod 4) + 1) = (p = (q :: nat))"
  "2 * x + 1 \<noteq> 2 * (y :: nat)" "2 * x \<noteq> 2 * (y :: nat) + 1"
  by (auto dest: div_mod_4_eqD) presburger+

lemmas mark_defs = is_taken_def clear_taken_def set_taken_def is_last_def clear_last_def set_last_def

lemmas mark_bits =
  mark_defs Let_def bit_test mark_byte bit_set_mark bit_clear_mark double_mod_4

interpretation marks: page_marks
  "\<lambda>m. is_taken m b" "\<lambda>m. is_last m b" "\<lambda>m. set_taken m b" "\<lambda>m. clear_taken m b"
  "\<lambda>m. set_last m b" "\<lambda>m. clear_last m b" "\<lambda>p. p < 2 ^ 64" for b
proof (unfold_locales, goal_cases)
  case (1 p q m)
  then show ?case using same_mark_iff(1) [of p q] by (auto simp only: mark_bits split: if_splits)
next
  case (2 p q m)
  then show ?case using same_mark_iff(1) [of p q] by (auto simp only: mark_bits split: if_splits)
next
  case (3 p q m)
  then show ?case by (simp only: mark_bits same_mark_iff split: if_splits) simp
next
  case (4 p q m)
  then show ?case by (simp only: mark_bits same_mark_iff split: if_splits) simp
next
  case (5 p q m)
  then show ?case by (simp only: mark_bits same_mark_iff split: if_splits) simp
next
  case (6 p q m)
  then show ?case by (simp only: mark_bits same_mark_iff split: if_splits) simp
next
  case (7 p q m)
  then show ?case using same_mark_iff(2) [of p q] by (auto simp only: mark_bits split: if_splits)
next
  case (8 p q m)
  then show ?case using same_mark_iff(2) [of p q] by (auto simp only: mark_bits split: if_splits)
qed simp

section \<open>Sizes\<close>

text \<open>
  The heaps the development is about: page aligned, not at address 0, at least four pages (so
  that the bookkeeping takes a page), smaller than 2 GiB (page counts and byte counts fit the
  \<open>int\<close> parameters) and far from the end of the address space. The linker script's heap on the
  256 MiB machine of the Makefile is one of them.
\<close>

definition heap_ok :: "heap_syms \<Rightarrow> bool" where
  "heap_ok hs \<longleftrightarrow> heap_start hs \<noteq> 0 \<and> 4096 dvd unat (heap_start hs) \<and>
     heap_start hs \<le> heap_end hs \<and> unat (heap_end hs) < 2 ^ 55 \<and>
     unat (heap_memory hs) < 2 ^ 31 \<and> 4 \<le> unat (total_pages hs)"

abbreviation npages :: "heap_syms \<Rightarrow> nat" where
  "npages hs \<equiv> unat (total_pages hs)"

abbreviation nbytes :: "heap_syms \<Rightarrow> nat" where
  "nbytes hs \<equiv> unat (bookkeeping_bytes hs)"

abbreviation nbook :: "heap_syms \<Rightarrow> nat" where
  "nbook hs \<equiv> unat (pages_for_bookkeeping hs)"

text \<open>The address of page \<open>i\<close>, as \<open>page_znalloc\<close> computes it.\<close>

definition page_addr :: "heap_syms \<Rightarrow> nat \<Rightarrow> u64" where
  "page_addr hs i = heap_start hs + page_round_up (bookkeeping_bytes hs) + of_nat (PAGE_SIZE * i)"

lemma and_not_mask: "(w :: u64) AND NOT (mask n) = push_bit n (drop_bit n w)"
  by (rule bit_eqI) (auto simp: bit_simps)

lemma and_neg_4096: "(w :: u64) AND (- 4096) = push_bit 12 (drop_bit 12 w)"
proof -
  have "NOT (mask 12) = (- 4096 :: u64)" by (simp add: mask_eq_exp_minus_1 not_eq_complement)
  then show ?thesis using and_not_mask [of w 12] by simp
qed

lemma unat_page_round_up:
  assumes "unat x + 4095 < 2 ^ 64"
  shows "unat (page_round_up x) = (unat x + 4095) div 4096 * 4096"
proof -
  have "x + 4096 - 1 = x + of_nat 4095" by simp
  then have "unat (x + 4096 - 1) = unat x + 4095"
    using unat_add_of_nat [OF assms] by (simp add: add.commute)
  moreover have "unat (push_bit 12 (drop_bit 12 w)) = unat w div 4096 * 4096" for w :: u64
  proof -
    have "unat w div 4096 * 4096 < 2 ^ 64"
      using unat_lt_64 [of w] by (meson div_times_less_eq_dividend le_less_trans)
    then show ?thesis
      by (simp add: push_bit_eq_mult drop_bit_eq_div unat_word_ariths unat_div)
  qed
  ultimately show ?thesis by (simp add: page_round_up_def and_neg_4096)
qed

lemma npages_eq: "npages hs = unat (heap_memory hs) div 4096"
  by (simp add: total_pages_def unat_div)

lemma nbytes_eq: "nbytes hs = npages hs div 4"
  by (simp add: bookkeeping_bytes_def unat_div)

lemma heap_okD:
  assumes "heap_ok hs"
  shows "npages hs < 2 ^ 19" "nbytes hs < 2 ^ 17" "0 < nbytes hs" "4 \<le> npages hs"
    "unat (heap_start hs) + unat (heap_memory hs) = unat (heap_end hs)"
    "unat (heap_end hs) < 2 ^ 55" "4096 dvd unat (heap_start hs)" "0 < unat (heap_start hs)"
    "4096 * npages hs \<le> unat (heap_memory hs)"
proof -
  show "npages hs < 2 ^ 19" using assms by (auto simp: heap_ok_def npages_eq)
  then show "nbytes hs < 2 ^ 17" by (simp add: nbytes_eq)
  show "0 < nbytes hs" "4 \<le> npages hs" using assms by (auto simp: heap_ok_def nbytes_eq)
  show "unat (heap_start hs) + unat (heap_memory hs) = unat (heap_end hs)"
    using assms by (simp add: heap_ok_def heap_memory_def unat_sub word_le_nat_alt)
  show "unat (heap_end hs) < 2 ^ 55" "4096 dvd unat (heap_start hs)" "0 < unat (heap_start hs)"
    using assms by (auto simp: heap_ok_def unat_gt_0)
  show "4096 * npages hs \<le> unat (heap_memory hs)" by (simp add: npages_eq)
qed

lemma unat_round_bookkeeping:
  assumes "heap_ok hs"
  shows "unat (page_round_up (bookkeeping_bytes hs)) = 4096 * nbook hs"
    "nbook hs = (nbytes hs + 4095) div 4096"
proof -
  have r: "unat (page_round_up (bookkeeping_bytes hs)) = (nbytes hs + 4095) div 4096 * 4096"
    using heap_okD(2) [OF assms] by (intro unat_page_round_up) simp
  then show "nbook hs = (nbytes hs + 4095) div 4096"
    by (simp add: pages_for_bookkeeping_def unat_div)
  with r show "unat (page_round_up (bookkeeping_bytes hs)) = 4096 * nbook hs" by simp
qed

lemma nbook_bounds:
  assumes "heap_ok hs"
  shows "0 < nbook hs" "nbook hs \<le> 32" "nbytes hs \<le> 4096 * nbook hs" "nbook hs \<le> npages hs"
  using unat_round_bookkeeping(2) [OF assms] heap_okD(1-4) [OF assms] nbytes_eq [of hs] by auto

lemma page_addr_offset:
  assumes "heap_ok hs"
  shows "page_addr hs i = heap_start hs + of_nat (4096 * (nbook hs + i))"
proof -
  have "page_round_up (bookkeeping_bytes hs) = of_nat (4096 * nbook hs)"
    by (metis unat_round_bookkeeping(1) [OF assms] of_nat_unat ucast_id)
  then show ?thesis by (simp add: page_addr_def algebra_simps)
qed

lemma unat_page_addr:
  assumes "heap_ok hs" and "i \<le> npages hs"
  shows "unat (page_addr hs i) = unat (heap_start hs) + 4096 * (nbook hs + i)"
  unfolding page_addr_offset [OF assms(1)]
  using assms(2) heap_okD [OF assms(1)] nbook_bounds [OF assms(1)]
  by (intro unat_add_of_nat) simp

section \<open>The search for a free run\<close>

definition run_free :: "heap_syms \<Rightarrow> mem \<Rightarrow> nat \<Rightarrow> nat \<Rightarrow> bool" where
  "run_free hs m i k \<longleftrightarrow> i + k \<le> npages hs \<and> list_all (\<lambda>q. \<not> is_taken m (heap_start hs) q) [i..<i + k]"

lemma run_free_iff:
  "run_free hs m i k \<longleftrightarrow>
     i + k \<le> npages hs \<and> (\<forall>q. i \<le> q \<and> q < i + k \<longrightarrow> \<not> is_taken m (heap_start hs) q)"
  by (auto simp: run_free_def list_all_iff)

lemma run_free_Suc:
  "run_free hs m i (Suc k) \<longleftrightarrow>
     i < npages hs \<and> \<not> is_taken m (heap_start hs) i \<and> run_free hs m (Suc i) k"
proof -
  have "[i..<i + Suc k] = i # [Suc i..<Suc i + k]" by (simp add: upt_conv_Cons)
  then show ?thesis by (auto simp: run_free_def simp del: upt_Suc)
qed

lemma run_free_0 [simp]: "run_free hs m i 0 \<longleftrightarrow> i \<le> npages hs"
  by (simp add: run_free_def)

text \<open>A request for fewer than one page is served with one page.\<close>

abbreviation request :: "int \<Rightarrow> nat" where
  "request n \<equiv> max 1 (nat n)"

lemma request_last: "i \<le> i + request n - 1" "i + request n - 1 < i + request n"
  by linarith+

lemma znalloc_scan_eq:
  "znalloc_scan hs m n j c =
     (let r = max (Suc c) (nat n) in if run_free hs m j (r - c) then Some r else None)"
proof (induction hs m n j c rule: znalloc_scan.induct)
  case (1 hs m n j c)
  let ?r = "max (Suc c) (nat n)"
  obtain d where d: "?r - c = Suc d" by (metis Suc_diff_le max.cobounded1 diff_Suc_Suc)
  show ?case
  proof (cases "j < npages hs \<and> \<not> is_taken m (heap_start hs) j \<and> int (c + 1) < n")
    case True
    then have "max (Suc (Suc c)) (nat n) = ?r" "?r - Suc c = d" using d by linarith+
    with 1 True d show ?thesis
      by (simp add: znalloc_scan.simps [of hs m n j c] run_free_Suc Let_def)
  next
    case False
    moreover have "int (c + 1) \<ge> n \<Longrightarrow> d = 0 \<and> ?r = Suc c" using d by linarith
    ultimately show ?thesis
      using d by (auto simp: znalloc_scan.simps [of hs m n j c] run_free_Suc Let_def)
  qed
qed

lemma znalloc_search_unfold:
  "znalloc_search hs m n i =
     (if i < npages hs div 10 then
        if run_free hs m i (request n) then Some (i, request n) else znalloc_search hs m n (Suc i)
      else None)"
proof -
  have "\<not> run_free hs m i (request n)" if "is_taken m (heap_start hs) i"
    using that by (auto simp: run_free_iff)
  then show ?thesis
    by (auto simp: znalloc_search.simps [of hs m n i] unat_div znalloc_scan_eq Let_def)
qed

lemma znalloc_search_Some:
  "znalloc_search hs m n i = Some (r, c) \<Longrightarrow>
     c = request n \<and> i \<le> r \<and> r < npages hs div 10 \<and> run_free hs m r c \<and>
     (\<forall>k. i \<le> k \<and> k < r \<longrightarrow> \<not> run_free hs m k (request n))"
proof (induction "npages hs div 10 - i" arbitrary: i)
  case 0
  then show ?case by (simp add: znalloc_search_unfold [of hs m n i])
next
  case (Suc d)
  then have lt: "i < npages hs div 10" by simp
  show ?case
  proof (cases "run_free hs m i (request n)")
    case True
    with Suc.prems lt show ?thesis by (auto simp: znalloc_search_unfold [of hs m n i])
  next
    case False
    with Suc.prems lt have "znalloc_search hs m n (Suc i) = Some (r, c)"
      by (simp add: znalloc_search_unfold [of hs m n i])
    moreover have "d = npages hs div 10 - Suc i" using Suc.hyps(2) by simp
    ultimately have "c = request n \<and> Suc i \<le> r \<and> r < npages hs div 10 \<and> run_free hs m r c \<and>
        (\<forall>k. Suc i \<le> k \<and> k < r \<longrightarrow> \<not> run_free hs m k (request n))"
      by (rule Suc.hyps(1) [rotated])
    then show ?thesis using False by (metis Suc_leI Suc_leD le_neq_implies_less)
  qed
qed

lemma znalloc_search_None:
  "znalloc_search hs m n i = None \<Longrightarrow>
     i \<le> k \<Longrightarrow> k < npages hs div 10 \<Longrightarrow> \<not> run_free hs m k (request n)"
proof (induction "npages hs div 10 - i" arbitrary: i)
  case (Suc d)
  then have lt: "i < npages hs div 10" by simp
  have here: "\<not> run_free hs m i (request n)" and next_i: "znalloc_search hs m n (Suc i) = None"
    using Suc.prems(1) lt by (auto simp: znalloc_search_unfold [of hs m n i] split: if_splits)
  have "d = npages hs div 10 - Suc i" using Suc.hyps(2) by simp
  then show ?case
    using Suc.hyps(1) [of "Suc i"] Suc.prems next_i here by (cases "k = i") auto
qed simp

lemma znalloc_search_None_iff:
  "znalloc_search hs m n 0 = None \<longleftrightarrow> (\<forall>k < npages hs div 10. \<not> run_free hs m k (request n))"
proof (cases "znalloc_search hs m n 0")
  case None
  then show ?thesis using znalloc_search_None [OF None] by simp
next
  case (Some rc)
  then show ?thesis using znalloc_search_Some [of hs m n 0 "fst rc" "snd rc"] by auto
qed

section \<open>Effect of the operations on the marks and on memory\<close>

text \<open>The byte of a page's marks lies below every page that can be handed out.\<close>

lemma mark_not_in_page:
  assumes "heap_ok hs" and "q < npages hs" and "1 \<le> i" and "i + c \<le> npages hs"
  shows "\<not> unat (heap_start hs + of_nat (q div 4) - page_addr hs i) < 4096 * c"
proof -
  let ?d = "4096 * (nbook hs + i)"
  have b: "?d < 2 ^ 64" "q div 4 < 2 ^ 64"
    using assms heap_okD [OF assms(1)] nbook_bounds [OF assms(1)] by auto
  have "q div 4 \<le> nbytes hs" using assms(2) nbytes_eq [of hs] by (simp add: div_le_mono)
  then have "q div 4 < ?d"
    using nbook_bounds(3) [OF assms(1)] assms(3) by simp
  then have "unat (heap_start hs + of_nat (q div 4) - page_addr hs i) = q div 4 + 2 ^ 64 - ?d"
    using unat_offset_diff [OF b(2,1)] unfolding page_addr_offset [OF assms(1)] by simp
  then show ?thesis
    using assms(4) heap_okD(1) [OF assms(1)] nbook_bounds(2) [OF assms(1)] by simp
qed

lemma marks_fill:
  assumes "\<not> unat (b + of_nat (q div 4) - d) < n"
  shows "is_taken (fill m d c n) b q = is_taken m b q" "is_last (fill m d c n) b q = is_last m b q"
  using assms by (simp_all add: is_taken_def is_last_def fill_def Let_def)

text \<open>Outside the mark bytes, marking pages changes nothing.\<close>

lemma marks_outside:
  assumes "heap_ok hs" and "q < npages hs" and "nbytes hs < unat (x - heap_start hs)"
  shows "set_taken m (heap_start hs) q x = m x" "set_last m (heap_start hs) q x = m x"
    "clear_taken m (heap_start hs) q x = m x" "clear_last m (heap_start hs) q x = m x"
proof -
  have "q div 4 \<le> nbytes hs" using assms(2) nbytes_eq [of hs] by (simp add: div_le_mono)
  moreover have "q div 4 < 2 ^ 64" using assms heap_okD(1) [OF assms(1)] by simp
  ultimately have "x \<noteq> heap_start hs + of_nat (q div 4)"
    using assms(3) by (auto simp: unat_of_nat_64)
  then show "set_taken m (heap_start hs) q x = m x" "set_last m (heap_start hs) q x = m x"
    "clear_taken m (heap_start hs) q x = m x" "clear_last m (heap_start hs) q x = m x"
    by (simp_all add: mark_defs Let_def)
qed

lemma mark_run_outside:
  assumes "heap_ok hs" and "nbytes hs < unat (x - heap_start hs)"
  shows "i + c \<le> npages hs \<Longrightarrow>
    fold (\<lambda>j m. set_taken m (heap_start hs) (i + j)) [0..<c] m x = m x"
  by (induction c) (auto simp: marks_outside [OF assms(1) _ assms(2)])

text \<open>The marked memory of a successful request, before the pages are zeroed.\<close>

definition znalloc_marked :: "heap_syms \<Rightarrow> mem \<Rightarrow> nat \<Rightarrow> nat \<Rightarrow> mem" where
  "znalloc_marked hs m i c =
     set_last (fold (\<lambda>j m. set_taken m (heap_start hs) (i + j)) [0..<c] m) (heap_start hs) (i + c - 1)"

lemma page_znalloc_eq:
  assumes "heap_ok hs" and "znalloc_search hs m n 0 = Some (i, c)"
  shows "page_znalloc hs m n =
    (fill (znalloc_marked hs m i c) (page_addr hs i) 0 (4096 * c), page_addr hs i)"
proof -
  have "c \<le> npages hs"
    using znalloc_search_Some [OF assms(2)] by (auto simp: run_free_iff)
  then have "int (4096 * c) < 2 ^ 63" using heap_okD(1) [OF assms(1)] by simp
  moreover have "(bookkeeping_bytes hs + 4095) AND (- 4096) = page_round_up (bookkeeping_bytes hs)"
    by (simp add: page_round_up_def add.commute)
  ultimately show ?thesis
    using assms(2)
    by (simp add: page_znalloc_def Let_def memset_fill znalloc_marked_def page_addr_def
        add.assoc nat_mult_distrib)
qed

lemma znalloc_marked_marks:
  assumes "heap_ok hs" and "q < npages hs" and "i + c \<le> npages hs" and "0 < c"
  shows "is_taken (znalloc_marked hs m i c) (heap_start hs) q \<longleftrightarrow>
      is_taken m (heap_start hs) q \<or> i \<le> q \<and> q < i + c"
    "is_last (znalloc_marked hs m i c) (heap_start hs) q \<longleftrightarrow>
      is_last m (heap_start hs) q \<or> q = i + c - 1"
proof -
  have b: "i + c < 2 ^ 64" "q < 2 ^ 64" "i + c - 1 < 2 ^ 64"
    using assms heap_okD(1) [OF assms(1)] by auto
  show "is_taken (znalloc_marked hs m i c) (heap_start hs) q \<longleftrightarrow>
      is_taken m (heap_start hs) q \<or> i \<le> q \<and> q < i + c"
    unfolding znalloc_marked_def marks.taken_set_f [OF b(3,2)] marks.taken_mark_run [OF b(1,2)]
    by auto
  show "is_last (znalloc_marked hs m i c) (heap_start hs) q \<longleftrightarrow>
      is_last m (heap_start hs) q \<or> q = i + c - 1"
    unfolding znalloc_marked_def marks.final_set_f [OF b(3,2)] marks.final_mark_run [OF b(1,2)]
    by auto
qed

lemma page_znalloc_effect:
  assumes ok: "heap_ok hs" and zero: "is_taken m (heap_start hs) 0"
    and found: "znalloc_search hs m n 0 = Some (i, c)"
    and res: "page_znalloc hs m n = (m', p)"
  shows "p = page_addr hs i"
    and "q < npages hs \<Longrightarrow> is_taken m' (heap_start hs) q \<longleftrightarrow>
      is_taken m (heap_start hs) q \<or> i \<le> q \<and> q < i + c"
    and "q < npages hs \<Longrightarrow> is_last m' (heap_start hs) q \<longleftrightarrow>
      is_last m (heap_start hs) q \<or> q = i + c - 1"
    and "unat (x - p) < 4096 * c \<Longrightarrow> m' x = 0"
    and "nbytes hs < unat (x - heap_start hs) \<Longrightarrow> \<not> unat (x - p) < 4096 * c \<Longrightarrow> m' x = m x"
proof -
  note s = znalloc_search_Some [OF found]
  have c: "0 < c" "i + c \<le> npages hs" using s by (auto simp: run_free_iff)
  have i: "1 \<le> i" using s zero c by (cases i) (auto simp: run_free_iff)
  have p: "p = page_addr hs i"
    and m': "m' = fill (znalloc_marked hs m i c) p 0 (4096 * c)"
    using page_znalloc_eq [OF ok found] res by auto
  show "p = page_addr hs i" by (rule p)
  show "is_taken m' (heap_start hs) q \<longleftrightarrow>
      is_taken m (heap_start hs) q \<or> i \<le> q \<and> q < i + c" if "q < npages hs"
    unfolding m' p using marks_fill(1) [OF mark_not_in_page [OF ok that i c(2)]]
      znalloc_marked_marks(1) [OF ok that c(2,1)] by simp
  show "is_last m' (heap_start hs) q \<longleftrightarrow>
      is_last m (heap_start hs) q \<or> q = i + c - 1" if "q < npages hs"
    unfolding m' p using marks_fill(2) [OF mark_not_in_page [OF ok that i c(2)]]
      znalloc_marked_marks(2) [OF ok that c(2,1)] by simp
  show "m' x = 0" if "unat (x - p) < 4096 * c" using that by (simp add: m' fill_def)
  show "m' x = m x" if "nbytes hs < unat (x - heap_start hs)" "\<not> unat (x - p) < 4096 * c"
    using that c mark_run_outside [OF ok that(1) c(2)]
    by (simp add: m' fill_def znalloc_marked_def marks_outside [OF ok _ that(1)])
qed

section \<open>The allocation invariant\<close>

text \<open>
  The bookkeeping pages are taken, a last page is taken, and every taken page that is not the
  last of its allocation is followed by another taken page. Runs of marks therefore end before
  the last page of the heap.
\<close>

definition page_wf :: "heap_syms \<Rightarrow> mem \<Rightarrow> bool" where
  "page_wf hs m \<longleftrightarrow>
     list_all (\<lambda>p. is_taken m (heap_start hs) p) [0..<nbook hs] \<and>
     list_all (\<lambda>p. (is_last m (heap_start hs) p \<longrightarrow> is_taken m (heap_start hs) p) \<and>
       (is_taken m (heap_start hs) p \<and> \<not> is_last m (heap_start hs) p \<longrightarrow>
         p + 1 < npages hs \<and> is_taken m (heap_start hs) (p + 1))) [0..<npages hs]"

lemma page_wf_iff:
  "page_wf hs m \<longleftrightarrow>
     (\<forall>p < nbook hs. is_taken m (heap_start hs) p) \<and>
     (\<forall>p < npages hs. is_last m (heap_start hs) p \<longrightarrow> is_taken m (heap_start hs) p) \<and>
     (\<forall>p < npages hs. is_taken m (heap_start hs) p \<longrightarrow> \<not> is_last m (heap_start hs) p \<longrightarrow>
         p + 1 < npages hs \<and> is_taken m (heap_start hs) (p + 1))"
  by (auto simp: page_wf_def list_all_iff)

text \<open>The pages \<open>l..e\<close> are the tail, from \<open>l\<close> on, of one allocation.\<close>

definition run_to :: "heap_syms \<Rightarrow> mem \<Rightarrow> nat \<Rightarrow> nat \<Rightarrow> bool" where
  "run_to hs m l e \<longleftrightarrow> l \<le> e \<and> e < npages hs \<and> is_last m (heap_start hs) e \<and>
     list_all (\<lambda>q. is_taken m (heap_start hs) q) [l..<e + 1] \<and>
     list_all (\<lambda>q. \<not> is_last m (heap_start hs) q) [l..<e]"

lemma run_to_iff:
  "run_to hs m l e \<longleftrightarrow> l \<le> e \<and> e < npages hs \<and> is_last m (heap_start hs) e \<and>
     (\<forall>q. l \<le> q \<and> q \<le> e \<longrightarrow> is_taken m (heap_start hs) q) \<and>
     (\<forall>q. l \<le> q \<and> q < e \<longrightarrow> \<not> is_last m (heap_start hs) q)"
  by (auto simp: run_to_def list_all_iff)

lemma run_to_exists:
  assumes "page_wf hs m"
  shows "l < npages hs \<Longrightarrow> is_taken m (heap_start hs) l \<Longrightarrow> \<exists>e. run_to hs m l e"
proof (induction "npages hs - l" arbitrary: l)
  case (Suc d)
  show ?case
  proof (cases "is_last m (heap_start hs) l")
    case True
    with Suc.prems have "run_to hs m l l" by (auto simp: run_to_iff)
    then show ?thesis ..
  next
    case False
    with Suc.prems assms have "Suc l < npages hs" "is_taken m (heap_start hs) (Suc l)"
      by (auto simp: page_wf_iff)
    moreover have "d = npages hs - Suc l" using Suc.hyps(2) by simp
    ultimately obtain e where e: "run_to hs m (Suc l) e" using Suc.hyps(1) by blast
    have "run_to hs m l e"
      using e False Suc.prems(2) unfolding run_to_iff by (metis Suc_leI Suc_leD le_neq_implies_less)
    then show ?thesis ..
  qed
qed simp

lemma run_to_clear:
  assumes "run_to hs m l e" and "l \<noteq> e" and "npages hs < 2 ^ 64"
  shows "run_to hs (clear_taken m (heap_start hs) l) (Suc l) e"
  using assms by (auto simp: run_to_iff marks.mark_laws)

lemma page_free_loop_run:
  assumes ok: "heap_ok hs"
  shows "run_to hs m l e \<Longrightarrow> \<exists>m'. page_free_loop hs m l = Some m' \<and>
     (\<forall>q < npages hs. (is_taken m' (heap_start hs) q \<longleftrightarrow>
         is_taken m (heap_start hs) q \<and> \<not> (l \<le> q \<and> q \<le> e)) \<and>
       (is_last m' (heap_start hs) q \<longleftrightarrow> is_last m (heap_start hs) q \<and> q \<noteq> e)) \<and>
     (\<forall>x. nbytes hs < unat (x - heap_start hs) \<longrightarrow> m' x = m x)"
proof (induction "e - l" arbitrary: l m)
  case 0
  have np: "npages hs < 2 ^ 64" using heap_okD(1) [OF ok] by simp
  from 0 have l: "e = l" "l < npages hs" "is_taken m (heap_start hs) l" "is_last m (heap_start hs) l"
    by (auto simp: run_to_iff)
  then have "page_free_loop hs m l =
      Some (clear_last (clear_taken m (heap_start hs) l) (heap_start hs) l)"
    by (simp add: page_free_loop.simps [of hs m l])
  then show ?case using l np by (auto simp: marks.mark_laws marks_outside [OF ok])
next
  case (Suc d)
  have np: "npages hs < 2 ^ 64" using heap_okD(1) [OF ok] by simp
  let ?m = "clear_taken m (heap_start hs) l"
  have l: "l < e" "l < npages hs" "is_taken m (heap_start hs) l" "\<not> is_last m (heap_start hs) l"
    using Suc.hyps(2) Suc.prems by (auto simp: run_to_iff)
  have "d = e - Suc l" using Suc.hyps(2) by simp
  from Suc.hyps(1) [OF this run_to_clear [OF Suc.prems _ np]] l(1)
  obtain m' where m': "page_free_loop hs ?m (Suc l) = Some m'"
    "\<forall>q < npages hs. (is_taken m' (heap_start hs) q \<longleftrightarrow>
         is_taken ?m (heap_start hs) q \<and> \<not> (Suc l \<le> q \<and> q \<le> e)) \<and>
       (is_last m' (heap_start hs) q \<longleftrightarrow> is_last ?m (heap_start hs) q \<and> q \<noteq> e)"
    "\<forall>x. nbytes hs < unat (x - heap_start hs) \<longrightarrow> m' x = ?m x" by auto
  have "page_free_loop hs m l = Some m'"
    using m'(1) l by (simp add: page_free_loop.simps [of hs m l])
  moreover have "is_taken m' (heap_start hs) q \<longleftrightarrow>
      is_taken m (heap_start hs) q \<and> \<not> (l \<le> q \<and> q \<le> e)" if "q < npages hs" for q
    using m'(2) that np l by (auto simp: marks.mark_laws)
  moreover have "is_last m' (heap_start hs) q \<longleftrightarrow> is_last m (heap_start hs) q \<and> q \<noteq> e"
    if "q < npages hs" for q
    using m'(2) that np l by (auto simp: marks.mark_laws)
  ultimately show ?case using m'(3) l(2) by (auto simp: marks_outside [OF ok])
qed

subsection \<open>Freeing\<close>

lemma unat_page_location:
  assumes "heap_ok hs" and "i \<le> npages hs"
  shows "unat (page_location hs (page_addr hs i)) = i"
proof -
  define off where "off = 4096 * (nbook hs + i)"
  have b: "off < 2 ^ 64" "nbytes hs \<le> off" "nbytes hs < 2 ^ 64"
    using assms(2) heap_okD [OF assms(1)] nbook_bounds [OF assms(1)] by (auto simp: off_def)
  have "page_addr hs i - bookkeeping_bytes hs - heap_start hs = of_nat off - of_nat (nbytes hs)"
    unfolding page_addr_offset [OF assms(1)] off_def by simp
  moreover have "unat (of_nat off - of_nat (nbytes hs) :: u64) = off - nbytes hs"
    using b by (simp only: unat_diff_of_nat [OF b(3)] unat_of_nat_64 if_True)
  ultimately have "unat (page_addr hs i - bookkeeping_bytes hs - heap_start hs) = off - nbytes hs"
    by (simp only:)
  then have "unat (page_location hs (page_addr hs i)) = (off - nbytes hs) div 4096"
    unfolding page_location_def unat_div by simp
  also have "off - nbytes hs = 4096 * i + (4096 * nbook hs - nbytes hs)"
    using nbook_bounds(3) [OF assms(1)] by (simp add: off_def)
  also have "\<dots> div 4096 = i"
    using unat_round_bookkeeping(2) [OF assms(1)] by auto
  finally show ?thesis .
qed

lemma page_free_run:
  assumes ok: "heap_ok hs" and l: "1 \<le> l" and run: "run_to hs m l e"
    and addr: "page_addr hs l \<le> heap_end hs"
  shows "\<exists>m'. page_free hs m (page_addr hs l) = Some m' \<and>
     (\<forall>q < npages hs. (is_taken m' (heap_start hs) q \<longleftrightarrow>
         is_taken m (heap_start hs) q \<and> \<not> (l \<le> q \<and> q \<le> e)) \<and>
       (is_last m' (heap_start hs) q \<longleftrightarrow>
         (is_last m (heap_start hs) q \<or> q = l - 1 \<and> is_taken m (heap_start hs) q) \<and> q \<noteq> e)) \<and>
     (\<forall>x. nbytes hs < unat (x - heap_start hs) \<longrightarrow> m' x = m x)"
proof -
  have np: "npages hs < 2 ^ 19" using heap_okD(1) [OF ok] .
  have lp: "l \<le> e" "e < npages hs" using run by (auto simp: run_to_iff)
  define m1 where "m1 = (if is_taken m (heap_start hs) (l - 1)
    then set_last m (heap_start hs) (l - 1) else m)"
  have ge: "heap_start hs \<le> page_addr hs l"
    using unat_page_addr [OF ok, of l] lp by (simp add: word_le_nat_alt)
  have m1t: "is_taken m1 (heap_start hs) q \<longleftrightarrow> is_taken m (heap_start hs) q"
    and m1l: "is_last m1 (heap_start hs) q \<longleftrightarrow>
      is_last m (heap_start hs) q \<or> q = l - 1 \<and> is_taken m (heap_start hs) q"
    and m1x: "nbytes hs < unat (x - heap_start hs) \<Longrightarrow> m1 x = m x" if "q < npages hs" for q x
    using that np lp by (auto simp: m1_def marks.mark_laws marks_outside [OF ok])
  have "run_to hs m1 l e" using run m1t m1l l unfolding run_to_iff by fastforce
  from page_free_loop_run [OF ok this] obtain m' where
    m': "page_free_loop hs m1 l = Some m'"
    "\<And>q. q < npages hs \<Longrightarrow> (is_taken m' (heap_start hs) q \<longleftrightarrow>
         is_taken m1 (heap_start hs) q \<and> \<not> (l \<le> q \<and> q \<le> e)) \<and>
       (is_last m' (heap_start hs) q \<longleftrightarrow> is_last m1 (heap_start hs) q \<and> q \<noteq> e)"
    "\<And>x. nbytes hs < unat (x - heap_start hs) \<Longrightarrow> m' x = m1 x" by auto
  have "page_free hs m (page_addr hs l) = Some m'"
    using m'(1) leD [OF ge] leD [OF addr] l lp np unat_page_location [OF ok, of l]
    by (simp add: page_free_def Let_def m1_def)
  then show ?thesis using m'(2,3) m1t m1l m1x lp by auto
qed

text \<open>Every page number the search can return has its address inside the heap.\<close>

lemma found_page_in_heap:
  assumes "heap_ok hs" and "i < npages hs div 10"
  shows "page_addr hs i \<le> heap_end hs"
proof -
  have "nbook hs \<le> npages hs div 16384 + 1"
    using unat_round_bookkeeping(2) [OF assms(1)] nbytes_eq [of hs] by linarith
  then have "nbook hs + i \<le> npages hs" using assms(2) by arith
  then have "4096 * (nbook hs + i) \<le> unat (heap_memory hs)"
    using heap_okD(9) [OF assms(1)] le_trans mult_le_mono2 by blast
  then show ?thesis
    using unat_page_addr [OF assms(1), of i] assms(2) heap_okD(5) [OF assms(1)]
    by (simp add: word_le_nat_alt)
qed

section \<open>Properties\<close>

lemma sint_ucast_small:
  assumes "unat (x :: u64) < 2 ^ 31"
  shows "sint (ucast x :: u32) = int (unat x)"
proof -
  have lt: "uint x < 2 ^ 31" using uint_less_of_unat [OF assms] by simp
  have "uint (ucast x :: u32) = take_bit 32 (uint x)" by (simp add: unsigned_ucast_eq)
  also have "\<dots> = uint x" using lt by (intro take_bit_int_eq_self) auto
  finally have "sint (ucast x :: u32) = signed_take_bit 31 (uint x)"
    unfolding sint_uint [of "ucast x :: u32"] by simp
  also have "\<dots> = uint x"
    using lt uint_ge_0 [of x] by (intro signed_take_bit_int_eq_self) linarith+
  finally show ?thesis by simp
qed

lemma cleared_marks:
  assumes "heap_ok hs" and "q < npages hs"
    and "m (heap_start hs + bookkeeping_bytes hs) = 0 \<or> 4 dvd npages hs"
  shows "fill m (heap_start hs) 0 (nbytes hs) (heap_start hs + of_nat (q div 4)) = 0"
proof -
  have b: "q div 4 < 2 ^ 64" using assms(2) heap_okD(1) [OF assms(1)] by simp
  have "q div 4 \<le> nbytes hs" using assms(2) by (simp add: nbytes_eq div_le_mono)
  moreover have "q div 4 < nbytes hs" if "4 dvd npages hs"
    using that assms(2) by (simp add: nbytes_eq less_mult_imp_div_less)
  ultimately consider "q div 4 < nbytes hs" | "q div 4 = nbytes hs" "\<not> 4 dvd npages hs"
    by fastforce
  then show ?thesis
    using assms(3) b by cases (auto simp: fill_def unat_of_nat_64)
qed

lemma page_init_marks:
  assumes ok: "heap_ok hs"
    and spare: "m (heap_start hs + bookkeeping_bytes hs) = 0 \<or> 4 dvd npages hs"
  shows "\<exists>m'. page_init hs m = Some m' \<and> page_wf hs m' \<and>
    (\<forall>q < npages hs. is_taken m' (heap_start hs) q \<longleftrightarrow> q < nbook hs)"
proof -
  have np: "npages hs < 2 ^ 19" and nb: "0 < nbook hs" "nbook hs \<le> npages hs"
    using heap_okD(1) [OF ok] nbook_bounds [OF ok] by auto
  define m1 where "m1 = fill m (heap_start hs) 0 (nbytes hs)"
  have sz: "sint (ucast (bookkeeping_bytes hs) :: u32) = int (nbytes hs)"
    using heap_okD(2) [OF ok] by (intro sint_ucast_small) simp
  have clear: "\<not> is_taken m1 (heap_start hs) q" "\<not> is_last m1 (heap_start hs) q"
    if "q < npages hs" for q
    using cleared_marks [where m = m, OF ok that spare] by (simp_all add: m1_def is_taken_def is_last_def Let_def)
  let ?m2 = "fold (\<lambda>i m. set_taken m (heap_start hs) (0 + i)) [0..<nbook hs] m1"
  let ?m' = "set_last ?m2 (heap_start hs) (nbook hs - 1)"
  have "int (nbytes hs) < 2 ^ 63"
    using uint_less_of_unat [OF heap_okD(2) [OF ok]] by simp
  from memset_fill [OF this] have ms: "memset m (heap_start hs) 0 (int (nbytes hs)) = m1"
    unfolding m1_def nat_int .
  have "page_init hs m = Some ?m'"
    using nb by (simp only: page_init_def Let_def sz ms add_0) simp
  moreover have t: "is_taken ?m' (heap_start hs) q \<longleftrightarrow> q < nbook hs" if "q < npages hs" for q
    using that np nb clear(1) marks.taken_mark_run [of 0 "nbook hs" q "heap_start hs" m1]
    by (simp add: marks.mark_laws)
  moreover have "is_last ?m' (heap_start hs) q \<longleftrightarrow> q = nbook hs - 1" if "q < npages hs" for q
    using that np nb clear(2) marks.final_mark_run [of 0 "nbook hs" q "heap_start hs" m1]
    by (auto simp: marks.mark_laws)
  ultimately show ?thesis using nb by (auto simp: page_wf_iff)
qed


lemma page_wf_zero:
  assumes "heap_ok hs" and "page_wf hs m"
  shows "is_taken m (heap_start hs) 0"
  using assms nbook_bounds(1) by (simp add: page_wf_iff)

lemma page_addr_not_NULL:
  assumes "heap_ok hs" and "i \<le> npages hs"
  shows "page_addr hs i \<noteq> NULL"
  using unat_page_addr [OF assms] heap_okD(8) [OF assms(1)] by auto

lemma znalloc_null:
  assumes "heap_ok hs"
  shows "snd (page_znalloc hs m n) = NULL \<longleftrightarrow> znalloc_search hs m n 0 = None"
    and "snd (page_znalloc hs m n) = NULL \<Longrightarrow> fst (page_znalloc hs m n) = m"
proof -
  have "snd (page_znalloc hs m n) = NULL \<longleftrightarrow> znalloc_search hs m n 0 = None \<and>
      fst (page_znalloc hs m n) = m"
  proof (cases "znalloc_search hs m n 0")
    case None
    then show ?thesis by (simp add: page_znalloc_def Let_def)
  next
    case (Some ic)
    then obtain i c where ic: "znalloc_search hs m n 0 = Some (i, c)" by (cases ic) auto
    then have "i \<le> npages hs" using znalloc_search_Some [OF ic] by linarith
    then show ?thesis
      using page_znalloc_eq [OF assms ic] page_addr_not_NULL [OF assms] ic by simp
  qed
  moreover have "znalloc_search hs m n 0 = None \<Longrightarrow> fst (page_znalloc hs m n) = m"
    by (simp add: page_znalloc_def Let_def)
  ultimately show "snd (page_znalloc hs m n) = NULL \<longleftrightarrow> znalloc_search hs m n 0 = None"
    and "snd (page_znalloc hs m n) = NULL \<Longrightarrow> fst (page_znalloc hs m n) = m" by blast+
qed

text \<open>
  C8: \<open>page_znalloc\<close> fails exactly when no run of the requested length starts in the first
  tenth of the heap, and then it changes nothing.
\<close>

theorem page_znalloc_null_iff:
  assumes "heap_ok hs"
  shows "(snd (page_znalloc hs m n) = NULL \<longleftrightarrow>
      (\<forall>k < npages hs div 10. \<not> run_free hs m k (request n))) \<and>
    (snd (page_znalloc hs m n) = NULL \<longrightarrow> fst (page_znalloc hs m n) = m)"
  using znalloc_null [OF assms] unfolding znalloc_search_None_iff [symmetric] by blast

lemma znalloc_found:
  assumes "heap_ok hs" and "page_znalloc hs m n = (m', p)" and "p \<noteq> NULL"
  obtains i where "znalloc_search hs m n 0 = Some (i, request n)"
proof (cases "znalloc_search hs m n 0")
  case None
  then show ?thesis using assms by (simp add: page_znalloc_def Let_def)
next
  case (Some ic)
  then obtain i c where ic: "znalloc_search hs m n 0 = Some (i, c)" by (cases ic) auto
  then show ?thesis using that znalloc_search_Some [OF ic] by blast
qed

text \<open>
  C2: a successful \<open>page_znalloc\<close> is first fit: the block starts at the least page number
  whose run is free, exactly that run becomes taken with its final page marked last, the whole
  block reads as zero, and memory outside the marks and the block is unchanged.
\<close>

theorem page_znalloc_first_fit:
  assumes ok: "heap_ok hs" and wf: "page_wf hs m"
    and res: "page_znalloc hs m n = (m', p)" and p: "p \<noteq> NULL"
  shows "\<exists>i. p = page_addr hs i \<and> i < npages hs div 10 \<and> run_free hs m i (request n) \<and>
    (\<forall>k < i. \<not> run_free hs m k (request n)) \<and>
    (\<forall>q < npages hs.
      (is_taken m' (heap_start hs) q \<longleftrightarrow>
        is_taken m (heap_start hs) q \<or> i \<le> q \<and> q < i + request n) \<and>
      (is_last m' (heap_start hs) q \<longleftrightarrow>
        is_last m (heap_start hs) q \<or> q = i + request n - 1)) \<and>
    (\<forall>x. unat (x - p) < PAGE_SIZE * request n \<longrightarrow> m' x = 0) \<and>
    (\<forall>x. nbytes hs < unat (x - heap_start hs) \<longrightarrow> \<not> unat (x - p) < PAGE_SIZE * request n \<longrightarrow>
      m' x = m x)"
proof -
  obtain i where i: "znalloc_search hs m n 0 = Some (i, request n)"
    using znalloc_found [OF ok res p] .
  note eff = page_znalloc_effect [OF ok page_wf_zero [OF ok wf] i res]
  show ?thesis
    using znalloc_search_Some [OF i] eff by (intro exI [of _ i]) blast
qed

text \<open>Both operations keep the allocation invariant (freeing, for a page past the bookkeeping).\<close>

lemma page_znalloc_wf:
  assumes ok: "heap_ok hs" and wf: "page_wf hs m"
  shows "page_wf hs (fst (page_znalloc hs m n))"
proof (cases "snd (page_znalloc hs m n) = NULL")
  case True
  then show ?thesis using znalloc_null(2) [OF ok] wf by simp
next
  case False
  obtain m' p where res: "page_znalloc hs m n = (m', p)" by fastforce
  with False have p: "p \<noteq> NULL" by simp
  obtain i where i: "znalloc_search hs m n 0 = Some (i, request n)"
    using znalloc_found [OF ok res p] .
  note eff = page_znalloc_effect [OF ok page_wf_zero [OF ok wf] i res]
  have free: "run_free hs m i (request n)" using znalloc_search_Some [OF i] by blast
  then have le: "i + request n \<le> npages hs" by (simp add: run_free_iff)
  have "p + 1 < npages hs \<and> is_taken m' (heap_start hs) (p + 1)"
    if "p < npages hs" "is_taken m' (heap_start hs) p" "\<not> is_last m' (heap_start hs) p" for p
  proof (cases "is_taken m (heap_start hs) p")
    case True
    then show ?thesis using that wf eff(2,3) by (auto simp: page_wf_iff)
  next
    case False
    then have "i \<le> p" "p < i + request n" "p \<noteq> i + request n - 1" using that eff(2,3) by auto
    then have "p + 1 < i + request n" by linarith
    then show ?thesis using \<open>i \<le> p\<close> le eff(2) [of "p + 1"] by auto
  qed
  moreover have "is_taken m' (heap_start hs) q" if q: "q < npages hs" "is_last m' (heap_start hs) q" for q
  proof (cases "q = i + request n - 1")
    case True
    then show ?thesis using eff(2) [OF q(1)] request_last [of i n] by blast
  next
    case False
    then show ?thesis using q wf eff(2,3) by (auto simp: page_wf_iff)
  qed
  moreover have "is_taken m' (heap_start hs) q" if "q < nbook hs" for q
    using that wf eff(2) nbook_bounds(4) [OF ok] by (auto simp: page_wf_iff)
  ultimately show ?thesis by (simp add: res page_wf_iff)
qed

lemma page_free_wf:
  assumes ok: "heap_ok hs" and wf: "page_wf hs m" and l: "nbook hs \<le> l" "l < npages hs"
    and taken: "is_taken m (heap_start hs) l" and addr: "page_addr hs l \<le> heap_end hs"
  shows "\<exists>m'. page_free hs m (page_addr hs l) = Some m' \<and> page_wf hs m'"
proof -
  obtain e where e: "run_to hs m l e" using run_to_exists [OF wf l(2) taken] ..
  have l1: "1 \<le> l" using l nbook_bounds(1) [OF ok] by linarith
  obtain m' where m': "page_free hs m (page_addr hs l) = Some m'"
    and t: "\<And>q. q < npages hs \<Longrightarrow> is_taken m' (heap_start hs) q \<longleftrightarrow>
         is_taken m (heap_start hs) q \<and> \<not> (l \<le> q \<and> q \<le> e)"
    and f: "\<And>q. q < npages hs \<Longrightarrow> is_last m' (heap_start hs) q \<longleftrightarrow>
         (is_last m (heap_start hs) q \<or> q = l - 1 \<and> is_taken m (heap_start hs) q) \<and> q \<noteq> e"
    using page_free_run [OF ok l1 e addr] by auto
  have "q + 1 < npages hs \<and> is_taken m' (heap_start hs) (q + 1)"
    if q: "q < npages hs" "is_taken m' (heap_start hs) q" "\<not> is_last m' (heap_start hs) q" for q
  proof -
    have "is_taken m (heap_start hs) q" "\<not> (l \<le> q \<and> q \<le> e)" using q t by auto
    moreover from this have "\<not> is_last m (heap_start hs) q" "q \<noteq> l - 1"
      using q(1,3) f [OF q(1)] e by (auto simp: run_to_iff)
    ultimately show ?thesis
      using wf q(1) t [of "q + 1"] l1 by (auto simp: page_wf_iff)
  qed
  moreover have "is_taken m' (heap_start hs) q" if "q < npages hs" "is_last m' (heap_start hs) q" for q
    using that wf t f e l1 unfolding page_wf_iff run_to_iff
    by (metis diff_less le_less less_numeral_extra(1) not_less order.strict_trans1)
  moreover have "is_taken m' (heap_start hs) q" if "q < nbook hs" for q
    using that wf t l nbook_bounds(4) [OF ok] by (auto simp: page_wf_iff)
  ultimately show ?thesis using m' by (simp add: page_wf_iff)
qed

section \<open>Allocating and freeing\<close>

text \<open>On a well-formed heap the page before a first fit is the last of its own allocation.\<close>

lemma first_fit_predecessor:
  assumes ok: "heap_ok hs" and wf: "page_wf hs m"
    and found: "znalloc_search hs m n 0 = Some (i, c)"
  shows "1 \<le> i" "is_taken m (heap_start hs) (i - 1)" "is_last m (heap_start hs) (i - 1)"
proof -
  note s = znalloc_search_Some [OF found]
  have c: "0 < c" "i + c \<le> npages hs" "\<not> is_taken m (heap_start hs) i"
    using s by (auto simp: run_free_iff)
  show i: "1 \<le> i" using page_wf_zero [OF ok wf] c(3) by (cases i) auto
  have "\<not> run_free hs m (i - 1) c" using s i by simp
  show t: "is_taken m (heap_start hs) (i - 1)"
  proof -
    obtain q where q: "i - 1 \<le> q" "q < i - 1 + c" "is_taken m (heap_start hs) q"
      using \<open>\<not> run_free hs m (i - 1) c\<close> c(2) unfolding run_free_iff by fastforce
    then have "\<not> i \<le> q" using s i unfolding run_free_iff by auto
    with q i show ?thesis by (cases "q = i - 1") auto
  qed
  show "is_last m (heap_start hs) (i - 1)"
  proof (rule ccontr)
    assume "\<not> is_last m (heap_start hs) (i - 1)"
    moreover have "i - 1 < npages hs" using c by simp
    ultimately have "is_taken m (heap_start hs) (i - 1 + 1)"
      using wf t by (auto simp: page_wf_iff)
    then show False using c(3) i by simp
  qed
qed

lemma allocated_run:
  assumes ok: "heap_ok hs" and wf: "page_wf hs m"
    and found: "znalloc_search hs m n 0 = Some (i, c)" and res: "page_znalloc hs m n = (m', p)"
  shows "run_to hs m' i (i + c - 1)"
proof -
  note eff = page_znalloc_effect [OF ok page_wf_zero [OF ok wf] found res]
  have c: "0 < c" "i + c \<le> npages hs" "\<forall>q. i \<le> q \<and> q < i + c \<longrightarrow> \<not> is_taken m (heap_start hs) q"
    using znalloc_search_Some [OF found] by (auto simp: run_free_iff)
  moreover have "\<not> is_last m (heap_start hs) q" if "i \<le> q" "q < i + c" for q
    using that c wf by (auto simp: page_wf_iff)
  ultimately show ?thesis using eff(2,3) unfolding run_to_iff by auto
qed

text \<open>
  C3: freeing a block straight after it was allocated succeeds and restores the taken and last
  marks of every page of the heap.
\<close>

theorem page_free_znalloc:
  assumes ok: "heap_ok hs" and wf: "page_wf hs m"
    and res: "page_znalloc hs m n = (m', p)" and p: "p \<noteq> NULL"
  shows "\<exists>m''. page_free hs m' p = Some m'' \<and>
    (\<forall>q < npages hs. is_taken m'' (heap_start hs) q = is_taken m (heap_start hs) q \<and>
       is_last m'' (heap_start hs) q = is_last m (heap_start hs) q)"
proof -
  obtain i where found: "znalloc_search hs m n 0 = Some (i, request n)"
    using znalloc_found [OF ok res p] .
  let ?e = "i + request n - 1"
  note pre = first_fit_predecessor [OF ok wf found]
  note s = znalloc_search_Some [OF found]
  note eff = page_znalloc_effect [OF ok page_wf_zero [OF ok wf] found res]
  have inheap: "page_addr hs i \<le> heap_end hs" using found_page_in_heap [OF ok] s by blast
  from page_free_run [OF ok pre(1) allocated_run [OF ok wf found res] inheap]
  obtain m'' where m'': "page_free hs m' (page_addr hs i) = Some m''"
    and t: "\<And>q. q < npages hs \<Longrightarrow> is_taken m'' (heap_start hs) q \<longleftrightarrow>
         is_taken m' (heap_start hs) q \<and> \<not> (i \<le> q \<and> q \<le> ?e)"
    and f: "\<And>q. q < npages hs \<Longrightarrow> is_last m'' (heap_start hs) q \<longleftrightarrow>
         (is_last m' (heap_start hs) q \<or> q = i - 1 \<and> is_taken m' (heap_start hs) q) \<and> q \<noteq> ?e"
    by auto
  have free: "\<not> is_taken m (heap_start hs) q" if "i \<le> q" "q < i + request n" for q
    using s that by (auto simp: run_free_iff)
  have "is_taken m'' (heap_start hs) q = is_taken m (heap_start hs) q" if "q < npages hs" for q
    using that t eff(2) free by auto
  moreover have "\<not> is_last m (heap_start hs) ?e"
    using wf free [OF request_last] request_last(2) [of i n] s
    unfolding page_wf_iff run_free_iff by (meson less_le_trans)
  then have "is_last m'' (heap_start hs) q = is_last m (heap_start hs) q" if "q < npages hs" for q
    using that f eff(3) pre by auto
  ultimately show ?thesis using m'' eff(1) by auto
qed

section \<open>Pages as a service\<close>

text \<open>
  What the page tables rely on when they ask for a page: a fresh, aligned, zeroed page, that
  leaves every page handed out before as it was; writing inside one's own page disturbs neither
  the allocator nor the other pages.
\<close>

definition inside :: "u64 \<Rightarrow> u64 \<Rightarrow> bool" where
  "inside x p \<longleftrightarrow> unat (x - p) < PAGE_SIZE"

locale page_source =
  fixes zalloc :: "mem \<Rightarrow> mem \<times> u64" and inv :: "mem \<Rightarrow> bool" and owned :: "mem \<Rightarrow> u64 \<Rightarrow> bool"
    and avail :: "mem \<Rightarrow> nat"
  assumes zalloc_inv: "inv m \<Longrightarrow> inv (fst (zalloc m))"
    and zalloc_fail: "inv m \<Longrightarrow> snd (zalloc m) = NULL \<Longrightarrow> fst (zalloc m) = m"
    and zalloc_fresh: "inv m \<Longrightarrow> snd (zalloc m) \<noteq> NULL \<Longrightarrow> \<not> owned m (snd (zalloc m))"
    and zalloc_owned: "inv m \<Longrightarrow> snd (zalloc m) \<noteq> NULL \<Longrightarrow>
      owned (fst (zalloc m)) p \<longleftrightarrow> owned m p \<or> p = snd (zalloc m)"
    and zalloc_zero: "inv m \<Longrightarrow> snd (zalloc m) \<noteq> NULL \<Longrightarrow> inside x (snd (zalloc m)) \<Longrightarrow>
      fst (zalloc m) x = 0"
    and zalloc_frame: "inv m \<Longrightarrow> owned m p \<Longrightarrow> inside x p \<Longrightarrow> fst (zalloc m) x = m x"
    and owned_aligned: "inv m \<Longrightarrow> owned m p \<Longrightarrow> 4096 dvd unat p \<and> unat p < 2 ^ 56 \<and> p \<noteq> NULL"
    and owned_write: "inv m \<Longrightarrow> owned m p \<Longrightarrow> \<forall>x. \<not> inside x p \<longrightarrow> m' x = m x \<Longrightarrow>
      inv m' \<and> owned m' = owned m \<and> avail m' = avail m"
    and zalloc_avail: "inv m \<Longrightarrow> 0 < avail m \<Longrightarrow>
      snd (zalloc m) \<noteq> NULL \<and> avail (fst (zalloc m)) = avail m - 1"
begin

text \<open>Page-aligned pages are equal or disjoint.\<close>

lemma owned_disjoint:
  assumes "inv m" and "owned m p" and "owned m q" and "inside x p" and "inside x q"
  shows "p = q"
proof -
  have d: "4096 dvd unat p" "4096 dvd unat q" "unat p < 2 ^ 56" "unat q < 2 ^ 56"
    using owned_aligned assms(1-3) by blast+
  define j k where "j = unat (x - p)" and "k = unat (x - q)"
  have jk: "j < 4096" "k < 4096" using assms(4,5) by (auto simp: inside_def j_def k_def)
  have x: "x = p + of_nat j" "x = q + of_nat k" by (simp_all add: j_def k_def)
  have "unat x = unat p + j" unfolding x(1) using d(3) jk by (intro unat_add_of_nat) simp
  moreover have "unat x = unat q + k" unfolding x(2) using d(4) jk by (intro unat_add_of_nat) simp
  ultimately have eq: "unat p + j = unat q + k" by simp
  obtain a b where ab: "unat p = 4096 * a" "unat q = 4096 * b" using d(1,2) by (elim dvdE)
  have "(4096 * a + j) div 4096 = (4096 * b + k) div 4096" using eq ab by simp
  then have "a = b" using jk by simp
  then show ?thesis using ab by (simp add: word_unat_eq_iff)
qed

lemma store64_owned:
  assumes "inv m" and "owned m p" and "i < 512"
  shows "inv (store64 m (p + of_nat (8 * i)) v)" "owned (store64 m (p + of_nat (8 * i)) v) = owned m"
    "avail (store64 m (p + of_nat (8 * i)) v) = avail m"
proof -
  have "store64 m (p + of_nat (8 * i)) v x = m x" if "\<not> inside x p" for x
  proof (rule store64_outside)
    have "unat (x - (p + of_nat (8 * i))) = unat (x - p) - 8 * i"
      using unat_diff_of_nat [of "8 * i" "x - p"] assms(3) that
      by (simp add: inside_def diff_diff_eq)
    then show "8 \<le> unat (x - (p + of_nat (8 * i)))" using that assms(3) by (simp add: inside_def)
  qed
  then show "inv (store64 m (p + of_nat (8 * i)) v)"
    "owned (store64 m (p + of_nat (8 * i)) v) = owned m"
    "avail (store64 m (p + of_nat (8 * i)) v) = avail m"
    using owned_write [OF assms(1,2)] by blast+
qed

end

definition page_owned :: "heap_syms \<Rightarrow> mem \<Rightarrow> u64 \<Rightarrow> bool" where
  "page_owned hs m a \<longleftrightarrow>
     list_ex (\<lambda>i. a = page_addr hs i \<and> is_taken m (heap_start hs) i) [1..<npages hs]"

lemma page_owned_iff:
  "page_owned hs m a \<longleftrightarrow> (\<exists>i. 1 \<le> i \<and> i < npages hs \<and> a = page_addr hs i \<and> is_taken m (heap_start hs) i)"
  by (auto simp: page_owned_def list_ex_iff)

lemma page_number_eq:
  assumes "4096 * a + j = 4096 * b + (k :: nat)" and "j < 4096" and "k < 4096"
  shows "a = b"
proof -
  have "(4096 * a + j) div 4096 = (4096 * b + k) div 4096" using assms(1) by simp
  then show ?thesis using assms(2,3) by simp
qed

lemma page_addr_inj:
  assumes "heap_ok hs" and "i \<le> npages hs" and "j \<le> npages hs" and "page_addr hs i = page_addr hs j"
  shows "i = j"
proof -
  have "unat (heap_start hs) + 4096 * (nbook hs + i) = unat (heap_start hs) + 4096 * (nbook hs + j)"
    by (simp only: assms(4) flip: unat_page_addr [OF assms(1,2)] unat_page_addr [OF assms(1,3)])
  then have "4096 * (nbook hs + i) = 4096 * (nbook hs + j)" by (simp only: add_left_cancel)
  then show ?thesis by simp
qed

lemma page_addr_offset_diff:
  assumes "heap_ok hs" and "i \<le> npages hs" and "inside x (page_addr hs i)"
  obtains j where "j < 4096" "x = heap_start hs + of_nat (4096 * (nbook hs + i) + j)"
    "unat (x - heap_start hs) = 4096 * (nbook hs + i) + j"
proof -
  define j where "j = unat (x - page_addr hs i)"
  have j: "j < 4096" using assms(3) by (simp add: inside_def j_def)
  have x: "x = heap_start hs + of_nat (4096 * (nbook hs + i) + j)"
    using page_addr_offset [OF assms(1), of i] by (simp add: j_def algebra_simps)
  have "4096 * (nbook hs + i) + j < 2 ^ 64"
    using j assms(2) heap_okD(1) [OF assms(1)] nbook_bounds(2) [OF assms(1)] by simp
  then have "unat (x - heap_start hs) = 4096 * (nbook hs + i) + j"
    unfolding x by (simp only: add_diff_cancel_left' unat_of_nat_64)
  with j x show ?thesis by (rule that)
qed

lemma inside_distinct:
  assumes "heap_ok hs" and "i \<le> npages hs" and "k \<le> npages hs"
    and "inside x (page_addr hs i)" and "inside x (page_addr hs k)"
  shows "i = k"
proof -
  obtain j where j: "j < 4096" "unat (x - heap_start hs) = 4096 * (nbook hs + i) + j"
    using page_addr_offset_diff [OF assms(1,2,4)] .
  obtain l where l: "l < 4096" "unat (x - heap_start hs) = 4096 * (nbook hs + k) + l"
    using page_addr_offset_diff [OF assms(1,3,5)] .
  have "nbook hs + i = nbook hs + k" by (rule page_number_eq [OF trans [OF j(2) [symmetric] l(2)] j(1) l(1)])
  then show ?thesis by simp
qed

lemma zalloc_effect:
  assumes inv: "heap_ok hs \<and> page_wf hs m" and p: "snd (page_zalloc hs m) \<noteq> NULL"
  obtains i where "1 \<le> i" "i < npages hs" "\<not> is_taken m (heap_start hs) i"
    "snd (page_zalloc hs m) = page_addr hs i"
    "\<And>q. q < npages hs \<Longrightarrow> is_taken (fst (page_zalloc hs m)) (heap_start hs) q \<longleftrightarrow>
       is_taken m (heap_start hs) q \<or> q = i"
    "\<And>x. inside x (page_addr hs i) \<Longrightarrow> fst (page_zalloc hs m) x = 0"
    "\<And>x. nbytes hs < unat (x - heap_start hs) \<Longrightarrow> \<not> inside x (page_addr hs i) \<Longrightarrow>
       fst (page_zalloc hs m) x = m x"
proof -
  obtain m' p where res: "page_znalloc hs m 1 = (m', p)" by fastforce
  obtain i where found: "znalloc_search hs m 1 0 = Some (i, request 1)"
    using znalloc_found [OF _ res] inv p res by (auto simp: page_zalloc_def)
  then have found': "znalloc_search hs m 1 0 = Some (i, 1)" by simp
  have ok: "heap_ok hs" and wf: "page_wf hs m" using inv by auto
  note eff = page_znalloc_effect [OF ok page_wf_zero [OF ok wf] found' res]
  show ?thesis
  proof (rule that [of i])
    show "1 \<le> i" using first_fit_predecessor(1) [OF ok wf found'] .
    show "i < npages hs" "\<not> is_taken m (heap_start hs) i"
      using znalloc_search_Some [OF found'] by (auto simp: run_free_iff)
  qed (use eff res in \<open>auto simp: page_zalloc_def inside_def\<close>)
qed

lemma marks_written:
  assumes "heap_ok hs" and "1 \<le> i" and "i < npages hs" and "q < npages hs"
    and "\<forall>x. \<not> inside x (page_addr hs i) \<longrightarrow> m' x = m x"
  shows "is_taken m' (heap_start hs) q = is_taken m (heap_start hs) q"
    "is_last m' (heap_start hs) q = is_last m (heap_start hs) q"
proof -
  have "m' (heap_start hs + of_nat (q div 4)) = m (heap_start hs + of_nat (q div 4))"
    using mark_not_in_page [OF assms(1,4,2), of 1] assms(3,5) by (simp add: inside_def)
  then show "is_taken m' (heap_start hs) q = is_taken m (heap_start hs) q"
    "is_last m' (heap_start hs) q = is_last m (heap_start hs) q"
    by (simp_all add: is_taken_def is_last_def)
qed

text \<open>The pages \<open>page_zalloc\<close> can still hand out: the free ones of the first tenth.\<close>

definition pages_avail :: "heap_syms \<Rightarrow> mem \<Rightarrow> nat" where
  "pages_avail hs m = length (filter (\<lambda>i. \<not> is_taken m (heap_start hs) i) [0..<npages hs div 10])"

lemma pages_avail_card:
  "pages_avail hs m = card {i. i < npages hs div 10 \<and> \<not> is_taken m (heap_start hs) i}"
proof -
  have "set (filter (\<lambda>i. \<not> is_taken m (heap_start hs) i) [0..<npages hs div 10]) =
      {i. i < npages hs div 10 \<and> \<not> is_taken m (heap_start hs) i}" by auto
  then show ?thesis
    unfolding pages_avail_def by (metis distinct_card distinct_filter distinct_upt)
qed

lemma zalloc_pages_avail:
  assumes inv: "heap_ok hs \<and> page_wf hs m" and pos: "0 < pages_avail hs m"
  shows "snd (page_zalloc hs m) \<noteq> NULL \<and> pages_avail hs (fst (page_zalloc hs m)) = pages_avail hs m - 1"
proof -
  let ?F = "\<lambda>m. {i. i < npages hs div 10 \<and> \<not> is_taken m (heap_start hs) i}"
  have ok: "heap_ok hs" and wf: "page_wf hs m" using inv by auto
  obtain k where "k < npages hs div 10" "\<not> is_taken m (heap_start hs) k"
    using pos unfolding pages_avail_card by (metis (no_types, lifting) card_gt_0_iff ex_in_conv mem_Collect_eq)
  then have "znalloc_search hs m 1 0 \<noteq> None"
    unfolding znalloc_search_None_iff by (auto simp: run_free_def)
  then obtain ic where ic: "znalloc_search hs m 1 0 = Some ic" by auto
  have nn: "snd (page_zalloc hs m) \<noteq> NULL"
    using znalloc_null(1) [OF ok, of m 1] ic by (simp add: page_zalloc_def)
  obtain m' p where res: "page_znalloc hs m 1 = (m', p)" by fastforce
  then obtain i where found: "znalloc_search hs m 1 0 = Some (i, request 1)"
    using znalloc_found [OF ok res] nn by (auto simp: page_zalloc_def)
  then have found': "znalloc_search hs m 1 0 = Some (i, 1)" by simp
  note eff = page_znalloc_effect [OF ok page_wf_zero [OF ok wf] found' res]
  have i: "i < npages hs div 10" "\<not> is_taken m (heap_start hs) i"
    using znalloc_search_Some [OF found'] by (auto simp: run_free_iff)
  then have "?F m' = ?F m - {i}" using eff(2) by auto
  then have "card (?F m') = card (?F m) - 1" using i by simp
  then show ?thesis using nn res by (simp add: page_zalloc_def pages_avail_card)
qed

interpretation pages: page_source
  "page_zalloc hs" "\<lambda>m. heap_ok hs \<and> page_wf hs m" "page_owned hs" "pages_avail hs" for hs
proof (unfold_locales, goal_cases)
  case (1 m)
  then show ?case using page_znalloc_wf by (simp add: page_zalloc_def)
next
  case (2 m)
  then show ?case using znalloc_null(2) by (simp add: page_zalloc_def)
next
  case (3 m)
  from zalloc_effect [OF this] obtain i where i: "i < npages hs" "\<not> is_taken m (heap_start hs) i"
    "snd (page_zalloc hs m) = page_addr hs i" by metis
  then show ?case
    using page_addr_inj [of hs i] 3(1) unfolding page_owned_iff by (metis less_imp_le)
next
  case (4 m p)
  from zalloc_effect [OF this] obtain i where i: "1 \<le> i" "i < npages hs"
    "snd (page_zalloc hs m) = page_addr hs i"
    "\<And>q. q < npages hs \<Longrightarrow> is_taken (fst (page_zalloc hs m)) (heap_start hs) q \<longleftrightarrow>
       is_taken m (heap_start hs) q \<or> q = i" by metis
  then show ?case unfolding page_owned_iff by metis
next
  case (5 m x)
  from zalloc_effect [OF 5(1,2)] show ?case using 5(3) by metis
next
  case (6 m p x)
  then obtain k where k: "1 \<le> k" "k < npages hs" "p = page_addr hs k" "is_taken m (heap_start hs) k"
    unfolding page_owned_iff by blast
  show ?case
  proof (cases "snd (page_zalloc hs m) = NULL")
    case True
    then show ?thesis using 6(1) znalloc_null(2) by (simp add: page_zalloc_def)
  next
    case False
    from zalloc_effect [OF 6(1) False] obtain i where i: "i < npages hs" "\<not> is_taken m (heap_start hs) i"
      "\<And>x. nbytes hs < unat (x - heap_start hs) \<Longrightarrow> \<not> inside x (page_addr hs i) \<Longrightarrow>
       fst (page_zalloc hs m) x = m x" by metis
    have in_k: "inside x (page_addr hs k)" using 6(3) k(3) by simp
    obtain j where "unat (x - heap_start hs) = 4096 * (nbook hs + k) + j"
      using page_addr_offset_diff [OF conjunct1 [OF 6(1)] less_imp_le [OF k(2)] in_k] .
    then have "nbytes hs < unat (x - heap_start hs)"
      using nbook_bounds(3) [OF conjunct1 [OF 6(1)]] k(1) by simp
    moreover have "\<not> inside x (page_addr hs i)"
      using inside_distinct [OF conjunct1 [OF 6(1)], of i k] i k in_k by auto
    ultimately show ?thesis by (rule i(3))
  qed
next
  case (7 m p)
  then obtain k where k: "k < npages hs" "p = page_addr hs k" unfolding page_owned_iff by blast
  have ok: "heap_ok hs" using 7(1) by simp
  have u: "unat p = unat (heap_start hs) + 4096 * (nbook hs + k)"
    using unat_page_addr [OF ok, of k] k by simp
  have "unat p < 2 ^ 56"
    using u k(1) heap_okD(1,5,6) [OF ok] nbook_bounds(2) [OF ok] by simp
  then show ?case using u heap_okD(7,8) [OF ok] by auto
next
  case (8 m p m')
  then obtain k where k: "1 \<le> k" "k < npages hs" "p = page_addr hs k"
    unfolding page_owned_iff by blast
  have ok: "heap_ok hs" using 8(1) by simp
  have eq: "is_taken m' (heap_start hs) q = is_taken m (heap_start hs) q"
    "is_last m' (heap_start hs) q = is_last m (heap_start hs) q" if "q < npages hs" for q
    using marks_written [OF ok k(1,2) that, of m' m] 8(3) k(3) by auto
  have "page_wf hs m'"
    using 8(1) eq nbook_bounds(4) [OF ok] unfolding page_wf_iff by auto
  moreover have "page_owned hs m' = page_owned hs m"
    using eq by (intro ext) (auto simp: page_owned_iff)
  moreover have "pages_avail hs m' = pages_avail hs m"
    unfolding pages_avail_card using eq by (intro arg_cong [where f = card]) auto
  ultimately show ?case using ok by simp
next
  case (9 m)
  then show ?case by (rule zalloc_pages_avail)
qed

subsection \<open>Blocks of pages\<close>

text \<open>
  The same service for a block: its pages were nobody's and are owned afterwards, the pages owned
  before are untouched, and writing inside the block disturbs neither the allocator nor them.
\<close>

lemma block_page:
  assumes "heap_ok hs" and "i + c \<le> npages hs"
  shows "page_addr hs i + of_nat (4096 * j) = page_addr hs (i + j)"
    "unat (x - page_addr hs i) < 4096 * c \<Longrightarrow> \<exists>j < c. inside x (page_addr hs (i + j))"
proof -
  show eq: "page_addr hs i + of_nat (4096 * j) = page_addr hs (i + j)" for j
    unfolding page_addr_offset [OF assms(1)] by (simp add: algebra_simps)
  show "\<exists>j < c. inside x (page_addr hs (i + j))" if x: "unat (x - page_addr hs i) < 4096 * c"
  proof -
    define j where "j = unat (x - page_addr hs i) div 4096"
    have j: "j < c" "4096 * j \<le> unat (x - page_addr hs i)" using x by (auto simp: j_def)
    have "4096 * j < 2 ^ 64" using j(2) unat_lt_64 [of "x - page_addr hs i"] by simp
    then have "unat (x - page_addr hs i - of_nat (4096 * j)) = unat (x - page_addr hs i) mod 4096"
      using unat_diff_of_nat [of "4096 * j" "x - page_addr hs i"] j(2) by (simp add: j_def minus_mult_div_eq_mod)
    then have "inside x (page_addr hs (i + j))"
      unfolding eq [symmetric] inside_def by (simp add: diff_diff_eq)
    then show ?thesis using j(1) by blast
  qed
qed

lemma block_write:
  assumes ok: "heap_ok hs" and i: "1 \<le> i" "i + c \<le> npages hs"
    and same: "\<And>x. \<not> unat (x - page_addr hs i) < 4096 * c \<Longrightarrow> m' x = m x"
  shows "page_wf hs m' = page_wf hs m" "page_owned hs m' = page_owned hs m" "pages_avail hs m' = pages_avail hs m"
proof -
  have eq: "is_taken m' (heap_start hs) q = is_taken m (heap_start hs) q"
    "is_last m' (heap_start hs) q = is_last m (heap_start hs) q" if "q < npages hs" for q
    using same [OF mark_not_in_page [OF ok that i]] by (simp_all add: is_taken_def is_last_def)
  have "is_taken m' (heap_start hs) q = is_taken m (heap_start hs) q" if "q < nbook hs" for q
    using eq(1) [of q] that nbook_bounds(4) [OF ok] by simp
  then show "page_wf hs m' = page_wf hs m" using eq unfolding page_wf_iff by auto
  show "page_owned hs m' = page_owned hs m" using eq by (intro ext) (auto simp: page_owned_iff)
  have "npages hs div 10 \<le> npages hs" by simp
  then show "pages_avail hs m' = pages_avail hs m"
    unfolding pages_avail_card using eq by (intro arg_cong [where f = card]) auto
qed

lemma znalloc_block:
  assumes ok: "heap_ok hs" and wf: "page_wf hs m" and res: "page_znalloc hs m n = (m', p)" and p: "p \<noteq> NULL"
    and c: "c = request n"
  shows "page_wf hs m'" "page_owned hs m q \<Longrightarrow> page_owned hs m' q"
    "page_owned hs m q \<Longrightarrow> inside x q \<Longrightarrow> m' x = m x \<and> \<not> unat (x - p) < 4096 * c"
    "unat (x - p) < 4096 * c \<Longrightarrow> m' x = 0 \<and> (\<exists>q. page_owned hs m' q \<and> \<not> page_owned hs m q \<and> inside x q)"
    "pages_avail hs m \<le> pages_avail hs m' + c" "4096 dvd unat p" "unat p + 4096 * c < 2 ^ 56"
    "(\<And>x. \<not> unat (x - p) < 4096 * c \<Longrightarrow> m2 x = m' x) \<Longrightarrow>
      page_wf hs m2 \<and> page_owned hs m2 = page_owned hs m' \<and> pages_avail hs m2 = pages_avail hs m'"
proof -
  obtain i where found: "znalloc_search hs m n 0 = Some (i, c)" using znalloc_found [OF ok res p] c by blast
  note eff = page_znalloc_effect [OF ok page_wf_zero [OF ok wf] found res]
  have free: "run_free hs m i c" using znalloc_search_Some [OF found] by blast
  then have le: "i + c \<le> npages hs" and nt: "\<And>q. i \<le> q \<Longrightarrow> q < i + c \<Longrightarrow> \<not> is_taken m (heap_start hs) q"
    by (auto simp: run_free_iff)
  have i1: "1 \<le> i" using first_fit_predecessor(1) [OF ok wf found] .
  show wf': "page_wf hs m'" using page_znalloc_wf [OF ok wf, of n] res by simp
  show "page_owned hs m' q" if "page_owned hs m q" using that eff(2) unfolding page_owned_iff by blast
  show "m' x = m x \<and> \<not> unat (x - p) < 4096 * c" if q: "page_owned hs m q" "inside x q"
  proof -
    obtain k where k: "1 \<le> k" "k < npages hs" "q = page_addr hs k" "is_taken m (heap_start hs) k"
      using q(1) unfolding page_owned_iff by blast
    have out: "\<not> unat (x - p) < 4096 * c"
    proof
      assume "unat (x - p) < 4096 * c"
      then obtain j where j: "j < c" "inside x (page_addr hs (i + j))" using block_page(2) [OF ok le] eff(1) by blast
      have "i + j \<le> npages hs" using j(1) le by simp
      then have "k = i + j" using inside_distinct [OF ok _ _ _ j(2), of k] k q(2) by simp
      then show False using nt [of k] k(4) j(1) by simp
    qed
    obtain j where "unat (x - heap_start hs) = 4096 * (nbook hs + k) + j"
      using page_addr_offset_diff [OF ok less_imp_le [OF k(2)]] q(2) k(3) by blast
    then have "nbytes hs < unat (x - heap_start hs)" using nbook_bounds(3) [OF ok] k(1) by simp
    then show ?thesis using eff(5) out by blast
  qed
  show "m' x = 0 \<and> (\<exists>q. page_owned hs m' q \<and> \<not> page_owned hs m q \<and> inside x q)" if x: "unat (x - p) < 4096 * c"
  proof -
    obtain j where j: "j < c" "inside x (page_addr hs (i + j))" using block_page(2) [OF ok le] eff(1) x by blast
    have ij: "i + j < npages hs" using j(1) le by simp
    have "page_owned hs m' (page_addr hs (i + j))" unfolding page_owned_iff
      using eff(2) [OF ij] i1 ij j(1) by (intro exI [of _ "i + j"]) auto
    moreover have "\<not> page_owned hs m (page_addr hs (i + j))" unfolding page_owned_iff
      using page_addr_inj [OF ok less_imp_le [OF ij]] nt [of "i + j"] j(1) by (metis le_add1 less_imp_le nat_add_left_cancel_less)
    ultimately show ?thesis using eff(4) [OF x] j(2) by blast
  qed
  let ?F = "\<lambda>m. {i. i < npages hs div 10 \<and> \<not> is_taken m (heap_start hs) i}"
  have "?F m \<subseteq> ?F m' \<union> {i..<i + c}" using eff(2) by auto
  then have "card (?F m) \<le> card (?F m' \<union> {i..<i + c})" by (intro card_mono) auto
  also have "\<dots> \<le> card (?F m') + c" using card_Un_le [of "?F m'" "{i..<i + c}"] by simp
  finally show "pages_avail hs m \<le> pages_avail hs m' + c" by (simp add: pages_avail_card)
  have u: "unat p = unat (heap_start hs) + 4096 * (nbook hs + i)" using unat_page_addr [OF ok, of i] le eff(1) by simp
  show "4096 dvd unat p" using u heap_okD(7) [OF ok] by simp
  show "unat p + 4096 * c < 2 ^ 56"
    using u le heap_okD(1,5,6) [OF ok] nbook_bounds(2) [OF ok] by simp
  show "page_wf hs m2 \<and> page_owned hs m2 = page_owned hs m' \<and> pages_avail hs m2 = pages_avail hs m'"
    if "\<And>x. \<not> unat (x - p) < 4096 * c \<Longrightarrow> m2 x = m' x"
    using block_write [OF ok i1 le, of m2 m'] that wf' eff(1) by blast
qed

section \<open>A single page stays in the heap; a block may not\<close>

lemma npages_search_bound:
  assumes "heap_ok hs" and "i < npages hs div 10"
  shows "nbook hs + i + 1 \<le> npages hs"
proof -
  have "nbook hs \<le> npages hs div 16384 + 1"
    using unat_round_bookkeeping(2) [OF assms(1)] nbytes_eq [of hs] by linarith
  then show ?thesis using assms(2) by arith
qed

lemma page_addr_le_end:
  assumes "heap_ok hs" and "nbook hs + i + k \<le> npages hs"
  shows "unat (page_addr hs i) + 4096 * k \<le> unat (heap_end hs)"
proof -
  have "4096 * (nbook hs + i + k) \<le> unat (heap_memory hs)"
    by (rule le_trans [OF mult_le_mono2 [OF assms(2)] heap_okD(9) [OF assms(1)]])
  then show ?thesis
    using unat_page_addr [OF assms(1), of i] assms(2) heap_okD(5) [OF assms(1)] by simp
qed

text \<open>
  The page handed out by \<open>page_zalloc\<close> is aligned, lies between the bookkeeping pages and
  the end of the heap, was not in use, and is owned afterwards along with every page owned before.
\<close>

theorem page_zalloc_in_heap:
  assumes "heap_ok hs" and "page_wf hs m" and "page_zalloc hs m = (m', p)" and "p \<noteq> NULL"
  shows "4096 dvd unat p \<and> unat (heap_start hs) + 4096 * nbook hs \<le> unat p \<and>
    unat p + 4096 \<le> unat (heap_end hs) \<and> \<not> page_owned hs m p \<and>
    (\<forall>q. page_owned hs m' q \<longleftrightarrow> page_owned hs m q \<or> q = p)"
proof -
  have res: "page_znalloc hs m 1 = (m', p)" using assms(3) by (simp add: page_zalloc_def)
  obtain i where found: "znalloc_search hs m 1 0 = Some (i, request 1)"
    using znalloc_found [OF assms(1) res assms(4)] .
  then have i: "i < npages hs div 10" "p = page_addr hs i"
    using znalloc_search_Some [OF found] page_znalloc_eq [OF assms(1) found] assms(3)
    by (auto simp: page_zalloc_def)
  have b: "nbook hs + i + 1 \<le> npages hs" using npages_search_bound [OF assms(1) i(1)] .
  have inv: "heap_ok hs \<and> page_wf hs m" using assms by simp
  have "page_owned hs m' q \<longleftrightarrow> page_owned hs m q \<or> q = p" for q
    using pages.zalloc_owned [OF inv] assms(3,4) by simp
  moreover have "\<not> page_owned hs m p" using pages.zalloc_fresh [OF inv] assms(3,4) by simp
  moreover have "4096 dvd unat p \<and> unat (heap_start hs) + 4096 * nbook hs \<le> unat p"
    using unat_page_addr [OF assms(1), of i] i b heap_okD(7) [OF assms(1)] by simp
  moreover have "unat p + 4096 \<le> unat (heap_end hs)"
    using page_addr_le_end [OF assms(1) b] i(2) by simp
  ultimately show ?thesis by blast
qed

section \<open>A concrete heap\<close>

text \<open>Twenty pages at \<open>0x80000000\<close>, as \<open>page_init\<close> leaves them.\<close>

definition demo_heap :: heap_syms where
  "demo_heap = \<lparr>heap_start = 0x80000000, heap_end = 0x80014000\<rparr>"

definition demo_mem :: mem where
  "demo_mem = (\<lambda>_. 0)(0x80000000 := 3)"

lemma demo_sizes: "npages demo_heap = 20" "nbytes demo_heap = 5"
  by (simp_all add: demo_heap_def total_pages_def heap_memory_def bookkeeping_bytes_def)

lemma demo_heap_ok: "heap_ok demo_heap"
  by (simp add: heap_ok_def demo_heap_def total_pages_def heap_memory_def)

lemma demo_book: "nbook demo_heap = 1"
  using unat_round_bookkeeping(2) [OF demo_heap_ok] by (simp add: demo_sizes)

lemma demo_start: "heap_start demo_heap = 0x80000000"
  by (simp add: demo_heap_def)

lemmas demo_marks = demo_sizes demo_book demo_start demo_mem_def is_taken_def is_last_def Let_def

lemma demo_wf: "page_wf demo_heap demo_mem"
  by (simp add: page_wf_def demo_marks upt_rec)

lemma demo_search: "znalloc_search demo_heap demo_mem 1 0 = Some (1, 1)"
  "znalloc_search demo_heap demo_mem 19 0 = Some (1, 19)"
  by (simp_all add: znalloc_search_unfold [of _ _ _ 0] znalloc_search_unfold [of _ _ _ "Suc 0"]
      run_free_def demo_marks upt_rec)

lemma demo_znalloc:
  "page_znalloc demo_heap demo_mem 1 = (fst (page_znalloc demo_heap demo_mem 1), 0x80002000)"
  "page_znalloc demo_heap demo_mem 19 = (fst (page_znalloc demo_heap demo_mem 19), 0x80002000)"
  using page_znalloc_eq [OF demo_heap_ok demo_search(1)] page_znalloc_eq [OF demo_heap_ok demo_search(2)]
    page_addr_offset [OF demo_heap_ok, of 1] by (simp_all add: demo_book demo_start)

lemma demo_znalloc_snd:
  "snd (page_znalloc demo_heap demo_mem 1) = 0x80002000"
  "snd (page_znalloc demo_heap demo_mem 19) = 0x80002000"
  using demo_znalloc by (metis snd_conv)+

text \<open>
  The block of 19 pages handed out from the fresh 20-page heap ends one page past
  \<open>heap_end\<close>: page numbers already count the bookkeeping page, and the address adds it again.
\<close>

theorem page_znalloc_overrun:
  "heap_ok demo_heap \<and> page_wf demo_heap demo_mem \<and>
   snd (page_znalloc demo_heap demo_mem 19) = 0x80002000 \<and>
   unat (snd (page_znalloc demo_heap demo_mem 19)) + 4096 * 19 = unat (heap_end demo_heap) + 4096"
proof -
  have "unat (heap_end demo_heap) = 0x80014000" by (simp add: demo_heap_def)
  then show ?thesis using demo_heap_ok demo_wf by (simp add: demo_znalloc_snd)
qed


theorem page_znalloc_null_iff_witness:
  "snd (page_znalloc demo_heap demo_mem 19) \<noteq> NULL \<and>
   (\<exists>k < 2. run_free demo_heap demo_mem k (request 19))"
  using page_znalloc_null_iff [OF demo_heap_ok, of demo_mem 19] demo_znalloc(2)
  by (auto simp: demo_sizes)

theorem page_znalloc_first_fit_witness:
  "\<exists>i. page_addr demo_heap i = 0x80002000 \<and> run_free demo_heap demo_mem i 19 \<and>
     (\<forall>x. unat (x - 0x80002000) < PAGE_SIZE * 19 \<longrightarrow> fst (page_znalloc demo_heap demo_mem 19) x = 0)"
  using page_znalloc_first_fit [OF demo_heap_ok demo_wf demo_znalloc(2)] by auto

theorem page_free_znalloc_witness:
  "\<exists>m''. page_free demo_heap (fst (page_znalloc demo_heap demo_mem 19)) 0x80002000 = Some m'' \<and>
     (\<forall>q < 20. is_taken m'' 0x80000000 q = is_taken demo_mem 0x80000000 q)"
  using page_free_znalloc [OF demo_heap_ok demo_wf demo_znalloc(2)]
  by (auto simp: demo_sizes demo_start)

theorem page_zalloc_in_heap_witness:
  "unat (snd (page_zalloc demo_heap demo_mem)) + 4096 \<le> unat (heap_end demo_heap) \<and>
   \<not> page_owned demo_heap demo_mem 0x80002000"
  using page_zalloc_in_heap [OF demo_heap_ok demo_wf, of "fst (page_zalloc demo_heap demo_mem)" "0x80002000"]
    demo_znalloc(1) by (simp add: page_zalloc_def demo_znalloc_snd)

end
