(* ===== verification/Mmu.thy ===== *)
theory Mmu
  imports Page
begin

text \<open>
  The page tables of \<^verbatim>\<open>src/mmu.c\<close>: three levels of 512 eight-byte entries in byte memory,
  as the Sv39 walk reads them. The operations that may need a new table take it from
  \<open>page_zalloc\<close>; they are written over an arbitrary page source, proved correct inside the
  locale \<open>page_source\<close> and used with the kernel's allocator. The lock around an update is
  not part of the model: the updates are sequential.
\<close>

section \<open>Model\<close>

subsection \<open>Entries\<close>

abbreviation (input) PTEB_VALID :: u64 where "PTEB_VALID \<equiv> 1"

text \<open>\<open>vpn[i]\<close> of a virtual address.\<close>

definition vpn :: "u64 \<Rightarrow> nat \<Rightarrow> nat" where
  "vpn vaddr i = unat (drop_bit (12 + 9 * i) vaddr AND 0x1FF)"

text \<open>The entry built from \<open>ppn[0..2]\<close> of a physical address and the flag bits.\<close>

definition make_entry :: "u64 \<Rightarrow> u64 \<Rightarrow> u64" where
  "make_entry paddr bits =
     (let ppn0 = drop_bit 12 paddr AND 0x1FF;
          ppn1 = drop_bit 21 paddr AND 0x1FF;
          ppn2 = drop_bit 30 paddr AND 0x3FFFFFF
      in push_bit 28 ppn2 OR push_bit 19 ppn1 OR push_bit 10 ppn0 OR bits)"

text \<open>\<open>pt->entries[k]\<close>\<close>

definition pt_entry :: "mem \<Rightarrow> u64 \<Rightarrow> nat \<Rightarrow> u64" where
  "pt_entry m pt k = load64 m (pt + of_nat (8 * k))"

definition set_pt_entry :: "mem \<Rightarrow> u64 \<Rightarrow> nat \<Rightarrow> u64 \<Rightarrow> mem" where
  "set_pt_entry m pt k e = store64 m (pt + of_nat (8 * k)) e"

text \<open>\<open>(entry << 2) & ~0xFFFUL\<close>\<close>

definition pt_lower :: "u64 \<Rightarrow> u64" where
  "pt_lower entry = push_bit 2 entry AND NOT 0xFFF"

subsection \<open>Operations\<close>

text \<open>One of the two identical descents of \<open>mmu_set\<close>: allocate the lower table when missing.\<close>

definition mmu_descend :: "(mem \<Rightarrow> mem \<times> u64) \<Rightarrow> mem \<Rightarrow> u64 \<Rightarrow> nat \<Rightarrow> mem \<times> u64" where
  "mmu_descend zalloc m pt k =
     (let entry = pt_entry m pt k in
      if entry AND PTEB_VALID = 0 then
        (let (m1, new_table) = zalloc m;
             entry = drop_bit 2 new_table OR PTEB_VALID
         in (set_pt_entry m1 pt k entry, pt_lower entry))
      else (m, pt_lower entry))"

definition mmu_set_with ::
    "(mem \<Rightarrow> mem \<times> u64) \<Rightarrow> mem \<Rightarrow> u64 \<Rightarrow> u64 \<Rightarrow> u64 \<Rightarrow> u64 \<Rightarrow> mem \<times> int" where
  "mmu_set_with zalloc m pt vaddr paddr bits =
     (let (m1, pt1) = mmu_descend zalloc m pt (vpn vaddr 2);
          (m2, pt0) = mmu_descend zalloc m1 pt1 (vpn vaddr 1)
      in (set_pt_entry m2 pt0 (vpn vaddr 0) (make_entry paddr bits), 0))"

definition mmu_set :: "heap_syms \<Rightarrow> mem \<Rightarrow> u64 \<Rightarrow> u64 \<Rightarrow> u64 \<Rightarrow> u64 \<Rightarrow> mem \<times> int" where
  "mmu_set hs = mmu_set_with (page_zalloc hs)"

definition mmu_map :: "heap_syms \<Rightarrow> mem \<Rightarrow> u64 \<Rightarrow> u64 \<Rightarrow> u64 \<Rightarrow> u64 \<Rightarrow> mem \<times> int" where
  "mmu_map hs m pt vaddr paddr bits =
     (if bits AND 0xe = 0 then (m, -1)
      else mmu_set hs m pt vaddr paddr (bits OR PTEB_VALID))"

definition mmu_unmap :: "heap_syms \<Rightarrow> mem \<Rightarrow> u64 \<Rightarrow> u64 \<Rightarrow> mem \<times> int" where
  "mmu_unmap hs m pt vaddr = mmu_set hs m pt vaddr 0 0"

text \<open>The address computed from a leaf found at level \<open>i\<close>.\<close>

definition leaf_paddr :: "u64 \<Rightarrow> u64 \<Rightarrow> nat \<Rightarrow> u64" where
  "leaf_paddr entry vaddr i =
     (let ppn0 = drop_bit 10 entry AND 0x1FF;
          ppn1 = drop_bit 19 entry AND 0x1FF;
          ppn2 = drop_bit 28 entry AND 0x3FFFFFF
      in if i = 2 then push_bit 30 ppn2 OR (vaddr AND 0x3FFFFFFF)
         else if i = 1 then push_bit 30 ppn2 OR push_bit 21 ppn1 OR (vaddr AND 0x1FFFFF)
         else push_bit 30 ppn2 OR push_bit 21 ppn1 OR push_bit 12 ppn0 OR (vaddr AND 0xFFF))"

text \<open>The loop of \<open>mmu_translate\<close> from level \<open>i\<close> down.\<close>

fun mmu_walk :: "mem \<Rightarrow> u64 \<Rightarrow> u64 \<Rightarrow> nat \<Rightarrow> u64" where
  "mmu_walk m pt vaddr i =
     (let entry = pt_entry m pt (vpn vaddr i) in
      if entry AND PTEB_VALID = 0 then - 1
      else if entry AND 0xe \<noteq> 0 then leaf_paddr entry vaddr i
      else (case i of 0 \<Rightarrow> - 1 | Suc j \<Rightarrow> mmu_walk m (pt_lower entry) vaddr j))"

declare mmu_walk.simps [simp del]

definition mmu_translate :: "mem \<Rightarrow> u64 \<Rightarrow> u64 \<Rightarrow> u64" where
  "mmu_translate m pt vaddr = mmu_walk m pt vaddr 2"

text \<open>
  The loop of \<open>mmu_map_multiple\<close>. The 64-bit counter passes a bound above \<open>2 ^ 64 - 4096\<close> by
  wrapping, and the loop then starts again: a run that does not end is \<open>None\<close>.
\<close>

partial_function (option) map_multiple_from ::
    "heap_syms \<Rightarrow> mem \<Rightarrow> u64 \<Rightarrow> u64 \<Rightarrow> u64 \<Rightarrow> u64 \<Rightarrow> u64 \<Rightarrow> u64 \<Rightarrow> mem option" where
  "map_multiple_from hs m pt start_vaddr start_paddr bytes bits i =
     (if i < bytes then
        (let (m1, r) = mmu_map hs m pt (start_vaddr + i) (start_paddr + i) bits in
         if r \<noteq> 0 then Some m1
         else map_multiple_from hs m1 pt start_vaddr start_paddr bytes bits (i + 4096))
      else Some m)"

definition mmu_map_multiple ::
    "heap_syms \<Rightarrow> mem \<Rightarrow> u64 \<Rightarrow> u64 \<Rightarrow> u64 \<Rightarrow> u64 \<Rightarrow> u64 \<Rightarrow> mem option" where
  "mmu_map_multiple hs m pt start_vaddr start_paddr bytes bits =
     map_multiple_from hs m pt start_vaddr start_paddr bytes bits 0"

text \<open>
  \<open>mmu_free\<close>: the loop over the entries \<open>ks\<close> still to be visited, then the table's own page.
  The fuel bounds the depth of the recursion; a table that runs out of it, or whose page
  \<open>page_free\<close> does not handle, is \<open>None\<close>.
\<close>

function mmu_free_from :: "heap_syms \<Rightarrow> nat \<Rightarrow> mem \<Rightarrow> u64 \<Rightarrow> nat list \<Rightarrow> mem option" where
  "mmu_free_from hs fuel m pt [] = page_free hs m pt"
| "mmu_free_from hs fuel m pt (k # ks) =
     (let entry = pt_entry m pt k in
      if entry AND 1 \<noteq> 0 then
        (if entry AND 0xe = 0 then
           (case fuel of
              0 \<Rightarrow> None
            | Suc f \<Rightarrow>
                (case mmu_free_from hs f m (pt_lower entry) [0..<512] of
                   None \<Rightarrow> None
                 | Some m1 \<Rightarrow> mmu_free_from hs fuel m1 pt ks))
         else mmu_free_from hs fuel (set_pt_entry m pt k 0) pt ks)
      else mmu_free_from hs fuel m pt ks)"
  by pat_completeness auto
termination
  by (relation "measures [\<lambda>(hs, f, m, pt, ks). f, \<lambda>(hs, f, m, pt, ks). length ks]") auto

definition mmu_free :: "heap_syms \<Rightarrow> nat \<Rightarrow> mem \<Rightarrow> u64 \<Rightarrow> mem option" where
  "mmu_free hs fuel m pt = mmu_free_from hs fuel m pt [0..<512]"

section \<open>Entries and their bits\<close>

lemma vpn_lt [simp]: "vpn v i < 512"
proof -
  have "vpn v i = unat (take_bit 9 (drop_bit (12 + 9 * i) v))"
    by (simp add: vpn_def take_bit_eq_mask mask_eq_exp_minus_1)
  also have "\<dots> = take_bit 9 (unat (drop_bit (12 + 9 * i) v))" by (simp add: unsigned_take_bit_eq)
  finally show ?thesis using take_bit_nat_less_exp [of 9 "unat (drop_bit (12 + 9 * i) v)"] by simp
qed

lemma mask_consts:
  "(0x1FF :: u64) = mask 9" "(0x3FFFFFF :: u64) = mask 26" "(0xFFF :: u64) = mask 12"
  "(0x3FFFFFFF :: u64) = mask 30" "(0x1FFFFF :: u64) = mask 21"
  by (simp_all add: mask_eq_exp_minus_1)

lemma and_one_zero_iff: "(e :: u64) AND 1 = 0 \<longleftrightarrow> \<not> bit e 0"
  by (simp add: and_one_eq bit_0 odd_iff_mod_2_eq_one)

lemma fourteen_bits: "bit (14 :: u64) n \<longleftrightarrow> n = 1 \<or> n = 2 \<or> n = 3"
proof -
  have "(14 :: u64) = 2 ^ 1 OR 2 ^ 2 OR 2 ^ 3" by simp
  then have "bit (14 :: u64) n \<longleftrightarrow> bit (2 ^ 1 OR 2 ^ 2 OR 2 ^ 3 :: u64) n" by (rule arg_cong)
  also have "\<dots> \<longleftrightarrow> n = 1 \<or> n = 2 \<or> n = 3"
    unfolding bit_or_iff bit_exp_iff by auto
  finally show ?thesis .
qed

lemma and_fourteen_zero_iff: "(e :: u64) AND 14 = 0 \<longleftrightarrow> \<not> bit e 1 \<and> \<not> bit e 2 \<and> \<not> bit e 3"
proof -
  have "e AND 14 = 0 \<longleftrightarrow> (\<forall>n. \<not> (bit e n \<and> bit (14 :: u64) n))"
    unfolding bit_eq_iff bit_and_iff by (auto dest: bit_imp_le_length)
  then show ?thesis unfolding fourteen_bits by blast
qed

lemma aligned_bits:
  assumes "4096 dvd unat (p :: u64)" and "n < 12"
  shows "\<not> bit p n"
proof -
  have "take_bit 12 (unat p) = 0" using assms(1) by (simp add: take_bit_eq_mod)
  then have "\<not> bit (take_bit 12 (unat p)) n" by simp
  then show ?thesis using assms(2) by (simp add: bit_take_bit_iff bit_unsigned_iff)
qed

lemma small_bits:
  assumes "unat (p :: u64) < 2 ^ k" and "k \<le> n"
  shows "\<not> bit p n"
proof -
  have "take_bit k (unat p) = unat p" using assms(1) by (simp add: take_bit_nat_eq_self)
  then have "\<not> bit (unat p) n" using assms(2) by (metis bit_take_bit_iff leD)
  then show ?thesis by (auto simp: bit_unsigned_iff)
qed

text \<open>The entry written for a new table is a valid branch to it.\<close>

lemma new_table_entry:
  assumes "4096 dvd unat (p :: u64)"
  shows "bit (drop_bit 2 p OR 1) 0" "(drop_bit 2 p OR 1) AND 14 = 0"
proof -
  show "bit (drop_bit 2 p OR 1) 0" by (simp add: bit_or_iff)
  show "(drop_bit 2 p OR 1) AND 14 = 0"
    using aligned_bits [OF assms] unfolding and_fourteen_zero_iff
    by (simp add: bit_or_iff bit_1_iff bit_drop_bit_eq)
qed

lemma new_table_lower:
  assumes "4096 dvd unat p"
  shows "pt_lower (drop_bit 2 p OR 1) = p"
proof (rule bit_word_eqI)
  fix n
  assume n: "n < LENGTH(64)"
  have e: "bit (pt_lower (drop_bit 2 p OR 1)) n \<longleftrightarrow>
      2 \<le> n \<and> (bit p (2 + (n - 2)) \<or> n - 2 = 0) \<and> \<not> n < 12"
    using n unfolding pt_lower_def mask_consts bit_and_iff bit_not_iff bit_mask_iff bit_push_bit_iff
      bit_or_iff bit_1_iff bit_drop_bit_eq by auto
  show "bit (pt_lower (drop_bit 2 p OR 1)) n = bit p n"
  proof (cases "n < 12")
    case True
    then show ?thesis using aligned_bits [OF assms] unfolding e by blast
  next
    case False
    then have "2 + (n - 2) = n" by simp
    then show ?thesis using False unfolding e by auto
  qed
qed

section \<open>Reading entries over writes\<close>

lemma apart_words:
  assumes "8 dvd unat a" and "8 dvd unat b" and "a \<noteq> b" and "unat a < 2 ^ 57" and "unat b < 2 ^ 57"
  shows "apart a 8 b 8"
  unfolding apart_def
proof (intro allI notI)
  fix x
  assume x: "unat (x - a) < 8 \<and> unat (x - b) < 8"
  define j k where "j = unat (x - a)" and "k = unat (x - b)"
  have "unat (a + of_nat j) = unat a + j"
    using x assms(4) by (intro unat_add_of_nat) (simp add: j_def)
  moreover have "unat (b + of_nat k) = unat b + k"
    using x assms(5) by (intro unat_add_of_nat) (simp add: k_def)
  ultimately have eq: "unat a + j = unat b + k" by (simp add: j_def k_def)
  obtain c d where cd: "unat a = 8 * c" "unat b = 8 * d" using assms(1,2) by (elim dvdE)
  have "(8 * c + j) div 8 = (8 * d + k) div 8" using eq cd by simp
  then have "c = d" using x by (simp add: j_def k_def)
  then show False using cd assms(3) by (simp add: word_unat_eq_iff)
qed

lemma unat_entry_addr:
  assumes "unat t < 2 ^ 56" and "k < 512"
  shows "unat (t + of_nat (8 * k) :: u64) = unat t + 8 * k"
  using assms by (intro unat_add_of_nat) simp

lemma entry_apart:
  assumes "4096 dvd unat t" "unat t < 2 ^ 56" "4096 dvd unat u" "unat u < 2 ^ 56"
    and "k < 512" "j < 512" and "t \<noteq> u \<or> k \<noteq> j"
  shows "apart (t + of_nat (8 * k)) 8 (u + of_nat (8 * j)) 8"
proof (rule apart_words)
  obtain a b where ab: "unat t = 4096 * a" "unat u = 4096 * b" using assms(1,3) by (elim dvdE)
  note e = unat_entry_addr [OF assms(2,5)] unat_entry_addr [OF assms(4,6)]
  show "t + of_nat (8 * k) \<noteq> u + of_nat (8 * j)"
  proof
    assume "t + of_nat (8 * k) = u + of_nat (8 * j)"
    then have "4096 * a + 8 * k = 4096 * b + 8 * j" using e ab by metis
    moreover from this have "a = b" by (rule page_number_eq) (use assms(5,6) in auto)
    ultimately show False using ab assms(7) by (auto simp: word_unat_eq_iff)
  qed
  have "8 dvd unat t" "8 dvd unat u" using ab by simp_all
  then show "8 dvd unat (t + of_nat (8 * k))" "8 dvd unat (u + of_nat (8 * j))"
    unfolding e by simp_all
  show "unat (t + of_nat (8 * k)) < 2 ^ 57" "unat (u + of_nat (8 * j)) < 2 ^ 57"
    unfolding e using assms(2,4-6) by simp_all
qed

lemma entry_inside:
  assumes "k < 512" and "unat (x - (t + of_nat (8 * k))) < 8"
  shows "inside x t"
proof -
  define j where "j = unat (x - (t + of_nat (8 * k)))"
  have "x - t = of_nat (8 * k + j)" by (simp add: j_def algebra_simps)
  moreover have "8 * k + j < 4096" using assms by (simp add: j_def)
  ultimately show ?thesis by (simp add: inside_def unat_of_nat_64 del: of_nat_add of_nat_mult)
qed

lemma pt_entry_cong:
  assumes "k < 512" and "\<And>x. inside x t \<Longrightarrow> m x = m' x"
  shows "pt_entry m t k = pt_entry m' t k"
  unfolding pt_entry_def using assms entry_inside by (intro load64_cong) blast

lemma pt_entry_zero:
  assumes "k < 512" and "\<And>x. inside x t \<Longrightarrow> m x = 0"
  shows "pt_entry m t k = 0"
  using pt_entry_cong [OF assms(1), of t m "\<lambda>_. 0"] assms(2) by (simp add: pt_entry_def load64_def)

lemma pt_entry_same [simp]: "pt_entry (set_pt_entry m t k e) t k = e"
  by (simp add: pt_entry_def set_pt_entry_def)

section \<open>The shape of a table and the map it holds\<close>

text \<open>
  A labelling gives every table of a page table the path of indexes that leads to it; because
  it is a function, no table is reached along two paths. Tables with a path shorter than two
  hold only invalid entries and branches; the labelled pages are owned.
\<close>

definition pt_shape :: "(u64 \<Rightarrow> nat list option) \<Rightarrow> (u64 \<Rightarrow> bool) \<Rightarrow> mem \<Rightarrow> u64 \<Rightarrow> bool" where
  "pt_shape L ow m pt \<longleftrightarrow> L pt = Some [] \<and> (\<forall>t p. L t = Some p \<longrightarrow> ow t) \<and>
     (\<forall>t p k. L t = Some p \<longrightarrow> length p < 2 \<longrightarrow> k < 512 \<longrightarrow> bit (pt_entry m t k) 0 \<longrightarrow>
        pt_entry m t k AND 14 = 0 \<and> L (pt_lower (pt_entry m t k)) = Some (p @ [k]))"

text \<open>The level-zero entry a virtual address leads to; 0 when a table on the way is missing.\<close>

definition pt_leaf :: "mem \<Rightarrow> u64 \<Rightarrow> u64 \<Rightarrow> u64" where
  "pt_leaf m pt v =
     (let e2 = pt_entry m pt (vpn v 2) in
      if \<not> bit e2 0 then 0
      else let e1 = pt_entry m (pt_lower e2) (vpn v 1) in
        if \<not> bit e1 0 then 0 else pt_entry m (pt_lower e1) (vpn v 0))"

text \<open>How many tables on the way of an address are missing.\<close>

definition pt_missing :: "mem \<Rightarrow> u64 \<Rightarrow> u64 \<Rightarrow> nat" where
  "pt_missing m pt v =
     (let e2 = pt_entry m pt (vpn v 2) in
      if \<not> bit e2 0 then 2 else if \<not> bit (pt_entry m (pt_lower e2) (vpn v 1)) 0 then 1 else 0)"

definition same_page :: "u64 \<Rightarrow> u64 \<Rightarrow> bool" where
  "same_page v w \<longleftrightarrow> vpn v 2 = vpn w 2 \<and> vpn v 1 = vpn w 1 \<and> vpn v 0 = vpn w 0"

lemma pt_shape_root: "pt_shape L ow m pt \<Longrightarrow> L pt = Some []"
  by (simp add: pt_shape_def)

lemma pt_shape_owned: "pt_shape L ow m pt \<Longrightarrow> L t = Some p \<Longrightarrow> ow t"
  unfolding pt_shape_def by blast

lemma pt_shape_branch:
  assumes "pt_shape L ow m pt" and "L t = Some p" and "length p < 2" and "k < 512"
    and "bit (pt_entry m t k) 0"
  shows "pt_entry m t k AND 14 = 0" "L (pt_lower (pt_entry m t k)) = Some (p @ [k])"
  using assms unfolding pt_shape_def by blast+

lemma pt_missing_le: "pt_missing m pt v \<le> 2"
  by (simp add: pt_missing_def Let_def)

lemma pt_missing_mono:
  assumes shape: "pt_shape L ow m pt"
    and keep: "\<And>u q j. L u = Some q \<Longrightarrow> length q < 2 \<Longrightarrow> j < 512 \<Longrightarrow> bit (pt_entry m u j) 0 \<Longrightarrow>
      pt_entry m' u j = pt_entry m u j"
  shows "pt_missing m' pt w \<le> pt_missing m pt w"
proof (cases "bit (pt_entry m pt (vpn w 2)) 0")
  case b2: True
  note L2 = pt_shape_root [OF shape]
  let ?t = "pt_lower (pt_entry m pt (vpn w 2))"
  have e2: "pt_entry m' pt (vpn w 2) = pt_entry m pt (vpn w 2)" using keep [OF L2 _ _ b2] by simp
  have L1: "L ?t = Some [vpn w 2]" using pt_shape_branch(2) [OF shape L2 _ _ b2] by simp
  show ?thesis
    using e2 b2 keep [OF L1, of "vpn w 1"] by (simp add: pt_missing_def Let_def)
next
  case False
  then have "pt_missing m pt w = 2" by (simp add: pt_missing_def)
  then show ?thesis using pt_missing_le [of m' pt w] by simp
qed

lemma pt_leaf_cong:
  assumes shape: "pt_shape L ow m pt"
    and same: "\<And>t p x. L t = Some p \<Longrightarrow> inside x t \<Longrightarrow> m' x = m x"
  shows "pt_leaf m' pt v = pt_leaf m pt v" "pt_shape L ow m' pt"
proof -
  have e: "pt_entry m' t k = pt_entry m t k" if "L t = Some p" "k < 512" for t p k
    using same [OF that(1)] by (intro pt_entry_cong [OF that(2)]) auto
  then show "pt_shape L ow m' pt" using shape unfolding pt_shape_def by auto
  note L2 = pt_shape_root [OF shape]
  show "pt_leaf m' pt v = pt_leaf m pt v"
  proof (cases "bit (pt_entry m pt (vpn v 2)) 0")
    case b2: True
    have L1: "L (pt_lower (pt_entry m pt (vpn v 2))) = Some [vpn v 2]"
      using pt_shape_branch(2) [OF shape L2 _ _ b2] by simp
    show ?thesis
    proof (cases "bit (pt_entry m (pt_lower (pt_entry m pt (vpn v 2))) (vpn v 1)) 0")
      case b1: True
      from pt_shape_branch(2) [OF shape L1 _ _ b1] show ?thesis
        using e [OF L2] e [OF L1] e by (simp add: pt_leaf_def Let_def)
    qed (use e [OF L2] e [OF L1] in \<open>simp add: pt_leaf_def Let_def\<close>)
  qed (use e [OF L2] in \<open>simp add: pt_leaf_def Let_def\<close>)
qed

text \<open>Linking an empty table into an invalid slot does not change the map.\<close>

lemma pt_leaf_link:
  assumes shape: "pt_shape L ow m pt" and t: "L t = Some p" "length p < 2"
    and new: "pt_lower e = n"
    and invalid: "\<not> bit (pt_entry m t k) 0"
    and old: "\<And>u q j. L u = Some q \<Longrightarrow> j < 512 \<Longrightarrow>
      pt_entry m' u j = (if u = t \<and> j = k then e else pt_entry m u j)"
    and zero: "\<And>j. j < 512 \<Longrightarrow> pt_entry m' n j = 0"
  shows "pt_leaf m' pt v = pt_leaf m pt v"
proof -
  let ?e2 = "pt_entry m pt (vpn v 2)"
  note L2 = pt_shape_root [OF shape]
  show ?thesis
  proof (cases "bit ?e2 0")
    case False
    then show ?thesis using old [OF L2, of "vpn v 2"] zero new by (simp add: pt_leaf_def Let_def)
  next
    case b2: True
    then have e2: "pt_entry m' pt (vpn v 2) = ?e2" using old [OF L2, of "vpn v 2"] invalid by auto
    have L1: "L (pt_lower ?e2) = Some [vpn v 2]"
      using pt_shape_branch(2) [OF shape L2 _ _ b2] by simp
    let ?e1 = "pt_entry m (pt_lower ?e2) (vpn v 1)"
    show ?thesis
    proof (cases "bit ?e1 0")
      case False
      then show ?thesis
        using old [OF L1, of "vpn v 1"] zero new b2 e2 by (simp add: pt_leaf_def Let_def)
    next
      case b1: True
      then have e1: "pt_entry m' (pt_lower ?e2) (vpn v 1) = ?e1"
        using old [OF L1, of "vpn v 1"] invalid by auto
      have L0: "L (pt_lower ?e1) = Some [vpn v 2, vpn v 1]"
        using pt_shape_branch(2) [OF shape L1 _ _ b1] by simp
      then have "pt_lower ?e1 \<noteq> t" using t by auto
      then show ?thesis
        using old [OF L0, of "vpn v 0"] b2 b1 e2 e1 by (simp add: pt_leaf_def Let_def)
    qed
  qed
qed

context page_source
begin

lemma pt_entry_set:
  assumes "inv m" and "owned m t" and "owned m u" and "k < 512" and "j < 512"
  shows "pt_entry (set_pt_entry m u j e) t k = (if t = u \<and> k = j then e else pt_entry m t k)"
proof (cases "t = u \<and> k = j")
  case False
  then have "apart (t + of_nat (8 * k)) 8 (u + of_nat (8 * j)) 8"
    using owned_aligned [OF assms(1,2)] owned_aligned [OF assms(1,3)] assms(4,5)
    by (intro entry_apart) auto
  then show ?thesis using False
    by (auto simp: pt_entry_def set_pt_entry_def load64_store64_other simp del: of_nat_mult)
qed auto

lemma pt_entry_zalloc:
  assumes "inv m" and "owned m t" and "k < 512"
  shows "pt_entry (fst (zalloc m)) t k = pt_entry m t k"
  using zalloc_frame [OF assms(1,2)] by (intro pt_entry_cong [OF assms(3)]) auto

lemma pt_entry_new:
  assumes "inv m" and "snd (zalloc m) \<noteq> NULL" and "k < 512"
  shows "pt_entry (fst (zalloc m)) (snd (zalloc m)) k = 0"
  using zalloc_zero [OF assms(1,2)] by (intro pt_entry_zero [OF assms(3)]) auto

lemmas set_pt_entry_owned = store64_owned [folded set_pt_entry_def]

text \<open>What a step of an update keeps: everything but the entries of the page table itself.\<close>

definition keeps :: "(u64 \<Rightarrow> nat list option) \<Rightarrow> mem \<Rightarrow> (u64 \<Rightarrow> nat list option) \<Rightarrow> mem \<Rightarrow> bool" where
  "keeps L m L' m' \<longleftrightarrow> L \<subseteq>\<^sub>m L' \<and>
     (\<forall>q. owned m q \<longrightarrow> owned m' q \<and>
        (L q = None \<longrightarrow> L' q = None \<and> (\<forall>x. inside x q \<longrightarrow> m' x = m x)))"

lemma keeps_refl: "keeps L m L m"
  by (simp add: keeps_def)

lemma keeps_trans: "keeps L m L' m' \<Longrightarrow> keeps L' m' L'' m'' \<Longrightarrow> keeps L m L'' m''"
  unfolding keeps_def by (intro conjI) (auto intro: map_le_trans)

lemma set_pt_entry_outside:
  assumes "inv m" and "owned m t" and "owned m q" and "q \<noteq> t" and "k < 512" and "inside x q"
  shows "set_pt_entry m t k e x = m x"
proof -
  have "\<not> inside x t" using owned_disjoint [OF assms(1-3)] assms(4,6) by blast
  then have "\<not> unat (x - (t + of_nat (8 * k))) < 8" using entry_inside [OF assms(5)] by blast
  then show ?thesis unfolding set_pt_entry_def by (intro store64_outside) simp
qed

lemma keeps_set:
  assumes "inv m" and "pt_shape L (owned m) m pt" and "L t = Some p" and "k < 512"
  shows "keeps L m L (set_pt_entry m t k e)"
proof -
  have t: "owned m t" using pt_shape_owned [OF assms(2,3)] .
  show ?thesis
    unfolding keeps_def set_pt_entry_owned(2) [OF assms(1) t assms(4)]
    using set_pt_entry_outside [OF assms(1) t _ _ assms(4)] assms(3) by fastforce
qed

lemma descend_new:
  assumes inv: "inv m" and shape: "pt_shape L (owned m) m pt"
    and t: "L t = Some p" "length p < 2" and k: "k < 512"
    and invalid: "\<not> bit (pt_entry m t k) 0" and n: "snd (zalloc m) \<noteq> NULL"
  defines "n \<equiv> snd (zalloc m)" and "m1 \<equiv> fst (zalloc m)"
  defines "e \<equiv> drop_bit 2 n OR 1"
  defines "m' \<equiv> set_pt_entry m1 t k e"
  shows "inv m'" "pt_shape (L(n \<mapsto> p @ [k])) (owned m') m' pt" "avail m' = avail m1"
    "keeps L m (L(n \<mapsto> p @ [k])) m'" "pt_leaf m' pt v = pt_leaf m pt v"
    "pt_entry m' t k = e" "bit e 0" "pt_lower e = n"
    "L u = Some q \<Longrightarrow> j < 512 \<Longrightarrow> u \<noteq> t \<or> j \<noteq> k \<Longrightarrow> pt_entry m' u j = pt_entry m u j"
proof -
  have own: "owned m t" using pt_shape_owned [OF shape t(1)] .
  have inv1: "inv m1" using zalloc_inv [OF inv] by (simp add: m1_def)
  have own1: "owned m1 q \<longleftrightarrow> owned m q \<or> q = n" for q
    using zalloc_owned [OF inv n] by (simp add: m1_def n_def)
  have fresh: "\<not> owned m n" using zalloc_fresh [OF inv n] by (simp add: n_def)
  then have Ln: "L n = None" using pt_shape_owned [OF shape, of n] by (cases "L n") auto
  have al: "4096 dvd unat n" using owned_aligned [OF inv1, of n] own1 by simp
  show e: "bit e 0" "pt_lower e = n"
    using new_table_entry [OF al] new_table_lower [OF al] by (simp_all add: e_def)
  show inv': "inv m'" and av: "avail m' = avail m1"
    using set_pt_entry_owned [OF inv1 _ k, of t e] own own1 by (auto simp: m'_def)
  have own': "owned m' = owned m1"
    using set_pt_entry_owned(2) [OF inv1 _ k, of t e] own own1 by (auto simp: m'_def)
  have old: "pt_entry m' u j = (if u = t \<and> j = k then e else pt_entry m u j)"
    if "owned m u" "j < 512" for u j
    using pt_entry_set [OF inv1, of u t j k e] pt_entry_zalloc [OF inv that] that own own1 k
    by (simp add: m'_def m1_def)
  have zero: "pt_entry m' n j = 0" if "j < 512" for j
    using pt_entry_set [OF inv1, of n t j k e] pt_entry_new [OF inv n that] that own own1 k fresh
    by (auto simp: m'_def m1_def n_def)
  show "pt_entry m' t k = e" using old [OF own k] by simp
  show "pt_entry m' u j = pt_entry m u j" if "L u = Some q" "j < 512" "u \<noteq> t \<or> j \<noteq> k"
    using old [OF pt_shape_owned [OF shape that(1)] that(2)] that(3) by auto
  show "pt_leaf m' pt v = pt_leaf m pt v"
    using pt_leaf_link [OF shape t e(2) invalid _ zero] old pt_shape_owned [OF shape] by blast
  show "keeps L m (L(n \<mapsto> p @ [k])) m'"
    unfolding keeps_def
  proof (intro conjI allI impI)
    show "L \<subseteq>\<^sub>m L(n \<mapsto> p @ [k])" using Ln by (auto simp: map_le_def)
    show "owned m' q" if "owned m q" for q using that own' own1 by simp
    show "(L(n \<mapsto> p @ [k])) q = None" if "owned m q" "L q = None" for q
      using that fresh by auto
    show "m' x = m x" if "owned m q" "L q = None" "inside x q" for q x
    proof -
      have "m' x = m1 x"
        unfolding m'_def using that own own1 t(1)
        by (intro set_pt_entry_outside [OF inv1 _ _ _ k, of t q]) auto
      then show ?thesis using zalloc_frame [OF inv that(1,3)] by (simp add: m1_def)
    qed
  qed
  show "pt_shape (L(n \<mapsto> p @ [k])) (owned m') m' pt"
    unfolding pt_shape_def
  proof (intro conjI allI impI)
    show "(L(n \<mapsto> p @ [k])) pt = Some []"
      using pt_shape_root [OF shape] Ln by auto
    show "owned m' u" if "(L(n \<mapsto> p @ [k])) u = Some q" for u q
      using that pt_shape_owned [OF shape] own' own1 by (auto split: if_splits)
    fix u q j
    assume u: "(L(n \<mapsto> p @ [k])) u = Some q" "length q < 2" "j < 512" "bit (pt_entry m' u j) 0"
    have un: "u \<noteq> n" using u(3,4) zero by auto
    then have Lu: "L u = Some q" using u(1) by simp
    have "pt_entry m' u j AND 14 = 0 \<and> (L(n \<mapsto> p @ [k])) (pt_lower (pt_entry m' u j)) = Some (q @ [j])"
    proof (cases "u = t \<and> j = k")
      case True
      then show ?thesis
        using old [OF own k] e(2) Lu t(1) new_table_entry(2) [OF al] by (auto simp: e_def)
    next
      case False
      then have eq: "pt_entry m' u j = pt_entry m u j"
        using old [OF pt_shape_owned [OF shape Lu] u(3)] by auto
      with u(4) have "pt_entry m u j AND 14 = 0 \<and> L (pt_lower (pt_entry m u j)) = Some (q @ [j])"
        using pt_shape_branch [OF shape Lu u(2,3)] by simp
      then show ?thesis using eq Ln by auto
    qed
    then show "pt_entry m' u j AND 14 = 0"
      "(L(n \<mapsto> p @ [k])) (pt_lower (pt_entry m' u j)) = Some (q @ [j])" by blast+
  qed
qed

lemma descend:
  assumes inv: "inv m" and shape: "pt_shape L (owned m) m pt"
    and t: "L t = Some p" "length p < 2" and k: "k < 512" and av: "bit (pt_entry m t k) 0 \<or> 0 < avail m"
    and res: "mmu_descend zalloc m t k = (m', u)"
  obtains L' where "inv m'" "pt_shape L' (owned m') m' pt" "keeps L m L' m'"
    "\<And>v. pt_leaf m' pt v = pt_leaf m pt v" "L' u = Some (p @ [k])"
    "bit (pt_entry m' t k) 0" "pt_lower (pt_entry m' t k) = u"
    "avail m \<le> avail m' + (if bit (pt_entry m t k) 0 then 0 else 1)"
    "\<And>w q j. L w = Some q \<Longrightarrow> j < 512 \<Longrightarrow> w \<noteq> t \<or> j \<noteq> k \<Longrightarrow>
      pt_entry m' w j = pt_entry m w j"
proof (cases "bit (pt_entry m t k) 0")
  case True
  then have "m' = m" "u = pt_lower (pt_entry m t k)"
    using res by (auto simp: mmu_descend_def Let_def and_one_zero_iff)
  then show ?thesis
    using that [of L] inv shape keeps_refl True pt_shape_branch(2) [OF shape t k True] by simp
next
  case False
  let ?n = "snd (zalloc m)" and ?m1 = "fst (zalloc m)"
  let ?e = "drop_bit 2 ?n OR 1"
  have m': "m' = set_pt_entry ?m1 t k ?e" "u = pt_lower ?e"
    using res False by (auto simp: mmu_descend_def Let_def and_one_zero_iff split: prod.splits)
  have n: "?n \<noteq> NULL" "avail ?m1 = avail m - 1" using zalloc_avail [OF inv] av False by auto
  note new = descend_new [OF inv shape t k False n(1)]
  show ?thesis
    by (rule that [of "L(?n \<mapsto> p @ [k])"]) (use new n(2) m' False in simp_all)
qed

lemma pt_leaf_set:
  assumes inv: "inv m" and shape: "pt_shape L (owned m) m pt"
    and e2: "bit (pt_entry m pt (vpn v 2)) 0" "pt_lower (pt_entry m pt (vpn v 2)) = t1"
    and e1: "bit (pt_entry m t1 (vpn v 1)) 0" "pt_lower (pt_entry m t1 (vpn v 1)) = t0"
  shows "pt_leaf (set_pt_entry m t0 (vpn v 0) e) pt w =
    (if same_page w v then e else pt_leaf m pt w)"
proof -
  let ?m = "set_pt_entry m t0 (vpn v 0) e"
  note L2 = pt_shape_root [OF shape]
  have L1: "L t1 = Some [vpn v 2]" using pt_shape_branch(2) [OF shape L2 _ _ e2(1)] e2(2) by simp
  have L0: "L t0 = Some [vpn v 2, vpn v 1]"
    using pt_shape_branch(2) [OF shape L1 _ _ e1(1)] e1(2) by simp
  have upd: "pt_entry ?m u j = (if u = t0 \<and> j = vpn v 0 then e else pt_entry m u j)"
    if "L u = Some q" "j < 512" for u q j
    using pt_entry_set [OF inv] pt_shape_owned [OF shape] that L0 by simp
  have keep: "pt_entry ?m u j = pt_entry m u j" if "L u = Some q" "length q < 2" "j < 512" for u q j
    using upd [OF that(1,3)] that L0 by auto
  have k2: "pt_entry ?m pt (vpn w 2) = pt_entry m pt (vpn w 2)" using keep [OF L2] by simp
  show ?thesis
  proof (cases "bit (pt_entry m pt (vpn w 2)) 0")
    case False
    then show ?thesis using k2 e2 by (auto simp: pt_leaf_def same_page_def Let_def)
  next
    case b2: True
    let ?u = "pt_lower (pt_entry m pt (vpn w 2))"
    have Lu: "L ?u = Some [vpn w 2]" using pt_shape_branch(2) [OF shape L2 _ _ b2] by simp
    have k1: "pt_entry ?m ?u (vpn w 1) = pt_entry m ?u (vpn w 1)" using keep [OF Lu] by simp
    show ?thesis
    proof (cases "bit (pt_entry m ?u (vpn w 1)) 0")
      case False
      then show ?thesis using k2 k1 e2 e1 by (auto simp: pt_leaf_def same_page_def Let_def)
    next
      case b1: True
      let ?z = "pt_lower (pt_entry m ?u (vpn w 1))"
      have Lz: "L ?z = Some [vpn w 2, vpn w 1]"
        using pt_shape_branch(2) [OF shape Lu _ _ b1] by simp
      have "?z = t0 \<longleftrightarrow> vpn w 2 = vpn v 2 \<and> vpn w 1 = vpn v 1"
        using Lz L0 e2(2) e1(2) by (metis list.inject option.inject)
      moreover have "pt_leaf m pt w = pt_entry m ?z (vpn w 0)"
        using b2 b1 by (simp only: pt_leaf_def Let_def not_True_eq_False if_False)
      moreover have "pt_leaf ?m pt w = pt_entry ?m ?z (vpn w 0)"
        using b2 b1 by (simp only: pt_leaf_def Let_def k2 k1 not_True_eq_False if_False)
      moreover have "pt_entry ?m ?z (vpn w 0) =
          (if ?z = t0 \<and> vpn w 0 = vpn v 0 then e else pt_entry m ?z (vpn w 0))"
        by (rule upd [OF Lz vpn_lt])
      ultimately show ?thesis by (simp only: same_page_def conj_assoc)
    qed
  qed
qed

lemma pt_shape_set:
  assumes inv: "inv m" and shape: "pt_shape L (owned m) m pt"
    and t: "L t = Some p" "2 \<le> length p" and k: "k < 512"
  shows "pt_shape L (owned (set_pt_entry m t k e)) (set_pt_entry m t k e) pt"
proof -
  have own: "owned m t" using pt_shape_owned [OF shape t(1)] .
  have "pt_entry (set_pt_entry m t k e) u j = pt_entry m u j"
    if "L u = Some q" "length q < 2" "j < 512" for u q j
    using pt_entry_set [OF inv pt_shape_owned [OF shape that(1)] own that(3) k] that t by auto
  then show ?thesis
    using shape unfolding pt_shape_def set_pt_entry_owned(2) [OF inv own k] by auto
qed

lemma mmu_set_with_correct:
  assumes inv: "inv m" and shape: "pt_shape L (owned m) m pt" and av: "pt_missing m pt v \<le> avail m"
    and res: "mmu_set_with zalloc m pt v paddr bits = (m', r)"
  obtains L' where "r = 0" "inv m'" "pt_shape L' (owned m') m' pt" "keeps L m L' m'"
    "avail m \<le> avail m' + pt_missing m pt v"
    "\<And>w. pt_leaf m' pt w = (if same_page w v then make_entry paddr bits else pt_leaf m pt w)"
    "\<And>w. pt_missing m' pt w \<le> pt_missing m pt w"
    "\<And>w. vpn w 2 = vpn v 2 \<Longrightarrow> pt_missing m' pt w \<le> 1"
    "\<And>w. vpn w 2 = vpn v 2 \<Longrightarrow> vpn w 1 = vpn v 1 \<Longrightarrow> pt_missing m' pt w = 0"
proof -
  obtain m1 t1 where d1: "mmu_descend zalloc m pt (vpn v 2) = (m1, t1)" by fastforce
  obtain m2 t0 where d2: "mmu_descend zalloc m1 t1 (vpn v 1) = (m2, t0)" by fastforce
  have m': "m' = set_pt_entry m2 t0 (vpn v 0) (make_entry paddr bits)" "r = 0"
    using res d2 by (auto simp: mmu_set_with_def d1)
  note root = pt_shape_root [OF shape]
  have "bit (pt_entry m pt (vpn v 2)) 0 \<or> 0 < avail m" using av by (auto simp: pt_missing_def Let_def split: if_splits)
  then obtain L1 where L1: "inv m1" "pt_shape L1 (owned m1) m1 pt" "keeps L m L1 m1"
    "\<And>v. pt_leaf m1 pt v = pt_leaf m pt v" "L1 t1 = Some [vpn v 2]"
    "bit (pt_entry m1 pt (vpn v 2)) 0" "pt_lower (pt_entry m1 pt (vpn v 2)) = t1"
    "avail m \<le> avail m1 + (if bit (pt_entry m pt (vpn v 2)) 0 then 0 else 1)"
    "\<And>w q j. L w = Some q \<Longrightarrow> j < 512 \<Longrightarrow> w \<noteq> pt \<or> j \<noteq> vpn v 2 \<Longrightarrow> pt_entry m1 w j = pt_entry m w j"
    using descend [OF inv shape root _ vpn_lt _ d1] by auto
  have m1: "m1 = m" if "bit (pt_entry m pt (vpn v 2)) 0"
    using d1 that by (auto simp: mmu_descend_def Let_def and_one_zero_iff)
  have av1: "(if bit (pt_entry m1 t1 (vpn v 1)) 0 then 0 else 1) \<le> avail m1"
    "avail m \<le> avail m1 + pt_missing m pt v - (if bit (pt_entry m1 t1 (vpn v 1)) 0 then 0 else 1)"
    using L1(7,8) m1 av by (cases "bit (pt_entry m pt (vpn v 2)) 0"; auto simp: pt_missing_def Let_def split: if_splits)+
  have "bit (pt_entry m1 t1 (vpn v 1)) 0 \<or> 0 < avail m1" using av1(1) by (auto split: if_splits)
  then obtain L2 where L2: "inv m2" "pt_shape L2 (owned m2) m2 pt" "keeps L1 m1 L2 m2"
    "\<And>v. pt_leaf m2 pt v = pt_leaf m1 pt v" "L2 t0 = Some [vpn v 2, vpn v 1]"
    "bit (pt_entry m2 t1 (vpn v 1)) 0" "pt_lower (pt_entry m2 t1 (vpn v 1)) = t0"
    "avail m1 \<le> avail m2 + (if bit (pt_entry m1 t1 (vpn v 1)) 0 then 0 else 1)"
    "\<And>w q j. L1 w = Some q \<Longrightarrow> j < 512 \<Longrightarrow> w \<noteq> t1 \<or> j \<noteq> vpn v 1 \<Longrightarrow> pt_entry m2 w j = pt_entry m1 w j"
    using descend [OF L1(1,2) L1(5) _ vpn_lt _ d2] by auto
  note root1 = pt_shape_root [OF L1(2)]
  have "pt \<noteq> t1" using root1 L1(5) by auto
  then have e2: "pt_entry m2 pt (vpn v 2) = pt_entry m1 pt (vpn v 2)" using L2(9) [OF root1] by simp
  have own: "owned m2 t0" using pt_shape_owned [OF L2(2,5)] .
  have up: "pt_entry m' u j = pt_entry m2 u j" if "L2 u = Some q" "length q < 2" "j < 512" for u q j
    using pt_entry_set [OF L2(1) pt_shape_owned [OF L2(2) that(1)] own that(3) vpn_lt] that L2(5) by (auto simp: m')
  have le: "L \<subseteq>\<^sub>m L1" "L1 \<subseteq>\<^sub>m L2" using L1(3) L2(3) by (auto simp: keeps_def)
  have L2t: "L2 pt = Some []" "L2 t1 = Some [vpn v 2]" using le(2) root1 L1(5) by (auto simp: map_le_def dom_def)
  have path: "pt_entry m' pt (vpn v 2) = pt_entry m1 pt (vpn v 2)" "pt_entry m' t1 (vpn v 1) = pt_entry m2 t1 (vpn v 1)"
    using up [OF L2t(1)] up [OF L2t(2)] e2 by simp_all
  show ?thesis
  proof (rule that [of L2])
    show "inv m'" "avail m \<le> avail m' + pt_missing m pt v"
      using set_pt_entry_owned [OF L2(1) own vpn_lt] av1(2) L2(8) pt_missing_le [of m pt v] by (auto simp: m' split: if_splits)
    show "pt_shape L2 (owned m') m' pt" unfolding m' using pt_shape_set [OF L2(1,2,5)] by simp
    show "keeps L m L2 m'"
      unfolding m' using keeps_trans [OF keeps_trans [OF L1(3) L2(3)] keeps_set [OF L2(1,2,5) vpn_lt]] .
    show "pt_leaf m' pt w = (if same_page w v then make_entry paddr bits else pt_leaf m pt w)" for w
      using pt_leaf_set [OF L2(1,2) _ _ L2(6,7), of "make_entry paddr bits" w] e2 L1(4,6,7) L2(4)
      by (simp add: m')
    show "pt_missing m' pt w \<le> 1" "vpn w 1 = vpn v 1 \<Longrightarrow> pt_missing m' pt w = 0" if "vpn w 2 = vpn v 2" for w
      using that path L1(6,7) L2(6) by (auto simp: pt_missing_def Let_def)
    show "pt_missing m' pt w \<le> pt_missing m pt w" for w
    proof (rule pt_missing_mono [OF shape])
      fix u q j
      assume u: "L u = Some q" "length q < 2" "j < 512" "bit (pt_entry m u j) 0"
      have l1: "L1 u = Some q" "L2 u = Some q" using le u(1) by (auto simp: map_le_def dom_def)
      have e1: "pt_entry m1 u j = pt_entry m u j" using L1(9) [OF u(1,3)] m1 u(4) by blast
      have "pt_entry m2 u j = pt_entry m1 u j"
      proof (cases "u = t1 \<and> j = vpn v 1")
        case True
        then show ?thesis using d2 u(4) e1 by (auto simp: mmu_descend_def Let_def and_one_zero_iff)
      qed (use L2(9) [OF l1(1) u(3)] in blast)
      then show "pt_entry m' u j = pt_entry m u j" using up [OF l1(2) u(2,3)] e1 by simp
    qed
  qed (use m' in auto)
qed

end

section \<open>Translation\<close>

lemma mmu_translate_leaf:
  assumes shape: "pt_shape L ow m pt"
  shows "mmu_translate m pt v =
    (let e = pt_leaf m pt v in
     if e AND 1 = 0 \<or> e AND 14 = 0 then - 1 else leaf_paddr e v 0)"
proof -
  let ?e2 = "pt_entry m pt (vpn v 2)"
  note L2 = pt_shape_root [OF shape]
  have walk: "mmu_walk m t v i =
     (let e = pt_entry m t (vpn v i) in
      if \<not> bit e 0 then - 1 else if e AND 14 \<noteq> 0 then leaf_paddr e v i
      else (case i of 0 \<Rightarrow> - 1 | Suc j \<Rightarrow> mmu_walk m (pt_lower e) v j))" for t i
    by (subst mmu_walk.simps) (simp add: Let_def and_one_zero_iff)
  show ?thesis
  proof (cases "bit ?e2 0")
    case False
    then show ?thesis
      by (simp add: mmu_translate_def walk [of pt 2] pt_leaf_def Let_def and_one_zero_iff)
  next
    case b2: True
    let ?t = "pt_lower ?e2"
    have L1: "L ?t = Some [vpn v 2]" and e2: "?e2 AND 14 = 0"
      using pt_shape_branch [OF shape L2 _ _ b2] by auto
    have w2: "mmu_translate m pt v = mmu_walk m ?t v 1"
      using b2 e2 by (simp add: mmu_translate_def walk [of pt "Suc (Suc 0)"] Let_def numeral_2_eq_2)
    let ?e1 = "pt_entry m ?t (vpn v 1)"
    show ?thesis
    proof (cases "bit ?e1 0")
      case False
      then show ?thesis
        unfolding w2 using b2 by (simp add: walk [of ?t "Suc 0"] pt_leaf_def Let_def and_one_zero_iff)
    next
      case b1: True
      have e1: "?e1 AND 14 = 0" using pt_shape_branch [OF shape L1 _ _ b1] by auto
      have "mmu_translate m pt v = mmu_walk m (pt_lower ?e1) v 0"
        unfolding w2 using b1 e1 by (simp add: walk [of ?t "Suc 0"] Let_def)
      then show ?thesis
        using b2 b1 by (simp add: walk [where i = 0] pt_leaf_def Let_def and_one_zero_iff)
    qed
  qed
qed

lemma make_entry_bit_low:
  assumes "n < 10"
  shows "bit (make_entry paddr bits) n \<longleftrightarrow> bit bits n"
  using assms unfolding make_entry_def Let_def bit_or_iff bit_push_bit_iff by simp

lemma make_entry_flags:
  "make_entry paddr (bits OR 1) AND 1 \<noteq> 0"
  "make_entry paddr (bits OR 1) AND 14 = 0 \<longleftrightarrow> bits AND 14 = 0"
  "make_entry 0 0 = 0"
  by (simp_all add: and_one_zero_iff and_fourteen_zero_iff make_entry_bit_low bit_or_iff bit_1_iff)
    (simp add: make_entry_def Let_def)

lemma make_entry_bit_high:
  assumes "unat bits < 2 ^ 10" and "10 \<le> n" and "n < 64"
  shows "bit (make_entry paddr bits) n \<longleftrightarrow> n < 54 \<and> bit paddr (n + 2)"
proof -
  have nb: "\<not> bit bits n" using small_bits [OF assms(1,2)] .
  have "bit (make_entry paddr bits) n \<longleftrightarrow>
      28 \<le> n \<and> bit paddr (30 + (n - 28)) \<and> n - 28 < 26 \<or>
      19 \<le> n \<and> bit paddr (21 + (n - 19)) \<and> n - 19 < 9 \<or>
      10 \<le> n \<and> bit paddr (12 + (n - 10)) \<and> n - 10 < 9"
    using nb assms(3) unfolding make_entry_def Let_def mask_consts bit_or_iff bit_push_bit_iff
      bit_and_iff bit_mask_iff bit_drop_bit_eq by auto
  moreover have "28 \<le> n \<Longrightarrow> 30 + (n - 28) = n + 2" "19 \<le> n \<Longrightarrow> 21 + (n - 19) = n + 2"
    "12 + (n - 10) = n + 2" using assms(2) by linarith+
  ultimately show ?thesis using assms(2) by auto
qed

lemma leaf_paddr_0:
  "leaf_paddr e v 0 = push_bit 30 (drop_bit 28 e AND 0x3FFFFFF) OR
     push_bit 21 (drop_bit 19 e AND 0x1FF) OR push_bit 12 (drop_bit 10 e AND 0x1FF) OR (v AND 0xFFF)"
  unfolding leaf_paddr_def Let_def by (simp only: zero_neq_numeral zero_neq_one if_False)

lemma leaf_paddr_bit:
  assumes "n < 64"
  shows "bit (leaf_paddr e v 0) n \<longleftrightarrow> (if n < 12 then bit v n else n < 56 \<and> bit e (n - 2))"
proof -
  have bits: "bit (leaf_paddr e v 0) n \<longleftrightarrow>
      30 \<le> n \<and> bit e (28 + (n - 30)) \<and> n - 30 < 26 \<or>
      21 \<le> n \<and> bit e (19 + (n - 21)) \<and> n - 21 < 9 \<or>
      12 \<le> n \<and> bit e (10 + (n - 12)) \<and> n - 12 < 9 \<or> bit v n \<and> n < 12"
    using assms unfolding leaf_paddr_0 mask_consts bit_or_iff bit_push_bit_iff
      bit_and_iff bit_mask_iff bit_drop_bit_eq by auto
  consider "n < 12" | "12 \<le> n" "n < 21" | "21 \<le> n" "n < 30" | "30 \<le> n" by linarith
  then show ?thesis
  proof cases
    case 2
    then have "10 + (n - 12) = n - 2" "n - 12 < 9" by auto
    then show ?thesis using 2 unfolding bits by simp
  next
    case 3
    then have "19 + (n - 21) = n - 2" "n - 21 < 9" by auto
    then show ?thesis using 3 unfolding bits by auto
  next
    case 4
    then have "28 + (n - 30) = n - 2" "n - 30 < 26 \<longleftrightarrow> n < 56" by auto
    then show ?thesis using 4 unfolding bits by auto
  qed (simp add: bits)
qed

text \<open>Decoding a written entry gives back the physical page and the offset of the address.\<close>

lemma leaf_paddr_make_entry:
  assumes "unat bits < 2 ^ 10" and "4096 dvd unat paddr" and "unat paddr < 2 ^ 56"
  shows "leaf_paddr (make_entry paddr bits) v 0 = paddr OR (v AND 0xFFF)"
proof (rule bit_word_eqI)
  fix n
  assume "n < LENGTH(64)"
  then have n: "n < 64" by simp
  have r: "bit (paddr OR (v AND 0xFFF)) n \<longleftrightarrow> bit paddr n \<or> bit v n \<and> n < 12"
    using n unfolding mask_consts bit_or_iff bit_and_iff bit_mask_iff by auto
  show "bit (leaf_paddr (make_entry paddr bits) v 0) n = bit (paddr OR (v AND 0xFFF)) n"
  proof (cases "n < 12")
    case True
    then show ?thesis using aligned_bits [OF assms(2)] unfolding r leaf_paddr_bit [OF n] by simp
  next
    case False
    then have "n - 2 + 2 = n" "10 \<le> n - 2" "n - 2 < 64" "n - 2 < 54 \<longleftrightarrow> n < 56" using n by auto
    then show ?thesis
      using False small_bits [OF assms(3), of n] make_entry_bit_high [OF assms(1), of "n - 2" paddr]
      unfolding r leaf_paddr_bit [OF n] by (cases "n < 56") simp_all
  qed
qed

section \<open>Properties\<close>

text \<open>The kernel's page tables: tables taken from the page allocator, in the shape above.\<close>

definition pt_wf :: "heap_syms \<Rightarrow> mem \<Rightarrow> u64 \<Rightarrow> bool" where
  "pt_wf hs m pt \<longleftrightarrow> heap_ok hs \<and> page_wf hs m \<and> (\<exists>L. pt_shape L (page_owned hs m) m pt)"

text \<open>The same with the labelling shown, for clients that keep other pages than the tables.\<close>

definition pt_at :: "heap_syms \<Rightarrow> (u64 \<Rightarrow> nat list option) \<Rightarrow> mem \<Rightarrow> u64 \<Rightarrow> bool" where
  "pt_at hs L m pt \<longleftrightarrow> heap_ok hs \<and> page_wf hs m \<and> pt_shape L (page_owned hs m) m pt"

lemma pt_wf_at: "pt_wf hs m pt \<longleftrightarrow> (\<exists>L. pt_at hs L m pt)"
  by (simp add: pt_wf_def pt_at_def)

text \<open>What \<open>mmu_set\<close> does to the map from pages to entries.\<close>

lemma mmu_set_at:
  assumes "pt_at hs L m pt" and "pt_missing m pt v \<le> pages_avail hs m"
    and "mmu_set hs m pt v paddr bits = (m', r)"
  obtains L' where "r = 0" "pt_at hs L' m' pt" "pages.keeps hs L m L' m'"
    "pages_avail hs m \<le> pages_avail hs m' + pt_missing m pt v"
    "\<And>w. pt_leaf m' pt w = (if same_page w v then make_entry paddr bits else pt_leaf m pt w)"
    "\<And>w. pt_missing m' pt w \<le> pt_missing m pt w"
    "\<And>w. vpn w 2 = vpn v 2 \<Longrightarrow> pt_missing m' pt w \<le> 1"
    "\<And>w. vpn w 2 = vpn v 2 \<Longrightarrow> vpn w 1 = vpn v 1 \<Longrightarrow> pt_missing m' pt w = 0"
proof -
  have L: "heap_ok hs \<and> page_wf hs m" "pt_shape L (page_owned hs m) m pt" using assms(1) by (auto simp: pt_at_def)
  show ?thesis
    by (rule pages.mmu_set_with_correct [OF L assms(2) assms(3) [unfolded mmu_set_def]], rule that)
      (auto simp: pt_at_def)
qed

lemma mmu_set_leaf:
  assumes "pt_wf hs m pt" and "pt_missing m pt v \<le> pages_avail hs m"
    and "mmu_set hs m pt v paddr bits = (m', r)"
  shows "r = 0" "pt_wf hs m' pt"
    "pt_leaf m' pt w = (if same_page w v then make_entry paddr bits else pt_leaf m pt w)"
proof -
  obtain L where L: "pt_at hs L m pt" using assms(1) by (auto simp: pt_wf_at)
  show "r = 0" "pt_wf hs m' pt"
    "pt_leaf m' pt w = (if same_page w v then make_entry paddr bits else pt_leaf m pt w)"
    by (rule mmu_set_at [OF L assms(2,3)]; auto simp: pt_wf_at)+
qed

lemma translate_leaf:
  assumes "pt_wf hs m pt"
  shows "mmu_translate m pt v =
    (let e = pt_leaf m pt v in if e AND 1 = 0 \<or> e AND 14 = 0 then - 1 else leaf_paddr e v 0)"
  using assms mmu_translate_leaf unfolding pt_wf_def by blast

lemma flags_or_valid:
  assumes "unat (bits :: u64) < 2 ^ 10"
  shows "unat (bits OR 1) < 2 ^ 10"
proof -
  have "unat bits = take_bit 10 (unat bits)" using assms by (simp add: take_bit_nat_eq_self)
  then have "unat (bits OR 1) = take_bit 10 (unat bits OR 1)" by (simp add: unsigned_or_eq)
  then show ?thesis by (metis take_bit_nat_less_exp)
qed

text \<open>An address whose leaf is an entry written by \<open>mmu_map\<close>.\<close>

lemma translate_entry:
  assumes "pt_wf hs m pt" and "pt_leaf m pt w = make_entry paddr (bits OR 1)"
    and "bits AND 14 \<noteq> 0" and "unat bits < 2 ^ 10"
    and "4096 dvd unat paddr" and "unat paddr < 2 ^ 56"
  shows "mmu_translate m pt w = paddr OR (w AND 0xFFF)"
proof -
  have "leaf_paddr (make_entry paddr (bits OR 1)) w 0 = paddr OR (w AND 0xFFF)"
    using leaf_paddr_make_entry flags_or_valid [OF assms(4)] assms(5,6) by blast
  then show ?thesis
    unfolding translate_leaf [OF assms(1)] assms(2)
    using make_entry_flags(1,2) [of paddr bits] assms(3) by (simp add: Let_def)
qed

lemma mmu_map_translate:
  assumes "pt_wf hs m pt" and "pt_missing m pt v \<le> pages_avail hs m"
    and "bits AND 14 \<noteq> 0" and "unat bits < 2 ^ 10"
    and "4096 dvd unat paddr" and "unat paddr < 2 ^ 56"
    and "mmu_map hs m pt v paddr bits = (m', r)"
  shows "r = 0" "pt_wf hs m' pt"
    "mmu_translate m' pt w =
      (if same_page w v then paddr OR (w AND 0xFFF) else mmu_translate m pt w)"
proof -
  have set: "mmu_set hs m pt v paddr (bits OR 1) = (m', r)"
    using assms(3,7) by (simp add: mmu_map_def)
  note l = mmu_set_leaf [OF assms(1,2) set]
  show "r = 0" "pt_wf hs m' pt" using l(1,2) by auto
  show "mmu_translate m' pt w =
      (if same_page w v then paddr OR (w AND 0xFFF) else mmu_translate m pt w)"
    using translate_entry [OF l(2) _ assms(3-6), of w] l(3) [of w]
    by (simp add: translate_leaf [OF l(2)] translate_leaf [OF assms(1)])
qed

text \<open>
  C10: mapping a page makes every address of that page translate to the same offset in the
  physical page, leaves the translation of every other page as it was, keeps the page table
  well formed and returns 0.
\<close>

theorem mmu_map_correct:
  assumes "pt_wf hs m pt" and "pt_missing m pt v \<le> pages_avail hs m"
    and "bits AND 14 \<noteq> 0" and "unat bits < 2 ^ 10"
    and "4096 dvd unat paddr" and "unat paddr < 2 ^ 56"
    and "mmu_map hs m pt v paddr bits = (m', r)"
  shows "r = 0 \<and> pt_wf hs m' pt \<and>
    (\<forall>w. mmu_translate m' pt w =
      (if same_page w v then paddr OR (w AND 0xFFF) else mmu_translate m pt w))"
  using mmu_map_translate [OF assms] by blast

text \<open>
  Unmapping a page makes its addresses untranslatable (all ones) and leaves every other
  page's translation as it was.
\<close>

theorem mmu_unmap_correct:
  assumes "pt_wf hs m pt" and "pt_missing m pt v \<le> pages_avail hs m" and "mmu_unmap hs m pt v = (m', r)"
  shows "r = 0 \<and> pt_wf hs m' pt \<and>
    (\<forall>w. mmu_translate m' pt w = (if same_page w v then - 1 else mmu_translate m pt w))"
proof -
  note l = mmu_set_leaf [OF assms(1,2) assms(3) [unfolded mmu_unmap_def]]
  then show ?thesis
    unfolding translate_leaf [OF l(2)] translate_leaf [OF assms(1)] l(3)
    by (simp add: make_entry_flags(3) Let_def)
qed

subsection \<open>Mapping a range\<close>

lemma vpn_nat: "vpn v i = unat v div 2 ^ (12 + 9 * i) mod 512"
proof -
  have "vpn v i = unat (take_bit 9 (drop_bit (12 + 9 * i) v))"
    by (simp add: vpn_def take_bit_eq_mask mask_eq_exp_minus_1)
  also have "\<dots> = take_bit 9 (drop_bit (12 + 9 * i) (unat v))"
    by (simp add: unsigned_take_bit_eq unsigned_drop_bit_eq take_bit_nat_eq_self [OF unat_lt_64])
  finally show ?thesis by (simp add: take_bit_eq_mod drop_bit_eq_div)
qed

lemma digits_512:
  assumes "a < 512 * 512 * (512 :: nat)"
  shows "a = a mod 512 + 512 * (a div 512 mod 512) + 262144 * (a div 262144 mod 512)"
proof -
  have "a div 262144 < 512" using assms by simp
  then have "a div 262144 mod 512 = a div 512 div 512" by (simp add: div_mult2_eq [of a 512 512, simplified])
  moreover have "a div 512 = a div 512 mod 512 + 512 * (a div 512 div 512)" by simp
  moreover have "a = a mod 512 + 512 * (a div 512)" by simp
  ultimately show ?thesis by linarith
qed

lemma same_page_iff:
  assumes "unat v < 2 ^ 39" and "unat w < 2 ^ 39"
  shows "same_page v w \<longleftrightarrow> unat v div 4096 = unat w div 4096"
proof -
  have d: "vpn u 0 = u' mod 512" "vpn u 1 = u' div 512 mod 512" "vpn u 2 = u' div 262144 mod 512"
    if "u' = unat u div 4096" for u u'
    using div_mult2_eq [of "unat u" 4096 512] div_mult2_eq [of "unat u" 4096 262144]
    by (simp_all add: vpn_nat that)
  have b: "unat v div 4096 < 512 * 512 * 512" "unat w div 4096 < 512 * 512 * 512" using assms by auto
  show ?thesis
    using digits_512 [OF b(1)] digits_512 [OF b(2)]
    unfolding same_page_def d [of _ v, OF refl] d [of _ w, OF refl] by metis
qed

lemma aligned_or_offset:
  assumes "4096 dvd unat (paddr :: u64)"
  shows "paddr OR (w AND 0xFFF) = paddr + of_nat (unat w mod 4096)"
proof -
  have "w AND 0xFFF = take_bit 12 w" by (simp add: take_bit_eq_mask mask_eq_exp_minus_1)
  moreover have "unat (take_bit 12 w) = unat w mod 4096"
    by (simp add: take_bit_eq_mod unat_mod)
  ultimately have w: "w AND 0xFFF = of_nat (unat w mod 4096)"
    by (metis of_nat_unat ucast_id)
  have "paddr + (w AND 0xFFF) = paddr OR (w AND 0xFFF)"
    unfolding mask_consts
    by (rule disjunctive_add) (use aligned_bits [OF assms] in \<open>auto simp: bit_and_iff bit_mask_iff simp del: mask_numeral\<close>)
  then show ?thesis using w by simp
qed

lemma map_multiple_from_step:
  "map_multiple_from hs m pt sv sp bytes bits i =
     (if i < bytes then
        (case mmu_map hs m pt (sv + i) (sp + i) bits of (m1, r) \<Rightarrow>
           if r \<noteq> 0 then Some m1 else map_multiple_from hs m1 pt sv sp bytes bits (i + 4096))
      else Some m)"
  by (subst map_multiple_from.simps) (simp add: Let_def split: prod.splits)

text \<open>The addresses of a range as pages; the tables that mapping them may need.\<close>

definition in_pages :: "u64 \<Rightarrow> nat \<Rightarrow> u64 \<Rightarrow> bool" where
  "in_pages start n w \<longleftrightarrow> unat start div 4096 \<le> unat w div 4096 \<and> unat w div 4096 < unat start div 4096 + n"

definition tables_needed :: "u64 \<Rightarrow> nat \<Rightarrow> nat" where
  "tables_needed start n =
     (let p = unat start div 4096; q = p + n - 1
      in if n = 0 then 0 else 2 + (q div 512 - p div 512) + (q div 262144 - p div 262144))"

lemma in_pages_offset:
  assumes "4096 dvd unat start" and "in_pages start n w"
  shows "unat (w - start) < 4096 * n"
proof -
  obtain a where a: "unat start = 4096 * a" using assms(1) by (elim dvdE)
  have w: "a \<le> unat w div 4096" "unat w div 4096 < a + n" using assms(2) a by (auto simp: in_pages_def)
  have "unat w < 4096 * a + 4096 * n" using w(2) by (simp add: div_less_iff_less_mult)
  moreover have "4096 * a \<le> unat w" using w(1) by (simp add: less_eq_div_iff_mult_less_eq mult.commute)
  ultimately show ?thesis using a by (simp add: unat_sub word_le_nat_alt)
qed

lemma vpn_page: "vpn v 1 = unat v div 4096 div 512 mod 512" "vpn v 2 = unat v div 4096 div 262144 mod 512"
  using div_mult2_eq [of "unat v" 4096 512] div_mult2_eq [of "unat v" 4096 262144] by (simp_all add: vpn_nat)

lemma div_Suc_block: "0 < k \<Longrightarrow> Suc p div k = p div k + (if k dvd Suc p then 1 else 0)"
  by (simp add: div_Suc mod_eq_0_iff_dvd)

lemma add_diffs_le:
  "x + a + b \<le> a' + b' \<Longrightarrow> a' \<le> (c :: nat) \<Longrightarrow> b' \<le> d \<Longrightarrow> x + ((c - a') + (d - b')) \<le> (c - a) + (d - b)"
  by linarith

text \<open>Page after page, a table is missing only where a new one begins.\<close>

lemma next_page_missing:
  assumes "unat w div 4096 = Suc (unat v div 4096)"
    and "\<And>w. vpn w 2 = vpn v 2 \<Longrightarrow> pt_missing m pt w \<le> 1"
    and "\<And>w. vpn w 2 = vpn v 2 \<Longrightarrow> vpn w 1 = vpn v 1 \<Longrightarrow> pt_missing m pt w = 0"
  shows "pt_missing m pt w + unat v div 4096 div 512 + unat v div 4096 div 262144 \<le>
    unat w div 4096 div 512 + unat w div 4096 div 262144"
proof -
  let ?p = "unat v div 4096"
  note d = div_Suc_block [of 512 ?p] div_Suc_block [of 262144 ?p]
  consider "\<not> 512 dvd Suc ?p" | "512 dvd Suc ?p" "\<not> 262144 dvd Suc ?p" | "262144 dvd Suc ?p" by blast
  then show ?thesis
  proof cases
    case 1
    moreover from this have "\<not> 262144 dvd Suc ?p" using dvd_trans [of 512 262144 "Suc ?p"] by auto
    ultimately show ?thesis using assms(3) [of w] d unfolding vpn_page assms(1) by simp
  next
    case 2
    then show ?thesis using assms(2) [of w] d unfolding vpn_page assms(1) by simp
  next
    case 3
    moreover from this have "512 dvd Suc ?p" using dvd_trans [of 512 262144 "Suc ?p"] by auto
    ultimately show ?thesis using pt_missing_le [of m pt w] d unfolding assms(1) by simp
  qed
qed

lemma map_multiple_from_correct:
  fixes hs bytes bits sv sp
  defines "N \<equiv> (unat bytes + 4095) div 4096" and "P \<equiv> unat sv div 4096"
  defines "Q \<equiv> P + N - 1"
  defines "rest \<equiv> \<lambda>j. (Q div 512 - (P + j) div 512) + (Q div 262144 - (P + j) div 262144)"
  assumes sv: "4096 dvd unat sv" "unat sv + unat bytes \<le> 2 ^ 39"
    and bits: "bits AND 14 \<noteq> 0"
  shows "j \<le> N \<Longrightarrow> pt_at hs L m pt \<Longrightarrow>
    (j < N \<Longrightarrow> pt_missing m pt (sv + of_nat (4096 * j)) + rest j \<le> pages_avail hs m) \<Longrightarrow>
    \<exists>m' L'. map_multiple_from hs m pt sv sp bytes bits (of_nat (4096 * j)) = Some m' \<and> pt_at hs L' m' pt \<and>
      pages.keeps hs L m L' m' \<and>
      (j < N \<longrightarrow> pages_avail hs m \<le> pages_avail hs m' + pt_missing m pt (sv + of_nat (4096 * j)) + rest j) \<and>
      (j = N \<longrightarrow> m' = m) \<and>
      (\<forall>w. unat w < 2 ^ 39 \<longrightarrow> pt_leaf m' pt w =
        (if P + j \<le> unat w div 4096 \<and> unat w div 4096 < P + N
         then make_entry (sp + of_nat (4096 * (unat w div 4096 - P))) (bits OR 1) else pt_leaf m pt w))"
proof (induction "N - j" arbitrary: j L m)
  case 0
  then have j: "j = N" by simp
  have "unat bytes \<le> 4096 * N" unfolding N_def by linarith
  moreover have "4096 * N \<le> unat bytes + 4095" unfolding N_def by simp
  then have "4096 * N < 2 ^ 64" using sv(2) by simp
  ultimately have "\<not> (of_nat (4096 * j) :: u64) < bytes"
    by (simp add: j word_less_nat_alt unat_of_nat_64 del: of_nat_mult)
  then have "map_multiple_from hs m pt sv sp bytes bits (of_nat (4096 * j)) = Some m"
    by (subst map_multiple_from_step) simp
  then show ?case using 0(3) j pages.keeps_refl by auto
next
  case (Suc d)
  let ?i = "of_nat (4096 * j) :: u64" and ?i' = "of_nat (4096 * Suc j) :: u64"
  have jN: "j < N" "d = N - Suc j" using Suc.hyps(2) by auto
  have lt: "4096 * j < unat bytes" using jN(1) unfolding N_def by linarith
  then have i: "unat ?i = 4096 * j" using sv(2) by (intro unat_of_nat_64) simp
  have ilt: "?i < bytes" using lt i by (simp add: word_less_nat_alt)
  have page: "unat (sv + of_nat (4096 * k)) div 4096 = P + k" if "k \<le> N" for k
  proof -
    have "4096 * N \<le> unat bytes + 4095" unfolding N_def by simp
    then have "unat (sv + of_nat (4096 * k)) = unat sv + 4096 * k"
      using that sv(2) by (intro unat_add_of_nat) simp
    then show ?thesis using sv(1) by (auto simp: P_def elim!: dvdE)
  qed
  obtain m1 r where map: "mmu_map hs m pt (sv + ?i) (sp + ?i) bits = (m1, r)" by fastforce
  then have set: "mmu_set hs m pt (sv + ?i) (sp + ?i) (bits OR 1) = (m1, r)" using bits by (simp add: mmu_map_def)
  note need = Suc.prems(3) [OF jN(1)]
  obtain L1 where c: "r = 0" "pt_at hs L1 m1 pt" "pages.keeps hs L m L1 m1"
    "pages_avail hs m \<le> pages_avail hs m1 + pt_missing m pt (sv + ?i)"
    "\<And>w. pt_leaf m1 pt w = (if same_page w (sv + ?i) then make_entry (sp + ?i) (bits OR 1) else pt_leaf m pt w)"
    "\<And>w. vpn w 2 = vpn (sv + ?i) 2 \<Longrightarrow> pt_missing m1 pt w \<le> 1"
    "\<And>w. vpn w 2 = vpn (sv + ?i) 2 \<Longrightarrow> vpn w 1 = vpn (sv + ?i) 1 \<Longrightarrow> pt_missing m1 pt w = 0"
    by (rule mmu_set_at [OF Suc.prems(2) add_leD1 [OF need] set], rule that) auto
  have step: "pt_missing m1 pt (sv + ?i') + rest (Suc j) \<le> rest j" if "Suc j < N"
  proof -
    have "unat (sv + ?i') div 4096 = Suc (unat (sv + ?i) div 4096)" using page [of j] page [of "Suc j"] jN by simp
    note next_page_missing [OF this c(6,7)]
    then have "pt_missing m1 pt (sv + ?i') + (P + j) div 512 + (P + j) div 262144 \<le>
        (P + Suc j) div 512 + (P + Suc j) div 262144" unfolding page [OF Suc_leI [OF jN(1)]] page [OF less_imp_le [OF jN(1)]] .
    moreover have "(P + Suc j) div 512 \<le> Q div 512" "(P + Suc j) div 262144 \<le> Q div 262144"
      using that by (auto simp: Q_def intro!: div_le_mono)
    ultimately show ?thesis unfolding rest_def by (rule add_diffs_le)
  qed
  have need1: "pt_missing m1 pt (sv + ?i') + rest (Suc j) \<le> pages_avail hs m1" if "Suc j < N"
    using step [OF that] need c(4) by linarith
  from Suc.hyps(1) [OF jN(2) _ c(2) need1] jN(1) obtain m' L' where
    m': "map_multiple_from hs m1 pt sv sp bytes bits ?i' = Some m'" "pt_at hs L' m' pt" "pages.keeps hs L1 m1 L' m'"
    "Suc j < N \<Longrightarrow> pages_avail hs m1 \<le> pages_avail hs m' + pt_missing m1 pt (sv + ?i') + rest (Suc j)"
    "Suc j = N \<Longrightarrow> m' = m1"
    "\<And>w. unat w < 2 ^ 39 \<Longrightarrow> pt_leaf m' pt w =
        (if P + Suc j \<le> unat w div 4096 \<and> unat w div 4096 < P + N
         then make_entry (sp + of_nat (4096 * (unat w div 4096 - P))) (bits OR 1) else pt_leaf m1 pt w)"
    by (metis Suc_leI)
  have run: "map_multiple_from hs m pt sv sp bytes bits ?i = Some m'"
    using m'(1) map c(1) ilt by (subst map_multiple_from_step) (simp add: add.commute)
  have av: "pages_avail hs m \<le> pages_avail hs m' + pt_missing m pt (sv + ?i) + rest j"
    using m'(4,5) c(4) step jN(1) by (cases "Suc j = N") auto
  have leaf: "pt_leaf m1 pt w =
      (if unat w div 4096 = P + j then make_entry (sp + of_nat (4096 * (unat w div 4096 - P))) (bits OR 1) else pt_leaf m pt w)"
    if w: "unat w < 2 ^ 39" for w
  proof -
    have "unat (sv + ?i) < 2 ^ 39"
      using lt sv(2) unat_add_of_nat [of sv "4096 * j"] by simp
    from same_page_iff [OF w this] page [of j] jN(1) show ?thesis unfolding c(5) by simp
  qed
  show ?case
    using run m'(2) pages.keeps_trans [OF c(3) m'(3)] av m'(6) leaf jN(1)
    by (intro exI [of _ m'] exI [of _ L']) auto
qed

text \<open>The distance from the start is kept by the translation of a mapped range.\<close>

lemma translate_range:
  assumes "pt_wf hs m pt" and "in_pages sv ((unat bytes + 4095) div 4096) w"
    and "pt_leaf m pt w = make_entry (sp + of_nat (4096 * (unat w div 4096 - unat sv div 4096))) (bits OR 1)"
    and "bits AND 14 \<noteq> 0" and "unat bits < 2 ^ 10"
    and "4096 dvd unat sv" and "unat sv + unat (bytes :: u64) \<le> 2 ^ 39"
    and "4096 dvd unat sp" and "unat sp + unat bytes \<le> 2 ^ 56"
  shows "mmu_translate m pt w = sp + (w - sv)"
proof -
  define j where "j = unat w div 4096 - unat sv div 4096"
  obtain a where a: "unat sv = 4096 * a" using assms(6) by (elim dvdE)
  have j: "unat w div 4096 = a + j" "4096 * j < unat bytes" using assms(2) a by (auto simp: in_pages_def j_def)
  have up: "unat (sp + of_nat (4096 * j)) = unat sp + 4096 * j" using j(2) assms(9) by (intro unat_add_of_nat) simp
  have al: "4096 dvd unat (sp + of_nat (4096 * j))" "unat (sp + of_nat (4096 * j)) < 2 ^ 56"
    using up assms(8,9) j(2) by auto
  have "unat w = 4096 * a + 4096 * j + unat w mod 4096" using j(1) by (metis add_mult_distrib2 mult_div_mod_eq)
  then have "w = of_nat (4096 * a) + of_nat (4096 * j) + of_nat (unat w mod 4096)"
    by (metis of_nat_add of_nat_unat ucast_id)
  moreover have "sv = of_nat (4096 * a)" using a by (metis of_nat_unat ucast_id)
  ultimately have "sp + of_nat (4096 * j) + of_nat (unat w mod 4096) = sp + (w - sv)" by (simp add: algebra_simps)
  then show ?thesis
    using translate_entry [OF assms(1) _ assms(4,5) al, of w] assms(3) aligned_or_offset [OF al(1)] by (simp add: j_def)
qed

lemma mmu_map_multiple_leaf:
  assumes "pt_at hs L m pt" and "n = (unat bytes + 4095) div 4096" and "tables_needed start_vaddr n \<le> pages_avail hs m"
    and "4096 dvd unat start_vaddr" and "unat start_vaddr + unat bytes \<le> 2 ^ 39"
    and "bits AND 14 \<noteq> 0"
  obtains m' L' where "mmu_map_multiple hs m pt start_vaddr start_paddr bytes bits = Some m'" "pt_at hs L' m' pt"
    "pages.keeps hs L m L' m'" "pages_avail hs m \<le> pages_avail hs m' + tables_needed start_vaddr n"
    "\<And>w. unat w < 2 ^ 39 \<Longrightarrow> pt_leaf m' pt w =
      (if in_pages start_vaddr n w
       then make_entry (start_paddr + of_nat (4096 * (unat w div 4096 - unat start_vaddr div 4096))) (bits OR 1)
       else pt_leaf m pt w)"
proof -
  let ?c = "(unat start_vaddr div 4096 + n - 1) div 512 - unat start_vaddr div 4096 div 512 +
    ((unat start_vaddr div 4096 + n - 1) div 262144 - unat start_vaddr div 4096 div 262144)"
  have need: "pt_missing m pt start_vaddr + ?c \<le> tables_needed start_vaddr n" if "0 < n"
    using pt_missing_le [of m pt start_vaddr] that by (simp add: tables_needed_def Let_def)
  let ?p = "unat start_vaddr div 4096"
  have fits: "pt_missing m pt (start_vaddr + of_nat (4096 * 0)) +
      ((?p + n - 1) div 512 - (?p + 0) div 512 + ((?p + n - 1) div 262144 - (?p + 0) div 262144)) \<le> pages_avail hs m"
    if "0 < n" using need [OF that] assms(3) by simp
  obtain m' L' where m': "map_multiple_from hs m pt start_vaddr start_paddr bytes bits 0 = Some m'" "pt_at hs L' m' pt"
    "pages.keeps hs L m L' m'" "0 < n \<Longrightarrow> pages_avail hs m \<le> pages_avail hs m' + (pt_missing m pt start_vaddr + ?c)"
    "n = 0 \<Longrightarrow> m' = m"
    "\<And>w. unat w < 2 ^ 39 \<Longrightarrow> pt_leaf m' pt w =
      (if in_pages start_vaddr n w
       then make_entry (start_paddr + of_nat (4096 * (unat w div 4096 - unat start_vaddr div 4096))) (bits OR 1)
       else pt_leaf m pt w)"
    using map_multiple_from_correct [OF assms(4-6) le0 assms(1), folded assms(2), OF fits, of start_paddr]
    unfolding in_pages_def by (auto simp: add.assoc)
  have "pages_avail hs m \<le> pages_avail hs m' + tables_needed start_vaddr n"
    by (cases "n = 0") (use m'(5) in simp, rule order_trans [OF m'(4) add_left_mono [OF need]], simp_all)
  with m' show ?thesis using that unfolding mmu_map_multiple_def by blast
qed

text \<open>
  C24: mapping a page-aligned range of virtual addresses terminates and makes every address of
  its pages translate to the address at the same distance from the physical start; the other
  addresses of the 39-bit space translate as before. It needs no more pages than there are tables
  over the range, one for every 512 pages and one for every 262144.
\<close>

theorem mmu_map_multiple_correct:
  assumes "pt_wf hs m pt" and "n = (unat bytes + 4095) div 4096" and "tables_needed start_vaddr n \<le> pages_avail hs m"
    and "4096 dvd unat start_vaddr" and "unat start_vaddr + unat bytes \<le> 2 ^ 39"
    and "4096 dvd unat start_paddr" and "unat start_paddr + unat bytes \<le> 2 ^ 56"
    and "bits AND 14 \<noteq> 0" and "unat bits < 2 ^ 10"
  shows "\<exists>m'. mmu_map_multiple hs m pt start_vaddr start_paddr bytes bits = Some m' \<and> pt_wf hs m' pt \<and>
    pages_avail hs m \<le> pages_avail hs m' + tables_needed start_vaddr n \<and>
    (\<forall>w. unat w < 2 ^ 39 \<longrightarrow> mmu_translate m' pt w =
      (if in_pages start_vaddr n w then start_paddr + (w - start_vaddr) else mmu_translate m pt w))"
proof -
  obtain L where L: "pt_at hs L m pt" using assms(1) by (auto simp: pt_wf_at)
  obtain m' L' where m': "mmu_map_multiple hs m pt start_vaddr start_paddr bytes bits = Some m'" "pt_at hs L' m' pt"
    "pages_avail hs m \<le> pages_avail hs m' + tables_needed start_vaddr n"
    "\<And>w. unat w < 2 ^ 39 \<Longrightarrow> pt_leaf m' pt w =
      (if in_pages start_vaddr n w
       then make_entry (start_paddr + of_nat (4096 * (unat w div 4096 - unat start_vaddr div 4096))) (bits OR 1)
       else pt_leaf m pt w)"
    by (rule mmu_map_multiple_leaf [OF L assms(2-5,8)], rule that) auto
  have wf: "pt_wf hs m' pt" using m'(2) by (auto simp: pt_wf_at)
  have "mmu_translate m' pt w = (if in_pages start_vaddr n w then start_paddr + (w - start_vaddr) else mmu_translate m pt w)"
    if w: "unat w < 2 ^ 39" for w
    using m'(4) [OF w] translate_range [OF wf _ _ assms(8,9,4-7), of w] assms(2)
    by (simp add: translate_leaf [OF wf] translate_leaf [OF assms(1)])
  then show ?thesis using m'(1,3) wf by blast
qed

section \<open>A concrete page table\<close>

text \<open>A heap of sixty pages whose first free page has been taken for an empty root table.\<close>

definition demo_heap60 :: heap_syms where
  "demo_heap60 = \<lparr>heap_start = 0x80000000, heap_end = 0x8003C000\<rparr>"

definition demo_pt_mem :: mem where
  "demo_pt_mem = (\<lambda>_. 0)(0x80000000 := 15)"

definition demo_root :: u64 where
  "demo_root = 0x80002000"

lemma demo60_sizes: "npages demo_heap60 = 60" "nbytes demo_heap60 = 15"
  by (simp_all add: demo_heap60_def total_pages_def heap_memory_def bookkeeping_bytes_def)

lemma demo60_ok: "heap_ok demo_heap60"
  by (simp add: heap_ok_def demo_heap60_def total_pages_def heap_memory_def)

lemma demo60_book: "nbook demo_heap60 = 1"
  using unat_round_bookkeeping(2) [OF demo60_ok] by (simp add: demo60_sizes)

lemma demo60_start: "heap_start demo_heap60 = 0x80000000"
  by (simp add: demo_heap60_def)

lemmas demo60_marks =
  demo60_sizes demo60_book demo60_start demo_pt_mem_def is_taken_def is_last_def Let_def

lemma demo60_wf: "page_wf demo_heap60 demo_pt_mem"
  by (simp add: page_wf_def demo60_marks upt_rec)

lemma demo60_avail: "pages_avail demo_heap60 demo_pt_mem = 4"
  by (simp add: pages_avail_def demo60_marks upt_rec)

lemma demo60_root: "page_owned demo_heap60 demo_pt_mem demo_root"
proof -
  have "page_addr demo_heap60 1 = demo_root"
    using page_addr_offset [OF demo60_ok, of 1] by (simp add: demo60_book demo60_start demo_root_def)
  moreover have "is_taken demo_pt_mem 0x80000000 1" by (simp add: is_taken_def demo_pt_mem_def)
  ultimately show ?thesis
    unfolding page_owned_iff demo60_start by (intro exI [of _ 1]) (simp add: demo60_sizes)
qed

lemma demo60_entries: "k < 512 \<Longrightarrow> pt_entry demo_pt_mem demo_root k = 0"
  by (rule pt_entry_zero)
    (auto simp: demo_pt_mem_def demo_root_def inside_def)

lemma demo60_pt_wf: "pt_wf demo_heap60 demo_pt_mem demo_root"
proof -
  have "pt_shape [demo_root \<mapsto> []] (page_owned demo_heap60 demo_pt_mem) demo_pt_mem demo_root"
    using demo60_root demo60_entries by (auto simp: pt_shape_def split: if_splits)
  then show ?thesis using demo60_ok demo60_wf unfolding pt_wf_def by blast
qed

lemma demo60_translate: "mmu_translate demo_pt_mem demo_root v = - 1"
  by (simp add: translate_leaf [OF demo60_pt_wf] pt_leaf_def demo60_entries)

lemma demo60_missing: "pt_missing demo_pt_mem demo_root v \<le> pages_avail demo_heap60 demo_pt_mem"
  using pt_missing_le [of demo_pt_mem demo_root v] by (simp add: demo60_avail)

theorem mmu_map_correct_witness:
  "\<exists>m'. mmu_map demo_heap60 demo_pt_mem demo_root 0x40000000 0x80003000 6 = (m', 0) \<and>
     mmu_translate m' demo_root 0x40000123 = 0x80003123 \<and> mmu_translate m' demo_root 0x40001000 = - 1"
proof -
  obtain m' r where res: "mmu_map demo_heap60 demo_pt_mem demo_root 0x40000000 0x80003000 6 = (m', r)"
    by fastforce
  have "same_page 0x40000123 0x40000000" "\<not> same_page 0x40001000 0x40000000"
    by (simp_all add: same_page_def vpn_def)
  then show ?thesis
    using mmu_map_correct [OF demo60_pt_wf demo60_missing _ _ _ _ res] res by (simp add: demo60_translate)
qed

theorem mmu_unmap_correct_witness:
  "\<exists>m'. mmu_unmap demo_heap60 demo_pt_mem demo_root 0x40000000 = (m', 0) \<and>
     mmu_translate m' demo_root 0x40000123 = - 1"
proof -
  obtain m' r where res: "mmu_unmap demo_heap60 demo_pt_mem demo_root 0x40000000 = (m', r)"
    by fastforce
  then show ?thesis
    using mmu_unmap_correct [OF demo60_pt_wf demo60_missing res] by (simp add: demo60_translate)
qed

theorem mmu_map_multiple_correct_witness:
  "\<exists>m'. mmu_map_multiple demo_heap60 demo_pt_mem demo_root 0x40000000 0x80003000 0x1800 6 = Some m' \<and>
     mmu_translate m' demo_root 0x40001123 = 0x80004123"
proof -
  have n: "2 = (unat (0x1800 :: u64) + 4095) div 4096" "tables_needed 0x40000000 2 \<le> pages_avail demo_heap60 demo_pt_mem"
    by (simp_all add: tables_needed_def Let_def demo60_avail)
  obtain m' where m': "mmu_map_multiple demo_heap60 demo_pt_mem demo_root 0x40000000 0x80003000 0x1800 6 = Some m'"
    "\<forall>w. unat w < 2 ^ 39 \<longrightarrow> mmu_translate m' demo_root w =
      (if in_pages 0x40000000 2 w then 0x80003000 + (w - 0x40000000) else mmu_translate demo_pt_mem demo_root w)"
    using mmu_map_multiple_correct [OF demo60_pt_wf n, of "0x80003000" 6] by auto
  have "mmu_translate m' demo_root 0x40001123 = 0x80004123"
    using m'(2) [rule_format, of "0x40001123"] by (simp add: in_pages_def)
  then show ?thesis using m'(1) by blast
qed

end
