(* ===== verification/Kmalloc.thy ===== *)
theory Kmalloc
  imports Mmu
begin

text \<open>
  The kernel heap of \<^verbatim>\<open>src/kmalloc.c\<close>: a circular doubly linked list of free nodes in address
  order, first-fit allocation with splitting, growth by whole pages, and freeing with
  coalescing and shrinking. Node headers are a typed store indexed by heap virtual address, the
  bytes handed out are a separate byte map, and the pages behind the heap come from the models
  of the page allocator and the page tables. The lock around each call and the TLB fences are
  not part of the model.

  The pointer operations are shown to implement operations on the list of free nodes; what the
  allocator promises is then proved of those.
\<close>

section \<open>Model\<close>

record allocation =
  al_size :: u64
  al_prev :: u64
  al_next :: u64

type_synonym store = "u64 \<Rightarrow> allocation"

record kheap =
  nodes :: store
  kmalloc_head :: u64
  kernel_heap_vaddr :: u64
  heap_bytes :: mem
  phys :: mem
  kernel_mmu_table :: u64
  number_of_frees :: u32

text \<open>\<open>sizeof(allocation_t)\<close>\<close>

abbreviation (input) SIZEOF_ALLOCATION :: u64 where
  "SIZEOF_ALLOCATION \<equiv> 24"

subsection \<open>The doubly linked list\<close>

definition set_next :: "store \<Rightarrow> u64 \<Rightarrow> u64 \<Rightarrow> store" where
  "set_next n p v = n(p := (n p)\<lparr>al_next := v\<rparr>)"

definition set_prev :: "store \<Rightarrow> u64 \<Rightarrow> u64 \<Rightarrow> store" where
  "set_prev n p v = n(p := (n p)\<lparr>al_prev := v\<rparr>)"

definition set_size :: "store \<Rightarrow> u64 \<Rightarrow> u64 \<Rightarrow> store" where
  "set_size n p v = n(p := (n p)\<lparr>al_size := v\<rparr>)"

definition allocation_dll_insert :: "store \<Rightarrow> u64 \<Rightarrow> u64 \<Rightarrow> store" where
  "allocation_dll_insert n a b =
     (if a = b then n
      else
        let n1 = set_next n b (al_next (n a));
            n2 = set_prev n1 b a;
            n3 = set_next n2 a b
        in set_prev n3 (al_next (n3 b)) b)"

definition allocation_dll_delete :: "store \<Rightarrow> u64 \<Rightarrow> store" where
  "allocation_dll_delete n a =
     (if al_next (n a) = a then n
      else
        let n1 = set_prev n (al_next (n a)) (al_prev (n a))
        in set_next n1 (al_prev (n1 a)) (al_next (n1 a)))"

subsection \<open>Allocation\<close>

definition init_kernel_heap :: "heap_syms \<Rightarrow> kheap \<Rightarrow> kheap" where
  "init_kernel_heap hs s =
     (let (m1, paddr) = page_zalloc hs (phys s);
          (m2, _) = mmu_map hs m1 (kernel_mmu_table s) (kernel_heap_vaddr s) paddr 6;
          h = kernel_heap_vaddr s;
          n1 = set_prev (set_next (set_size (nodes s) h 0) h h) h h;
          p = h + SIZEOF_ALLOCATION;
          n2 = set_size n1 p (4096 - 2 * SIZEOF_ALLOCATION)
      in s\<lparr>phys := m2, kmalloc_head := h, nodes := allocation_dll_insert n2 h p,
           kernel_heap_vaddr := kernel_heap_vaddr s + 4096\<rparr>)"

text \<open>The first-fit loop; a list that never comes back to the head would make it run forever.\<close>

partial_function (option) first_fit_from :: "store \<Rightarrow> u64 \<Rightarrow> u64 \<Rightarrow> u64 \<Rightarrow> u64 option" where
  "first_fit_from n head bytes p =
     (if p \<noteq> head \<and> al_size (n p) < bytes then first_fit_from n head bytes (al_next (n p)) else Some p)"

text \<open>\<open>((bytes + 7) / 8) * 8\<close>, in 64 bits.\<close>

definition round_bytes :: "u64 \<Rightarrow> u64" where
  "round_bytes bytes = ((bytes + 7) div 8) * 8"

definition pages_to_alloc :: "u64 \<Rightarrow> int" where
  "pages_to_alloc bytes = sint (ucast ((bytes + SIZEOF_ALLOCATION + 4096 - 1) div 4096) :: u32)"

text \<open>
  Getting pages for a request: the new node, at the end of the list. \<open>None\<close> inside says that
  no pages were left; the outer option is the loop of \<open>mmu_map_multiple\<close>.
\<close>

definition heap_grow :: "heap_syms \<Rightarrow> kheap \<Rightarrow> u64 \<Rightarrow> (kheap \<times> u64 option) option" where
  "heap_grow hs s bytes =
     (let pages = pages_to_alloc bytes;
          p = kernel_heap_vaddr s;
          (m1, newpage) = page_znalloc hs (phys s) pages
      in if newpage = NULL then Some (s\<lparr>phys := m1\<rparr>, None)
         else
           (case mmu_map_multiple hs m1 (kernel_mmu_table s) (kernel_heap_vaddr s) newpage
                   (word_of_int (pages * 4096)) 6 of
              None \<Rightarrow> None
            | Some m2 \<Rightarrow>
                let n1 = set_size (nodes s) p (word_of_int (pages * 4096) - SIZEOF_ALLOCATION);
                    n2 = allocation_dll_insert n1 (al_prev (n1 (kmalloc_head s))) p
                in Some (s\<lparr>phys := m2, nodes := n2,
                           kernel_heap_vaddr := kernel_heap_vaddr s + word_of_int (pages * 4096)\<rparr>,
                         Some p)))"

text \<open>Taking node \<open>p\<close> off the list, leaving the remainder behind when it can hold a header.\<close>

definition take_node :: "store \<Rightarrow> u64 \<Rightarrow> u64 \<Rightarrow> store" where
  "take_node n p bytes =
     (if al_size (n p) \<ge> bytes + SIZEOF_ALLOCATION then
        let q = p + SIZEOF_ALLOCATION + bytes;
            n1 = set_size n q (al_size (n p) - bytes - SIZEOF_ALLOCATION);
            n2 = set_size n1 p bytes
        in allocation_dll_delete (allocation_dll_insert n2 p q) p
      else allocation_dll_delete n p)"

definition common_alloc ::
    "heap_syms \<Rightarrow> kheap \<Rightarrow> u64 \<Rightarrow> bool \<Rightarrow> bool \<Rightarrow> (kheap \<times> u64) option" where
  "common_alloc hs s bytes0 do_zero request_contiguous =
     (let bytes = round_bytes bytes0 in
      case first_fit_from (nodes s) (kmalloc_head s) bytes (al_next (nodes s (kmalloc_head s))) of
        None \<Rightarrow> None
      | Some p0 \<Rightarrow>
          (case (if p0 = kmalloc_head s \<or> request_contiguous then heap_grow hs s bytes
                 else Some (s, Some p0)) of
             None \<Rightarrow> None
           | Some (s1, None) \<Rightarrow> Some (s1, NULL)
           | Some (s1, Some p) \<Rightarrow>
               let n = take_node (nodes s1) p bytes;
                   b = (if do_zero
                        then memset (heap_bytes s1) (p + SIZEOF_ALLOCATION) 0 (sint (ucast (al_size (n p)) :: u32))
                        else heap_bytes s1)
               in Some (s1\<lparr>nodes := n, heap_bytes := b\<rparr>, p + SIZEOF_ALLOCATION)))"

definition kmalloc :: "heap_syms \<Rightarrow> kheap \<Rightarrow> u64 \<Rightarrow> (kheap \<times> u64) option" where
  "kmalloc hs s bytes = common_alloc hs s bytes False False"

definition kzalloc :: "heap_syms \<Rightarrow> kheap \<Rightarrow> u64 \<Rightarrow> (kheap \<times> u64) option" where
  "kzalloc hs s bytes = common_alloc hs s bytes True False"

definition kcalloc :: "heap_syms \<Rightarrow> kheap \<Rightarrow> u64 \<Rightarrow> (kheap \<times> u64) option" where
  "kcalloc hs s bytes = common_alloc hs s bytes True True"

subsection \<open>Freeing\<close>

text \<open>The two loops of \<open>coalesce_free_list\<close>: merge at \<open>p\<close> while it touches its successor, then advance.\<close>

partial_function (option) coalesce_from :: "store \<Rightarrow> u64 \<Rightarrow> u64 \<Rightarrow> store option" where
  "coalesce_from n head p =
     (if p = head then Some n
      else if p + (al_size (n p) + SIZEOF_ALLOCATION) = al_next (n p) then
        (let n1 = set_size n p (al_size (n p) + (SIZEOF_ALLOCATION + al_size (n (al_next (n p)))))
         in coalesce_from (allocation_dll_delete n1 (al_next (n1 p))) head p)
      else coalesce_from n head (al_next (n p)))"

definition coalesce_free_list :: "kheap \<Rightarrow> kheap option" where
  "coalesce_free_list s =
     (case coalesce_from (nodes s) (kmalloc_head s) (al_next (nodes s (kmalloc_head s))) of
        None \<Rightarrow> None
      | Some n \<Rightarrow> Some (s\<lparr>nodes := n\<rparr>))"

function heap_shrink_loop :: "heap_syms \<Rightarrow> kheap \<Rightarrow> u64 \<Rightarrow> kheap option" where
  "heap_shrink_loop hs s lst =
     (if (lst + SIZEOF_ALLOCATION) + al_size (nodes s lst) = kernel_heap_vaddr s \<and>
         al_size (nodes s lst) \<ge> 4096
      then
        (let n1 = set_size (nodes s) lst (al_size (nodes s lst) - 4096);
             v = kernel_heap_vaddr s - 4096
         in case page_free hs (phys s) (mmu_translate (phys s) (kernel_mmu_table s) v) of
              None \<Rightarrow> None
            | Some m1 \<Rightarrow>
                heap_shrink_loop hs
                  (s\<lparr>nodes := n1, kernel_heap_vaddr := v,
                     phys := fst (mmu_unmap hs m1 (kernel_mmu_table s) v)\<rparr>) lst)
      else Some s)"
  by pat_completeness auto
termination
proof (relation "measure (\<lambda>(hs, s, l). unat (al_size (nodes s l)))", goal_cases)
  case (2 hs s l)
  then show ?case by (simp add: set_size_def word_le_nat_alt unat_sub)
qed simp

declare heap_shrink_loop.simps [simp del]

definition heap_shrink :: "heap_syms \<Rightarrow> kheap \<Rightarrow> kheap option" where
  "heap_shrink hs s = heap_shrink_loop hs s (al_prev (nodes s (kmalloc_head s)))"

text \<open>The search for the node after which a freed block is inserted.\<close>

partial_function (option) free_position :: "store \<Rightarrow> u64 \<Rightarrow> u64 \<Rightarrow> u64 \<Rightarrow> u64 option" where
  "free_position n head q p =
     (if al_next (n p) < q \<and> al_next (n p) \<noteq> head then free_position n head q (al_next (n p)) else Some p)"

text \<open>
  \<open>kfree\<close>. Both \<open>COALESCE_EACH\<close> and \<open>SHRINK_HEAP_EACH\<close> are 1, so every call coalesces and
  shrinks.
\<close>

definition kfree :: "heap_syms \<Rightarrow> kheap \<Rightarrow> u64 \<Rightarrow> kheap option" where
  "kfree hs s addr =
     (if addr = NULL then Some s
      else
        let q = addr - SIZEOF_ALLOCATION in
        case free_position (nodes s) (kmalloc_head s) q (kmalloc_head s) of
          None \<Rightarrow> None
        | Some p \<Rightarrow>
            let s1 = s\<lparr>nodes := allocation_dll_insert (nodes s) p q,
                       number_of_frees := number_of_frees s + 1\<rparr>
            in case coalesce_free_list s1 of
                 None \<Rightarrow> None
               | Some s2 \<Rightarrow> heap_shrink hs s2)"

section \<open>Pointers implement the list of free nodes\<close>

text \<open>\<open>dseg n a xs b\<close>: from \<open>a\<close>, the \<open>next\<close> pointers lead through \<open>xs\<close> to \<open>b\<close>, and the
  \<open>prev\<close> pointers back.\<close>

fun dseg :: "store \<Rightarrow> u64 \<Rightarrow> u64 list \<Rightarrow> u64 \<Rightarrow> bool" where
  "dseg n a [] b \<longleftrightarrow> al_next (n a) = b \<and> al_prev (n b) = a"
| "dseg n a (x # xs) b \<longleftrightarrow> al_next (n a) = x \<and> al_prev (n x) = a \<and> dseg n x xs b"

definition dll :: "store \<Rightarrow> u64 \<Rightarrow> u64 list \<Rightarrow> bool" where
  "dll n h xs \<longleftrightarrow> distinct (h # xs) \<and> dseg n h xs h"

lemma dseg_append: "dseg n a (xs @ y # ys) b \<longleftrightarrow> dseg n a xs y \<and> dseg n y ys b"
  by (induction xs arbitrary: a) auto

lemma dseg_cong:
  assumes "\<And>x. x \<in> set (a # xs) \<Longrightarrow> al_next (n x) = al_next (n' x)"
    and "\<And>x. x \<in> set (xs @ [b]) \<Longrightarrow> al_prev (n x) = al_prev (n' x)"
  shows "dseg n a xs b = dseg n' a xs b"
  using assms by (induction xs arbitrary: a) auto

lemma dseg_next: "dseg n a xs b \<Longrightarrow> al_next (n a) = hd (xs @ [b])"
  by (cases xs) auto

lemma dseg_prev: "dseg n a xs b \<Longrightarrow> al_prev (n b) = last (a # xs)"
  by (induction xs arbitrary: a) auto

lemma dll_head: "dll n h xs \<Longrightarrow> al_next (n h) = hd (xs @ [h])" "dll n h xs \<Longrightarrow> al_prev (n h) = last (h # xs)"
  unfolding dll_def using dseg_next dseg_prev by blast+

lemma dll_next: "dll n h (us @ a # vs) \<Longrightarrow> al_next (n a) = hd (vs @ [h])"
  unfolding dll_def dseg_append using dseg_next by blast

lemma insert_fields:
  assumes "a \<noteq> b"
  shows "al_next (allocation_dll_insert n a b x) =
      (if x = a then b else if x = b then al_next (n a) else al_next (n x))"
    "al_prev (allocation_dll_insert n a b x) =
      (if x = al_next (n a) then b else if x = b then a else al_prev (n x))"
    "al_size (allocation_dll_insert n a b x) = al_size (n x)"
  using assms by (simp_all add: allocation_dll_insert_def Let_def set_next_def set_prev_def)

lemma delete_fields:
  assumes "al_next (n a) \<noteq> a"
  shows "al_next (allocation_dll_delete n a x) =
      (if x = al_prev (n a) then al_next (n a) else al_next (n x))"
    "al_prev (allocation_dll_delete n a x) =
      (if x = al_next (n a) then al_prev (n a) else al_prev (n x))"
    "al_size (allocation_dll_delete n a x) = al_size (n x)"
  using assms by (simp_all add: allocation_dll_delete_def Let_def set_next_def set_prev_def)

lemma set_size_fields [simp]:
  "al_next (set_size n p v x) = al_next (n x)" "al_prev (set_size n p v x) = al_prev (n x)"
  "al_size (set_size n p v x) = (if x = p then v else al_size (n x))"
  by (simp_all add: set_size_def)

lemma dll_set_size [simp]: "dll (set_size n p v) h xs = dll n h xs"
  unfolding dll_def using dseg_cong [of h xs "set_size n p v" n h] by simp

text \<open>Inserting after the last node of \<open>h # us\<close>, and deleting a node.\<close>

lemma dll_insert:
  assumes d: "dll n h (us @ vs)" and b: "b \<notin> set (h # us @ vs)"
  defines "a \<equiv> last (h # us)"
  shows "dll (allocation_dll_insert n a b) h (us @ b # vs)"
proof -
  let ?n = "allocation_dll_insert n a b"
  have a_in: "a \<in> set (h # us)" unfolding a_def by (rule last_in_set) simp
  then have ab: "a \<noteq> b" using b by auto
  have next_a: "al_next (n a) = hd (vs @ [h])"
  proof (cases us rule: rev_cases)
    case Nil
    then show ?thesis using dll_head(1) [OF d] by (simp add: a_def)
  next
    case (snoc us' y)
    then show ?thesis using dll_next [of n h us' a vs] d by (simp add: a_def)
  qed
  note f = insert_fields [OF ab, of n, unfolded next_a]
  have tail: "dseg n a vs h \<Longrightarrow> dseg ?n b vs h"
  proof (cases vs)
    case Nil
    then show ?thesis using b a_in by (auto simp: f)
  next
    case (Cons c cs)
    assume "dseg n a vs h"
    then have "dseg n c cs h" using Cons by simp
    moreover have "dseg ?n c cs h = dseg n c cs h"
      using d b a_in Cons by (intro dseg_cong) (auto simp: f dll_def)
    ultimately show ?thesis using Cons b d a_in by (auto simp: f dll_def)
  qed
  have "dseg ?n h (us @ b # vs) h"
  proof (cases us rule: rev_cases)
    case Nil
    then have ah: "a = h" by (simp add: a_def)
    have "dseg ?n b vs h" using tail d Nil ah by (simp add: dll_def)
    moreover have "al_next (?n h) = b" "al_prev (?n b) = h"
      using f(1) [of h] f(2) [of b] ah b Nil by (cases vs; auto)+
    ultimately show ?thesis using Nil by simp
  next
    case (snoc us' y)
    then have y: "y = a" by (simp add: a_def)
    have split: "dseg n h us' a" "dseg n a vs h"
      using d snoc y dseg_append [of n h us' a vs h] by (simp_all add: dll_def)
    have "dseg ?n h us' a = dseg n h us' a"
      using d b snoc y by (intro dseg_cong) (auto simp: f dll_def hd_append split: list.splits)
    moreover have "dseg ?n a (b # vs) h"
      using tail [OF split(2)] d b snoc y by (cases vs) (auto simp: f dll_def)
    ultimately show ?thesis using split snoc y dseg_append [of ?n h us' a "b # vs" h] by simp
  qed
  then show ?thesis using d b by (auto simp: dll_def)
qed

lemma dll_delete:
  assumes d: "dll n h (us @ a # vs)"
  shows "dll (allocation_dll_delete n a) h (us @ vs)"
proof -
  let ?n = "allocation_dll_delete n a"
  have next_a: "al_next (n a) = hd (vs @ [h])" using dll_next [OF d] .
  have segs: "dseg n h us a" "dseg n a vs h" using d by (simp_all add: dll_def dseg_append)
  have prev_a: "al_prev (n a) = last (h # us)" using dseg_prev [OF segs(1)] .
  have dist: "distinct (h # us @ a # vs)" using d by (simp add: dll_def)
  have ne: "al_next (n a) \<noteq> a" unfolding next_a using dist by (cases vs) auto
  note f = delete_fields [where n = n and a = a, OF ne, unfolded next_a prev_a]
  show ?thesis
  proof (cases us rule: rev_cases)
    case Nil
    show ?thesis
    proof (cases vs)
      case vs: Nil
      then show ?thesis using Nil dist by (simp add: dll_def f)
    next
      case (Cons c cs)
      have "dseg ?n c cs h = dseg n c cs h"
        using dist Nil Cons by (intro dseg_cong) (auto simp: f)
      then show ?thesis using segs(2) Nil Cons dist by (auto simp: dll_def f)
    qed
  next
    case (snoc us' y)
    have pre: "dseg n h us' y" using segs(1) snoc dseg_append [of n h us' y "[]" a] by simp
    have pre': "dseg ?n h us' y = dseg n h us' y"
      using dist snoc by (intro dseg_cong) (auto simp: f hd_append split: list.splits)
    have "dseg ?n y vs h"
    proof (cases vs)
      case vs: Nil
      then show ?thesis using snoc dist by (simp add: f)
    next
      case (Cons c cs)
      have "dseg ?n c cs h = dseg n c cs h"
        using dist snoc Cons by (intro dseg_cong) (auto simp: f)
      then show ?thesis using segs(2) snoc Cons dist by (auto simp: f)
    qed
    then show ?thesis using pre pre' snoc dist dseg_append [of ?n h us' y vs h] by (auto simp: dll_def)
  qed
qed

subsection \<open>Searching\<close>

lemma first_fit_list:
  "dll n h (us @ vs) \<Longrightarrow>
   first_fit_from n h bytes (hd (vs @ [h])) = Some (hd (dropWhile (\<lambda>p. al_size (n p) < bytes) vs @ [h]))"
proof (induction vs arbitrary: us)
  case Nil
  then show ?case by (simp add: first_fit_from.simps)
next
  case (Cons v vs)
  have nx: "al_next (n v) = hd (vs @ [h])" using dll_next [OF Cons.prems] .
  have "v \<noteq> h" using Cons.prems by (auto simp: dll_def)
  moreover have "dll n h ((us @ [v]) @ vs)" using Cons.prems by simp
  ultimately show ?case
    using Cons.IH [of "us @ [v]"] nx by (simp add: first_fit_from.simps [of n h bytes v])
qed

lemma free_position_list:
  "dll n h (us @ vs) \<Longrightarrow>
   free_position n h q (last (h # us)) = Some (last (h # us @ takeWhile (\<lambda>x. x < q) vs))"
proof (induction vs arbitrary: us)
  case Nil
  have "al_next (n (last (h # us))) = h"
    using dll_head(1) [OF Nil] dll_next [of n h "butlast us" "last us" "[]"] Nil
    by (cases us rule: rev_cases) auto
  then show ?case by (simp add: free_position.simps)
next
  case (Cons v vs)
  have nx: "al_next (n (last (h # us))) = v"
    using dll_head(1) [OF Cons.prems] dll_next [of n h "butlast us" "last us" "v # vs"] Cons.prems
    by (cases us rule: rev_cases) auto
  have "v \<noteq> h" using Cons.prems by (auto simp: dll_def)
  moreover have "dll n h ((us @ [v]) @ vs)" using Cons.prems by simp
  moreover have "free_position n h q (last (h # us)) =
      (if v < q \<and> v \<noteq> h then free_position n h q v else Some (last (h # us)))"
    using free_position.simps [of n h q "last (h # us)"] unfolding nx .
  ultimately show ?case
    using Cons.IH [of "us @ [v]"] by (cases "v < q") auto
qed

subsection \<open>Taking a node\<close>

lemma take_node_split:
  assumes d: "dll n h (us @ p # vs)" and sz: "al_size (n p) \<ge> bytes + 24"
    and q: "q = p + 24 + bytes" "q \<notin> set (h # us @ p # vs)"
  shows "dll (take_node n p bytes) h (us @ q # vs)"
    "al_size (take_node n p bytes x) =
      (if x = p then bytes else if x = q then al_size (n p) - bytes - 24 else al_size (n x))"
proof -
  define n2 where "n2 = set_size (set_size n q (al_size (n p) - bytes - 24)) p bytes"
  have t: "take_node n p bytes = allocation_dll_delete (allocation_dll_insert n2 p q) p"
    using sz by (simp add: take_node_def Let_def n2_def q(1) add.assoc)
  have d2: "dll n2 h ((us @ [p]) @ vs)" using d by (simp add: n2_def)
  have pq: "p \<noteq> q" using q(2) by auto
  have d3: "dll (allocation_dll_insert n2 p q) h (us @ p # q # vs)"
    using dll_insert [OF d2, of q] q(2) by simp
  show "dll (take_node n p bytes) h (us @ q # vs)" unfolding t using dll_delete [OF d3] .
  have ne: "al_next (allocation_dll_insert n2 p q p) \<noteq> p" using dll_next [OF d3] pq by simp
  show "al_size (take_node n p bytes x) =
      (if x = p then bytes else if x = q then al_size (n p) - bytes - 24 else al_size (n x))"
    unfolding t delete_fields(3) [where n = "allocation_dll_insert n2 p q" and a = p, OF ne] insert_fields(3) [OF pq]
    using pq by (simp add: n2_def)
qed

lemma take_node_whole:
  assumes d: "dll n h (us @ p # vs)" and sz: "\<not> al_size (n p) \<ge> bytes + 24"
  shows "dll (take_node n p bytes) h (us @ vs)" "al_size (take_node n p bytes x) = al_size (n x)"
proof -
  have t: "take_node n p bytes = allocation_dll_delete n p" using sz by (simp add: take_node_def)
  show "dll (take_node n p bytes) h (us @ vs)" unfolding t using dll_delete [OF d] .
  have "p \<notin> set (vs @ [h])" using d by (auto simp: dll_def)
  then have "al_next (n p) \<noteq> p" using dll_next [OF d] by (cases vs) auto
  then show "al_size (take_node n p bytes x) = al_size (n x)" unfolding t by (rule delete_fields(3))
qed

subsection \<open>Coalescing\<close>

definition free_list :: "store \<Rightarrow> u64 list \<Rightarrow> (u64 \<times> u64) list" where
  "free_list n xs = map (\<lambda>p. (p, al_size (n p))) xs"

lemma free_list_simps [simp]:
  "free_list n [] = []" "free_list n (x # xs) = (x, al_size (n x)) # free_list n xs"
  "free_list n (xs @ ys) = free_list n xs @ free_list n ys"
  by (simp_all add: free_list_def)

lemma free_list_cong: "(\<And>x. x \<in> set xs \<Longrightarrow> al_size (n x) = al_size (n' x)) \<Longrightarrow> free_list n xs = free_list n' xs"
  by (simp add: free_list_def)

fun coalesce_list :: "(u64 \<times> u64) list \<Rightarrow> (u64 \<times> u64) list" where
  "coalesce_list [] = []"
| "coalesce_list [x] = [x]"
| "coalesce_list ((a, s) # (b, t) # r) =
     (if a + (s + 24) = b then coalesce_list ((a, s + (24 + t)) # r)
      else (a, s) # coalesce_list ((b, t) # r))"

lemma coalesce_from_list:
  "dll n h (us @ xs) \<Longrightarrow> \<forall>x \<in> set xs. x + (al_size (n x) + 24) \<noteq> h \<Longrightarrow>
   \<exists>n' ys. coalesce_from n h (hd (xs @ [h])) = Some n' \<and> dll n' h (us @ ys) \<and>
     free_list n' ys = coalesce_list (free_list n xs) \<and> set ys \<subseteq> set xs \<and>
     (\<forall>x. x \<notin> set xs \<longrightarrow> al_size (n' x) = al_size (n x))"
proof (induction "length xs" arbitrary: n us xs)
  case 0
  then show ?case by (intro exI [of _ n] exI [of _ "[]"]) (simp add: coalesce_from.simps)
next
  case (Suc k)
  then obtain p r where xs: "xs = p # r" by (cases xs) auto
  have ph: "p \<noteq> h" using Suc.prems(1) xs by (auto simp: dll_def)
  have nx: "al_next (n p) = hd (r @ [h])" using dll_next [of n h us p r] Suc.prems(1) xs by simp
  have not_h: "p + (al_size (n p) + 24) \<noteq> h" using Suc.prems(2) xs by simp
  show ?case
  proof (cases r)
    case Nil
    then show ?thesis
      using xs ph nx not_h Suc.prems
      by (intro exI [of _ n] exI [of _ "[p]"])
        (simp add: coalesce_from.simps [of n h p] coalesce_from.simps [of n h h])
  next
    case (Cons b r')
    have d: "dll n h (us @ p # b # r')" using Suc.prems(1) xs Cons by simp
    have pb: "p \<noteq> b" using d by (auto simp: dll_def)
    have nb: "al_next (n p) = b" using nx Cons by simp
    show ?thesis
    proof (cases "p + (al_size (n p) + 24) = b")
      case True
      define n1 where "n1 = set_size n p (al_size (n p) + (24 + al_size (n b)))"
      define n2 where "n2 = allocation_dll_delete n1 b"
      have d1: "dll n1 h ((us @ [p]) @ b # r')" using d by (simp add: n1_def)
      have d2: "dll n2 h (us @ (p # r'))" unfolding n2_def using dll_delete [OF d1] by simp
      have "al_next (n1 b) \<noteq> b"
        using dll_next [OF d1] d by (cases r') (auto simp: dll_def)
      then have sz: "al_size (n2 x) = (if x = p then al_size (n p) + (24 + al_size (n b)) else al_size (n x))" for x
        unfolding n2_def by (simp add: delete_fields(3) n1_def)
      have step: "coalesce_from n h p = coalesce_from n2 h p"
        using ph True nb by (subst coalesce_from.simps) (simp add: Let_def n2_def n1_def)
      have "p + (al_size (n2 p) + 24) = b + (al_size (n b) + 24)"
        using True by (simp add: sz algebra_simps)
      then have "\<forall>x \<in> set (p # r'). x + (al_size (n2 x) + 24) \<noteq> h"
        using Suc.prems(2) xs Cons by (auto simp: sz)
      from Suc.hyps(1) [OF _ d2 this] Suc.hyps(2) xs Cons obtain n' ys where
        ys: "coalesce_from n2 h p = Some n'" "dll n' h (us @ ys)"
        "free_list n' ys = coalesce_list (free_list n2 (p # r'))" "set ys \<subseteq> set (p # r')"
        "\<forall>x. x \<notin> set (p # r') \<longrightarrow> al_size (n' x) = al_size (n2 x)" by auto
      have "p \<notin> set r'" using d by (auto simp: dll_def)
      then have "free_list n2 r' = free_list n r'" by (intro free_list_cong) (auto simp: sz)
      then have "coalesce_list (free_list n2 (p # r')) = coalesce_list (free_list n xs)"
        using xs Cons True by (simp add: sz)
      then show ?thesis using ys step xs Cons by (auto simp: sz)
    next
      case False
      have step: "coalesce_from n h p = coalesce_from n h b"
        using ph False nb by (subst coalesce_from.simps) simp
      have d': "dll n h ((us @ [p]) @ (b # r'))" using d by simp
      from Suc.hyps(1) [OF _ d'] Suc.hyps(2) Suc.prems(2) xs Cons obtain n' ys where
        ys: "coalesce_from n h b = Some n'" "dll n' h ((us @ [p]) @ ys)"
        "free_list n' ys = coalesce_list (free_list n (b # r'))" "set ys \<subseteq> set (b # r')"
        "\<forall>x. x \<notin> set (b # r') \<longrightarrow> al_size (n' x) = al_size (n x)" by auto
      have "p \<notin> set (b # r')" using d by (auto simp: dll_def)
      then have "al_size (n' p) = al_size (n p)" using ys(5) by blast
      then show ?thesis
        using ys step xs Cons False by (intro exI [of _ n'] exI [of _ "p # ys"]) auto
    qed
  qed
qed

section \<open>What the list of free nodes covers\<close>

text \<open>The bytes of a node, its header included.\<close>

definition block :: "u64 \<times> u64 \<Rightarrow> nat set" where
  "block b = {unat (fst b)..<unat (fst b) + 24 + unat (snd b)}"

definition cover :: "(u64 \<times> u64) list \<Rightarrow> nat set" where
  "cover ps = (\<Union>b \<in> set ps. block b)"

lemma cover_simps [simp]:
  "cover [] = {}" "cover (b # ps) = block b \<union> cover ps" "cover (ps @ qs) = cover ps \<union> cover qs"
  by (auto simp: cover_def)

text \<open>Nodes in address order, without overlap, between two addresses.\<close>

fun ordered :: "nat \<Rightarrow> nat \<Rightarrow> (u64 \<times> u64) list \<Rightarrow> bool" where
  "ordered lo hi [] \<longleftrightarrow> lo \<le> hi"
| "ordered lo hi ((a, s) # ps) \<longleftrightarrow> lo \<le> unat a \<and> ordered (unat a + 24 + unat s) hi ps"

lemma ordered_append:
  "ordered lo hi (ps @ (a, s) # qs) \<longleftrightarrow> ordered lo (unat a) ps \<and> ordered (unat a + 24 + unat s) hi qs"
  by (induction lo "unat a" ps rule: ordered.induct) auto

lemma ordered_le: "ordered lo hi ps \<Longrightarrow> lo \<le> hi"
  by (induction lo hi ps rule: ordered.induct) auto

lemma ordered_mono: "ordered lo hi ps \<Longrightarrow> lo' \<le> lo \<Longrightarrow> hi \<le> hi' \<Longrightarrow> ordered lo' hi' ps"
  by (induction lo hi ps arbitrary: lo' rule: ordered.induct) auto

lemma ordered_cover: "ordered lo hi ps \<Longrightarrow> cover ps \<subseteq> {lo..<hi}"
proof (induction lo hi ps rule: ordered.induct)
  case (2 lo hi a s ps)
  then show ?case using ordered_le [of "unat a + 24 + unat s" hi ps] by (fastforce simp: block_def)
qed simp

lemma ordered_block_bounds:
  assumes "ordered lo hi ps" and "(a, s) \<in> set ps"
  shows "lo \<le> unat a" "unat a + 24 + unat s \<le> hi"
  using assms ordered_le by (induction lo hi ps rule: ordered.induct) (force dest: ordered_le)+

text \<open>Splitting a node, or taking it away, removes exactly its block.\<close>

lemma cover_take:
  assumes "ordered lo hi (ps @ (a, s) # qs)"
  shows "cover (ps @ (a, s) # qs) = cover (ps @ qs) \<union> block (a, s)"
    "cover (ps @ qs) \<inter> block (a, s) = {}" "ordered lo hi (ps @ qs)"
proof -
  have o: "ordered lo (unat a) ps" "ordered (unat a + 24 + unat s) hi qs"
    using assms by (auto simp: ordered_append)
  have "block (a, s) \<inter> cover ps = {}" "block (a, s) \<inter> cover qs = {}"
    using ordered_cover [OF o(1)] ordered_cover [OF o(2)] by (auto simp: block_def)
  then show "cover (ps @ qs) \<inter> block (a, s) = {}" by auto
  show "cover (ps @ (a, s) # qs) = cover (ps @ qs) \<union> block (a, s)" by auto
  show "ordered lo hi (ps @ qs)"
  proof (cases qs)
    case Nil
    then show ?thesis using o ordered_mono [of lo "unat a" ps lo hi] ordered_le by fastforce
  next
    case (Cons c cs)
    obtain b t where c: "c = (b, t)" by (cases c)
    then show ?thesis
      using o Cons ordered_mono [of lo "unat a" ps lo "unat b"] by (simp add: ordered_append)
  qed
qed

lemma cover_split:
  assumes ord: "ordered lo hi (ps @ (a, s) # qs)"
    and q: "unat q = unat a + 24 + unat bytes" and t: "unat t = unat s - unat bytes - 24"
    and fit: "unat bytes + 24 \<le> unat s"
  shows "cover (ps @ (a, s) # qs) = cover (ps @ (q, t) # qs) \<union> block (a, bytes)"
    "cover (ps @ (q, t) # qs) \<inter> block (a, bytes) = {}" "ordered lo hi (ps @ (q, t) # qs)"
proof -
  have o: "ordered lo (unat a) ps" "ordered (unat a + 24 + unat s) hi qs"
    using ord by (auto simp: ordered_append)
  have e: "unat q + 24 + unat t = unat a + 24 + unat s" using q t fit by simp
  show "ordered lo hi (ps @ (q, t) # qs)"
    using o q ordered_mono [of lo "unat a" ps lo "unat q"] unfolding ordered_append e by simp
  have "block (a, s) = block (q, t) \<union> block (a, bytes)" using e q fit by (auto simp: block_def)
  then show "cover (ps @ (a, s) # qs) = cover (ps @ (q, t) # qs) \<union> block (a, bytes)" by auto
  have "block (q, t) \<inter> block (a, bytes) = {}" using q by (auto simp: block_def)
  moreover have "block (a, bytes) \<subseteq> block (a, s)" using fit by (auto simp: block_def)
  ultimately show "cover (ps @ (q, t) # qs) \<inter> block (a, bytes) = {}"
    using cover_take(2) [OF ord] by auto
qed

text \<open>Coalescing keeps the order and the bytes, and leaves no node touching the next.\<close>

fun no_touch :: "(u64 \<times> u64) list \<Rightarrow> bool" where
  "no_touch ((a, s) # (b, t) # r) \<longleftrightarrow> a + (s + 24) \<noteq> b \<and> no_touch ((b, t) # r)"
| "no_touch _ \<longleftrightarrow> True"

lemma unat_block_end:
  assumes "unat (a :: u64) + 24 + unat s < 2 ^ 63"
  shows "unat (a + (s + 24)) = unat a + 24 + unat s" "unat (s + 24) = unat s + 24"
proof -
  show s: "unat (s + 24) = unat s + 24" using unat_add_of_nat [of s 24] assms by simp
  show "unat (a + (s + 24)) = unat a + 24 + unat s"
    using s assms by (simp add: unat_word_ariths)
qed

lemma coalesce_list_hd: "coalesce_list ((a, s) # ps) = [] \<Longrightarrow> False"
  by (induction "(a, s) # ps" arbitrary: s ps rule: coalesce_list.induct) (auto split: if_splits)

lemma coalesce_list_fst: "fst (hd (coalesce_list ((a, s) # ps))) = a"
  by (induction "(a, s) # ps" arbitrary: s ps rule: coalesce_list.induct) auto

lemma no_touch_coalesce: "no_touch (coalesce_list ps)"
proof (induction ps rule: coalesce_list.induct)
  case (3 a s b t r)
  obtain c u r' where cl: "coalesce_list ((b, t) # r) = (c, u) # r'"
    using coalesce_list_hd [of b t r] by (cases "coalesce_list ((b, t) # r)") auto
  then have "c = b" using coalesce_list_fst [of b t r] by simp
  then show ?case using 3 cl by auto
qed auto

lemma coalesce_cover:
  "ordered lo hi ps \<Longrightarrow> hi < 2 ^ 63 \<Longrightarrow>
   ordered lo hi (coalesce_list ps) \<and> cover (coalesce_list ps) = cover ps"
proof (induction ps arbitrary: lo rule: coalesce_list.induct)
  case (3 a s b t r)
  have b: "unat a + 24 + unat s \<le> unat b" "unat b + 24 + unat t \<le> hi" "lo \<le> unat a"
    "ordered (unat b + 24 + unat t) hi r"
    using "3.prems"(1) ordered_le by auto
  note e = unat_block_end [of a s] unat_block_end [of b t]
  show ?case
  proof (cases "a + (s + 24) = b")
    case True
    then have ab: "unat b = unat a + 24 + unat s" using e b "3.prems"(2) by auto
    have "unat (s + (24 + t)) = unat s + 24 + unat t"
      using b ab "3.prems"(2) by (simp add: unat_word_ariths)
    then have st: "unat a + 24 + unat (s + (24 + t)) = unat b + 24 + unat t" using ab by simp
    then have "ordered lo hi ((a, s + (24 + t)) # r)" using b by (simp only: ordered.simps)
    moreover have "block (a, s + (24 + t)) = block (a, s) \<union> block (b, t)"
      using st ab by (auto simp: block_def)
    ultimately show ?thesis using "3.IH"(1) [OF True] "3.prems"(2) True by auto
  next
    case False
    then show ?thesis using "3.IH"(2) [OF False, of "unat a + 24 + unat s"] "3.prems" by auto
  qed
qed auto

section \<open>The heap invariant and the operations\<close>

text \<open>
  The free list is a well-linked circular list in address order between the head node and the
  end of the heap, which stays below \<open>2 ^ 62\<close>.
\<close>

definition heap_inv :: "kheap \<Rightarrow> u64 list \<Rightarrow> bool" where
  "heap_inv s xs \<longleftrightarrow> dll (nodes s) (kmalloc_head s) xs \<and>
     ordered (unat (kmalloc_head s) + 24) (unat (kernel_heap_vaddr s)) (free_list (nodes s) xs) \<and>
     unat (kernel_heap_vaddr s) < 2 ^ 62 \<and> kmalloc_head s \<noteq> 0 \<and>
     al_size (nodes s (kmalloc_head s)) = 0"

lemma heap_invD:
  assumes "heap_inv s xs"
  shows "dll (nodes s) (kmalloc_head s) xs"
    "ordered (unat (kmalloc_head s) + 24) (unat (kernel_heap_vaddr s)) (free_list (nodes s) xs)"
    "unat (kernel_heap_vaddr s) < 2 ^ 62" "kmalloc_head s \<noteq> 0"
    "al_size (nodes s (kmalloc_head s)) = 0"
  using assms by (auto simp: heap_inv_def)

lemma heap_inv_node:
  assumes "heap_inv s xs" and "p \<in> set xs"
  shows "unat (kmalloc_head s) + 24 \<le> unat p"
    "unat p + 24 + unat (al_size (nodes s p)) \<le> unat (kernel_heap_vaddr s)"
proof -
  have "(p, al_size (nodes s p)) \<in> set (free_list (nodes s) xs)"
    using assms(2) by (simp add: free_list_def)
  from ordered_block_bounds [OF heap_invD(2) [OF assms(1)] this]
  show "unat (kmalloc_head s) + 24 \<le> unat p"
    "unat p + 24 + unat (al_size (nodes s p)) \<le> unat (kernel_heap_vaddr s)" by auto
qed

lemma unat_round_bytes:
  assumes "unat bytes < 2 ^ 61"
  shows "unat (round_bytes bytes) = (unat bytes + 7) div 8 * 8" "unat bytes \<le> unat (round_bytes bytes)"
    "unat (round_bytes bytes) < 2 ^ 61 + 8"
proof -
  have b7: "unat (bytes + 7) = unat bytes + 7" using unat_add_of_nat [of bytes 7] assms by simp
  have lt: "(unat bytes + 7) div 8 * 8 < 2 ^ 61 + 8" using assms by (simp add: div_times_less_eq_dividend le_less_trans)
  show u: "unat (round_bytes bytes) = (unat bytes + 7) div 8 * 8"
    unfolding round_bytes_def using lt b7 by (simp add: unat_word_ariths unat_div)
  show "unat bytes \<le> unat (round_bytes bytes)" unfolding u by linarith
  show "unat (round_bytes bytes) < 2 ^ 61 + 8" unfolding u by (rule lt)
qed

text \<open>Taking a node of the list: the block is carved out of the bytes the list covered.\<close>

lemma take_node_inv:
  assumes inv: "heap_inv s (us @ p # vs)" and fit: "unat bytes \<le> unat (al_size (nodes s p))"
    and b: "unat bytes < 2 ^ 62"
  defines "s' \<equiv> s\<lparr>nodes := take_node (nodes s) p bytes\<rparr>"
  shows "\<exists>xs'. heap_inv s' xs' \<and>
    cover (free_list (nodes s) (us @ p # vs)) =
      cover (free_list (nodes s') xs') \<union> block (p, al_size (nodes s' p)) \<and>
    cover (free_list (nodes s') xs') \<inter> block (p, al_size (nodes s' p)) = {} \<and>
    unat bytes \<le> unat (al_size (nodes s' p)) \<and> unat (al_size (nodes s' p)) < unat bytes + 24"
proof -
  let ?n = "nodes s" and ?n' = "take_node (nodes s) p bytes" and ?S = "al_size (nodes s p)"
  note d = heap_invD(1) [OF inv] and o = heap_invD(2) [OF inv]
  have hi: "unat p + 24 + unat ?S < 2 ^ 62"
    using heap_inv_node(2) [OF inv, of p] heap_invD(3) [OF inv] by simp
  have b24: "unat (bytes + 24) = unat bytes + 24" using unat_add_of_nat [of bytes 24] b by simp
  show ?thesis
  proof (cases "?S \<ge> bytes + 24")
    case True
    then have fit': "unat bytes + 24 \<le> unat ?S" using b24 by (simp add: word_le_nat_alt)
    define q where "q = p + 24 + bytes"
    have "unat (p + 24) = unat p + 24" using unat_add_of_nat [of p 24] hi by simp
    then have uq: "unat q = unat p + 24 + unat bytes"
      using hi fit' by (simp add: q_def unat_word_ariths)
    have ut: "unat (?S - bytes - 24) = unat ?S - unat bytes - 24"
      using fit' by (simp add: unat_sub word_le_nat_alt)
    have "\<not> (unat q \<in> block (x, al_size (?n x)))" if "x \<in> set (us @ vs)" for x
    proof -
      have "block (x, al_size (?n x)) \<subseteq> cover (free_list ?n (us @ vs))"
        using that by (auto simp: cover_def free_list_def)
      moreover have "unat q \<in> block (p, ?S)" using uq fit' by (simp add: block_def)
      ultimately show ?thesis using cover_take(2) [of _ _ "free_list ?n us" p ?S "free_list ?n vs"] o by auto
    qed
    from this [of q] have "q \<notin> set (us @ vs)" by (auto simp: block_def)
    moreover have "q \<noteq> p" "q \<noteq> kmalloc_head s" using uq heap_inv_node(1) [OF inv, of p] by auto
    ultimately have q: "q \<notin> set (kmalloc_head s # us @ p # vs)" by auto
    note t = take_node_split [OF d True q_def q]
    have fl: "free_list ?n' (us @ q # vs) = free_list ?n us @ (q, ?S - bytes - 24) # free_list ?n vs"
      using d q by (auto simp: t(2) dll_def free_list_def)
    have o': "ordered (unat (kmalloc_head s) + 24) (unat (kernel_heap_vaddr s))
        (free_list ?n us @ (p, ?S) # free_list ?n vs)" using o by simp
    note c = cover_split [OF o' uq ut fit']
    have "heap_inv s' (us @ q # vs)"
      using inv t(1) c(3) q unfolding heap_inv_def s'_def
      by (simp add: fl t(2) dll_def del: free_list_simps)
    moreover have "al_size (?n' p) = bytes" by (simp add: t(2))
    ultimately show ?thesis
      using c(1,2) by (intro exI [of _ "us @ q # vs"]) (simp add: s'_def fl free_list_simps(2,3) [of ?n] del: free_list_simps)
  next
    case False
    note t = take_node_whole [OF d False]
    have fl: "free_list ?n' xs = free_list ?n xs" for xs by (simp add: free_list_def t(2))
    have o': "ordered (unat (kmalloc_head s) + 24) (unat (kernel_heap_vaddr s))
        (free_list ?n us @ (p, ?S) # free_list ?n vs)" using o by simp
    note c = cover_take [OF o']
    have "heap_inv s' (us @ vs)"
      using inv t(1) c(3) unfolding heap_inv_def s'_def by (simp add: fl t(2))
    moreover have "unat ?S < unat bytes + 24" using False b24 by (simp add: word_le_nat_alt)
    ultimately show ?thesis
      using c(1,2) fit by (intro exI [of _ "us @ vs"]) (simp add: s'_def fl t(2))
  qed
qed

subsection \<open>Allocation from the free list\<close>

lemma dropWhile_first:
  assumes "\<exists>x \<in> set xs. \<not> P x"
  obtains us p vs where "xs = us @ p # vs" "\<forall>x \<in> set us. P x" "\<not> P p" "hd (dropWhile P xs @ zs) = p"
proof -
  obtain us p vs where "xs = us @ p # vs" "\<forall>x \<in> set us. P x" "\<not> P p"
    using split_list_first_prop [of xs "\<lambda>x. \<not> P x"] assms by auto
  then show ?thesis by (intro that [of us p vs]) (simp_all add: dropWhile_append2)
qed

lemma kmalloc_fits:
  assumes inv: "heap_inv s xs" and b: "unat bytes < 2 ^ 61"
    and fits: "\<exists>p \<in> set xs. unat (round_bytes bytes) \<le> unat (al_size (nodes s p))"
  obtains us p vs s' xs' where "xs = us @ p # vs"
    "\<forall>x \<in> set us. unat (al_size (nodes s x)) < unat (round_bytes bytes)"
    "kmalloc hs s bytes = Some (s', p + 24)" "heap_inv s' xs'"
    "kmalloc_head s' = kmalloc_head s" "kernel_heap_vaddr s' = kernel_heap_vaddr s"
    "cover (free_list (nodes s) xs) = cover (free_list (nodes s') xs') \<union> block (p, al_size (nodes s' p))"
    "cover (free_list (nodes s') xs') \<inter> block (p, al_size (nodes s' p)) = {}"
    "unat bytes \<le> unat (al_size (nodes s' p))"
    "unat (al_size (nodes s' p)) < unat (round_bytes bytes) + 24"
proof -
  let ?B = "round_bytes bytes" and ?h = "kmalloc_head s"
  let ?P = "\<lambda>p. al_size (nodes s p) < ?B"
  have "\<exists>x \<in> set xs. \<not> ?P x" using fits unfolding word_less_nat_alt not_less .
  then obtain us p vs where xs: "xs = us @ p # vs" "\<forall>x \<in> set us. ?P x" "\<not> ?P p"
    "hd (dropWhile ?P xs @ [?h]) = p" using dropWhile_first [of xs ?P "[?h]"] by metis
  note d = heap_invD(1) [OF inv]
  have "first_fit_from (nodes s) ?h ?B (al_next (nodes s ?h)) = Some p"
    using first_fit_list [of "nodes s" ?h "[]" xs ?B] d xs(4) dll_head(1) [OF d] by simp
  moreover have "p \<noteq> ?h" using d xs(1) by (auto simp: dll_def)
  ultimately have km: "kmalloc hs s bytes = Some (s\<lparr>nodes := take_node (nodes s) p ?B\<rparr>, p + 24)"
    by (simp add: kmalloc_def common_alloc_def Let_def)
  have fit: "unat ?B \<le> unat (al_size (nodes s p))" using xs(3) by (simp add: word_less_nat_alt)
  have B: "unat ?B < 2 ^ 62" "unat bytes \<le> unat ?B" using unat_round_bytes [OF b] by auto
  obtain xs' where xs': "heap_inv (s\<lparr>nodes := take_node (nodes s) p ?B\<rparr>) xs'"
    "cover (free_list (nodes s) xs) = cover (free_list (take_node (nodes s) p ?B) xs') \<union>
       block (p, al_size (take_node (nodes s) p ?B p))"
    "cover (free_list (take_node (nodes s) p ?B) xs') \<inter> block (p, al_size (take_node (nodes s) p ?B p)) = {}"
    "unat ?B \<le> unat (al_size (take_node (nodes s) p ?B p))"
    "unat (al_size (take_node (nodes s) p ?B p)) < unat ?B + 24"
    using take_node_inv [OF inv [unfolded xs(1)] fit B(1)] xs(1) by auto
  show ?thesis
    by (rule that [OF xs(1) _ km xs'(1)]) (use xs xs' B in \<open>auto simp: word_less_nat_alt\<close>)
qed

text \<open>
  C35: when some free node is large enough, \<open>kmalloc\<close> returns, takes the first such node, and
  hands out a block of at least the bytes asked for that lies in the bytes the free list covered
  and outside those it covers afterwards; nothing else becomes free or unfree, and the free list
  stays well formed.
\<close>

theorem kmalloc_correct:
  assumes "heap_inv s xs" and "unat bytes < 2 ^ 61"
    and "\<exists>p \<in> set xs. unat (round_bytes bytes) \<le> unat (al_size (nodes s p))"
  shows "\<exists>p s' xs'. kmalloc hs s bytes = Some (s', p + 24) \<and> p \<in> set xs \<and> heap_inv s' xs' \<and>
    unat bytes \<le> unat (al_size (nodes s' p)) \<and>
    cover (free_list (nodes s) xs) = cover (free_list (nodes s') xs') \<union> block (p, al_size (nodes s' p)) \<and>
    cover (free_list (nodes s') xs') \<inter> block (p, al_size (nodes s' p)) = {} \<and>
    (\<forall>x \<in> set (takeWhile (\<lambda>x. x \<noteq> p) xs). unat (al_size (nodes s x)) < unat (round_bytes bytes))"
proof -
  obtain us p vs s' xs' where r: "xs = us @ p # vs"
    "\<forall>x \<in> set us. unat (al_size (nodes s x)) < unat (round_bytes bytes)"
    "kmalloc hs s bytes = Some (s', p + 24)" "heap_inv s' xs'"
    "cover (free_list (nodes s) xs) = cover (free_list (nodes s') xs') \<union> block (p, al_size (nodes s' p))"
    "cover (free_list (nodes s') xs') \<inter> block (p, al_size (nodes s' p)) = {}"
    "unat bytes \<le> unat (al_size (nodes s' p))"
    using kmalloc_fits [OF assms] .
  have "takeWhile (\<lambda>x. x \<noteq> p) xs = us"
    using heap_invD(1) [OF assms(1)] r(1)
    by (subst r(1), subst takeWhile_append2) (auto simp: dll_def)
  then show ?thesis using r by (intro exI [of _ p] exI [of _ s'] exI [of _ xs']) auto
qed

lemma first_fit_none:
  assumes "dll n h xs" and "\<forall>p \<in> set xs. al_size (n p) < bytes"
  shows "first_fit_from n h bytes (al_next (n h)) = Some h"
  using first_fit_list [of n h "[]" xs bytes] dll_head(1) [OF assms(1)] assms
  by (simp add: dropWhile_eq_Nil_conv [THEN iffD2])

text \<open>
  When no free node is large enough and the page allocator has no run of pages for the
  request, \<open>kmalloc\<close> returns NULL and leaves the heap exactly as it was.
\<close>

theorem kmalloc_null:
  assumes "heap_inv s xs" and "heap_ok hs"
    and "\<forall>p \<in> set xs. al_size (nodes s p) < round_bytes bytes"
    and "snd (page_znalloc hs (phys s) (pages_to_alloc (round_bytes bytes))) = NULL"
  shows "kmalloc hs s bytes = Some (s, NULL)"
proof -
  have "page_znalloc hs (phys s) (pages_to_alloc (round_bytes bytes)) = (phys s, NULL)"
    using znalloc_null(2) [OF assms(2,4)] assms(4) by (metis prod.collapse)
  then have "heap_grow hs s (round_bytes bytes) = Some (s, None)"
    by (simp add: heap_grow_def Let_def)
  then show ?thesis
    using first_fit_none [OF heap_invD(1) [OF assms(1)] assms(3)]
    by (simp add: kmalloc_def common_alloc_def Let_def)
qed

subsection \<open>Freeing\<close>

lemma ordered_insert:
  assumes "ordered lo hi ps" and "block (q, t) \<inter> cover ps = {}" and "lo \<le> unat q"
    and "unat q + 24 + unat t \<le> hi"
  shows "ordered lo hi (takeWhile (\<lambda>b. fst b < q) ps @ (q, t) # dropWhile (\<lambda>b. fst b < q) ps)"
  using assms
proof (induction lo hi ps rule: ordered.induct)
  case (2 lo hi a s ps)
  have q_in: "unat q \<in> block (q, t)" and a_in: "unat a \<in> block (a, s)" by (auto simp: block_def)
  show ?case
  proof (cases "a < q")
    case True
    then have "unat a < unat q" by (simp add: word_less_nat_alt)
    moreover have "unat q \<notin> block (a, s)" using 2(3) q_in by auto
    ultimately have "unat a + 24 + unat s \<le> unat q" by (simp add: block_def)
    then show ?thesis using 2 True by auto
  next
    case False
    then have "unat q \<le> unat a" by (simp add: word_less_nat_alt)
    moreover have "unat a \<notin> block (q, t)" using 2(3) a_in by auto
    ultimately have "unat q + 24 + unat t \<le> unat a" by (simp add: block_def)
    then show ?thesis using 2 False by auto
  qed
qed auto

lemma free_list_while:
  "takeWhile (\<lambda>b. fst b < q) (free_list n xs) = free_list n (takeWhile (\<lambda>x. x < q) xs)"
  "dropWhile (\<lambda>b. fst b < q) (free_list n xs) = free_list n (dropWhile (\<lambda>x. x < q) xs)"
  by (induction xs) auto

text \<open>Linking a block back in, before coalescing.\<close>

lemma kfree_insert:
  assumes inv: "heap_inv s xs" and out: "block (q, al_size (nodes s q)) \<inter> cover (free_list (nodes s) xs) = {}"
    and lo: "unat (kmalloc_head s) + 24 \<le> unat q"
    and hi: "unat q + 24 + unat (al_size (nodes s q)) \<le> unat (kernel_heap_vaddr s)"
  obtains p xs' where
    "free_position (nodes s) (kmalloc_head s) q (kmalloc_head s) = Some p"
    "heap_inv (s\<lparr>nodes := allocation_dll_insert (nodes s) p q\<rparr>) xs'"
    "cover (free_list (allocation_dll_insert (nodes s) p q) xs') =
       cover (free_list (nodes s) xs) \<union> block (q, al_size (nodes s q))"
proof -
  let ?n = "nodes s" and ?h = "kmalloc_head s"
  let ?us = "takeWhile (\<lambda>x. x < q) xs" and ?vs = "dropWhile (\<lambda>x. x < q) xs"
  define p where "p = last (?h # ?us)"
  note d = heap_invD(1) [OF inv]
  have fp: "free_position ?n ?h q ?h = Some p"
    using free_position_list [of ?n ?h "[]" xs q] d by (simp add: p_def)
  have "q \<noteq> ?h" using lo by auto
  moreover have "q \<notin> set xs"
  proof
    assume "q \<in> set xs"
    then have "block (q, al_size (?n q)) \<subseteq> cover (free_list ?n xs)"
      by (auto simp: cover_def free_list_def)
    moreover have "unat q \<in> block (q, al_size (?n q))" by (simp add: block_def)
    ultimately show False using out by blast
  qed
  ultimately have q: "q \<notin> set (?h # ?us @ ?vs)" by simp
  have ins: "dll (allocation_dll_insert ?n p q) ?h (?us @ q # ?vs)"
    unfolding p_def using dll_insert [OF _ q] d by simp
  have "p \<in> set (?h # ?us)" unfolding p_def by (rule last_in_set) simp
  then have pq: "p \<noteq> q" using q by (auto dest: set_takeWhileD)
  have fl: "free_list (allocation_dll_insert ?n p q) ys = free_list ?n ys" for ys
    by (simp add: free_list_def insert_fields(3) [OF pq])
  have "ordered (unat ?h + 24) (unat (kernel_heap_vaddr s)) (free_list ?n (?us @ q # ?vs))"
    using ordered_insert [OF heap_invD(2) [OF inv] out lo hi] by (simp add: free_list_while)
  then have "heap_inv (s\<lparr>nodes := allocation_dll_insert ?n p q\<rparr>) (?us @ q # ?vs)"
    using inv ins unfolding heap_inv_def by (simp add: fl insert_fields(3) [OF pq] del: free_list_simps)
  moreover have "cover (free_list ?n (?us @ q # ?vs)) = cover (free_list ?n xs) \<union> block (q, al_size (?n q))"
    using takeWhile_dropWhile_id [of "\<lambda>x. x < q" xs] free_list_simps(3) [of ?n ?us ?vs] by auto
  ultimately show ?thesis using that [OF fp, of "?us @ q # ?vs"] unfolding fl by blast
qed

lemma coalesce_inv:
  assumes inv: "heap_inv s xs"
  obtains n' ys where "coalesce_free_list s = Some (s\<lparr>nodes := n'\<rparr>)" "heap_inv (s\<lparr>nodes := n'\<rparr>) ys"
    "cover (free_list n' ys) = cover (free_list (nodes s) xs)" "no_touch (free_list n' ys)"
    "\<And>x. x \<notin> set xs \<Longrightarrow> al_size (n' x) = al_size (nodes s x)"
proof -
  let ?n = "nodes s" and ?h = "kmalloc_head s"
  note d = heap_invD(1) [OF inv]
  have hi: "unat (kernel_heap_vaddr s) < 2 ^ 63" using heap_invD(3) [OF inv] by simp
  have "x + (al_size (?n x) + 24) \<noteq> ?h" if "x \<in> set xs" for x
    using heap_inv_node [OF inv that] unat_block_end(1) [of x "al_size (?n x)"] hi by auto
  then obtain n' ys where c: "coalesce_from ?n ?h (hd (xs @ [?h])) = Some n'" "dll n' ?h ys"
    "free_list n' ys = coalesce_list (free_list ?n xs)" "\<forall>x. x \<notin> set xs \<longrightarrow> al_size (n' x) = al_size (?n x)"
    using coalesce_from_list [of ?n ?h "[]" xs] d by auto
  have "coalesce_free_list s = Some (s\<lparr>nodes := n'\<rparr>)"
    using c(1) dll_head(1) [OF d] by (simp add: coalesce_free_list_def)
  moreover have "?h \<notin> set xs" using d by (simp add: dll_def)
  then have "heap_inv (s\<lparr>nodes := n'\<rparr>) ys"
    using inv c coalesce_cover [OF heap_invD(2) [OF inv] hi] unfolding heap_inv_def by simp
  ultimately show ?thesis
    using that c coalesce_cover [OF heap_invD(2) [OF inv] hi] no_touch_coalesce by metis
qed

text \<open>Whether the last free node reaches the end of the heap with a page to give back.\<close>

definition shrinkable :: "kheap \<Rightarrow> bool" where
  "shrinkable s =
     (let l = al_prev (nodes s (kmalloc_head s)) in
      (l + 24) + al_size (nodes s l) = kernel_heap_vaddr s \<and> al_size (nodes s l) \<ge> 4096)"

lemma heap_shrink_none: "\<not> shrinkable s \<Longrightarrow> heap_shrink hs s = Some s"
  unfolding heap_shrink_def shrinkable_def Let_def by (subst heap_shrink_loop.simps) auto

lemma not_shrinkable:
  assumes inv: "heap_inv s xs" and "unat (kernel_heap_vaddr s) - 1 \<notin> cover (free_list (nodes s) xs)"
  shows "\<not> shrinkable s"
proof (cases xs rule: rev_cases)
  case Nil
  then have "al_prev (nodes s (kmalloc_head s)) = kmalloc_head s"
    using dll_head(2) [OF heap_invD(1) [OF inv]] by simp
  then show ?thesis using heap_invD(5) [OF inv] by (simp add: shrinkable_def Let_def)
next
  case (snoc us l)
  then have l: "al_prev (nodes s (kmalloc_head s)) = l" "l \<in> set xs"
    using dll_head(2) [OF heap_invD(1) [OF inv]] by auto
  let ?z = "al_size (nodes s l)"
  have "unat l + 24 + unat ?z < 2 ^ 63"
    using heap_inv_node(2) [OF inv l(2)] heap_invD(3) [OF inv] by simp
  then have "unat (l + 24 + ?z) = unat l + 24 + unat ?z"
    using unat_block_end(1) [of l ?z] by (simp add: add.assoc add.commute [of 24])
  moreover have "unat l + 24 + unat ?z - 1 \<in> cover (free_list (nodes s) xs)"
    using snoc by (auto simp: block_def)
  ultimately show ?thesis using assms(2) l(1) unfolding shrinkable_def Let_def by metis
qed

lemma kfree_steps:
  assumes "heap_inv s xs" and "block (q, al_size (nodes s q)) \<inter> cover (free_list (nodes s) xs) = {}"
    and "unat (kmalloc_head s) + 24 \<le> unat q"
    and "unat q + 24 + unat (al_size (nodes s q)) \<le> unat (kernel_heap_vaddr s)"
  obtains s2 ys where "kfree hs s (q + 24) = heap_shrink hs s2" "heap_inv s2 ys"
    "cover (free_list (nodes s2) ys) = cover (free_list (nodes s) xs) \<union> block (q, al_size (nodes s q))"
    "no_touch (free_list (nodes s2) ys)" "kernel_heap_vaddr s2 = kernel_heap_vaddr s"
    "kmalloc_head s2 = kmalloc_head s"
proof -
  obtain p xs' where i: "free_position (nodes s) (kmalloc_head s) q (kmalloc_head s) = Some p"
    "heap_inv (s\<lparr>nodes := allocation_dll_insert (nodes s) p q\<rparr>) xs'"
    "cover (free_list (allocation_dll_insert (nodes s) p q) xs') =
       cover (free_list (nodes s) xs) \<union> block (q, al_size (nodes s q))"
    using kfree_insert [OF assms] .
  define s1 where "s1 = s\<lparr>nodes := allocation_dll_insert (nodes s) p q,
    number_of_frees := number_of_frees s + 1\<rparr>"
  have "heap_inv s1 xs'" using i(2) by (simp add: s1_def heap_inv_def)
  then obtain n' ys where c: "coalesce_free_list s1 = Some (s1\<lparr>nodes := n'\<rparr>)"
    "heap_inv (s1\<lparr>nodes := n'\<rparr>) ys" "cover (free_list n' ys) = cover (free_list (nodes s1) xs')"
    "no_touch (free_list n' ys)" by (rule coalesce_inv)
  have "q + 24 \<noteq> 0"
  proof
    assume "q + 24 = 0"
    then have "unat (q + 24) = 0" by simp
    moreover have "unat (q + 24) = unat q + 24"
      using unat_add_of_nat [of q 24] assms(4) heap_invD(3) [OF assms(1)] by simp
    ultimately show False by simp
  qed
  then have "kfree hs s (q + 24) = heap_shrink hs (s1\<lparr>nodes := n'\<rparr>)"
    using i(1) c(1) by (simp add: kfree_def Let_def s1_def)
  then show ?thesis using that [of "s1\<lparr>nodes := n'\<rparr>" ys] c i(3) by (simp add: s1_def)
qed



section \<open>A concrete heap\<close>

text \<open>
  One page at \<open>0x120000000\<close>: the head node, a free node of 100 bytes and one of 1000, with the
  rest of the page handed out.
\<close>

definition demo_nodes :: store where
  "demo_nodes = (\<lambda>_. \<lparr>al_size = 0, al_prev = 0, al_next = 0\<rparr>)
     (0x120000000 := \<lparr>al_size = 0, al_prev = 0x120000400, al_next = 0x120000018\<rparr>,
      0x120000018 := \<lparr>al_size = 100, al_prev = 0x120000000, al_next = 0x120000400\<rparr>,
      0x120000400 := \<lparr>al_size = 1000, al_prev = 0x120000018, al_next = 0x120000000\<rparr>,
      0x120000200 := \<lparr>al_size = 40, al_prev = 0, al_next = 0\<rparr>)"

definition demo_kheap :: kheap where
  "demo_kheap = \<lparr>nodes = demo_nodes, kmalloc_head = 0x120000000, kernel_heap_vaddr = 0x120001000,
     heap_bytes = (\<lambda>_. 0), phys = demo_mem, kernel_mmu_table = 0, number_of_frees = 0\<rparr>"

lemma demo_kheap_inv: "heap_inv demo_kheap [0x120000018, 0x120000400]"
  by (simp add: heap_inv_def demo_kheap_def demo_nodes_def dll_def)

lemma demo_kheap_fits:
  "\<exists>p \<in> set [0x120000018, 0x120000400]. unat (round_bytes 500) \<le> unat (al_size (nodes demo_kheap p))"
  by (simp add: round_bytes_def demo_kheap_def demo_nodes_def)

lemma demo_kheap_last:
  "unat (kernel_heap_vaddr demo_kheap) - 1 \<notin> cover (free_list (nodes demo_kheap) [0x120000018, 0x120000400])"
  by (simp add: demo_kheap_def demo_nodes_def block_def)

theorem kmalloc_correct_witness:
  "\<exists>p s'. kmalloc demo_heap demo_kheap 500 = Some (s', p + 24) \<and> 500 \<le> unat (al_size (nodes s' p))"
  using kmalloc_correct [OF demo_kheap_inv _ demo_kheap_fits, of demo_heap] by auto



theorem kmalloc_null_witness:
  "kmalloc demo_heap demo_kheap 100000 = Some (demo_kheap, NULL)"
proof (rule kmalloc_null [OF demo_kheap_inv demo_heap_ok])
  show "\<forall>p \<in> set [0x120000018, 0x120000400]. al_size (nodes demo_kheap p) < round_bytes 100000"
    by (simp add: round_bytes_def demo_kheap_def demo_nodes_def)
  have "pages_to_alloc (round_bytes 100000) = 25" by (simp add: pages_to_alloc_def round_bytes_def)
  moreover have "znalloc_search demo_heap demo_mem 25 0 = None"
    by (simp add: znalloc_search_None_iff run_free_def demo_sizes)
  ultimately show "snd (page_znalloc demo_heap (phys demo_kheap) (pages_to_alloc (round_bytes 100000))) = NULL"
    using znalloc_null(1) [OF demo_heap_ok] by (simp add: demo_kheap_def)
qed

end
