(* ===== verification/Process.thy ===== *)
theory Process
  imports Kmalloc
begin

text \<open>
  Processes, from \<^verbatim>\<open>src/process.c\<close>: the process structure and its saved registers, the trap
  stacks, creating a process with its page table, loading the idle code, freeing and spawning.
  Process structures are records; their addresses and the memory of page tables, stacks and
  images come from the kernel heap and page allocator models. The addresses of the assembly
  routines are a parameter, and so are the answers of the firmware: which hart runs this code,
  the state of another hart, and the clock.
\<close>

section \<open>Data\<close>

datatype process_state = PS_DEAD | PS_UNINIT | PS_RUNNING | PS_SLEEPING | PS_WAITING | PS_ASYNC_FREE

datatype process_priv = PS_PRIV_UNKNOWN | PS_PRIV_USER | PS_PRIV_SUPERVISOR | PS_PRIV_MACHINE

datatype hart_status = HS_STOPPED | HS_STARTING | HS_STARTED | HS_STOPPING | HS_INVALID

record process_frame =
  gpregs :: "u64 list"
  fpregs :: "u64 list"
  f_sepc :: u64
  f_sstatus :: u64
  f_sie :: u64
  f_satp :: u64
  f_sscratch :: u64
  f_stvec :: u64
  f_trap_satp :: u64
  f_trap_stack :: u64

record process =
  frame :: process_frame
  pstate :: process_state
  sleep_until :: u64
  quantum :: u16
  pid :: u16
  image :: u64
  num_image_pages :: u64
  stack :: u64
  num_stack_pages :: u64
  pheap :: u64
  num_heap_pages :: u64
  ptable :: u64
  privilege_mode :: process_priv
  on_hart :: int
  vruntime :: u64

record spawn_syms =
  spawn_thread_start :: u64
  spawn_thread_end :: u64
  spawn_trap_start :: u64
  spawn_trap_end :: u64
  idle_code_start :: u64
  idle_code_end :: u64

record sbi_env =
  who_am_i :: int
  hart_status_of :: "int \<Rightarrow> hart_status"
  clint_time :: u64

abbreviation (input) MAX_SUPPORTED_HARTS :: nat where "MAX_SUPPORTED_HARTS \<equiv> 8"
abbreviation (input) PROCESS_DEFAULT_STACK_POINTER :: u64 where "PROCESS_DEFAULT_STACK_POINTER \<equiv> 0x1defa0000"
abbreviation (input) PROCESS_DEFAULT_CONTEXT_TIMER :: nat where "PROCESS_DEFAULT_CONTEXT_TIMER \<equiv> 10000"
abbreviation (input) SIZEOF_PROCESS :: u64 where "SIZEOF_PROCESS \<equiv> 664"
abbreviation (input) SIZEOF_PROCESS_FRAME :: u64 where "SIZEOF_PROCESS_FRAME \<equiv> 576"

text \<open>What \<open>kcalloc\<close> leaves in a process structure: every field zero.\<close>

definition zero_frame :: process_frame where
  "zero_frame = \<lparr>gpregs = replicate 32 0, fpregs = replicate 32 0, f_sepc = 0, f_sstatus = 0, f_sie = 0,
     f_satp = 0, f_sscratch = 0, f_stvec = 0, f_trap_satp = 0, f_trap_stack = 0\<rparr>"

definition zero_process :: process where
  "zero_process = \<lparr>frame = zero_frame, pstate = PS_DEAD, sleep_until = 0, quantum = 0, pid = 0, image = 0,
     num_image_pages = 0, stack = 0, num_stack_pages = 0, pheap = 0, num_heap_pages = 0, ptable = 0,
     privilege_mode = PS_PRIV_UNKNOWN, on_hart = 0, vruntime = 0\<rparr>"

text \<open>\<open>SATP_MODE_ON | ASID_TO_SATP(asid) | PPN_TO_SATP(table)\<close>\<close>

definition make_satp :: "u64 \<Rightarrow> u64 \<Rightarrow> u64" where
  "make_satp asid table =
     push_bit 60 8 OR push_bit 44 (asid AND 0xFFFF) OR (drop_bit 12 table AND 0xFFFFFFFFFFF)"

definition page_down :: "u64 \<Rightarrow> u64" where
  "page_down a = (a div 4096) * 4096"

definition page_up :: "u64 \<Rightarrow> u64" where
  "page_up a = ((a + 4096 - 1) div 4096) * 4096"

section \<open>Operations\<close>

fun init_trap_stacks_from :: "heap_syms \<Rightarrow> mem \<Rightarrow> nat \<Rightarrow> mem \<times> u64 list" where
  "init_trap_stacks_from hs m 0 = (m, [])"
| "init_trap_stacks_from hs m (Suc k) =
     (let (m1, a) = page_zalloc hs m; (m2, as) = init_trap_stacks_from hs m1 k in (m2, a # as))"

definition process_init_trap_stacks :: "heap_syms \<Rightarrow> mem \<Rightarrow> mem \<times> u64 list" where
  "process_init_trap_stacks hs m = init_trap_stacks_from hs m MAX_SUPPORTED_HARTS"

text \<open>
  The mappings of the trampoline pages and of the process frame in the new table: none has the
  user bit.
\<close>

definition map_trampoline :: "heap_syms \<Rightarrow> spawn_syms \<Rightarrow> mem \<Rightarrow> u64 \<Rightarrow> u64 \<Rightarrow> u64 \<Rightarrow> mem option" where
  "map_trampoline hs sy m kernel_table table process_frame =
     (let pa_tds = page_down (spawn_thread_start sy);
          pa_tps = page_down (spawn_trap_start sy);
          pa_tde = page_up (spawn_thread_end sy);
          pa_tpe = page_up (spawn_trap_end sy)
      in case mmu_map_multiple hs m table pa_tds (mmu_translate m kernel_table (spawn_thread_start sy))
                (pa_tde - pa_tds) 8 of
           None \<Rightarrow> None
         | Some m1 \<Rightarrow>
      case mmu_map_multiple hs m1 table pa_tps (mmu_translate m1 kernel_table (spawn_trap_start sy))
                (pa_tpe - pa_tps) 8 of
           None \<Rightarrow> None
         | Some m2 \<Rightarrow>
      mmu_map_multiple hs m2 table process_frame (mmu_translate m2 kernel_table process_frame)
                (((SIZEOF_PROCESS_FRAME + 4096 - 1) div 4096) * 4096) 6)"

text \<open>\<open>PROCESS_UNDEFINED_PID\<close> is \<open>0xfffe - MAX_SUPPORTED_HARTS\<close>; \<open>KERNEL_ASID\<close> is \<open>0xffff\<close>.\<close>

definition init_frame :: "spawn_syms \<Rightarrow> u64 \<Rightarrow> u64 \<Rightarrow> u64 \<Rightarrow> u64 \<Rightarrow> process_frame" where
  "init_frame sy process_frame kernel_table table sstatus_set =
     zero_frame\<lparr>gpregs := (gpregs zero_frame)[2 := PROCESS_DEFAULT_STACK_POINTER + 1 * 4096],
       f_sie := 2 OR 0x20 OR 0x200, f_sscratch := process_frame, f_stvec := spawn_trap_start sy,
       f_trap_satp := make_satp 0xffff kernel_table, f_satp := make_satp (0xfffe - 8) table,
       f_sstatus := sstatus_set\<rparr>"

definition process_init_new ::
    "heap_syms \<Rightarrow> spawn_syms \<Rightarrow> kheap \<Rightarrow> process_priv \<Rightarrow> (kheap \<times> u64 \<times> process) option" where
  "process_init_new hs sy s mode0 =
     (case kcalloc hs s SIZEOF_PROCESS of
        None \<Rightarrow> None
      | Some (s1, p) \<Rightarrow>
          (let (m1, table) = page_zalloc hs (phys s1);
               (m2, stk) = page_zalloc hs m1;
               process_frame = p
           in case map_trampoline hs sy m2 (kernel_mmu_table s1) table process_frame of
                None \<Rightarrow> None
              | Some m3 \<Rightarrow>
                  (let mode = (if mode0 = PS_PRIV_USER \<or> mode0 = PS_PRIV_SUPERVISOR then mode0 else PS_PRIV_USER);
                       sstatus_set = 0x20 OR (if mode = PS_PRIV_USER then 0 else 0x100);
                       mmu_priv_bits = (4 OR 2 OR (if mode = PS_PRIV_USER then 0x10 else 0))
                   in case mmu_map_multiple hs m3 table PROCESS_DEFAULT_STACK_POINTER stk (1 * 4096) mmu_priv_bits of
                        None \<Rightarrow> None
                      | Some m4 \<Rightarrow>
                          Some (s1\<lparr>phys := m4\<rparr>, p,
                            zero_process\<lparr>
                              frame := init_frame sy process_frame (kernel_mmu_table s1) table sstatus_set,
                              pstate := PS_UNINIT, ptable := table, stack := stk, num_stack_pages := 1,
                              quantum := 100, on_hart := - 1, vruntime := 0, pid := 0xfffe - 8,
                              privilege_mode := mode\<rparr>))))"

text \<open>
  \<open>process_free\<close>: the pages that are present, then the structure. A process still on a hart is
  only marked. The result tells whether the structure was freed.
\<close>

definition free_present :: "heap_syms \<Rightarrow> mem \<Rightarrow> u64 \<Rightarrow> mem option" where
  "free_present hs m a = (if a \<noteq> NULL then page_free hs m a else Some m)"

definition process_free :: "heap_syms \<Rightarrow> kheap \<Rightarrow> u64 \<Rightarrow> process \<Rightarrow> (kheap \<times> process \<times> bool) option" where
  "process_free hs s p pr =
     (if p = NULL then Some (s, pr, False)
      else if on_hart pr \<noteq> - 1 then Some (s, pr\<lparr>pstate := PS_ASYNC_FREE\<rparr>, False)
      else
        case free_present hs (phys s) (image pr) of None \<Rightarrow> None | Some m1 \<Rightarrow>
        case free_present hs m1 (stack pr) of None \<Rightarrow> None | Some m2 \<Rightarrow>
        case free_present hs m2 (pheap pr) of None \<Rightarrow> None | Some m3 \<Rightarrow>
        case free_present hs m3 (ptable pr) of None \<Rightarrow> None | Some m4 \<Rightarrow>
        case kfree hs (s\<lparr>phys := m4\<rparr>) p of None \<Rightarrow> None | Some s' \<Rightarrow> Some (s', pr, True))"

text \<open>
  What \<open>process_spawn\<close> asks of the machine: a timer, and either entering the process on this
  hart through \<open>sscratch\<close> or starting another hart with the physical address of the frame.
\<close>

datatype hart_action =
  Add_Timer int nat
| Enter_Thread u64
| Hart_Start int u64 u64

definition spawn_process :: "process \<Rightarrow> int \<Rightarrow> u64 \<Rightarrow> process" where
  "spawn_process pr target_hart trap_stk =
     pr\<lparr>on_hart := target_hart, frame := (frame pr)\<lparr>f_trap_stack := trap_stk\<rparr>,
        vruntime := vruntime pr + of_nat (unat (quantum pr) * PROCESS_DEFAULT_CONTEXT_TIMER)\<rparr>"

definition spawn_refused :: "sbi_env \<Rightarrow> int \<Rightarrow> bool" where
  "spawn_refused env target_hart \<longleftrightarrow>
     who_am_i env \<noteq> target_hart \<and> hart_status_of env target_hart = HS_INVALID"

definition spawn_actions :: "spawn_syms \<Rightarrow> sbi_env \<Rightarrow> kheap \<Rightarrow> process \<Rightarrow> int \<Rightarrow> hart_action list" where
  "spawn_actions sy env s pr target_hart =
     [Add_Timer target_hart (unat (quantum pr) * PROCESS_DEFAULT_CONTEXT_TIMER),
      if who_am_i env = target_hart then Enter_Thread (f_sscratch (frame pr))
      else Hart_Start target_hart (spawn_thread_start sy)
             (mmu_translate (phys s) (kernel_mmu_table s) (f_sscratch (frame pr)))]"

text \<open>
  \<open>load_idle_process\<close>: the return code, and on success the memory with the code copied and
  mapped.
\<close>

definition load_idle_process ::
    "heap_syms \<Rightarrow> spawn_syms \<Rightarrow> mem \<Rightarrow> process \<Rightarrow> (mem \<times> process \<times> int) option" where
  "load_idle_process hs sy m pr =
     (if privilege_mode pr \<noteq> PS_PRIV_SUPERVISOR then Some (m, pr, 1)
      else
        (let vaddr_start = idle_code_start sy; vaddr_end = idle_code_end sy;
             pa_vaddr_start = page_down vaddr_start; pa_vaddr_end = page_up vaddr_end;
             num_process_image_pages = (pa_vaddr_end - pa_vaddr_start) div 4096
         in if (pa_vaddr_start < spawn_thread_start sy \<and> spawn_thread_start sy < pa_vaddr_end) \<or>
               (spawn_thread_start sy < pa_vaddr_start \<and> pa_vaddr_start < spawn_trap_end sy)
            then Some (m, pr, 2)
            else
              (let (m1, img) = page_znalloc hs m (sint (ucast num_process_image_pages :: u32));
                   size = pa_vaddr_end - pa_vaddr_start;
                   m2 = memcpy m1 img pa_vaddr_start (sint (ucast size :: u32));
                   pr1 = pr\<lparr>frame := (frame pr)\<lparr>f_sepc := vaddr_start\<rparr>,
                            num_image_pages := num_process_image_pages, image := img\<rparr>
               in case mmu_map_multiple hs m2 (ptable pr) pa_vaddr_start img (num_process_image_pages * 4096) 14 of
                    None \<Rightarrow> None
                  | Some m3 \<Rightarrow> Some (m3, pr1, 0))))"

end
