(* ===== verification/Lock.thy ===== *)
theory Lock
  imports Kernel_Prelude
begin

text \<open>
  The locks of \<^verbatim>\<open>src/lock.c\<close>. Each is one memory word changed by atomic instructions; the
  model has the value after and the value read by each instruction, and a step relation in which
  the threads of a list take such steps in any order. A failed \<open>sem_try\<close> takes the count down
  first and puts it back in a second step, so other threads see the value in between.
\<close>

section \<open>Model\<close>

abbreviation (input) MUTEX_LOCKED :: int where "MUTEX_LOCKED \<equiv> 0"
abbreviation (input) MUTEX_UNLOCKED :: int where "MUTEX_UNLOCKED \<equiv> 1"

definition mutex_try :: "int \<Rightarrow> int \<times> int" where
  "mutex_try mutex =
     (let previous = mutex in (MUTEX_LOCKED, if previous = MUTEX_LOCKED then 0 else 1))"

definition mutex_post :: "int \<Rightarrow> int" where
  "mutex_post mutex = MUTEX_UNLOCKED"

text \<open>The atomic addition of \<open>sem_try\<close>, and what it answers if the value read was positive.\<close>

definition sem_try_add :: "int \<Rightarrow> int \<times> bool" where
  "sem_try_add sem = (let previous = sem in (sem + (- 1), \<not> previous \<le> 0))"

definition sem_post :: "int \<Rightarrow> int" where
  "sem_post sem = sem + 1"

text \<open>\<open>sem_try\<close> when no other thread runs in between.\<close>

definition sem_try :: "int \<Rightarrow> int \<times> int" where
  "sem_try sem =
     (case sem_try_add sem of (s1, True) \<Rightarrow> (s1, 1) | (s1, False) \<Rightarrow> (sem_post s1, 0))"

subsection \<open>Threads\<close>

datatype phase = Outside | Undoing | Inside

inductive mutex_step :: "int \<times> phase list \<Rightarrow> int \<times> phase list \<Rightarrow> bool" where
  try_ok: "i < length ts \<Longrightarrow> ts ! i = Outside \<Longrightarrow> mutex_try v = (v', 1) \<Longrightarrow>
     mutex_step (v, ts) (v', ts[i := Inside])"
| try_fail: "i < length ts \<Longrightarrow> ts ! i = Outside \<Longrightarrow> mutex_try v = (v', 0) \<Longrightarrow>
     mutex_step (v, ts) (v', ts)"
| post: "i < length ts \<Longrightarrow> ts ! i = Inside \<Longrightarrow> mutex_step (v, ts) (mutex_post v, ts[i := Outside])"

inductive sem_step :: "int \<times> phase list \<Rightarrow> int \<times> phase list \<Rightarrow> bool" where
  try_ok: "i < length ts \<Longrightarrow> ts ! i = Outside \<Longrightarrow> sem_try_add v = (v', True) \<Longrightarrow>
     sem_step (v, ts) (v', ts[i := Inside])"
| try_fail: "i < length ts \<Longrightarrow> ts ! i = Outside \<Longrightarrow> sem_try_add v = (v', False) \<Longrightarrow>
     sem_step (v, ts) (v', ts[i := Undoing])"
| undo: "i < length ts \<Longrightarrow> ts ! i = Undoing \<Longrightarrow> sem_step (v, ts) (sem_post v, ts[i := Outside])"
| post: "i < length ts \<Longrightarrow> ts ! i = Inside \<Longrightarrow> sem_step (v, ts) (sem_post v, ts[i := Outside])"

section \<open>Counting threads\<close>

definition in_phase :: "phase \<Rightarrow> phase list \<Rightarrow> nat" where
  "in_phase p ts = length (filter (\<lambda>x. x = p) ts)"

lemma in_phase_update:
  "i < length ts \<Longrightarrow>
   in_phase p (ts[i := q]) + (if ts ! i = p then 1 else 0) = in_phase p ts + (if q = p then 1 else 0)"
proof (induction ts arbitrary: i)
  case (Cons t ts)
  show ?case
  proof (cases i)
    case 0
    then show ?thesis by (simp add: in_phase_def)
  next
    case (Suc j)
    then show ?thesis using Cons.IH [of j] Cons.prems by (cases "q = p"; cases "ts ! j = p") (simp_all add: in_phase_def)
  qed
qed simp

lemma in_phase_le: "in_phase p ts \<le> length ts"
  by (simp add: in_phase_def)

lemma in_phase_pos: "i < length ts \<Longrightarrow> ts ! i = p \<Longrightarrow> 0 < in_phase p ts"
  unfolding in_phase_def by (metis (mono_tags, lifting) filter_empty_conv length_greater_0_conv nth_mem)

lemma in_phase_replicate: "in_phase p (replicate n q) = (if p = q then n else 0)"
  by (auto simp: in_phase_def filter_replicate)

section \<open>Mutual exclusion\<close>

lemma mutex_invariant:
  assumes "mutex_step\<^sup>*\<^sup>* (1, replicate n Outside) (v, ts)"
  shows "length ts = n \<and> (v = 0 \<or> v = 1) \<and> (v = 1 \<longleftrightarrow> in_phase Inside ts = 0) \<and> in_phase Inside ts \<le> 1"
  using assms
proof (induction "(v, ts)" arbitrary: v ts rule: rtranclp_induct)
  case base
  then show ?case by (simp add: in_phase_replicate)
next
  case (step y)
  obtain v0 ts0 where y: "y = (v0, ts0)" by (cases y)
  note ih = step.hyps(3) [OF y]
  have "mutex_step (v0, ts0) (v, ts)" using step.hyps(2) y by simp
  then show ?case
  proof cases
    case (try_ok i)
    then show ?thesis
      using ih in_phase_update [of i ts0 Inside Inside] by (auto simp: mutex_try_def Let_def split: if_splits)
  next
    case (try_fail i)
    then show ?thesis using ih by (auto simp: mutex_try_def Let_def split: if_splits)
  next
    case (post i)
    then show ?thesis
      using ih in_phase_update [of i ts0 Inside Outside] in_phase_pos [of i ts0 Inside]
      by (auto simp: mutex_post_def)
  qed
qed

text \<open>
  C40: however the steps of any number of threads interleave, a mutex that started unlocked is held
  by at most one thread, and it reads as unlocked exactly when nobody holds it.
\<close>

theorem mutex_exclusion:
  assumes "mutex_step\<^sup>*\<^sup>* (1, replicate n Outside) (v, ts)"
  shows "in_phase Inside ts \<le> 1 \<and> (v = 1 \<longleftrightarrow> in_phase Inside ts = 0)"
  using mutex_invariant [OF assms] by blast

section \<open>Semaphores\<close>

lemma sem_invariant:
  assumes "sem_step\<^sup>*\<^sup>* (int k, replicate n Outside) (v, ts)"
  shows "length ts = n \<and> v + int (in_phase Inside ts) + int (in_phase Undoing ts) = int k \<and>
    in_phase Inside ts \<le> k"
  using assms
proof (induction "(v, ts)" arbitrary: v ts rule: rtranclp_induct)
  case base
  then show ?case by (simp add: in_phase_replicate)
next
  case (step y)
  obtain v0 ts0 where y: "y = (v0, ts0)" by (cases y)
  note ih = step.hyps(3) [OF y]
  have "sem_step (v0, ts0) (v, ts)" using step.hyps(2) y by simp
  then show ?case
  proof cases
    case (try_ok i)
    then show ?thesis
      using ih in_phase_update [of i ts0 Inside Inside] in_phase_update [of i ts0 Undoing Inside]
      by (auto simp: sem_try_add_def Let_def)
  next
    case (try_fail i)
    then show ?thesis
      using ih in_phase_update [of i ts0 Inside Undoing] in_phase_update [of i ts0 Undoing Undoing]
      by (auto simp: sem_try_add_def Let_def)
  next
    case (undo i)
    then show ?thesis
      using ih in_phase_update [of i ts0 Inside Outside] in_phase_update [of i ts0 Undoing Outside]
      by (auto simp: sem_post_def)
  next
    case (post i)
    then show ?thesis
      using ih in_phase_update [of i ts0 Inside Outside] in_phase_update [of i ts0 Undoing Outside]
      by (auto simp: sem_post_def)
  qed
qed

text \<open>
  A semaphore that started at \<open>k\<close> is held by at most \<open>k\<close> of the \<open>n\<close> threads in every
  interleaving, although a failing attempt takes the count down before it puts it back; the count
  never leaves \<open>k - n .. k\<close>, so it does not wrap.
\<close>

theorem sem_bound:
  assumes "sem_step\<^sup>*\<^sup>* (int k, replicate n Outside) (v, ts)"
  shows "in_phase Inside ts \<le> k \<and> int k - int n \<le> v \<and> v \<le> int k"
proof -
  have "in_phase Inside ts + in_phase Undoing ts \<le> length ts" for ts
    by (induction ts) (auto simp: in_phase_def)
  from this [of ts] show ?thesis using sem_invariant [OF assms] by linarith
qed

section \<open>Witnesses\<close>

theorem mutex_exclusion_witness:
  "mutex_step\<^sup>*\<^sup>* (1, replicate 2 Outside) (0, [Inside, Outside]) \<and> in_phase Inside [Inside, Outside] \<le> 1"
proof -
  have "mutex_step (1, [Outside, Outside]) (0, [Outside, Outside][0 := Inside])"
    by (rule mutex_step.try_ok) (simp_all add: mutex_try_def)
  then have "mutex_step\<^sup>*\<^sup>* (1, replicate 2 Outside) (0, [Inside, Outside])"
    by (simp add: numeral_2_eq_2)
  then show ?thesis using mutex_exclusion [of 2 0 "[Inside, Outside]"] by simp
qed

theorem sem_bound_witness:
  "sem_step\<^sup>*\<^sup>* (int 1, replicate 2 Outside) (-1, [Inside, Undoing]) \<and> in_phase Inside [Inside, Undoing] \<le> 1"
proof -
  have "sem_step (1, [Outside, Outside]) (0, [Outside, Outside][0 := Inside])"
    by (rule sem_step.try_ok) (simp_all add: sem_try_add_def)
  moreover have "sem_step (0, [Inside, Outside]) (-1, [Inside, Outside][1 := Undoing])"
    by (rule sem_step.try_fail) (simp_all add: sem_try_add_def)
  ultimately have "sem_step\<^sup>*\<^sup>* (int 1, replicate 2 Outside) (-1, [Inside, Undoing])"
    by (simp add: numeral_2_eq_2)
  then show ?thesis using sem_bound [of 1 2 "-1" "[Inside, Undoing]"] by simp
qed

end
