(* ===== verification/Sbi.thy ===== *)
theory Sbi
  imports Process Uart Lock
begin

text \<open>
  The machine-mode firmware under \<^verbatim>\<open>sbi/src\<close>: the state of the harts (\<^verbatim>\<open>hart.c\<close>), the timer and
  software interrupts (\<^verbatim>\<open>clint.c\<close>), the interrupt controller (\<^verbatim>\<open>plic.c\<close>), the supervisor calls
  (\<^verbatim>\<open>svrcall.c\<close>), the trap handler (\<^verbatim>\<open>ctrap.c\<close>) and booting (\<^verbatim>\<open>main.c\<close>). Device registers and the
  control registers of each hart are part of the state; the clock, the claimed interrupt and the
  UART's registers are arguments. An access behind the end of the arrays of eight harts, and a
  wait for a lock that is held, are \<open>None\<close>.
\<close>

section \<open>Data\<close>

datatype csr = MSCRATCH | SSCRATCH | MEPC | MIE | MIDELEG | MEDELEG | MSTATUS | MIP | MTVEC | STVEC | SEPC |
  SATP | PMPADDR0 | PMPCFG0

record hart_data =
  hd_status :: hart_status
  hd_target :: u64
  hd_frame :: u64

record sbi_state =
  sbi_hart_data :: "nat \<Rightarrow> hart_data"
  sbi_hart_lock :: "nat \<Rightarrow> int"
  clint_msip :: "nat \<Rightarrow> u32"
  clint_mtimecmp :: "nat \<Rightarrow> u64"
  plic_regs :: "u64 \<Rightarrow> u32"
  uart_ring :: sbi_uart_buffer
  uart_sent :: "u8 list"
  powered_off :: bool
  csrs :: "nat \<Rightarrow> csr \<Rightarrow> u64"

definition csr_write :: "sbi_state \<Rightarrow> nat \<Rightarrow> csr \<Rightarrow> u64 \<Rightarrow> sbi_state" where
  "csr_write s h c v = s\<lparr>csrs := (csrs s)(h := (csrs s h)(c := v))\<rparr>"

definition set_hart :: "sbi_state \<Rightarrow> nat \<Rightarrow> hart_data \<Rightarrow> sbi_state" where
  "set_hart s h d = s\<lparr>sbi_hart_data := (sbi_hart_data s)(h := d)\<rparr>"

definition set_lock :: "sbi_state \<Rightarrow> nat \<Rightarrow> int \<Rightarrow> sbi_state" where
  "set_lock s h v = s\<lparr>sbi_hart_lock := (sbi_hart_lock s)(h := v)\<rparr>"

text \<open>The numbers the enumeration constants have.\<close>

fun status_code :: "hart_status \<Rightarrow> u64" where
  "status_code HS_STOPPED = 0"
| "status_code HS_STARTING = 1"
| "status_code HS_STARTED = 2"
| "status_code HS_STOPPING = 3"
| "status_code HS_INVALID = 4"

section \<open>CLINT\<close>

definition clint_set_msip :: "sbi_state \<Rightarrow> nat \<Rightarrow> sbi_state" where
  "clint_set_msip s hart =
     (if hart \<ge> MAX_SUPPORTED_HARTS then s else s\<lparr>clint_msip := (clint_msip s)(hart := 1)\<rparr>)"

definition clint_clear_msip :: "sbi_state \<Rightarrow> nat \<Rightarrow> sbi_state" where
  "clint_clear_msip s hart =
     (if hart \<ge> MAX_SUPPORTED_HARTS then s else s\<lparr>clint_msip := (clint_msip s)(hart := 0)\<rparr>)"

definition clint_set_mtimecmp :: "sbi_state \<Rightarrow> nat \<Rightarrow> u64 \<Rightarrow> sbi_state" where
  "clint_set_mtimecmp s hart val =
     (if hart \<ge> MAX_SUPPORTED_HARTS then s else s\<lparr>clint_mtimecmp := (clint_mtimecmp s)(hart := val)\<rparr>)"

definition clint_add_mtimecmp :: "u64 \<Rightarrow> sbi_state \<Rightarrow> nat \<Rightarrow> u64 \<Rightarrow> sbi_state" where
  "clint_add_mtimecmp time s hart val =
     (if hart \<ge> MAX_SUPPORTED_HARTS then s else clint_set_mtimecmp s hart (time + val))"

section \<open>Harts\<close>

definition get_hart_status :: "sbi_state \<Rightarrow> nat \<Rightarrow> hart_status" where
  "get_hart_status s hart =
     (if hart \<ge> MAX_SUPPORTED_HARTS then HS_INVALID else hd_status (sbi_hart_data s hart))"

definition hart_start :: "sbi_state \<Rightarrow> nat \<Rightarrow> u64 \<Rightarrow> u64 \<Rightarrow> (sbi_state \<times> int) option" where
  "hart_start s hart target frame_paddr =
     (if hart \<ge> MAX_SUPPORTED_HARTS then None
      else case mutex_try (sbi_hart_lock s hart) of (v, r) \<Rightarrow>
        (let s1 = set_lock s hart v in
         if r = 0 then Some (s1, 1)
         else if hd_status (sbi_hart_data s1 hart) \<noteq> HS_STOPPED then
           Some (set_lock s1 hart (mutex_post (sbi_hart_lock s1 hart)), 2)
         else
           (let s2 = set_hart s1 hart \<lparr>hd_status = HS_STARTING, hd_target = target, hd_frame = frame_paddr\<rparr>;
                s3 = clint_set_msip s2 hart
            in Some (set_lock s3 hart (mutex_post (sbi_hart_lock s3 hart)), 0))))"

definition hart_stop :: "sbi_state \<Rightarrow> nat \<Rightarrow> (sbi_state \<times> int) option" where
  "hart_stop s hart =
     (if hart \<ge> MAX_SUPPORTED_HARTS then None
      else case mutex_try (sbi_hart_lock s hart) of (v, r) \<Rightarrow>
        (let s1 = set_lock s hart v in
         if r = 0 then Some (s1, 1)
         else if hd_status (sbi_hart_data s1 hart) \<noteq> HS_STARTED then
           Some (set_lock s1 hart (mutex_post (sbi_hart_lock s1 hart)), 2)
         else
           (let s2 = set_hart s1 hart \<lparr>hd_status = HS_STOPPING, hd_target = 0, hd_frame = 0\<rparr>;
                s3 = clint_set_msip s2 hart
            in Some (set_lock s3 hart (mutex_post (sbi_hart_lock s3 hart)), 0))))"

text \<open>The control registers a starting and a stopping hart leaves with; \<open>hang\<close> is \<open>sbi_hart_hang\<close>.\<close>

definition msip_started :: "sbi_state \<Rightarrow> nat \<Rightarrow> sbi_state" where
  "msip_started s hart =
     (let d = sbi_hart_data s hart;
          s1 = csr_write s hart SSCRATCH (hd_frame d);
          s2 = csr_write s1 hart MEPC (hd_target d);
          s3 = csr_write s2 hart MIE (0x800 OR 8 OR 0x80 OR 0x20);
          s4 = csr_write s3 hart MIDELEG (0x200 OR 2 OR 0x20);
          s5 = csr_write s4 hart MEDELEG 0xB1F7;
          s6 = csr_write s5 hart MSTATUS (0x2000 OR 0x800 OR 0x80)
      in set_hart s6 hart (d\<lparr>hd_status := HS_STARTED\<rparr>))"

definition msip_stopped :: "u64 \<Rightarrow> sbi_state \<Rightarrow> nat \<Rightarrow> sbi_state" where
  "msip_stopped hang s hart =
     (let s1 = csr_write (csr_write (csr_write (csr_write s hart SSCRATCH 0) hart STVEC 0) hart SEPC 0) hart SATP 0;
          s2 = csr_write (csr_write (csr_write (csr_write s1 hart MEPC hang) hart MEDELEG 0) hart MIDELEG 0) hart MIP 0;
          s3 = csr_write s2 hart MSTATUS (0x2000 OR 0x1800 OR 0x80);
          s4 = csr_write s3 hart MIE (8 OR (if hart = 0 then 0x800 else 0));
          s5 = clint_set_mtimecmp s4 hart 0x7FFFFFFFFFFFFFFF
      in set_hart s5 hart ((sbi_hart_data s hart)\<lparr>hd_status := HS_STOPPED\<rparr>))"

definition hart_handle_msip :: "u64 \<Rightarrow> sbi_state \<Rightarrow> nat \<Rightarrow> sbi_state option" where
  "hart_handle_msip hang s hart =
     (if hart \<ge> MAX_SUPPORTED_HARTS then None
      else case mutex_try (sbi_hart_lock s hart) of (v, r) \<Rightarrow>
        if r = 0 then None
        else
          (let s1 = clint_clear_msip (set_lock s hart v) hart;
               st = hd_status (sbi_hart_data s1 hart);
               s2 = (if st \<noteq> HS_STARTING \<and> st \<noteq> HS_STOPPING then s1
                     else if st = HS_STARTING then msip_started s1 hart
                     else msip_stopped hang s1 hart)
           in Some (set_lock s2 hart (mutex_post (sbi_hart_lock s2 hart)))))"

section \<open>PLIC\<close>

abbreviation (input) PLIC_BASE :: u64 where "PLIC_BASE \<equiv> 0x0c000000"

definition PLIC_THRESHOLD :: "nat \<Rightarrow> nat \<Rightarrow> u64" where
  "PLIC_THRESHOLD hart mode = PLIC_BASE + 0x00200000 + of_nat (0x1000 * (2 * hart + mode))"

definition PLIC_ENABLE :: "nat \<Rightarrow> nat \<Rightarrow> u64" where
  "PLIC_ENABLE hart mode = PLIC_BASE + 0x2000 + of_nat (0x80 * (2 * hart + mode))"

definition plic_store :: "sbi_state \<Rightarrow> u64 \<Rightarrow> u32 \<Rightarrow> sbi_state" where
  "plic_store s a v = s\<lparr>plic_regs := (plic_regs s)(a := v)\<rparr>"

definition plic_set_priority :: "sbi_state \<Rightarrow> nat \<Rightarrow> u8 \<Rightarrow> sbi_state" where
  "plic_set_priority s interrupt_id priority =
     plic_store s (PLIC_BASE + of_nat (4 * interrupt_id)) (ucast (priority AND 7))"

definition plic_set_threshold :: "sbi_state \<Rightarrow> nat \<Rightarrow> u8 \<Rightarrow> sbi_state" where
  "plic_set_threshold s hart priority = plic_store s (PLIC_THRESHOLD hart 0) (ucast (priority AND 7))"

definition plic_enable :: "sbi_state \<Rightarrow> nat \<Rightarrow> nat \<Rightarrow> sbi_state" where
  "plic_enable s hart interrupt_id =
     (let a = PLIC_ENABLE hart 0 + of_nat (4 * (interrupt_id div 32))
      in plic_store s a (plic_regs s a OR push_bit (interrupt_id mod 32) 1))"

definition plic_disable :: "sbi_state \<Rightarrow> nat \<Rightarrow> nat \<Rightarrow> sbi_state" where
  "plic_disable s hart interrupt_id =
     (let a = PLIC_ENABLE hart 0 + of_nat (4 * (interrupt_id div 32))
      in plic_store s a (plic_regs s a AND NOT (push_bit (interrupt_id mod 32) 1)))"

text \<open>The interrupt that a claim reads is an argument; completing writes it back.\<close>

definition plic_complete :: "sbi_state \<Rightarrow> nat \<Rightarrow> u32 \<Rightarrow> sbi_state" where
  "plic_complete s hart irq = plic_store s (PLIC_THRESHOLD hart 0 + 4) irq"

definition plic_handle_irq :: "u32 \<Rightarrow> u8 \<Rightarrow> u8 \<Rightarrow> sbi_state \<Rightarrow> nat \<Rightarrow> sbi_state" where
  "plic_handle_irq irq lsr rbr s hart =
     (let s1 = (if irq = 10 then s\<lparr>uart_ring := uart_handle_irq (uart_ring s) lsr rbr\<rparr> else s)
      in plic_complete s1 hart irq)"

definition plic_init :: "sbi_state \<Rightarrow> nat \<Rightarrow> sbi_state" where
  "plic_init s hart = plic_set_threshold (plic_set_priority (plic_enable s hart 10) 10 7) hart 0"

section \<open>Supervisor calls and traps\<close>

text \<open>
  The registers of the caller are a list; register 10 is \<open>a0\<close> and 17 is \<open>a7\<close>. The line-status
  reads that \<open>uart_put\<close> makes are an argument. A negative hart number passes the check of
  \<^verbatim>\<open>clint.c\<close> and writes in front of the timer registers: \<open>None\<close>.
\<close>

definition svrcall_handle ::
    "u64 \<Rightarrow> u8 list \<Rightarrow> sbi_state \<Rightarrow> nat \<Rightarrow> u64 list \<Rightarrow> (sbi_state \<times> u64 list) option" where
  "svrcall_handle time lsrs s hart regs =
     (let num = regs ! 17; a0 = regs ! 10; a1 = regs ! 11; a2 = regs ! 12;
          h = unat (ucast a0 :: u32); ret = (\<lambda>v. regs[10 := v])
      in if num = 10 then
           (case uart_put lsrs (ucast a0) of
              None \<Rightarrow> None
            | Some (_, c) \<Rightarrow> Some (s\<lparr>uart_sent := uart_sent s @ [c]\<rparr>, regs))
         else if num = 11 then
           (let (u, c) = uart_buffer_pop (uart_ring s) in Some (s\<lparr>uart_ring := u\<rparr>, ret (ucast c)))
         else if num = 215 then Some (s\<lparr>powered_off := True\<rparr>, regs)
         else if num = 1 then Some (s, ret (status_code (get_hart_status s h)))
         else if num = 2 then
           map_option (\<lambda>(s1, r). (s1, ret (word_of_int r))) (hart_start s h a1 a2)
         else if num = 3 then map_option (\<lambda>(s1, r). (s1, ret (word_of_int r))) (hart_stop s h)
         else if num = 4 then Some (s, ret (of_nat hart))
         else if num = 15 then Some (s, ret time)
         else if num = 16 then (if sint (ucast a0 :: u32) < 0 then None else Some (clint_set_mtimecmp s h a1, regs))
         else if num = 17 then (if sint (ucast a0 :: u32) < 0 then None else Some (clint_add_mtimecmp time s h a1, regs))
         else if num = 18 then Some (csr_write s hart MIP (csrs s hart MIP AND NOT 0x20), regs)
         else Some (s, regs))"

text \<open>\<open>c_trap_handler\<close>, with the cause register of the trap.\<close>

definition c_trap_handler ::
    "u64 \<Rightarrow> u64 \<Rightarrow> u8 list \<Rightarrow> u32 \<Rightarrow> u8 \<Rightarrow> u8 \<Rightarrow> sbi_state \<Rightarrow> nat \<Rightarrow> u64 \<Rightarrow> u64 list \<Rightarrow>
     (sbi_state \<times> u64 list) option" where
  "c_trap_handler hang time lsrs irq lsr rbr s hart mcause0 regs =
     (let is_async = drop_bit 63 mcause0 AND 1 \<noteq> 0; mcause = mcause0 AND 0xff; mepc = csrs s hart MEPC in
      if is_async then
        (if mcause = 3 then map_option (\<lambda>s1. (s1, regs)) (hart_handle_msip hang s hart)
         else if mcause = 7 then
           Some (clint_set_mtimecmp (csr_write s hart MIP 0x20) hart 0x7FFFFFFFFFFFFFFF, regs)
         else if mcause = 11 then Some (plic_handle_irq irq lsr rbr s hart, regs)
         else Some (s, regs))
      else if mcause = 9 then
        map_option (\<lambda>(s1, regs1). (csr_write s1 hart MEPC (mepc + 4), regs1)) (svrcall_handle time lsrs s hart regs)
      else Some (s, regs))"

section \<open>Booting\<close>

definition pmp_init :: "sbi_state \<Rightarrow> nat \<Rightarrow> sbi_state" where
  "pmp_init s hart = csr_write (csr_write s hart PMPADDR0 0x3fffffff) hart PMPCFG0 0xf"

text \<open>The addresses of the trap vector, the hanging loop, the OS and the register save areas.\<close>

record sbi_syms =
  sbi_trap_vector :: u64
  sbi_hart_hang :: u64
  os_load_addr :: u64
  sbi_gpregs :: "nat \<Rightarrow> u64"

definition boot_other :: "sbi_syms \<Rightarrow> sbi_state \<Rightarrow> nat \<Rightarrow> sbi_state" where
  "boot_other sy s hart =
     (let s1 = pmp_init (set_hart s hart \<lparr>hd_status = HS_STOPPED, hd_target = 0, hd_frame = - 1\<rparr>) hart;
          s2 = csr_write (csr_write s1 hart MSCRATCH (sbi_gpregs sy hart)) hart SSCRATCH (of_nat hart);
          s3 = csr_write (csr_write s2 hart MEPC (sbi_hart_hang sy)) hart MTVEC (sbi_trap_vector sy);
          s4 = csr_write (csr_write s3 hart MIDELEG 0) hart MEDELEG 0
      in csr_write (csr_write s4 hart MSTATUS (0x2000 OR 0x1800 OR 0x80)) hart MIE 8)"

definition boot_first :: "sbi_syms \<Rightarrow> sbi_state \<Rightarrow> sbi_state" where
  "boot_first sy s0 =
     (let s = plic_init (s0\<lparr>uart_ring := fst (uart_init (uart_ring s0))\<rparr>) 0;
          s1 = s\<lparr>sbi_hart_data := (\<lambda>h. if h < MAX_SUPPORTED_HARTS
                  then (sbi_hart_data s h)\<lparr>hd_status := HS_INVALID\<rparr> else sbi_hart_data s h)\<rparr>;
          s2 = set_hart (pmp_init s1 0) 0 \<lparr>hd_status = HS_STARTED, hd_target = 0, hd_frame = - 1\<rparr>;
          s3 = csr_write (csr_write s2 0 MSCRATCH (sbi_gpregs sy 0)) 0 SSCRATCH 0;
          s4 = csr_write (csr_write s3 0 MEPC (os_load_addr sy)) 0 MTVEC (sbi_trap_vector sy);
          s5 = csr_write (csr_write s4 0 MIE (0x800 OR 8 OR 0x80)) 0 MIDELEG (0x200 OR 2 OR 0x20);
          s6 = csr_write (csr_write s5 0 MEDELEG 0xB1F7) 0 MSTATUS (0x2000 OR 0x800 OR 0x80)
      in s6)"

section \<open>The life cycle of a hart\<close>

lemma csr_write_fields [simp]:
  "sbi_hart_data (csr_write s h c v) = sbi_hart_data s" "sbi_hart_lock (csr_write s h c v) = sbi_hart_lock s"
  "clint_msip (csr_write s h c v) = clint_msip s"
  "csrs (csr_write s h c v) = (csrs s)(h := (csrs s h)(c := v))"
  by (simp_all add: csr_write_def)

lemma set_hart_fields [simp]:
  "sbi_hart_data (set_hart s h d) = (sbi_hart_data s)(h := d)" "sbi_hart_lock (set_hart s h d) = sbi_hart_lock s"
  "clint_msip (set_hart s h d) = clint_msip s" "csrs (set_hart s h d) = csrs s"
  by (simp_all add: set_hart_def)

lemma set_lock_fields [simp]:
  "sbi_hart_data (set_lock s h v) = sbi_hart_data s" "sbi_hart_lock (set_lock s h v) = (sbi_hart_lock s)(h := v)"
  "clint_msip (set_lock s h v) = clint_msip s" "csrs (set_lock s h v) = csrs s"
  by (simp_all add: set_lock_def)

lemma clint_fields [simp]:
  "sbi_hart_data (clint_set_mtimecmp s h v) = sbi_hart_data s"
  "sbi_hart_lock (clint_set_mtimecmp s h v) = sbi_hart_lock s"
  "clint_msip (clint_set_mtimecmp s h v) = clint_msip s" "csrs (clint_set_mtimecmp s h v) = csrs s"
  "sbi_hart_data (clint_add_mtimecmp t s h v) = sbi_hart_data s"
  "sbi_hart_lock (clint_add_mtimecmp t s h v) = sbi_hart_lock s"
  "clint_msip (clint_add_mtimecmp t s h v) = clint_msip s"
  by (simp_all add: clint_set_mtimecmp_def clint_add_mtimecmp_def)

lemma msip_fields [simp]:
  "h < 8 \<Longrightarrow> clint_msip (clint_set_msip s h) = (clint_msip s)(h := 1)"
  "h < 8 \<Longrightarrow> clint_msip (clint_clear_msip s h) = (clint_msip s)(h := 0)"
  "sbi_hart_data (clint_set_msip s h) = sbi_hart_data s" "sbi_hart_data (clint_clear_msip s h) = sbi_hart_data s"
  "sbi_hart_lock (clint_set_msip s h) = sbi_hart_lock s" "sbi_hart_lock (clint_clear_msip s h) = sbi_hart_lock s"
  "csrs (clint_clear_msip s h) = csrs s"
  by (simp_all add: clint_set_msip_def clint_clear_msip_def)

lemma plic_irq_fields [simp]:
  "sbi_hart_data (plic_handle_irq i l r s h) = sbi_hart_data s" "sbi_hart_lock (plic_handle_irq i l r s h) = sbi_hart_lock s"
  "clint_msip (plic_handle_irq i l r s h) = clint_msip s"
  by (simp_all add: plic_handle_irq_def plic_complete_def plic_store_def Let_def)

text \<open>
  Between traps every lock is free and a software interrupt is pending for a hart exactly while it
  is starting or stopping.
\<close>

definition handshake :: "sbi_state \<Rightarrow> bool" where
  "handshake s \<longleftrightarrow> (\<forall>h < 8. sbi_hart_lock s h = 1 \<and>
     (clint_msip s h \<noteq> 0 \<longleftrightarrow> hd_status (sbi_hart_data s h) \<in> {HS_STARTING, HS_STOPPING}))"

text \<open>One trap taken by any hart; a software interrupt only arrives when it is pending.\<close>

inductive sbi_step :: "sbi_state \<Rightarrow> sbi_state \<Rightarrow> bool" where
  trap: "c_trap_handler hang time lsrs irq lsr rbr s h mcause regs = Some (s', regs') \<Longrightarrow> h < 8 \<Longrightarrow>
     (drop_bit 63 mcause AND 1 \<noteq> 0 \<and> mcause AND 0xff = 3 \<Longrightarrow> clint_msip s h \<noteq> 0) \<Longrightarrow> sbi_step s s'"

inductive_cases sbi_stepE: "sbi_step s s'"

text \<open>The cycle stopped, starting, started, stopping, and staying put.\<close>

definition next_status :: "hart_status \<Rightarrow> hart_status \<Rightarrow> bool" where
  "next_status a b \<longleftrightarrow> a = b \<or>
     (a, b) \<in> {(HS_STOPPED, HS_STARTING), (HS_STARTING, HS_STARTED), (HS_STARTED, HS_STOPPING), (HS_STOPPING, HS_STOPPED)}"

definition good_move :: "sbi_state \<Rightarrow> sbi_state \<Rightarrow> bool" where
  "good_move s s' \<longleftrightarrow> handshake s' \<and>
     (\<forall>h < 8. next_status (hd_status (sbi_hart_data s h)) (hd_status (sbi_hart_data s' h)))"

lemma good_move_same:
  "handshake s \<Longrightarrow> sbi_hart_data s' = sbi_hart_data s \<Longrightarrow> sbi_hart_lock s' = sbi_hart_lock s \<Longrightarrow>
   clint_msip s' = clint_msip s \<Longrightarrow> good_move s s'"
  by (simp add: good_move_def handshake_def next_status_def)

lemma hart_start_move: "handshake s \<Longrightarrow> hart_start s h t f = Some (s', r) \<Longrightarrow> good_move s s'"
  by (auto simp: hart_start_def mutex_try_def mutex_post_def handshake_def good_move_def next_status_def Let_def
      split: if_splits)

lemma hart_stop_move: "handshake s \<Longrightarrow> hart_stop s h = Some (s', r) \<Longrightarrow> good_move s s'"
  by (auto simp: hart_stop_def mutex_try_def mutex_post_def handshake_def good_move_def next_status_def Let_def
      split: if_splits)

lemma hart_msip_move:
  "handshake s \<Longrightarrow> clint_msip s h \<noteq> 0 \<Longrightarrow> hart_handle_msip hang s h = Some s' \<Longrightarrow> good_move s s'"
  by (auto simp: hart_handle_msip_def mutex_try_def mutex_post_def handshake_def good_move_def next_status_def Let_def
      msip_started_def msip_stopped_def split: if_splits)

lemma svrcall_move:
  assumes "handshake s" and "svrcall_handle time lsrs s hart regs = Some (s', regs')"
  shows "good_move s s'"
proof -
  have "(sbi_hart_data s' = sbi_hart_data s \<and> sbi_hart_lock s' = sbi_hart_lock s \<and> clint_msip s' = clint_msip s) \<or>
      (\<exists>h t f r. hart_start s h t f = Some (s', r)) \<or> (\<exists>h r. hart_stop s h = Some (s', r))"
    using assms(2) unfolding svrcall_handle_def Let_def
    by (auto split: if_splits option.splits prod.splits)
  then show ?thesis
    using good_move_same [OF assms(1)] hart_start_move [OF assms(1)] hart_stop_move [OF assms(1)] by blast
qed

lemma sbi_step_move: "sbi_step s s' \<Longrightarrow> handshake s \<Longrightarrow> good_move s s'"
proof (erule sbi_stepE)
  fix hang time lsrs irq lsr rbr h mcause regs regs'
  assume hs: "handshake s" and t: "c_trap_handler hang time lsrs irq lsr rbr s h mcause regs = Some (s', regs')"
    and m: "drop_bit 63 mcause AND 1 \<noteq> 0 \<and> mcause AND 0xff = 3 \<Longrightarrow> clint_msip s h \<noteq> 0"
  have csr: "good_move s s1 \<Longrightarrow> good_move s (csr_write s1 h c v)" for s1 c v
    by (simp add: good_move_def handshake_def)
  have "(sbi_hart_data s' = sbi_hart_data s \<and> sbi_hart_lock s' = sbi_hart_lock s \<and> clint_msip s' = clint_msip s) \<or>
      (hart_handle_msip hang s h = Some s' \<and> clint_msip s h \<noteq> 0) \<or>
      (\<exists>s1 r v. svrcall_handle time lsrs s h regs = Some (s1, r) \<and> s' = csr_write s1 h MEPC v)"
    using t m unfolding c_trap_handler_def Let_def by (auto split: if_splits)
  then show "good_move s s'"
    using good_move_same [OF hs] svrcall_move [OF hs] hart_msip_move [OF hs] csr by blast
qed

text \<open>
  C32: In every sequence of traps on the eight harts, a software interrupt is pending for a hart
  exactly while it is starting or stopping, no hart lock stays held between traps, and the next
  trap moves each hart at most one step along the cycle stopped, starting, started, stopping.
\<close>

theorem hart_lifecycle:
  assumes "handshake s0" and "sbi_step\<^sup>*\<^sup>* s0 s" and "sbi_step s t"
  shows "handshake s \<and> (\<forall>h < 8. next_status (hd_status (sbi_hart_data s h)) (hd_status (sbi_hart_data t h)))"
proof -
  from assms(2,1) have "handshake s"
    by (induction rule: rtranclp_induct) (auto dest: sbi_step_move simp: good_move_def)
  then show ?thesis using sbi_step_move [OF assms(3)] by (simp add: good_move_def)
qed

text \<open>
  Starting a stopped hart succeeds and raises its software interrupt; when the hart takes it,
  it is started, will return to the target address with the frame's address in its scratch
  register, the interrupt is cleared and the lock is free. No other hart's data changes.
\<close>

theorem hart_start_runs:
  assumes "h < 8" and "sbi_hart_lock s h = 1" and "hd_status (sbi_hart_data s h) = HS_STOPPED"
  shows "\<exists>s1 s2. hart_start s h target frame_paddr = Some (s1, 0) \<and> clint_msip s1 h = 1 \<and>
    hart_handle_msip hang s1 h = Some s2 \<and> hd_status (sbi_hart_data s2 h) = HS_STARTED \<and>
    csrs s2 h MEPC = target \<and> csrs s2 h SSCRATCH = frame_paddr \<and> clint_msip s2 h = 0 \<and>
    sbi_hart_lock s2 h = 1 \<and> (\<forall>j. j = h \<or> sbi_hart_data s2 j = sbi_hart_data s j)"
  using assms
  by (auto simp: hart_start_def hart_handle_msip_def mutex_try_def mutex_post_def msip_started_def Let_def)

section \<open>A machine with two harts up\<close>

definition demo_sbi :: sbi_state where
  "demo_sbi = \<lparr>sbi_hart_data = (\<lambda>h. \<lparr>hd_status = (if h = 0 then HS_STARTED else if h = 1 then HS_STOPPED else HS_INVALID),
       hd_target = 0, hd_frame = 0\<rparr>), sbi_hart_lock = (\<lambda>_. 1), clint_msip = (\<lambda>_. 0), clint_mtimecmp = (\<lambda>_. 0),
     plic_regs = (\<lambda>_. 0), uart_ring = \<lparr>ub_buffer = replicate 32 0, ub_start = 0, ub_occupied = 0\<rparr>,
     uart_sent = [], powered_off = False, csrs = (\<lambda>_ _. 0)\<rparr>"

lemma demo_handshake: "handshake demo_sbi"
  by (simp add: handshake_def demo_sbi_def)

text \<open>The supervisor of hart 0 asks for hart 1 to be started.\<close>

definition demo_regs :: "u64 list" where
  "demo_regs = (replicate 32 0)[17 := 2, 10 := 1, 11 := 0x80000000, 12 := 0x9000]"

theorem hart_start_runs_witness:
  "\<exists>s1 s2. hart_start demo_sbi 1 0x80000000 0x9000 = Some (s1, 0) \<and> hart_handle_msip 0x1000 s1 1 = Some s2 \<and>
     csrs s2 1 MEPC = 0x80000000"
  using hart_start_runs [of 1 demo_sbi "0x80000000" "0x9000" "0x1000"] by (auto simp: demo_sbi_def)

theorem hart_lifecycle_witness:
  "\<exists>t. sbi_step demo_sbi t \<and> handshake demo_sbi \<and> hd_status (sbi_hart_data t 1) = HS_STARTING \<and>
     next_status HS_STOPPED (hd_status (sbi_hart_data t 1))"
proof -
  have "\<exists>s'. hart_start demo_sbi 1 0x80000000 0x9000 = Some (s', 0) \<and> hd_status (sbi_hart_data s' 1) = HS_STARTING"
    by (simp add: hart_start_def demo_sbi_def mutex_try_def Let_def)
  then obtain s' where s': "hart_start demo_sbi 1 0x80000000 0x9000 = Some (s', 0)"
      "hd_status (sbi_hart_data s' 1) = HS_STARTING" by blast
  have r: "demo_regs ! 17 = 2" "demo_regs ! 10 = 1" "demo_regs ! 11 = 0x80000000" "demo_regs ! 12 = 0x9000"
    by (simp_all add: demo_regs_def)
  have "svrcall_handle 0 [] demo_sbi 0 demo_regs = Some (s', demo_regs[10 := 0])"
    using s'(1) by (simp add: svrcall_handle_def r Let_def)
  then have "c_trap_handler 0 0 [] 0 0 0 demo_sbi 0 9 demo_regs =
      Some (csr_write s' 0 MEPC (csrs demo_sbi 0 MEPC + 4), demo_regs[10 := 0])"
    by (simp add: c_trap_handler_def)
  then have "sbi_step demo_sbi (csr_write s' 0 MEPC (csrs demo_sbi 0 MEPC + 4))" (is "sbi_step _ ?t")
    by (rule sbi_step.trap) simp_all
  then show ?thesis
    using hart_lifecycle [OF demo_handshake rtranclp.rtrancl_refl, of ?t] s'(2)
    by (intro exI [of _ ?t]) (simp add: demo_handshake next_status_def)
qed

end
