(* ===== verification/Elf.thy ===== *)
theory Elf
  imports Process
begin

text \<open>
  Loading a program, \<^verbatim>\<open>src/elf.c\<close>: the checks of the header, the range of addresses of the loadable
  segments, the copy of the segments into newly allocated pages and their mapping for the user. The
  file is in memory at \<open>elf\<close>. The flag \<open>program_table_loaded\<close> is not initialised by the code: its
  first value is an argument.
\<close>

unbundle bit_operations_syntax

section \<open>The file format\<close>

record elf_header =
  e_type :: u16
  e_machine :: u16
  e_entry :: u64
  e_phoff :: u64
  e_phnum :: u16

definition elf_header_at :: "mem \<Rightarrow> u64 \<Rightarrow> elf_header" where
  "elf_header_at m elf = \<lparr>e_type = load16 m (elf + 16), e_machine = load16 m (elf + 18), e_entry = load64 m (elf + 24),
     e_phoff = load64 m (elf + 32), e_phnum = load16 m (elf + 56)\<rparr>"

record program_header =
  p_type :: u32
  p_offset :: u64
  p_vaddr :: u64
  p_memsz :: u64

text \<open>Entry \<open>i\<close> of the program header table at \<open>ph\<close>.\<close>

definition program_header_at :: "mem \<Rightarrow> u64 \<Rightarrow> nat \<Rightarrow> program_header" where
  "program_header_at m ph i =
     (let a = ph + of_nat (56 * i)
      in \<lparr>p_type = load32 m a, p_offset = load64 m (a + 8), p_vaddr = load64 m (a + 16), p_memsz = load64 m (a + 40)\<rparr>)"

abbreviation (input) PT_LOAD :: u32 where "PT_LOAD \<equiv> 1"
abbreviation (input) ET_EXEC :: u16 where "ET_EXEC \<equiv> 2"
abbreviation (input) EM_RISCV :: u16 where "EM_RISCV \<equiv> 243"

definition is_elf :: "mem \<Rightarrow> u64 \<Rightarrow> bool" where
  "is_elf m elf \<longleftrightarrow> map (\<lambda>k. m (elf + of_nat k)) [0..<4] = [0x7f, 0x45, 0x4c, 0x46]"

section \<open>Loading\<close>

text \<open>The loop that finds the range: its start, its end, and the flag.\<close>

fun elf_range :: "program_header list \<Rightarrow> u64 \<Rightarrow> u64 \<Rightarrow> bool \<Rightarrow> u64 \<times> u64 \<times> bool" where
  "elf_range [] vaddr_start vaddr_end loaded = (vaddr_start, vaddr_end, loaded)"
| "elf_range (ph # phs) vaddr_start vaddr_end loaded =
     (if p_type ph = PT_LOAD then
        (if \<not> loaded then elf_range phs (p_vaddr ph) (p_vaddr ph + p_memsz ph) True
         else elf_range phs
                (if vaddr_start > p_vaddr ph then p_vaddr ph else vaddr_start)
                (if vaddr_end < p_vaddr ph + p_memsz ph then p_vaddr ph + p_memsz ph else vaddr_end) loaded)
      else elf_range phs vaddr_start vaddr_end loaded)"

definition program_headers :: "mem \<Rightarrow> u64 \<Rightarrow> program_header list" where
  "program_headers m elf =
     map (program_header_at m (elf + e_phoff (elf_header_at m elf))) [0..<unat (e_phnum (elf_header_at m elf))]"

text \<open>The loop that copies; the headers and their number are read from the memory as it is by then.\<close>

function elf_copy :: "u64 \<Rightarrow> u64 \<Rightarrow> u64 \<Rightarrow> u64 \<Rightarrow> nat \<Rightarrow> mem \<Rightarrow> mem" where
  "elf_copy elf ph img vaddr_start i m =
     (if i < unat (e_phnum (elf_header_at m elf)) then
        (let h = program_header_at m ph i
         in elf_copy elf ph img vaddr_start (i + 1)
              (if p_type h = PT_LOAD
               then memcpy m (img + p_vaddr h - vaddr_start) (elf + p_offset h) (sint (ucast (p_memsz h) :: u32))
               else m))
      else m)"
  by auto
termination
proof (relation "measure (\<lambda>(elf, ph, img, vs, i, m). 2 ^ 16 - i)", goal_cases)
  case (2 elf ph img vs i m x)
  have "unat (e_phnum (elf_header_at m elf)) < 2 ^ 16" using unsigned_less [of "e_phnum (elf_header_at m elf)"] by simp
  then show ?case using 2 by simp
qed simp

declare elf_copy.simps [simp del]

definition elf_pages :: "u64 \<Rightarrow> u64 \<Rightarrow> u64" where
  "elf_pages vaddr_start vaddr_end = (page_up vaddr_end - page_down vaddr_start) div 4096"

definition elf_load ::
    "heap_syms \<Rightarrow> spawn_syms \<Rightarrow> bool \<Rightarrow> mem \<Rightarrow> process \<Rightarrow> u64 \<Rightarrow> (mem \<times> process \<times> int) option" where
  "elf_load hs sy junk m p elf =
     (let eh = elf_header_at m elf in
      if \<not> is_elf m elf then Some (m, p, 1)
      else if e_machine eh \<noteq> EM_RISCV then Some (m, p, 2)
      else if e_type eh \<noteq> ET_EXEC then Some (m, p, 3)
      else if ptable p = NULL then Some (m, p, 5)
      else if privilege_mode p \<noteq> PS_PRIV_USER then Some (m, p, 6)
      else
        (let (vaddr_start, vaddr_end, loaded) = elf_range (program_headers m elf) 0 0 junk in
         if \<not> loaded then Some (m, p, 4)
         else
           (let pa_vaddr_start = page_down vaddr_start; pa_vaddr_end = page_up vaddr_end;
                num_process_image_pages = elf_pages vaddr_start vaddr_end
            in if (pa_vaddr_start < spawn_thread_start sy \<and> spawn_thread_start sy < pa_vaddr_end) \<or>
                  (spawn_thread_start sy < pa_vaddr_start \<and> pa_vaddr_start < spawn_trap_end sy)
               then Some (m, p, 5)
               else
                 (let (m1, img) = page_znalloc hs m (sint (ucast num_process_image_pages :: u32));
                      p1 = p\<lparr>frame := (frame p)\<lparr>f_sepc := e_entry eh\<rparr>, num_image_pages := num_process_image_pages, image := img\<rparr>;
                      m2 = elf_copy elf (elf + e_phoff eh) img vaddr_start 0 m1
                  in case mmu_map_multiple hs m2 (ptable p) pa_vaddr_start img (num_process_image_pages * 4096) 0x1e of
                       None \<Rightarrow> None
                     | Some m3 \<Rightarrow> Some (m3, p1, 0)))))"

section \<open>The range of the image\<close>

lemma elf_range_loaded:
  "elf_range phs a b True = (vs, ve, l) \<Longrightarrow>
   l \<and> vs \<le> a \<and> b \<le> ve \<and> (\<forall>ph \<in> set phs. p_type ph = PT_LOAD \<longrightarrow> vs \<le> p_vaddr ph \<and> p_vaddr ph + p_memsz ph \<le> ve) \<and>
   (vs = a \<or> (\<exists>ph \<in> set phs. p_type ph = PT_LOAD \<and> vs = p_vaddr ph)) \<and>
   (ve = b \<or> (\<exists>ph \<in> set phs. p_type ph = PT_LOAD \<and> ve = p_vaddr ph + p_memsz ph))"
proof (induction phs arbitrary: a b)
  case (Cons ph phs)
  show ?case
  proof (cases "p_type ph = PT_LOAD")
    case True
    let ?a = "if a > p_vaddr ph then p_vaddr ph else a"
    let ?b = "if b < p_vaddr ph + p_memsz ph then p_vaddr ph + p_memsz ph else b"
    have "elf_range phs ?a ?b True = (vs, ve, l)" using Cons.prems True by simp
    from Cons.IH [OF this] True show ?thesis by (auto split: if_splits)
  next
    case False
    then show ?thesis using Cons.IH [of a b] Cons.prems by auto
  qed
qed auto

lemma elf_range_fresh:
  "elf_range phs a b False = (vs, ve, l) \<Longrightarrow>
   (l \<longleftrightarrow> (\<exists>ph \<in> set phs. p_type ph = PT_LOAD)) \<and>
   (l \<longrightarrow> (\<forall>ph \<in> set phs. p_type ph = PT_LOAD \<longrightarrow> vs \<le> p_vaddr ph \<and> p_vaddr ph + p_memsz ph \<le> ve) \<and>
     (\<exists>ph \<in> set phs. p_type ph = PT_LOAD \<and> vs = p_vaddr ph) \<and>
     (\<exists>ph \<in> set phs. p_type ph = PT_LOAD \<and> ve = p_vaddr ph + p_memsz ph))"
proof (induction phs arbitrary: a b)
  case (Cons ph phs)
  show ?case
  proof (cases "p_type ph = PT_LOAD")
    case True
    then have "elf_range phs (p_vaddr ph) (p_vaddr ph + p_memsz ph) True = (vs, ve, l)" using Cons.prems by simp
    from elf_range_loaded [OF this] True show ?thesis by auto
  next
    case False
    then show ?thesis using Cons.IH [of a b] Cons.prems by auto
  qed
qed auto

lemma page_down_up_bounds:
  assumes "unat a \<le> unat b" and "unat b < 2 ^ 63"
  shows "unat (page_down a) \<le> unat a" "unat b \<le> unat (page_up b)"
    "unat (page_down a) + 4096 * unat (elf_pages a b) = unat (page_up b)"
proof -
  let ?d = "unat a div 4096" and ?u = "(unat b + 4095) div 4096"
  have d: "unat (page_down a) = 4096 * ?d"
    using assms by (simp add: page_down_def unat_word_ariths unat_div)
  have b: "unat (b + 4096 - 1) = unat b + 4095"
  proof -
    have "b + 4096 - 1 = b + 4095" by simp
    then show ?thesis using assms(2) by (simp only: unat_word_ariths) simp
  qed
  have u: "unat (page_up b) = 4096 * ?u"
  proof -
    have "4096 * ?u \<le> unat b + 4095" by simp
    moreover have "unat b + 4095 < 2 ^ 64" using assms(2) by simp
    ultimately have "?u * 4096 < 2 ^ 64" by (simp only: mult.commute)
    then show ?thesis unfolding page_up_def by (simp add: unat_word_ariths unat_div b mult.commute del: add_diff_eq)
  qed
  show "unat (page_down a) \<le> unat a" using d by simp
  show "unat b \<le> unat (page_up b)" using u by linarith
  have "?d \<le> ?u" using assms(1) by (simp add: div_le_mono)
  then have le: "page_down a \<le> page_up b" using d u by (simp add: word_le_nat_alt)
  have "unat (elf_pages a b) = ?u - ?d"
    unfolding elf_pages_def using d u by (simp add: unat_div unat_sub [OF le] flip: diff_mult_distrib2)
  then show "unat (page_down a) + 4096 * unat (elf_pages a b) = unat (page_up b)"
    using d u \<open>?d \<le> ?u\<close> by (simp flip: distrib_left)
qed

lemma segment_end:
  assumes "unat (p_vaddr ph) + unat (p_memsz ph) < 2 ^ 63"
  shows "unat (p_vaddr ph + p_memsz ph) = unat (p_vaddr ph) + unat (p_memsz ph)"
  using assms by (simp add: unat_word_ariths)

lemma segments_fit:
  assumes "elf_range phs 0 0 False = (vs, ve, loaded)"
    and small: "\<forall>ph \<in> set phs. p_type ph = PT_LOAD \<longrightarrow> unat (p_vaddr ph) + unat (p_memsz ph) < 2 ^ 63"
  shows "\<forall>ph \<in> set phs. p_type ph = PT_LOAD \<longrightarrow> unat (p_vaddr ph - vs) + unat (p_memsz ph) \<le> 4096 * unat (elf_pages vs ve)"
    "\<forall>ph \<in> set phs. p_type ph = PT_LOAD \<longrightarrow> unat (page_down vs) \<le> unat (p_vaddr ph) \<and>
      unat (p_vaddr ph) + unat (p_memsz ph) \<le> unat (page_down vs) + 4096 * unat (elf_pages vs ve)"
proof -
  note range = elf_range_fresh [OF assms(1)]
  have "unat (page_down vs) \<le> unat (p_vaddr ph) \<and>
      unat (p_vaddr ph) + unat (p_memsz ph) \<le> unat (page_down vs) + 4096 * unat (elf_pages vs ve) \<and>
      unat (p_vaddr ph - vs) + unat (p_memsz ph) \<le> 4096 * unat (elf_pages vs ve)"
    if ph: "ph \<in> set phs" "p_type ph = PT_LOAD" for ph
  proof -
    have ends: "unat (p_vaddr h + p_memsz h) = unat (p_vaddr h) + unat (p_memsz h)" if "h \<in> set phs" "p_type h = PT_LOAD" for h
      using segment_end small that by blast
    have vs: "vs \<le> p_vaddr ph" and ve: "p_vaddr ph + p_memsz ph \<le> ve" using range ph by blast+
    obtain h where h: "h \<in> set phs" "p_type h = PT_LOAD" "ve = p_vaddr h + p_memsz h" using range ph by blast
    have ve63: "unat ve < 2 ^ 63" using ends [OF h(1,2)] small h by simp
    have v: "unat vs \<le> unat (p_vaddr ph)" "unat (p_vaddr ph) + unat (p_memsz ph) \<le> unat ve"
      using vs ve ends [OF ph] by (simp_all add: word_le_nat_alt)
    then have "unat vs \<le> unat ve" by linarith
    from page_down_up_bounds [OF this ve63] show ?thesis using v unat_sub [OF vs] by linarith
  qed
  then show "\<forall>ph \<in> set phs. p_type ph = PT_LOAD \<longrightarrow> unat (p_vaddr ph - vs) + unat (p_memsz ph) \<le> 4096 * unat (elf_pages vs ve)"
    "\<forall>ph \<in> set phs. p_type ph = PT_LOAD \<longrightarrow> unat (page_down vs) \<le> unat (p_vaddr ph) \<and>
      unat (p_vaddr ph) + unat (p_memsz ph) \<le> unat (page_down vs) + 4096 * unat (elf_pages vs ve)" by blast+
qed

text \<open>
  With the flag zero at the start, the range of the image is found if and only if there is a
  loadable segment. Then every loadable segment, at its virtual address, lies within the pages that
  are allocated and mapped, and its copy, at its distance from the start of the range, stays within
  the allocated block.
\<close>

theorem elf_segments_fit:
  assumes "elf_range phs 0 0 False = (vs, ve, loaded)"
    and small: "\<forall>ph \<in> set phs. p_type ph = PT_LOAD \<longrightarrow> unat (p_vaddr ph) + unat (p_memsz ph) < 2 ^ 63"
  shows "(loaded \<longleftrightarrow> (\<exists>ph \<in> set phs. p_type ph = PT_LOAD)) \<and>
    (\<forall>ph \<in> set phs. p_type ph = PT_LOAD \<longrightarrow>
      unat (page_down vs) \<le> unat (p_vaddr ph) \<and>
      unat (p_vaddr ph) + unat (p_memsz ph) \<le> unat (page_down vs) + 4096 * unat (elf_pages vs ve) \<and>
      unat (p_vaddr ph - vs) + unat (p_memsz ph) \<le> 4096 * unat (elf_pages vs ve))"
  using elf_range_fresh [OF assms(1)] segments_fit [OF assms] by blast

lemma elf_load_cases:
  assumes "elf_load hs sy False m p elf = Some (m', p', c)"
  shows "c \<noteq> 0 \<Longrightarrow> m' = m \<and> p' = p"
    and "c = 0 \<Longrightarrow> \<exists>vs ve. elf_range (program_headers m elf) 0 0 False = (vs, ve, True) \<and> is_elf m elf \<and>
      e_machine (elf_header_at m elf) = EM_RISCV \<and> e_type (elf_header_at m elf) = ET_EXEC \<and> ptable p \<noteq> NULL \<and>
      privilege_mode p = PS_PRIV_USER \<and>
      \<not> (page_down vs < spawn_thread_start sy \<and> spawn_thread_start sy < page_up ve) \<and>
      f_sepc (frame p') = e_entry (elf_header_at m elf) \<and> num_image_pages p' = elf_pages vs ve \<and>
      (\<exists>m1 m2. page_znalloc hs m (sint (ucast (elf_pages vs ve) :: u32)) = (m1, image p') \<and>
        mmu_map_multiple hs m2 (ptable p) (page_down vs) (image p') (elf_pages vs ve * 4096) 0x1e = Some m')"
  using assms
  by (auto simp: elf_load_def Let_def split: if_splits prod.splits option.splits)

text \<open>
  A program that is refused leaves the memory and the process as they were. A program that is
  loaded is an executable RISC-V file with a loadable segment, for a user process that has a page
  table; its pages do not cover the start of the trampoline; the process will start at the entry
  point, and the pages of its image are those that were allocated and mapped.
\<close>

theorem elf_load_checks:
  assumes "elf_load hs sy False m p elf = Some (m', p', c)"
  shows "(c \<noteq> 0 \<longrightarrow> m' = m \<and> p' = p) \<and>
    (c = 0 \<longrightarrow> is_elf m elf \<and> e_machine (elf_header_at m elf) = 243 \<and> e_type (elf_header_at m elf) = 2 \<and>
      ptable p \<noteq> NULL \<and> privilege_mode p = PS_PRIV_USER \<and>
      (\<exists>ph \<in> set (program_headers m elf). p_type ph = 1) \<and> f_sepc (frame p') = e_entry (elf_header_at m elf) \<and>
      (\<exists>vs ve m1 m2. elf_range (program_headers m elf) 0 0 False = (vs, ve, True) \<and>
        \<not> (page_down vs < spawn_thread_start sy \<and> spawn_thread_start sy < page_up ve) \<and>
        num_image_pages p' = elf_pages vs ve \<and>
        page_znalloc hs m (sint (ucast (elf_pages vs ve) :: u32)) = (m1, image p') \<and>
        mmu_map_multiple hs m2 (ptable p) (page_down vs) (image p') (elf_pages vs ve * 4096) 0x1e = Some m'))"
  using elf_load_cases [OF assms] elf_range_fresh [of "program_headers m elf" 0 0] by blast

theorem elf_segments_fit_witness:
  "unat (page_down 0x11ff0) + 4096 * unat (elf_pages 0x11ff0 0x13010) \<ge> 0x13010"
  using elf_segments_fit [of "[\<lparr>p_type = 1, p_offset = 0, p_vaddr = 0x12000, p_memsz = 0x1010\<rparr>,
      \<lparr>p_type = 1, p_offset = 0, p_vaddr = 0x11ff0, p_memsz = 8\<rparr>]" "0x11ff0" "0x13010" True] by simp

text \<open>A file with one empty segment.\<close>

definition demo_elf :: mem where
  "demo_elf = (\<lambda>_. 0)(0x1000 := 0x7f, 0x1001 := 0x45, 0x1002 := 0x4c, 0x1003 := 0x46, 0x1010 := 2, 0x1012 := 243,
     0x101a := 1, 0x1020 := 64, 0x1038 := 1, 0x1040 := 1, 0x1052 := 1)"

definition demo_user :: process where
  "demo_user = zero_process\<lparr>ptable := 0x80002000, privilege_mode := PS_PRIV_USER\<rparr>"

definition demo_syms :: spawn_syms where
  "demo_syms = \<lparr>spawn_thread_start = 0, spawn_thread_end = 0, spawn_trap_start = 0, spawn_trap_end = 0,
     idle_code_start = 0, idle_code_end = 0\<rparr>"

lemma demo_elf_header:
  "elf_header_at demo_elf 0x1000 = \<lparr>e_type = 2, e_machine = 243, e_entry = 0x10000, e_phoff = 64, e_phnum = 1\<rparr>"
  "program_headers demo_elf 0x1000 = [\<lparr>p_type = 1, p_offset = 0, p_vaddr = 0x10000, p_memsz = 0\<rparr>]"
  "is_elf demo_elf 0x1000"
  by (simp_all add: elf_header_at_def program_headers_def program_header_at_def is_elf_def load16_def load32_def load64_def
      demo_elf_def upt_rec)

theorem elf_load_checks_witness:
  "\<exists>m' p'. elf_load demo_heap demo_syms False demo_elf demo_user 0x1000 = Some (m', p', 0) \<and> f_sepc (frame p') = 0x10000"
proof -
  obtain m1 img where z: "page_znalloc demo_heap demo_elf (sint (ucast (elf_pages 0x10000 0x10000) :: u32)) = (m1, img)"
    by fastforce
  have "elf_pages 0x10000 0x10000 = 0" by (simp add: elf_pages_def page_up_def page_down_def)
  then obtain m' p' where "elf_load demo_heap demo_syms False demo_elf demo_user 0x1000 = Some (m', p', 0)"
    using z by (simp add: elf_load_def demo_elf_header demo_user_def demo_syms_def mmu_map_multiple_def map_multiple_from.simps Let_def)
  then show ?thesis using elf_load_checks demo_elf_header by fastforce
qed

end
