(* ===== verification/Uaccess.thy ===== *)
theory Uaccess
  imports Mmu
begin

text \<open>
  Copies between the kernel and a process, \<^verbatim>\<open>src/uaccess.c\<close>: the user range is walked page
  by page, each page is translated with the process's page table, and the part of it inside the
  range is copied with \<open>memcpy\<close>. The kernel addresses are identity mapped, as the code notes.
\<close>

section \<open>Model\<close>

text \<open>\<open>PAGE_SIZE - (walking_user_vaddr % PAGE_SIZE)\<close>, at most the bytes left.\<close>

definition chunk_size :: "u64 \<Rightarrow> u32 \<Rightarrow> u32" where
  "chunk_size walking_user_vaddr sz =
     (let copy_size = ucast (4096 - (walking_user_vaddr mod 4096)) in
      if copy_size > sz then sz else copy_size)"

lemma unat_chunk_size:
  "unat (chunk_size u sz) = min (4096 - unat u mod 4096) (unat sz)"
proof -
  have lt: "unat (u mod 4096) < 4096" by (simp add: unat_mod)
  have "unat (4096 - u mod 4096) = 4096 - unat u mod 4096"
    using lt unat_sub [of "u mod 4096" 4096] by (simp add: word_le_nat_alt unat_mod)
  moreover have "unat (ucast (4096 - u mod 4096) :: u32) = unat (4096 - u mod 4096)"
    using calculation by (simp add: unsigned_ucast_eq take_bit_nat_eq_self)
  ultimately have c: "unat (ucast (4096 - u mod 4096) :: u32) = 4096 - unat u mod 4096" by simp
  show ?thesis
    unfolding chunk_size_def Let_def word_less_nat_alt c by (auto simp: c)
qed

lemma chunk_size_pos: "sz \<noteq> 0 \<Longrightarrow> 0 < unat (chunk_size u sz)"
  by (simp add: unat_chunk_size unat_gt_0)

lemma unat_rest: "unat (sz - chunk_size u sz) = unat sz - unat (chunk_size u sz)"
  by (rule unat_sub) (simp add: word_le_nat_alt unat_chunk_size)

function copy_to_user :: "mem \<Rightarrow> u64 \<Rightarrow> u64 \<Rightarrow> u64 \<Rightarrow> u32 \<Rightarrow> mem \<times> int" where
  "copy_to_user m ptable os_vaddr user_vaddr sz =
     (if sz > 0 then
        (let user_paddr = mmu_translate m ptable user_vaddr in
         if user_paddr = - 1 then (m, 1)
         else
           (let copy_size = chunk_size user_vaddr sz;
                m1 = memcpy m user_paddr os_vaddr (sint copy_size)
            in copy_to_user m1 ptable (os_vaddr + ucast copy_size) (user_vaddr + ucast copy_size)
                 (sz - copy_size)))
      else (m, 0))"
  by pat_completeness auto
termination
proof (relation "measure (\<lambda>(m, pt, os, u, sz). unat sz)", goal_cases)
  case (2 m pt os u sz)
  then show ?case using chunk_size_pos [of sz u] unat_rest [of sz u] unat_chunk_size [of u sz]
    by (simp add: word_neq_0_conv)
qed simp

function copy_to_os :: "mem \<Rightarrow> u64 \<Rightarrow> u64 \<Rightarrow> u64 \<Rightarrow> u32 \<Rightarrow> mem \<times> int" where
  "copy_to_os m ptable os_vaddr user_vaddr sz =
     (if sz > 0 then
        (let user_paddr = mmu_translate m ptable user_vaddr in
         if user_paddr = - 1 then (m, 1)
         else
           (let copy_size = chunk_size user_vaddr sz;
                m1 = memcpy m os_vaddr user_paddr (sint copy_size)
            in copy_to_os m1 ptable (os_vaddr + ucast copy_size) (user_vaddr + ucast copy_size)
                 (sz - copy_size)))
      else (m, 0))"
  by pat_completeness auto
termination
proof (relation "measure (\<lambda>(m, pt, os, u, sz). unat sz)", goal_cases)
  case (2 m pt os u sz)
  then show ?case using chunk_size_pos [of sz u] unat_rest [of sz u] unat_chunk_size [of u sz]
    by (simp add: word_neq_0_conv)
qed simp

declare copy_to_user.simps [simp del] copy_to_os.simps [simp del]

section \<open>Translation within a page and under writes elsewhere\<close>

lemma mmu_translate_cong:
  assumes "pt_shape L ow m pt"
    and "\<And>t p x. L t = Some p \<Longrightarrow> inside x t \<Longrightarrow> m' x = m x"
  shows "mmu_translate m' pt v = mmu_translate m pt v"
proof -
  have shape': "pt_shape L ow m' pt" by (rule pt_leaf_cong(2)) fact+
  have "pt_leaf m' pt v = pt_leaf m pt v" by (rule pt_leaf_cong(1)) fact+
  then show ?thesis
    by (simp only: mmu_translate_leaf [OF assms(1)] mmu_translate_leaf [OF shape'])
qed

lemma unat_add_in_page:
  assumes "unat u mod 4096 + k < 4096"
  shows "unat (u + of_nat k :: u64) = unat u + k" "(unat u + k) div 4096 = unat u div 4096"
    "(unat u + k) mod 4096 = unat u mod 4096 + k"
proof -
  have "unat u = 4096 * (unat u div 4096) + unat u mod 4096" by simp
  moreover have "unat u div 4096 < 4503599627370496"
    using unat_lt_64 [of u] by (intro less_mult_imp_div_less) simp
  ultimately have "unat u + k < 18446744073709551616" using assms by linarith
  then show "unat (u + of_nat k :: u64) = unat u + k" by (intro unat_add_of_nat) simp
  have "unat u + k = 4096 * (unat u div 4096) + (unat u mod 4096 + k)" by simp
  then show "(unat u + k) div 4096 = unat u div 4096" "(unat u + k) mod 4096 = unat u mod 4096 + k"
    using assms by (metis div_mult_self4 div_less add_0_right zero_neq_numeral,
        metis mod_mult_self4 mod_less)
qed

lemma vpn_in_page:
  assumes "unat u mod 4096 + k < 4096"
  shows "vpn (u + of_nat k) i = vpn u i"
proof -
  have d: "x div 2 ^ (12 + 9 * i) = x div 4096 div 2 ^ (9 * i)" for x :: nat
    by (simp add: power_add div_mult2_eq)
  show ?thesis
    unfolding vpn_nat d unat_add_in_page(1,2) [OF assms] ..
qed

lemma leaf_paddr_offset:
  "leaf_paddr e v 0 = leaf_paddr e 0 0 + of_nat (unat v mod 4096)" "leaf_paddr e v 0 \<noteq> - 1"
proof -
  have "take_bit 12 (leaf_paddr e 0 0) = 0"
    by (rule bit_word_eqI) (simp add: bit_take_bit_iff leaf_paddr_bit)
  then have "unat (take_bit 12 (leaf_paddr e 0 0)) = 0" by simp
  then have al: "4096 dvd unat (leaf_paddr e 0 0)" by (simp add: take_bit_eq_mod unat_mod dvd_eq_mod_eq_0)
  have "leaf_paddr e v 0 = leaf_paddr e 0 0 OR (v AND 0xFFF)" by (simp only: leaf_paddr_0) (simp add: or.assoc)
  then show "leaf_paddr e v 0 = leaf_paddr e 0 0 + of_nat (unat v mod 4096)"
    using aligned_or_offset [OF al] by simp
  have "\<not> bit (leaf_paddr e v 0) 63" "bit (- 1 :: u64) 63" by (simp_all add: leaf_paddr_bit)
  then show "leaf_paddr e v 0 \<noteq> - 1" by metis
qed

text \<open>Addresses of one page translate together, at the same offset.\<close>

lemma mmu_translate_in_page:
  assumes "pt_shape L ow m pt" and "unat u mod 4096 + k < 4096"
  shows "mmu_translate m pt (u + of_nat k) =
    (if mmu_translate m pt u = - 1 then - 1 else mmu_translate m pt u + of_nat k)"
proof -
  have leaf: "pt_leaf m pt (u + of_nat k) = pt_leaf m pt u"
    unfolding pt_leaf_def vpn_in_page [OF assms(2)] ..
  have "leaf_paddr e (u + of_nat k) 0 = leaf_paddr e u 0 + of_nat k" for e
    unfolding leaf_paddr_offset(1) [of e "u + of_nat k"] leaf_paddr_offset(1) [of e u]
    by (simp add: unat_add_in_page [OF assms(2)])
  then show ?thesis
    unfolding mmu_translate_leaf [OF assms(1)] leaf using leaf_paddr_offset(2) by (simp add: Let_def)
qed

section \<open>The copy loops\<close>

lemma chunk_bounds:
  fixes u :: u64 and sz :: u32
  assumes "sz \<noteq> 0"
  defines "c \<equiv> unat (chunk_size u sz)"
  shows "0 < c" "c \<le> unat sz" "c \<le> 4096" "unat u mod 4096 + c \<le> 4096"
    "sint (chunk_size u sz) = int c" "(ucast (chunk_size u sz) :: u64) = of_nat c"
    "unat (sz - chunk_size u sz) = unat sz - c"
proof -
  have c: "c = min (4096 - unat u mod 4096) (unat sz)" by (simp add: c_def unat_chunk_size)
  have "unat u mod 4096 < 4096" by simp
  then show "0 < c" "c \<le> unat sz" "c \<le> 4096" "unat u mod 4096 + c \<le> 4096"
    using chunk_size_pos [OF assms(1), of u] c by (auto simp: c_def [symmetric])
  show "unat (sz - chunk_size u sz) = unat sz - c" by (simp add: c_def unat_rest)
  show "(ucast (chunk_size u sz) :: u64) = of_nat c" by (simp add: c_def)
  have "uint (chunk_size u sz) = int c" by (simp add: c_def)
  then show "sint (chunk_size u sz) = int c"
    using \<open>c \<le> 4096\<close> by (simp add: sint_uint signed_take_bit_int_eq_self)
qed

text \<open>Membership in what is left of a range after its first \<open>c\<close> bytes.\<close>

lemma rest_of_range:
  assumes "c \<le> n" and "n < 2 ^ 32"
  shows "unat (x - (a + of_nat c) :: u64) < n - c \<longleftrightarrow> c \<le> unat (x - a) \<and> unat (x - a) < n"
proof -
  have "unat (x - a - of_nat c) = (if c \<le> unat (x - a) then unat (x - a) - c else unat (x - a) + 2 ^ 64 - c)"
    using assms by (intro unat_diff_of_nat) simp
  then show ?thesis using assms by (auto simp: diff_diff_eq)
qed

text \<open>
  The side conditions of the copies: the bytes of the user range are mapped, and the bytes a
  copy writes are neither in a table of the page table nor among the bytes it reads.
\<close>

definition user_mapped :: "mem \<Rightarrow> u64 \<Rightarrow> u64 \<Rightarrow> nat \<Rightarrow> bool" where
  "user_mapped m pt u n \<longleftrightarrow> list_all (\<lambda>k. mmu_translate m pt (u + of_nat k) \<noteq> - 1) [0..<n]"

lemma user_mapped_iff:
  "user_mapped m pt u n \<longleftrightarrow> (\<forall>k < n. mmu_translate m pt (u + of_nat k) \<noteq> - 1)"
  by (auto simp: user_mapped_def list_all_iff)

definition tables_clear :: "(u64 \<Rightarrow> nat list option) \<Rightarrow> u64 set \<Rightarrow> bool" where
  "tables_clear L W \<longleftrightarrow> (\<forall>t p x. L t = Some p \<longrightarrow> inside x t \<longrightarrow> x \<notin> W)"

definition os_range :: "u64 \<Rightarrow> nat \<Rightarrow> u64 set" where
  "os_range a n = {x. unat (x - a) < n}"

lemma os_range_mem [simp]: "x \<in> os_range a n \<longleftrightarrow> unat (x - a) < n"
  by (simp add: os_range_def)

definition user_range :: "mem \<Rightarrow> u64 \<Rightarrow> u64 \<Rightarrow> nat \<Rightarrow> u64 set" where
  "user_range m pt u n = {mmu_translate m pt (u + of_nat k) | k. k < n}"

lemma unat_offset_small: "k < c \<Longrightarrow> c \<le> 4096 \<Longrightarrow> unat (a + of_nat k - a :: u64) = k"
  by (simp add: unat_of_nat_64)

text \<open>The part of the user range in its first page is contiguous in physical memory.\<close>

lemma user_chunk:
  assumes shape: "pt_shape L ow m pt" and sz: "sz \<noteq> 0" and m: "mmu_translate m pt u \<noteq> - 1"
    and k: "k < unat (chunk_size u sz)"
  shows "mmu_translate m pt (u + of_nat k) = mmu_translate m pt u + of_nat k"
proof -
  have "unat u mod 4096 + k < 4096" using chunk_bounds(4) [OF sz, of u] k by linarith
  then show ?thesis using mmu_translate_in_page [OF shape] m by simp
qed

lemma copy_to_os_correct_aux:
  "pt_shape L ow m pt \<Longrightarrow> tables_clear L (os_range os (unat sz)) \<Longrightarrow>
   user_mapped m pt u (unat sz) \<Longrightarrow>
   user_range m pt u (unat sz) \<inter> os_range os (unat sz) = {} \<Longrightarrow>
   \<exists>m'. copy_to_os m pt os u sz = (m', 0) \<and>
     (\<forall>x. m' x = (if unat (x - os) < unat sz then m (mmu_translate m pt (u + (x - os))) else m x))"
proof (induction m pt os u sz rule: copy_to_os.induct)
  case (1 m pt os u sz)
  show ?case
  proof (cases "sz = 0")
    case True
    then show ?thesis by (simp add: copy_to_os.simps)
  next
    case False
    let ?p = "mmu_translate m pt u" and ?c = "unat (chunk_size u sz)" and ?n = "unat sz"
    note b = chunk_bounds [OF False, of u]
    note shape = "1.prems"(1)
    have n: "?n < 2 ^ 32" using unsigned_less [of sz] by simp
    have pos: "0 < sz" using False by (simp add: word_gt_0)
    have "0 < ?n" using b(1,2) by linarith
    then have p: "?p \<noteq> - 1" using "1.prems"(3) unfolding user_mapped_iff by force
    note chunk = user_chunk [OF shape False p]
    have dis: "\<not> unat (mmu_translate m pt (u + of_nat k) - os) < ?n" if "k < ?n" for k
      using "1.prems"(4) that unfolding user_range_def by auto
    have ap: "apart os ?c ?p ?c"
      unfolding apart_def
    proof (intro allI notI)
      fix x
      assume x: "unat (x - os) < ?c \<and> unat (x - ?p) < ?c"
      then have "mmu_translate m pt (u + (x - ?p)) = x" using chunk [of "unat (x - ?p)"] by simp
      then show False using dis [of "unat (x - ?p)"] x b(2) by auto
    qed
    define m1 where "m1 = copy m os ?p ?c"
    have mc: "memcpy m os ?p (sint (chunk_size u sz)) = m1"
      unfolding b(5) m1_def by (rule memcpy_nat [OF _ ap]) (use b(3) in simp)
    then have step: "copy_to_os m pt os u sz =
        copy_to_os m1 pt (os + of_nat ?c) (u + of_nat ?c) (sz - chunk_size u sz)"
      using False p b(6) by (simp add: copy_to_os.simps [of m pt os u sz] Let_def word_gt_0)
    have clear: "m1 x = m x" if "L t = Some q" "inside x t" for t q x
      using "1.prems"(2) that b(2) unfolding tables_clear_def m1_def copy_def os_range_mem
      by (metis less_le_trans)
    have shape1: "pt_shape L ow m1 pt" by (rule pt_leaf_cong(2) [OF shape]) (rule clear)
    have tr: "mmu_translate m1 pt v = mmu_translate m pt v" for v
      by (rule mmu_translate_cong [OF shape]) (rule clear)
    have off: "u + of_nat ?c + of_nat k = u + of_nat (?c + k)" for k by simp
    note rest = rest_of_range [OF b(2) n]
    have 1: "tables_clear L (os_range (os + of_nat ?c) (?n - ?c))"
      using "1.prems"(2) unfolding tables_clear_def os_range_mem rest by blast
    have 2: "user_mapped m1 pt (u + of_nat ?c) (?n - ?c)"
      using "1.prems"(3) unfolding user_mapped_iff tr off
      by (simp add: less_diff_conv add.commute [of _ ?c] del: of_nat_add)
    have 3: "user_range m1 pt (u + of_nat ?c) (?n - ?c) \<inter> os_range (os + of_nat ?c) (?n - ?c) = {}"
      using dis unfolding user_range_def tr off disjoint_iff os_range_mem rest
      by (auto simp del: of_nat_add of_nat_unat simp: less_diff_conv add.commute [of _ ?c])
    have "\<exists>m'. copy_to_os m1 pt (os + of_nat ?c) (u + of_nat ?c) (sz - chunk_size u sz) = (m', 0) \<and>
      (\<forall>x. m' x = (if unat (x - (os + of_nat ?c)) < ?n - ?c
         then m1 (mmu_translate m1 pt (u + of_nat ?c + (x - (os + of_nat ?c)))) else m1 x))"
      by (rule "1.IH" [OF pos refl p refl mc [symmetric], unfolded b(6,7), OF shape1 1 2 3])
    then obtain m' where m': "copy_to_os m pt os u sz = (m', 0)"
      "\<And>x. m' x = (if ?c \<le> unat (x - os) \<and> unat (x - os) < ?n
         then m1 (mmu_translate m pt (u + (x - os))) else m1 x)"
      unfolding step rest tr by auto
    have "m' x = (if unat (x - os) < ?n then m (mmu_translate m pt (u + (x - os))) else m x)" for x
    proof -
      consider "unat (x - os) < ?c" | "?c \<le> unat (x - os)" "unat (x - os) < ?n" | "?n \<le> unat (x - os)"
        by linarith
      then show ?thesis
      proof cases
        case 1
        then show ?thesis
          using m'(2) [of x] chunk [OF 1] b(2) by (simp add: m1_def copy_def)
      next
        case 2
        then show ?thesis
          using m'(2) [of x] dis [OF 2(2)] b(2) by (simp add: m1_def copy_def)
      next
        case 3
        then show ?thesis
          using m'(2) [of x] b(2) by (simp add: m1_def copy_def)
      qed
    qed
    then show ?thesis using m'(1) by blast
  qed
qed

lemma copy_to_user_correct_aux:
  "pt_shape L ow m pt \<Longrightarrow> tables_clear L (user_range m pt u (unat sz)) \<Longrightarrow>
   user_mapped m pt u (unat sz) \<Longrightarrow> inj_on (\<lambda>k. mmu_translate m pt (u + of_nat k)) {..<unat sz} \<Longrightarrow>
   user_range m pt u (unat sz) \<inter> os_range os (unat sz) = {} \<Longrightarrow>
   \<exists>m'. copy_to_user m pt os u sz = (m', 0) \<and>
     (\<forall>k < unat sz. m' (mmu_translate m pt (u + of_nat k)) = m (os + of_nat k)) \<and>
     (\<forall>x. x \<notin> user_range m pt u (unat sz) \<longrightarrow> m' x = m x)"
proof (induction m pt os u sz rule: copy_to_user.induct)
  case (1 m pt os u sz)
  show ?case
  proof (cases "sz = 0")
    case True
    then show ?thesis by (simp add: copy_to_user.simps)
  next
    case False
    let ?p = "mmu_translate m pt u" and ?c = "unat (chunk_size u sz)" and ?n = "unat sz"
    let ?tr = "\<lambda>k. mmu_translate m pt (u + of_nat k)"
    note b = chunk_bounds [OF False, of u]
    note shape = "1.prems"(1)
    have n: "?n < 2 ^ 32" using unsigned_less [of sz] by simp
    have pos: "0 < sz" using False by (simp add: word_gt_0)
    have "0 < ?n" using b(1,2) by linarith
    then have p: "?p \<noteq> - 1" using "1.prems"(3) unfolding user_mapped_iff by force
    note chunk = user_chunk [OF shape False p]
    have dis: "\<not> unat (?tr k - os) < ?n" if "k < ?n" for k
      using "1.prems"(5) that unfolding user_range_def by auto
    have inj: "?tr j = ?tr k \<longleftrightarrow> j = k" if "j < ?n" "k < ?n" for j k
      using inj_on_eq_iff [OF "1.prems"(4)] that by auto
    have in_chunk: "\<exists>k < ?c. x = ?tr k" if "unat (x - ?p) < ?c" for x
      using chunk [OF that] that by (intro exI [of _ "unat (x - ?p)"]) simp
    have ap: "apart ?p ?c os ?c"
      unfolding apart_def
    proof (intro allI notI)
      fix x
      assume x: "unat (x - ?p) < ?c \<and> unat (x - os) < ?c"
      then obtain k where "k < ?c" "x = ?tr k" using in_chunk by blast
      then show False using dis [of k] x b(2) by auto
    qed
    define m1 where "m1 = copy m ?p os ?c"
    have mc: "memcpy m ?p os (sint (chunk_size u sz)) = m1"
      unfolding b(5) m1_def by (rule memcpy_nat [OF _ ap]) (use b(3) in simp)
    then have step: "copy_to_user m pt os u sz =
        copy_to_user m1 pt (os + of_nat ?c) (u + of_nat ?c) (sz - chunk_size u sz)"
      using False p b(6) by (simp add: copy_to_user.simps [of m pt os u sz] Let_def word_gt_0)
    have m1_out: "m1 x = m x" if "\<And>k. k < ?c \<Longrightarrow> x \<noteq> ?tr k" for x
      using in_chunk [of x] that by (auto simp: m1_def copy_def)
    have m1_in: "m1 (?tr k) = m (os + of_nat k)" if "k < ?c" for k
      using chunk [OF that] unat_offset_small [OF that b(3), of ?p] that by (simp add: m1_def copy_def)
    have clear: "m1 x = m x" if "L t = Some q" "inside x t" for t q x
      using "1.prems"(2) that b(2) unfolding tables_clear_def user_range_def
      by (intro m1_out) (metis (mono_tags, lifting) less_le_trans mem_Collect_eq)
    have shape1: "pt_shape L ow m1 pt" by (rule pt_leaf_cong(2) [OF shape]) (rule clear)
    have tr: "mmu_translate m1 pt v = mmu_translate m pt v" for v
      by (rule mmu_translate_cong [OF shape]) (rule clear)
    have off: "u + of_nat ?c + of_nat k = u + of_nat (?c + k)" for k by simp
    have off': "os + of_nat ?c + of_nat k = os + of_nat (?c + k)" for k by simp
    note rest = rest_of_range [OF b(2) n]
    have ur: "user_range m1 pt (u + of_nat ?c) (?n - ?c) = {?tr (?c + k) | k. ?c + k < ?n}"
      unfolding user_range_def tr off by (simp add: less_diff_conv add.commute del: of_nat_add)
    have sub: "user_range m1 pt (u + of_nat ?c) (?n - ?c) \<subseteq> user_range m pt u ?n"
      unfolding ur unfolding user_range_def by blast
    have 1: "tables_clear L (user_range m1 pt (u + of_nat ?c) (?n - ?c))"
      using "1.prems"(2) sub unfolding tables_clear_def by blast
    have 2: "user_mapped m1 pt (u + of_nat ?c) (?n - ?c)"
      using "1.prems"(3) unfolding user_mapped_iff tr off
      by (simp add: less_diff_conv add.commute [of _ ?c] del: of_nat_add)
    have 3: "inj_on (\<lambda>k. mmu_translate m1 pt (u + of_nat ?c + of_nat k)) {..<?n - ?c}"
      unfolding tr off using inj by (intro inj_onI) (simp del: of_nat_add)
    have 4: "user_range m1 pt (u + of_nat ?c) (?n - ?c) \<inter> os_range (os + of_nat ?c) (?n - ?c) = {}"
      using dis unfolding ur disjoint_iff os_range_mem rest by (auto simp del: of_nat_add of_nat_unat)
    note ih = "1.IH" [OF pos refl p refl mc [symmetric], unfolded b(6,7), OF shape1 1 2 3 4]
    obtain m' where m': "copy_to_user m pt os u sz = (m', 0)"
      "\<And>k. k < ?n - ?c \<Longrightarrow> m' (mmu_translate m1 pt (u + of_nat ?c + of_nat k)) = m1 (os + of_nat ?c + of_nat k)"
      "\<And>x. x \<notin> user_range m1 pt (u + of_nat ?c) (?n - ?c) \<Longrightarrow> m' x = m1 x"
      using ih unfolding step by blast
    have "m' (?tr k) = m (os + of_nat k)" if k: "k < ?n" for k
    proof (cases "k < ?c")
      case True
      then have "?tr k \<notin> user_range m1 pt (u + of_nat ?c) (?n - ?c)"
        unfolding ur using inj k by (auto simp del: of_nat_add)
      then show ?thesis using m'(3) m1_in [OF True] by simp
    next
      case False
      then obtain j where j: "k = ?c + j" "j < ?n - ?c" using k by (metis add_diff_inverse_nat diff_less_mono not_less)
      have "m' (?tr k) = m1 (os + of_nat k)"
        using m'(2) [OF j(2)] unfolding tr off off' j(1) .
      moreover have "m1 (os + of_nat k) = m (os + of_nat k)"
      proof (rule m1_out)
        fix i
        assume "i < ?c"
        moreover have "unat (os + of_nat k - os) = k" using k n by (simp add: unat_of_nat_64)
        ultimately show "os + of_nat k \<noteq> ?tr i" using dis [of i] k b(2) by (metis less_le_trans)
      qed
      ultimately show ?thesis by simp
    qed
    moreover have "m' x = m x" if "x \<notin> user_range m pt u ?n" for x
    proof -
      have "m' x = m1 x" using m'(3) that sub by blast
      also have "\<dots> = m x"
        using that b(2) unfolding user_range_def by (intro m1_out) fastforce
      finally show ?thesis .
    qed
    ultimately show ?thesis using m'(1) by blast
  qed
qed

text \<open>An unmapped first page is reported at once.\<close>

lemma copy_unmapped:
  assumes "sz \<noteq> 0" and "mmu_translate m pt u = - 1"
  shows "copy_to_os m pt os u sz = (m, 1)" "copy_to_user m pt os u sz = (m, 1)"
  using assms by (simp_all add: copy_to_os.simps [of m pt os u sz] copy_to_user.simps [of m pt os u sz]
      word_gt_0)

section \<open>Properties\<close>

text \<open>
  C27: when the user range is mapped and the kernel buffer meets neither the page tables nor the
  physical bytes of the range, \<open>copy_to_os\<close> returns 0, the buffer holds the user's bytes as its
  page table translates them, page boundaries included, and no other byte changes.
\<close>

theorem copy_to_os_correct:
  assumes "pt_shape L ow m pt" and "tables_clear L (os_range os (unat sz))"
    and "user_mapped m pt u (unat sz)"
    and "user_range m pt u (unat sz) \<inter> os_range os (unat sz) = {}"
  shows "\<exists>m'. copy_to_os m pt os u sz = (m', 0) \<and>
    (\<forall>x. m' x = (if unat (x - os) < unat sz then m (mmu_translate m pt (u + (x - os))) else m x))"
  using copy_to_os_correct_aux [OF assms] .

text \<open>
  When the user range is mapped to distinct physical bytes that meet neither the page tables
  nor the kernel buffer, \<open>copy_to_user\<close> returns 0, every user byte then holds the corresponding
  byte of the buffer, and no byte outside the user range changes.
\<close>

theorem copy_to_user_correct:
  assumes "pt_shape L ow m pt" and "tables_clear L (user_range m pt u (unat sz))"
    and "user_mapped m pt u (unat sz)" and "inj_on (\<lambda>k. mmu_translate m pt (u + of_nat k)) {..<unat sz}"
    and "user_range m pt u (unat sz) \<inter> os_range os (unat sz) = {}"
  shows "\<exists>m'. copy_to_user m pt os u sz = (m', 0) \<and>
    (\<forall>k < unat sz. m' (mmu_translate m pt (u + of_nat k)) = m (os + of_nat k)) \<and>
    (\<forall>x. x \<notin> user_range m pt u (unat sz) \<longrightarrow> m' x = m x)"
  using copy_to_user_correct_aux [OF assms] .

section \<open>A concrete user page\<close>

definition demo_user_mem :: mem where
  "demo_user_mem = fst (mmu_map demo_heap60 demo_pt_mem demo_root 0x40000000 0x90000000 6)"

lemma demo_user_wf: "pt_wf demo_heap60 demo_user_mem demo_root"
  "mmu_translate demo_user_mem demo_root w =
     (if same_page w 0x40000000 then 0x90000000 OR (w AND 0xFFF) else - 1)"
proof -
  obtain m' r where res: "mmu_map demo_heap60 demo_pt_mem demo_root 0x40000000 0x90000000 6 = (m', r)"
    by fastforce
  note c = mmu_map_translate [OF demo60_pt_wf demo60_missing _ _ _ _ res]
  show "pt_wf demo_heap60 demo_user_mem demo_root"
    "mmu_translate demo_user_mem demo_root w =
     (if same_page w 0x40000000 then 0x90000000 OR (w AND 0xFFF) else - 1)"
    using c(2) c(3) [of w] by (simp_all add: demo60_translate demo_user_mem_def res)
qed

lemma demo_user_translate:
  assumes "k < 16"
  shows "mmu_translate demo_user_mem demo_root (0x40000010 + of_nat k) = 0x90000010 + of_nat k"
proof -
  obtain L where L: "pt_shape L (page_owned demo_heap60 demo_user_mem) demo_user_mem demo_root"
    using demo_user_wf(1) by (auto simp: pt_wf_def)
  have "mmu_translate demo_user_mem demo_root 0x40000010 = 0x90000010"
    by (simp add: demo_user_wf(2) same_page_def vpn_def)
  then show ?thesis using mmu_translate_in_page [OF L, of "0x40000010" k] assms by simp
qed

lemma demo_table_addr:
  assumes "page_owned demo_heap60 m t" and "inside x t"
  shows "x < 0x90000000"
proof -
  obtain i where i: "i < 60" "t = page_addr demo_heap60 i"
    using assms(1) by (auto simp: page_owned_iff demo60_sizes)
  then obtain j where j: "j < 4096" "unat (x - 0x80000000) = 4096 * (1 + i) + j"
    using page_addr_offset_diff [OF demo60_ok _ assms(2) [unfolded i(2)]]
    unfolding demo60_book demo60_start demo60_sizes by (metis less_imp_le)
  have "unat (x - 0x80000000) < 0x10000000" using j i by simp
  then have lt: "x - 0x80000000 < 0x10000000" by (simp add: word_less_nat_alt)
  have "unat (0x80000000 + of_nat (unat (x - 0x80000000)) :: u64) = 0x80000000 + unat (x - 0x80000000)"
    using j i by (subst unat_add_of_nat) simp_all
  then have "unat x = 0x80000000 + unat (x - 0x80000000)" by simp
  then show ?thesis using \<open>unat (x - 0x80000000) < 0x10000000\<close> by (simp add: word_less_nat_alt)
qed

lemma demo_user_clear:
  obtains L where "pt_shape L (page_owned demo_heap60 demo_user_mem) demo_user_mem demo_root"
    "tables_clear L {0x90000000..}"
proof -
  obtain L where L: "pt_shape L (page_owned demo_heap60 demo_user_mem) demo_user_mem demo_root"
    using demo_user_wf(1) by (auto simp: pt_wf_def)
  moreover have "tables_clear L {0x90000000..}"
    unfolding tables_clear_def using demo_table_addr pt_shape_owned [OF L] by fastforce
  ultimately show ?thesis by (rule that)
qed

lemma tables_clear_mono: "tables_clear L W \<Longrightarrow> V \<subseteq> W \<Longrightarrow> tables_clear L V"
  unfolding tables_clear_def by blast

lemma demo_ranges:
  "os_range 0xA0000000 16 \<subseteq> {0x90000000..}"
  "user_range demo_user_mem demo_root 0x40000010 16 = (\<lambda>k. 0x90000010 + of_nat k) ` {..<16}"
  "user_range demo_user_mem demo_root 0x40000010 16 \<subseteq> {0x90000000..}"
  "user_range demo_user_mem demo_root 0x40000010 16 \<inter> os_range 0xA0000000 16 = {}"
proof -
  have o: "\<exists>k < 16. x = 0xA0000000 + of_nat k" if "unat (x - 0xA0000000) < 16" for x :: u64
    using that by (intro exI [of _ "unat (x - 0xA0000000)"]) simp
  have ua: "unat (0xA0000000 + of_nat k :: u64) = 0xA0000000 + k" if "k < 16" for k
    using that by (subst unat_add_of_nat) simp_all
  have ub: "unat (0x90000010 + of_nat k :: u64) = 0x90000010 + k" if "k < 16" for k
    using that by (subst unat_add_of_nat) simp_all
  show "os_range 0xA0000000 16 \<subseteq> {0x90000000..}"
    using o ua by (fastforce simp: os_range_def word_le_nat_alt)
  show u: "user_range demo_user_mem demo_root 0x40000010 16 = (\<lambda>k. 0x90000010 + of_nat k) ` {..<16}"
    unfolding user_range_def image_def using demo_user_translate by (metis (lifting) lessThan_iff)
  show "user_range demo_user_mem demo_root 0x40000010 16 \<subseteq> {0x90000000..}"
    unfolding u using ub by (auto simp: word_le_nat_alt)
  show "user_range demo_user_mem demo_root 0x40000010 16 \<inter> os_range 0xA0000000 16 = {}"
    unfolding u using ua ub o by (fastforce simp: os_range_def word_unat_eq_iff)
qed

lemma demo_user_mapped: "user_mapped demo_user_mem demo_root 0x40000010 16"
proof -
  have "(0x90000010 + of_nat k :: u64) \<noteq> - 1" if "k < 16" for k
  proof -
    have "unat (0x90000010 + of_nat k :: u64) < 2 ^ 63" using that by (subst unat_add_of_nat) simp_all
    then have "\<not> bit (0x90000010 + of_nat k :: u64) 63" by (rule small_bits) simp
    moreover have "bit (- 1 :: u64) 63" by simp
    ultimately show ?thesis by metis
  qed
  then show ?thesis using demo_user_translate unfolding user_mapped_iff by metis
qed

theorem copy_to_os_correct_witness:
  "\<exists>m'. copy_to_os demo_user_mem demo_root 0xA0000000 0x40000010 16 = (m', 0) \<and>
     m' 0xA0000003 = demo_user_mem 0x90000013"
proof -
  obtain L where L: "pt_shape L (page_owned demo_heap60 demo_user_mem) demo_user_mem demo_root"
    "tables_clear L {0x90000000..}" using demo_user_clear .
  have sz: "unat (16 :: u32) = 16" by simp
  show ?thesis
    using copy_to_os_correct [OF L(1), of "0xA0000000" 16 "0x40000010", unfolded sz,
        OF tables_clear_mono [OF L(2) demo_ranges(1)] demo_user_mapped demo_ranges(4)]
      demo_user_translate [of 3] by auto
qed

theorem copy_to_user_correct_witness:
  "\<exists>m'. copy_to_user demo_user_mem demo_root 0xA0000000 0x40000010 16 = (m', 0) \<and>
     m' 0x90000013 = demo_user_mem 0xA0000003"
proof -
  obtain L where L: "pt_shape L (page_owned demo_heap60 demo_user_mem) demo_user_mem demo_root"
    "tables_clear L {0x90000000..}" using demo_user_clear .
  have sz: "unat (16 :: u32) = 16" by simp
  have "inj_on (\<lambda>k. mmu_translate demo_user_mem demo_root (0x40000010 + of_nat k)) {..<16}"
  proof (rule inj_onI)
    fix j k :: nat
    assume "j \<in> {..<16}" "k \<in> {..<16}"
      "mmu_translate demo_user_mem demo_root (0x40000010 + of_nat j) =
       mmu_translate demo_user_mem demo_root (0x40000010 + of_nat k)"
    then show "j = k" using of_nat_inj_64 [of j k] by (simp add: demo_user_translate)
  qed
  then obtain m' where m': "copy_to_user demo_user_mem demo_root 0xA0000000 0x40000010 16 = (m', 0)"
    "\<And>k. k < 16 \<Longrightarrow> m' (mmu_translate demo_user_mem demo_root (0x40000010 + of_nat k)) =
      demo_user_mem (0xA0000000 + of_nat k)"
    using copy_to_user_correct [OF L(1), of "0x40000010" 16 "0xA0000000", unfolded sz,
        OF tables_clear_mono [OF L(2) demo_ranges(3)] demo_user_mapped _ demo_ranges(4)] by auto
  then show ?thesis using m'(2) [of 3] demo_user_translate [of 3] by simp
qed

end
