(* ===== verification/Elf_Image.thy ===== *)
theory Elf_Image
  imports Elf Uaccess
begin

text \<open>
  What a loaded program finds in its memory: the loader of \<open>Elf\<close> composed with the page allocator,
  the memory copies and the page tables. The file is in pages that are owned and are not tables of the
  process, as is a buffer of the kernel heap, so neither the new image nor new tables overwrite it.
\<close>

section \<open>Copying the segments\<close>

definition covers :: "u64 \<Rightarrow> program_header \<Rightarrow> bool" where
  "covers w h \<longleftrightarrow> p_type h = PT_LOAD \<and> unat (w - p_vaddr h) < unat (p_memsz h)"

text \<open>The byte of the image at a virtual address: that of the last segment over it, else zero.\<close>

definition image_byte :: "mem \<Rightarrow> u64 \<Rightarrow> u64 \<Rightarrow> u8" where
  "image_byte m elf w =
     (case find (covers w) (rev (program_headers m elf)) of
        None \<Rightarrow> 0
      | Some h \<Rightarrow> m (elf + p_offset h + (w - p_vaddr h)))"

lemma load16_cong: "(\<And>x. unat (x - a) < 2 \<Longrightarrow> m x = m' x) \<Longrightarrow> load16 m a = load16 m' a"
  by (simp add: load16_def)

lemma load32_cong: "(\<And>x. unat (x - a) < 4 \<Longrightarrow> m x = m' x) \<Longrightarrow> load32 m a = load32 m' a"
  by (simp add: load32_def)

lemma find_rev_SomeD: "find c (rev xs) = Some x \<Longrightarrow> x \<in> set xs \<and> c x"
  by (induction xs rule: rev_induct) (auto split: if_splits)

lemma foldl_find_rev:
  "foldl (\<lambda>b h. if c h then f h else b) b0 xs = (case find c (rev xs) of None \<Rightarrow> b0 | Some h \<Rightarrow> f h)"
  by (induction xs arbitrary: b0 rule: rev_induct) auto

text \<open>The bytes of the file: the headers and the segments lie in its first \<open>len\<close> bytes.\<close>

definition elf_file :: "mem \<Rightarrow> u64 \<Rightarrow> nat \<Rightarrow> bool" where
  "elf_file m elf len \<longleftrightarrow> 64 \<le> len \<and> len < 2 ^ 32 \<and>
     unat (e_phoff (elf_header_at m elf)) + 56 * unat (e_phnum (elf_header_at m elf)) \<le> len \<and>
     list_all (\<lambda>h. p_type h = PT_LOAD \<longrightarrow> unat (p_offset h) + unat (p_memsz h) \<le> len \<and> unat (p_memsz h) < 2 ^ 31)
       (program_headers m elf)"

definition same_file :: "mem \<Rightarrow> mem \<Rightarrow> u64 \<Rightarrow> nat \<Rightarrow> bool" where
  "same_file m m' elf len \<longleftrightarrow> (\<forall>k < len. m' (elf + of_nat k) = m (elf + of_nat k))"

lemma same_file_at:
  assumes "same_file m m' elf len" and "k + n \<le> len" and "unat (x - (elf + of_nat k)) < n"
  shows "m' x = m x"
proof -
  define j where "j = unat (x - (elf + of_nat k))"
  have "x = elf + of_nat (k + j)" by (simp add: j_def algebra_simps)
  moreover have "k + j < len" using assms(2,3) by (simp add: j_def)
  ultimately show ?thesis using assms(1) by (simp only: same_file_def)
qed

lemma same_file_loads:
  assumes "same_file m m' elf len"
  shows "k + 8 \<le> len \<Longrightarrow> load64 m' (elf + of_nat k) = load64 m (elf + of_nat k)"
    "k + 4 \<le> len \<Longrightarrow> load32 m' (elf + of_nat k) = load32 m (elf + of_nat k)"
    "k + 2 \<le> len \<Longrightarrow> load16 m' (elf + of_nat k) = load16 m (elf + of_nat k)"
  by (rule load64_cong load32_cong load16_cong, erule same_file_at [OF assms], assumption)+

lemma same_file_headers:
  assumes same: "same_file m m' elf len" and ef: "elf_file m elf len"
  shows "elf_header_at m' elf = elf_header_at m elf"
    "i < unat (e_phnum (elf_header_at m elf)) \<Longrightarrow>
      program_header_at m' (elf + e_phoff (elf_header_at m elf)) i = program_header_at m (elf + e_phoff (elf_header_at m elf)) i"
proof -
  note l = same_file_loads [OF same]
  have len: "64 \<le> len" "unat (e_phoff (elf_header_at m elf)) + 56 * unat (e_phnum (elf_header_at m elf)) \<le> len"
    using ef by (auto simp: elf_file_def)
  show "elf_header_at m' elf = elf_header_at m elf"
    using l(3) [of 16] l(3) [of 18] l(1) [of 24] l(1) [of 32] l(3) [of 56] len(1) by (simp add: elf_header_at_def)
  let ?ph = "elf + e_phoff (elf_header_at m elf)"
  show "program_header_at m' ?ph i = program_header_at m ?ph i" if i: "i < unat (e_phnum (elf_header_at m elf))"
  proof -
    define a where "a = unat (e_phoff (elf_header_at m elf)) + 56 * i"
    have "56 * Suc i \<le> 56 * unat (e_phnum (elf_header_at m elf))" using i by (intro mult_le_mono2) simp
    then have a: "a + 56 \<le> len" using len(2) by (simp add: a_def)
    have e: "?ph + of_nat (56 * i) = elf + of_nat a" by (simp add: a_def)
    have k: "elf + of_nat a + of_nat j = elf + of_nat (a + j)" for j by simp
    show ?thesis
      unfolding program_header_at_def e Let_def
      using l(2) [of a] l(1) [of "a + 8"] l(1) [of "a + 16"] l(1) [of "a + 40"] a
        k [of 8] k [of 16] k [of 40] by (simp add: add.assoc)
  qed
qed

text \<open>One segment after the other, the last one written over an address remains.\<close>

lemma elf_copy_bytes:
  fixes img vs elf :: u64 and len size :: nat
  defines "dst \<equiv> \<lambda>h. img + p_vaddr h - vs"
  assumes ef: "elf_file m0 elf len" and ph: "ph = elf + e_phoff (elf_header_at m0 elf)"
    and disj: "\<And>k. k < len \<Longrightarrow> \<not> unat (elf + of_nat k - img) < size" and size: "size < 2 ^ 63"
    and fits: "\<And>h. h \<in> set (program_headers m0 elf) \<Longrightarrow> p_type h = PT_LOAD \<Longrightarrow>
      unat (p_vaddr h - vs) + unat (p_memsz h) \<le> size"
  shows "i \<le> length (program_headers m0 elf) \<Longrightarrow> (\<And>x. \<not> unat (x - img) < size \<Longrightarrow> m x = m0 x) \<Longrightarrow>
    elf_copy elf ph img vs i m x =
      foldl (\<lambda>b h. if p_type h = PT_LOAD \<and> unat (x - dst h) < unat (p_memsz h) then m0 (elf + p_offset h + (x - dst h)) else b)
        (m x) (drop i (program_headers m0 elf)) \<and>
    (\<not> unat (x - img) < size \<longrightarrow> elf_copy elf ph img vs i m x = m0 x)"
proof (induction "length (program_headers m0 elf) - i" arbitrary: i m)
  case 0
  have "same_file m0 m elf len" using 0 disj by (auto simp: same_file_def)
  then have "elf_copy elf ph img vs i m = m"
    using 0 same_file_headers(1) [OF _ ef] by (subst elf_copy.simps) (simp add: program_headers_def)
  then show ?case using 0 by simp
next
  case (Suc d)
  have i: "i < length (program_headers m0 elf)" "d = length (program_headers m0 elf) - Suc i" using Suc.hyps(2) by auto
  define h where "h = program_headers m0 elf ! i"
  have hin: "h \<in> set (program_headers m0 elf)" using i(1) by (simp add: h_def)
  have same: "same_file m0 m elf len" using Suc.prems(2) disj by (auto simp: same_file_def)
  have num: "i < unat (e_phnum (elf_header_at m0 elf))" using i(1) by (simp add: program_headers_def)
  have hm: "program_header_at m ph i = h"
    using same_file_headers(2) [OF same ef num] num by (simp add: h_def ph program_headers_def)
  define m1 where "m1 = (if p_type h = PT_LOAD then memcpy m (dst h) (elf + p_offset h) (sint (ucast (p_memsz h) :: u32)) else m)"
  have step: "elf_copy elf ph img vs i m = elf_copy elf ph img vs (Suc i) m1"
    using num same_file_headers(1) [OF same ef] by (subst elf_copy.simps) (simp add: hm m1_def dst_def Let_def)
  have m1: "m1 y = (if p_type h = PT_LOAD \<and> unat (y - dst h) < unat (p_memsz h) then m0 (elf + p_offset h + (y - dst h)) else m y)"
    and in_img: "p_type h = PT_LOAD \<Longrightarrow> unat (y - dst h) < unat (p_memsz h) \<Longrightarrow> unat (y - img) < size" for y
  proof -
    show inn: "unat (y - img) < size" if "p_type h = PT_LOAD" "unat (y - dst h) < unat (p_memsz h)" for y
    proof -
      have "y - img = (p_vaddr h - vs) + (y - dst h)" by (simp add: dst_def)
      then have "unat (y - img) \<le> unat (p_vaddr h - vs) + unat (y - dst h)" by (simp only: unat_word_ariths) simp
      then show ?thesis using that fits [OF hin that(1)] by linarith
    qed
    show "m1 y = (if p_type h = PT_LOAD \<and> unat (y - dst h) < unat (p_memsz h) then m0 (elf + p_offset h + (y - dst h)) else m y)"
    proof (cases "p_type h = PT_LOAD")
      case True
      have sz: "unat (p_offset h) + unat (p_memsz h) \<le> len" "unat (p_memsz h) < 2 ^ 31"
        using ef hin True by (auto simp: elf_file_def list_all_iff)
      have src: "\<not> unat (elf + p_offset h + w - img) < size \<and> m (elf + p_offset h + w) = m0 (elf + p_offset h + w)"
        if "unat w < unat (p_memsz h)" for w
      proof -
        have "elf + p_offset h + w = elf + of_nat (unat (p_offset h) + unat w)" by simp
        then have "\<not> unat (elf + p_offset h + w - img) < size" using disj that sz(1) by (metis add_less_cancel_left less_le_trans)
        then show ?thesis using Suc.prems(2) by blast
      qed
      have "apart (dst h) (unat (p_memsz h)) (elf + p_offset h) (unat (p_memsz h))"
        unfolding apart_def
      proof (intro allI notI)
        fix y
        assume y: "unat (y - dst h) < unat (p_memsz h) \<and> unat (y - (elf + p_offset h)) < unat (p_memsz h)"
        then show False using src [of "y - (elf + p_offset h)"] inn [OF True, of y] by simp
      qed
      then have "m1 = copy m (dst h) (elf + p_offset h) (unat (p_memsz h))"
        using memcpy_nat [OF sz(2)] sint_ucast_small [OF sz(2)] True by (simp add: m1_def)
      then show ?thesis using True src by (simp add: copy_def)
    qed (simp add: m1_def)
  qed
  have agree: "m1 y = m0 y" if "\<not> unat (y - img) < size" for y
    using m1 [of y] in_img [of y] that Suc.prems(2) by auto
  have d: "drop i (program_headers m0 elf) = h # drop (Suc i) (program_headers m0 elf)"
    using i(1) by (simp add: h_def Cons_nth_drop_Suc)
  show ?case
    using Suc.hyps(1) [OF i(2) Suc_leI [OF i(1)] agree] unfolding step d foldl_Cons m1 [of x, symmetric] by blast
qed

section \<open>The image in memory\<close>

lemma image_byte_same_file:
  assumes "same_file m m' elf len" and "elf_file m elf len"
  shows "program_headers m' elf = program_headers m elf" "image_byte m' elf w = image_byte m elf w" "elf_file m' elf len"
proof -
  note h = same_file_headers [OF assms]
  show p: "program_headers m' elf = program_headers m elf" using h by (simp add: program_headers_def)
  show "elf_file m' elf len" using assms(2) h(1) p by (simp add: elf_file_def)
  have "m' (elf + p_offset x + (w - p_vaddr x)) = m (elf + p_offset x + (w - p_vaddr x))"
    if "find (covers w) (rev (program_headers m elf)) = Some x" for x
  proof -
    have "x \<in> set (program_headers m elf)" "covers w x" using find_rev_SomeD [OF that] by simp_all
    then have "unat (p_offset x) + unat (w - p_vaddr x) < len"
      using assms(2) by (auto simp: covers_def elf_file_def list_all_iff)
    moreover have "elf + p_offset x + (w - p_vaddr x) = elf + of_nat (unat (p_offset x) + unat (w - p_vaddr x))" by simp
    ultimately show ?thesis using assms(1) by (metis same_file_def)
  qed
  then show "image_byte m' elf w = image_byte m elf w" by (auto simp: image_byte_def p split: option.split)
qed

lemma elf_image_block:
  assumes at: "pt_at hs L m pt" and ef: "elf_file m elf len"
    and own: "\<forall>k < len. \<exists>q. page_owned hs m q \<and> L q = None \<and> inside (elf + of_nat k) q"
    and res: "page_znalloc hs m n = (m1, img)" "img \<noteq> NULL" and c: "c = request n"
    and fits: "\<forall>h \<in> set (program_headers m elf). p_type h = PT_LOAD \<longrightarrow>
      unat (p_vaddr h - vs) + unat (p_memsz h) \<le> 4096 * c"
    and m2: "m2 = elf_copy elf (elf + e_phoff (elf_header_at m elf)) img vs 0 m1"
  shows "pt_at hs L m2 pt" "pt_leaf m2 pt w = pt_leaf m pt w" "pages_avail hs m \<le> pages_avail hs m2 + c"
    "unat (w - vs) < 4096 * c \<Longrightarrow> m2 (img + (w - vs)) = image_byte m elf w \<and>
      (\<exists>q. page_owned hs m2 q \<and> L q = None \<and> inside (img + (w - vs)) q)"
proof -
  have inv: "heap_ok hs" "page_wf hs m" and shape: "pt_shape L (page_owned hs m) m pt" using at by (auto simp: pt_at_def)
  note b = znalloc_block [OF inv res c]
  have same: "same_file m m1 elf len" unfolding same_file_def using own b(3) by blast
  note f = image_byte_same_file [OF same ef]
  have disj: "\<not> unat (elf + of_nat k - img) < 4096 * c" if "k < len" for k using own that b(3) by blast
  have hd: "elf_header_at m1 elf = elf_header_at m elf" using same_file_headers(1) [OF same ef] .
  have size: "4096 * c < 2 ^ 63" using b(7) by simp
  note cp = elf_copy_bytes [OF f(3) refl disj size _ le0, where vs = vs and m = m1, OF _ _ refl]
  have copy: "m2 x = foldl (\<lambda>b h. if p_type h = PT_LOAD \<and> unat (x - (img + p_vaddr h - vs)) < unat (p_memsz h)
        then m1 (elf + p_offset h + (x - (img + p_vaddr h - vs))) else b) (m1 x) (program_headers m1 elf)"
    and out: "\<not> unat (x - img) < 4096 * c \<Longrightarrow> m2 x = m1 x" for x
    using cp [of x] fits unfolding m2 hd f(1) drop_0 by blast+
  from b(8) [OF out] have wf2: "page_wf hs m2" "page_owned hs m2 = page_owned hs m1" "pages_avail hs m2 = pages_avail hs m1"
    by auto
  show "pages_avail hs m \<le> pages_avail hs m2 + c" using b(5) wf2(3) by simp
  have tab: "m2 x = m x" if "L t = Some p" "inside x t" for t p x
    using b(3) [OF pt_shape_owned [OF shape that(1)] that(2)] out by simp
  show "pt_leaf m2 pt w = pt_leaf m pt w" using pt_leaf_cong(1) [OF shape tab] .
  have "pt_shape L (page_owned hs m) m2 pt" using pt_leaf_cong(2) [OF shape tab] .
  then have "pt_shape L (page_owned hs m2) m2 pt" using b(2) wf2(2) by (auto simp: pt_shape_def)
  then show "pt_at hs L m2 pt" using inv wf2(1) by (simp add: pt_at_def)
  assume w: "unat (w - vs) < 4096 * c"
  let ?x = "img + (w - vs)"
  have x: "unat (?x - img) < 4096 * c" using w by simp
  have e: "?x - (img + p_vaddr h - vs) = w - p_vaddr h" for h by simp
  have "m2 ?x = image_byte m1 elf w"
    unfolding copy e image_byte_def foldl_find_rev [symmetric] using b(4) [OF x] by (simp add: covers_def)
  moreover obtain q where q: "page_owned hs m1 q" "\<not> page_owned hs m q" "inside ?x q" using b(4) [OF x] by blast
  have "L q = None" using q(2) pt_shape_owned [OF shape] by (cases "L q") auto
  ultimately show "m2 ?x = image_byte m elf w \<and> (\<exists>q. page_owned hs m2 q \<and> L q = None \<and> inside ?x q)"
    using f(2) q wf2(2) by auto
qed

lemma page_down_aligned:
  assumes "4096 dvd unat (a :: u64)"
  shows "page_down a = a"
  using assms unat_lt_64 [of a] by (auto simp: page_down_def word_unat_eq_iff unat_word_ariths unat_div elim!: dvdE)

lemma page_up_le:
  assumes "unat (a :: u64) < 2 ^ 63"
  shows "unat (page_up a) \<le> unat a + 4095"
proof -
  have "a + 4096 - 1 = a + 4095" by simp
  then have "unat (a + 4096 - 1) = unat a + 4095" using assms by (simp only: unat_word_ariths) simp
  moreover have "unat (page_up a) \<le> unat (a + 4096 - 1) div 4096 * 4096"
    unfolding page_up_def by (simp add: unat_word_ariths unat_div del: add_diff_eq)
  ultimately show ?thesis using div_times_less_eq_dividend [of "unat a + 4095" 4096] by linarith
qed

text \<open>The sizes of an image below \<open>2 ^ 38\<close> that starts at a page boundary.\<close>

lemma elf_layout:
  assumes range: "elf_range phs 0 0 False = (vs, ve, True)" "4096 dvd unat vs"
    and small: "\<forall>h \<in> set phs. p_type h = 1 \<longrightarrow> unat (p_vaddr h) + unat (p_memsz h) < 2 ^ 38"
  shows "unat vs + 4096 * unat (elf_pages vs ve) < 2 ^ 39"
    "sint (ucast (elf_pages vs ve) :: u32) = int (unat (elf_pages vs ve))"
    "unat (elf_pages vs ve * 4096) = 4096 * unat (elf_pages vs ve)"
    "\<forall>h \<in> set phs. p_type h = PT_LOAD \<longrightarrow>
      unat (p_vaddr h - vs) + unat (p_memsz h) \<le> 4096 * max 1 (unat (elf_pages vs ve))"
proof -
  let ?n = "unat (elf_pages vs ve)"
  have small63: "\<forall>h \<in> set phs. p_type h = PT_LOAD \<longrightarrow> unat (p_vaddr h) + unat (p_memsz h) < 2 ^ 63"
    using small by fastforce
  note seg = elf_range_fresh [OF range(1)]
  obtain h where h: "h \<in> set phs" "p_type h = PT_LOAD" "ve = p_vaddr h + p_memsz h" using seg by blast
  have ve: "unat ve < 2 ^ 38" using segment_end [of h] small63 small h by fastforce
  have "vs \<le> p_vaddr h" using seg h by blast
  then have vsve: "unat vs \<le> unat ve" using segment_end [of h] small63 h by (auto simp: word_le_nat_alt)
  have ve63: "unat ve < 2 ^ 63" using ve by simp
  note pb = page_down_up_bounds [OF vsve ve63, unfolded page_down_aligned [OF range(2)]]
  have "unat (page_up ve) \<le> unat ve + 4095" using page_up_le [OF ve63] .
  then show b: "unat vs + 4096 * ?n < 2 ^ 39" using pb(3) ve by simp
  show "sint (ucast (elf_pages vs ve) :: u32) = int ?n" using sint_ucast_small [of "elf_pages vs ve"] b by simp
  show "unat (elf_pages vs ve * 4096) = 4096 * ?n" using b by (simp add: unat_word_ariths)
  have "4096 * ?n \<le> 4096 * max 1 ?n" by simp
  then show "\<forall>h \<in> set phs. p_type h = PT_LOAD \<longrightarrow> unat (p_vaddr h - vs) + unat (p_memsz h) \<le> 4096 * max 1 ?n"
    using segments_fit(1) [OF range(1) small63] order_trans by blast
qed


section \<open>A program of four bytes\<close>

text \<open>A heap of a hundred pages: the marks, an empty root table, and a page with the file.\<close>

definition demo_heap100 :: heap_syms where
  "demo_heap100 = \<lparr>heap_start = 0x80000000, heap_end = 0x80064000\<rparr>"

definition demo_prog :: mem where
  "demo_prog = (\<lambda>_. 0)(0x80000000 := 63, 0x80003000 := 0x7f, 0x80003001 := 0x45, 0x80003002 := 0x4c, 0x80003003 := 0x46,
     0x80003010 := 2, 0x80003012 := 243, 0x8000301a := 1, 0x80003020 := 64, 0x80003038 := 1,
     0x80003040 := 1, 0x80003048 := 128, 0x80003052 := 1, 0x80003068 := 4, 0x80003080 := 0x13)"

lemma demo100_sizes: "npages demo_heap100 = 100" "nbytes demo_heap100 = 25" "heap_start demo_heap100 = 0x80000000"
  by (simp_all add: demo_heap100_def total_pages_def heap_memory_def bookkeeping_bytes_def)

lemma demo100_ok: "heap_ok demo_heap100"
  by (simp add: heap_ok_def demo_heap100_def total_pages_def heap_memory_def)

lemma demo100_book: "nbook demo_heap100 = 1"
  using unat_round_bookkeeping(2) [OF demo100_ok] by (simp add: demo100_sizes)

lemma demo100_byte:
  assumes "q < 100"
  shows "demo_prog (0x80000000 + of_nat (q div 4)) = (if q < 4 then 63 else 0)"
proof -
  have u: "unat (0x80000000 + of_nat (q div 4) :: u64) = 0x80000000 + q div 4"
    using assms unat_add_of_nat [of "0x80000000" "q div 4"] by simp
  have "(0x80000000 + of_nat (q div 4) :: u64) = a \<longleftrightarrow> 0x80000000 + q div 4 = unat a" for a
    unfolding word_unat_eq_iff [of _ a] u by (rule refl)
  moreover have "(of_nat (q div 4) :: u64) = 0 \<longleftrightarrow> q div 4 = 0" using of_nat_inj_64 [of "q div 4" 0] assms by simp
  ultimately show ?thesis using assms by (simp add: demo_prog_def) linarith
qed

lemma demo100_marks:
  assumes "q < 100"
  shows "is_taken demo_prog 0x80000000 q \<longleftrightarrow> q < 3" "is_last demo_prog 0x80000000 q \<longleftrightarrow> q < 3"
proof -
  consider "q = 0" | "q = 1" | "q = 2" | "q = 3" | "4 \<le> q" by linarith
  then have "(is_taken demo_prog 0x80000000 q \<longleftrightarrow> q < 3) \<and> (is_last demo_prog 0x80000000 q \<longleftrightarrow> q < 3)"
    using demo100_byte [OF assms] by cases (simp_all add: is_taken_def is_last_def)
  then show "is_taken demo_prog 0x80000000 q \<longleftrightarrow> q < 3" "is_last demo_prog 0x80000000 q \<longleftrightarrow> q < 3" by blast+
qed

lemma demo100_wf: "page_wf demo_heap100 demo_prog"
  unfolding page_wf_iff demo100_sizes demo100_book using demo100_marks by auto

lemma demo100_page: "page_addr demo_heap100 i = 0x80000000 + of_nat (4096 * (1 + i))"
  using page_addr_offset [OF demo100_ok] by (simp only: demo100_book demo100_sizes)

lemma demo100_owned: "page_owned demo_heap100 demo_prog 0x80002000" "page_owned demo_heap100 demo_prog 0x80003000"
  unfolding page_owned_iff demo100_page demo100_sizes using demo100_marks(1) [of 1] demo100_marks(1) [of 2]
  by (auto intro: exI [of _ 1] exI [of _ 2])

lemma demo100_avail: "pages_avail demo_heap100 demo_prog = 7"
proof -
  have "{i. i < npages demo_heap100 div 10 \<and> \<not> is_taken demo_prog (heap_start demo_heap100) i} = {3..<10}"
    using demo100_marks(1) by (auto simp: demo100_sizes)
  then show ?thesis by (simp add: pages_avail_card)
qed

lemma demo_prog_at: "pt_at demo_heap100 [0x80002000 \<mapsto> []] demo_prog 0x80002000"
proof -
  have "demo_prog x = 0" if "inside x 0x80002000" for x
    using that by (auto simp: demo_prog_def inside_def)
  then have "pt_entry demo_prog 0x80002000 k = 0" if "k < 512" for k using pt_entry_zero that by blast
  then show ?thesis
    using demo100_ok demo100_wf demo100_owned(1) by (auto simp: pt_at_def pt_shape_def split: if_splits)
qed

lemma demo_prog_header:
  "elf_header_at demo_prog 0x80003000 = \<lparr>e_type = 2, e_machine = 243, e_entry = 0x10000, e_phoff = 64, e_phnum = 1\<rparr>"
  "program_headers demo_prog 0x80003000 = [\<lparr>p_type = 1, p_offset = 128, p_vaddr = 0x10000, p_memsz = 4\<rparr>]"
  "is_elf demo_prog 0x80003000"
  by (simp_all add: elf_header_at_def program_headers_def program_header_at_def is_elf_def load16_def load32_def load64_def
      demo_prog_def upt_rec)

definition demo_proc :: process where
  "demo_proc = zero_process\<lparr>ptable := 0x80002000, privilege_mode := PS_PRIV_USER\<rparr>"


end
