(* ===== verification/Proc_List.thy ===== *)
theory Proc_List
  imports Lock "HOL-Library.Multiset"
begin

text \<open>
  The process lists of \<^verbatim>\<open>src/process.c\<close>: NULL-terminated doubly linked lists of nodes that point
  to processes, kept in ascending order of virtual run time, one mutex per list. Nodes are a
  typed store indexed by address. The node that \<open>kmalloc\<close> returns is an argument, and the node
  given to \<open>kfree\<close> is part of the result. The model has the code as it runs when no other thread
  holds the mutex: on a locked mutex \<open>mutex_wait\<close> does not return, which is \<open>None\<close>, as is a walk
  over a cyclic list.

  The operations are shown to implement sorted insertion, removal of the first occurrence and
  removal of the head on the list of process pointers; the scheduler is built on those.
\<close>

section \<open>Model\<close>

record pl_node =
  n_p :: u64
  n_next :: u64
  n_prev :: u64

type_synonym pl_store = "u64 \<Rightarrow> pl_node"

record pl_start =
  pl_head :: u64
  pl_mutex :: int

definition set_n_next :: "pl_store \<Rightarrow> u64 \<Rightarrow> u64 \<Rightarrow> pl_store" where
  "set_n_next s a v = s(a := (s a)\<lparr>n_next := v\<rparr>)"

definition set_n_prev :: "pl_store \<Rightarrow> u64 \<Rightarrow> u64 \<Rightarrow> pl_store" where
  "set_n_prev s a v = s(a := (s a)\<lparr>n_prev := v\<rparr>)"

definition set_n_p :: "pl_store \<Rightarrow> u64 \<Rightarrow> u64 \<Rightarrow> pl_store" where
  "set_n_p s a v = s(a := (s a)\<lparr>n_p := v\<rparr>)"

text \<open>\<open>mutex_wait\<close>: repeats \<open>mutex_try\<close> until it answers nonzero.\<close>

definition pl_wait :: "pl_start \<Rightarrow> pl_start option" where
  "pl_wait l = (case mutex_try (pl_mutex l) of (v, r) \<Rightarrow> if r = 0 then None else Some (l\<lparr>pl_mutex := v\<rparr>))"

definition pl_post :: "pl_start \<Rightarrow> pl_start" where
  "pl_post l = l\<lparr>pl_mutex := mutex_post (pl_mutex l)\<rparr>"

text \<open>The search of \<open>process_remove\<close>.\<close>

partial_function (option) find_node :: "pl_store \<Rightarrow> u64 \<Rightarrow> u64 \<Rightarrow> u64 option" where
  "find_node s remove n =
     (if n = NULL then Some NULL
      else if n_p (s n) = remove then Some n
      else find_node s remove (n_next (s n)))"

definition process_remove :: "pl_store \<Rightarrow> pl_start \<Rightarrow> u64 \<Rightarrow> (pl_store \<times> pl_start \<times> u64) option" where
  "process_remove s l0 remove =
     (case pl_wait l0 of None \<Rightarrow> None | Some l \<Rightarrow>
      case find_node s remove (pl_head l) of None \<Rightarrow> None | Some n \<Rightarrow>
      if n = NULL then Some (s, pl_post l, NULL)
      else
        (let (s1, l1) = (if n_prev (s n) \<noteq> NULL then (set_n_next s (n_prev (s n)) (n_next (s n)), l)
                         else (s, l\<lparr>pl_head := n_next (s n)\<rparr>));
             s2 = (if n_next (s1 n) \<noteq> NULL then set_n_prev s1 (n_next (s1 n)) (n_prev (s1 n)) else s1)
         in Some (s2, pl_post l1, n)))"

definition process_remove_lowest :: "pl_store \<Rightarrow> pl_start \<Rightarrow> (pl_store \<times> pl_start \<times> u64 \<times> u64) option" where
  "process_remove_lowest s l0 =
     (case pl_wait l0 of None \<Rightarrow> None | Some l \<Rightarrow>
      let start = pl_head l in
      if start = NULL then Some (s, pl_post l, NULL, NULL)
      else
        (let l1 = l\<lparr>pl_head := n_next (s start)\<rparr>;
             s1 = (if pl_head l1 \<noteq> NULL then set_n_prev s (pl_head l1) NULL else s);
             ret = n_p (s1 start)
         in Some (s1, pl_post l1, ret, start)))"

text \<open>
  The walk of \<open>process_insert\<close> to the first node whose process has no lower run time, and the
  walk to the end of the list.
\<close>

partial_function (option) insert_scan :: "pl_store \<Rightarrow> (u64 \<Rightarrow> u64) \<Rightarrow> u64 \<Rightarrow> u64 \<Rightarrow> u64 option" where
  "insert_scan s vruntime key l =
     (if l = NULL then Some NULL
      else if key \<le> vruntime (n_p (s l)) then Some l
      else insert_scan s vruntime key (n_next (s l)))"

partial_function (option) last_node :: "pl_store \<Rightarrow> u64 \<Rightarrow> u64 option" where
  "last_node s l = (if n_next (s l) = NULL then Some l else last_node s (n_next (s l)))"

definition insert_first :: "pl_store \<Rightarrow> pl_start \<Rightarrow> u64 \<Rightarrow> u64 \<Rightarrow> pl_store \<times> pl_start" where
  "insert_first s l new at =
     (set_n_prev (set_n_next (set_n_prev s at new) new at) new NULL, l\<lparr>pl_head := new\<rparr>)"

definition insert_middle :: "pl_store \<Rightarrow> u64 \<Rightarrow> u64 \<Rightarrow> pl_store" where
  "insert_middle s new at =
     (let oldprev = n_prev (s at)
      in set_n_prev (set_n_next (set_n_prev (set_n_next s oldprev new) at new) new at) new oldprev)"

definition insert_end :: "pl_store \<Rightarrow> u64 \<Rightarrow> u64 \<Rightarrow> pl_store" where
  "insert_end s new at = set_n_next (set_n_prev (set_n_next s at new) new at) new NULL"

definition process_insert ::
    "(u64 \<Rightarrow> u64) \<Rightarrow> u64 \<Rightarrow> pl_store \<Rightarrow> pl_start \<Rightarrow> u64 \<Rightarrow> (pl_store \<times> pl_start) option" where
  "process_insert vruntime new s0 l0 p =
     (if p = NULL then Some (s0, l0)
      else case pl_wait l0 of None \<Rightarrow> None | Some l \<Rightarrow>
        (let start = pl_head l; s = set_n_p s0 new p in
         if start = NULL then
           Some (set_n_prev (set_n_next s new NULL) new NULL, pl_post (l\<lparr>pl_head := new\<rparr>))
         else if vruntime p \<le> vruntime (n_p (s start)) then
           (let (s1, l1) = insert_first s l new start in Some (s1, pl_post l1))
         else case insert_scan s vruntime (vruntime p) (n_next (s start)) of
             None \<Rightarrow> None
           | Some at \<Rightarrow>
               if at \<noteq> NULL then Some (insert_middle s new at, pl_post l)
               else case last_node s start of
                   None \<Rightarrow> None
                 | Some e \<Rightarrow> Some (insert_end s new e, pl_post l)))"

partial_function (option) llist_len_from :: "pl_store \<Rightarrow> u64 \<Rightarrow> nat \<Rightarrow> nat option" where
  "llist_len_from s ll i = (if ll = NULL then Some i else llist_len_from s (n_next (s ll)) (i + 1))"

definition process_llist_len :: "pl_store \<Rightarrow> pl_start \<Rightarrow> nat option" where
  "process_llist_len s l = llist_len_from s (pl_head l) 0"

section \<open>The list a chain of nodes holds\<close>

text \<open>\<open>seg s prev a xs e\<close>: from \<open>a\<close>, whose predecessor is \<open>prev\<close>, the nodes \<open>xs\<close> lead to \<open>e\<close>.\<close>

fun seg :: "pl_store \<Rightarrow> u64 \<Rightarrow> u64 \<Rightarrow> u64 list \<Rightarrow> u64 \<Rightarrow> bool" where
  "seg s prev a [] e \<longleftrightarrow> a = e"
| "seg s prev a (x # xs) e \<longleftrightarrow> a = x \<and> x \<noteq> NULL \<and> n_prev (s x) = prev \<and> seg s x (n_next (s x)) xs e"

definition plist :: "pl_store \<Rightarrow> pl_start \<Rightarrow> u64 list \<Rightarrow> bool" where
  "plist s l xs \<longleftrightarrow> distinct xs \<and> seg s NULL (pl_head l) xs NULL \<and> pl_mutex l = MUTEX_UNLOCKED"

definition plist_procs :: "pl_store \<Rightarrow> u64 list \<Rightarrow> u64 list" where
  "plist_procs s xs = map (\<lambda>a. n_p (s a)) xs"

text \<open>The specification: insertion before the first element that is not lower.\<close>

definition sorted_insert :: "(u64 \<Rightarrow> u64) \<Rightarrow> u64 \<Rightarrow> u64 list \<Rightarrow> u64 list" where
  "sorted_insert vruntime p ps =
     takeWhile (\<lambda>q. vruntime q < vruntime p) ps @ p # dropWhile (\<lambda>q. vruntime q < vruntime p) ps"


section \<open>Chains under updates\<close>

lemmas pl_sets = set_n_next_def set_n_prev_def set_n_p_def

lemma pl_set_fields [simp]:
  "n_p (set_n_next s a v b) = n_p (s b)" "n_p (set_n_prev s a v b) = n_p (s b)"
  "n_next (set_n_prev s a v b) = n_next (s b)" "n_prev (set_n_next s a v b) = n_prev (s b)"
  "n_next (set_n_p s a v b) = n_next (s b)" "n_prev (set_n_p s a v b) = n_prev (s b)"
  "n_next (set_n_next s a v b) = (if b = a then v else n_next (s b))"
  "n_prev (set_n_prev s a v b) = (if b = a then v else n_prev (s b))"
  "n_p (set_n_p s a v b) = (if b = a then v else n_p (s b))"
  by (auto simp: pl_sets)

lemma pl_set_other [simp]:
  "b \<noteq> a \<Longrightarrow> set_n_next s a v b = s b" "b \<noteq> a \<Longrightarrow> set_n_prev s a v b = s b"
  "b \<noteq> a \<Longrightarrow> set_n_p s a v b = s b"
  by (auto simp: pl_sets)

lemma seg_cong:
  "(\<And>x. x \<in> set xs \<Longrightarrow> n_next (t x) = n_next (s x) \<and> n_prev (t x) = n_prev (s x)) \<Longrightarrow>
   seg t p a xs e = seg s p a xs e"
  by (induction xs arbitrary: p a) auto

lemma seg_frame [simp]:
  "y \<notin> set xs \<Longrightarrow> seg (set_n_next s y v) p a xs e = seg s p a xs e"
  "y \<notin> set xs \<Longrightarrow> seg (set_n_prev s y v) p a xs e = seg s p a xs e"
  "seg (set_n_p s y v) p a xs e = seg s p a xs e"
  by (rule seg_cong; auto)+

lemma seg_append:
  "seg s p a (xs @ ys) e \<longleftrightarrow> (\<exists>m. seg s p a xs m \<and> seg s (last (p # xs)) m ys e)"
  by (induction xs arbitrary: p a) auto

lemma seg_set_end:
  "seg s p a xs e \<Longrightarrow> distinct xs \<Longrightarrow> xs \<noteq> [] \<Longrightarrow> seg (set_n_next s (last xs) v) p a xs v"
proof (induction xs arbitrary: p a)
  case (Cons x xs)
  then show ?case by (cases "xs = []") auto
qed simp

lemma seg_set_start:
  "seg s p a xs e \<Longrightarrow> distinct xs \<Longrightarrow> xs \<noteq> [] \<Longrightarrow> seg (set_n_prev s (hd xs) v) v a xs e"
  by (cases xs) auto

lemma seg_hd: "seg s p a xs e \<Longrightarrow> xs \<noteq> [] \<Longrightarrow> hd xs = a \<and> n_prev (s a) = p \<and> a \<noteq> NULL"
  by (cases xs) auto

lemma seg_empty_iff: "seg s p a xs NULL \<Longrightarrow> a = NULL \<longleftrightarrow> xs = []"
  by (cases xs) auto

lemma seg_last_next: "seg s p a xs e \<Longrightarrow> xs \<noteq> [] \<Longrightarrow> n_next (s (last xs)) = e"
  by (induction xs arbitrary: p a) auto

lemma seg_not_null: "seg s p a xs e \<Longrightarrow> NULL \<notin> set xs"
  by (induction xs arbitrary: p a) auto

section \<open>Walks\<close>

lemma find_node_step:
  "find_node s q NULL = Some NULL"
  "n \<noteq> NULL \<Longrightarrow> find_node s q n = (if n_p (s n) = q then Some n else find_node s q (n_next (s n)))"
  by (subst find_node.simps; simp)+

lemma find_node_seg:
  "seg s p a xs NULL \<Longrightarrow>
   find_node s q a = Some (case dropWhile (\<lambda>x. n_p (s x) \<noteq> q) xs of [] \<Rightarrow> NULL | y # ys \<Rightarrow> y)"
  by (induction xs arbitrary: p a) (auto simp: find_node_step)

lemma insert_scan_step:
  "insert_scan s f k NULL = Some NULL"
  "n \<noteq> NULL \<Longrightarrow> insert_scan s f k n = (if k \<le> f (n_p (s n)) then Some n else insert_scan s f k (n_next (s n)))"
  by (subst insert_scan.simps; simp)+

lemma insert_scan_seg:
  "seg s p a xs NULL \<Longrightarrow>
   insert_scan s f k a = Some (case dropWhile (\<lambda>x. f (n_p (s x)) < k) xs of [] \<Rightarrow> NULL | y # ys \<Rightarrow> y)"
  by (induction xs arbitrary: p a) (auto simp: insert_scan_step not_le)

lemma last_node_seg: "seg s p a xs NULL \<Longrightarrow> xs \<noteq> [] \<Longrightarrow> last_node s a = Some (last xs)"
proof (induction xs arbitrary: p a)
  case (Cons x xs)
  then have "n_next (s x) = NULL \<longleftrightarrow> xs = []" using seg_empty_iff [of s x "n_next (s x)" xs] by auto
  then show ?case using Cons by (subst last_node.simps) auto
qed simp

lemma llist_len_from_seg: "seg s p a xs NULL \<Longrightarrow> llist_len_from s a i = Some (i + length xs)"
proof (induction xs arbitrary: p a i)
  case Nil
  then show ?case by (subst llist_len_from.simps) simp
next
  case (Cons x xs)
  then show ?case by (subst llist_len_from.simps) auto
qed

lemma plist_wait: "pl_mutex l = 1 \<Longrightarrow> pl_wait l = Some (l\<lparr>pl_mutex := 0\<rparr>)"
  by (simp add: pl_wait_def mutex_try_def)

lemma pl_post_simps [simp]: "pl_head (pl_post l) = pl_head l" "pl_mutex (pl_post l) = 1"
  by (simp_all add: pl_post_def mutex_post_def)


section \<open>Insertion\<close>

lemma insert_middle_seg:
  assumes sg: "seg s NULL h (as @ b # bs) NULL" and d: "distinct (as @ b # bs)" and ne: "as \<noteq> []"
    and new: "new \<noteq> NULL" "new \<notin> set (as @ b # bs)"
  shows "seg (insert_middle s new b) NULL h (as @ new # b # bs) NULL"
proof -
  from sg have 1: "seg s NULL h as b" and 2: "seg s (last as) b (b # bs) NULL"
    using ne by (auto simp: seg_append)
  have "last as \<in> set as" using ne by simp
  then have "last as \<noteq> b" "last as \<notin> set bs" "last as \<noteq> new" using d new(2) by auto
  moreover have "seg (set_n_next s (last as) new) NULL h as new"
    using seg_set_end [OF 1 _ ne] d by simp
  ultimately show ?thesis
    using 2 d ne new by (auto simp: insert_middle_def Let_def seg_append intro!: exI [of _ new])
qed

lemma insert_end_seg:
  assumes sg: "seg s NULL h as NULL" and d: "distinct as" and ne: "as \<noteq> []"
    and new: "new \<noteq> NULL" "new \<notin> set as"
  shows "seg (insert_end s new (last as)) NULL h (as @ [new]) NULL"
  using seg_set_end [OF sg d ne, of new] new ne
  by (auto simp: insert_end_def seg_append intro!: exI [of _ new])

lemma insert_first_seg:
  assumes "seg s NULL h bs NULL" and "distinct bs" and "bs \<noteq> []" and "new \<noteq> NULL" "new \<notin> set bs"
  shows "seg (fst (insert_first s l new h)) NULL new (new # bs) NULL"
  using seg_set_start [OF assms(1-3), of new] seg_hd [OF assms(1,3)] assms(4,5)
  by (auto simp: insert_first_def)

lemma insert_preserves:
  "n_p (fst (insert_first s l new a) x) = n_p (s x)" "n_p (insert_middle s new a x) = n_p (s x)"
  "n_p (insert_end s new a x) = n_p (s x)"
  "x \<noteq> a \<Longrightarrow> x \<noteq> new \<Longrightarrow> fst (insert_first s l new a) x = s x"
  "x \<noteq> a \<Longrightarrow> x \<noteq> new \<Longrightarrow> x \<noteq> n_prev (s a) \<Longrightarrow> insert_middle s new a x = s x"
  "x \<noteq> a \<Longrightarrow> x \<noteq> new \<Longrightarrow> insert_end s new a x = s x"
  by (auto simp: insert_first_def insert_middle_def insert_end_def Let_def)

text \<open>The node list after an insertion, and the processes it holds.\<close>

definition node_insert :: "(u64 \<Rightarrow> u64) \<Rightarrow> u64 \<Rightarrow> u64 \<Rightarrow> pl_store \<Rightarrow> u64 list \<Rightarrow> u64 list" where
  "node_insert f new p s xs =
     takeWhile (\<lambda>x. f (n_p (s x)) < f p) xs @ new # dropWhile (\<lambda>x. f (n_p (s x)) < f p) xs"

lemma node_insert_set: "set (node_insert f new p s xs) = insert new (set xs)"
  unfolding node_insert_def
  by (metis (no_types, lifting) Un_insert_right list.simps(15) set_append takeWhile_dropWhile_id)

lemma distinct_splice: "distinct (as @ bs) \<Longrightarrow> new \<notin> set (as @ bs) \<Longrightarrow> distinct (as @ new # bs)"
  by auto

lemma node_insert_distinct:
  "distinct xs \<Longrightarrow> new \<notin> set xs \<Longrightarrow> distinct (node_insert f new p s xs)"
  unfolding node_insert_def by (rule distinct_splice) (simp_all only: takeWhile_dropWhile_id not_False_eq_True)

lemma node_insert_procs:
  assumes "new \<notin> set xs" and "\<And>x. x \<in> set xs \<Longrightarrow> n_p (t x) = n_p (s x)" and "n_p (t new) = p"
  shows "plist_procs t (node_insert f new p s xs) = sorted_insert f p (plist_procs s xs)"
proof -
  have "x \<in> set (takeWhile Q xs) \<Longrightarrow> n_p (t x) = n_p (s x)"
    and "x \<in> set (dropWhile Q xs) \<Longrightarrow> n_p (t x) = n_p (s x)" for Q x
    using assms(2) set_takeWhileD [of x Q xs] set_dropWhileD [of x Q xs] by auto
  then show ?thesis
    using assms(3) by (simp add: node_insert_def plist_procs_def sorted_insert_def takeWhile_map dropWhile_map o_def)
qed

lemma process_insert_seg:
  assumes pl: "plist s l xs" and p: "p \<noteq> NULL" and new: "new \<noteq> NULL" "new \<notin> set xs"
  shows "\<exists>s' l'. process_insert f new s l p = Some (s', l') \<and>
           seg s' NULL (pl_head l') (node_insert f new p s xs) NULL \<and> pl_mutex l' = 1 \<and>
           (\<forall>x. x \<noteq> new \<longrightarrow> n_p (s' x) = n_p (s x)) \<and> n_p (s' new) = p \<and>
           (\<forall>x. x \<notin> insert new (set xs) \<longrightarrow> s' x = s x)"
proof -
  let ?t = "set_n_p s new p" and ?l = "l\<lparr>pl_mutex := 0\<rparr>" and ?h = "pl_head l"
  let ?Q = "\<lambda>x. f (n_p (s x)) < f p"
  define as bs where ab: "as = takeWhile ?Q xs" "bs = dropWhile ?Q xs"
  have xs: "xs = as @ bs" by (simp add: ab)
  from pl have d: "distinct xs" and sg: "seg ?t NULL ?h xs NULL" and w: "pl_wait l = Some ?l"
    by (simp_all add: plist_def plist_wait)
  have scan: "insert_scan ?t f (f p) a = Some (case dropWhile ?Q ys of [] \<Rightarrow> NULL | y # _ \<Rightarrow> y)"
    if "seg ?t q a ys NULL" "set ys \<subseteq> set xs" for q a ys
  proof -
    have "dropWhile (\<lambda>x. f (n_p (?t x)) < f p) ys = dropWhile ?Q ys"
      using that(2) new(2) by (intro dropWhile_cong) auto
    then show ?thesis using insert_scan_seg [OF that(1)] by simp
  qed
  show ?thesis
  proof (cases xs)
    case Nil
    then show ?thesis using sg p new by (auto simp: process_insert_def w Let_def node_insert_def)
  next
    case (Cons x ys)
    then have h: "?h = x" "x \<noteq> NULL" "x \<noteq> new" using sg new(2) by auto
    show ?thesis
    proof (cases "?Q x")
      case False
      then have ni: "node_insert f new p s xs = new # xs" using Cons by (simp add: node_insert_def)
      have "process_insert f new s l p = Some (fst (insert_first ?t ?l new x), pl_post (?l\<lparr>pl_head := new\<rparr>))"
        using False h p by (simp add: process_insert_def w Let_def insert_first_def not_less)
      moreover have "seg (fst (insert_first ?t ?l new x)) NULL new (new # xs) NULL"
        using insert_first_seg [OF sg d _ new, of ?l] Cons h by simp
      ultimately show ?thesis using ni h Cons by (auto simp: insert_preserves)
    next
      case True
      then have as: "as \<noteq> []" and bs: "bs = dropWhile ?Q ys" using Cons by (simp_all add: ab)
      have sy: "seg ?t x (n_next (?t x)) ys NULL" "set ys \<subseteq> set xs" using sg Cons by auto
      have pi: "process_insert f new s l p =
          (case bs of [] \<Rightarrow> Some (insert_end ?t new (last xs), pl_post ?l)
           | y # _ \<Rightarrow> Some (insert_middle ?t new y, pl_post ?l))"
      proof -
        have "last_node ?t x = Some (last xs)" using last_node_seg [OF sg] Cons h by simp
        moreover have "NULL \<notin> set bs" using seg_not_null [OF sg] xs by simp
        ultimately show ?thesis
          unfolding process_insert_def w Let_def option.case pl_start.simps h(1)
          using True [folded not_le] h p scan [OF sy, folded bs] by (cases bs) auto
      qed
      have ni: "node_insert f new p s xs = as @ new # bs" by (simp add: node_insert_def ab)
      show ?thesis
      proof (cases bs)
        case Nil
        then have "xs = as" using xs by simp
        moreover have "last as \<in> set as" using as by simp
        then have "x \<notin> set as \<Longrightarrow> x \<noteq> last as" for x by auto
        ultimately show ?thesis
          using insert_end_seg [OF sg d _ new] as Nil pi ni new
          by (auto simp: insert_preserves)
      next
        case (Cons y zs)
        have sg': "seg ?t NULL ?h (as @ y # zs) NULL" and d': "distinct (as @ y # zs)"
          and new': "new \<notin> set (as @ y # zs)"
          using sg d new(2) xs Cons by simp_all
        have "n_prev (?t y) = last as" using sg' as by (auto simp: seg_append)
        then have "n_prev (?t y) \<in> set xs" "y \<in> set xs" using as xs Cons by auto
        then have "x \<notin> set xs \<Longrightarrow> x \<noteq> y \<and> x \<noteq> n_prev (?t y)" for x by auto
        then show ?thesis
          using insert_middle_seg [OF sg' d' as new(1) new'] Cons pi ni
          by (auto simp: insert_preserves)
      qed
    qed
  qed
qed

text \<open>
  C9: Inserting a process into a well-formed list always returns, with the list well formed, the
  mutex released, the new process placed before the first one that has no lower run time, the
  order of the others kept, and no node outside the list changed.
\<close>

theorem process_insert_refines:
  assumes "plist s l xs" and "p \<noteq> NULL" and "new \<noteq> NULL" and "new \<notin> set xs"
  shows "\<exists>s' l' xs'. process_insert f new s l p = Some (s', l') \<and> plist s' l' xs' \<and>
           plist_procs s' xs' = sorted_insert f p (plist_procs s xs) \<and>
           set xs' = insert new (set xs) \<and> (\<forall>x. x \<in> set xs' \<or> s' x = s x)"
proof -
  obtain s' l' where 1: "process_insert f new s l p = Some (s', l')"
      "seg s' NULL (pl_head l') (node_insert f new p s xs) NULL" "pl_mutex l' = 1"
      "\<forall>x. x \<noteq> new \<longrightarrow> n_p (s' x) = n_p (s x)" "n_p (s' new) = p"
      "\<forall>x. x \<notin> insert new (set xs) \<longrightarrow> s' x = s x"
    using process_insert_seg [OF assms] by blast
  have "distinct xs" using assms(1) by (simp add: plist_def)
  then have "plist s' l' (node_insert f new p s xs)"
    using 1 node_insert_distinct assms(4) by (simp add: plist_def)
  moreover have "plist_procs s' (node_insert f new p s xs) = sorted_insert f p (plist_procs s xs)"
    using 1 assms(4) by (intro node_insert_procs) auto
  ultimately show ?thesis using 1 node_insert_set [of f new p s xs] by blast
qed

section \<open>Removal\<close>

lemma seg_unlink:
  assumes sg: "seg s NULL h (as @ x # bs) NULL" and d: "distinct (as @ x # bs)"
  defines "s1 \<equiv> (if as \<noteq> [] then set_n_next s (last as) (n_next (s x)) else s)"
  shows "seg (if bs \<noteq> [] then set_n_prev s1 (n_next (s x)) (last (NULL # as)) else s1)
           NULL (if as = [] then n_next (s x) else h) (as @ bs) NULL"
proof -
  from sg have 1: "seg s NULL h as x" and 2: "seg s x (n_next (s x)) bs NULL"
    and 3: "as \<noteq> [] \<Longrightarrow> n_prev (s x) = last as"
    by (auto simp: seg_append)
  have "as \<noteq> [] \<Longrightarrow> last as \<in> set as" by simp
  then have l: "as \<noteq> [] \<Longrightarrow> last as \<notin> set bs" using d by (auto simp: disjoint_iff)
  have 4: "seg s1 x (n_next (s x)) bs NULL" using 2 l by (auto simp: s1_def)
  have 5: "as \<noteq> [] \<Longrightarrow> seg s1 NULL h as (n_next (s x))" using seg_set_end [OF 1] d by (simp add: s1_def)
  have 6: "bs \<noteq> [] \<Longrightarrow> n_next (s x) = hd bs \<and> hd bs \<notin> set as" using seg_hd [OF 2] d
    by (cases bs) auto
  have 7: "bs \<noteq> [] \<Longrightarrow> seg (set_n_prev s1 (n_next (s x)) v) v (n_next (s x)) bs NULL" for v
    using seg_set_start [OF 4] 6 d by auto
  have 8: "bs = [] \<Longrightarrow> n_next (s x) = NULL" using 2 by simp
  show ?thesis
    using 4 5 6 7 8 by (cases "as = []"; cases "bs = []") (auto simp: seg_append)
qed

lemma process_remove_seg:
  assumes pl: "plist s l xs" and xs: "xs = as @ x # bs" "n_p (s x) = q" "q \<notin> set (plist_procs s as)"
  shows "\<exists>s' l'. process_remove s l q = Some (s', l', x) \<and> plist s' l' (as @ bs) \<and>
           (\<forall>y. n_p (s' y) = n_p (s y)) \<and> (\<forall>y. y \<notin> set xs \<longrightarrow> s' y = s y)"
proof -
  from pl have d: "distinct (as @ x # bs)" and sg: "seg s NULL (pl_head l) (as @ x # bs) NULL"
    and w: "pl_wait l = Some (l\<lparr>pl_mutex := 0\<rparr>)" using xs(1) by (simp_all add: plist_def plist_wait)
  have "dropWhile (\<lambda>x. n_p (s x) \<noteq> q) xs = x # bs"
    using xs by (subst xs(1), subst dropWhile_append2) (auto simp: plist_procs_def image_iff)
  then have f: "find_node s q (pl_head l) = Some x" using find_node_seg [OF sg [folded xs(1)], of q] by simp
  have prev: "n_prev (s x) = last (NULL # as)" and x: "x \<noteq> NULL" "x \<notin> set as" using sg d by (auto simp: seg_append)
  have nn: "NULL \<notin> set xs" using seg_not_null [OF sg] xs(1) by simp
  then have an: "n_prev (s x) = NULL \<longleftrightarrow> as = []" using prev xs(1) by (cases as rule: rev_cases) auto
  have sb: "seg s x (n_next (s x)) bs NULL" using sg by (auto simp: seg_append)
  have nx: "n_next (s x) = NULL \<longleftrightarrow> bs = []" using seg_empty_iff [OF sb] .
  have nb: "bs \<noteq> [] \<longrightarrow> n_next (s x) \<in> set xs" using seg_hd [OF sb] xs(1) by (cases bs) auto
  then have out: "y \<notin> set xs \<Longrightarrow> bs \<noteq> [] \<Longrightarrow> y \<noteq> n_next (s x)" for y by auto
  have pb: "as \<noteq> [] \<longrightarrow> last as \<in> set xs" "as \<noteq> [] \<longrightarrow> last as \<noteq> x" using xs(1) x by auto
  then have out': "y \<notin> set xs \<Longrightarrow> as \<noteq> [] \<Longrightarrow> y \<noteq> last as" for y by auto
  show ?thesis
  proof (cases "as = []")
    case True
    then show ?thesis
      using seg_unlink [OF sg d] d an nx nb x prev out
      by (auto simp: process_remove_def w f Let_def plist_def)
  next
    case False
    then show ?thesis
      using seg_unlink [OF sg d] d an nx nb pb x prev out out'
      by (auto simp: process_remove_def w f Let_def plist_def)
  qed
qed

text \<open>Where a process is the first in the list, the nodes split around it.\<close>

lemma plist_first:
  assumes "q \<in> set (plist_procs s xs)"
  obtains as x bs where "xs = as @ x # bs" "n_p (s x) = q" "q \<notin> set (plist_procs s as)"
    "plist_procs s (as @ bs) = remove1 q (plist_procs s xs)"
proof -
  from assms obtain x where "x \<in> set xs" "n_p (s x) = q" by (auto simp: plist_procs_def)
  then obtain as y bs where 1: "xs = as @ y # bs" "n_p (s y) = q" "\<forall>z \<in> set as. n_p (s z) \<noteq> q"
    using split_list_first_prop [of xs "\<lambda>z. n_p (s z) = q"] by blast
  then have 2: "q \<notin> set (plist_procs s as)" by (auto simp: plist_procs_def image_iff)
  then have "plist_procs s (as @ bs) = remove1 q (plist_procs s xs)"
    using 1 by (simp add: plist_procs_def remove1_append)
  then show thesis using that 1(1,2) 2 by blast
qed

text \<open>
  Removing a process from a well-formed list always returns; the first node that holds it is
  unlinked and freed, the other processes keep their order, and a process that is not in the
  list leaves it as it was.
\<close>

theorem process_remove_refines:
  assumes "plist s l xs"
  shows "\<exists>s' l' xs' n. process_remove s l q = Some (s', l', n) \<and> plist s' l' xs' \<and>
           plist_procs s' xs' = remove1 q (plist_procs s xs) \<and> set xs' = set xs - {n} \<and>
           (n \<in> set xs \<longleftrightarrow> q \<in> set (plist_procs s xs)) \<and> (\<forall>x. x \<in> set xs \<or> s' x = s x)"
proof (cases "q \<in> set (plist_procs s xs)")
  case True
  then obtain as x bs where 1: "xs = as @ x # bs" "n_p (s x) = q" "q \<notin> set (plist_procs s as)"
    "plist_procs s (as @ bs) = remove1 q (plist_procs s xs)" by (rule plist_first)
  then obtain s' l' where 2: "process_remove s l q = Some (s', l', x)" "plist s' l' (as @ bs)"
      "\<forall>y. n_p (s' y) = n_p (s y)" "\<forall>y. y \<notin> set xs \<longrightarrow> s' y = s y"
    using process_remove_seg [OF assms 1(1-3)] by blast
  have "plist_procs s' (as @ bs) = plist_procs s (as @ bs)" using 2(3) by (simp add: plist_procs_def)
  moreover have "distinct xs" using assms by (simp add: plist_def)
  then have "set (as @ bs) = set xs - {x}" using 1(1) by auto
  ultimately show ?thesis using 1 2 True by (intro exI [of _ s'] exI [of _ l'] exI [of _ "as @ bs"] exI [of _ x]) auto
next
  case False
  then have "\<forall>x \<in> set xs. n_p (s x) \<noteq> q" by (auto simp: plist_procs_def image_iff)
  then have d: "dropWhile (\<lambda>x. n_p (s x) \<noteq> q) xs = []" by simp
  have sg: "seg s NULL (pl_head l) xs NULL" and m: "pl_mutex l = 1" and nn: "NULL \<notin> set xs"
    using assms seg_not_null by (auto simp: plist_def)
  have "process_remove s l q = Some (s, pl_post (l\<lparr>pl_mutex := 0\<rparr>), NULL)"
    using find_node_seg [OF sg, of q] d by (simp add: process_remove_def plist_wait [OF m])
  moreover have "plist s (pl_post (l\<lparr>pl_mutex := 0\<rparr>)) xs" using assms by (simp add: plist_def)
  ultimately show ?thesis
    using False nn by (intro exI [of _ s] exI [of _ "pl_post (l\<lparr>pl_mutex := 0\<rparr>)"] exI [of _ xs] exI [of _ NULL])
      (auto simp: remove1_idem)
qed

text \<open>
  Taking the process of lowest run time always returns: on a nonempty well-formed list it is
  the head, whose node is freed, and the rest stays a well-formed list in order; on an empty list
  the answer is NULL.
\<close>

theorem process_remove_lowest_refines:
  assumes "plist s l xs"
  shows "\<exists>s' l' r n. process_remove_lowest s l = Some (s', l', r, n) \<and> plist s' l' (tl xs) \<and>
           plist_procs s' (tl xs) = tl (plist_procs s xs) \<and>
           r = (if xs = [] then NULL else hd (plist_procs s xs)) \<and>
           n = (if xs = [] then NULL else hd xs) \<and> (\<forall>x. x \<in> set xs \<or> s' x = s x)"
proof (cases xs)
  case Nil
  then show ?thesis using assms by (auto simp: plist_def process_remove_lowest_def plist_wait Let_def plist_procs_def)
next
  case (Cons x ys)
  from assms have m: "pl_mutex l = 1" and sg: "seg s NULL (pl_head l) ([] @ x # ys) NULL"
    and d: "distinct ([] @ x # ys)" using Cons by (simp_all add: plist_def)
  then have h: "pl_head l = x" "x \<noteq> NULL" and sy: "seg s x (n_next (s x)) ys NULL" by simp_all
  have ny: "n_next (s x) = NULL \<longleftrightarrow> ys = []" using seg_empty_iff [OF sy] .
  have "ys \<noteq> [] \<longrightarrow> n_next (s x) \<in> set ys" using seg_hd [OF sy] by (cases ys) auto
  then have "y \<in> set ys \<or> ys = [] \<or> set_n_prev s (n_next (s x)) NULL y = s y" for y
    by (cases "y = n_next (s x)") auto
  then show ?thesis
    using seg_unlink [OF sg d] h ny d Cons
    by (auto simp: process_remove_lowest_def plist_wait [OF m] Let_def plist_def plist_procs_def)
qed

lemma process_llist_len_plist: "plist s l xs \<Longrightarrow> process_llist_len s l = Some (length xs)"
  using llist_len_from_seg [of s NULL "pl_head l" xs 0] by (simp add: process_llist_len_def plist_def)

section \<open>The specification keeps lists sorted\<close>

lemma sorted_insert_mset: "mset (sorted_insert f p ps) = add_mset p (mset ps)"
proof -
  have "mset (takeWhile Q ps) + mset (dropWhile Q ps) = mset ps" for Q
    by (metis mset_append takeWhile_dropWhile_id)
  then show ?thesis by (simp add: sorted_insert_def)
qed

lemma sorted_insert_set [simp]: "set (sorted_insert f p ps) = insert p (set ps)"
  using sorted_insert_mset [of f p ps] by (metis set_mset_add_mset_insert set_mset_mset)

lemma sorted_insert_sorted:
  assumes "sorted (map f ps)"
  shows "sorted (map f (sorted_insert f p ps))"
proof -
  let ?Q = "\<lambda>q. f q < f p"
  have "sorted (map f (takeWhile ?Q ps) @ map f (dropWhile ?Q ps))"
    using assms by (simp flip: map_append)
  moreover have "\<forall>q \<in> set (takeWhile ?Q ps). f q < f p" by (auto dest: set_takeWhileD)
  moreover have "\<forall>q \<in> set (dropWhile ?Q ps). f p \<le> f q"
  proof (cases "dropWhile ?Q ps")
    case (Cons y ys)
    then have "\<not> f y < f p" using hd_dropWhile [of ?Q ps] by simp
    moreover have "\<forall>q \<in> set ys. f y \<le> f q" using \<open>sorted (map f (takeWhile ?Q ps) @ map f (dropWhile ?Q ps))\<close> Cons
      by (auto simp: sorted_append)
    ultimately show ?thesis using Cons by (auto simp: not_less intro: order_trans)
  next
    case Nil
    then show ?thesis unfolding Nil by simp
  qed
  ultimately show ?thesis unfolding sorted_insert_def by (force simp: sorted_append less_imp_le)
qed

section \<open>A list of two processes\<close>

definition demo_pl_store :: pl_store where
  "demo_pl_store = (\<lambda>_. \<lparr>n_p = 0, n_next = 0, n_prev = 0\<rparr>)
     (0x100 := \<lparr>n_p = 0x8000, n_next = 0x200, n_prev = 0\<rparr>,
      0x200 := \<lparr>n_p = 0x9000, n_next = 0, n_prev = 0x100\<rparr>)"

definition demo_pl :: pl_start where
  "demo_pl = \<lparr>pl_head = 0x100, pl_mutex = 1\<rparr>"

definition demo_vruntime :: "u64 \<Rightarrow> u64" where
  "demo_vruntime p = drop_bit 12 p"

lemma demo_plist: "plist demo_pl_store demo_pl [0x100, 0x200]"
  by (simp add: plist_def demo_pl_store_def demo_pl_def)

lemma demo_pl_procs: "plist_procs demo_pl_store [0x100, 0x200] = [0x8000, 0x9000]"
  by (simp add: plist_procs_def demo_pl_store_def)

lemma demo_sorted_insert: "sorted_insert demo_vruntime 0x8800 [0x8000, 0x9000] = [0x8800, 0x8000, 0x9000]"
  by code_simp

theorem process_insert_refines_witness:
  "\<exists>s' l' xs'. process_insert demo_vruntime 0x300 demo_pl_store demo_pl 0x8800 = Some (s', l') \<and>
     plist s' l' xs' \<and> plist_procs s' xs' = [0x8800, 0x8000, 0x9000]"
  using process_insert_refines [where p = "0x8800" and new = "0x300" and f = demo_vruntime, OF demo_plist]
  unfolding demo_pl_procs demo_sorted_insert by auto

theorem process_remove_refines_witness:
  "\<exists>s' l' xs'. process_remove demo_pl_store demo_pl 0x9000 = Some (s', l', 0x200) \<and>
     plist s' l' xs' \<and> plist_procs s' xs' = [0x8000]"
proof -
  have "process_remove demo_pl_store demo_pl 0x9000 = Some x \<Longrightarrow> snd (snd x) = 0x200" for x
    by (auto simp: process_remove_def plist_wait demo_pl_def find_node_step demo_pl_store_def Let_def)
  then show ?thesis
    using process_remove_refines [where q = "0x9000", OF demo_plist] by (fastforce simp: demo_pl_procs)
qed

theorem process_remove_lowest_refines_witness:
  "\<exists>s' l'. process_remove_lowest demo_pl_store demo_pl = Some (s', l', 0x8000, 0x100) \<and>
     plist s' l' [0x200] \<and> plist_procs s' [0x200] = [0x9000]"
  using process_remove_lowest_refines [OF demo_plist] by (simp add: demo_pl_procs) blast

end
