(* ===== verification/Sched.thy ===== *)
theory Sched
  imports Process Proc_List
begin

text \<open>
  The scheduler of \<^verbatim>\<open>src/sched.c\<close> and \<open>process_spawn\<close>. The two process lists are the lists of
  process addresses that \<open>process_insert\<close>, \<open>process_remove\<close> and \<open>process_remove_lowest\<close> are shown
  to implement; process structures are a store indexed by address.
\<close>

section \<open>Model\<close>

record sched_state =
  procs :: "u64 \<Rightarrow> process"
  unsched :: "u64 list"
  sleeping :: "u64 list"
  process_current :: "int \<Rightarrow> u64"
  process_idle :: "int \<Rightarrow> u64"
  process_trap_stacks :: "int \<Rightarrow> u64"
  sched_mutex :: int
  sched_pid :: int
  kh :: kheap
  acts :: "hart_action list"

abbreviation vrt :: "sched_state \<Rightarrow> u64 \<Rightarrow> u64" where
  "vrt st p \<equiv> vruntime (procs st p)"

definition set_proc :: "sched_state \<Rightarrow> u64 \<Rightarrow> process \<Rightarrow> sched_state" where
  "set_proc st p pr = st\<lparr>procs := (procs st)(p := pr)\<rparr>"

text \<open>\<open>process_spawn\<close>: the state and the return code.\<close>

definition process_spawn :: "spawn_syms \<Rightarrow> sbi_env \<Rightarrow> sched_state \<Rightarrow> u64 \<Rightarrow> int \<Rightarrow> sched_state \<times> int" where
  "process_spawn sy env st p target_hart =
     (if spawn_refused env target_hart then (st, 1)
      else
        (let pr = spawn_process (procs st p) target_hart (process_trap_stacks st target_hart);
             st1 = (set_proc st p pr)\<lparr>process_current := (process_current st)(target_hart := p)\<rparr>
         in (st1\<lparr>acts := acts st @ spawn_actions sy env (kh st) pr target_hart\<rparr>, 0)))"

definition with_pid :: "process \<Rightarrow> u16 \<Rightarrow> process" where
  "with_pid pr n = pr\<lparr>pid := n, frame := (frame pr)\<lparr>f_satp := make_satp (ucast n) (ptable pr)\<rparr>\<rparr>"

definition sched_assign_pid :: "sched_state \<Rightarrow> u64 \<Rightarrow> sched_state" where
  "sched_assign_pid st p =
     (set_proc st p (with_pid (procs st p) (word_of_int (sched_pid st))))\<lparr>sched_pid := sched_pid st + 1\<rparr>"

definition sched_assign_idle_pid :: "sched_state \<Rightarrow> int \<Rightarrow> u64 \<Rightarrow> sched_state" where
  "sched_assign_idle_pid st hart p = set_proc st p (with_pid (procs st p) (word_of_int (0xfffe - hart)))"

definition sched_add :: "sched_state \<Rightarrow> u64 \<Rightarrow> sched_state" where
  "sched_add st p =
     (if p = NULL then st else st\<lparr>unsched := sorted_insert (vrt st) p (unsched st)\<rparr>)"

definition sched_sleep :: "sched_state \<Rightarrow> u64 \<Rightarrow> sched_state" where
  "sched_sleep st p =
     (if p = NULL then st else st\<lparr>sleeping := sorted_insert (vrt st) p (sleeping st)\<rparr>)"

definition sched_get :: "sched_state \<Rightarrow> sched_state \<times> u64" where
  "sched_get st = (case unsched st of [] \<Rightarrow> (st, NULL) | p # ps \<Rightarrow> (st\<lparr>unsched := ps\<rparr>, p))"

text \<open>One wake-up: the target becomes eligible and moves between the lists.\<close>

definition wake :: "sched_state \<Rightarrow> u64 \<Rightarrow> sched_state" where
  "wake st target =
     (let st1 = set_proc st target ((procs st target)\<lparr>pstate := PS_RUNNING\<rparr>)
      in sched_add (st1\<lparr>sleeping := remove1 target (sleeping st1)\<rparr>) target)"

lemma set_proc_fields [simp]:
  "unsched (set_proc st p pr) = unsched st" "sleeping (set_proc st p pr) = sleeping st"
  "process_current (set_proc st p pr) = process_current st" "process_idle (set_proc st p pr) = process_idle st"
  "procs (set_proc st p pr) = (procs st)(p := pr)" "kh (set_proc st p pr) = kh st"
  "sched_mutex (set_proc st p pr) = sched_mutex st" "acts (set_proc st p pr) = acts st"
  "process_trap_stacks (set_proc st p pr) = process_trap_stacks st"
  by (simp_all add: set_proc_def)

lemma wake_sleeping [simp]: "sleeping (wake st p) = remove1 p (sleeping st)"
  by (simp add: wake_def sched_add_def Let_def)

text \<open>
  The walk, at position \<open>i\<close> of the sleeping list. After a wake-up the pointer is set to the head
  of the list and the loop's increment moves it to the second element.
\<close>

function walk_from :: "u64 \<Rightarrow> sched_state \<Rightarrow> nat \<Rightarrow> sched_state" where
  "walk_from time st i =
     (if i < length (sleeping st) then
        (let target = sleeping st ! i in
         if sleep_until (procs st target) < time then walk_from time (wake st target) 1
         else walk_from time st (i + 1))
      else st)"
  by auto
termination
  by (relation "inv_image (less_than <*lex*> less_than)
        (\<lambda>(time, st, i). (length (sleeping st), length (sleeping st) - i))")
     (auto simp: length_remove1)

declare walk_from.simps [simp del]

definition sched_walk_sleeping_list :: "sbi_env \<Rightarrow> sched_state \<Rightarrow> sched_state" where
  "sched_walk_sleeping_list env st = walk_from (clint_time env) st 0"

text \<open>
  What \<open>sched_invoke\<close> does with the process that was on the hart. A freed structure leaves the
  store unchanged: nothing refers to it any more.
\<close>

definition sched_retire :: "heap_syms \<Rightarrow> sched_state \<Rightarrow> int \<Rightarrow> u64 \<Rightarrow> sched_state option" where
  "sched_retire hs st hart p =
     (if pstate (procs st p) = PS_ASYNC_FREE then
        (case process_free hs (kh st) p (procs st p) of
           None \<Rightarrow> None
         | Some (s', pr, _) \<Rightarrow> Some ((set_proc st p pr)\<lparr>kh := s'\<rparr>))
      else if pstate (procs st p) = PS_SLEEPING then Some (sched_sleep st p)
      else if p = process_idle st hart then Some st
      else Some (sched_add st p))"

text \<open>The process on the hart; with none there, the scheduler goes on as if the idle one was.\<close>

definition task_on :: "sched_state \<Rightarrow> int \<Rightarrow> u64" where
  "task_on st hart = (if process_current st hart = NULL then process_idle st hart else process_current st hart)"

definition sched_invoke ::
    "heap_syms \<Rightarrow> spawn_syms \<Rightarrow> sbi_env \<Rightarrow> sched_state \<Rightarrow> int \<Rightarrow> sched_state option" where
  "sched_invoke hs sy env st0 hart =
     (case mutex_try (sched_mutex st0) of (v, r) \<Rightarrow>
      if r = 0 then None
      else
        (let st1 = sched_walk_sleeping_list env (st0\<lparr>sched_mutex := v\<rparr>);
             p = task_on st1 hart;
             st2 = (set_proc st1 p ((procs st1 p)\<lparr>on_hart := - 1\<rparr>))
                     \<lparr>process_current := (process_current st1)(hart := NULL)\<rparr>
         in case sched_retire hs st2 hart p of
              None \<Rightarrow> None
            | Some st3 \<Rightarrow>
                (let (st4, got) = sched_get st3;
                     new = (if got = NULL then process_idle st4 hart else got);
                     st5 = st4\<lparr>sched_mutex := mutex_post (sched_mutex st4)\<rparr>
                 in Some (fst (process_spawn sy env st5 new hart)))))"

text \<open>\<open>sched_init\<close>: one idle process per hart, spawned on every hart but the first.\<close>

fun sched_init_from ::
    "heap_syms \<Rightarrow> spawn_syms \<Rightarrow> sbi_env \<Rightarrow> sched_state \<Rightarrow> nat list \<Rightarrow> sched_state option" where
  "sched_init_from hs sy env st [] = Some st"
| "sched_init_from hs sy env st (i # is) =
     (case process_init_new hs sy (kh st) PS_PRIV_SUPERVISOR of
        None \<Rightarrow> None
      | Some (s1, p, pr) \<Rightarrow>
          case load_idle_process hs sy (phys s1) pr of
            None \<Rightarrow> None
          | Some (m, pr1, _) \<Rightarrow>
              (let st1 = set_proc (st\<lparr>kh := s1\<lparr>phys := m\<rparr>\<rparr>) p pr1;
                   st2 = sched_assign_idle_pid st1 (int i) p;
                   st3 = st2\<lparr>process_idle := (process_idle st2)(int i := p)\<rparr>;
                   st4 = (if i \<noteq> 0 then fst (process_spawn sy env st3 p (int i)) else st3)
               in sched_init_from hs sy env st4 is))"

text \<open>The heads of the two lists are themselves allocated: 16 bytes each.\<close>

definition sched_init :: "heap_syms \<Rightarrow> spawn_syms \<Rightarrow> sbi_env \<Rightarrow> sched_state \<Rightarrow> sched_state option" where
  "sched_init hs sy env st =
     (case kmalloc hs (kh st) 16 of None \<Rightarrow> None | Some (s1, _) \<Rightarrow>
      case kmalloc hs s1 16 of None \<Rightarrow> None | Some (s2, _) \<Rightarrow>
      case sched_init_from hs sy env (st\<lparr>kh := s2, unsched := [], sleeping := []\<rparr>)
             [0..<MAX_SUPPORTED_HARTS] of
        None \<Rightarrow> None
      | Some st' \<Rightarrow> Some (st'\<lparr>sched_mutex := mutex_post (sched_mutex st')\<rparr>))"

section \<open>The walk over the sleeping list\<close>

lemma walk_from_inv:
  assumes "P st"
    and "\<And>st t. P st \<Longrightarrow> t \<in> set (sleeping st) \<Longrightarrow> sleep_until (procs st t) < time \<Longrightarrow> P (wake st t)"
  shows "P (walk_from time st i)"
  using assms
proof (induction time st i rule: walk_from.induct)
  case (1 time st i)
  then show ?case by (subst walk_from.simps) (auto simp: Let_def)
qed

lemma walk_from_tail:
  "(\<forall>j. 1 \<le> j \<and> j < i \<longrightarrow> j < length (sleeping st) \<longrightarrow> \<not> sleep_until (procs st (sleeping st ! j)) < time) \<Longrightarrow>
   p \<in> set (tl (sleeping (walk_from time st i))) \<Longrightarrow>
   \<not> sleep_until (procs (walk_from time st i) p) < time"
proof (induction time st i rule: walk_from.induct)
  case (1 time st i)
  show ?case
  proof (cases "i < length (sleeping st)")
    case False
    then have w: "walk_from time st i = st" by (simp add: walk_from.simps)
    obtain k where k: "k < length (tl (sleeping st))" "tl (sleeping st) ! k = p"
      using 1(4) w by (auto simp: in_set_conv_nth)
    then have "sleeping st ! Suc k = p" "Suc k < length (sleeping st)" by (auto simp: nth_tl)
    then show ?thesis using 1(3) [rule_format, of "Suc k"] False w by simp
  next
    case True
    show ?thesis
    proof (cases "sleep_until (procs st (sleeping st ! i)) < time")
      case w: True
      have e: "walk_from time st i = walk_from time (wake st (sleeping st ! i)) 1"
        using True w by (subst walk_from.simps) (simp add: Let_def)
      show ?thesis using 1(1) [OF True refl w] 1(4) unfolding e by auto
    next
      case w: False
      have e: "walk_from time st i = walk_from time st (i + 1)"
        using True w by (subst walk_from.simps) (simp add: Let_def)
      show ?thesis using 1(2) [OF True refl w] 1(3,4) w unfolding e by (auto simp: less_Suc_eq)
    qed
  qed
qed

text \<open>What a wake-up changes.\<close>

lemma wake_facts:
  assumes "t \<in> set (sleeping st)" "t \<noteq> NULL"
  shows "unsched (wake st t) = sorted_insert (vrt st) t (unsched st)"
    "vrt (wake st t) = vrt st" "sleep_until (procs (wake st t) q) = sleep_until (procs st q)"
    "pstate (procs (wake st t) q) = (if q = t then PS_RUNNING else pstate (procs st q))"
    "on_hart (procs (wake st t) q) = on_hart (procs st q)"
    "process_current (wake st t) = process_current st" "process_idle (wake st t) = process_idle st"
    "process_trap_stacks (wake st t) = process_trap_stacks st"
    "kh (wake st t) = kh st" "sched_mutex (wake st t) = sched_mutex st"
proof -
  have v: "(\<lambda>p. vruntime (((procs st)(t := (procs st t)\<lparr>pstate := PS_RUNNING\<rparr>)) p)) = vrt st" by auto
  show "unsched (wake st t) = sorted_insert (vrt st) t (unsched st)" "vrt (wake st t) = vrt st"
    using assms(2) v by (simp_all add: wake_def sched_add_def Let_def)
qed (use assms in \<open>simp_all add: wake_def sched_add_def Let_def\<close>)

text \<open>What the walk keeps and what it moves, by induction over its wake-ups.\<close>

definition walked :: "u64 \<Rightarrow> sched_state \<Rightarrow> sched_state \<Rightarrow> bool" where
  "walked time st st' \<longleftrightarrow>
     NULL \<notin> set (sleeping st') \<and>
     mset (unsched st') + mset (sleeping st') = mset (unsched st) + mset (sleeping st) \<and>
     set (sleeping st') \<subseteq> set (sleeping st) \<and>
     filter (\<lambda>p. time \<le> sleep_until (procs st p)) (sleeping st') =
       filter (\<lambda>p. time \<le> sleep_until (procs st p)) (sleeping st) \<and>
     vrt st' = vrt st \<and> (\<forall>q. sleep_until (procs st' q) = sleep_until (procs st q)) \<and>
     (\<forall>q. pstate (procs st' q) = pstate (procs st q) \<or>
        q \<in> set (sleeping st) \<and> sleep_until (procs st q) < time \<and> pstate (procs st' q) = PS_RUNNING) \<and>
     (\<forall>q. on_hart (procs st' q) = on_hart (procs st q)) \<and>
     (\<forall>q. q \<notin> set (sleeping st) \<longrightarrow> procs st' q = procs st q) \<and>
     (sorted (map (vrt st) (unsched st)) \<longrightarrow> sorted (map (vrt st) (unsched st'))) \<and>
     process_current st' = process_current st \<and> process_idle st' = process_idle st \<and>
     process_trap_stacks st' = process_trap_stacks st \<and> kh st' = kh st \<and> sched_mutex st' = sched_mutex st"

lemma filter_remove1_not: "\<not> P x \<Longrightarrow> filter P (remove1 x xs) = filter P xs"
  by (induction xs) auto

lemma wake_procs: "q \<noteq> t \<Longrightarrow> procs (wake st t) q = procs st q"
  by (simp add: wake_def sched_add_def set_proc_def Let_def)

lemma walked_wake:
  assumes w: "walked time st st'" and t: "t \<in> set (sleeping st')" and e: "sleep_until (procs st' t) < time"
  shows "walked time st (wake st' t)"
proof -
  have tn: "t \<noteq> NULL" using w t by (auto simp: walked_def)
  have ts: "sleep_until (procs st t) < time" "t \<in> set (sleeping st)" using w t e by (auto simp: walked_def)
  note wf = wake_facts [OF t tn]
  have "mset (sleeping st') = add_mset t (mset (remove1 t (sleeping st')))" using t by simp
  then have "mset (unsched (wake st' t)) + mset (sleeping (wake st' t)) = mset (unsched st) + mset (sleeping st)"
    using w unfolding walked_def wf wake_sleeping sorted_insert_mset
    by (metis union_mset_add_mset_left union_mset_add_mset_right)
  moreover have "set (remove1 t (sleeping st')) \<subseteq> set (sleeping st')" by (rule set_remove1_subset)
  moreover have "sorted (map (vrt st) (unsched st)) \<longrightarrow> sorted (map (vrt st) (unsched (wake st' t)))"
    using w sorted_insert_sorted [of "vrt st" "unsched st'" t] by (auto simp: walked_def wf)
  moreover have "\<forall>q. q \<notin> set (sleeping st) \<longrightarrow> procs (wake st' t) q = procs st q"
    using w ts wake_procs by (metis walked_def)
  ultimately show ?thesis
    using w ts by (auto simp: walked_def wf filter_remove1_not simp del: mset_remove1)
qed

lemma walk_walked:
  assumes "NULL \<notin> set (sleeping st)"
  shows "walked (clint_time env) st (sched_walk_sleeping_list env st)"
  unfolding sched_walk_sleeping_list_def
proof (rule walk_from_inv)
  show "walked (clint_time env) st st" using assms by (auto simp: walked_def)
qed (rule walked_wake)

lemma walk_tail:
  "p \<in> set (tl (sleeping (sched_walk_sleeping_list env st))) \<Longrightarrow>
   \<not> sleep_until (procs (sched_walk_sleeping_list env st) p) < clint_time env"
  using walk_from_tail [of 0 st "clint_time env" p] by (simp add: sched_walk_sleeping_list_def)

text \<open>
  Walking the sleeping list wakes only processes whose time has come: the others stay, in
  their order; nobody is lost or duplicated; the woken ones are made eligible and inserted in run
  time order. Afterwards only the head of the sleeping list can still be due: the walk skips the
  head after a wake-up.
\<close>

theorem sched_walk_wakes:
  assumes "NULL \<notin> set (sleeping st)" and "sorted (map (vrt st) (unsched st))"
    and "st' = sched_walk_sleeping_list env st" and "due = (\<lambda>p. sleep_until (procs st p) < clint_time env)"
  shows "mset (unsched st') + mset (sleeping st') = mset (unsched st) + mset (sleeping st) \<and>
    filter (\<lambda>p. \<not> due p) (sleeping st') = filter (\<lambda>p. \<not> due p) (sleeping st) \<and>
    (\<forall>p \<in> set (tl (sleeping st')). \<not> due p) \<and> sorted (map (vrt st') (unsched st')) \<and>
    (\<forall>p. pstate (procs st' p) = pstate (procs st p) \<or> due p \<and> pstate (procs st' p) = PS_RUNNING)"
proof -
  have w: "walked (clint_time env) st st'" unfolding assms(3) by (rule walk_walked [OF assms(1)])
  have "\<forall>p \<in> set (tl (sleeping st')). \<not> due p"
    using walk_tail [of _ env st] w by (auto simp: walked_def assms(3,4))
  then show ?thesis using w assms(2) by (auto simp: walked_def assms(4) not_less)
qed

section \<open>Dispatching\<close>

lemma wake_mutex: "wake (st\<lparr>sched_mutex := v\<rparr>) t = (wake st t)\<lparr>sched_mutex := v\<rparr>"
  by (simp add: wake_def sched_add_def set_proc_def Let_def)

lemma walk_from_mutex:
  "walk_from time (st\<lparr>sched_mutex := v\<rparr>) i = (walk_from time st i)\<lparr>sched_mutex := v\<rparr>"
proof (induction time st i rule: walk_from.induct)
  case (1 time st i)
  show ?case
    by (subst (1 2) walk_from.simps) (use 1 in \<open>auto simp: Let_def wake_mutex\<close>)
qed

text \<open>The processes the scheduler of a hart is responsible for.\<close>

definition tasks :: "sched_state \<Rightarrow> int \<Rightarrow> u64 multiset" where
  "tasks st hart = mset (unsched st) + mset (sleeping st) +
     (if task_on st hart = process_idle st hart then {#} else {#task_on st hart#})"

text \<open>The processes that compete for the hart once the sleeping list has been walked.\<close>

definition candidates :: "sbi_env \<Rightarrow> sched_state \<Rightarrow> int \<Rightarrow> u64 set" where
  "candidates env st hart = set (unsched (sched_walk_sleeping_list env st)) \<union>
     (if task_on st hart = process_idle st hart \<or> pstate (procs st (task_on st hart)) = PS_SLEEPING
      then {} else {task_on st hart})"

definition sched_wf :: "sched_state \<Rightarrow> int \<Rightarrow> bool" where
  "sched_wf st hart \<longleftrightarrow>
     NULL \<notin> set (unsched st) \<and> NULL \<notin> set (sleeping st) \<and> sorted (map (vrt st) (unsched st)) \<and>
     process_idle st hart \<noteq> NULL \<and> pstate (procs st (process_idle st hart)) \<noteq> PS_SLEEPING \<and>
     process_idle st hart \<notin> set (unsched st) \<union> set (sleeping st) \<and>
     task_on st hart \<notin> set (unsched st) \<union> set (sleeping st)"

lemma sched_retire_keeps:
  assumes "sched_retire hs st hart p = Some st'" and "pstate (procs st p) \<noteq> PS_ASYNC_FREE" "p \<noteq> NULL"
  shows "procs st' = procs st" "process_idle st' = process_idle st"
    "sleeping st' = (if pstate (procs st p) = PS_SLEEPING then sorted_insert (vrt st) p (sleeping st) else sleeping st)"
    "unsched st' = (if pstate (procs st p) = PS_SLEEPING \<or> p = process_idle st hart then unsched st
                    else sorted_insert (vrt st) p (unsched st))"
  using assms by (auto simp: sched_retire_def sched_sleep_def sched_add_def split: if_splits)

lemma sched_get_eq:
  "sched_get st = (st\<lparr>unsched := tl (unsched st)\<rparr>, case unsched st of [] \<Rightarrow> NULL | p # _ \<Rightarrow> p)"
  by (cases "unsched st") (simp_all add: sched_get_def)

lemma sched_retire_some:
  "pstate (procs st p) \<noteq> PS_ASYNC_FREE \<Longrightarrow> \<exists>st'. sched_retire hs st hart p = Some st'"
  by (auto simp: sched_retire_def)

text \<open>The state in which \<open>sched_get\<close> is called, for a process that is not to be freed.\<close>

lemma sched_invoke_ready:
  assumes wf: "sched_wf st hart" and m: "sched_mutex st = 1"
    and run: "pstate (procs st (task_on st hart)) \<noteq> PS_ASYNC_FREE"
  obtains st3 where
    "sched_invoke hs sy env st hart = Some (fst (process_spawn sy env
       ((fst (sched_get st3))\<lparr>sched_mutex := mutex_post (sched_mutex (fst (sched_get st3)))\<rparr>)
       (if snd (sched_get st3) = NULL then process_idle (fst (sched_get st3)) hart else snd (sched_get st3)) hart))"
    "process_idle st3 = process_idle st" "vrt st3 = vrt st"
    "set (unsched st3) = candidates env st hart" "sorted (map (vrt st) (unsched st3))"
    "mset (unsched st3) + mset (sleeping st3) = tasks st hart"
    "procs st3 (task_on st hart) = (procs st (task_on st hart))\<lparr>on_hart := - 1\<rparr>"
proof -
  let ?w = "sched_walk_sleeping_list env st" and ?p = "task_on st hart"
  have w: "walked (clint_time env) st ?w" using wf by (intro walk_walked) (auto simp: sched_wf_def)
  have wm: "sched_walk_sleeping_list env (st\<lparr>sched_mutex := 0\<rparr>) = ?w\<lparr>sched_mutex := 0\<rparr>"
    by (simp add: sched_walk_sleeping_list_def walk_from_mutex)
  have pw: "task_on ?w hart = ?p" using w by (simp add: walked_def task_on_def)
  have ps: "pstate (procs ?w ?p) = pstate (procs st ?p)" using w wf by (auto simp: walked_def sched_wf_def)
  have pn: "?p \<noteq> NULL" using wf by (auto simp: sched_wf_def task_on_def)
  define st2 where "st2 = (set_proc (?w\<lparr>sched_mutex := 0\<rparr>) ?p ((procs ?w ?p)\<lparr>on_hart := - 1\<rparr>))
    \<lparr>process_current := (process_current ?w)(hart := NULL)\<rparr>"
  have s2: "procs st2 = (procs ?w)(?p := (procs ?w ?p)\<lparr>on_hart := - 1\<rparr>)" "unsched st2 = unsched ?w"
      "sleeping st2 = sleeping ?w" "process_idle st2 = process_idle st"
    using w by (simp_all add: st2_def walked_def)
  have p2: "pstate (procs st2 ?p) = pstate (procs st ?p)" and v2: "vrt st2 = vrt st"
    using w ps by (auto simp: s2 walked_def fun_eq_iff)
  obtain st3 where r: "sched_retire hs st2 hart ?p = Some st3"
    using sched_retire_some [of st2 ?p hs hart] run p2 by auto
  note k = sched_retire_keeps [OF r, unfolded p2, OF run pn]
  have idle: "?p = process_idle st hart \<Longrightarrow> pstate (procs st ?p) \<noteq> PS_SLEEPING"
    using wf by (simp add: sched_wf_def)
  have srt: "sorted (map (vrt st) (unsched ?w))" using w wf by (simp add: walked_def sched_wf_def)
  show thesis
  proof (rule that)
    show "sched_invoke hs sy env st hart = Some (fst (process_spawn sy env
       ((fst (sched_get st3))\<lparr>sched_mutex := mutex_post (sched_mutex (fst (sched_get st3)))\<rparr>)
       (if snd (sched_get st3) = NULL then process_idle (fst (sched_get st3)) hart else snd (sched_get st3)) hart))"
    proof -
      have "task_on (?w\<lparr>sched_mutex := 0\<rparr>) hart = ?p" using w by (simp add: walked_def task_on_def)
      then show ?thesis
        using r by (simp add: sched_invoke_def m mutex_try_def wm Let_def st2_def case_prod_beta)
    qed
    show "process_idle st3 = process_idle st" "vrt st3 = vrt st" using k s2 v2 by simp_all
    show "set (unsched st3) = candidates env st hart" using k idle s2 by (auto simp: candidates_def)
    show "sorted (map (vrt st) (unsched st3))"
      using k s2 v2 srt by (auto intro: sorted_insert_sorted)
    show "mset (unsched st3) + mset (sleeping st3) = tasks st hart"
      using w k s2 idle by (auto simp: tasks_def sorted_insert_mset walked_def)
    show "procs st3 ?p = (procs st ?p)\<lparr>on_hart := - 1\<rparr>" using w wf k s2 by (simp add: walked_def sched_wf_def)
  qed
qed

text \<open>
  C11: The scheduler gives the hart to a process of least run time among the processes eligible to
  run (those waiting, those just woken, and the one that was running unless it went to sleep),
  and to the idle process only when there is none. No process is lost or duplicated, and the
  scheduler's mutex is released.
\<close>

theorem sched_invoke_dispatches:
  assumes "sched_wf st hart" and "sched_mutex st = 1"
    and "pstate (procs st (task_on st hart)) \<noteq> PS_ASYNC_FREE" and "\<not> spawn_refused env hart"
  shows "\<exists>st'. sched_invoke hs sy env st hart = Some st' \<and> sched_mutex st' = 1 \<and>
    tasks st' hart = tasks st hart \<and>
    (if candidates env st hart = {} then process_current st' hart = process_idle st hart
     else process_current st' hart \<in> candidates env st hart \<and>
       (\<forall>q \<in> candidates env st hart. vrt st (process_current st' hart) \<le> vrt st q))"
proof -
  obtain st3 where i: "sched_invoke hs sy env st hart = Some (fst (process_spawn sy env
       ((fst (sched_get st3))\<lparr>sched_mutex := mutex_post (sched_mutex (fst (sched_get st3)))\<rparr>)
       (if snd (sched_get st3) = NULL then process_idle (fst (sched_get st3)) hart else snd (sched_get st3)) hart))"
    and k: "process_idle st3 = process_idle st" "vrt st3 = vrt st"
      "set (unsched st3) = candidates env st hart" "sorted (map (vrt st) (unsched st3))"
      "mset (unsched st3) + mset (sleeping st3) = tasks st hart"
    by (rule sched_invoke_ready [OF assms(1-3)])
  have idle: "process_idle st hart \<notin> candidates env st hart" "process_idle st hart \<noteq> NULL"
    and null: "NULL \<notin> candidates env st hart"
  proof -
    have "walked (clint_time env) st (sched_walk_sleeping_list env st)"
      using assms(1) by (intro walk_walked) (simp add: sched_wf_def)
    then have "set_mset (mset (unsched (sched_walk_sleeping_list env st))) \<subseteq> set (unsched st) \<union> set (sleeping st)"
      unfolding walked_def by (metis mset_subset_eq_add_left set_mset_mono set_mset_mset set_mset_union)
    then show "process_idle st hart \<notin> candidates env st hart" "process_idle st hart \<noteq> NULL"
      "NULL \<notin> candidates env st hart"
      using assms(1) by (auto simp: candidates_def sched_wf_def task_on_def)
  qed
  show ?thesis
  proof (cases "unsched st3")
    case Nil
    then show ?thesis
      using i k assms(4) idle
      by (auto simp: sched_get_eq process_spawn_def Let_def mutex_post_def tasks_def task_on_def)
  next
    case (Cons p ps)
    then have "p \<in> candidates env st hart" "p \<noteq> NULL" "p \<noteq> process_idle st hart" using k(3) idle null by auto
    moreover have "\<forall>q \<in> candidates env st hart. vrt st p \<le> vrt st q" using k(3,4) Cons by auto
    ultimately show ?thesis
      using i k assms(4) Cons
      by (auto simp: sched_get_eq process_spawn_def Let_def mutex_post_def tasks_def task_on_def)
  qed
qed

section \<open>A machine with two sleepers that are due\<close>

definition demo_proc :: "process_state \<Rightarrow> u64 \<Rightarrow> u64 \<Rightarrow> process" where
  "demo_proc ps until v = zero_process\<lparr>pstate := ps, sleep_until := until, vruntime := v, quantum := 100\<rparr>"

definition demo_sched :: sched_state where
  "demo_sched = \<lparr>procs = (\<lambda>_. demo_proc PS_RUNNING 0 0)
       (0x1000 := demo_proc PS_RUNNING 0 50, 0x2000 := demo_proc PS_RUNNING 0 40,
        0x3000 := demo_proc PS_SLEEPING 5 30, 0x4000 := demo_proc PS_SLEEPING 6 35),
     unsched = [0x2000], sleeping = [0x3000, 0x4000], process_current = (\<lambda>_. 0)(0 := 0x1000),
     process_idle = (\<lambda>_. 0x9000), process_trap_stacks = (\<lambda>_. 0x7000), sched_mutex = 1, sched_pid = 2,
     kh = demo_kheap, acts = []\<rparr>"

definition demo_env :: sbi_env where
  "demo_env = \<lparr>who_am_i = 0, hart_status_of = (\<lambda>_. HS_STOPPED), clint_time = 10\<rparr>"

lemma demo_procs:
  "vrt demo_sched 0x1000 = 50" "vrt demo_sched 0x2000 = 40" "vrt demo_sched 0x3000 = 30"
  "vrt demo_sched 0x4000 = 35" "sleep_until (procs demo_sched 0x3000) = 5"
  "sleep_until (procs demo_sched 0x4000) = 6"
  by (simp_all add: demo_sched_def demo_proc_def zero_process_def)

lemma demo_lists: "unsched demo_sched = [0x2000]" "sleeping demo_sched = [0x3000, 0x4000]"
  by (simp_all add: demo_sched_def)

lemma demo_walk:
  "unsched (sched_walk_sleeping_list demo_env demo_sched) = [0x3000, 0x2000]"
  "sleeping (sched_walk_sleeping_list demo_env demo_sched) = [0x4000]"
proof -
  have w: "sched_walk_sleeping_list demo_env demo_sched = wake demo_sched 0x3000"
    unfolding sched_walk_sleeping_list_def
    by (subst walk_from.simps, subst walk_from.simps)
       (simp add: demo_lists demo_procs demo_env_def Let_def)
  have "sorted_insert (vrt demo_sched) 0x3000 [0x2000] = [0x3000, 0x2000]"
    by (simp add: sorted_insert_def demo_procs)
  then show "unsched (sched_walk_sleeping_list demo_env demo_sched) = [0x3000, 0x2000]"
    "sleeping (sched_walk_sleeping_list demo_env demo_sched) = [0x4000]"
    unfolding w using wake_facts(1) [of "0x3000" demo_sched] by (simp_all add: demo_lists)
qed

theorem sched_walk_wakes_witness:
  "mset (unsched (sched_walk_sleeping_list demo_env demo_sched)) +
     mset (sleeping (sched_walk_sleeping_list demo_env demo_sched)) = {#0x2000, 0x3000, 0x4000#} \<and>
   sleeping (sched_walk_sleeping_list demo_env demo_sched) = [0x4000]"
  using sched_walk_wakes [of demo_sched _ demo_env, OF _ _ refl refl] demo_walk
  by (simp add: demo_lists)

theorem sched_invoke_dispatches_witness:
  "\<exists>st'. sched_invoke demo_heap \<lparr>spawn_thread_start = 0, spawn_thread_end = 0, spawn_trap_start = 0,
       spawn_trap_end = 0, idle_code_start = 0, idle_code_end = 0\<rparr> demo_env demo_sched 0 = Some st' \<and>
     process_current st' 0 = 0x3000"
proof -
  have t: "task_on demo_sched 0 = 0x1000" by (simp add: task_on_def demo_sched_def)
  have st: "pstate (procs demo_sched 0x1000) = PS_RUNNING" "process_idle demo_sched 0 = 0x9000"
    "pstate (procs demo_sched 0x9000) = PS_RUNNING" "sched_mutex demo_sched = 1"
    by (simp_all add: demo_sched_def demo_proc_def)
  have wf: "sched_wf demo_sched 0" by (simp add: sched_wf_def t st demo_lists)
  have c: "candidates demo_env demo_sched 0 = {0x3000, 0x2000, 0x1000}"
    by (auto simp: candidates_def t st demo_walk)
  have "\<not> spawn_refused demo_env 0" by (simp add: spawn_refused_def demo_env_def)
  then show ?thesis
    using sched_invoke_dispatches [OF wf] t st c by (fastforce simp: demo_procs)
qed

end
