(* ===== verification/Ring.thy ===== *)
theory Ring
  imports Fifo
begin

text \<open>
  The ring of input events of \<^verbatim>\<open>src/ring.c\<close>, with its three policies for a full buffer. The
  counters are 32-bit words; the invariant bounds the capacity so that \<open>start + occupied\<close> does
  not wrap. A buffer with the overwriting policy and one with the ignoring policy are the two
  extensions of the bounded FIFO contract.
\<close>

section \<open>Model\<close>

datatype rb_behavior = RB_OVERWRITE | RB_IGNORE | RB_ASK_FOR_MANAGER | RB_UNKNOWN

record input_event =
  ev_type :: u16
  ev_code :: u16
  ev_value :: u32

record ie_ring_buffer =
  rb_start :: u32
  rb_occupied :: u32
  rb_capacity :: u32
  rb_behavior :: rb_behavior
  rb_elements :: "input_event list"
  rb_mutex :: int

text \<open>The freshly allocated array of elements is an argument; its length is the capacity.\<close>

definition ie_ring_buffer_init :: "input_event list \<Rightarrow> rb_behavior \<Rightarrow> ie_ring_buffer" where
  "ie_ring_buffer_init elements behavior =
     \<lparr>rb_start = 0, rb_occupied = 0, rb_capacity = of_nat (length elements),
      rb_behavior = behavior, rb_elements = elements, rb_mutex = 1\<rparr>"

definition ie_ring_buffer_push :: "ie_ring_buffer \<Rightarrow> input_event \<Rightarrow> ie_ring_buffer \<times> int" where
  "ie_ring_buffer_push rb ev =
     (let i = unat ((rb_start rb + rb_occupied rb) mod rb_capacity rb) in
      if rb_occupied rb = rb_capacity rb then
        (case rb_behavior rb of
           RB_OVERWRITE \<Rightarrow>
             (rb\<lparr>rb_elements := (rb_elements rb)[i := ev],
                 rb_start := (rb_start rb + 1) mod rb_capacity rb\<rparr>, 0)
         | RB_IGNORE \<Rightarrow> (rb, 0)
         | RB_ASK_FOR_MANAGER \<Rightarrow> (rb\<lparr>rb_start := 0, rb_occupied := 0, rb_mutex := 1\<rparr>, 1)
         | RB_UNKNOWN \<Rightarrow> (rb\<lparr>rb_mutex := 1\<rparr>, 2))
      else
        (rb\<lparr>rb_elements := (rb_elements rb)[i := ev], rb_occupied := rb_occupied rb + 1\<rparr>, 0))"

definition no_event :: input_event where
  "no_event = \<lparr>ev_type = 0, ev_code = 0, ev_value = 0\<rparr>"

definition ie_ring_buffer_pop :: "ie_ring_buffer \<Rightarrow> ie_ring_buffer \<times> input_event" where
  "ie_ring_buffer_pop rb =
     (if rb_occupied rb = 0 then (rb\<lparr>rb_mutex := 1\<rparr>, no_event)
      else (rb\<lparr>rb_start := (rb_start rb + 1) mod rb_capacity rb, rb_occupied := rb_occupied rb - 1\<rparr>,
            rb_elements rb ! unat (rb_start rb)))"

section \<open>Invariant and contents\<close>

definition rb_inv :: "ie_ring_buffer \<Rightarrow> bool" where
  "rb_inv rb \<longleftrightarrow> unat (rb_start rb) < unat (rb_capacity rb) \<and>
     unat (rb_occupied rb) \<le> unat (rb_capacity rb) \<and> unat (rb_capacity rb) < 2 ^ 31 \<and>
     length (rb_elements rb) = unat (rb_capacity rb)"

definition rb_contents :: "ie_ring_buffer \<Rightarrow> input_event list" where
  "rb_contents rb = ring_contents (rb_elements rb) (unat (rb_start rb)) (unat (rb_occupied rb))"

lemma rb_index:
  assumes "rb_inv rb"
  shows "unat ((rb_start rb + rb_occupied rb) mod rb_capacity rb) =
      (unat (rb_start rb) + unat (rb_occupied rb)) mod length (rb_elements rb)"
    "unat ((rb_start rb + 1) mod rb_capacity rb) = (unat (rb_start rb) + 1) mod length (rb_elements rb)"
    "rb_occupied rb \<noteq> rb_capacity rb \<Longrightarrow> unat (rb_occupied rb + 1) = unat (rb_occupied rb) + 1"
    "rb_occupied rb \<noteq> 0 \<Longrightarrow> unat (rb_occupied rb - 1) = unat (rb_occupied rb) - 1"
proof -
  have b: "unat (rb_start rb) + unat (rb_occupied rb) < 2 ^ 32" "unat (rb_start rb) + 1 < 2 ^ 32"
    "unat (rb_occupied rb) + 1 < 2 ^ 32" using assms by (auto simp: rb_inv_def)
  have len: "length (rb_elements rb) = unat (rb_capacity rb)" using assms by (simp add: rb_inv_def)
  show "unat ((rb_start rb + rb_occupied rb) mod rb_capacity rb) =
      (unat (rb_start rb) + unat (rb_occupied rb)) mod length (rb_elements rb)"
    using b(1) by (simp add: len unat_mod unat_word_ariths)
  show "unat ((rb_start rb + 1) mod rb_capacity rb) = (unat (rb_start rb) + 1) mod length (rb_elements rb)"
    using b(2) by (simp add: len unat_mod unat_word_ariths)
  show "rb_occupied rb \<noteq> rb_capacity rb \<Longrightarrow> unat (rb_occupied rb + 1) = unat (rb_occupied rb) + 1"
    using b(3) by (simp add: unat_word_ariths)
  show "rb_occupied rb \<noteq> 0 \<Longrightarrow> unat (rb_occupied rb - 1) = unat (rb_occupied rb) - 1"
    by (simp add: unat_sub word_le_nat_alt unat_gt_0 Suc_le_eq)
qed

lemma rb_full_iff:
  assumes "rb_inv rb"
  shows "rb_occupied rb = rb_capacity rb \<longleftrightarrow> length (rb_contents rb) = unat (rb_capacity rb)"
  by (simp add: rb_contents_def word_unat_eq_iff)

lemma push_room:
  assumes inv: "rb_inv rb" and room: "rb_occupied rb \<noteq> rb_capacity rb"
  shows "rb_inv (fst (ie_ring_buffer_push rb ev))" "snd (ie_ring_buffer_push rb ev) = 0"
    "rb_contents (fst (ie_ring_buffer_push rb ev)) = rb_contents rb @ [ev]"
    "rb_capacity (fst (ie_ring_buffer_push rb ev)) = rb_capacity rb"
    "rb_behavior (fst (ie_ring_buffer_push rb ev)) = rb_behavior rb"
proof -
  have lt: "unat (rb_occupied rb) < unat (rb_capacity rb)"
    using inv room by (simp add: rb_inv_def word_unat_eq_iff order_le_less)
  show "rb_inv (fst (ie_ring_buffer_push rb ev))"
    using inv lt room by (simp add: ie_ring_buffer_push_def Let_def rb_inv_def rb_index(3) [OF inv])
  show "rb_contents (fst (ie_ring_buffer_push rb ev)) = rb_contents rb @ [ev]"
    using ring_push [of "unat (rb_start rb)" "rb_elements rb" "unat (rb_occupied rb)" ev] inv room lt
    by (simp add: ie_ring_buffer_push_def Let_def rb_contents_def rb_index [OF inv] rb_inv_def)
qed (use room in \<open>simp_all add: ie_ring_buffer_push_def Let_def\<close>)

lemma pop_some:
  assumes inv: "rb_inv rb" and ne: "rb_occupied rb \<noteq> 0"
  shows "rb_inv (fst (ie_ring_buffer_pop rb))"
    "rb_contents rb = snd (ie_ring_buffer_pop rb) # rb_contents (fst (ie_ring_buffer_pop rb))"
    "rb_capacity (fst (ie_ring_buffer_pop rb)) = rb_capacity rb"
    "rb_behavior (fst (ie_ring_buffer_pop rb)) = rb_behavior rb"
proof -
  have pos: "0 < unat (rb_capacity rb)" "0 < unat (rb_occupied rb)"
    using inv ne by (auto simp: rb_inv_def unat_gt_0)
  show "rb_inv (fst (ie_ring_buffer_pop rb))"
    using inv ne pos rb_index(2,4) [OF inv] by (auto simp: ie_ring_buffer_pop_def rb_inv_def)
  show "rb_contents rb = snd (ie_ring_buffer_pop rb) # rb_contents (fst (ie_ring_buffer_pop rb))"
    using ring_pop [of "unat (rb_start rb)" "rb_elements rb" "unat (rb_occupied rb)"] inv ne pos(2)
    by (simp add: ie_ring_buffer_pop_def rb_contents_def rb_index(2,4) [OF inv] rb_inv_def)
qed (use ne in \<open>simp_all add: ie_ring_buffer_pop_def\<close>)

lemma pop_none:
  assumes "rb_occupied rb = 0"
  shows "ie_ring_buffer_pop rb = (rb\<lparr>rb_mutex := 1\<rparr>, no_event)" "rb_contents rb = []"
  using assms by (simp_all add: ie_ring_buffer_pop_def rb_contents_def)

lemma rb_mutex_irrelevant [simp]:
  "rb_inv (rb\<lparr>rb_mutex := x\<rparr>) = rb_inv rb" "rb_contents (rb\<lparr>rb_mutex := x\<rparr>) = rb_contents rb"
  by (simp_all add: rb_inv_def rb_contents_def)

text \<open>The overwriting push on a full buffer replaces the oldest event.\<close>

lemma push_overwrite:
  assumes inv: "rb_inv rb" and full: "rb_occupied rb = rb_capacity rb"
    and policy: "rb_behavior rb = RB_OVERWRITE"
  shows "rb_inv (fst (ie_ring_buffer_push rb ev))" "snd (ie_ring_buffer_push rb ev) = 0"
    "rb_contents (fst (ie_ring_buffer_push rb ev)) = tl (rb_contents rb) @ [ev]"
    "rb_capacity (fst (ie_ring_buffer_push rb ev)) = rb_capacity rb"
    "rb_behavior (fst (ie_ring_buffer_push rb ev)) = rb_behavior rb"
proof -
  have len: "length (rb_elements rb) = unat (rb_occupied rb)"
    and st: "unat (rb_start rb) < length (rb_elements rb)" using inv full by (auto simp: rb_inv_def)
  then have pos: "0 < length (rb_elements rb)" by linarith
  show "rb_inv (fst (ie_ring_buffer_push rb ev))"
    using inv full policy pos rb_index(2) [OF inv]
    by (simp add: ie_ring_buffer_push_def Let_def rb_inv_def)
  show "rb_contents (fst (ie_ring_buffer_push rb ev)) = tl (rb_contents rb) @ [ev]"
  proof -
    have "unat ((rb_start rb + rb_capacity rb) mod rb_capacity rb) =
        (unat (rb_start rb) + length (rb_elements rb)) mod length (rb_elements rb)"
      using rb_index(1) [OF inv] full len by simp
    moreover have "unat (rb_capacity rb) = length (rb_elements rb)" using len full by simp
    ultimately show ?thesis
      using ring_overwrite [OF st, of ev] full policy
      by (simp add: ie_ring_buffer_push_def Let_def rb_contents_def rb_index(2) [OF inv])
  qed
qed (use full policy in \<open>simp_all add: ie_ring_buffer_push_def Let_def\<close>)

section \<open>The two policies as FIFO buffers\<close>

abbreviation rb_push :: "ie_ring_buffer \<Rightarrow> input_event \<Rightarrow> ie_ring_buffer" where
  "rb_push rb ev \<equiv> fst (ie_ring_buffer_push rb ev)"

lemma rb_fifo_laws:
  assumes "rb_inv rb"
  shows "length (rb_contents rb) \<le> unat (rb_capacity rb)"
    "length (rb_contents rb) < unat (rb_capacity rb) \<longleftrightarrow> rb_occupied rb \<noteq> rb_capacity rb"
    "rb_contents rb = [] \<longleftrightarrow> rb_occupied rb = 0"
    "rb_inv (fst (ie_ring_buffer_pop rb))"
    "rb_behavior (fst (ie_ring_buffer_pop rb)) = rb_behavior rb"
    "rb_capacity (fst (ie_ring_buffer_pop rb)) = rb_capacity rb"
    "rb_contents rb = x # xs \<Longrightarrow>
       snd (ie_ring_buffer_pop rb) = x \<and> rb_contents (fst (ie_ring_buffer_pop rb)) = xs"
    "rb_contents rb = [] \<Longrightarrow>
       snd (ie_ring_buffer_pop rb) = no_event \<and> rb_contents (fst (ie_ring_buffer_pop rb)) = []"
proof -
  show "length (rb_contents rb) \<le> unat (rb_capacity rb)"
    "length (rb_contents rb) < unat (rb_capacity rb) \<longleftrightarrow> rb_occupied rb \<noteq> rb_capacity rb"
    using assms by (auto simp: rb_contents_def rb_inv_def word_unat_eq_iff)
  show e: "rb_contents rb = [] \<longleftrightarrow> rb_occupied rb = 0"
    by (metis length_0_conv rb_contents_def ring_contents_simps(1) unat_eq_0)
  show "rb_inv (fst (ie_ring_buffer_pop rb))" "rb_behavior (fst (ie_ring_buffer_pop rb)) = rb_behavior rb"
    "rb_capacity (fst (ie_ring_buffer_pop rb)) = rb_capacity rb"
    by (cases "rb_occupied rb = 0"; simp add: pop_some [OF assms] pop_none(1) assms)+
  show "snd (ie_ring_buffer_pop rb) = x \<and> rb_contents (fst (ie_ring_buffer_pop rb)) = xs"
    if "rb_contents rb = x # xs"
  proof -
    have "rb_occupied rb \<noteq> 0" using that e by auto
    then show ?thesis using pop_some(2) [OF assms] that by simp
  qed
  show "snd (ie_ring_buffer_pop rb) = no_event \<and> rb_contents (fst (ie_ring_buffer_pop rb)) = []"
    if "rb_contents rb = []"
    using that e pop_none [of rb] by simp
qed

interpretation overwriting_ring: overwriting_fifo
  rb_push ie_ring_buffer_pop rb_contents "\<lambda>rb. rb_inv rb \<and> rb_behavior rb = RB_OVERWRITE"
  "\<lambda>rb. unat (rb_capacity rb)" no_event
proof (unfold_locales, goal_cases)
  case (1 q x)
  then show ?case
    using push_room [of q x] push_overwrite [of q x] by (cases "rb_occupied q = rb_capacity q") auto
next
  case (2 q)
  then show ?case using rb_fifo_laws(4,5) by simp
next
  case (3 q)
  then show ?case using rb_fifo_laws(1) by blast
next
  case (4 q x)
  then show ?case
    using push_room [of q x] push_overwrite [of q x] by (cases "rb_occupied q = rb_capacity q") auto
next
  case (5 q)
  then show ?case using rb_fifo_laws(6) by simp
next
  case (6 q x)
  then show ?case using rb_fifo_laws(2) push_room(3) by blast
next
  case (7 q x xs)
  then show ?case using rb_fifo_laws(7) by blast
next
  case (8 q)
  then show ?case using rb_fifo_laws(8) by blast
next
  case (9 q x)
  then show ?case using rb_full_iff [of q] push_overwrite(3) [of q x] by simp
next
  case (10 q)
  then show ?case by (auto simp: rb_inv_def)
qed

interpretation ignoring_ring: dropping_fifo
  rb_push ie_ring_buffer_pop rb_contents "\<lambda>rb. rb_inv rb \<and> rb_behavior rb = RB_IGNORE"
  "\<lambda>rb. unat (rb_capacity rb)" no_event
proof (unfold_locales, goal_cases)
  case (1 q x)
  then show ?case
    using push_room [of q x] by (cases "rb_occupied q = rb_capacity q") (auto simp: ie_ring_buffer_push_def)
next
  case (2 q)
  then show ?case using rb_fifo_laws(4,5) by simp
next
  case (3 q)
  then show ?case using rb_fifo_laws(1) by blast
next
  case (4 q x)
  then show ?case
    using push_room [of q x] by (cases "rb_occupied q = rb_capacity q") (auto simp: ie_ring_buffer_push_def)
next
  case (5 q)
  then show ?case using rb_fifo_laws(6) by simp
next
  case (6 q x)
  then show ?case using rb_fifo_laws(2) push_room(3) by blast
next
  case (7 q x xs)
  then show ?case using rb_fifo_laws(7) by blast
next
  case (8 q)
  then show ?case using rb_fifo_laws(8) by blast
next
  case (9 q x)
  then show ?case using rb_full_iff [of q] by (simp add: ie_ring_buffer_push_def)
qed

section \<open>Properties\<close>

text \<open>
  C39: a ring that overwrites keeps the most recent events: after any sequence of pushes it holds
  exactly the last ones that fit, oldest first.
\<close>

theorem ring_keeps_latest:
  assumes "rb_inv rb" and "rb_behavior rb = RB_OVERWRITE"
  shows "rb_contents (fold (\<lambda>ev rb. fst (ie_ring_buffer_push rb ev)) evs rb) =
    drop (length (rb_contents rb) + length evs - unat (rb_capacity rb)) (rb_contents rb @ evs)"
  using overwriting_ring.push_many [of rb evs] assms by simp

text \<open>
  Events pushed into a fresh ring that ignores when full come out in the order they went in,
  the first ones that fit; a further pop returns the all-zero event.
\<close>

theorem ring_fifo:
  assumes "length els < 2 ^ 31" and "els \<noteq> []"
  shows "snd (pops ie_ring_buffer_pop (min (length els) (length evs))
      (fold (\<lambda>ev rb. fst (ie_ring_buffer_push rb ev)) evs (ie_ring_buffer_init els RB_IGNORE))) =
    take (length els) evs"
proof -
  let ?q = "ie_ring_buffer_init els RB_IGNORE"
  define rb where "rb = fold (\<lambda>ev rb. fst (ie_ring_buffer_push rb ev)) evs ?q"
  have cap: "unat (rb_capacity ?q) = length els"
    using assms(1) by (simp add: ie_ring_buffer_init_def unat_of_nat)
  then have q: "rb_inv ?q \<and> rb_behavior ?q = RB_IGNORE"
    using assms(1,2) by (simp add: rb_inv_def ie_ring_buffer_init_def)
  have c0: "rb_contents ?q = []" by (simp add: rb_contents_def ie_ring_buffer_init_def)
  have c: "rb_contents rb = take (length els) evs"
    unfolding rb_def using ignoring_ring.push_many [OF q, of evs] c0 cap by simp
  have "rb_inv rb \<and> rb_behavior rb = RB_IGNORE"
    unfolding rb_def using q ignoring_ring.push_inv
    by (induction evs rule: rev_induct) auto
  then show ?thesis
    using ignoring_ring.pops_contents [of rb "min (length els) (length evs)"] c
    by (simp add: rb_def min_def)
qed

theorem ring_keeps_latest_witness:
  "rb_contents (fold (\<lambda>ev rb. fst (ie_ring_buffer_push rb ev))
      (replicate 3 no_event @ [\<lparr>ev_type = 1, ev_code = 2, ev_value = 3\<rparr>])
      (ie_ring_buffer_init [no_event, no_event] RB_OVERWRITE)) =
    [no_event, \<lparr>ev_type = 1, ev_code = 2, ev_value = 3\<rparr>]"
proof -
  let ?rb = "ie_ring_buffer_init [no_event, no_event] RB_OVERWRITE"
  have "rb_inv ?rb" "rb_behavior ?rb = RB_OVERWRITE" "rb_contents ?rb = []" "unat (rb_capacity ?rb) = 2"
    by (simp_all add: rb_inv_def ie_ring_buffer_init_def rb_contents_def)
  then show ?thesis
    using ring_keeps_latest [of ?rb "replicate 3 no_event @ [\<lparr>ev_type = 1, ev_code = 2, ev_value = 3\<rparr>]"]
    by (simp add: numeral_eq_Suc)
qed

theorem ring_fifo_witness:
  "snd (pops ie_ring_buffer_pop 2
     (fold (\<lambda>ev rb. fst (ie_ring_buffer_push rb ev))
        [\<lparr>ev_type = 1, ev_code = 2, ev_value = 3\<rparr>, no_event, no_event]
        (ie_ring_buffer_init [no_event, no_event] RB_IGNORE))) =
    [\<lparr>ev_type = 1, ev_code = 2, ev_value = 3\<rparr>, no_event]"
proof -
  let ?e = "\<lparr>ev_type = 1, ev_code = 2, ev_value = 3\<rparr>"
  have "min (length [no_event, no_event]) (length [?e, no_event, no_event]) = 2"
    "take (length [no_event, no_event]) [?e, no_event, no_event] = [?e, no_event]" by simp_all
  moreover have "length [no_event, no_event] < 2 ^ 31" "[no_event, no_event] \<noteq> []" by simp_all
  ultimately show ?thesis using ring_fifo [of "[no_event, no_event]" "[?e, no_event, no_event]"] by metis
qed

end
