(* ===== verification/Regions.thy ===== *)
theory Regions
  imports Kernel_Prelude
begin

text \<open>
  The clickable regions of the screen, \<^verbatim>\<open>src/regions.c\<close>: a list of rectangles with a value each,
  searched from the front. Positions in the list are natural numbers. A dereferenced NULL pointer
  is \<open>None\<close>.
\<close>

section \<open>Model\<close>

record region =
  x_start :: u32
  x_end :: u32
  y_start :: u32
  y_end :: u32
  r_value :: int

text \<open>The loop over the list has an empty body: the counter stays zero.\<close>

fun list_len_from :: "region list \<Rightarrow> nat \<Rightarrow> nat" where
  "list_len_from [] i = i"
| "list_len_from (rl # rls) i = list_len_from rls i"

definition regions_list_len :: "region list \<Rightarrow> nat" where
  "regions_list_len rls = list_len_from rls 0"

text \<open>The position of a node, if the node exists: following \<open>next\<close> from NULL is not possible.\<close>

definition regions_get_at_pos :: "region list \<Rightarrow> nat \<Rightarrow> nat option" where
  "regions_get_at_pos rls pos =
     (if pos \<ge> regions_list_len rls then None else if pos < length rls then Some pos else None)"

definition regions_insert_at_position :: "region list \<Rightarrow> region \<Rightarrow> nat \<Rightarrow> (region list \<times> int) option" where
  "regions_insert_at_position rls node pos =
     (if pos > regions_list_len rls then Some (rls, 1)
      else if pos = 0 then Some (node # rls, 0)
      else
        case regions_get_at_pos rls (pos - 1) of
          None \<Rightarrow> None
        | Some prev \<Rightarrow>
            (case regions_get_at_pos rls pos of
               None \<Rightarrow> Some (take (prev + 1) rls @ [node], 0)
             | Some n \<Rightarrow> Some (take (prev + 1) rls @ node # drop n rls, 0)))"

definition regions_append :: "region list \<Rightarrow> region \<Rightarrow> (region list \<times> int) option" where
  "regions_append rls node = regions_insert_at_position rls node (regions_list_len rls)"

definition regions_prepend :: "region list \<Rightarrow> region \<Rightarrow> (region list \<times> int) option" where
  "regions_prepend rls node = regions_insert_at_position rls node 0"

definition regions_new :: "u32 \<Rightarrow> u32 \<Rightarrow> u32 \<Rightarrow> u32 \<Rightarrow> int \<Rightarrow> region" where
  "regions_new xs xe ys ye v = \<lparr>x_start = xs, x_end = xe, y_start = ys, y_end = ye, r_value = v\<rparr>"

definition regions_pixel_in_range :: "region \<Rightarrow> u32 \<Rightarrow> u32 \<Rightarrow> bool" where
  "regions_pixel_in_range rl x y =
     (if x < x_start rl then False
      else if x > x_end rl then False
      else if y < y_start rl then False
      else if y > y_end rl then False
      else True)"

fun regions_value_of_point :: "region list \<Rightarrow> u32 \<Rightarrow> u32 \<Rightarrow> int" where
  "regions_value_of_point [] x y = 0"
| "regions_value_of_point (rl # rls) x y =
     (if regions_pixel_in_range rl x y then r_value rl else regions_value_of_point rls x y)"

text \<open>Regions added one after the other, through \<open>add\<close>; an error stops.\<close>

fun add_regions ::
    "(region list \<Rightarrow> region \<Rightarrow> (region list \<times> int) option) \<Rightarrow> region list \<Rightarrow> region list \<Rightarrow> region list option" where
  "add_regions add [] rls = Some rls"
| "add_regions add (r # rs) rls =
     (case add rls r of Some (rls1, c) \<Rightarrow> if c = 0 then add_regions add rs rls1 else None | None \<Rightarrow> None)"

section \<open>The latest region wins\<close>

lemma regions_list_len_0: "regions_list_len rls = 0"
proof -
  have "list_len_from rls i = i" for i by (induction rls) auto
  then show ?thesis by (simp add: regions_list_len_def)
qed

lemma regions_prepend_eq: "regions_prepend rls r = Some (r # rls, 0)"
  by (simp add: regions_prepend_def regions_insert_at_position_def regions_list_len_0)

lemma regions_append_eq: "regions_append rls r = Some (r # rls, 0)"
  by (simp add: regions_append_def regions_insert_at_position_def regions_list_len_0)

lemma value_of_point_find:
  "regions_value_of_point rls x y = (case find (\<lambda>r. regions_pixel_in_range r x y) rls of None \<Rightarrow> 0 | Some r \<Rightarrow> r_value r)"
  by (induction rls) auto

lemma add_regions_rev:
  "(\<And>rls r. add rls r = Some (r # rls, 0)) \<Longrightarrow> add_regions add rs rls = Some (rev rs @ rls)"
  by (induction rs arbitrary: rls) auto

lemma pixel_in_range_iff:
  "regions_pixel_in_range r x y \<longleftrightarrow> x_start r \<le> x \<and> x \<le> x_end r \<and> y_start r \<le> y \<and> y \<le> y_end r"
  by (auto simp: regions_pixel_in_range_def not_less)

text \<open>
  However regions are added, by \<open>regions_prepend\<close> or by \<open>regions_append\<close>, the value of a point is
  that of the latest region that contains it, borders included, and 0 if there is none: the length
  of a list is always reported as 0, so appending puts a region in front as well.
\<close>

theorem regions_latest_wins:
  assumes "add = regions_prepend \<or> add = regions_append"
  shows "\<exists>rls. add_regions add rs [] = Some rls \<and>
    regions_value_of_point rls x y =
      (case find (\<lambda>r. x_start r \<le> x \<and> x \<le> x_end r \<and> y_start r \<le> y \<and> y \<le> y_end r) (rev rs) of
         None \<Rightarrow> 0 | Some r \<Rightarrow> r_value r)"
proof -
  have "add_regions add rs [] = Some (rev rs)"
    using assms add_regions_rev [of add rs "[]"] by (auto simp: regions_prepend_eq regions_append_eq)
  then show ?thesis by (simp add: value_of_point_find pixel_in_range_iff)
qed

theorem regions_latest_wins_witness:
  "\<exists>rls. add_regions regions_append [regions_new 0 50 0 50 1, regions_new 40 60 40 60 2] [] = Some rls \<and>
     regions_value_of_point rls 45 45 = 2"
  using regions_latest_wins [of regions_append "[regions_new 0 50 0 50 1, regions_new 40 60 40 60 2]" 45 45]
  by (auto simp: regions_new_def)

end
