(* ===== verification/Strings.thy ===== *)
theory Strings
  imports Mem_Utils
begin

text \<open>
  The string routines of \<^verbatim>\<open>src/utils.c\<close>, on byte memory. A recursion or loop that never meets
  a terminator does not return: the routines are partial functions into \<open>option\<close>, and the
  theorems show that on NUL-terminated strings they return what they should. Memory handed out
  for copies by the kernel heap is modelled by the copied bytes themselves.
\<close>

section \<open>Model\<close>

abbreviation (input) SPACE :: u8 where "SPACE \<equiv> 0x20"

partial_function (option) msstrlen :: "mem \<Rightarrow> u64 \<Rightarrow> int option" where
  "msstrlen m a =
     (if m a = 0 \<or> m a = SPACE then Some 0
      else Option.bind (msstrlen m (a + 1)) (\<lambda>n. Some (1 + n)))"

partial_function (option) mstrlen :: "mem \<Rightarrow> u64 \<Rightarrow> int option" where
  "mstrlen m a =
     (if m a = 0 then Some 0
      else Option.bind (mstrlen m (a + 1)) (\<lambda>n. Some (1 + n)))"

partial_function (option) mstrcpy :: "mem \<Rightarrow> u64 \<Rightarrow> u64 \<Rightarrow> mem option" where
  "mstrcpy m dest src =
     (if dest = NULL \<or> src = NULL then Some m
      else
        let c = m src; m1 = m(dest := c) in
        if m1 src = 0 then Some m1 else mstrcpy m1 (dest + 1) (src + 1))"

partial_function (option) msstrcpy :: "mem \<Rightarrow> u64 \<Rightarrow> u64 \<Rightarrow> mem option" where
  "msstrcpy m dest src =
     (if dest = NULL \<or> src = NULL then Some m
      else if m src = 0 \<or> m src = SPACE then Some (m(dest := 0))
      else msstrcpy (m(dest := m src)) (dest + 1) (src + 1))"

text \<open>\<open>char\<close> is unsigned on this machine.\<close>

partial_function (option) mstrcmp :: "mem \<Rightarrow> u64 \<Rightarrow> u64 \<Rightarrow> int option" where
  "mstrcmp m a b =
     (if m a = m b \<and> m a = 0 then Some 0
      else if uint (m a) - uint (m b) \<noteq> 0 then Some (uint (m a) - uint (m b))
      else mstrcmp m (a + 1) (b + 1))"

partial_function (option) msstrcmp :: "mem \<Rightarrow> u64 \<Rightarrow> u64 \<Rightarrow> int option" where
  "msstrcmp m a b =
     (if (m a = 0 \<or> m a = SPACE) \<and> (m b = 0 \<or> m b = SPACE) then Some 0
      else if uint (m a) - uint (m b) \<noteq> 0 then Some (uint (m a) - uint (m b))
      else msstrcmp m (a + 1) (b + 1))"

definition samestr :: "mem \<Rightarrow> u64 \<Rightarrow> u64 \<Rightarrow> bool option" where
  "samestr m a b = map_option (\<lambda>r. r = 0) (mstrcmp m a b)"

definition samecmd :: "mem \<Rightarrow> u64 \<Rightarrow> u64 \<Rightarrow> bool option" where
  "samecmd m cmd ref = map_option (\<lambda>r. r = 0) (msstrcmp m cmd ref)"

text \<open>The two loops of \<open>mstrtac\<close>: the shift to the right, from the terminator down, and the copy.\<close>

fun tac_shift :: "mem \<Rightarrow> u64 \<Rightarrow> nat \<Rightarrow> nat \<Rightarrow> mem" where
  "tac_shift m b lena 0 = m(b + of_nat lena := m b)"
| "tac_shift m b lena (Suc i) =
     tac_shift (m(b + of_nat (Suc i + lena) := m (b + of_nat (Suc i)))) b lena i"

definition tac_copy :: "mem \<Rightarrow> u64 \<Rightarrow> u64 \<Rightarrow> nat \<Rightarrow> mem" where
  "tac_copy m a b lena = fold (\<lambda>i m. m(b + of_nat i := m (a + of_nat i))) [0..<lena] m"

definition mstrtac :: "mem \<Rightarrow> u64 \<Rightarrow> u64 \<Rightarrow> mem option" where
  "mstrtac m a b =
     (if a = NULL \<or> b = NULL then Some m
      else
        case mstrlen m a of None \<Rightarrow> None
        | Some lena \<Rightarrow>
            (case mstrlen m b of None \<Rightarrow> None
             | Some lenb \<Rightarrow>
                 Some (tac_copy (tac_shift m b (nat lena) (nat lenb)) a b (nat lena))))"

text \<open>The state machine shared by \<open>countargs\<close> and \<open>make_argv\<close>.\<close>

datatype arg_state = STATE_IN_WORD | STATE_IN_SPACE

partial_function (option) countargs_from :: "mem \<Rightarrow> u64 \<Rightarrow> arg_state \<Rightarrow> int \<Rightarrow> int option" where
  "countargs_from m p state nargs =
     (if m p = 0 then Some nargs
      else case state of
        STATE_IN_SPACE \<Rightarrow>
          (if m p = SPACE then countargs_from m (p + 1) STATE_IN_SPACE nargs
           else countargs_from m (p + 1) STATE_IN_WORD (nargs + 1))
      | STATE_IN_WORD \<Rightarrow>
          (if m p = SPACE then countargs_from m (p + 1) STATE_IN_SPACE nargs
           else countargs_from m (p + 1) STATE_IN_WORD nargs))"

definition countargs :: "mem \<Rightarrow> u64 \<Rightarrow> int option" where
  "countargs m cmd = countargs_from m cmd STATE_IN_SPACE 0"

text \<open>What \<open>msstrcpy\<close> puts into a fresh buffer: the bytes up to a space or the terminator.\<close>

partial_function (option) word_at :: "mem \<Rightarrow> u64 \<Rightarrow> u8 list option" where
  "word_at m p =
     (if m p = 0 \<or> m p = SPACE then Some []
      else Option.bind (word_at m (p + 1)) (\<lambda>w. Some (m p # w)))"

partial_function (option) make_argv_from ::
    "mem \<Rightarrow> u64 \<Rightarrow> arg_state \<Rightarrow> u8 list list \<Rightarrow> u8 list list option" where
  "make_argv_from m p state argv =
     (if m p = 0 then Some argv
      else case state of
        STATE_IN_SPACE \<Rightarrow>
          (if m p = SPACE then make_argv_from m (p + 1) STATE_IN_SPACE argv
           else Option.bind (word_at m p) (\<lambda>w. make_argv_from m (p + 1) STATE_IN_WORD (argv @ [w])))
      | STATE_IN_WORD \<Rightarrow>
          (if m p = SPACE then make_argv_from m (p + 1) STATE_IN_SPACE argv
           else make_argv_from m (p + 1) STATE_IN_WORD argv))"

definition make_argv :: "mem \<Rightarrow> u64 \<Rightarrow> u8 list list option" where
  "make_argv m cmd = make_argv_from m cmd STATE_IN_SPACE []"

subsection \<open>Numbers\<close>

definition is_digit :: "u8 \<Rightarrow> bool" where
  "is_digit c \<longleftrightarrow> c \<ge> 0x30 \<and> c \<le> 0x39"

definition is_xdigit :: "u8 \<Rightarrow> bool" where
  "is_xdigit c \<longleftrightarrow> is_digit c \<or> c \<ge> 0x61 \<and> c \<le> 0x66 \<or> c \<ge> 0x41 \<and> c \<le> 0x46"

definition xdigit_value :: "u8 \<Rightarrow> u64" where
  "xdigit_value c =
     (if c \<ge> 0x30 \<and> c \<le> 0x39 then ucast c - 0x30
      else if c \<ge> 0x61 \<and> c \<le> 0x66 then ucast c - 0x61 + 10
      else ucast c - 0x41 + 10)"

text \<open>The \<open>while\<close> loop that measures the digits.\<close>

partial_function (option) span_from :: "(u8 \<Rightarrow> bool) \<Rightarrow> mem \<Rightarrow> u64 \<Rightarrow> int option" where
  "span_from P m p =
     (if P (m p) then Option.bind (span_from P m (p + 1)) (\<lambda>n. Some (1 + n)) else Some 0)"

text \<open>The \<open>for\<close> loop from the last digit to the first, in 64-bit arithmetic.\<close>

fun matox_loop :: "mem \<Rightarrow> u64 \<Rightarrow> nat \<Rightarrow> u64 \<Rightarrow> u64 \<Rightarrow> u64" where
  "matox_loop m a 0 result pow = result"
| "matox_loop m a (Suc i) result pow =
     matox_loop m a i (result + pow * xdigit_value (m (a + of_nat i))) (pow * 16)"

definition matox :: "mem \<Rightarrow> u64 \<Rightarrow> u64 option" where
  "matox m a0 =
     (let a = (if m a0 = 0x30 \<and> (m (a0 + 1) = 0x78 \<or> m (a0 + 1) = 0x58) then a0 + 2 else a0) in
      case span_from is_xdigit m a of None \<Rightarrow> None
      | Some len \<Rightarrow>
          (case mstrlen m a of None \<Rightarrow> None
           | Some n \<Rightarrow> if len \<noteq> n then Some 0 else Some (matox_loop m a (nat len) 0 1)))"

text \<open>The decimal loop works on \<open>int\<close>; its additions are modelled as wrapping at 32 bits.\<close>

fun matoi_loop :: "mem \<Rightarrow> u64 \<Rightarrow> nat \<Rightarrow> u32 \<Rightarrow> u32 \<Rightarrow> u32" where
  "matoi_loop m a 0 result pow = result"
| "matoi_loop m a (Suc i) result pow =
     matoi_loop m a i (result + pow * (ucast (m (a + of_nat i)) - 0x30)) (pow * 10)"

definition matoi :: "mem \<Rightarrow> u64 \<Rightarrow> int option" where
  "matoi m a0 =
     (let negate = (m a0 = 0x2d); a = (if negate then a0 + 1 else a0) in
      case span_from is_digit m a of None \<Rightarrow> None
      | Some len \<Rightarrow>
          (case mstrlen m a of None \<Rightarrow> None
           | Some n \<Rightarrow>
               if len \<noteq> n then Some 0
               else let r = matoi_loop m a (nat len) 0 1 in Some (sint (if negate then - r else r))))"

function isqrt_loop :: "u32 \<Rightarrow> u32 \<Rightarrow> u32" where
  "isqrt_loop a i = (if i < a then (if i * i > a then i else isqrt_loop a (i + 1)) else i)"
  by pat_completeness auto
termination
proof (relation "measure (\<lambda>(a, i). unat a - unat i)", goal_cases)
  case (2 a i)
  then have "unat i < unat a" by (simp add: word_less_nat_alt)
  moreover have "unat a < 2 ^ 32" using unsigned_less [of a] by simp
  ultimately have "unat (i + 1) = unat i + 1" by (simp add: unat_word_ariths)
  then show ?case using \<open>unat i < unat a\<close> by simp
qed simp

declare isqrt_loop.simps [simp del]

definition isqrt :: "u32 \<Rightarrow> u32" where
  "isqrt a = isqrt_loop a 1 - 1"

section \<open>NUL-terminated strings in memory\<close>

fun cstr :: "mem \<Rightarrow> u64 \<Rightarrow> u8 list \<Rightarrow> bool" where
  "cstr m a [] \<longleftrightarrow> m a = 0"
| "cstr m a (c # s) \<longleftrightarrow> m a = c \<and> c \<noteq> 0 \<and> cstr m (a + 1) s"

lemma cstr_nth: "cstr m a s \<Longrightarrow> i < length s \<Longrightarrow> m (a + of_nat i) = s ! i"
proof (induction s arbitrary: a i)
  case (Cons c s)
  show ?case
  proof (cases i)
    case (Suc j)
    then show ?thesis using Cons.IH [of "a + 1" j] Cons.prems by (simp add: add.assoc)
  qed (use Cons.prems in simp)
qed simp

lemma cstr_end: "cstr m a s \<Longrightarrow> m (a + of_nat (length s)) = 0"
proof (induction s arbitrary: a)
  case (Cons c s)
  then have "m (a + 1 + of_nat (length s)) = 0" by simp
  then show ?case by (simp add: add.assoc)
qed simp

lemma cstrI:
  "(\<And>i. i < length s \<Longrightarrow> m (a + of_nat i) = s ! i \<and> s ! i \<noteq> 0) \<Longrightarrow> m (a + of_nat (length s)) = 0 \<Longrightarrow>
   cstr m a s"
proof (induction s arbitrary: a)
  case (Cons c s)
  have "cstr m (a + 1) s"
  proof (rule Cons.IH)
    fix i
    assume "i < length s"
    then show "m (a + 1 + of_nat i) = s ! i \<and> s ! i \<noteq> 0" using Cons.prems(1) [of "Suc i"] by (simp add: add.assoc)
  next
    show "m (a + 1 + of_nat (length s)) = 0" using Cons.prems(2) by (simp add: add.assoc)
  qed
  then show ?case using Cons.prems(1) [of 0] by simp
qed simp

lemma cstr_nonzero: "cstr m a s \<Longrightarrow> c \<in> set s \<Longrightarrow> c \<noteq> 0"
  by (induction s arbitrary: a) auto

section \<open>Lengths and comparisons\<close>

lemma mstrlen_cstr: "cstr m a s \<Longrightarrow> mstrlen m a = Some (int (length s))"
  by (induction s arbitrary: a) (simp_all add: mstrlen.simps)

lemma msstrlen_cstr: "cstr m a s \<Longrightarrow> msstrlen m a = Some (int (length (takeWhile (\<lambda>c. c \<noteq> SPACE) s)))"
  by (induction s arbitrary: a) (simp_all add: msstrlen.simps)

lemma char_diff: "uint x - uint y = 0 \<longleftrightarrow> x = (y :: u8)"
  by (simp add: word_uint_eq_iff)

lemma mstrcmp_step:
  "mstrcmp m a b =
     (if m a \<noteq> m b then Some (uint (m a) - uint (m b))
      else if m a = 0 then Some 0 else mstrcmp m (a + 1) (b + 1))"
  by (subst mstrcmp.simps, unfold char_diff) auto

lemma msstrcmp_step:
  "msstrcmp m a b =
     (if (m a = 0 \<or> m a = SPACE) \<and> (m b = 0 \<or> m b = SPACE) then Some 0
      else if m a \<noteq> m b then Some (uint (m a) - uint (m b)) else msstrcmp m (a + 1) (b + 1))"
  by (subst msstrcmp.simps, unfold char_diff) auto

lemma mstrcmp_cstr:
  "cstr m a s \<Longrightarrow> cstr m b t \<Longrightarrow> \<exists>r. mstrcmp m a b = Some r \<and> (r = 0 \<longleftrightarrow> s = t)"
proof (induction s arbitrary: a b t)
  case Nil
  then show ?case using char_diff [of "m a" "m b"] by (cases t) (auto simp: mstrcmp_step [of m a b])
next
  case (Cons c s)
  then show ?case using char_diff [of "m a" "m b"] by (cases t) (auto simp: mstrcmp_step [of m a b])
qed

lemma msstrcmp_cstr:
  "cstr m a s \<Longrightarrow> cstr m b t \<Longrightarrow> \<exists>r. msstrcmp m a b = Some r \<and>
     (r = 0 \<longleftrightarrow> takeWhile (\<lambda>c. c \<noteq> SPACE) s = takeWhile (\<lambda>c. c \<noteq> SPACE) t)"
proof (induction s arbitrary: a b t)
  case Nil
  then show ?case using char_diff [of "m a" "m b"] by (cases t) (auto simp: msstrcmp_step [of m a b])
next
  case (Cons c s)
  then show ?case using char_diff [of "m a" "m b"] by (cases t) (auto simp: msstrcmp_step [of m a b])
qed

section \<open>Copies\<close>

lemma cstr_cong:
  assumes "\<And>i. i \<le> length s \<Longrightarrow> m (a + of_nat i) = m' (a + of_nat i)"
  shows "cstr m a s = cstr m' a s"
  using assms
proof (induction s arbitrary: a)
  case (Cons c s)
  have "cstr m (a + 1) s = cstr m' (a + 1) s"
    using Cons.prems [of "Suc i" for i] by (intro Cons.IH) (simp add: add.assoc)
  then show ?case using Cons.prems [of 0] by simp
qed auto

lemma apart_neq:
  assumes "apart a k b l" and "i < k" and "j < l" and "k \<le> 2 ^ 63" and "l \<le> 2 ^ 63"
  shows "a + of_nat i \<noteq> b + of_nat j"
proof
  assume eq: "a + of_nat i = b + of_nat j"
  have "unat (a + of_nat i - a) < k" using assms by (simp add: unat_of_nat_64)
  moreover have "unat (a + of_nat i - b) < l" using assms by (simp add: eq unat_of_nat_64)
  ultimately show False using assms(1) unfolding apart_def by blast
qed

lemma offset_not_null:
  assumes "a \<noteq> NULL" and "unat a + Suc n < 2 ^ 64"
  shows "a + 1 \<noteq> NULL" "unat (a + 1) + n < 2 ^ 64"
proof -
  have "unat (a + of_nat 1) = unat a + 1" using assms(2) by (intro unat_add_of_nat) simp
  then have u: "unat (a + 1) = unat a + 1" by simp
  then show "unat (a + 1) + n < 2 ^ 64" using assms(2) by simp
  show "a + 1 \<noteq> NULL" using u by (metis Suc_eq_plus1 nat.distinct(1) unat_0)
qed

lemma mstrcpy_cstr:
  "cstr m src s \<Longrightarrow> dest \<noteq> NULL \<Longrightarrow> src \<noteq> NULL \<Longrightarrow> unat dest + length s < 2 ^ 64 \<Longrightarrow>
   unat src + length s < 2 ^ 64 \<Longrightarrow> length s < 2 ^ 62 \<Longrightarrow> apart dest (length s + 1) src (length s + 1) \<Longrightarrow>
   \<exists>m'. mstrcpy m dest src = Some m' \<and> cstr m' dest s \<and>
     (\<forall>x. \<not> unat (x - dest) < length s + 1 \<longrightarrow> m' x = m x)"
proof (induction s arbitrary: m dest src)
  case Nil
  then have "mstrcpy m dest src = Some (m(dest := 0))" by (simp add: mstrcpy.simps [of m dest src])
  then show ?case by (auto simp: unat_eq_0)
next
  case (Cons c s)
  let ?m = "m(dest := c)"
  have l: "unat dest + Suc (length s) < 2 ^ 64" "unat src + Suc (length s) < 2 ^ 64" "length s < 2 ^ 62"
    using Cons.prems(4-6) by auto
  note n = offset_not_null [OF Cons.prems(2) l(1)] offset_not_null [OF Cons.prems(3) l(2)]
  have ds: "dest \<noteq> src + of_nat j" if "j < length s + 2" for j
    using apart_neq [OF Cons.prems(7), of 0 j] that Cons.prems(6) by simp
  have step: "mstrcpy m dest src = mstrcpy ?m (dest + 1) (src + 1)"
    using Cons.prems(1,2,3) ds [of 0] by (simp add: mstrcpy.simps [of m dest src])
  have "cstr ?m (src + 1) s = cstr m (src + 1) s"
  proof (rule cstr_cong)
    fix i
    assume "i \<le> length s"
    then show "?m (src + 1 + of_nat i) = m (src + 1 + of_nat i)"
      using ds [of "Suc i"] by (auto simp: add.assoc)
  qed
  then have c1: "cstr ?m (src + 1) s" using Cons.prems(1) by simp
  have ap: "apart (dest + 1) (length s + 1) (src + 1) (length s + 1)"
    using apart_shift [of dest 1 "length s + 1" src] Cons.prems(6,7) by simp
  from Cons.IH [OF c1 n(1,3) n(2,4) l(3) ap] obtain m' where
    m': "mstrcpy ?m (dest + 1) (src + 1) = Some m'" "cstr m' (dest + 1) s"
    "\<And>x. \<not> unat (x - (dest + 1)) < length s + 1 \<Longrightarrow> m' x = ?m x" by blast
  have off: "unat (x - (dest + 1)) = (if 1 \<le> unat (x - dest) then unat (x - dest) - 1 else unat (x - dest) + 2 ^ 64 - 1)" for x
    using unat_diff_of_nat [of 1 "x - dest"] by (simp add: diff_diff_eq)
  have "m' dest = c" using m'(3) [of dest] off [of dest] Cons.prems(6) by simp
  then have "cstr m' dest (c # s)" using m'(2) Cons.prems(1) by simp
  moreover have "m' x = m x" if "\<not> unat (x - dest) < length s + 2" for x
    using m'(3) [of x] off [of x] that by auto
  ultimately show ?case using step m'(1) by auto
qed

section \<open>Prepending\<close>

text \<open>Both loops of \<open>mstrtac\<close> in closed form.\<close>

lemma tac_shift_eq:
  "k + lena < 2 ^ 63 \<Longrightarrow> x = b + of_nat j \<Longrightarrow> j < 2 ^ 63 \<Longrightarrow>
   tac_shift m b lena k x = (if lena \<le> j \<and> j \<le> k + lena then m (b + of_nat (j - lena)) else m x)"
proof (induction k arbitrary: m)
  case 0
  have "x = b + of_nat lena \<longleftrightarrow> j = lena"
    using 0 of_nat_inj_64 [of j lena] by auto
  then show ?case using 0 by auto
next
  case (Suc k)
  have inj: "b + of_nat i = b + of_nat (Suc k + lena) \<longleftrightarrow> i = Suc k + lena" if "i < 2 ^ 63" for i
    using of_nat_inj_64 [of i "Suc k + lena"] that Suc.prems by simp
  let ?m = "m(b + of_nat (Suc k + lena) := m (b + of_nat (Suc k)))"
  have "tac_shift m b lena (Suc k) x = tac_shift ?m b lena k x" by simp
  also have "\<dots> = (if lena \<le> j \<and> j \<le> k + lena then ?m (b + of_nat (j - lena)) else ?m x)"
    using Suc.prems by (intro Suc.IH) auto
  also have "\<dots> = (if lena \<le> j \<and> j \<le> Suc k + lena then m (b + of_nat (j - lena)) else m x)"
  proof (cases "lena = 0")
    case True
    then show ?thesis using Suc.prems inj [of j] by auto
  next
    case False
    have "j - lena \<noteq> Suc k + lena" if "j \<le> k + lena" using that by linarith
    moreover have "?m x = m (b + of_nat (j - lena))" if "j = Suc k + lena" using that Suc.prems(2) by simp
    moreover have "j - lena < 2 ^ 63" using Suc.prems(3) by (rule le_less_trans [OF diff_le_self])
    ultimately show ?thesis using inj [of "j - lena"] inj [of j] Suc.prems(2,3) by auto
  qed
  finally show ?case .
qed

lemma tac_shift_far:
  "k + lena < 2 ^ 63 \<Longrightarrow> \<not> unat (x - b) < 2 ^ 63 \<Longrightarrow> tac_shift m b lena k x = m x"
proof (induction k arbitrary: m)
  case 0
  then show ?case by (auto simp: unat_of_nat_64)
next
  case (Suc k)
  have "x \<noteq> b + of_nat (Suc k + lena)"
  proof
    assume "x = b + of_nat (Suc k + lena)"
    then have "unat (x - b) = Suc k + lena" using Suc.prems(1) by (simp add: unat_of_nat_64 del: of_nat_add of_nat_Suc)
    then show False using Suc.prems by simp
  qed
  then show ?case using Suc by simp
qed

lemma tac_copy_eq:
  assumes n: "n < 2 ^ 63" and ap: "apart a n b n"
  shows "k \<le> n \<Longrightarrow> tac_copy m a b k x = (if unat (x - b) < k then m (a + (x - b)) else m x)"
proof (induction k arbitrary: x)
  case (Suc k)
  have ua: "unat (a + of_nat k - a) < n" using Suc.prems n by (simp add: unat_of_nat_64)
  then have "\<not> unat (a + of_nat k - b) < n" using ap unfolding apart_def by blast
  then have src: "tac_copy m a b k (a + of_nat k) = m (a + of_nat k)" using Suc by simp
  have "tac_copy m a b (Suc k) = (tac_copy m a b k)(b + of_nat k := tac_copy m a b k (a + of_nat k))"
    by (simp add: tac_copy_def)
  moreover have "x = b + of_nat k \<longleftrightarrow> unat (x - b) = k"
    using Suc.prems n by (auto simp: unat_of_nat_64)
  ultimately show ?case using Suc src by (auto simp: less_Suc_eq)
qed (simp add: tac_copy_def)

lemma mstrtac_cstr:
  assumes a: "cstr m a s" "a \<noteq> NULL" and b: "cstr m b t" "b \<noteq> NULL"
    and len: "length s + length t + 1 < 2 ^ 62"
    and ap: "apart a (length s + length t + 1) b (length s + length t + 1)"
  shows "\<exists>m'. mstrtac m a b = Some m' \<and> cstr m' b (s @ t) \<and>
    (\<forall>x. \<not> unat (x - b) < length s + length t + 1 \<longrightarrow> m' x = m x)"
proof -
  let ?n = "length s + length t + 1"
  define m1 where "m1 = tac_shift m b (length s) (length t)"
  define m' where "m' = tac_copy m1 a b (length s)"
  have res: "mstrtac m a b = Some m'"
    using a b by (simp add: mstrtac_def mstrlen_cstr m1_def m'_def)
  have sh: "m1 (b + of_nat j) = (if length s \<le> j \<and> j \<le> length t + length s then m (b + of_nat (j - length s))
      else m (b + of_nat j))" if "j < 2 ^ 63" for j
    unfolding m1_def by (rule tac_shift_eq) (use len that in auto)
  have out: "m1 x = m x" if "\<not> unat (x - b) < ?n" for x
  proof -
    have "x = b + of_nat (unat (x - b))" by simp
    show ?thesis
    proof (cases "unat (x - b) < 2 ^ 63")
      case True
      then show ?thesis using sh [OF True] that by simp
    next
      case False
      show ?thesis
        unfolding m1_def using False len that
        by (intro tac_shift_far) auto
    qed
  qed
  have cp: "m' x = (if unat (x - b) < length s then m1 (a + (x - b)) else m1 x)" for x
    unfolding m'_def using tac_copy_eq [OF _ ap, of "length s" m1 x] len by simp
  have am: "m1 (a + of_nat i) = m (a + of_nat i)" if "i < length s" for i
  proof -
    have "unat (a + of_nat i - a) < ?n" using that len by (simp add: unat_of_nat_64)
    then show ?thesis using ap unfolding apart_def by (intro out) blast
  qed
  have "cstr m' b (s @ t)"
  proof (rule cstrI)
    fix i
    assume i: "i < length (s @ t)"
    then have u: "unat (b + of_nat i - b) = i" using len by (simp add: unat_of_nat_64)
    show "m' (b + of_nat i) = (s @ t) ! i \<and> (s @ t) ! i \<noteq> 0"
    proof (cases "i < length s")
      case True
      then show ?thesis
        using cp [of "b + of_nat i"] u am [OF True] cstr_nth [OF a(1) True] cstr_nonzero [OF a(1), of "s ! i"]
        by (simp add: nth_append)
    next
      case False
      then have "m' (b + of_nat i) = m (b + of_nat (i - length s))"
        using cp [of "b + of_nat i"] u sh [of i] i len by simp
      then show ?thesis
        using False i cstr_nth [OF b(1), of "i - length s"] cstr_nonzero [OF b(1), of "t ! (i - length s)"]
        by (simp add: nth_append)
    qed
  next
    let ?e = "b + of_nat (length (s @ t))"
    have "unat (?e - b) = length s + length t" using len by (simp add: unat_of_nat_64 del: of_nat_add)
    then show "m' ?e = 0"
      using cp [of ?e] sh [of "length (s @ t)"] cstr_end [OF b(1)] len by simp
  qed
  moreover have "m' x = m x" if "\<not> unat (x - b) < ?n" for x
    using cp [of x] out [OF that] that by simp
  ultimately show ?thesis using res by blast
qed

section \<open>Arguments\<close>

text \<open>The words of a command line: split at every space, drop the empty pieces.\<close>

fun split_spaces :: "u8 list \<Rightarrow> u8 list list" where
  "split_spaces [] = [[]]"
| "split_spaces (c # s) =
     (if c = SPACE then [] # split_spaces s
      else (case split_spaces s of w # ws \<Rightarrow> (c # w) # ws | [] \<Rightarrow> [[c]]))"

definition words :: "u8 list \<Rightarrow> u8 list list" where
  "words s = filter (\<lambda>w. w \<noteq> []) (split_spaces s)"

lemma split_spaces_hd: "\<exists>ws. split_spaces s = takeWhile (\<lambda>c. c \<noteq> SPACE) s # ws"
  by (induction s) auto

lemma word_at_cstr: "cstr m a s \<Longrightarrow> word_at m a = Some (takeWhile (\<lambda>c. c \<noteq> SPACE) s)"
  by (induction s arbitrary: a) (simp_all add: word_at.simps)

lemma make_argv_from_cstr:
  "cstr m a s \<Longrightarrow>
   make_argv_from m a STATE_IN_SPACE argv = Some (argv @ words s) \<and>
   make_argv_from m a STATE_IN_WORD argv = Some (argv @ filter (\<lambda>w. w \<noteq> []) (tl (split_spaces s)))"
proof (induction s arbitrary: a argv)
  case Nil
  then show ?case by (simp add: make_argv_from.simps [of m a] words_def)
next
  case (Cons c s)
  obtain ws where ws: "split_spaces s = takeWhile (\<lambda>c. c \<noteq> SPACE) s # ws"
    using split_spaces_hd by blast
  have w: "word_at m a = Some (takeWhile (\<lambda>c. c \<noteq> SPACE) (c # s))" using word_at_cstr [OF Cons.prems] .
  have c1: "m a = c" "c \<noteq> 0" "cstr m (a + 1) s" using Cons.prems by auto
  show ?case
    using Cons.IH [OF c1(3)] c1(1,2) w ws
    by (cases "c = SPACE") (simp_all add: make_argv_from.simps [of m a] words_def)
qed

lemma countargs_from_cstr:
  "cstr m a s \<Longrightarrow>
   countargs_from m a STATE_IN_SPACE n = Some (n + int (length (words s))) \<and>
   countargs_from m a STATE_IN_WORD n = Some (n + int (length (filter (\<lambda>w. w \<noteq> []) (tl (split_spaces s)))))"
proof (induction s arbitrary: a n)
  case Nil
  then show ?case by (simp add: countargs_from.simps [of m a] words_def)
next
  case (Cons c s)
  obtain ws where ws: "split_spaces s = takeWhile (\<lambda>c. c \<noteq> SPACE) s # ws"
    using split_spaces_hd by blast
  have c1: "m a = c" "c \<noteq> 0" "cstr m (a + 1) s" using Cons.prems by auto
  show ?case
    using Cons.IH [OF c1(3)] c1(1,2) ws
    by (cases "c = SPACE") (simp_all add: countargs_from.simps [of m a] words_def)
qed

section \<open>Numbers\<close>

lemma span_from_cstr:
  "cstr m a s \<Longrightarrow> \<not> P 0 \<Longrightarrow> span_from P m a = Some (int (length (takeWhile P s)))"
  by (induction s arbitrary: a) (simp_all add: span_from.simps)

lemma takeWhile_all_iff: "length (takeWhile P s) = length s \<longleftrightarrow> list_all P s"
  by (induction s) auto

definition hex_value :: "u8 list \<Rightarrow> u64" where
  "hex_value s = foldl (\<lambda>v c. 16 * v + xdigit_value c) 0 s"

lemma matox_loop_eq:
  "cstr m a s \<Longrightarrow> n \<le> length s \<Longrightarrow> matox_loop m a n r p = r + p * hex_value (take n s)"
proof (induction n arbitrary: r p)
  case (Suc n)
  then have "take (Suc n) s = take n s @ [s ! n]" by (simp add: take_Suc_conv_app_nth)
  then have "hex_value (take (Suc n) s) = 16 * hex_value (take n s) + xdigit_value (s ! n)"
    by (simp add: hex_value_def)
  moreover have "m (a + of_nat n) = s ! n" using cstr_nth [OF Suc.prems(1)] Suc.prems(2) by simp
  ultimately show ?case using Suc by (simp add: algebra_simps)
qed (simp add: hex_value_def)

text \<open>The digits of a hexadecimal numeral, without its prefix.\<close>

definition strip_0x :: "u8 list \<Rightarrow> u8 list" where
  "strip_0x s = (case s of c # d # r \<Rightarrow> if c = 0x30 \<and> (d = 0x78 \<or> d = 0x58) then r else s | _ \<Rightarrow> s)"

lemma matox_cstr:
  assumes "cstr m a s"
  shows "matox m a = Some (if list_all is_xdigit (strip_0x s) then hex_value (strip_0x s) else 0)"
proof -
  define a' where "a' = (if m a = 0x30 \<and> (m (a + 1) = 0x78 \<or> m (a + 1) = 0x58) then a + 2 else a)"
  have c: "cstr m a' (strip_0x s)"
  proof (cases s)
    case (Cons c s1)
    then show ?thesis
      using assms by (cases s1) (auto simp: a'_def strip_0x_def add.assoc)
  qed (use assms in \<open>simp add: a'_def strip_0x_def\<close>)
  have "\<not> is_xdigit 0" by (simp add: is_xdigit_def is_digit_def)
  note sp = span_from_cstr [OF c, of is_xdigit, OF this]
  show ?thesis
    using sp mstrlen_cstr [OF c] takeWhile_all_iff [of is_xdigit "strip_0x s"]
      matox_loop_eq [OF c, of "length (strip_0x s)" 0 1]
    unfolding matox_def a'_def [symmetric] Let_def by auto
qed

definition dec_value :: "u8 list \<Rightarrow> nat" where
  "dec_value s = foldl (\<lambda>v c. 10 * v + (unat c - 48)) 0 s"

lemma matoi_loop_eq:
  "cstr m a s \<Longrightarrow> list_all is_digit s \<Longrightarrow> n \<le> length s \<Longrightarrow>
   matoi_loop m a n r p = r + p * of_nat (dec_value (take n s))"
proof (induction n arbitrary: r p)
  case (Suc n)
  then have "take (Suc n) s = take n s @ [s ! n]" by (simp add: take_Suc_conv_app_nth)
  then have "dec_value (take (Suc n) s) = 10 * dec_value (take n s) + (unat (s ! n) - 48)"
    by (simp add: dec_value_def)
  moreover have "m (a + of_nat n) = s ! n" using cstr_nth [OF Suc.prems(1)] Suc.prems(3) by simp
  moreover have "48 \<le> unat (s ! n)"
    using Suc.prems(2,3) by (auto simp: list_all_length is_digit_def word_le_nat_alt)
  then have "ucast (s ! n) - 48 = (of_nat (unat (s ! n) - 48) :: u32)" by (simp add: of_nat_diff)
  ultimately have "matoi_loop m a (Suc n) r p =
      matoi_loop m a n (r + p * of_nat (unat (s ! n) - 48)) (p * 10)"
    "dec_value (take (Suc n) s) = 10 * dec_value (take n s) + (unat (s ! n) - 48)" by simp_all
  then show ?case using Suc by (simp add: algebra_simps)
qed (simp add: dec_value_def)

lemma sint_of_nat_32:
  assumes "k < 2 ^ 31"
  shows "sint (of_nat k :: u32) = int k" "sint (- of_nat k :: u32) = - int k"
proof -
  have e: "(of_nat k :: u32) = word_of_int (int k)" "(- of_nat k :: u32) = word_of_int (- int k)" by simp_all
  show "sint (of_nat k :: u32) = int k"
    unfolding e(1) signed_of_int using assms by (simp add: signed_take_bit_int_eq_self)
  show "sint (- of_nat k :: u32) = - int k"
    unfolding e(2) signed_of_int using assms by (simp add: signed_take_bit_int_eq_self)
qed

lemma matoi_cstr:
  assumes c: "cstr m a (sg @ s)" and sg: "sg = [] \<and> (s = [] \<or> hd s \<noteq> 0x2d) \<or> sg = [0x2d]"
    and d: "list_all is_digit s" and v: "dec_value s < 2 ^ 31"
  shows "matoi m a = Some (if sg = [] then int (dec_value s) else - int (dec_value s))"
proof -
  define neg where "neg = (m a = 0x2d)"
  define a' where "a' = (if neg then a + 1 else a)"
  have neg: "neg \<longleftrightarrow> sg \<noteq> []" and c': "cstr m a' s"
    using c sg by (cases s; auto simp: neg_def a'_def)+
  have "\<not> is_digit 0" by (simp add: is_digit_def)
  note sp = span_from_cstr [OF c', of is_digit, OF this]
  have "length (takeWhile is_digit s) = length s" using d by (simp only: takeWhile_all_iff)
  then have "matoi m a = Some (sint (if neg then - of_nat (dec_value s) else of_nat (dec_value s) :: u32))"
    using sp mstrlen_cstr [OF c'] matoi_loop_eq [OF c' d, of "length s" 0 1]
    unfolding matoi_def Let_def neg_def [symmetric] a'_def [symmetric] by simp
  then show ?thesis using sint_of_nat_32 [OF v] neg by simp
qed

text \<open>The square root: the loop stops at the first number whose square is too large.\<close>

lemma isqrt_loop_eq:
  "unat a < 65535 * 65535 \<Longrightarrow> 1 \<le> unat i \<Longrightarrow> unat i \<le> 65535 \<Longrightarrow> (unat i - 1) * (unat i - 1) \<le> unat a \<Longrightarrow>
    unat i \<le> unat a \<Longrightarrow> 2 \<le> unat a \<Longrightarrow>
    \<exists>r. isqrt_loop a i = r \<and> 1 \<le> unat r \<and> (unat r - 1) * (unat r - 1) \<le> unat a \<and> unat a < unat r * unat r"
proof (induction a i rule: isqrt_loop.induct)
  case (1 a i)
  have sq: "unat (i * i) = unat i * unat i"
  proof -
    have "unat i * unat i \<le> 65535 * 65535" using "1.prems"(3) by (rule mult_le_mono) fact
    then show ?thesis by (simp add: unat_word_ariths)
  qed
  show ?case
  proof (cases "i < a")
    case False
    then have "unat i = unat a" using "1.prems"(5) by (simp add: word_less_nat_alt)
    moreover have "unat a < unat a * unat a" using "1.prems"(6) by simp
    ultimately show ?thesis
      using False "1.prems" by (intro exI [of _ i]) (simp add: isqrt_loop.simps [of a i])
  next
    case lt: True
    show ?thesis
    proof (cases "i * i > a")
      case True
      then show ?thesis
        using lt sq "1.prems" by (intro exI [of _ i]) (simp add: isqrt_loop.simps [of a i] word_less_nat_alt)
    next
      case False
      then have le: "unat i * unat i \<le> unat a" using sq by (simp add: word_less_nat_alt)
      have "unat i \<noteq> 65535" using le "1.prems"(1) by auto
      then have i0: "unat i \<le> 65534" using "1.prems"(3) by simp
      then have i1: "unat (i + 1) = unat i + 1" using "1.prems"(3) by (simp add: unat_word_ariths)
      have "unat i < unat a" using lt by (simp add: word_less_nat_alt)
      then show ?thesis
        using "1.IH" [OF lt False] i0 i1 le "1.prems" lt False by (simp add: isqrt_loop.simps [of a i])
    qed
  qed
qed

section \<open>Properties\<close>

text \<open>
  Splitting a command line returns exactly its words, in order, however many spaces separate
  them, and \<open>countargs\<close> is their number.
\<close>

theorem make_argv_words:
  assumes "cstr m cmd s"
  shows "make_argv m cmd = Some (words s) \<and> countargs m cmd = Some (int (length (words s)))"
  using make_argv_from_cstr [OF assms, of "[]"] countargs_from_cstr [OF assms, of 0]
  by (simp add: make_argv_def countargs_def)

text \<open>
  Copying a string to a destination that does not overlap it returns, leaves the string at the
  destination, terminator included, and changes no byte outside those it needs.
\<close>

theorem mstrcpy_correct:
  assumes "cstr m src s" and "dest \<noteq> NULL" and "src \<noteq> NULL" and "unat dest + length s < 2 ^ 64"
    and "unat src + length s < 2 ^ 64" and "length s < 2 ^ 62"
    and "apart dest (length s + 1) src (length s + 1)"
  shows "\<exists>m'. mstrcpy m dest src = Some m' \<and> cstr m' dest s \<and>
    (\<forall>x. \<not> unat (x - dest) < length s + 1 \<longrightarrow> m' x = m x)"
  using mstrcpy_cstr [OF assms] .

text \<open>
  A hexadecimal numeral, with or without its prefix, is read as its value modulo \<open>2 ^ 64\<close>, and
  every string with another character in it is read as 0.
\<close>

theorem matox_value:
  assumes "cstr m a s"
  shows "matox m a = Some (if list_all is_xdigit (strip_0x s) then hex_value (strip_0x s) else 0)"
  using matox_cstr [OF assms] .

text \<open>
  The integer square root of a number from 2 up to the square of 65535 is exact (below 2 the
  loop does not run, and the answer is 0 also for 1).
\<close>

theorem isqrt_correct:
  assumes "2 \<le> unat a" and "unat a < 65535 * 65535"
  shows "unat (isqrt a) * unat (isqrt a) \<le> unat a \<and>
    unat a < (unat (isqrt a) + 1) * (unat (isqrt a) + 1) \<and> isqrt 1 = 0"
proof -
  obtain r where r: "isqrt_loop a 1 = r" "1 \<le> unat r" "(unat r - 1) * (unat r - 1) \<le> unat a"
    "unat a < unat r * unat r"
    using isqrt_loop_eq [of a 1] assms by auto
  have "unat (isqrt a) = unat r - 1"
    using r(1,2) by (simp add: isqrt_def unat_sub word_le_nat_alt)
  moreover have "isqrt 1 = 0" by (simp add: isqrt_def isqrt_loop.simps)
  ultimately show ?thesis using r by simp
qed

section \<open>Witnesses\<close>

text \<open>The string \<open>ls  -l\<close> at address 100.\<close>

definition demo_cmd :: mem where
  "demo_cmd = (\<lambda>_. 0)(100 := 0x6c, 101 := 0x73, 102 := 0x20, 103 := 0x20, 104 := 0x2d, 105 := 0x6c)"

lemma demo_cmd_cstr: "cstr demo_cmd 100 [0x6c, 0x73, 0x20, 0x20, 0x2d, 0x6c]"
  by (simp add: demo_cmd_def)

theorem make_argv_words_witness:
  "make_argv demo_cmd 100 = Some [[0x6c, 0x73], [0x2d, 0x6c]] \<and> countargs demo_cmd 100 = Some 2"
  using make_argv_words [OF demo_cmd_cstr] by (simp add: words_def)

theorem mstrcpy_correct_witness:
  "\<exists>m'. mstrcpy demo_cmd 200 100 = Some m' \<and> cstr m' 200 [0x6c, 0x73, 0x20, 0x20, 0x2d, 0x6c]"
proof -
  have "apart 200 7 100 7"
  proof -
    have False if "unat (x - 200) < 7" "unat (x - 100) < 7" for x :: u64
    proof -
      have "x = 100 + of_nat (unat (x - 100))" by simp
      then have "unat x = 100 + unat (x - 100)" using that(2) unat_add_of_nat [of 100 "unat (x - 100)"] by simp
      then have "unat (x - 200) = unat x + 2 ^ 64 - 200"
        using that(2) unat_diff_of_nat [of 200 x] by simp
      then show False using that(1) by simp
    qed
    then show ?thesis by (auto simp: apart_def)
  qed
  moreover have "length [0x6c, 0x73, 0x20, 0x20, 0x2d, 0x6c :: u8] + 1 = 7" by simp
  moreover have "length [0x6c, 0x73, 0x20, 0x20, 0x2d, 0x6c :: u8] < 2 ^ 62"
    "unat (200 :: u64) + length [0x6c, 0x73, 0x20, 0x20, 0x2d, 0x6c :: u8] < 2 ^ 64"
    "unat (100 :: u64) + length [0x6c, 0x73, 0x20, 0x20, 0x2d, 0x6c :: u8] < 2 ^ 64"
    "(200 :: u64) \<noteq> NULL" "(100 :: u64) \<noteq> NULL" by simp_all
  ultimately show ?thesis using mstrcpy_correct [OF demo_cmd_cstr, of 200] by metis
qed

theorem matox_value_witness: "matox ((\<lambda>_. 0)(8 := 0x30, 9 := 0x78, 10 := 0x46, 11 := 0x61)) 8 = Some 0xfa"
proof -
  let ?m = "(\<lambda>_. 0)(8 := 0x30, 9 := 0x78, 10 := 0x46, 11 := 0x61) :: mem"
  have "cstr ?m 8 [0x30, 0x78, 0x46, 0x61]" by simp
  from matox_value [OF this] show ?thesis
    by (simp add: strip_0x_def is_xdigit_def is_digit_def hex_value_def xdigit_value_def)
qed

theorem isqrt_correct_witness: "unat (isqrt 10) * unat (isqrt 10) \<le> 10 \<and> 10 < (unat (isqrt 10) + 1) * (unat (isqrt 10) + 1)"
  using isqrt_correct [of 10] by simp

end
