(* ===== verification/Gpu.thy ===== *)
theory Gpu
  imports Strings Minix3
begin

text \<open>
  Drawing into the frame buffer, from \<^verbatim>\<open>src/gpu.c\<close>: offsets of pixels, rectangles, circles and
  pictures. The pixels are a function of the offset, so that a write past the end of the buffer is
  visible. A loop that does not end is \<open>None\<close>. The requests to the device are not modelled.
\<close>

unbundle bit_operations_syntax

section \<open>Data\<close>

record gpu_rectangle =
  rect_x :: u32
  rect_y :: u32
  rect_width :: u32
  rect_height :: u32

record gpu_circle =
  circle_x :: u32
  circle_y :: u32
  circle_radius :: u32

record pixel =
  px_r :: u8
  px_g :: u8
  px_b :: u8
  px_a :: u8

record gpu_frame_buffer =
  fb_width :: u32
  fb_height :: u32
  fb_pixels :: "nat \<Rightarrow> pixel"

section \<open>Offsets\<close>

definition gpu_get_fb_row :: "gpu_frame_buffer \<Rightarrow> u64 \<Rightarrow> u32" where
  "gpu_get_fb_row fb offset = ucast (offset div ucast (fb_width fb))"

definition gpu_get_fb_column :: "gpu_frame_buffer \<Rightarrow> u64 \<Rightarrow> u32" where
  "gpu_get_fb_column fb offset = ucast (offset mod ucast (fb_width fb))"

definition gpu_get_fb_offset :: "gpu_frame_buffer \<Rightarrow> u32 \<Rightarrow> u32 \<Rightarrow> u64" where
  "gpu_get_fb_offset fb row column =
     (if row \<ge> fb_height fb then 0xffffffff
      else if column \<ge> fb_width fb then 0xffffffff
      else ucast (row * fb_width fb + column))"

definition gpu_x_pixel_to_percent :: "gpu_frame_buffer \<Rightarrow> u32 \<Rightarrow> u32" where
  "gpu_x_pixel_to_percent fb x_pixel = x_pixel * 100 div fb_width fb"

definition gpu_y_pixel_to_percent :: "gpu_frame_buffer \<Rightarrow> u32 \<Rightarrow> u32" where
  "gpu_y_pixel_to_percent fb y_pixel = y_pixel * 100 div fb_height fb"

definition gpu_percent_to_x_pixel :: "gpu_frame_buffer \<Rightarrow> u32 \<Rightarrow> u32" where
  "gpu_percent_to_x_pixel fb percent = percent * fb_width fb div 100"

definition gpu_percent_to_y_pixel :: "gpu_frame_buffer \<Rightarrow> u32 \<Rightarrow> u32" where
  "gpu_percent_to_y_pixel fb percent = percent * fb_height fb div 100"

text \<open>The rectangle around a circle, cut off at the borders of the screen.\<close>

definition gpu_circle_to_rectangle :: "gpu_frame_buffer \<Rightarrow> gpu_circle \<Rightarrow> gpu_rectangle" where
  "gpu_circle_to_rectangle fb src =
     (let (w, x) = (if circle_x src < circle_radius src then (circle_x src, 0)
                    else (circle_radius src, circle_x src - circle_radius src));
          (h, y) = (if circle_y src < circle_radius src then (circle_y src, 0)
                    else (circle_radius src, circle_y src - circle_radius src));
          h1 = (if circle_y src + circle_radius src > fb_height fb then fb_height fb - y else h + circle_radius src);
          w1 = (if circle_x src + circle_radius src > fb_width fb then fb_width fb - x else w + circle_radius src)
      in \<lparr>rect_x = x, rect_y = y, rect_width = w1, rect_height = h1\<rparr>)"

section \<open>Filling\<close>

text \<open>The loop \<^verbatim>\<open>for(i = lo; i <= hi; i++)\<close> on 32-bit counters.\<close>

partial_function (option) for_upto :: "(u32 \<Rightarrow> 's \<Rightarrow> 's option) \<Rightarrow> u32 \<Rightarrow> u32 \<Rightarrow> 's \<Rightarrow> 's option" where
  "for_upto body i hi s = (if i \<le> hi then do { s1 \<leftarrow> body i s; for_upto body (i + 1) hi s1 } else Some s)"

definition gpu_fill_rectangle :: "gpu_frame_buffer \<Rightarrow> gpu_rectangle \<Rightarrow> pixel \<Rightarrow> gpu_frame_buffer option" where
  "gpu_fill_rectangle fb r color =
     (let r_left = rect_x r; r_right = rect_x r + rect_width r;
          r_top = rect_y r; r_bot = rect_y r + rect_height r
      in do { px \<leftarrow> for_upto (\<lambda>row px.
                for_upto (\<lambda>col px. let fb_offset = fb_width fb * row + col in Some (px(unat fb_offset := color)))
                  r_left r_right px) r_top r_bot (fb_pixels fb);
              Some (fb\<lparr>fb_pixels := px\<rparr>) })"

definition gpu_fill_circle :: "gpu_frame_buffer \<Rightarrow> gpu_circle \<Rightarrow> pixel \<Rightarrow> gpu_frame_buffer option" where
  "gpu_fill_circle fb c color =
     (let c_left = circle_x c - circle_radius c; c_right = circle_x c + circle_radius c;
          c_top = circle_y c - circle_radius c; c_bot = circle_y c + circle_radius c
      in do { px \<leftarrow> for_upto (\<lambda>row px.
                for_upto (\<lambda>col px.
                    let x_off = col - circle_x c; y_off = row - circle_y c;
                        x_off2 = x_off * x_off; y_off2 = y_off * y_off;
                        diag = isqrt (x_off2 + y_off2)
                    in if diag < circle_radius c
                       then let fb_offset = fb_width fb * row + col in Some (px(unat fb_offset := color))
                       else Some px)
                  c_left c_right px) c_top c_bot (fb_pixels fb);
              Some (fb\<lparr>fb_pixels := px\<rparr>) })"

text \<open>The size is an \<open>int\<close> for \<open>memset\<close>; only whole pixels are written.\<close>

definition gpu_fill_white :: "gpu_frame_buffer \<Rightarrow> gpu_frame_buffer" where
  "gpu_fill_white fb =
     (let n = nat (sint (fb_width fb * fb_height fb * 4)) div 4
      in fb\<lparr>fb_pixels := (\<lambda>p. if p < n then \<lparr>px_r = 0xff, px_g = 0xff, px_b = 0xff, px_a = 0xff\<rparr> else fb_pixels fb p)\<rparr>)"

section \<open>Pictures\<close>

text \<open>
  \<open>gpu_fill_with_bmp\<close> takes the first device that starts with the magic number. A device is its
  block size and its contents. The picture is read in buffers of ten blocks: the number of the
  current buffer, its bytes, and the byte at a position of the file, with the next buffer read at a
  boundary.
\<close>

definition bmp_fetch :: "(nat \<Rightarrow> u8) \<Rightarrow> nat \<Rightarrow> nat \<Rightarrow> nat \<times> u8 list \<Rightarrow> (nat \<times> u8 list) \<times> u8" where
  "bmp_fetch dev bsz block_index st =
     (let (which_block, buffer) = st;
          st1 = (if block_index mod bsz = 0 then (which_block + 1, disk_read dev ((which_block + 1) * bsz) bsz)
                 else (which_block, buffer))
      in (st1, snd st1 ! (block_index mod bsz)))"

fun bmp_from ::
    "gpu_frame_buffer \<Rightarrow> (nat \<Rightarrow> u8) \<Rightarrow> nat \<Rightarrow> nat \<Rightarrow> nat \<Rightarrow> nat list \<Rightarrow> nat \<times> u8 list \<Rightarrow> (nat \<Rightarrow> pixel) \<Rightarrow> nat \<Rightarrow> pixel" where
  "bmp_from fb dev bsz bmp_width max_pixel [] st px = px"
| "bmp_from fb dev bsz bmp_width max_pixel (which_pixel # ks) st px =
     (let block_index = 54 + which_pixel * 3;
          (st1, b) = bmp_fetch dev bsz block_index st;
          (st2, g) = bmp_fetch dev bsz (block_index + 1) st1;
          (st3, r) = bmp_fetch dev bsz (block_index + 2) st2;
          pixel_row = of_nat ((max_pixel - which_pixel - 1) div bmp_width);
          pixel_col = of_nat (which_pixel mod bmp_width);
          gpu_fb_offset = gpu_get_fb_offset fb pixel_row pixel_col
      in bmp_from fb dev bsz bmp_width max_pixel ks st3
           (if gpu_fb_offset = 0xffffffff then px
            else px(unat gpu_fb_offset := \<lparr>px_r = r, px_g = g, px_b = b, px_a = 0xff\<rparr>)))"

text \<open>Width, height and their product are 32-bit \<open>int\<close> values, widened with their sign.\<close>

definition gpu_fill_with_bmp :: "gpu_frame_buffer \<Rightarrow> (nat \<times> (nat \<Rightarrow> u8)) list \<Rightarrow> gpu_frame_buffer \<times> int" where
  "gpu_fill_with_bmp fb block_devices =
     (case find (\<lambda>(bsz, dev). rd16 dev 0 = 0x4d42) block_devices of
        None \<Rightarrow> (fb, 1)
      | Some (bsz, dev) \<Rightarrow>
          (let bmp_width = rd32 dev 18;
               bmp_height = rd32 dev 22;
               max_pixel = unat (scast (bmp_width * bmp_height) :: u64);
               bsz10 = bsz * 10
           in (fb\<lparr>fb_pixels := bmp_from fb dev bsz10 (unat (scast bmp_width :: u64)) max_pixel [0..<max_pixel]
                    (0, disk_read dev 0 bsz10) (fb_pixels fb)\<rparr>, 0)))"

text \<open>
  \<open>gpu_fill_with_block_device\<close>: the first hundred blocks of device 0, whose contents are \<open>dev\<close>, copied byte
  by byte over the pixels.
\<close>

definition pixel_byte :: "nat \<Rightarrow> u8 \<Rightarrow> pixel \<Rightarrow> pixel" where
  "pixel_byte k b p =
     (if k = 0 then p\<lparr>px_r := b\<rparr> else if k = 1 then p\<lparr>px_g := b\<rparr> else if k = 2 then p\<lparr>px_b := b\<rparr> else p\<lparr>px_a := b\<rparr>)"

definition gpu_fill_with_block_device :: "gpu_frame_buffer \<Rightarrow> (nat \<Rightarrow> u8) \<Rightarrow> gpu_frame_buffer" where
  "gpu_fill_with_block_device fb dev =
     (let buffer = disk_read dev 0 (512 * 100)
      in fb\<lparr>fb_pixels := fold (\<lambda>i px. px(i div 4 := pixel_byte (i mod 4) (buffer ! i) (px (i div 4)))) [0..<512 * 100] (fb_pixels fb)\<rparr>)"

lemma fold_pixel_bytes:
  "fold (\<lambda>i px. px(i div 4 := pixel_byte (i mod 4) (b i) (px (i div 4)))) [0..<4 * n] px =
   (\<lambda>k. if k < n then \<lparr>px_r = b (4 * k), px_g = b (4 * k + 1), px_b = b (4 * k + 2), px_a = b (4 * k + 3)\<rparr> else px k)"
proof (induction n)
  case (Suc n)
  have u: "[0..<4 * Suc n] = [0..<4 * n] @ [4 * n, 4 * n + 1, 4 * n + 2, 4 * n + 3]"
    by (simp add: numeral_eq_Suc)
  have "(4 * n + k) div 4 = n \<and> (4 * n + k) mod 4 = k" if "k < 4" for k using that by simp
  from this [of 0] this [of 1] this [of 2] this [of 3]
  have "(4 * n) div 4 = n" "(4 * n + 1) div 4 = n" "(4 * n + 2) div 4 = n" "(4 * n + 3) div 4 = n"
    "(4 * n) mod 4 = 0" "(4 * n + 1) mod 4 = 1" "(4 * n + 2) mod 4 = 2" "(4 * n + 3) mod 4 = 3" by simp_all
  note m = this
  have four: "fold (\<lambda>i px. px(i div 4 := pixel_byte (i mod 4) (b i) (px (i div 4)))) [4 * n, 4 * n + 1, 4 * n + 2, 4 * n + 3] q =
      q(n := \<lparr>px_r = b (4 * n), px_g = b (4 * n + 1), px_b = b (4 * n + 2), px_a = b (4 * n + 3)\<rparr>)" for q
    by (cases "q n", simp only: fold_simps m fun_upd_same fun_upd_upd) (simp add: pixel_byte_def)
  show ?case
    unfolding u fold_append comp_def Suc.IH four by (rule ext) (simp add: less_Suc_eq)
qed simp

lemma gpu_fill_with_block_device_pixels:
  "fb_pixels (gpu_fill_with_block_device fb dev) k =
    (if k < 12800 then \<lparr>px_r = dev (4 * k), px_g = dev (4 * k + 1), px_b = dev (4 * k + 2), px_a = dev (4 * k + 3)\<rparr>
     else fb_pixels fb k)"
proof -
  have n: "512 * 100 = 4 * (12800 :: nat)" by simp
  have b: "disk_read dev 0 (4 * 12800) ! i = dev i" if "i < 4 * 12800" for i
    using that by (simp only: disk_read_def nth_map_upt add_0)
  show ?thesis
    unfolding gpu_fill_with_block_device_def Let_def n fold_pixel_bytes
    using b [of "4 * k"] b [of "4 * k + 1"] b [of "4 * k + 2"] b [of "4 * k + 3"] by simp
qed

section \<open>What is painted\<close>

lemma for_upto_fold:
  assumes "unat hi + 1 < 2 ^ 32" and "\<And>i s. body i s = Some (f i s)"
  shows "unat lo \<le> unat hi + 1 \<Longrightarrow>
    for_upto body lo hi s = Some (fold (\<lambda>k. f (of_nat k)) [unat lo..<unat hi + 1] s)"
proof (induction "unat hi + 1 - unat lo" arbitrary: lo s)
  case 0
  then have "\<not> lo \<le> hi" by (simp add: word_le_nat_alt)
  then show ?case using 0 by (subst for_upto.simps) simp
next
  case (Suc n)
  then have le: "unat lo \<le> unat hi" by linarith
  then have s: "unat (lo + 1) = unat lo + 1" using assms(1) by (simp add: unat_word_ariths)
  have "for_upto body lo hi s = for_upto body (lo + 1) hi (f lo s)"
    using le assms(2) by (subst for_upto.simps) (simp add: word_le_nat_alt)
  also have "\<dots> = Some (fold (\<lambda>k. f (of_nat k)) [unat lo + 1..<unat hi + 1] (f lo s))"
    using Suc.hyps(1) [of "lo + 1"] Suc.hyps(2) le s by simp
  finally show ?case using le by (simp add: upt_conv_Cons del: upt_Suc)
qed

text \<open>A double loop of single-pixel writes.\<close>

lemma fold_paint:
  "fold (\<lambda>k px. if P k then px(g k := c) else px) ks px q = (if \<exists>k \<in> set ks. P k \<and> g k = q then c else px q)"
  by (induction ks arbitrary: px) auto

lemma fold_paint2:
  "fold (\<lambda>j px. fold (\<lambda>k px. if P j k then px(g j k := c) else px) ks px) js px q =
   (if \<exists>j \<in> set js. \<exists>k \<in> set ks. P j k \<and> g j k = q then c else px q)"
  by (induction js arbitrary: px) (auto simp: fold_paint)

lemma for_upto_paint:
  fixes low right high left :: u32
  assumes "unat low + 1 < 2 ^ 32" and "unat right + 1 < 2 ^ 32" and "unat high \<le> unat low" and "unat left \<le> unat right"
  shows "\<exists>px'. for_upto (\<lambda>row px. for_upto (\<lambda>col px. if P row col then Some (px(g row col := c)) else Some px) left right px) high low px = Some px' \<and>
    (\<forall>q. px' q = (if \<exists>row \<in> {unat high..unat low}. \<exists>col \<in> {unat left..unat right}. P (of_nat row) (of_nat col) \<and> g (of_nat row) (of_nat col) = q
                  then c else px q))"
proof -
  let ?in = "\<lambda>row px. fold (\<lambda>k px. if P row (of_nat k) then px(g row (of_nat k) := c) else px) [unat left..<unat right + 1] px"
  have 1: "for_upto (\<lambda>col px. if P row col then Some (px(g row col := c)) else Some px) left right px = Some (?in row px)" for row px
    using for_upto_fold [OF assms(2), of "\<lambda>col px. if P row col then Some (px(g row col := c)) else Some px"
        "\<lambda>col px. if P row col then px(g row col := c) else px" left px] assms(4) by (auto simp: if_distrib)
  have "for_upto (\<lambda>row px. for_upto (\<lambda>col px. if P row col then Some (px(g row col := c)) else Some px) left right px) high low px =
      Some (fold (\<lambda>j. ?in (of_nat j)) [unat high..<unat low + 1] px)"
    by (rule for_upto_fold [OF assms(1)]) (use 1 assms(3) in auto)
  moreover have "set [unat high..<unat low + 1] = {unat high..unat low}" "set [unat left..<unat right + 1] = {unat left..unat right}" by auto
  ultimately show ?thesis by (simp add: fold_paint2 del: upt_Suc)
qed

lemma unat_plus_32: "unat a + unat b < 2 ^ 32 \<Longrightarrow> unat (a + b :: u32) = unat a + unat b"
  by (simp add: unat_word_ariths)

lemma unat_offset:
  assumes "w * row + col < 2 ^ 32"
  shows "unat (of_nat w * of_nat row + of_nat col :: u32) = w * row + col"
proof -
  have "(of_nat w * of_nat row + of_nat col :: u32) = of_nat (w * row + col)" by simp
  then show ?thesis using assms by (simp only: unat_of_nat) simp
qed

lemma gpu_fill_rectangle_paints:
  assumes w: "w = unat (fb_width fb)"
    and x: "x = unat (rect_x r)" "right = x + unat (rect_width r)" "right + 1 < 2 ^ 32"
    and y: "y = unat (rect_y r)" "low = y + unat (rect_height r)" "low + 1 < 2 ^ 32"
    and off: "w * low + right < 2 ^ 32"
  shows "\<exists>fb'. gpu_fill_rectangle fb r color = Some fb' \<and> fb_width fb' = fb_width fb \<and> fb_height fb' = fb_height fb \<and>
    (\<forall>q. fb_pixels fb' q =
      (if \<exists>row col. y \<le> row \<and> row \<le> low \<and> x \<le> col \<and> col \<le> right \<and> q = w * row + col then color else fb_pixels fb q))"
proof -
  have R: "unat (rect_x r + rect_width r) = right" and B: "unat (rect_y r + rect_height r) = low"
    using x y by (simp_all add: unat_plus_32)
  have e: "unat (fb_width fb * of_nat row + of_nat col :: u32) = w * row + col" if "row \<le> low" "col \<le> right" for row col
  proof -
    have "w * row + col \<le> w * low + right" using that by (intro add_mono mult_left_mono) auto
    then show ?thesis using unat_offset [of w row col] off w by simp
  qed
  obtain px where px: "for_upto (\<lambda>row px. for_upto (\<lambda>col px. if True then Some (px(unat (fb_width fb * row + col) := color)) else Some px)
        (rect_x r) (rect_x r + rect_width r) px) (rect_y r) (rect_y r + rect_height r) (fb_pixels fb) = Some px"
    and q: "\<forall>q. px q = (if \<exists>row \<in> {y..low}. \<exists>col \<in> {x..right}. True \<and>
        unat (fb_width fb * of_nat row + of_nat col :: u32) = q then color else fb_pixels fb q)"
    using for_upto_paint [of "rect_y r + rect_height r" "rect_x r + rect_width r" "rect_y r" "rect_x r" "\<lambda>_ _. True"
        "\<lambda>row col. unat (fb_width fb * row + col)" color "fb_pixels fb"] x y R B by auto
  have "gpu_fill_rectangle fb r color = Some (fb\<lparr>fb_pixels := px\<rparr>)"
    using px by (simp add: gpu_fill_rectangle_def Let_def)
  moreover have "px q = (if \<exists>row col. y \<le> row \<and> row \<le> low \<and> x \<le> col \<and> col \<le> right \<and> q = w * row + col
      then color else fb_pixels fb q)" for q
    using q e by (auto simp: Bex_def)
  ultimately show ?thesis by (intro exI [of _ "fb\<lparr>fb_pixels := px\<rparr>"]) simp
qed

lemma offset_on_screen:
  assumes "row < (h :: nat)" "col < w"
  shows "w * row + col < w * h"
proof -
  have "w * row + col < w * (row + 1)" using assms by simp
  also have "\<dots> \<le> w * h" using assms by (intro mult_left_mono) auto
  finally show ?thesis .
qed

text \<open>
  Filling a rectangle that lies below the last row and column a 32-bit counter can reach returns,
  and paints exactly the pixels from its corner to the corner at width and height away, both
  included: one row and one column more than its width and height say. If that far corner is on the
  screen, nothing beyond the frame buffer is written.
\<close>

theorem gpu_fill_rectangle_correct:
  assumes w: "w = unat (fb_width fb)"
    and x: "x = unat (rect_x r)" "right = x + unat (rect_width r)" "right + 1 < 2 ^ 32"
    and y: "y = unat (rect_y r)" "low = y + unat (rect_height r)" "low + 1 < 2 ^ 32"
    and off: "w * low + right < 2 ^ 32"
  shows "\<exists>fb'. gpu_fill_rectangle fb r color = Some fb' \<and> fb_width fb' = fb_width fb \<and> fb_height fb' = fb_height fb \<and>
    (\<forall>q. fb_pixels fb' q =
      (if \<exists>row col. y \<le> row \<and> row \<le> low \<and> x \<le> col \<and> col \<le> right \<and> q = w * row + col then color else fb_pixels fb q)) \<and>
    (right < w \<and> low < unat (fb_height fb) \<longrightarrow>
      (\<forall>q. w * unat (fb_height fb) \<le> q \<longrightarrow> fb_pixels fb' q = fb_pixels fb q))"
proof -
  obtain fb' where fb': "gpu_fill_rectangle fb r color = Some fb'" "fb_width fb' = fb_width fb" "fb_height fb' = fb_height fb"
    and q: "\<forall>q. fb_pixels fb' q = (if \<exists>row col. y \<le> row \<and> row \<le> low \<and> x \<le> col \<and> col \<le> right \<and> q = w * row + col
      then color else fb_pixels fb q)"
    using gpu_fill_rectangle_paints [OF assms] by auto
  have "fb_pixels fb' q = fb_pixels fb q" if "right < w" "low < unat (fb_height fb)" "w * unat (fb_height fb) \<le> q" for q
  proof -
    have "w * row + col \<noteq> q" if "row \<le> low" "col \<le> right" for row col
      using offset_on_screen [of row "unat (fb_height fb)" col w] that \<open>right < w\<close> \<open>low < _\<close> \<open>_ \<le> q\<close> by linarith
    then show ?thesis using q by metis
  qed
  then show ?thesis using fb' q by auto
qed

lemma isqrt_less_iff:
  assumes "unat a < 65535 * 65535" and "2 \<le> unat r"
  shows "isqrt a < r \<longleftrightarrow> unat a < unat r * unat r"
proof (cases "2 \<le> unat a")
  case True
  let ?i = "unat (isqrt a)"
  have i: "?i * ?i \<le> unat a" "unat a < (?i + 1) * (?i + 1)" using isqrt_correct [OF True assms(1)] by auto
  show ?thesis
  proof (cases "?i < unat r")
    case True
    then have "(?i + 1) * (?i + 1) \<le> unat r * unat r" by (intro mult_le_mono) auto
    then show ?thesis using i True by (simp add: word_less_nat_alt)
  next
    case False
    then have "unat r * unat r \<le> ?i * ?i" by (intro mult_le_mono) auto
    then show ?thesis using i False by (simp add: word_less_nat_alt)
  qed
next
  case False
  then have "unat a = 0 \<or> unat a = 1" by linarith
  then have "a = 0 \<or> a = 1" by (auto simp: word_unat_eq_iff)
  moreover have "isqrt 0 = 0" "isqrt 1 = 0"
    by (simp_all add: isqrt_def isqrt_loop.simps [of 0 1] isqrt_loop.simps [of 1 1])
  ultimately have "isqrt a = 0" by blast
  moreover have "2 * 2 \<le> unat r * unat r" using assms(2) by (intro mult_le_mono) auto
  ultimately show ?thesis using False assms(2) by (simp add: word_less_nat_alt)
qed

text \<open>The square of a difference of coordinates, on machine words.\<close>

lemma uint_diff_square:
  "uint ((a - b) * (a - b) :: u32) = ((uint a - uint b) * (uint a - uint b)) mod 2 ^ 32"
  by (simp add: uint_word_ariths mod_mult_eq)

lemma unat_dist2:
  assumes "(int col - int x) * (int col - int x) + (int row - int y) * (int row - int y) < 2 ^ 32"
    and "col < 2 ^ 32" "x < 2 ^ 32" "row < 2 ^ 32" "y < 2 ^ 32"
  shows "int (unat ((of_nat col - of_nat x) * (of_nat col - of_nat x) + (of_nat row - of_nat y) * (of_nat row - of_nat y) :: u32)) =
    (int col - int x) * (int col - int x) + (int row - int y) * (int row - int y)"
proof -
  have "(of_nat col - of_nat x) * (of_nat col - of_nat x) + (of_nat row - of_nat y) * (of_nat row - of_nat y) =
      (word_of_int ((int col - int x) * (int col - int x) + (int row - int y) * (int row - int y)) :: u32)"
    by simp
  moreover have "0 \<le> (int col - int x) * (int col - int x) + (int row - int y) * (int row - int y)" by simp
  ultimately show ?thesis using assms(1)
    by (simp only: unat_eq_nat_uint uint_word_of_int) simp
qed

lemma near_coords:
  fixes a b r :: int
  assumes "a\<^sup>2 + b\<^sup>2 < r\<^sup>2" and "0 \<le> r"
  shows "\<bar>a\<bar> < r" "\<bar>b\<bar> < r"
proof -
  have "a\<^sup>2 < r\<^sup>2" "b\<^sup>2 < r\<^sup>2" using assms(1) zero_le_power2 [of a] zero_le_power2 [of b] by linarith+
  then show "\<bar>a\<bar> < r" "\<bar>b\<bar> < r" using assms(2) abs_square_less_1 by (metis abs_of_nonneg power2_less_imp_less power2_abs)+
qed

lemma same_row_col:
  fixes w :: nat
  assumes "w * a + b = w * c + d" and "b < w" and "d < w"
  shows "a = c \<and> b = d"
proof -
  have "(w * a + b) div w = a" "(w * c + d) div w = c" using assms(2,3) by simp_all
  then show ?thesis using assms(1) by auto
qed

text \<open>
  Filling a circle of radius at least 2 whose bounding square is on the screen returns, and paints
  exactly the pixels whose distance from the centre is less than the radius.
\<close>

theorem gpu_fill_circle_correct:
  assumes w: "w = unat (fb_width fb)"
    and c: "x = unat (circle_x c)" "y = unat (circle_y c)" "rad = unat (circle_radius c)"
    and rad: "2 \<le> rad" "rad \<le> x" "rad \<le> y" "rad < 46340"
    and bounds: "x + rad < w" "y + rad < unat (fb_height fb)" "w * unat (fb_height fb) < 2 ^ 32"
  shows "\<exists>fb'. gpu_fill_circle fb c color = Some fb' \<and> fb_width fb' = fb_width fb \<and> fb_height fb' = fb_height fb \<and>
    (\<forall>row col. col < w \<longrightarrow> fb_pixels fb' (w * row + col) =
      (if (int col - int x)\<^sup>2 + (int row - int y)\<^sup>2 < (int rad)\<^sup>2 then color else fb_pixels fb (w * row + col)))"
proof -
  let ?P = "\<lambda>row col. isqrt ((col - circle_x c) * (col - circle_x c) + (row - circle_y c) * (row - circle_y c)) < circle_radius c"
  have wl: "w < 2 ^ 32" "unat (fb_height fb) < 2 ^ 32"
    using w unsigned_less [of "fb_width fb"] unsigned_less [of "fb_height fb"] by simp_all
  have R: "unat (circle_x c + circle_radius c) = x + rad" and B: "unat (circle_y c + circle_radius c) = y + rad"
    using c bounds wl by (simp_all add: unat_plus_32)
  have L: "unat (circle_x c - circle_radius c) = x - rad" and T: "unat (circle_y c - circle_radius c) = y - rad"
    using c rad by (simp_all add: unat_sub word_le_nat_alt)
  have sq: "(int a)\<^sup>2 \<le> int rad * int rad" if "a \<le> rad" for a
    using that by (simp add: power2_eq_square mult_mono)
  have box: "(int col - int x) * (int col - int x) + (int row - int y) * (int row - int y) \<le> 2 * (int rad * int rad)"
    if "row \<in> {y - rad..y + rad}" "col \<in> {x - rad..x + rad}" for row col
  proof -
    have "(int col - int x) * (int col - int x) \<le> int rad * int rad" "(int row - int y) * (int row - int y) \<le> int rad * int rad"
      using that sq [of "nat \<bar>int col - int x\<bar>"] sq [of "nat \<bar>int row - int y\<bar>"] rad by (auto simp: power2_eq_square)
    then show ?thesis by linarith
  qed
  have r2: "int rad * int rad \<le> 46339 * 46339" using rad(4) by (intro mult_mono) auto
  have P: "?P (of_nat row) (of_nat col) \<longleftrightarrow> (int col - int x)\<^sup>2 + (int row - int y)\<^sup>2 < (int rad)\<^sup>2"
    if "row \<in> {y - rad..y + rad}" "col \<in> {x - rad..x + rad}" for row col
  proof -
    let ?d = "(int col - int x) * (int col - int x) + (int row - int y) * (int row - int y)"
    let ?a = "(of_nat col - circle_x c) * (of_nat col - circle_x c) + (of_nat row - circle_y c) * (of_nat row - circle_y c)"
    have d: "?d \<le> 2 * (46339 * 46339)" using box [OF that] r2 by linarith
    have a: "int (unat ?a) = ?d"
      using unat_dist2 [of col x row y] d that c bounds wl by simp
    then have "unat ?a < 65535 * 65535" using d by linarith
    then have "?P (of_nat row) (of_nat col) \<longleftrightarrow> unat ?a < rad * rad"
      using isqrt_less_iff [of ?a "circle_radius c"] rad(1) c(3) by blast
    also have "\<dots> \<longleftrightarrow> ?d < int rad * int rad" unfolding a [symmetric] of_nat_mult [symmetric] of_nat_less_iff ..
    finally show ?thesis by (simp only: power2_eq_square)
  qed
  have off: "unat (fb_width fb * of_nat row + of_nat col :: u32) = w * row + col" if "row \<le> y + rad" "col < w" for row col
  proof -
    have "w * row + col < w * (row + 1)" using that by simp
    also have "\<dots> \<le> w * unat (fb_height fb)" using that bounds by (intro mult_left_mono) auto
    finally show ?thesis using unat_offset [of w row col] bounds(3) w by simp
  qed
  have ord: "x - rad \<le> x + rad" "y - rad \<le> y + rad" by linarith+
  obtain px where px: "for_upto (\<lambda>row px. for_upto (\<lambda>col px. if ?P row col then Some (px(unat (fb_width fb * row + col) := color)) else Some px)
        (circle_x c - circle_radius c) (circle_x c + circle_radius c) px)
        (circle_y c - circle_radius c) (circle_y c + circle_radius c) (fb_pixels fb) = Some px"
    and q: "\<forall>q. px q = (if \<exists>row \<in> {y - rad..y + rad}. \<exists>col \<in> {x - rad..x + rad}. ?P (of_nat row) (of_nat col) \<and>
        unat (fb_width fb * of_nat row + of_nat col :: u32) = q then color else fb_pixels fb q)"
    using for_upto_paint [of "circle_y c + circle_radius c" "circle_x c + circle_radius c" "circle_y c - circle_radius c"
        "circle_x c - circle_radius c" ?P "\<lambda>row col. unat (fb_width fb * row + col)" color "fb_pixels fb"] ord
    unfolding L T R B using bounds wl by auto
  have "gpu_fill_circle fb c color = Some (fb\<lparr>fb_pixels := px\<rparr>)"
    using px unfolding gpu_fill_circle_def Let_def by simp
  moreover have "px (w * row + col) =
      (if (int col - int x)\<^sup>2 + (int row - int y)\<^sup>2 < (int rad)\<^sup>2 then color else fb_pixels fb (w * row + col))" if "col < w" for row col
  proof -
    have inbox: "row \<in> {y - rad..y + rad} \<and> col \<in> {x - rad..x + rad}"
      if "(int col - int x)\<^sup>2 + (int row - int y)\<^sup>2 < (int rad)\<^sup>2"
      using that near_coords [of "int col - int x" "int row - int y" "int rad"] by auto
    have "(\<exists>row' \<in> {y - rad..y + rad}. \<exists>col' \<in> {x - rad..x + rad}. ?P (of_nat row') (of_nat col') \<and>
        unat (fb_width fb * of_nat row' + of_nat col' :: u32) = w * row + col) \<longleftrightarrow>
      (int col - int x)\<^sup>2 + (int row - int y)\<^sup>2 < (int rad)\<^sup>2" (is "?l = ?r")
    proof
      assume ?l
      then obtain row' col' where rc: "row' \<in> {y - rad..y + rad}" "col' \<in> {x - rad..x + rad}"
          "?P (of_nat row') (of_nat col')" "unat (fb_width fb * of_nat row' + of_nat col' :: u32) = w * row + col" by blast
      moreover have lt: "col' < w" using rc(2) bounds(1) by simp
      ultimately have "w * row' + col' = w * row + col" using off [of row' col'] by simp
      then have "row' = row \<and> col' = col" using lt that by (rule same_row_col)
      then show ?r using P [OF rc(1,2)] rc(3) by simp
    next
      assume ?r
      moreover from this have "row \<in> {y - rad..y + rad}" "col \<in> {x - rad..x + rad}" using inbox by auto
      ultimately show ?l using P [of row col] off [of row col] that by fastforce
    qed
    then show ?thesis using q by simp
  qed
  ultimately show ?thesis by (intro exI [of _ "fb\<lparr>fb_pixels := px\<rparr>"]) simp
qed

section \<open>Pictures are shown as the device holds them\<close>

text \<open>The buffer holds the ten blocks of the byte that was read last.\<close>

lemma bmp_fetch_next:
  assumes "0 < bsz" and "st = ((i - 1) div bsz, disk_read dev ((i - 1) div bsz * bsz) bsz)" and "0 < i"
  shows "bmp_fetch dev bsz i st = ((i div bsz, disk_read dev (i div bsz * bsz) bsz), dev i)"
proof -
  have wb: "(if i mod bsz = 0 then (i - 1) div bsz + 1 else (i - 1) div bsz) = i div bsz"
  proof -
    obtain j where j: "i = Suc j" using assms(3) by (cases i) auto
    then show ?thesis by (simp add: div_Suc)
  qed
  have "i mod bsz < bsz" "i < i div bsz * bsz + bsz" 
    using assms(1) dividend_less_div_times [of bsz i] by (simp_all add: add.commute)
  then have "disk_read dev (i div bsz * bsz) bsz ! (i mod bsz) = dev i" by (simp add: disk_read_def)
  moreover have "(if i mod bsz = 0 then ((i - 1) div bsz + 1, disk_read dev (((i - 1) div bsz + 1) * bsz) bsz)
      else ((i - 1) div bsz, disk_read dev ((i - 1) div bsz * bsz) bsz)) = (i div bsz, disk_read dev (i div bsz * bsz) bsz)"
    using wb by (cases "i mod bsz = 0") (simp_all only: if_P if_not_P not_False_eq_True)
  ultimately show ?thesis unfolding bmp_fetch_def assms(2) Let_def prod.case by (simp only: snd_conv)
qed

text \<open>The colour of pixel \<open>k\<close> of a picture.\<close>

definition bmp_pixel :: "(nat \<Rightarrow> u8) \<Rightarrow> nat \<Rightarrow> pixel" where
  "bmp_pixel dev k = \<lparr>px_r = dev (54 + k * 3 + 2), px_g = dev (54 + k * 3 + 1), px_b = dev (54 + k * 3), px_a = 0xff\<rparr>"

definition bmp_offset :: "gpu_frame_buffer \<Rightarrow> nat \<Rightarrow> nat \<Rightarrow> nat \<Rightarrow> u64" where
  "bmp_offset fb bw n k = gpu_get_fb_offset fb (of_nat ((n - k - 1) div bw)) (of_nat (k mod bw))"

lemma bmp_from_fold:
  assumes "0 < bsz" and "st = ((53 + k * 3) div bsz, disk_read dev ((53 + k * 3) div bsz * bsz) bsz)"
  shows "bmp_from fb dev bsz bw n [k..<k + j] st px =
    fold (\<lambda>k px. if bmp_offset fb bw n k \<noteq> 0xffffffff then px(unat (bmp_offset fb bw n k) := bmp_pixel dev k) else px) [k..<k + j] px"
  using assms(2)
proof (induction j arbitrary: k st px)
  case (Suc j)
  let ?i = "54 + k * 3"
  have e: "?i - 1 = 53 + k * 3" "?i + 1 - 1 = ?i" "?i + 2 - 1 = ?i + 1" "?i + 2 = 53 + Suc k * 3" by simp_all
  have 1: "bmp_fetch dev bsz ?i st = ((?i div bsz, disk_read dev (?i div bsz * bsz) bsz), dev ?i)"
    by (rule bmp_fetch_next [OF assms(1)]) (simp_all add: Suc.prems e(1))
  have 2: "bmp_fetch dev bsz (?i + 1) (?i div bsz, disk_read dev (?i div bsz * bsz) bsz) =
      (((?i + 1) div bsz, disk_read dev ((?i + 1) div bsz * bsz) bsz), dev (?i + 1))"
    by (rule bmp_fetch_next [OF assms(1)]) (simp_all only: diff_add_inverse2 e(2,3))
  have 3: "bmp_fetch dev bsz (?i + 2) ((?i + 1) div bsz, disk_read dev ((?i + 1) div bsz * bsz) bsz) =
      (((?i + 2) div bsz, disk_read dev ((?i + 2) div bsz * bsz) bsz), dev (?i + 2))"
    by (rule bmp_fetch_next [OF assms(1)]) (simp_all only: diff_add_inverse2 e(2,3))
  have u: "[k..<k + Suc j] = k # [Suc k..<Suc k + j]" by (simp add: upt_conv_Cons del: upt_Suc)
  have "bmp_from fb dev bsz bw n [k..<k + Suc j] st px =
      bmp_from fb dev bsz bw n [Suc k..<Suc k + j] ((?i + 2) div bsz, disk_read dev ((?i + 2) div bsz * bsz) bsz)
        (if bmp_offset fb bw n k \<noteq> 0xffffffff then px(unat (bmp_offset fb bw n k) := bmp_pixel dev k) else px)"
    unfolding u bmp_from.simps Let_def 1 2 3 prod.case bmp_offset_def bmp_pixel_def by (simp only: if_not_P if_P split: if_split) simp
  then show ?case using Suc.IH [of _ "Suc k"] unfolding u e(4) by simp
qed simp

lemma fold_update:
  assumes "\<And>j k. j \<in> set ks \<Longrightarrow> k \<in> set ks \<Longrightarrow> P j \<Longrightarrow> P k \<Longrightarrow> g j = g k \<Longrightarrow> j = k"
  shows "k \<in> set ks \<Longrightarrow> P k \<Longrightarrow> fold (\<lambda>k px. if P k then px(g k := c k) else px) ks px (g k) = c k"
  using assms
proof (induction ks arbitrary: px rule: rev_induct)
  case (snoc a ks)
  show ?case
  proof (cases "k = a")
    case False
    then have "k \<in> set ks" using snoc.prems by simp
    moreover from this have "P a \<Longrightarrow> g k \<noteq> g a" using snoc.prems False by fastforce
    ultimately show ?thesis using snoc by (auto simp: fun_upd_other)
  qed (use snoc.prems in simp)
qed simp

lemma bmp_row:
  fixes W H k :: nat
  assumes "k < W * H"
  shows "(W * H - k - 1) div W = H - 1 - k div W"
proof -
  have W: "0 < W" using assms by (cases W) auto
  have a: "k div W < H" using assms by (simp add: less_mult_imp_div_less mult.commute)
  then obtain b where "H = Suc (k div W + b)" using less_iff_Suc_add by auto
  then have "W * H = W * (H - 1 - k div W) + W * (k div W) + W" by (simp add: algebra_simps)
  moreover have "k = W * (k div W) + k mod W" "k mod W < W" using W by simp_all
  ultimately have "W * H - k - 1 = W * (H - 1 - k div W) + (W - 1 - k mod W)" by linarith
  then show ?thesis using W by simp
qed

lemma unat_ucast_64: "unat (ucast (x :: u32) :: u64) = unat x"
proof -
  have "unat x < 2 ^ 32" using unsigned_less [of x] by simp
  then show ?thesis by (simp add: unsigned_ucast_eq take_bit_eq_mod)
qed

lemma gpu_get_fb_offset_nat:
  assumes "unat (fb_width fb) * unat (fb_height fb) < 2 ^ 32" and "row < 2 ^ 32" "col < 2 ^ 32"
  shows "(gpu_get_fb_offset fb (of_nat row) (of_nat col) \<noteq> 0xffffffff \<longleftrightarrow> row < unat (fb_height fb) \<and> col < unat (fb_width fb)) \<and>
    (row < unat (fb_height fb) \<and> col < unat (fb_width fb) \<longrightarrow>
      unat (gpu_get_fb_offset fb (of_nat row) (of_nat col)) = unat (fb_width fb) * row + col)"
proof (cases "row < unat (fb_height fb) \<and> col < unat (fb_width fb)")
  case True
  let ?w = "unat (fb_width fb)" and ?h = "unat (fb_height fb)"
  have lt: "?w * row + col < ?w * ?h" using True by (simp add: offset_on_screen)
  then have "unat (of_nat row * fb_width fb + of_nat col :: u32) = ?w * row + col"
    using unat_offset [of ?w row col] assms(1) by (simp add: mult.commute)
  then have u: "unat (gpu_get_fb_offset fb (of_nat row) (of_nat col)) = ?w * row + col"
    using True assms(2,3) by (simp add: gpu_get_fb_offset_def word_le_nat_alt unat_of_nat unat_ucast_64)
  moreover have "?w * row + col < 0xffffffff" using lt assms(1) by simp
  ultimately show ?thesis using True by auto
next
  case False
  then show ?thesis using assms(2,3) by (auto simp: gpu_get_fb_offset_def word_le_nat_alt unat_of_nat)
qed

lemma unat_scast_small:
  assumes "unat (x :: u32) < 2 ^ 31"
  shows "unat (scast x :: u64) = unat x"
proof -
  have "sint x = int (unat x)" using sint_of_nat_32 [OF assms] by simp
  then have "(scast x :: u64) = of_nat (unat x)" by (simp add: scast_eq)
  then show ?thesis by (simp add: unat_ucast_64)
qed

lemma bmp_offset_nat:
  assumes "W \<le> W * H" "H \<le> W * H" "W * H < 2 ^ 31" "0 < W" and screen: "unat (fb_width fb) * unat (fb_height fb) < 2 ^ 32"
    and k: "k < W * H"
  shows "(bmp_offset fb W (W * H) k \<noteq> 0xffffffff \<longleftrightarrow> H - 1 - k div W < unat (fb_height fb) \<and> k mod W < unat (fb_width fb)) \<and>
      (H - 1 - k div W < unat (fb_height fb) \<and> k mod W < unat (fb_width fb) \<longrightarrow>
        unat (bmp_offset fb W (W * H) k) = unat (fb_width fb) * (H - 1 - k div W) + k mod W)"
proof -
  have "k mod W < W" using assms(4) by simp
  moreover have "W * H < 2147483648" using assms(3) by simp
  ultimately have "H - 1 - k div W < 4294967296" "k mod W < 4294967296" using assms(1,2) by linarith+
  then show ?thesis unfolding bmp_offset_def bmp_row [OF k] by (intro gpu_get_fb_offset_nat [OF screen]) simp_all
qed

lemma bmp_offset_inj:
  assumes size: "W \<le> W * H" "H \<le> W * H" "W * H < 2 ^ 31" "0 < W" "unat (fb_width fb) * unat (fb_height fb) < 2 ^ 32"
    and jk: "j < W * H" "k < W * H" "bmp_offset fb W (W * H) j \<noteq> 0xffffffff" "bmp_offset fb W (W * H) k \<noteq> 0xffffffff"
    and eq: "unat (bmp_offset fb W (W * H) j) = unat (bmp_offset fb W (W * H) k)"
  shows "j = k"
proof -
  let ?w = "unat (fb_width fb)"
  have "?w * (H - 1 - j div W) + j mod W = ?w * (H - 1 - k div W) + k mod W" "j mod W < ?w" "k mod W < ?w"
    using jk eq bmp_offset_nat [OF size jk(1)] bmp_offset_nat [OF size jk(2)] by auto
  then have "H - 1 - j div W = H - 1 - k div W \<and> j mod W = k mod W" by (rule same_row_col)
  moreover have "j div W < H" "k div W < H" using jk by (simp_all add: less_mult_imp_div_less mult.commute)
  ultimately have "j div W = k div W" "j mod W = k mod W" by auto
  then show ?thesis by (metis div_mult_mod_eq)
qed

lemma bmp_index:
  assumes "row < H" "col < (W :: nat)"
  shows "W * (H - 1 - row) + col < W * H" "(W * (H - 1 - row) + col) div W = H - 1 - row" "(W * (H - 1 - row) + col) mod W = col"
  using assms offset_on_screen [of "H - 1 - row" H col W] by auto

text \<open>
  Of the block devices, the first that starts with the magic number is shown: the pixel of the
  screen at a row and column inside the picture gets the colour that the picture holds for that
  column and the row counted from its bottom, however the reads in buffers of ten blocks fall.
\<close>

theorem gpu_fill_with_bmp_correct:
  assumes dev: "find (\<lambda>(bsz, dev). rd16 dev 0 = 0x4d42) block_devices = Some (bsz, dev)" and bsz: "6 \<le> bsz"
    and size: "W = unat (rd32 dev 18)" "H = unat (rd32 dev 22)" "W * H < 2 ^ 31"
    and pos: "row < H" "col < W" "row < unat (fb_height fb)" "col < unat (fb_width fb)"
    and screen: "unat (fb_width fb) * unat (fb_height fb) < 2 ^ 32"
  shows "\<exists>fb'. gpu_fill_with_bmp fb block_devices = (fb', 0) \<and>
    fb_pixels fb' (unat (fb_width fb) * row + col) = bmp_pixel dev (W * (H - 1 - row) + col)"
proof -
  let ?n = "W * H" and ?off = "bmp_offset fb W (W * H)" and ?k = "W * (H - 1 - row) + col" and ?w = "unat (fb_width fb)"
  have le: "W \<le> ?n" "H \<le> ?n" "?n < 2 ^ 31" "0 < W" using pos size by (simp_all add: Suc_leI)
  then have "unat (rd32 dev 18) < 2 ^ 31" using size by linarith
  then have s: "unat (scast (rd32 dev 18) :: u64) = W" unfolding size(1) by (rule unat_scast_small)
  have "unat (rd32 dev 18 * rd32 dev 22) = ?n" using size by (simp add: unat_word_ariths)
  then have n: "unat (scast (rd32 dev 18 * rd32 dev 22) :: u64) = ?n"
    using unat_scast_small [of "rd32 dev 18 * rd32 dev 22"] size(3) by simp
  note k = bmp_index [OF pos(1,2)]
  have ok: "?off ?k \<noteq> 0xffffffff" "unat (?off ?k) = ?w * row + col"
    using bmp_offset_nat [OF le screen k(1)] k pos by auto
  have "bmp_from fb dev (bsz * 10) W ?n [0..<0 + ?n] (0, disk_read dev 0 (bsz * 10)) (fb_pixels fb) =
      fold (\<lambda>k px. if ?off k \<noteq> 0xffffffff then px(unat (?off k) := bmp_pixel dev k) else px) [0..<0 + ?n] (fb_pixels fb)"
    by (rule bmp_from_fold) (use bsz in simp_all)
  moreover have "fold (\<lambda>k px. if ?off k \<noteq> 0xffffffff then px(unat (?off k) := bmp_pixel dev k) else px) [0..<?n] (fb_pixels fb)
      (unat (?off ?k)) = bmp_pixel dev ?k"
    by (rule fold_update) (use bmp_offset_inj [OF le screen] ok k(1) in auto)
  ultimately show ?thesis using dev ok(2) s n by (simp add: gpu_fill_with_bmp_def Let_def)
qed

section \<open>Witnesses\<close>

definition demo_fb :: gpu_frame_buffer where
  "demo_fb = \<lparr>fb_width = 8, fb_height = 8, fb_pixels = (\<lambda>_. \<lparr>px_r = 0, px_g = 0, px_b = 0, px_a = 0\<rparr>)\<rparr>"

theorem gpu_fill_rectangle_correct_witness:
  "\<exists>fb'. gpu_fill_rectangle demo_fb \<lparr>rect_x = 1, rect_y = 2, rect_width = 3, rect_height = 2\<rparr>
       \<lparr>px_r = 1, px_g = 2, px_b = 3, px_a = 4\<rparr> = Some fb' \<and>
     fb_pixels fb' 36 = \<lparr>px_r = 1, px_g = 2, px_b = 3, px_a = 4\<rparr> \<and> fb_pixels fb' 64 = fb_pixels demo_fb 64"
proof -
  let ?c = "\<lparr>px_r = 1, px_g = 2, px_b = 3, px_a = 4\<rparr>" and ?r = "\<lparr>rect_x = 1, rect_y = 2, rect_width = 3, rect_height = 2\<rparr>"
  have h: "8 = unat (fb_width demo_fb)" "1 = unat (rect_x ?r)" "4 = 1 + unat (rect_width ?r)" "(4 :: nat) + 1 < 2 ^ 32"
      "2 = unat (rect_y ?r)" "4 = 2 + unat (rect_height ?r)" "(4 :: nat) + 1 < 2 ^ 32" "(8 :: nat) * 4 + 4 < 2 ^ 32"
    by (simp_all add: demo_fb_def)
  obtain fb' where fb': "gpu_fill_rectangle demo_fb ?r ?c = Some fb'"
      "\<forall>q. fb_pixels fb' q = (if \<exists>row col. 2 \<le> row \<and> row \<le> 4 \<and> 1 \<le> col \<and> col \<le> 4 \<and> q = 8 * row + col
         then ?c else fb_pixels demo_fb q)"
      "4 < (8 :: nat) \<and> 4 < unat (fb_height demo_fb) \<longrightarrow>
       (\<forall>q. 8 * unat (fb_height demo_fb) \<le> q \<longrightarrow> fb_pixels fb' q = fb_pixels demo_fb q)"
    using gpu_fill_rectangle_correct [OF h, of ?c] by blast
  have "\<exists>row col. (2 :: nat) \<le> row \<and> row \<le> 4 \<and> (1 :: nat) \<le> col \<and> col \<le> 4 \<and> 36 = 8 * row + col"
    by (intro exI [of _ 4]) simp
  then have "fb_pixels fb' 36 = ?c" using fb'(2) by simp
  moreover have "fb_pixels fb' 64 = fb_pixels demo_fb 64" using fb'(3) by (simp add: demo_fb_def)
  ultimately show ?thesis using fb'(1) by blast
qed

theorem gpu_fill_circle_correct_witness:
  "\<exists>fb'. gpu_fill_circle demo_fb \<lparr>circle_x = 4, circle_y = 4, circle_radius = 2\<rparr> \<lparr>px_r = 1, px_g = 2, px_b = 3, px_a = 4\<rparr> = Some fb' \<and>
     fb_pixels fb' (8 * 3 + 5) = \<lparr>px_r = 1, px_g = 2, px_b = 3, px_a = 4\<rparr> \<and> fb_pixels fb' (8 * 4 + 6) = fb_pixels demo_fb 38"
proof -
  let ?c = "\<lparr>circle_x = 4, circle_y = 4, circle_radius = 2\<rparr>"
  have h: "8 = unat (fb_width demo_fb)" "4 = unat (circle_x ?c)" "4 = unat (circle_y ?c)" "2 = unat (circle_radius ?c)"
      "(2 :: nat) \<le> 2" "(2 :: nat) \<le> 4" "(2 :: nat) \<le> 4" "(2 :: nat) < 46340" "(4 :: nat) + 2 < 8"
      "4 + 2 < unat (fb_height demo_fb)" "8 * unat (fb_height demo_fb) < 2 ^ 32"
    by (simp_all add: demo_fb_def)
  obtain fb' where fb': "gpu_fill_circle demo_fb ?c
        \<lparr>px_r = 1, px_g = 2, px_b = 3, px_a = 4\<rparr> = Some fb'"
      "\<forall>row col. col < 8 \<longrightarrow> fb_pixels fb' (8 * row + col) =
        (if (int col - int 4)\<^sup>2 + (int row - int 4)\<^sup>2 < (int 2)\<^sup>2 then \<lparr>px_r = 1, px_g = 2, px_b = 3, px_a = 4\<rparr>
         else fb_pixels demo_fb (8 * row + col))"
    using gpu_fill_circle_correct [OF h, of "\<lparr>px_r = 1, px_g = 2, px_b = 3, px_a = 4\<rparr>"] by blast
  show ?thesis using fb'(1) fb'(2) [rule_format, of 5 3] fb'(2) [rule_format, of 6 4] by simp
qed

text \<open>A picture of two columns and one row on the second of two devices.\<close>

definition demo_bmp :: "nat \<Rightarrow> u8" where
  "demo_bmp = (\<lambda>_. 0)(0 := 0x42, 1 := 0x4d, 18 := 2, 22 := 1, 57 := 3, 58 := 2, 59 := 1)"

theorem gpu_fill_with_bmp_correct_witness:
  "\<exists>fb'. gpu_fill_with_bmp demo_fb [(512, \<lambda>_. 0), (512, demo_bmp)] = (fb', 0) \<and>
     fb_pixels fb' 1 = \<lparr>px_r = 1, px_g = 2, px_b = 3, px_a = 0xff\<rparr>"
proof -
  have d: "find (\<lambda>(bsz :: nat, dev). rd16 dev 0 = 0x4d42) [(512, \<lambda>_. 0), (512, demo_bmp)] = Some (512, demo_bmp)"
    by (simp add: demo_bmp_def rd16_def push_bit_eq_mult)
  have s: "rd32 demo_bmp 18 = 2" "rd32 demo_bmp 22 = 1" by (simp_all add: demo_bmp_def rd32_def)
  have p: "bmp_pixel demo_bmp 1 = \<lparr>px_r = 1, px_g = 2, px_b = 3, px_a = 0xff\<rparr>" by (simp add: bmp_pixel_def demo_bmp_def)
  show ?thesis using gpu_fill_with_bmp_correct [OF d, of 2 1 0 1 demo_fb] s p by (simp add: demo_fb_def)
qed

end
