(* ===== verification/Syscall.thy ===== *)
theory Syscall
  imports Sched Ring Regions Gpu Uaccess
begin

text \<open>
  System calls and traps of the kernel: \<^verbatim>\<open>src/syscall.c\<close>, \<^verbatim>\<open>src/ostrap.c\<close> and the supervisor's
  interrupt controller, \<^verbatim>\<open>src/plic.c\<close>.

  The registers a system call sees through \<open>sscratch\<close> are those in the frame of the process that
  runs on the hart. Memory is seen as the kernel sees it: the identity-mapped RAM and, at their
  virtual addresses, the kernel's buffers. The addresses of kernel symbols and of the local
  variables of \<open>syscall_handle\<close> are a parameter; so is what the device drivers do with an interrupt.
  A trap that does not return normally (a wait for a held lock, an unknown exception) is \<open>None\<close>.
  The transfer of the frame buffer to the screen and printing are not modelled.
\<close>

unbundle bit_operations_syntax

section \<open>State\<close>

record os_syms =
  sym_console :: u64
  sym_os_trap_vector :: u64
  sym_end_stack :: u64
  sym_global_pointer :: u64
  addr_gpu_r :: u64
  addr_gpu_c :: u64
  addr_gpu_p :: u64

record os_state =
  os_sched :: sched_state
  os_ring :: ie_ring_buffer
  ie_ring_mutex :: int
  global_regions :: "region list"
  gpu_fb :: gpu_frame_buffer
  os_putchars :: "u8 list"
  csr_sepc :: u64
  csr_stvec :: u64
  csr_sstatus :: u64
  csr_satp :: u64
  os_plic :: "u64 \<Rightarrow> u32"

abbreviation (input) SYSCALL_EXIT :: u64 where "SYSCALL_EXIT \<equiv> 0"
abbreviation (input) SYSCALL_PUTCHAR :: u64 where "SYSCALL_PUTCHAR \<equiv> 1"
abbreviation (input) SYSCALL_GETCHAR :: u64 where "SYSCALL_GETCHAR \<equiv> 2"
abbreviation (input) SYSCALL_CONSOLE :: u64 where "SYSCALL_CONSOLE \<equiv> 3"
abbreviation (input) SYSCALL_SLEEP :: u64 where "SYSCALL_SLEEP \<equiv> 4"
abbreviation (input) SYSCALL_GET_INPUT :: u64 where "SYSCALL_GET_INPUT \<equiv> 14"
abbreviation (input) SYSCALL_GET_REGION :: u64 where "SYSCALL_GET_REGION \<equiv> 15"
abbreviation (input) SYSCALL_ADD_REGION :: u64 where "SYSCALL_ADD_REGION \<equiv> 16"
abbreviation (input) SYSCALL_DRAW_RECTANGLE :: u64 where "SYSCALL_DRAW_RECTANGLE \<equiv> 20"
abbreviation (input) SYSCALL_DRAW_CIRCLE :: u64 where "SYSCALL_DRAW_CIRCLE \<equiv> 21"
abbreviation (input) SYSCALL_GET_SCREEN_X :: u64 where "SYSCALL_GET_SCREEN_X \<equiv> 22"
abbreviation (input) SYSCALL_GET_SCREEN_Y :: u64 where "SYSCALL_GET_SCREEN_Y \<equiv> 23"

text \<open>The process on the hart and its registers.\<close>

definition proc_on :: "os_state \<Rightarrow> int \<Rightarrow> process" where
  "proc_on s hart = procs (os_sched s) (process_current (os_sched s) hart)"

definition upd_proc :: "os_state \<Rightarrow> int \<Rightarrow> (process \<Rightarrow> process) \<Rightarrow> os_state" where
  "upd_proc s hart f =
     s\<lparr>os_sched := set_proc (os_sched s) (process_current (os_sched s) hart) (f (proc_on s hart))\<rparr>"

definition xreg :: "os_state \<Rightarrow> int \<Rightarrow> nat \<Rightarrow> u64" where
  "xreg s hart r = gpregs (frame (proc_on s hart)) ! r"

definition set_xreg :: "os_state \<Rightarrow> int \<Rightarrow> nat \<Rightarrow> u64 \<Rightarrow> os_state" where
  "set_xreg s hart r v =
     upd_proc s hart (\<lambda>p. p\<lparr>frame := (frame p)\<lparr>gpregs := (gpregs (frame p))[r := v]\<rparr>\<rparr>)"

abbreviation (input) A0 :: nat where "A0 \<equiv> 10"

definition os_mem :: "os_state \<Rightarrow> mem" where
  "os_mem s = phys (kh (os_sched s))"

definition set_mem :: "os_state \<Rightarrow> mem \<Rightarrow> os_state" where
  "set_mem s m = s\<lparr>os_sched := (os_sched s)\<lparr>kh := (kh (os_sched s))\<lparr>phys := m\<rparr>\<rparr>\<rparr>"

section \<open>System calls\<close>

text \<open>Structures in the kernel's memory.\<close>

definition rectangle_at :: "mem \<Rightarrow> u64 \<Rightarrow> gpu_rectangle" where
  "rectangle_at m a = \<lparr>rect_x = load32 m a, rect_y = load32 m (a + 4), rect_width = load32 m (a + 8),
     rect_height = load32 m (a + 12)\<rparr>"

definition circle_at :: "mem \<Rightarrow> u64 \<Rightarrow> gpu_circle" where
  "circle_at m a = \<lparr>circle_x = load32 m a, circle_y = load32 m (a + 4), circle_radius = load32 m (a + 8)\<rparr>"

definition pixel_at :: "mem \<Rightarrow> u64 \<Rightarrow> pixel" where
  "pixel_at m a = \<lparr>px_r = m a, px_g = m (a + 1), px_b = m (a + 2), px_a = m (a + 3)\<rparr>"

definition event_bytes :: "input_event \<Rightarrow> u8 list" where
  "event_bytes e = le16 (ev_type e) @ le16 (ev_code e) @ le32 (ev_value e)"

fun put_bytes :: "mem \<Rightarrow> u64 \<Rightarrow> u8 list \<Rightarrow> mem" where
  "put_bytes m a [] = m"
| "put_bytes m a (b # bs) = put_bytes (m(a := b)) (a + 1) bs"

fun pop_events :: "nat \<Rightarrow> ie_ring_buffer \<Rightarrow> ie_ring_buffer \<times> input_event list" where
  "pop_events 0 rb = (rb, [])"
| "pop_events (Suc n) rb =
     (let (rb1, e) = ie_ring_buffer_pop rb; (rb2, es) = pop_events n rb1 in (rb2, e # es))"

text \<open>\<open>SYSCALL_GET_INPUT\<close>: the events pass through a kernel buffer. The size is a 32-bit product.\<close>

definition sys_get_input :: "heap_syms \<Rightarrow> os_state \<Rightarrow> int \<Rightarrow> os_state option" where
  "sys_get_input hs s hart =
     (let user_buffer = xreg s hart 10; len = ucast (xreg s hart 11) :: u32; sz = len * 8 in
      case kmalloc hs (kh (os_sched s)) (ucast sz) of
        None \<Rightarrow> None
      | Some (k1, os_buffer) \<Rightarrow>
          (case mutex_try (ie_ring_mutex s) of (v, r) \<Rightarrow>
           if r = 0 then None
           else
             (let (rb1, es) = pop_events (unat len) (os_ring s);
                  m1 = put_bytes (phys k1) os_buffer (concat (map event_bytes es));
                  (m2, _) = copy_to_user m1 (ptable (proc_on s hart)) os_buffer user_buffer sz
              in case kfree hs (k1\<lparr>phys := m2\<rparr>) os_buffer of
                   None \<Rightarrow> None
                 | Some k2 \<Rightarrow>
                     Some (s\<lparr>os_ring := rb1, ie_ring_mutex := mutex_post v,
                             os_sched := (os_sched s)\<lparr>kh := k2\<rparr>\<rparr>))))"

definition sys_get_region :: "os_state \<Rightarrow> int \<Rightarrow> os_state" where
  "sys_get_region s hart =
     (let x_raw = ucast (xreg s hart 10) :: u32; y_raw = ucast (xreg s hart 11) :: u32;
          x_pct = x_raw * 100 div 0x8000; y_pct = y_raw * 100 div 0x8000
      in set_xreg s hart A0 (word_of_int (regions_value_of_point (global_regions s) x_pct y_pct)))"

definition sys_add_region :: "os_state \<Rightarrow> int \<Rightarrow> os_state option" where
  "sys_add_region s hart =
     (let region_node = regions_new (ucast (xreg s hart 10)) (ucast (xreg s hart 11)) (ucast (xreg s hart 12))
            (ucast (xreg s hart 13)) (sint (ucast (xreg s hart 14) :: u32))
      in map_option (\<lambda>(rls, _). s\<lparr>global_regions := rls\<rparr>) (regions_prepend (global_regions s) region_node))"

text \<open>
  The drawing calls: both structures are copied from the user, and drawn whether or not the copy
  succeeded; what was not copied is what the local variable held.
\<close>

definition sys_draw_rectangle :: "os_syms \<Rightarrow> os_state \<Rightarrow> int \<Rightarrow> os_state option" where
  "sys_draw_rectangle os s hart =
     (let pt = ptable (proc_on s hart);
          (m1, _) = copy_to_os (os_mem s) pt (addr_gpu_r os) (xreg s hart 10) 16;
          (m2, _) = copy_to_os m1 pt (addr_gpu_p os) (xreg s hart 11) 4
      in map_option (\<lambda>fb. (set_mem s m2)\<lparr>gpu_fb := fb\<rparr>)
           (gpu_fill_rectangle (gpu_fb s) (rectangle_at m2 (addr_gpu_r os)) (pixel_at m2 (addr_gpu_p os))))"

definition sys_draw_circle :: "os_syms \<Rightarrow> os_state \<Rightarrow> int \<Rightarrow> os_state option" where
  "sys_draw_circle os s hart =
     (let pt = ptable (proc_on s hart);
          (m1, _) = copy_to_os (os_mem s) pt (addr_gpu_c os) (xreg s hart 10) 12;
          (m2, _) = copy_to_os m1 pt (addr_gpu_p os) (xreg s hart 11) 4
      in map_option (\<lambda>fb. (set_mem s m2)\<lparr>gpu_fb := fb\<rparr>)
           (gpu_fill_circle (gpu_fb s) (circle_at m2 (addr_gpu_c os)) (pixel_at m2 (addr_gpu_p os))))"

definition sys_console :: "os_syms \<Rightarrow> os_state \<Rightarrow> int \<Rightarrow> os_state" where
  "sys_console os s hart =
     (let s1 = s\<lparr>csr_sepc := sym_console os, csr_stvec := sym_os_trap_vector os,
                 csr_sstatus := push_bit 13 1 OR push_bit 8 1 OR push_bit 5 1\<rparr>;
          s2 = upd_proc s1 hart (\<lambda>p. p\<lparr>frame := (frame p)\<lparr>f_satp := csr_satp s1\<rparr>\<rparr>);
          s3 = set_xreg s2 hart 2 (sym_end_stack os)
      in set_xreg s3 hart 3 (sym_global_pointer os))"

text \<open>The process state is left for the scheduler: it frees, or puts to sleep, the process on the hart.\<close>

definition os_invoke :: "heap_syms \<Rightarrow> spawn_syms \<Rightarrow> sbi_env \<Rightarrow> os_state \<Rightarrow> int \<Rightarrow> os_state option" where
  "os_invoke hs sy env s hart = map_option (\<lambda>st. s\<lparr>os_sched := st\<rparr>) (sched_invoke hs sy env (os_sched s) hart)"

definition sys_exit :: "heap_syms \<Rightarrow> spawn_syms \<Rightarrow> sbi_env \<Rightarrow> os_state \<Rightarrow> int \<Rightarrow> os_state option" where
  "sys_exit hs sy env s hart = os_invoke hs sy env (upd_proc s hart (\<lambda>p. p\<lparr>pstate := PS_ASYNC_FREE\<rparr>)) hart"

definition sys_sleep :: "heap_syms \<Rightarrow> spawn_syms \<Rightarrow> sbi_env \<Rightarrow> os_state \<Rightarrow> int \<Rightarrow> u64 \<Rightarrow> os_state option" where
  "sys_sleep hs sy env s hart sepc =
     (let quantums = xreg s hart A0 in
      os_invoke hs sy env
        (upd_proc s hart (\<lambda>p. p\<lparr>pstate := PS_SLEEPING, sleep_until := clint_time env + quantums * of_nat PROCESS_DEFAULT_CONTEXT_TIMER,
           frame := (frame p)\<lparr>f_sepc := sepc + 4\<rparr>\<rparr>)) hart)"

definition syscall_handle ::
    "heap_syms \<Rightarrow> spawn_syms \<Rightarrow> os_syms \<Rightarrow> sbi_env \<Rightarrow> os_state \<Rightarrow> os_state option" where
  "syscall_handle hs sy os env s0 =
     (let sepc = csr_sepc s0; s = s0\<lparr>csr_sepc := sepc + 4\<rparr>; hart = who_am_i env; syscall_num = xreg s hart 17 in
      if syscall_num = SYSCALL_EXIT then sys_exit hs sy env s hart
      else if syscall_num = SYSCALL_PUTCHAR then Some (s\<lparr>os_putchars := os_putchars s @ [ucast (xreg s hart A0)]\<rparr>)
      else if syscall_num = SYSCALL_GETCHAR then Some s
      else if syscall_num = SYSCALL_CONSOLE then Some (sys_console os s hart)
      else if syscall_num = SYSCALL_SLEEP then sys_sleep hs sy env s hart sepc
      else if syscall_num = SYSCALL_GET_INPUT then sys_get_input hs s hart
      else if syscall_num = SYSCALL_GET_REGION then Some (sys_get_region s hart)
      else if syscall_num = SYSCALL_ADD_REGION then sys_add_region s hart
      else if syscall_num = SYSCALL_DRAW_RECTANGLE then sys_draw_rectangle os s hart
      else if syscall_num = SYSCALL_DRAW_CIRCLE then sys_draw_circle os s hart
      else if syscall_num = SYSCALL_GET_SCREEN_X then Some (set_xreg s hart A0 (ucast (fb_width (gpu_fb s))))
      else if syscall_num = SYSCALL_GET_SCREEN_Y then Some (set_xreg s hart A0 (ucast (fb_height (gpu_fb s))))
      else Some s)"

section \<open>Interrupts\<close>

text \<open>The registers of the interrupt controller for supervisor mode.\<close>

abbreviation (input) OS_PLIC_BASE :: u64 where "OS_PLIC_BASE \<equiv> 0x0c000000"

definition os_plic_threshold_addr :: "nat \<Rightarrow> u64" where
  "os_plic_threshold_addr hart = OS_PLIC_BASE + 0x00200000 + of_nat (0x1000 * (2 * hart + 1))"

definition os_plic_enable_addr :: "nat \<Rightarrow> nat \<Rightarrow> u64" where
  "os_plic_enable_addr hart interrupt_id = OS_PLIC_BASE + 0x2000 + of_nat (0x80 * (2 * hart + 1)) + of_nat (4 * (interrupt_id div 32))"

definition os_plic_set_priority :: "nat \<Rightarrow> u8 \<Rightarrow> (u64 \<Rightarrow> u32) \<Rightarrow> u64 \<Rightarrow> u32" where
  "os_plic_set_priority interrupt_id priority regs = regs(OS_PLIC_BASE + of_nat (4 * interrupt_id) := ucast (priority AND 7))"

definition os_plic_set_threshold :: "nat \<Rightarrow> u8 \<Rightarrow> (u64 \<Rightarrow> u32) \<Rightarrow> u64 \<Rightarrow> u32" where
  "os_plic_set_threshold hart priority regs = regs(os_plic_threshold_addr hart := ucast (priority AND 7))"

definition os_plic_enable :: "nat \<Rightarrow> nat \<Rightarrow> (u64 \<Rightarrow> u32) \<Rightarrow> u64 \<Rightarrow> u32" where
  "os_plic_enable hart interrupt_id regs =
     (let a = os_plic_enable_addr hart interrupt_id in regs(a := regs a OR push_bit (interrupt_id mod 32) 1))"

definition os_plic_disable :: "nat \<Rightarrow> nat \<Rightarrow> (u64 \<Rightarrow> u32) \<Rightarrow> u64 \<Rightarrow> u32" where
  "os_plic_disable hart interrupt_id regs =
     (let a = os_plic_enable_addr hart interrupt_id in regs(a := regs a AND NOT (push_bit (interrupt_id mod 32) 1)))"

definition os_plic_complete :: "nat \<Rightarrow> u32 \<Rightarrow> (u64 \<Rightarrow> u32) \<Rightarrow> u64 \<Rightarrow> u32" where
  "os_plic_complete hart irq regs = regs(os_plic_threshold_addr hart + 4 := irq)"

definition os_plic_init :: "nat \<Rightarrow> (u64 \<Rightarrow> u32) \<Rightarrow> u64 \<Rightarrow> u32" where
  "os_plic_init hart regs =
     (let r1 = fold (os_plic_enable hart) [32, 33, 34, 35] regs;
          r2 = fold (\<lambda>i. os_plic_set_priority i 6) [32, 33, 34, 35] r1
      in os_plic_set_threshold hart 0 r2)"

text \<open>The claimed interrupt is an argument; \<open>pcie_handle_irq\<close> is what the drivers do with it.\<close>

definition os_plic_handle_irq :: "(u32 \<Rightarrow> os_state \<Rightarrow> os_state) \<Rightarrow> u32 \<Rightarrow> os_state \<Rightarrow> int \<Rightarrow> os_state" where
  "os_plic_handle_irq pcie_handle_irq irq s hart =
     (let s1 = (if irq = 32 \<or> irq = 33 \<or> irq = 34 \<or> irq = 35 then pcie_handle_irq irq s else s)
      in s1\<lparr>os_plic := os_plic_complete (nat hart) irq (os_plic s1)\<rparr>)"

definition os_trap_handler ::
    "heap_syms \<Rightarrow> spawn_syms \<Rightarrow> os_syms \<Rightarrow> sbi_env \<Rightarrow> (u32 \<Rightarrow> os_state \<Rightarrow> os_state) \<Rightarrow> u32 \<Rightarrow> u64 \<Rightarrow> os_state \<Rightarrow> os_state option" where
  "os_trap_handler hs sy os env pcie_handle_irq irq scause s =
     (let is_async = bit scause 63; code = scause AND 0xff; hart = who_am_i env in
      if is_async then
        (if code = 5 then
           os_invoke hs sy env (upd_proc s hart (\<lambda>p. p\<lparr>frame := (frame p)\<lparr>f_sepc := csr_sepc s\<rparr>\<rparr>)) hart
         else if code = 9 then Some (os_plic_handle_irq pcie_handle_irq irq s hart)
         else Some s)
      else if code = 8 then syscall_handle hs sy os env s
      else None)"

section \<open>Sleeping and preemption\<close>

lemma sched_wf_upd:
  assumes "sched_wf st hart" and "process_current st hart = p" and "p \<noteq> NULL"
    and "p \<noteq> process_idle st hart" and "vruntime pr = vruntime (procs st p)"
  shows "sched_wf (set_proc st p pr) hart"
proof -
  have "vrt (set_proc st p pr) = vrt st" using assms(5) by (auto simp: set_proc_def)
  then show ?thesis using assms(1-4) by (simp add: sched_wf_def task_on_def set_proc_def)
qed

text \<open>
  What the scheduler does with the process \<open>p\<close> on the hart when the system call or trap has left
  \<open>pr\<close> in its structure: it keeps that structure up to the fields a spawn sets, and \<open>p\<close> sleeps or
  competes for the hart.
\<close>

lemma os_invoke_current:
  assumes wf: "sched_wf (os_sched s) hart" and m: "sched_mutex (os_sched s) = 1" and spawn: "\<not> spawn_refused env hart"
    and p: "process_current (os_sched s) hart = p" "p \<noteq> NULL" "p \<noteq> process_idle (os_sched s) hart"
    and f: "vruntime (f (proc_on s hart)) = vruntime (proc_on s hart)" "pstate (f (proc_on s hart)) \<noteq> PS_ASYNC_FREE"
  obtains st' where "os_invoke hs sy env (upd_proc s hart f) hart = Some (s\<lparr>os_sched := st'\<rparr>)" "sched_mutex st' = 1"
    "pstate (f (proc_on s hart)) = PS_SLEEPING \<Longrightarrow>
       p \<in> set (sleeping st') \<and> p \<notin> set (unsched st') \<and> process_current st' hart \<noteq> p \<and>
       procs st' p = (f (proc_on s hart))\<lparr>on_hart := - 1\<rparr>"
    "pstate (f (proc_on s hart)) \<noteq> PS_SLEEPING \<Longrightarrow>
       (p \<in> set (unsched st') \<or> process_current st' hart = p) \<and> p \<notin> set (sleeping st') \<and>
       f_sepc (frame (procs st' p)) = f_sepc (frame (f (proc_on s hart))) \<and>
       gpregs (frame (procs st' p)) = gpregs (frame (f (proc_on s hart)))"
proof -
  let ?pr = "f (proc_on s hart)"
  let ?st = "set_proc (os_sched s) p ?pr"
  have st: "os_sched (upd_proc s hart f) = ?st" "(upd_proc s hart f)\<lparr>os_sched := x\<rparr> = s\<lparr>os_sched := x\<rparr>" for x
    using p by (simp_all add: upd_proc_def)
  have wf': "sched_wf ?st hart" using wf p f by (intro sched_wf_upd) (simp_all add: proc_on_def)
  have t: "task_on ?st hart = p" "procs ?st p = ?pr" "process_idle ?st = process_idle (os_sched s)" "sched_mutex ?st = 1"
    using p m by (simp_all add: task_on_def set_proc_def)
  obtain st3 where i: "sched_invoke hs sy env ?st hart = Some (fst (process_spawn sy env
       ((fst (sched_get st3))\<lparr>sched_mutex := mutex_post (sched_mutex (fst (sched_get st3)))\<rparr>)
       (if snd (sched_get st3) = NULL then process_idle (fst (sched_get st3)) hart else snd (sched_get st3)) hart))"
    and k: "process_idle st3 = process_idle ?st" "vrt st3 = vrt ?st"
      "set (unsched st3) = candidates env ?st hart"
      "mset (unsched st3) + mset (sleeping st3) = tasks ?st hart"
      "procs st3 p = ?pr\<lparr>on_hart := - 1\<rparr>"
    using sched_invoke_ready [OF wf' t(4), of hs sy env] f(2) t by auto
  have own: "p \<notin> set (unsched (os_sched s)) \<union> set (sleeping (os_sched s))"
    using wf p by (simp add: sched_wf_def task_on_def)
  have tasks: "tasks ?st hart = mset (unsched (os_sched s)) + mset (sleeping (os_sched s)) + {#p#}"
    using t p by (simp add: tasks_def set_proc_def)
  then have count: "count (mset (unsched st3) + mset (sleeping st3)) p = 1"
    using k(4) own by (simp add: count_eq_zero_iff)
  have cand: "p \<in> set (unsched st3) \<longleftrightarrow> pstate ?pr \<noteq> PS_SLEEPING"
  proof -
    have "walked (clint_time env) ?st (sched_walk_sleeping_list env ?st)"
      using wf' by (intro walk_walked) (simp add: sched_wf_def)
    then have "set_mset (mset (unsched (sched_walk_sleeping_list env ?st))) \<subseteq> set (unsched ?st) \<union> set (sleeping ?st)"
      unfolding walked_def by (metis mset_subset_eq_add_left set_mset_mono set_mset_mset set_mset_union)
    then have "p \<notin> set (unsched (sched_walk_sleeping_list env ?st))" using own by (auto simp: set_proc_def)
    then show ?thesis using k(3) t p by (auto simp: candidates_def)
  qed
  define new where "new = (case unsched st3 of [] \<Rightarrow> process_idle (os_sched s) hart | q # _ \<Rightarrow> if q = NULL then process_idle (os_sched s) hart else q)"
  define st' where "st' = (set_proc (st3\<lparr>unsched := tl (unsched st3), sched_mutex := 1\<rparr>) new
      (spawn_process (procs st3 new) hart (process_trap_stacks st3 hart)))
      \<lparr>process_current := (process_current st3)(hart := new),
       acts := acts st3 @ spawn_actions sy env (kh st3) (spawn_process (procs st3 new) hart (process_trap_stacks st3 hart)) hart\<rparr>"
  have "sched_invoke hs sy env ?st hart = Some st'"
    using i spawn k(1) t(3) by (cases "unsched st3") (simp_all add: sched_get_eq process_spawn_def Let_def mutex_post_def new_def st'_def set_proc_def)
  then have inv: "os_invoke hs sy env (upd_proc s hart f) hart = Some (s\<lparr>os_sched := st'\<rparr>)" by (simp add: os_invoke_def st)
  have s': "unsched st' = tl (unsched st3)" "sleeping st' = sleeping st3" "process_current st' hart = new" "sched_mutex st' = 1"
      "procs st' p = (if p = new then spawn_process (procs st3 p) hart (process_trap_stacks st3 hart) else procs st3 p)"
    by (simp_all add: st'_def set_proc_def)
  show thesis
  proof (rule that [OF inv s'(4)])
    assume sl: "pstate ?pr = PS_SLEEPING"
    then have un: "p \<notin> set (unsched st3)" using cand by simp
    then have "new \<noteq> p" using p(3) by (auto simp: new_def split: list.splits)
    moreover have "p \<in> set (sleeping st3)" using count un by (metis count_eq_zero_iff set_mset_mset union_iff zero_neq_one)
    moreover have "p \<notin> set (tl (unsched st3))" using un by (cases "unsched st3") auto
    ultimately show "p \<in> set (sleeping st') \<and> p \<notin> set (unsched st') \<and> process_current st' hart \<noteq> p \<and>
        procs st' p = ?pr\<lparr>on_hart := - 1\<rparr>" using s' k(5) by simp
  next
    assume "pstate ?pr \<noteq> PS_SLEEPING"
    then have un: "p \<in> set (unsched st3)" using cand by simp
    then have "count (mset (sleeping st3)) p = 0" using count by (simp add: count_list_0_iff not_in_iff) (metis Suc_inject add_is_1 count_eq_zero_iff set_mset_mset)
    then have "p \<notin> set (sleeping st3)" by (simp add: count_eq_zero_iff)
    moreover have "p \<in> set (tl (unsched st3)) \<or> new = p" using un p(2) by (cases "unsched st3") (auto simp: new_def)
    ultimately show "(p \<in> set (unsched st') \<or> process_current st' hart = p) \<and> p \<notin> set (sleeping st') \<and>
       f_sepc (frame (procs st' p)) = f_sepc (frame ?pr) \<and> gpregs (frame (procs st' p)) = gpregs (frame ?pr)"
      using s' k(5) by (auto simp: spawn_process_def)
  qed
qed

text \<open>
  C14: A process that asks to sleep is put on the sleeping list with its wake-up time set from the
  clock and the quantums it asked for, and with the instruction after the call and its registers
  saved; it is not eligible to run, another process gets the hart, and the scheduler's mutex is
  released.
\<close>

theorem syscall_sleep_correct:
  assumes "sched_wf (os_sched s) (who_am_i env)" and "sched_mutex (os_sched s) = 1"
    and "\<not> spawn_refused env (who_am_i env)" and "process_current (os_sched s) (who_am_i env) = p"
    and "p \<noteq> NULL" and "p \<noteq> process_idle (os_sched s) (who_am_i env)"
    and "xreg s (who_am_i env) 17 = 4"
  shows "\<exists>s'. syscall_handle hs sy os env s = Some s' \<and> sched_mutex (os_sched s') = 1 \<and>
    p \<in> set (sleeping (os_sched s')) \<and> p \<notin> set (unsched (os_sched s')) \<and>
    process_current (os_sched s') (who_am_i env) \<noteq> p \<and> pstate (procs (os_sched s') p) = PS_SLEEPING \<and>
    sleep_until (procs (os_sched s') p) = clint_time env + xreg s (who_am_i env) 10 * 10000 \<and>
    f_sepc (frame (procs (os_sched s') p)) = csr_sepc s + 4 \<and>
    gpregs (frame (procs (os_sched s') p)) = gpregs (frame (procs (os_sched s) p))"
proof -
  let ?h = "who_am_i env" and ?s = "s\<lparr>csr_sepc := csr_sepc s + 4\<rparr>"
  let ?f = "\<lambda>q. q\<lparr>pstate := PS_SLEEPING, sleep_until := clint_time env + xreg s ?h 10 * 10000,
      frame := (frame q)\<lparr>f_sepc := csr_sepc s + 4\<rparr>\<rparr>"
  have x: "xreg ?s = xreg s" "proc_on ?s = proc_on s" by (simp_all add: xreg_def proc_on_def fun_eq_iff)
  obtain st' where st': "os_invoke hs sy env (upd_proc ?s ?h ?f) ?h = Some (?s\<lparr>os_sched := st'\<rparr>)" "sched_mutex st' = 1"
      "p \<in> set (sleeping st') \<and> p \<notin> set (unsched st') \<and> process_current st' ?h \<noteq> p \<and>
       procs st' p = (?f (proc_on s ?h))\<lparr>on_hart := - 1\<rparr>"
    using os_invoke_current [of ?s ?h env p ?f hs sy] assms x by (auto simp: proc_on_def)
  have "syscall_handle hs sy os env s = Some (?s\<lparr>os_sched := st'\<rparr>)"
    using st'(1) assms(7) x by (simp add: syscall_handle_def Let_def sys_sleep_def)
  then show ?thesis using st'(2,3) assms(4) by (auto simp: proc_on_def)
qed

text \<open>
  C33: A process interrupted by the timer is not lost: it keeps its registers, continues where it was
  interrupted, and either gets the hart again or stays eligible to run.
\<close>

theorem os_timer_preempts:
  assumes "sched_wf (os_sched s) (who_am_i env)" and "sched_mutex (os_sched s) = 1"
    and "\<not> spawn_refused env (who_am_i env)" and "process_current (os_sched s) (who_am_i env) = p"
    and "p \<noteq> NULL" and "p \<noteq> process_idle (os_sched s) (who_am_i env)"
    and "pstate (procs (os_sched s) p) \<notin> {PS_SLEEPING, PS_ASYNC_FREE}"
    and "bit scause 63" and "scause AND 0xff = 5"
  shows "\<exists>s'. os_trap_handler hs sy os env pcie irq scause s = Some s' \<and> sched_mutex (os_sched s') = 1 \<and>
    (p \<in> set (unsched (os_sched s')) \<or> process_current (os_sched s') (who_am_i env) = p) \<and>
    f_sepc (frame (procs (os_sched s') p)) = csr_sepc s \<and>
    gpregs (frame (procs (os_sched s') p)) = gpregs (frame (procs (os_sched s) p))"
proof -
  let ?h = "who_am_i env"
  let ?f = "\<lambda>q. q\<lparr>frame := (frame q)\<lparr>f_sepc := csr_sepc s\<rparr>\<rparr>"
  obtain st' where st': "os_invoke hs sy env (upd_proc s ?h ?f) ?h = Some (s\<lparr>os_sched := st'\<rparr>)" "sched_mutex st' = 1"
      "(p \<in> set (unsched st') \<or> process_current st' ?h = p) \<and> p \<notin> set (sleeping st') \<and>
       f_sepc (frame (procs st' p)) = f_sepc (frame (?f (proc_on s ?h))) \<and>
       gpregs (frame (procs st' p)) = gpregs (frame (?f (proc_on s ?h)))"
    using os_invoke_current [of s ?h env p ?f hs sy] assms by (auto simp: proc_on_def)
  have "os_trap_handler hs sy os env pcie irq scause s = Some (s\<lparr>os_sched := st'\<rparr>)"
    using st'(1) assms(8,9) by (simp add: os_trap_handler_def Let_def)
  then show ?thesis using st'(2,3) assms(4) by (auto simp: proc_on_def)
qed

section \<open>Witnesses\<close>

definition demo_os :: os_state where
  "demo_os = \<lparr>os_sched = demo_sched\<lparr>procs := (procs demo_sched)(0x1000 := (procs demo_sched 0x1000)
       \<lparr>frame := zero_frame\<lparr>gpregs := (replicate 32 0)[17 := 4, 10 := 3]\<rparr>\<rparr>)\<rparr>,
     os_ring = ie_ring_buffer_init [] RB_IGNORE, ie_ring_mutex = 1, global_regions = [],
     gpu_fb = demo_fb, os_putchars = [], csr_sepc = 0x400, csr_stvec = 0, csr_sstatus = 0, csr_satp = 0, os_plic = (\<lambda>_. 0)\<rparr>"

lemma demo_os_facts:
  "sched_wf (os_sched demo_os) 0" "sched_mutex (os_sched demo_os) = 1" "process_current (os_sched demo_os) 0 = 0x1000"
  "process_idle (os_sched demo_os) 0 = 0x9000" "xreg demo_os 0 17 = 4" "xreg demo_os 0 10 = 3" "csr_sepc demo_os = 0x400"
  "pstate (procs (os_sched demo_os) 0x1000) = PS_RUNNING"
  by (simp_all add: demo_os_def sched_wf_def task_on_def demo_sched_def demo_proc_def xreg_def proc_on_def)

theorem syscall_sleep_correct_witness:
  "\<exists>s'. syscall_handle demo_heap \<lparr>spawn_thread_start = 0, spawn_thread_end = 0, spawn_trap_start = 0,
       spawn_trap_end = 0, idle_code_start = 0, idle_code_end = 0\<rparr>
       \<lparr>sym_console = 0, sym_os_trap_vector = 0, sym_end_stack = 0, sym_global_pointer = 0, addr_gpu_r = 0,
        addr_gpu_c = 0, addr_gpu_p = 0\<rparr> demo_env demo_os = Some s' \<and>
     sleep_until (procs (os_sched s') 0x1000) = clint_time demo_env + 30000"
  using syscall_sleep_correct [of demo_os demo_env "0x1000"] demo_os_facts by (simp add: demo_env_def spawn_refused_def) blast

theorem os_timer_preempts_witness:
  "\<exists>s'. os_trap_handler demo_heap \<lparr>spawn_thread_start = 0, spawn_thread_end = 0, spawn_trap_start = 0,
       spawn_trap_end = 0, idle_code_start = 0, idle_code_end = 0\<rparr>
       \<lparr>sym_console = 0, sym_os_trap_vector = 0, sym_end_stack = 0, sym_global_pointer = 0, addr_gpu_r = 0,
        addr_gpu_c = 0, addr_gpu_p = 0\<rparr> demo_env (\<lambda>_ s. s) 0 0x8000000000000005 demo_os = Some s' \<and>
     f_sepc (frame (procs (os_sched s') 0x1000)) = 0x400"
  using os_timer_preempts [of demo_os demo_env "0x1000" "0x8000000000000005"] demo_os_facts
  by (simp add: demo_env_def spawn_refused_def) blast

end
