(* ===== verification/Boot.thy ===== *)
theory Boot
  imports Kmalloc
begin

text \<open>
  The start of the kernel, \<open>main\<close> of \<^verbatim>\<open>src/main.c\<close>, up to the kernel heap: the page allocator, the kernel's
  page table, in which its sections and the devices are mapped to themselves, and the first page of
  the heap. The linker symbols are arguments; the registers that switch translation on are left out.
\<close>

section \<open>Model\<close>

record section_syms =
  text_start :: u64
  text_end :: u64
  data_start :: u64
  data_end :: u64
  rodata_start :: u64
  rodata_end :: u64
  bss_start :: u64
  bss_end :: u64
  stack_start :: u64
  stack_end :: u64

abbreviation (input) PTEB_READ :: u64 where "PTEB_READ \<equiv> 2"
abbreviation (input) PTEB_WRITE :: u64 where "PTEB_WRITE \<equiv> 4"
abbreviation (input) PTEB_EXECUTE :: u64 where "PTEB_EXECUTE \<equiv> 8"

text \<open>Start, size in bytes and flags of the ranges, in the order in which they are mapped.\<close>

definition kernel_regions :: "heap_syms \<Rightarrow> section_syms \<Rightarrow> (u64 \<times> u64 \<times> u64) list" where
  "kernel_regions hs sy =
     [(text_start sy, text_end sy - text_start sy, PTEB_READ OR PTEB_EXECUTE),
      (data_start sy, data_end sy - data_start sy, PTEB_READ OR PTEB_WRITE),
      (rodata_start sy, rodata_end sy - rodata_start sy, PTEB_READ),
      (bss_start sy, bss_end sy - bss_start sy, PTEB_READ OR PTEB_WRITE),
      (stack_start sy, stack_end sy - stack_start sy, PTEB_READ OR PTEB_WRITE),
      (heap_start hs, heap_end hs - heap_start hs, PTEB_READ OR PTEB_WRITE),
      (0x0c000000, 0x0c2FFFFF - 0x0c000000, PTEB_READ OR PTEB_WRITE),
      (0x30000000, 0x3FFFFFFF - 0x30000000, PTEB_READ OR PTEB_WRITE),
      (0x40000000, 0x4FFFFFFF - 0x40000000, PTEB_READ OR PTEB_WRITE)]"

fun map_regions :: "heap_syms \<Rightarrow> mem \<Rightarrow> u64 \<Rightarrow> (u64 \<times> u64 \<times> u64) list \<Rightarrow> mem option" where
  "map_regions hs m pt [] = Some m"
| "map_regions hs m pt ((a, n, bits) # rs) =
     (case mmu_map_multiple hs m pt a a n bits of None \<Rightarrow> None | Some m1 \<Rightarrow> map_regions hs m1 pt rs)"

definition boot_memory :: "heap_syms \<Rightarrow> section_syms \<Rightarrow> kheap \<Rightarrow> kheap option" where
  "boot_memory hs sy s =
     (case page_init hs (phys s) of
        None \<Rightarrow> None
      | Some m0 \<Rightarrow>
          (let (m1, pt) = page_zalloc hs m0
           in case map_regions hs m1 pt (kernel_regions hs sy) of
                None \<Rightarrow> None
              | Some m2 \<Rightarrow> Some (init_kernel_heap hs (s\<lparr>phys := m2, kernel_mmu_table := pt\<rparr>))))"

section \<open>Mapping ranges to themselves\<close>

definition region_pages :: "u64 \<times> u64 \<times> u64 \<Rightarrow> nat" where
  "region_pages r = (unat (fst (snd r)) + 4095) div 4096"

definition region_ok :: "u64 \<times> u64 \<times> u64 \<Rightarrow> bool" where
  "region_ok r \<longleftrightarrow> 4096 dvd unat (fst r) \<and> unat (fst r) + unat (fst (snd r)) \<le> 2 ^ 38 \<and>
     snd (snd r) AND 14 \<noteq> 0 \<and> unat (snd (snd r)) < 2 ^ 10"

text \<open>The range an address belongs to; the last one mapped, if there are several.\<close>

definition region_of :: "(u64 \<times> u64 \<times> u64) list \<Rightarrow> u64 \<Rightarrow> (u64 \<times> u64 \<times> u64) option" where
  "region_of rs w = find (\<lambda>r. in_pages (fst r) (region_pages r) w) (rev rs)"

definition regions_tables :: "(u64 \<times> u64 \<times> u64) list \<Rightarrow> nat" where
  "regions_tables rs = sum_list (map (\<lambda>r. tables_needed (fst r) (region_pages r)) rs)"

definition page_of :: "u64 \<Rightarrow> u64" where
  "page_of w = of_nat (4096 * (unat w div 4096))"

lemma in_pages_identity:
  assumes "4096 dvd unat a" and "in_pages a n w"
  shows "a + of_nat (4096 * (unat w div 4096 - unat a div 4096)) = page_of w"
proof -
  obtain k where k: "unat a = 4096 * k" using assms(1) by (elim dvdE)
  then have "a = of_nat (4096 * k)" by (metis of_nat_unat ucast_id)
  moreover have "4096 * k + 4096 * (unat w div 4096 - k) = 4096 * (unat w div 4096)"
    using assms(2) k by (simp add: in_pages_def flip: distrib_left)
  ultimately have "a + of_nat (4096 * (unat w div 4096 - k)) = page_of w" unfolding page_of_def by (metis of_nat_add)
  moreover have "unat a div 4096 = k" using k by simp
  ultimately show ?thesis by (simp only:)
qed

lemma find_append: "find P (xs @ ys) = (case find P xs of None \<Rightarrow> find P ys | Some x \<Rightarrow> Some x)"
  by (induction xs) auto

lemma map_regions_leaf:
  "pt_at hs L m pt \<Longrightarrow> list_all region_ok rs \<Longrightarrow> regions_tables rs \<le> pages_avail hs m \<Longrightarrow>
   \<exists>m' L'. map_regions hs m pt rs = Some m' \<and> pt_at hs L' m' pt \<and> pages_avail hs m \<le> pages_avail hs m' + regions_tables rs \<and>
     (\<forall>w. unat w < 2 ^ 39 \<longrightarrow> pt_leaf m' pt w =
       (case region_of rs w of None \<Rightarrow> pt_leaf m pt w | Some r \<Rightarrow> make_entry (page_of w) (snd (snd r) OR 1)))"
proof (induction rs arbitrary: L m)
  case Nil
  then show ?case by (auto simp: region_of_def regions_tables_def)
next
  case (Cons r rs)
  obtain a n bits where r: "r = (a, n, bits)" by (cases r)
  have ok: "4096 dvd unat a" "unat a + unat n \<le> 2 ^ 39" "bits AND 14 \<noteq> 0"
    using Cons.prems(2) r by (auto simp: region_ok_def)
  have need: "tables_needed a (region_pages r) \<le> pages_avail hs m" using Cons.prems(3) r by (simp add: regions_tables_def)
  obtain m1 L1 where m1: "mmu_map_multiple hs m pt a a n bits = Some m1" "pt_at hs L1 m1 pt"
    "pages_avail hs m \<le> pages_avail hs m1 + tables_needed a (region_pages r)"
    "\<And>w. unat w < 2 ^ 39 \<Longrightarrow> pt_leaf m1 pt w =
      (if in_pages a (region_pages r) w then make_entry (a + of_nat (4096 * (unat w div 4096 - unat a div 4096))) (bits OR 1)
       else pt_leaf m pt w)"
    by (rule mmu_map_multiple_leaf [OF Cons.prems(1) _ need ok], simp add: region_pages_def r, rule that) auto
  have "regions_tables rs \<le> pages_avail hs m1" using Cons.prems(3) m1(3) r by (simp add: regions_tables_def)
  from Cons.IH [OF m1(2) _ this] Cons.prems(2) obtain m' L' where
    m': "map_regions hs m1 pt rs = Some m'" "pt_at hs L' m' pt" "pages_avail hs m1 \<le> pages_avail hs m' + regions_tables rs"
    "\<And>w. unat w < 2 ^ 39 \<Longrightarrow> pt_leaf m' pt w =
       (case region_of rs w of None \<Rightarrow> pt_leaf m1 pt w | Some r \<Rightarrow> make_entry (page_of w) (snd (snd r) OR 1))" by auto
  have "pt_leaf m' pt w = (case region_of (r # rs) w of None \<Rightarrow> pt_leaf m pt w | Some r \<Rightarrow> make_entry (page_of w) (snd (snd r) OR 1))"
    if w: "unat w < 2 ^ 39" for w
    using m'(4) [OF w] m1(4) [OF w] in_pages_identity [OF ok(1), of "region_pages r" w] r
    by (cases "region_of rs w") (auto simp: region_of_def find_append split: option.split)
  then show ?case using m' m1 r by (intro exI [of _ m'] exI [of _ L']) (auto simp: regions_tables_def)
qed

text \<open>An entry that maps a page to itself, and its flags.\<close>

lemma page_of_props:
  assumes "unat w < 2 ^ 39"
  shows "4096 dvd unat (page_of w)" "unat (page_of w) < 2 ^ 56" "page_of w OR (w AND 0xFFF) = w"
proof -
  have "4096 * (unat w div 4096) \<le> unat w" by simp
  then have u: "unat (page_of w) = 4096 * (unat w div 4096)"
    unfolding page_of_def using assms by (intro unat_of_nat_64) simp
  show a: "4096 dvd unat (page_of w)" using u by simp
  show "unat (page_of w) < 2 ^ 56" using u assms by simp
  have "page_of w + of_nat (unat w mod 4096) = of_nat (4096 * (unat w div 4096) + unat w mod 4096)"
    by (simp only: page_of_def of_nat_add)
  then show "page_of w OR (w AND 0xFFF) = w" using aligned_or_offset [OF a, of w] by simp
qed

lemma make_entry_low_flags:
  assumes "unat bits < 2 ^ 10"
  shows "make_entry p bits AND 0x3FF = bits"
proof (rule bit_word_eqI)
  fix n
  have m: "(0x3FF :: u64) = mask 10" by (simp add: mask_eq_exp_minus_1)
  show "bit (make_entry p bits AND 0x3FF) n = bit bits n"
    using make_entry_bit_low [of n p bits] small_bits [OF assms, of n]
    unfolding m bit_and_iff bit_mask_iff by (cases "n < 10") auto
qed

lemma entry_flags:
  assumes "unat (bits :: u64) < 2 ^ 10"
  shows "make_entry p (bits OR 1) AND 0x3FF = bits OR 1" "make_entry p (bits OR 1) AND 12 = bits AND 12"
proof -
  show l: "make_entry p (bits OR 1) AND 0x3FF = bits OR 1" using make_entry_low_flags [OF flags_or_valid [OF assms]] .
  have "make_entry p (bits OR 1) AND 12 = (make_entry p (bits OR 1) AND 0x3FF) AND 12"
    by (simp add: and.assoc)
  also have "\<dots> = bits AND 12" unfolding l by (simp add: bit.conj_disj_distrib2)
  finally show "make_entry p (bits OR 1) AND 12 = bits AND 12" .
qed

lemma region_of_in: "region_of rs w = Some r \<Longrightarrow> r \<in> set rs"
  by (induction rs) (auto simp: region_of_def find_append split: option.splits if_splits)

text \<open>What the leaf of an address says of its translation and of its flags.\<close>

lemma identity_leaf:
  assumes wf: "pt_wf hs m pt" and w: "unat w < 2 ^ 39"
    and leaf: "pt_leaf m pt w = (if same_page w v then make_entry pg 7 else
       case region_of rs w of None \<Rightarrow> 0 | Some r \<Rightarrow> make_entry (page_of w) (snd (snd r) OR 1))"
    and ok: "list_all region_ok rs" and bits: "\<forall>r \<in> set rs. snd (snd r) AND 12 \<noteq> 12"
  shows "pt_leaf m pt w AND 12 \<noteq> 12" "\<not> same_page w v \<Longrightarrow>
    (case region_of rs w of None \<Rightarrow> mmu_translate m pt w = - 1
     | Some r \<Rightarrow> mmu_translate m pt w = w \<and> pt_leaf m pt w AND 0x3FF = snd (snd r) OR 1)"
proof -
  have rok: "region_ok r" "snd (snd r) AND 12 \<noteq> 12" if "region_of rs w = Some r" for r
    using region_of_in [OF that] ok bits by (auto simp: list_all_iff)
  have small: "unat (snd (snd r)) < 2 ^ 10" "snd (snd r) AND 14 \<noteq> 0" if "region_of rs w = Some r" for r
    using rok(1) [OF that] by (auto simp: region_ok_def)
  have seven: "make_entry pg 7 AND 12 \<noteq> 12" using entry_flags(2) [of 6 pg] by simp
  show "pt_leaf m pt w AND 12 \<noteq> 12"
    unfolding leaf using seven rok(2) entry_flags(2) [OF small(1)] by (auto split: option.split)
  assume ns: "\<not> same_page w v"
  show "case region_of rs w of None \<Rightarrow> mmu_translate m pt w = - 1
     | Some r \<Rightarrow> mmu_translate m pt w = w \<and> pt_leaf m pt w AND 0x3FF = snd (snd r) OR 1"
  proof (cases "region_of rs w")
    case None
    then show ?thesis using leaf ns by (simp add: translate_leaf [OF wf])
  next
    case (Some r)
    have e: "pt_leaf m pt w = make_entry (page_of w) (snd (snd r) OR 1)" using leaf ns Some by simp
    have "mmu_translate m pt w = w"
      using translate_entry [OF wf e small(2) small(1) page_of_props(1,2) [OF w], OF Some Some] page_of_props(3) [OF w] by simp
    then show ?thesis using Some e entry_flags(1) [OF small(1) [OF Some]] by simp
  qed
qed

lemma kernel_regions_bits: "\<forall>r \<in> set (kernel_regions hs sy). snd (snd r) AND 12 \<noteq> 12"
  by (simp add: kernel_regions_def)

section \<open>The kernel after its start\<close>

text \<open>An empty page table in a new page.\<close>

lemma new_table_at:
  assumes "heap_ok hs" and "page_wf hs m" and "0 < pages_avail hs m" and "page_zalloc hs m = (m1, pt)"
  shows "pt_at hs [pt \<mapsto> []] m1 pt" "pages_avail hs m1 = pages_avail hs m - 1" "pt_leaf m1 pt w = 0"
proof -
  have inv: "heap_ok hs \<and> page_wf hs m" using assms by simp
  note av = pages.zalloc_avail [OF inv assms(3), unfolded assms(4)]
  then have n: "snd (page_zalloc hs m) \<noteq> NULL" using assms(4) by simp
  have z: "pt_entry m1 pt k = 0" if "k < 512" for k using pages.pt_entry_new [OF inv n that] assms(4) by simp
  have "page_owned hs m1 pt" using pages.zalloc_owned [OF inv n, of pt] assms(4) by simp
  then show "pt_at hs [pt \<mapsto> []] m1 pt"
    using pages.zalloc_inv [OF inv] assms(4) z by (auto simp: pt_at_def pt_shape_def split: if_splits)
  show "pages_avail hs m1 = pages_avail hs m - 1" using av by simp
  show "pt_leaf m1 pt w = 0" by (simp add: pt_leaf_def z)
qed

lemma page_init_avail:
  assumes "heap_ok hs" and "m (heap_start hs + bookkeeping_bytes hs) = 0 \<or> 4 dvd npages hs"
  obtains m0 where "page_init hs m = Some m0" "page_wf hs m0" "pages_avail hs m0 = npages hs div 10 - nbook hs"
proof -
  obtain m0 where m0: "page_init hs m = Some m0" "page_wf hs m0" "\<forall>q < npages hs. is_taken m0 (heap_start hs) q \<longleftrightarrow> q < nbook hs"
    using page_init_marks [where m = m, OF assms] by blast
  have "{i. i < npages hs div 10 \<and> \<not> is_taken m0 (heap_start hs) i} = {nbook hs..<npages hs div 10}" using m0(3) by auto
  then have "pages_avail hs m0 = npages hs div 10 - nbook hs" by (simp add: pages_avail_card)
  with m0 show ?thesis using that by blast
qed

text \<open>The heap after its first page: one free block.\<close>

lemma init_kernel_heap_inv:
  assumes "kernel_heap_vaddr s = h" and "0 < unat h" and "unat h + 4096 < 2 ^ 62"
  shows "heap_inv (init_kernel_heap hs s) [h + 24]" "al_size (nodes (init_kernel_heap hs s) (h + 24)) = 4048"
proof -
  let ?n1 = "set_prev (set_next (set_size (nodes s) h 0) h h) h h"
  let ?n2 = "set_size ?n1 (h + 24) 4048"
  have u: "unat (h + 24) = unat h + 24" "unat (h + 4096) = unat h + 4096"
    using unat_add_of_nat [of h 24] unat_add_of_nat [of h 4096] assms(3) by simp_all
  have ne: "h \<noteq> h + 24" using u(1) by auto
  have "dll ?n2 h ([] @ [])" using ne by (simp add: dll_def set_prev_def set_next_def set_size_def)
  from dll_insert [OF this, of "h + 24"] have d: "dll (allocation_dll_insert ?n2 h (h + 24)) h [h + 24]" using ne by simp
  have sz: "al_size (allocation_dll_insert ?n2 h (h + 24) x) = al_size (?n2 x)" for x using insert_fields(3) [OF ne] .
  have i: "nodes (init_kernel_heap hs s) = allocation_dll_insert ?n2 h (h + 24)" "kmalloc_head (init_kernel_heap hs s) = h"
    "kernel_heap_vaddr (init_kernel_heap hs s) = h + 4096"
    using assms(1) by (simp_all add: init_kernel_heap_def Let_def split: prod.split)
  show "al_size (nodes (init_kernel_heap hs s) (h + 24)) = 4048" unfolding i(1) sz by (simp add: set_size_def)
  show "heap_inv (init_kernel_heap hs s) [h + 24]"
    unfolding heap_inv_def i using d ne u assms(2,3) by (auto simp: sz) (auto simp: set_size_def set_next_def set_prev_def)
qed

text \<open>The first page of the heap, mapped where no table needs to change but for new ones.\<close>

lemma heap_page_leaf:
  assumes at: "pt_at hs L m pt" and av: "3 \<le> pages_avail hs m"
    and z: "page_zalloc hs m = (m1, pg)" and map: "mmu_map hs m1 pt v pg 6 = (m2, r)"
  shows "pt_wf hs m2 pt" "pt_leaf m2 pt w = (if same_page w v then make_entry pg 7 else pt_leaf m pt w)"
proof -
  have inv: "heap_ok hs \<and> page_wf hs m" and shape: "pt_shape L (page_owned hs m) m pt" using at by (auto simp: pt_at_def)
  have nn: "snd (page_zalloc hs m) \<noteq> NULL" "pages_avail hs m1 = pages_avail hs m - 1"
    using pages.zalloc_avail [OF inv] av z by auto
  have same: "m1 x = m x" if "L t = Some p" "inside x t" for t p x
    using pages.zalloc_frame [OF inv pt_shape_owned [OF shape that(1)] that(2)] z by simp
  have own: "page_owned hs m1 t" if "page_owned hs m t" for t using pages.zalloc_owned [OF inv nn(1)] that z by simp
  have "pt_shape L (page_owned hs m) m1 pt" using pt_leaf_cong(2) [OF shape same] .
  then have "pt_shape L (page_owned hs m1) m1 pt" using own by (auto simp: pt_shape_def)
  then have wf1: "pt_wf hs m1 pt" using pages.zalloc_inv [OF inv] z by (auto simp: pt_wf_def)
  have leaf1: "pt_leaf m1 pt w = pt_leaf m pt w" for w using pt_leaf_cong(1) [OF shape same] .
  have set: "mmu_set hs m1 pt v pg (6 OR 1) = (m2, r)" using map by (simp add: mmu_map_def)
  have "pt_missing m1 pt v \<le> pages_avail hs m1" using pt_missing_le [of m1 pt v] av nn(2) by simp
  note l = mmu_set_leaf [OF wf1 this set]
  show "pt_wf hs m2 pt" by (rule l(2))
  show "pt_leaf m2 pt w = (if same_page w v then make_entry pg 7 else pt_leaf m pt w)"
    using l(3) [of w] leaf1 by simp
qed

text \<open>
  C4: The kernel's start with enough pages ends with its page table in place. Every page of its
  sections and of the devices is mapped to itself, with the flags of the last range mapped over it;
  nothing else but the first page of the kernel heap is mapped, and no page is both writable and
  executable. The kernel heap consists of one free block that fills its first page.
\<close>

theorem boot_identity_map:
  assumes ok: "heap_ok hs" and spare: "phys s (heap_start hs + bookkeeping_bytes hs) = 0 \<or> 4 dvd npages hs"
    and regions: "list_all region_ok (kernel_regions hs sy)" and h: "kernel_heap_vaddr s = 0x120000000"
    and budget: "nbook hs + regions_tables (kernel_regions hs sy) + 4 \<le> npages hs div 10"
  shows "\<exists>s'. boot_memory hs sy s = Some s' \<and> pt_wf hs (phys s') (kernel_mmu_table s') \<and>
    heap_inv s' [0x120000018] \<and> al_size (nodes s' 0x120000018) = 4048 \<and>
    (\<forall>w. unat w < 2 ^ 39 \<longrightarrow> pt_leaf (phys s') (kernel_mmu_table s') w AND 12 \<noteq> 12 \<and>
      (\<not> same_page w 0x120000000 \<longrightarrow>
        (case region_of (kernel_regions hs sy) w of
           None \<Rightarrow> mmu_translate (phys s') (kernel_mmu_table s') w = - 1
         | Some r \<Rightarrow> mmu_translate (phys s') (kernel_mmu_table s') w = w \<and>
             pt_leaf (phys s') (kernel_mmu_table s') w AND 0x3FF = snd (snd r) OR 1)))"
proof -
  let ?rs = "kernel_regions hs sy" and ?v = "0x120000000 :: u64"
  obtain m0 where m0: "page_init hs (phys s) = Some m0" "page_wf hs m0" "pages_avail hs m0 = npages hs div 10 - nbook hs"
    using page_init_avail [where m = "phys s", OF ok spare] .
  obtain m1 pt where z: "page_zalloc hs m0 = (m1, pt)" by fastforce
  have "0 < pages_avail hs m0" using m0(3) budget by simp
  note t1 = new_table_at [OF ok m0(2) this z]
  have "regions_tables ?rs \<le> pages_avail hs m1" using t1(2) m0(3) budget by simp
  from map_regions_leaf [OF t1(1) regions this] obtain m2 L2 where m2: "map_regions hs m1 pt ?rs = Some m2" "pt_at hs L2 m2 pt"
    "pages_avail hs m1 \<le> pages_avail hs m2 + regions_tables ?rs"
    "\<And>w. unat w < 2 ^ 39 \<Longrightarrow> pt_leaf m2 pt w =
       (case region_of ?rs w of None \<Rightarrow> 0 | Some r \<Rightarrow> make_entry (page_of w) (snd (snd r) OR 1))"
    unfolding t1(3) by blast
  have av2: "3 \<le> pages_avail hs m2" using m2(3) t1(2) m0(3) budget by simp
  obtain m3 pg where z3: "page_zalloc hs m2 = (m3, pg)" by fastforce
  obtain m4 r4 where map4: "mmu_map hs m3 pt ?v pg 6 = (m4, r4)" by fastforce
  define s' where "s' = init_kernel_heap hs (s\<lparr>phys := m2, kernel_mmu_table := pt\<rparr>)"
  have boot: "boot_memory hs sy s = Some s'" by (simp add: boot_memory_def m0(1) z m2(1) s'_def)
  have s': "phys s' = m4" "kernel_mmu_table s' = pt" using h by (simp_all add: s'_def init_kernel_heap_def z3 map4)
  note l = heap_page_leaf [OF m2(2) av2 z3 map4]
  have heap: "heap_inv s' [0x120000018]" "al_size (nodes s' 0x120000018) = 4048"
    using init_kernel_heap_inv [of "s\<lparr>phys := m2, kernel_mmu_table := pt\<rparr>" ?v hs] h by (simp_all add: s'_def)
  have wx: "pt_leaf m4 pt w AND 12 \<noteq> 12" and "\<not> same_page w ?v \<Longrightarrow>
      (case region_of ?rs w of None \<Rightarrow> mmu_translate m4 pt w = - 1
       | Some r \<Rightarrow> mmu_translate m4 pt w = w \<and> pt_leaf m4 pt w AND 0x3FF = snd (snd r) OR 1)"
    if w: "unat w < 2 ^ 39" for w
    using identity_leaf [OF l(1) w l(2) [of w, unfolded m2(4) [OF w]] regions kernel_regions_bits] by blast+
  then show ?thesis using boot heap l(1) unfolding s' [symmetric] by blast
qed

section \<open>A machine with 16 megabytes of heap\<close>

definition demo_boot_heap :: heap_syms where
  "demo_boot_heap = \<lparr>heap_start = 0x80400000, heap_end = 0x81400000\<rparr>"

definition demo_sections :: section_syms where
  "demo_sections = \<lparr>text_start = 0x80050000, text_end = 0x80060010, data_start = 0x80070000, data_end = 0x80071000,
     rodata_start = 0x80068000, rodata_end = 0x80069000, bss_start = 0x80061000, bss_end = 0x80064000,
     stack_start = 0x80072000, stack_end = 0x80082000\<rparr>"

definition demo_kernel :: kheap where
  "demo_kernel = \<lparr>nodes = (\<lambda>_. \<lparr>al_size = 0, al_prev = 0, al_next = 0\<rparr>), kmalloc_head = 0, kernel_heap_vaddr = 0x120000000,
     heap_bytes = (\<lambda>_. 0), phys = (\<lambda>_. 0), kernel_mmu_table = 0, number_of_frees = 0\<rparr>"

theorem boot_identity_map_witness:
  "\<exists>s'. boot_memory demo_boot_heap demo_sections demo_kernel = Some s' \<and>
     mmu_translate (phys s') (kernel_mmu_table s') 0x80050123 = 0x80050123 \<and>
     pt_leaf (phys s') (kernel_mmu_table s') 0x80050123 AND 0x3FF = 11 \<and>
     mmu_translate (phys s') (kernel_mmu_table s') 0x10000 = - 1"
proof -
  let ?rs = "kernel_regions demo_boot_heap demo_sections"
  have ok: "heap_ok demo_boot_heap" by (simp add: heap_ok_def demo_boot_heap_def total_pages_def heap_memory_def)
  have np: "npages demo_boot_heap = 4096" "nbytes demo_boot_heap = 1024"
    by (simp_all add: demo_boot_heap_def total_pages_def heap_memory_def bookkeeping_bytes_def)
  have nb: "nbook demo_boot_heap = 1" using unat_round_bookkeeping(2) [OF ok] by (simp add: np)
  have regions: "list_all region_ok ?rs"
    by (simp add: kernel_regions_def region_ok_def demo_boot_heap_def demo_sections_def)
  have budget: "nbook demo_boot_heap + regions_tables ?rs + 4 \<le> npages demo_boot_heap div 10"
    unfolding nb np by (simp add: regions_tables_def kernel_regions_def region_pages_def tables_needed_def Let_def
        demo_boot_heap_def demo_sections_def)
  have spare: "phys demo_kernel (heap_start demo_boot_heap + bookkeeping_bytes demo_boot_heap) = 0 \<or> 4 dvd npages demo_boot_heap"
    by (simp add: demo_kernel_def)
  have far: "\<not> same_page 0x80050123 0x120000000" "\<not> same_page 0x10000 0x120000000" by (simp_all add: same_page_def vpn_def)
  have of: "region_of ?rs 0x80050123 = Some (0x80050000, 0x10010, 10)" "region_of ?rs 0x10000 = None"
    by (simp_all add: region_of_def kernel_regions_def region_pages_def in_pages_def demo_boot_heap_def demo_sections_def)
  obtain s' where s': "boot_memory demo_boot_heap demo_sections demo_kernel = Some s'"
    "\<forall>w. unat w < 2 ^ 39 \<longrightarrow> \<not> same_page w 0x120000000 \<longrightarrow>
        (case region_of ?rs w of
           None \<Rightarrow> mmu_translate (phys s') (kernel_mmu_table s') w = - 1
         | Some r \<Rightarrow> mmu_translate (phys s') (kernel_mmu_table s') w = w \<and>
             pt_leaf (phys s') (kernel_mmu_table s') w AND 0x3FF = snd (snd r) OR 1)"
    using boot_identity_map [of demo_boot_heap demo_kernel, OF ok spare regions _ budget] by (auto simp: demo_kernel_def)
  show ?thesis
    using s'(1) s'(2) [rule_format, of "0x80050123", unfolded of] s'(2) [rule_format, of "0x10000", unfolded of] far by simp
qed

end
