(* ===== verification/Pcie.thy ===== *)
theory Pcie
  imports Kernel_Prelude
begin

text \<open>
  PCIe devices, \<^verbatim>\<open>src/pcie.c\<close>: the addresses of configuration spaces, the list of memory windows given
  to base address registers (BARs), the lists of drivers and of interrupt handlers. The
  configuration space of a device is a record of the registers that are used and the bytes of its
  capabilities. A list of nodes with fresh addresses is a list. \<open>None\<close> is an access outside an array
  or a capability list without end. The scan of all buses is not modelled: what a read of a register
  returns after a write, and which devices a bridge makes visible, is decided by the hardware.
\<close>

unbundle bit_operations_syntax

section \<open>Configuration spaces\<close>

definition pcie_get_ecam_address :: "u32 \<Rightarrow> u32 \<Rightarrow> u32 \<Rightarrow> u32 \<Rightarrow> u64" where
  "pcie_get_ecam_address bus device function reg =
     (let bus_64 = ucast (bus AND 0xff); device_64 = ucast (device AND 0x1f);
          function_64 = ucast (function AND 0x07); reg_64 = ucast (reg AND 0x3ff)
      in 0x30000000 OR push_bit 20 bus_64 OR push_bit 15 device_64 OR push_bit 12 function_64 OR push_bit 2 reg_64)"

definition pcie_get_bus :: "u64 \<Rightarrow> u32" where
  "pcie_get_bus addr = ucast (drop_bit 20 (addr AND push_bit 20 0xff))"

definition pcie_get_slot :: "u64 \<Rightarrow> u32" where
  "pcie_get_slot addr = ucast (drop_bit 15 (addr AND push_bit 15 0x1f))"

definition pcie_ecam_to_irq :: "u64 \<Rightarrow> u32" where
  "pcie_ecam_to_irq ec = 32 + (pcie_get_bus ec + pcie_get_slot ec) mod 4"

record ecam_header =
  ec_address :: u64
  ec_vendor_id :: u16
  ec_device_id :: u16
  ec_command_reg :: u16
  ec_status_reg :: u16
  ec_capes_pointer :: u8
  ec_bar :: "u32 list"
  ec_bytes :: "nat \<Rightarrow> u8"

record ecam_bridge =
  br_command_reg :: u16
  br_memory_base :: u16
  br_memory_limit :: u16
  br_prefetch_memory_base :: u16
  br_prefetch_memory_limit :: u16
  br_primary_bus_no :: u8
  br_secondary_bus_no :: u8
  br_subordinate_bus_no :: u8

text \<open>The number of the next bus is a static variable of \<open>pcie_init_bridge\<close>.\<close>

definition pcie_init_bridge :: "ecam_bridge \<Rightarrow> nat \<Rightarrow> nat \<Rightarrow> ecam_bridge \<times> nat" where
  "pcie_init_bridge ec bus pcie_bridge_bus_number =
     (ec\<lparr>br_command_reg := br_command_reg ec OR 2 OR 4, br_memory_base := 0x4000, br_memory_limit := 0x4FFF,
        br_prefetch_memory_base := 0x4000, br_prefetch_memory_limit := 0x4FFF, br_primary_bus_no := of_nat bus,
        br_secondary_bus_no := of_nat pcie_bridge_bus_number, br_subordinate_bus_no := of_nat pcie_bridge_bus_number\<rparr>,
      pcie_bridge_bus_number + 1)"

section \<open>Memory windows\<close>

record bar_entry =
  be_vendor :: u16
  be_device :: u16
  be_which_bar :: u16
  be_which_irq :: u16
  be_offsets :: "u32 list"

record bar_allocation =
  al_which_bar :: u32
  al_offsets :: "u32 list"

abbreviation (input) NO_BAR :: u32 where "NO_BAR \<equiv> 0xFFFFFFFF"

definition PCIE_BAR_IS_64_BIT :: "u32 \<Rightarrow> bool" where
  "PCIE_BAR_IS_64_BIT x \<longleftrightarrow> x AND 6 = 4"

text \<open>The first of the sixteen entries without a vendor, or the position after them.\<close>

fun free_entry :: "bar_entry list \<Rightarrow> nat \<Rightarrow> nat" where
  "free_entry [] i = i"
| "free_entry (e # es) i = (if be_vendor e = 0 then i else free_entry es (i + 1))"

definition pcie_add_to_bar_list ::
    "bar_entry list \<Rightarrow> ecam_header \<Rightarrow> bar_allocation \<Rightarrow> (bar_entry list \<times> ecam_header) option" where
  "pcie_add_to_bar_list occupied ec al =
     (let which_bar = al_which_bar al in
      if which_bar = NO_BAR then Some (occupied, ec)
      else
        (let i = free_entry occupied 0 in
         if i \<ge> length occupied \<or> unat which_bar \<ge> length (ec_bar ec) \<or>
            PCIE_BAR_IS_64_BIT (ec_bar ec ! unat which_bar) \<and> unat which_bar + 1 \<ge> length (ec_bar ec) then None
         else
           (let entry = \<lparr>be_vendor = ec_vendor_id ec, be_device = ec_device_id ec, be_which_bar = ucast which_bar,
                  be_which_irq = ucast (pcie_ecam_to_irq (ec_address ec)), be_offsets = al_offsets al\<rparr>;
                bars = (if PCIE_BAR_IS_64_BIT (ec_bar ec ! unat which_bar) then (ec_bar ec)[unat which_bar + 1 := 0] else ec_bar ec)
            in Some (occupied[i := entry],
                     ec\<lparr>ec_bar := bars[unat which_bar := 0x40000000 + 0x00100000 * of_nat i]\<rparr>))))"

text \<open>
  The walk over the capabilities: the pointer moves before the identifier is looked at, so the first
  one is not seen. For a vendor-specific one the offset and BAR of its configuration type are noted.
\<close>

definition cap_offset :: "ecam_header \<Rightarrow> nat \<Rightarrow> u32" where
  "cap_offset ec cp = ucast (ec_bytes ec (cp + 8)) OR push_bit 8 (ucast (ec_bytes ec (cp + 9))) OR
     push_bit 16 (ucast (ec_bytes ec (cp + 10))) OR push_bit 24 (ucast (ec_bytes ec (cp + 11)))"

partial_function (option) walk_caps ::
    "ecam_header \<Rightarrow> nat \<Rightarrow> u32 list \<Rightarrow> u32 list \<Rightarrow> (u32 list \<times> u32 list) option" where
  "walk_caps ec cp offsets bars =
     (if cp \<noteq> 0 then
        (let cp1 = unat (ec_bytes ec (cp + 1)) in
         if ec_bytes ec cp1 = 9 then
           (let index = unat (ec_bytes ec (cp1 + 3)) in
            if index \<ge> 6 then None
            else walk_caps ec cp1 (offsets[index := cap_offset ec cp1]) (bars[index := ucast (ec_bytes ec (cp1 + 4))]))
         else walk_caps ec cp1 offsets bars)
      else Some (offsets, bars))"

text \<open>The allocations of the six BARs from what the walk found, without the PCI configuration, type 5.\<close>

fun collect_bars :: "u32 list \<Rightarrow> u32 list \<Rightarrow> nat list \<Rightarrow> bar_allocation list \<Rightarrow> bar_allocation list option" where
  "collect_bars offsets bars [] als = Some als"
| "collect_bars offsets bars (i # is) als =
     (if i = 5 then collect_bars offsets bars is als
      else if bars ! i = NO_BAR then collect_bars offsets bars is als
      else if unat (bars ! i) \<ge> length als then None
      else
        (let b = unat (bars ! i); al = als ! b
         in collect_bars offsets bars is
              (als[b := al\<lparr>al_which_bar := bars ! i, al_offsets := (al_offsets al)[i := offsets ! i]\<rparr>])))"

fun add_bars :: "bar_entry list \<Rightarrow> ecam_header \<Rightarrow> bar_allocation list \<Rightarrow> (bar_entry list \<times> ecam_header) option" where
  "add_bars occupied ec [] = Some (occupied, ec)"
| "add_bars occupied ec (al # als) =
     (case pcie_add_to_bar_list occupied ec al of None \<Rightarrow> None | Some (o1, ec1) \<Rightarrow> add_bars o1 ec1 als)"

definition pcie_init_bars :: "bar_entry list \<Rightarrow> ecam_header \<Rightarrow> (bar_entry list \<times> ecam_header) option" where
  "pcie_init_bars occupied ec =
     (if ec_status_reg ec AND 16 \<noteq> 0 then
        (case walk_caps ec (unat (ec_capes_pointer ec)) (replicate 6 NO_BAR) (replicate 6 NO_BAR) of
           None \<Rightarrow> None
         | Some (offsets, bars) \<Rightarrow>
             (case collect_bars offsets bars [0..<6] (replicate 6 \<lparr>al_which_bar = NO_BAR, al_offsets = replicate 6 NO_BAR\<rparr>) of
                None \<Rightarrow> None
              | Some als \<Rightarrow> add_bars occupied ec als))
      else Some (occupied, ec))"

section \<open>Drivers and interrupts\<close>

record pcie_driver =
  drv_vendor_id :: u16
  drv_device_id :: u16
  drv_func :: nat

definition pcie_find_driver :: "pcie_driver list \<Rightarrow> u16 \<Rightarrow> u16 \<Rightarrow> pcie_driver option" where
  "pcie_find_driver drivers vendor_id device_id =
     find (\<lambda>pl. drv_vendor_id pl = vendor_id \<and> drv_device_id pl = device_id) drivers"

definition pcie_register_driver :: "pcie_driver list \<Rightarrow> u16 \<Rightarrow> u16 \<Rightarrow> nat \<Rightarrow> pcie_driver list" where
  "pcie_register_driver drivers vendor_id device_id func =
     (if pcie_find_driver drivers vendor_id device_id \<noteq> None then drivers
      else \<lparr>drv_vendor_id = vendor_id, drv_device_id = device_id, drv_func = func\<rparr> # drivers)"

text \<open>The addresses of the four driver functions are arguments.\<close>

definition pcie_init_drivers :: "nat \<Rightarrow> nat \<Rightarrow> nat \<Rightarrow> nat \<Rightarrow> pcie_driver list \<Rightarrow> pcie_driver list" where
  "pcie_init_drivers rng block gpu inp drivers =
     (let d1 = pcie_register_driver drivers 0x1af4 0x1044 rng;
          d2 = pcie_register_driver d1 0x1af4 0x1042 block;
          d3 = pcie_register_driver d2 0x1af4 0x1050 gpu
      in pcie_register_driver d3 0x1af4 0x1052 inp)"

text \<open>A handler is what it does to the state.\<close>

fun pcie_register_irq :: "(u32 \<times> ('s \<Rightarrow> 's)) list \<Rightarrow> u32 \<Rightarrow> ('s \<Rightarrow> 's) \<Rightarrow> (u32 \<times> ('s \<Rightarrow> 's)) list" where
  "pcie_register_irq [] which_irq handler = [(which_irq, handler)]"
| "pcie_register_irq (p # ps) which_irq handler = p # pcie_register_irq ps which_irq handler"

fun pcie_handle_irq :: "(u32 \<times> ('s \<Rightarrow> 's)) list \<Rightarrow> u32 \<Rightarrow> 's \<Rightarrow> 's" where
  "pcie_handle_irq [] which_irq s = s"
| "pcie_handle_irq ((irq, handler) # ps) which_irq s =
     pcie_handle_irq ps which_irq (if irq = which_irq then handler s else s)"

section \<open>Addresses\<close>

lemma field_bits:
  "0xff = (mask 8 :: 'a :: len word)" "0x1f = (mask 5 :: 'a word)" "0x07 = (mask 3 :: 'a word)" "0x3ff = (mask 10 :: 'a word)"
  "0x30000000 = (push_bit 28 (mask 2) :: u64)"
  by (simp_all add: mask_eq_exp_minus_1 push_bit_eq_mult)

lemma ecam_bit:
  assumes "15 \<le> n" and "n < 28"
  shows "bit (pcie_get_ecam_address bus device 0 0) n =
    (if n < 20 then bit device (n - 15) else bit bus (n - 20))"
  using assms unfolding pcie_get_ecam_address_def Let_def field_bits
  by (auto simp: bit_simps)

lemma small_word_bit:
  assumes "unat (x :: u32) < 2 ^ k" and "bit x n"
  shows "n < k"
proof (rule ccontr)
  assume "\<not> n < k"
  moreover have "take_bit k (unat x) = unat x" using assms(1) by (simp add: take_bit_nat_eq_self)
  ultimately have "\<not> bit (unat x) n" by (metis bit_take_bit_iff)
  then show False using assms(2) by (simp add: bit_unsigned_iff possible_bit_less_imp)
qed

text \<open>Bus and slot can be read off the address of a configuration space.\<close>

lemma pcie_ecam_roundtrip:
  assumes "unat bus < 2 ^ 8" and "unat device < 2 ^ 5"
  shows "pcie_get_bus (pcie_get_ecam_address bus device 0 0) = bus"
    "pcie_get_slot (pcie_get_ecam_address bus device 0 0) = device"
proof -
  have "bit (pcie_get_bus (pcie_get_ecam_address bus device 0 0)) n = bit bus n" if "n < 32" for n
    using that small_word_bit [OF assms(1), of n] ecam_bit [of "20 + n" bus device]
    unfolding pcie_get_bus_def field_bits by (auto simp: bit_simps)
  then show "pcie_get_bus (pcie_get_ecam_address bus device 0 0) = bus" by (intro bit_word_eqI) simp
  have "bit (pcie_get_slot (pcie_get_ecam_address bus device 0 0)) n = bit device n" if "n < 32" for n
    using that small_word_bit [OF assms(2), of n] ecam_bit [of "15 + n" bus device]
    unfolding pcie_get_slot_def field_bits by (auto simp: bit_simps)
  then show "pcie_get_slot (pcie_get_ecam_address bus device 0 0) = device" by (intro bit_word_eqI) simp
qed

section \<open>Windows are disjoint and nobody's entry is overwritten\<close>

text \<open>The entries in use come first.\<close>

definition packed :: "bar_entry list \<Rightarrow> nat \<Rightarrow> bool" where
  "packed occupied n \<longleftrightarrow> n \<le> length occupied \<and> (\<forall>i < length occupied. be_vendor (occupied ! i) \<noteq> 0 \<longleftrightarrow> i < n)"

lemma free_entry_packed:
  "packed occupied n \<Longrightarrow> free_entry occupied i = i + n"
proof (induction occupied arbitrary: i n)
  case Nil
  then show ?case by (simp add: packed_def)
next
  case (Cons e es)
  show ?case
  proof (cases n)
    case 0
    then show ?thesis using Cons.prems by (force simp: packed_def)
  next
    case (Suc k)
    then have "be_vendor e \<noteq> 0" using Cons.prems unfolding packed_def by force
    moreover have "packed es k" using Cons.prems Suc unfolding packed_def by (auto simp: nth_Cons' split: if_splits)
    ultimately show ?thesis using Cons.IH Suc by simp
  qed
qed

text \<open>Windows given to a sequence of devices, each with one BAR, by \<open>pcie_add_to_bar_list\<close>.\<close>

fun add_devices ::
    "bar_entry list \<Rightarrow> (ecam_header \<times> bar_allocation) list \<Rightarrow> (bar_entry list \<times> ecam_header list) option" where
  "add_devices occupied [] = Some (occupied, [])"
| "add_devices occupied ((ec, al) # ds) =
     (case pcie_add_to_bar_list occupied ec al of
        None \<Rightarrow> None
      | Some (o1, ec1) \<Rightarrow> map_option (\<lambda>(o2, ecs). (o2, ec1 # ecs)) (add_devices o1 ds))"

definition usable :: "ecam_header \<times> bar_allocation \<Rightarrow> bool" where
  "usable d \<longleftrightarrow> ec_vendor_id (fst d) \<noteq> 0 \<and> unat (al_which_bar (snd d)) + 1 < length (ec_bar (fst d)) \<and> al_which_bar (snd d) \<noteq> NO_BAR"

lemma add_one:
  assumes "packed occupied n" and "usable (ec, al)" and "n < length occupied"
  shows "\<exists>o1 ec1. pcie_add_to_bar_list occupied ec al = Some (o1, ec1) \<and> packed o1 (n + 1) \<and> length o1 = length occupied \<and>
    (\<forall>i. i \<noteq> n \<longrightarrow> o1 ! i = occupied ! i) \<and>
    be_vendor (o1 ! n) = ec_vendor_id ec \<and> be_device (o1 ! n) = ec_device_id ec \<and> be_which_irq (o1 ! n) = ucast (pcie_ecam_to_irq (ec_address ec)) \<and>
    ec_bar ec1 ! unat (al_which_bar al) = 0x40000000 + 0x00100000 * of_nat n"
  using assms free_entry_packed [OF assms(1), of 0]
  by (auto simp: pcie_add_to_bar_list_def Let_def usable_def packed_def nth_list_update)

lemma add_devices_packed:
  assumes "packed occupied n" and "list_all usable ds" and "n + length ds \<le> length occupied"
  shows "\<exists>o1 ecs. add_devices occupied ds = Some (o1, ecs) \<and> length ecs = length ds \<and> length o1 = length occupied \<and>
    (\<forall>i < n. o1 ! i = occupied ! i) \<and>
    (\<forall>k < length ds. be_vendor (o1 ! (n + k)) = ec_vendor_id (fst (ds ! k)) \<and> be_device (o1 ! (n + k)) = ec_device_id (fst (ds ! k)) \<and>
      be_which_irq (o1 ! (n + k)) = ucast (pcie_ecam_to_irq (ec_address (fst (ds ! k)))) \<and>
      ec_bar (ecs ! k) ! unat (al_which_bar (snd (ds ! k))) = 0x40000000 + 0x00100000 * of_nat (n + k))"
  using assms
proof (induction ds arbitrary: occupied n)
  case (Cons d ds)
  obtain ec al where d: "d = (ec, al)" by (cases d)
  have "n < length occupied" "usable (ec, al)" using Cons.prems d by simp_all
  from add_one [OF Cons.prems(1) this(2,1)] obtain o1 ec1 where
    one: "pcie_add_to_bar_list occupied ec al = Some (o1, ec1)" "packed o1 (n + 1)" "length o1 = length occupied"
      "\<forall>i. i \<noteq> n \<longrightarrow> o1 ! i = occupied ! i" "be_vendor (o1 ! n) = ec_vendor_id ec" "be_device (o1 ! n) = ec_device_id ec"
      "be_which_irq (o1 ! n) = ucast (pcie_ecam_to_irq (ec_address ec))"
      "ec_bar ec1 ! unat (al_which_bar al) = 0x40000000 + 0x00100000 * of_nat n" by blast
  obtain o2 ecs where rest: "add_devices o1 ds = Some (o2, ecs)" "length ecs = length ds" "length o2 = length o1"
      "\<forall>i < n + 1. o2 ! i = o1 ! i"
      "\<forall>k < length ds. be_vendor (o2 ! (n + 1 + k)) = ec_vendor_id (fst (ds ! k)) \<and> be_device (o2 ! (n + 1 + k)) = ec_device_id (fst (ds ! k)) \<and>
        be_which_irq (o2 ! (n + 1 + k)) = ucast (pcie_ecam_to_irq (ec_address (fst (ds ! k)))) \<and>
        ec_bar (ecs ! k) ! unat (al_which_bar (snd (ds ! k))) = 0x40000000 + 0x00100000 * of_nat (n + 1 + k)"
    using Cons.IH [OF one(2)] Cons.prems one(3) by auto
  have "add_devices occupied (d # ds) = Some (o2, ec1 # ecs)" using one(1) rest(1) d by simp
  moreover have "be_vendor (o2 ! (n + k)) = ec_vendor_id (fst ((d # ds) ! k)) \<and> be_device (o2 ! (n + k)) = ec_device_id (fst ((d # ds) ! k)) \<and>
      be_which_irq (o2 ! (n + k)) = ucast (pcie_ecam_to_irq (ec_address (fst ((d # ds) ! k)))) \<and>
      ec_bar ((ec1 # ecs) ! k) ! unat (al_which_bar (snd ((d # ds) ! k))) = 0x40000000 + 0x00100000 * of_nat (n + k)"
    if "k < length (d # ds)" for k
    using that one rest d by (cases k) auto
  ultimately show ?case using rest one by (intro exI [of _ o2] exI [of _ "ec1 # ecs"]) auto
qed simp

text \<open>
  Given to up to sixteen devices one after the other, each by the address of its own entry in the
  list, the windows of one megabyte in which the devices' registers appear do not overlap: the
  base address registers hold different multiples of a megabyte from \<open>0x40000000\<close> on. The list
  holds, for every window, the identity and the interrupt of its device.
\<close>

theorem pcie_windows_disjoint:
  assumes "occupied = replicate 16 e" and "be_vendor e = 0" and "list_all usable ds" and "length ds \<le> 16"
  shows "\<exists>o1 ecs. add_devices occupied ds = Some (o1, ecs) \<and> length ecs = length ds \<and>
    (\<forall>j < length ds. \<forall>k < length ds. j \<noteq> k \<longrightarrow>
       ec_bar (ecs ! j) ! unat (al_which_bar (snd (ds ! j))) \<noteq> ec_bar (ecs ! k) ! unat (al_which_bar (snd (ds ! k)))) \<and>
    (\<forall>k < length ds. ec_bar (ecs ! k) ! unat (al_which_bar (snd (ds ! k))) = 0x40000000 + 0x00100000 * of_nat k \<and>
       be_vendor (o1 ! k) = ec_vendor_id (fst (ds ! k)) \<and> be_device (o1 ! k) = ec_device_id (fst (ds ! k)) \<and>
       be_which_irq (o1 ! k) = ucast (pcie_ecam_to_irq (ec_address (fst (ds ! k)))))"
proof -
  have "packed occupied 0" "0 + length ds \<le> length occupied" using assms by (simp_all add: packed_def)
  from add_devices_packed [OF this(1) assms(3) this(2)] obtain o1 ecs where
    o1: "add_devices occupied ds = Some (o1, ecs)" "length ecs = length ds"
      "\<forall>k < length ds. be_vendor (o1 ! k) = ec_vendor_id (fst (ds ! k)) \<and> be_device (o1 ! k) = ec_device_id (fst (ds ! k)) \<and>
      be_which_irq (o1 ! k) = ucast (pcie_ecam_to_irq (ec_address (fst (ds ! k)))) \<and>
      ec_bar (ecs ! k) ! unat (al_which_bar (snd (ds ! k))) = 0x40000000 + 0x00100000 * of_nat k" by auto
  have "(0x40000000 + 0x00100000 * of_nat j :: u32) \<noteq> 0x40000000 + 0x00100000 * of_nat k" if "j < 16" "k < 16" "j \<noteq> k" for j k
  proof -
    have "unat (0x00100000 * of_nat i :: u32) = 0x00100000 * i" if "i < 16" for i
      using that by (simp add: unat_word_ariths unat_of_nat)
    then have "unat (0x00100000 * of_nat j :: u32) \<noteq> unat (0x00100000 * of_nat k :: u32)" using that by simp
    then show ?thesis by auto
  qed
  then show ?thesis using o1 assms(4) by (intro exI [of _ o1] exI [of _ ecs]) auto
qed

lemma pcie_register_irq_snoc: "pcie_register_irq ps i h = ps @ [(i, h)]"
  by (induction ps) auto

lemma pcie_handle_irq_fold:
  "pcie_handle_irq ps irq s = fold (\<lambda>h. h) (map snd (filter (\<lambda>p. fst p = irq) ps)) s"
  by (induction ps irq s rule: pcie_handle_irq.induct) auto

text \<open>
  An interrupt runs exactly the handlers registered for it, in the order in which they were
  registered.
\<close>

theorem pcie_irq_dispatch:
  "pcie_handle_irq (fold (\<lambda>(i, h) ps. pcie_register_irq ps i h) regs []) irq s =
   fold (\<lambda>h. h) (map snd (filter (\<lambda>p. fst p = irq) regs)) s"
proof -
  have "fold (\<lambda>(i, h) ps. pcie_register_irq ps i h) regs ps = ps @ regs" for ps
    by (induction regs arbitrary: ps) (auto simp: pcie_register_irq_snoc)
  then show ?thesis by (simp add: pcie_handle_irq_fold)
qed

definition demo_ec :: "u16 \<Rightarrow> u64 \<Rightarrow> ecam_header" where
  "demo_ec dev a = \<lparr>ec_address = a, ec_vendor_id = 0x1af4, ec_device_id = dev, ec_command_reg = 0, ec_status_reg = 16,
     ec_capes_pointer = 0, ec_bar = [0, 0, 0, 0, 12, 0], ec_bytes = (\<lambda>_. 0)\<rparr>"

theorem pcie_windows_disjoint_witness:
  "\<exists>o1 ecs. add_devices (replicate 16 \<lparr>be_vendor = 0, be_device = 0, be_which_bar = 0, be_which_irq = 0, be_offsets = []\<rparr>)
      [(demo_ec 0x1050 0x30008000, \<lparr>al_which_bar = 4, al_offsets = []\<rparr>), (demo_ec 0x1052 0x30010000, \<lparr>al_which_bar = 4, al_offsets = []\<rparr>)] =
      Some (o1, ecs) \<and> ec_bar (ecs ! 1) ! 4 = 0x40100000"
  using pcie_windows_disjoint [OF refl, of "\<lparr>be_vendor = 0, be_device = 0, be_which_bar = 0, be_which_irq = 0, be_offsets = []\<rparr>"
      "[(demo_ec 0x1050 0x30008000, \<lparr>al_which_bar = 4, al_offsets = []\<rparr>), (demo_ec 0x1052 0x30010000, \<lparr>al_which_bar = 4, al_offsets = []\<rparr>)]"]
  by (auto simp: usable_def demo_ec_def)

end
