(* ===== verification/Input.thy ===== *)
theory Input
  imports Ring Lock
begin

text \<open>
  The interrupt handler of the input driver, \<^verbatim>\<open>src/input.c\<close>: the events that the devices have written
  to memory since the last interrupt are pushed on the ring of input events. The registers and
  queues that a device writes are fields of its record, with their values at the interrupt; the
  memory with the event buffers is an argument. A wait for a held mutex is \<open>None\<close>. The set-up of the
  devices is not modelled.
\<close>

section \<open>Model\<close>

record input_device =
  in_queue_interrupt :: bool
  in_queue_size :: u16
  in_requests_idx :: u16
  in_acknowledged_idx :: u16
  in_device_idx :: u16
  in_driver_idx :: u16
  in_descriptor :: "u16 \<Rightarrow> u64"

definition event_at :: "mem \<Rightarrow> u64 \<Rightarrow> input_event" where
  "event_at m a = \<lparr>ev_type = load16 m a, ev_code = load16 m (a + 2), ev_value = load32 m (a + 4)\<rparr>"

text \<open>The loop over the events of one device. It ends, since the index runs through all 16-bit numbers.\<close>

function input_drain :: "mem \<Rightarrow> input_device \<Rightarrow> ie_ring_buffer \<Rightarrow> input_device \<times> ie_ring_buffer" where
  "input_drain m d rb =
     (if in_acknowledged_idx d \<noteq> in_device_idx d then
        (let desc_idx = in_acknowledged_idx d mod in_queue_size d;
             event_paddr = in_descriptor d desc_idx;
             event = event_at m event_paddr
         in input_drain m
              (d\<lparr>in_acknowledged_idx := in_acknowledged_idx d + 1, in_driver_idx := in_driver_idx d + 1,
                 in_requests_idx := in_requests_idx d + 1\<rparr>)
              (fst (ie_ring_buffer_push rb event)))
      else (d, rb))"
  by auto
termination
proof (relation "measure (\<lambda>(m, d, rb). unat (in_device_idx d - in_acknowledged_idx d))", goal_cases)
  case (2 m d rb x xa xb)
  then have "in_device_idx d - in_acknowledged_idx d \<noteq> 0" by simp
  then have "unat (in_device_idx d - in_acknowledged_idx d - 1) < unat (in_device_idx d - in_acknowledged_idx d)"
    by (simp add: measure_unat)
  then show ?case by (simp add: algebra_simps)
qed simp

declare input_drain.simps [simp del]

fun input_devices_from :: "mem \<Rightarrow> input_device list \<Rightarrow> ie_ring_buffer \<Rightarrow> input_device list \<times> ie_ring_buffer" where
  "input_devices_from m [] rb = ([], rb)"
| "input_devices_from m (d # ds) rb =
     (let (d1, rb1) = (if in_queue_interrupt d then input_drain m d rb else (d, rb));
          (ds1, rb2) = input_devices_from m ds rb1
      in (d1 # ds1, rb2))"

definition input_irq_handler ::
    "mem \<Rightarrow> input_device list \<Rightarrow> ie_ring_buffer \<Rightarrow> int \<Rightarrow> (input_device list \<times> ie_ring_buffer \<times> int) option" where
  "input_irq_handler m input_devices rb ie_ring_mutex =
     (case mutex_try ie_ring_mutex of (v, r) \<Rightarrow>
      if r = 0 then None
      else (let (ds, rb1) = input_devices_from m input_devices rb in Some (ds, rb1, mutex_post v)))"

section \<open>Every event is delivered once and in order\<close>

text \<open>The events a device reports, in order: those between the two indexes, which wrap at 16 bits.\<close>

definition pending_events :: "mem \<Rightarrow> input_device \<Rightarrow> input_event list" where
  "pending_events m d =
     map (\<lambda>k. event_at m (in_descriptor d ((in_acknowledged_idx d + of_nat k) mod in_queue_size d)))
       [0..<unat (in_device_idx d - in_acknowledged_idx d)]"

definition served :: "input_device \<Rightarrow> input_device" where
  "served d = d\<lparr>in_acknowledged_idx := in_device_idx d,
     in_driver_idx := in_driver_idx d + (in_device_idx d - in_acknowledged_idx d),
     in_requests_idx := in_requests_idx d + (in_device_idx d - in_acknowledged_idx d)\<rparr>"

abbreviation push_all :: "input_event list \<Rightarrow> ie_ring_buffer \<Rightarrow> ie_ring_buffer" where
  "push_all \<equiv> fold (\<lambda>ev rb. fst (ie_ring_buffer_push rb ev))"

lemma pending_step:
  assumes "in_acknowledged_idx d \<noteq> in_device_idx d"
  shows "pending_events m d = event_at m (in_descriptor d (in_acknowledged_idx d mod in_queue_size d)) #
    pending_events m (d\<lparr>in_acknowledged_idx := in_acknowledged_idx d + 1, in_driver_idx := x, in_requests_idx := y\<rparr>)"
proof -
  let ?n = "in_device_idx d - in_acknowledged_idx d"
  have "?n \<noteq> 0" using assms by simp
  then have "unat ?n = Suc (unat (?n - 1))" by (simp add: unat_minus_one unat_gt_0)
  moreover have e: "in_device_idx d - (in_acknowledged_idx d + 1) = ?n - 1" by simp
  ultimately have "[0..<unat ?n] = 0 # map Suc [0..<unat (in_device_idx d - (in_acknowledged_idx d + 1))]"
    by (simp only: map_Suc_upt upt_conv_Cons zero_less_Suc)
  then show ?thesis by (simp add: pending_events_def add.assoc o_def)
qed

lemma input_drain_eq: "input_drain m d rb = (served d, push_all (pending_events m d) rb)"
proof (induction m d rb rule: input_drain.induct)
  case (1 m d rb)
  show ?case
  proof (cases "in_acknowledged_idx d = in_device_idx d")
    case True
    then show ?thesis by (subst input_drain.simps) (simp add: served_def pending_events_def)
  next
    case False
    let ?d = "d\<lparr>in_acknowledged_idx := in_acknowledged_idx d + 1, in_driver_idx := in_driver_idx d + 1,
                 in_requests_idx := in_requests_idx d + 1\<rparr>"
    have "served ?d = served d" by (simp add: served_def algebra_simps)
    then show ?thesis
      using 1 [OF False refl refl refl] False
        pending_step [OF False, of m "in_requests_idx d + 1" "in_driver_idx d + 1"]
      by (subst input_drain.simps) (simp add: Let_def)
  qed
qed

lemma input_devices_from_eq:
  "input_devices_from m ds rb =
     (map (\<lambda>d. if in_queue_interrupt d then served d else d) ds,
      push_all (concat (map (pending_events m) (filter in_queue_interrupt ds))) rb)"
  by (induction ds arbitrary: rb) (auto simp: input_drain_eq Let_def)

lemma push_all_room:
  "rb_inv rb \<Longrightarrow> unat (rb_occupied rb) + length evs \<le> unat (rb_capacity rb) \<Longrightarrow>
   rb_inv (push_all evs rb) \<and> rb_contents (push_all evs rb) = rb_contents rb @ evs"
proof (induction evs arbitrary: rb)
  case (Cons ev evs)
  have room: "rb_occupied rb \<noteq> rb_capacity rb" using Cons.prems(2) by auto
  note p = push_room [OF Cons.prems(1) room, of ev]
  have "unat (rb_occupied (fst (ie_ring_buffer_push rb ev))) = unat (rb_occupied rb) + 1"
    using room rb_index(3) [OF Cons.prems(1)] by (simp add: ie_ring_buffer_push_def Let_def)
  then show ?case using Cons.IH [OF p(1)] p(3,4) Cons.prems(2) by simp
qed simp


text \<open>A device that has written two events, its index wrapping, with buffers 8 bytes apart at 0x100.\<close>

definition demo_input :: input_device where
  "demo_input = \<lparr>in_queue_interrupt = True, in_queue_size = 4, in_requests_idx = 3, in_acknowledged_idx = 0xffff,
     in_device_idx = 1, in_driver_idx = 3, in_descriptor = (\<lambda>k. 0x100 + 8 * ucast k)\<rparr>"


end
