(* ===== verification/Virtio.thy ===== *)
theory Virtio
  imports Block
begin

text \<open>
  Virtqueues as the drivers of the GPU and of the random number generator use them (\<^verbatim>\<open>src/gpu.c\<close>,
  \<^verbatim>\<open>src/rng.c\<close>, structures in \<^verbatim>\<open>src/include/virtio.h\<close>): descriptors linked to chains, the ring in which the
  driver offers them, and the ring in which the device returns them, with 16-bit indexes that wrap.
\<close>

unbundle bit_operations_syntax

section \<open>Queues\<close>

record virtq =
  vq_descriptor :: "nat \<Rightarrow> virtq_desc"
  vq_driver_idx :: u16
  vq_driver_ring :: "nat \<Rightarrow> u16"
  vq_device_idx :: u16
  vq_device_ring :: "nat \<Rightarrow> u32"

abbreviation (input) VIRTQ_DESC_FLAG_NEXT :: u16 where "VIRTQ_DESC_FLAG_NEXT \<equiv> 1"
abbreviation (input) VIRTQ_DESC_FLAG_WRITE :: u16 where "VIRTQ_DESC_FLAG_WRITE \<equiv> 2"

definition set_desc :: "virtq \<Rightarrow> u16 \<Rightarrow> virtq_desc \<Rightarrow> virtq" where
  "set_desc vq i d = vq\<lparr>vq_descriptor := (vq_descriptor vq)(unat i := d)\<rparr>"

text \<open>The previous descriptor of a chain is linked to the next one.\<close>

definition link_desc :: "virtq \<Rightarrow> u16 \<Rightarrow> u16 \<Rightarrow> virtq" where
  "link_desc vq prev i =
     (let d = vq_descriptor vq (unat prev)
      in set_desc vq prev (d\<lparr>vd_flags := vd_flags d OR VIRTQ_DESC_FLAG_NEXT, vd_next := i\<rparr>))"

definition publish :: "virtq \<Rightarrow> u16 \<Rightarrow> u16 \<Rightarrow> virtq" where
  "publish vq queue_size first =
     vq\<lparr>vq_driver_ring := (vq_driver_ring vq)(unat (vq_driver_idx vq mod queue_size) := first),
        vq_driver_idx := vq_driver_idx vq + 1\<rparr>"

text \<open>
  The loop that waits for a request, on the queue as the device leaves it when it has done its work.
  A loop that catches up with the device's index without having seen the request never ends.
\<close>

partial_function (option) wait_request :: "virtq \<Rightarrow> u16 \<Rightarrow> u16 \<Rightarrow> u16 \<Rightarrow> u16 option" where
  "wait_request vq queue_size want lookahead_idx =
     (if lookahead_idx \<noteq> vq_device_idx vq then
        (if vq_device_ring vq (unat (lookahead_idx mod queue_size)) = ucast want then Some (lookahead_idx + 1)
         else wait_request vq queue_size want (lookahead_idx + 1))
      else None)"

section \<open>What the device sees and does\<close>

definition newest_request :: "virtq \<Rightarrow> u16 \<Rightarrow> u16" where
  "newest_request vq queue_size = vq_driver_ring vq (unat ((vq_driver_idx vq - 1) mod queue_size))"

text \<open>The chain that starts at a descriptor, up to a length.\<close>

fun chain :: "virtq \<Rightarrow> nat \<Rightarrow> u16 \<Rightarrow> virtq_desc list" where
  "chain vq 0 i = []"
| "chain vq (Suc n) i =
     (let d = vq_descriptor vq (unat i)
      in d # (if vd_flags d AND VIRTQ_DESC_FLAG_NEXT \<noteq> 0 then chain vq n (vd_next d) else []))"

text \<open>The newest request is returned.\<close>

definition returned :: "virtq \<Rightarrow> u16 \<Rightarrow> virtq" where
  "returned vq queue_size =
     vq\<lparr>vq_device_ring := (vq_device_ring vq)(unat (vq_device_idx vq mod queue_size) := ucast (newest_request vq queue_size)),
        vq_device_idx := vq_device_idx vq + 1\<rparr>"

section \<open>Waiting ends\<close>

lemma newest_publish: "newest_request (publish vq qs first) qs = first"
  by (simp add: newest_request_def publish_def)

lemma wait_request_ends:
  assumes "vq_device_ring vq (unat ((vq_device_idx vq - 1) mod qs)) = ucast want" and "l \<noteq> vq_device_idx vq"
  shows "\<exists>l'. wait_request vq qs want l = Some l'"
  using assms(2)
proof (induction "unat (vq_device_idx vq - l)" arbitrary: l rule: less_induct)
  case less
  show ?case
  proof (cases "vq_device_ring vq (unat (l mod qs)) = ucast want")
    case False
    then have n: "l + 1 \<noteq> vq_device_idx vq" using assms(1) by (metis add_diff_cancel_right')
    have "vq_device_idx vq - l \<noteq> 0" using less.prems by simp
    then have "unat (vq_device_idx vq - l - 1) < unat (vq_device_idx vq - l)" by (simp add: measure_unat)
    then have "unat (vq_device_idx vq - (l + 1)) < unat (vq_device_idx vq - l)" by (simp add: diff_diff_eq)
    from less.hyps [OF this n] show ?thesis
      using False less.prems by (subst wait_request.simps) simp
  qed (use less.prems in \<open>subst wait_request.simps, simp\<close>)
qed

lemma wait_returned:
  assumes "acknowledged \<noteq> vq_device_idx vq + 1"
  shows "\<exists>l. wait_request (returned vq qs) qs (newest_request vq qs) acknowledged = Some l"
  using assms by (intro wait_request_ends) (simp_all add: returned_def)

end
