(* ===== verification/Gpu_Device.thy ===== *)
theory Gpu_Device
  imports Gpu Virtio Lock
begin

text \<open>
  The requests of \<^verbatim>\<open>src/gpu.c\<close> to the virtio GPU: display information, the resource behind the screen, its
  backing memory, and the transfer of what was drawn. The device is a parameter: \<open>serve\<close> says what it does
  with a notified queue, given the request and the memory of the frame buffer, and what it answers.
  The addresses that \<open>kcalloc\<close> returns and the translation of the kernel's page table are parameters as
  well. A wait for a held mutex and a request that the device never returns are \<open>None\<close>.
\<close>

section \<open>Model\<close>

datatype gpu_request =
    Get_display_info
  | Resource_create_2d (rc_id: u32) (rc_format: u32) (rc_width: u32) (rc_height: u32)
  | Resource_unref (ru_id: u32)
  | Set_scanout (ss_rectangle: gpu_rectangle) (ss_scanout: u32) (ss_id: u32)
  | Resource_flush (rf_rectangle: gpu_rectangle) (rf_id: u32)
  | Transfer_to_host_2d (th_rectangle: gpu_rectangle) (th_offset: u64) (th_id: u32)
  | Resource_attach_backing (ra_id: u32) (ra_paddr: u64) (ra_length: u32)

record gpu_response =
  resp_type :: u32
  resp_rectangle :: gpu_rectangle
  resp_enabled :: u32

abbreviation (input) GPU_RESP_OK_NODATA :: u32 where "GPU_RESP_OK_NODATA \<equiv> 0x1100"
abbreviation (input) GPU_RESP_OK_DISPLAY_INFO :: u32 where "GPU_RESP_OK_DISPLAY_INFO \<equiv> 0x1101"
abbreviation (input) R8G8B8A8_UNORM :: u32 where "R8G8B8A8_UNORM \<equiv> 67"

record gpu_device =
  gd_queue_size :: u16
  gd_vq :: virtq
  gd_fb :: gpu_frame_buffer
  gd_pixels :: u64
  gd_active :: bool
  gd_requests_idx :: u16
  gd_acknowledged_idx :: u16
  gd_mutex :: int

type_synonym 'h gpu_fun = "'h \<Rightarrow> virtq \<Rightarrow> (nat \<Rightarrow> pixel) \<Rightarrow> gpu_request \<Rightarrow> 'h \<times> virtq \<times> gpu_response"

text \<open>The response before the device has written it.\<close>

definition blank_response :: gpu_response where
  "blank_response = \<lparr>resp_type = 0, resp_rectangle = \<lparr>rect_x = 0, rect_y = 0, rect_width = 0, rect_height = 0\<rparr>, resp_enabled = 0\<rparr>"

definition gpu_request_poll ::
    "'h gpu_fun \<Rightarrow> (u64 \<Rightarrow> u64) \<Rightarrow> gpu_device \<Rightarrow> 'h \<Rightarrow> gpu_request \<Rightarrow> u64 \<Rightarrow> u32 \<Rightarrow> u64 \<Rightarrow> u32 \<Rightarrow> u64 \<Rightarrow> u32 \<Rightarrow> bool \<Rightarrow>
     (gpu_device \<times> 'h \<times> gpu_response \<times> int) option" where
  "gpu_request_poll serve tr gd h rq request request_size data data_size response response_size do_write =
     (let queue_size = gd_queue_size gd in
      if request = NULL then Some (gd, h, blank_response, 1)
      else if \<not> (do_write \<and> data \<noteq> NULL \<and> response \<noteq> NULL \<or> data = NULL \<and> response \<noteq> NULL) then Some (gd, h, blank_response, 2)
      else
        (let virtq_data_flag = (if do_write then 0 else VIRTQ_DESC_FLAG_WRITE);
             request_idx = gd_requests_idx gd mod queue_size;
             vq1 = set_desc (gd_vq gd) request_idx \<lparr>vd_address = tr request, vd_length = request_size, vd_flags = 0, vd_next = 0\<rparr>;
             first_request_idx = request_idx;
             r1 = gd_requests_idx gd + 1;
             request_idx1 = r1 mod queue_size;
             (vq2, prev_request_idx, r2) =
               (if data = NULL then (vq1, request_idx, r1)
                else (set_desc (link_desc vq1 request_idx request_idx1) request_idx1
                        \<lparr>vd_address = tr data, vd_length = data_size, vd_flags = virtq_data_flag, vd_next = 0\<rparr>,
                      request_idx1, r1 + 1));
             request_idx2 = r2 mod queue_size;
             vq3 = set_desc (link_desc vq2 prev_request_idx request_idx2) request_idx2
                     \<lparr>vd_address = tr response, vd_length = response_size, vd_flags = VIRTQ_DESC_FLAG_WRITE, vd_next = 0\<rparr>;
             vq4 = publish vq3 queue_size first_request_idx;
             (h1, vq5, resp) = serve h vq4 (fb_pixels (gd_fb gd)) rq;
             gd1 = gd\<lparr>gd_vq := vq5, gd_requests_idx := r2 + 1\<rparr>
         in case wait_request vq5 queue_size first_request_idx (gd_acknowledged_idx gd1) of
              None \<Rightarrow> None
            | Some _ \<Rightarrow> Some (gd1, h1, resp, 0)))"

definition gpu_request_write_poll where
  "gpu_request_write_poll serve tr gd h rq request request_size data data_size response response_size =
     gpu_request_poll serve tr gd h rq request request_size data data_size response response_size True"

definition gpu_request_read_poll where
  "gpu_request_read_poll serve tr gd h rq request request_size data data_size response response_size =
     gpu_request_poll serve tr gd h rq request request_size data data_size response response_size False"

definition gpu_get_display_info ::
    "'h gpu_fun \<Rightarrow> (u64 \<Rightarrow> u64) \<Rightarrow> (u32 \<Rightarrow> u64) \<Rightarrow> gpu_device \<Rightarrow> 'h \<Rightarrow> u64 \<Rightarrow> (gpu_device \<times> 'h \<times> gpu_response \<times> int) option" where
  "gpu_get_display_info serve tr kcalloc gd h disp_data =
     (case gpu_request_read_poll serve tr gd h Get_display_info (kcalloc 24) 24 NULL 0 disp_data 408 of
        None \<Rightarrow> None
      | Some (gd1, h1, resp, retval) \<Rightarrow>
          if retval \<noteq> 0 then Some (gd1, h1, resp, retval)
          else if resp_type resp \<noteq> GPU_RESP_OK_DISPLAY_INFO then Some (gd1, h1, resp, 5)
          else if resp_enabled resp = 0 then Some (gd1, h1, resp, 1)
          else Some (gd1, h1, resp, 0))"

text \<open>The end of the transfer: the GPU is marked inactive under its mutex.\<close>

definition gpu_deactivate :: "gpu_device \<Rightarrow> gpu_device option" where
  "gpu_deactivate gd =
     (case mutex_try (gd_mutex gd) of (v, r) \<Rightarrow>
      if r = 0 then None else Some (gd\<lparr>gd_active := False, gd_mutex := mutex_post v\<rparr>))"

definition gpu_transfer_and_flush_some ::
    "'h gpu_fun \<Rightarrow> (u64 \<Rightarrow> u64) \<Rightarrow> (u32 \<Rightarrow> u64) \<Rightarrow> gpu_device \<Rightarrow> 'h \<Rightarrow> gpu_rectangle \<Rightarrow> (gpu_device \<times> 'h \<times> int) option" where
  "gpu_transfer_and_flush_some serve tr kcalloc gd h r =
     (let response_header = kcalloc 24;
          copy_offset = ucast (rect_y r * fb_width (gd_fb gd) + rect_x r) * 4
      in case gpu_request_write_poll serve tr gd h (Transfer_to_host_2d r copy_offset 1) (kcalloc 56) 56 NULL 0 response_header 24 of
           None \<Rightarrow> None
         | Some (gd1, h1, resp1, ret1) \<Rightarrow>
             if ret1 \<noteq> 0 then Some (gd1, h1, 6)
             else if resp_type resp1 \<noteq> GPU_RESP_OK_NODATA then Some (gd1, h1, 6)
             else
               (case gpu_request_write_poll serve tr gd1 h1 (Resource_flush r 1) (kcalloc 48) 48 NULL 0 response_header 24 of
                  None \<Rightarrow> None
                | Some (gd2, h2, resp2, ret2) \<Rightarrow>
                    if ret2 \<noteq> 0 then Some (gd2, h2, 7)
                    else if resp_type resp2 \<noteq> GPU_RESP_OK_NODATA then Some (gd2, h2, 7)
                    else (case gpu_deactivate gd2 of None \<Rightarrow> None | Some gd3 \<Rightarrow> Some (gd3, h2, 0))))"

definition gpu_transfer_and_flush where
  "gpu_transfer_and_flush serve tr kcalloc gd h =
     gpu_transfer_and_flush_some serve tr kcalloc gd h
       \<lparr>rect_x = 0, rect_y = 0, rect_width = fb_width (gd_fb gd), rect_height = fb_height (gd_fb gd)\<rparr>"

definition gpu_fill_with_block_device_and_flush where
  "gpu_fill_with_block_device_and_flush serve tr kcalloc gd h dev =
     gpu_transfer_and_flush serve tr kcalloc (gd\<lparr>gd_fb := gpu_fill_with_block_device (gd_fb gd) dev\<rparr>) h"

definition gpu_fill_with_bmp_and_flush where
  "gpu_fill_with_bmp_and_flush serve tr kcalloc gd h block_devices =
     gpu_transfer_and_flush serve tr kcalloc (gd\<lparr>gd_fb := fst (gpu_fill_with_bmp (gd_fb gd) block_devices)\<rparr>) h"

text \<open>The steps of \<open>gpu_init\<close> that create the resource, attach the frame buffer to it and show it.\<close>

definition gpu_make_resource ::
    "'h gpu_fun \<Rightarrow> (u64 \<Rightarrow> u64) \<Rightarrow> (u32 \<Rightarrow> u64) \<Rightarrow> gpu_device \<Rightarrow> 'h \<Rightarrow> (gpu_device \<times> 'h \<times> int) option" where
  "gpu_make_resource serve tr kcalloc gd h =
     (let fb = gd_fb gd; fb_size = 4 * fb_width fb * fb_height fb; response_header = kcalloc 24
      in case gpu_request_write_poll serve tr gd h (Resource_create_2d 1 R8G8B8A8_UNORM (fb_width fb) (fb_height fb))
             (kcalloc 40) 40 NULL 0 response_header 24 of
           None \<Rightarrow> None
         | Some (gd1, h1, resp1, ret1) \<Rightarrow>
             if ret1 \<noteq> 0 then Some (gd1, h1, 2)
             else if resp_type resp1 \<noteq> GPU_RESP_OK_NODATA then Some (gd1, h1, 2)
             else
               (case gpu_request_write_poll serve tr gd1 h1 (Resource_attach_backing 1 (tr (gd_pixels gd1)) fb_size)
                   (kcalloc 32) 32 (kcalloc 16) 16 response_header 24 of
                  None \<Rightarrow> None
                | Some (gd2, h2, resp2, ret2) \<Rightarrow>
                    if ret2 \<noteq> 0 then Some (gd2, h2, 2)
                    else if resp_type resp2 \<noteq> GPU_RESP_OK_NODATA then Some (gd2, h2, 2)
                    else
                      (case gpu_request_write_poll serve tr gd2 h2
                          (Set_scanout \<lparr>rect_x = 0, rect_y = 0, rect_width = fb_width fb, rect_height = fb_height fb\<rparr> 0 1)
                          (kcalloc 48) 48 NULL 0 response_header 24 of
                         None \<Rightarrow> None
                       | Some (gd3, h3, resp3, ret3) \<Rightarrow>
                           if ret3 \<noteq> 0 then Some (gd3, h3, 3)
                           else if resp_type resp3 \<noteq> GPU_RESP_OK_NODATA then Some (gd3, h3, 3)
                           else Some (gd3, h3, 0))))"

text \<open>What is drawn first: a picture from a block device, or a red square.\<close>

definition gpu_first_picture :: "(nat \<times> (nat \<Rightarrow> u8)) list \<Rightarrow> gpu_frame_buffer \<Rightarrow> gpu_frame_buffer option" where
  "gpu_first_picture block_devices fb =
     (let (fb1, r) = gpu_fill_with_bmp fb block_devices
      in if r \<noteq> 0
         then gpu_fill_rectangle fb1 \<lparr>rect_x = 1, rect_y = 1, rect_width = 100, rect_height = 100\<rparr>
                \<lparr>px_r = 255, px_g = 0, px_b = 0, px_a = 255\<rparr>
         else Some fb1)"

definition gpu_init ::
    "'h gpu_fun \<Rightarrow> (u64 \<Rightarrow> u64) \<Rightarrow> (u32 \<Rightarrow> u64) \<Rightarrow> (nat \<times> (nat \<Rightarrow> u8)) list \<Rightarrow> gpu_device \<Rightarrow> 'h \<Rightarrow> (gpu_device \<times> 'h \<times> int) option" where
  "gpu_init serve tr kcalloc block_devices gd h =
     (case mutex_try (gd_mutex gd) of (v, r) \<Rightarrow>
      if r = 0 then None
      else
        (let active = gd_active gd;
             gd0 = gd\<lparr>gd_active := True, gd_mutex := mutex_post v\<rparr>
         in if active then Some (gd0, h, 10)
            else
              (case gpu_get_display_info serve tr kcalloc gd0 h (kcalloc 408) of
                 None \<Rightarrow> None
               | Some (gd1, h1, gpu_info, ret) \<Rightarrow>
                   if ret \<noteq> 0 then Some (gd1, h1, 1)
                   else
                     (let width = rect_width (resp_rectangle gpu_info); height = rect_height (resp_rectangle gpu_info);
                          gd2 = gd1\<lparr>gd_fb := \<lparr>fb_width = width, fb_height = height,
                                   fb_pixels = (\<lambda>_. \<lparr>px_r = 0, px_g = 0, px_b = 0, px_a = 0\<rparr>)\<rparr>,
                                  gd_pixels := kcalloc (4 * width * height)\<rparr>
                      in case gpu_make_resource serve tr kcalloc gd2 h1 of
                           None \<Rightarrow> None
                         | Some (gd3, h2, ret2) \<Rightarrow>
                             if ret2 \<noteq> 0 then Some (gd3, h2, ret2)
                             else
                               (case gpu_first_picture block_devices (gd_fb gd3) of
                                  None \<Rightarrow> None
                                | Some fb \<Rightarrow>
                                    (case gpu_transfer_and_flush serve tr kcalloc (gd3\<lparr>gd_fb := fb\<rparr>) h2 of
                                       None \<Rightarrow> None
                                     | Some (gd4, h3, ret3) \<Rightarrow> Some (gd4, h3, if ret3 \<noteq> 0 then 6 else 0)))))))"

text \<open>The interrupt handler; \<open>events_read\<close> is the register of the device.\<close>

definition gpu_reinit where
  "gpu_reinit serve tr kcalloc block_devices gd h =
     (case mutex_try (gd_mutex gd) of (v, r) \<Rightarrow>
      if r = 0 then None
      else
        (case gpu_request_write_poll serve tr (gd\<lparr>gd_active := True, gd_mutex := mutex_post v\<rparr>) h (Resource_unref 1)
             (kcalloc 32) 32 NULL 0 (kcalloc 24) 24 of
           None \<Rightarrow> None
         | Some (gd1, h1, _, _) \<Rightarrow>
             (case gpu_deactivate gd1 of
                None \<Rightarrow> None
              | Some gd2 \<Rightarrow>
                  (case gpu_init serve tr kcalloc block_devices gd2 h1 of
                     None \<Rightarrow> None
                   | Some (gd3, h2, _) \<Rightarrow> (case gpu_deactivate gd3 of None \<Rightarrow> None | Some gd4 \<Rightarrow> Some (gd4, h2))))))"

definition gpu_irq_handler where
  "gpu_irq_handler serve tr kcalloc block_devices queue_interrupt events_read gd h =
     (if queue_interrupt then
        (case (if events_read \<noteq> (0 :: u32) then
                 (if gd_pixels gd = NULL then
                    map_option (\<lambda>(gd1, h1, _). (gd1, h1)) (gpu_init serve tr kcalloc block_devices gd h)
                  else gpu_reinit serve tr kcalloc block_devices gd h)
               else Some (gd, h)) of
           None \<Rightarrow> None
         | Some (gd1, h1) \<Rightarrow> Some (gd1\<lparr>gd_acknowledged_idx := vq_device_idx (gd_vq gd1)\<rparr>, h1))
      else Some (gd, h))"

section \<open>The device\<close>

text \<open>
  What the virtio specification says of the commands: a resource is created once, gets its backing memory,
  is shown on the display by a scanout, is filled from the backing memory by transfers, and reaches the
  screen when it is flushed. Pixels of a resource and of the screen are given by column and row.
\<close>

record gpu_host =
  gh_display :: gpu_rectangle
  gh_enabled :: u32
  gh_resource :: "u32 \<Rightarrow> (u32 \<times> u32) option"
  gh_backing :: "u32 \<Rightarrow> u32 option"
  gh_scanout :: "(gpu_rectangle \<times> u32) option"
  gh_contents :: "u32 \<Rightarrow> nat \<Rightarrow> nat \<Rightarrow> pixel"
  gh_screen :: "nat \<Rightarrow> nat \<Rightarrow> pixel"

definition rect_in :: "gpu_rectangle \<Rightarrow> u32 \<times> u32 \<Rightarrow> bool" where
  "rect_in r dim \<longleftrightarrow>
     unat (rect_x r) + unat (rect_width r) \<le> unat (fst dim) \<and> unat (rect_y r) + unat (rect_height r) \<le> unat (snd dim)"

definition in_rect :: "gpu_rectangle \<Rightarrow> nat \<Rightarrow> nat \<Rightarrow> bool" where
  "in_rect r x y \<longleftrightarrow>
     unat (rect_x r) \<le> x \<and> x < unat (rect_x r) + unat (rect_width r) \<and>
     unat (rect_y r) \<le> y \<and> y < unat (rect_y r) + unat (rect_height r)"

definition answer :: "u32 \<Rightarrow> gpu_response" where
  "answer t = blank_response\<lparr>resp_type := t\<rparr>"

abbreviation (input) GPU_RESP_ERR_INVALID_RESOURCE_ID :: u32 where "GPU_RESP_ERR_INVALID_RESOURCE_ID \<equiv> 0x1203"
abbreviation (input) GPU_RESP_ERR_INVALID_PARAMETER :: u32 where "GPU_RESP_ERR_INVALID_PARAMETER \<equiv> 0x1205"

fun gpu_exec :: "gpu_host \<Rightarrow> (nat \<Rightarrow> pixel) \<Rightarrow> gpu_request \<Rightarrow> gpu_host \<times> gpu_response" where
  "gpu_exec h mem Get_display_info =
     (h, \<lparr>resp_type = GPU_RESP_OK_DISPLAY_INFO, resp_rectangle = gh_display h, resp_enabled = gh_enabled h\<rparr>)"
| "gpu_exec h mem (Resource_create_2d i fmt w ht) =
     (if i = 0 \<or> gh_resource h i \<noteq> None then (h, answer GPU_RESP_ERR_INVALID_RESOURCE_ID)
      else (h\<lparr>gh_resource := (gh_resource h)(i \<mapsto> (w, ht))\<rparr>, answer GPU_RESP_OK_NODATA))"
| "gpu_exec h mem (Resource_unref i) =
     (if gh_resource h i = None then (h, answer GPU_RESP_ERR_INVALID_RESOURCE_ID)
      else (h\<lparr>gh_resource := (gh_resource h)(i := None), gh_backing := (gh_backing h)(i := None),
              gh_scanout := (if map_option snd (gh_scanout h) = Some i then None else gh_scanout h)\<rparr>,
            answer GPU_RESP_OK_NODATA))"
| "gpu_exec h mem (Resource_attach_backing i paddr len) =
     (if gh_resource h i = None \<or> gh_backing h i \<noteq> None then (h, answer GPU_RESP_ERR_INVALID_RESOURCE_ID)
      else (h\<lparr>gh_backing := (gh_backing h)(i \<mapsto> len)\<rparr>, answer GPU_RESP_OK_NODATA))"
| "gpu_exec h mem (Set_scanout r scanout i) =
     (case gh_resource h i of
        None \<Rightarrow> (h, answer GPU_RESP_ERR_INVALID_RESOURCE_ID)
      | Some dim \<Rightarrow>
          if rect_in r dim then (h\<lparr>gh_scanout := Some (r, i)\<rparr>, answer GPU_RESP_OK_NODATA)
          else (h, answer GPU_RESP_ERR_INVALID_PARAMETER))"
| "gpu_exec h mem (Transfer_to_host_2d r off i) =
     (case (gh_resource h i, gh_backing h i) of
        (Some dim, Some len) \<Rightarrow>
          if rect_in r dim then
            (h\<lparr>gh_contents := (gh_contents h)(i := (\<lambda>x y. if in_rect r x y
                 then mem (unat off div 4 + (y - unat (rect_y r)) * unat (fst dim) + (x - unat (rect_x r)))
                 else gh_contents h i x y))\<rparr>, answer GPU_RESP_OK_NODATA)
          else (h, answer GPU_RESP_ERR_INVALID_PARAMETER)
      | _ \<Rightarrow> (h, answer GPU_RESP_ERR_INVALID_RESOURCE_ID))"
| "gpu_exec h mem (Resource_flush r i) =
     (case gh_resource h i of
        None \<Rightarrow> (h, answer GPU_RESP_ERR_INVALID_RESOURCE_ID)
      | Some dim \<Rightarrow>
          if rect_in r dim then
            (case gh_scanout h of
               Some (s, j) \<Rightarrow>
                 if j = i then
                   (h\<lparr>gh_screen := (\<lambda>x y. if x < unat (rect_width s) \<and> y < unat (rect_height s) \<and>
                                              in_rect r (unat (rect_x s) + x) (unat (rect_y s) + y)
                                           then gh_contents h i (unat (rect_x s) + x) (unat (rect_y s) + y)
                                           else gh_screen h x y)\<rparr>, answer GPU_RESP_OK_NODATA)
                 else (h, answer GPU_RESP_OK_NODATA)
             | None \<Rightarrow> (h, answer GPU_RESP_OK_NODATA))
          else (h, answer GPU_RESP_ERR_INVALID_PARAMETER))"

text \<open>
  The chain of a request: the header, the memory entry of an attachment, and the response, which alone
  the device may write.
\<close>

fun gpu_lengths :: "gpu_request \<Rightarrow> u32 list" where
  "gpu_lengths Get_display_info = [24, 408]"
| "gpu_lengths (Resource_create_2d _ _ _ _) = [40, 24]"
| "gpu_lengths (Resource_unref _) = [32, 24]"
| "gpu_lengths (Set_scanout _ _ _) = [48, 24]"
| "gpu_lengths (Resource_flush _ _) = [48, 24]"
| "gpu_lengths (Transfer_to_host_2d _ _ _) = [56, 24]"
| "gpu_lengths (Resource_attach_backing _ _ _) = [32, 16, 24]"

definition gpu_chain_ok :: "gpu_request \<Rightarrow> virtq_desc list \<Rightarrow> bool" where
  "gpu_chain_ok rq ds \<longleftrightarrow>
     map vd_length ds = gpu_lengths rq \<and>
     map (\<lambda>d. vd_flags d AND VIRTQ_DESC_FLAG_WRITE) ds = replicate (length ds - 1) 0 @ [VIRTQ_DESC_FLAG_WRITE]"

text \<open>A device that answers every request with a proper chain as the specification says.\<close>

definition gpu_conforming :: "u16 \<Rightarrow> gpu_host gpu_fun \<Rightarrow> bool" where
  "gpu_conforming queue_size serve \<longleftrightarrow>
     (\<forall>h vq mem rq. gpu_chain_ok rq (chain vq 4 (newest_request vq queue_size)) \<longrightarrow>
        serve h vq mem rq = (fst (gpu_exec h mem rq), returned vq queue_size, snd (gpu_exec h mem rq)))"

section \<open>Requests are answered\<close>

text \<open>Fewer requests are waiting for their interrupt than the 16-bit indexes can count.\<close>

definition gpu_room :: "gpu_device \<Rightarrow> nat \<Rightarrow> bool" where
  "gpu_room gd n \<longleftrightarrow> unat (vq_device_idx (gd_vq gd) - gd_acknowledged_idx gd) + n < 2 ^ 16"

lemma unat_mod_12: "unat (r mod 12 :: u16) = unat r mod 12"
  by (simp add: unat_mod)

lemma steps_mod_12:
  "(n + 1) mod 12 \<noteq> n mod 12 \<and> (n + 2) mod 12 \<noteq> n mod 12 \<and> (n + 2) mod 12 \<noteq> (n + 1) mod 12" for n :: nat
  using mod_Suc [of n 12] mod_Suc [of "Suc n" 12] by (simp split: if_splits)

lemma consecutive_distinct:
  "(r + 1) mod 12 \<noteq> (r mod 12 :: u16)" "(r + 2) mod 12 \<noteq> (r mod 12 :: u16)" "(r + 2) mod 12 \<noteq> ((r + 1) mod 12 :: u16)"
proof -
  have b: "unat r < 65536" using unsigned_less [of r] by simp
  have 1: "unat (r + 1) = (unat r + 1) mod 65536" and 2: "unat (r + 2) = (unat r + 2) mod 65536"
    by (simp_all add: unat_word_ariths)
  have "(n + 1) mod 65536 mod 12 \<noteq> n mod 12 \<and> (n + 2) mod 65536 mod 12 \<noteq> n mod 12 \<and>
        (n + 2) mod 65536 mod 12 \<noteq> (n + 1) mod 65536 mod 12" if n: "n < 65536" for n :: nat
  proof -
    consider "n + 2 < 65536" | "n = 65534" | "n = 65535" using n by linarith
    then show ?thesis
    proof cases
      case 1
      then have "(n + 1) mod 65536 = n + 1" "(n + 2) mod 65536 = n + 2" by simp_all
      then show ?thesis using steps_mod_12 [of n] by simp
    qed simp_all
  qed
  from this [OF b] show "(r + 1) mod 12 \<noteq> (r mod 12 :: u16)" "(r + 2) mod 12 \<noteq> (r mod 12 :: u16)"
    "(r + 2) mod 12 \<noteq> ((r + 1) mod 12 :: u16)"
    using 1 2 unat_mod_12 by metis+
qed

text \<open>A chain of the two or three descriptors that \<open>gpu_request_poll\<close> writes is what the device expects.\<close>

lemmas desc_simps = set_desc_def link_desc_def publish_def newest_request_def

lemma chain_of_two:
  assumes "i \<noteq> j"
  shows "chain (publish (set_desc (link_desc (set_desc vq i \<lparr>vd_address = a, vd_length = l, vd_flags = 0, vd_next = 0\<rparr>) i j) j
                  \<lparr>vd_address = c, vd_length = n, vd_flags = VIRTQ_DESC_FLAG_WRITE, vd_next = 0\<rparr>) qs i) 4 i =
         [\<lparr>vd_address = a, vd_length = l, vd_flags = VIRTQ_DESC_FLAG_NEXT, vd_next = j\<rparr>,
          \<lparr>vd_address = c, vd_length = n, vd_flags = VIRTQ_DESC_FLAG_WRITE, vd_next = 0\<rparr>]"
  using assms by (simp add: desc_simps numeral_eq_Suc Let_def flip: word_unat_eq_iff)

lemma chain_of_three:
  assumes "i \<noteq> j" "k \<noteq> i" "k \<noteq> j"
  shows "chain (publish (set_desc (link_desc (set_desc (link_desc
                   (set_desc vq i \<lparr>vd_address = a, vd_length = l, vd_flags = 0, vd_next = 0\<rparr>) i j) j
                     \<lparr>vd_address = b, vd_length = m, vd_flags = 0, vd_next = 0\<rparr>) j k) k
                  \<lparr>vd_address = c, vd_length = n, vd_flags = VIRTQ_DESC_FLAG_WRITE, vd_next = 0\<rparr>) qs i) 4 i =
         [\<lparr>vd_address = a, vd_length = l, vd_flags = VIRTQ_DESC_FLAG_NEXT, vd_next = j\<rparr>,
          \<lparr>vd_address = b, vd_length = m, vd_flags = VIRTQ_DESC_FLAG_NEXT, vd_next = k\<rparr>,
          \<lparr>vd_address = c, vd_length = n, vd_flags = VIRTQ_DESC_FLAG_WRITE, vd_next = 0\<rparr>]"
  using assms by (simp add: desc_simps numeral_eq_Suc Let_def flip: word_unat_eq_iff)

text \<open>What a request leaves of the driver's state.\<close>

definition gpu_next :: "gpu_device \<Rightarrow> gpu_device \<Rightarrow> bool" where
  "gpu_next gd gd' \<longleftrightarrow>
     gd_queue_size gd' = gd_queue_size gd \<and> gd_fb gd' = gd_fb gd \<and> gd_pixels gd' = gd_pixels gd \<and>
     gd_active gd' = gd_active gd \<and> gd_mutex gd' = gd_mutex gd \<and>
     gd_acknowledged_idx gd' = gd_acknowledged_idx gd \<and> vq_device_idx (gd_vq gd') = vq_device_idx (gd_vq gd) + 1"

lemma gpu_room_next:
  assumes "gpu_next gd gd'" "gpu_room gd (Suc n)"
  shows "gpu_room gd' n"
proof -
  let ?d = "vq_device_idx (gd_vq gd) - gd_acknowledged_idx gd"
  have "unat (?d + 1) = unat ?d + 1"
    using assms(2) by (simp add: gpu_room_def unat_word_ariths)
  moreover have "vq_device_idx (gd_vq gd') - gd_acknowledged_idx gd' = ?d + 1"
    using assms(1) by (simp add: gpu_next_def)
  ultimately show ?thesis using assms(2) by (simp add: gpu_room_def)
qed

lemma gpu_room_wait:
  assumes "gpu_room gd (Suc n)"
  shows "gd_acknowledged_idx gd \<noteq> vq_device_idx (gd_vq gd) + 1"
proof
  assume "gd_acknowledged_idx gd = vq_device_idx (gd_vq gd) + 1"
  then have "vq_device_idx (gd_vq gd) - gd_acknowledged_idx gd = - 1" by simp
  then show False using assms by (simp add: gpu_room_def unsigned_minus_1_eq_mask mask_eq_exp_minus_1)
qed

lemma gpu_request_answered:
  assumes conf: "gpu_conforming 12 serve" and q: "gd_queue_size gd = 12" and room: "gpu_room gd (Suc n)"
    and req: "request \<noteq> NULL" "response \<noteq> NULL"
    and lens: "gpu_lengths rq = (if data = NULL then [ls, lr] else [ls, ld, lr])"
    and dw: "data = NULL \<or> do_write"
  shows "\<exists>gd'. gpu_request_poll serve tr gd h rq request ls data ld response lr do_write =
           Some (gd', fst (gpu_exec h (fb_pixels (gd_fb gd)) rq), snd (gpu_exec h (fb_pixels (gd_fb gd)) rq), 0) \<and> gpu_next gd gd'"
proof -
  let ?r = "gd_requests_idx gd"
  define vq where "vq = (let i = ?r mod 12; j = (?r + 1) mod 12; k = (?r + 2) mod 12;
      v = set_desc (gd_vq gd) i \<lparr>vd_address = tr request, vd_length = ls, vd_flags = 0, vd_next = 0\<rparr>;
      d = \<lparr>vd_address = tr response, vd_length = lr, vd_flags = VIRTQ_DESC_FLAG_WRITE, vd_next = 0\<rparr>
    in publish (if data = NULL then set_desc (link_desc v i j) j d
                else set_desc (link_desc (set_desc (link_desc v i j) j
                       \<lparr>vd_address = tr data, vd_length = ld, vd_flags = 0, vd_next = 0\<rparr>) j k) k d) 12 i)"
  have new: "newest_request vq 12 = ?r mod 12"
    by (simp add: vq_def Let_def newest_publish)
  have "gpu_chain_ok rq (chain vq 4 (newest_request vq 12))"
    unfolding new using consecutive_distinct [of ?r] lens
    by (simp add: vq_def Let_def chain_of_two chain_of_three gpu_chain_ok_def)
  then have serve: "serve h vq mem rq = (fst (gpu_exec h mem rq), returned vq 12, snd (gpu_exec h mem rq))" for mem
    using conf by (simp add: gpu_conforming_def)
  have idx: "vq_device_idx vq = vq_device_idx (gd_vq gd)"
    by (simp add: vq_def Let_def desc_simps)
  obtain l where "wait_request (returned vq 12) 12 (?r mod 12) (gd_acknowledged_idx gd) = Some l"
    using wait_returned [of "gd_acknowledged_idx gd" vq 12] gpu_room_wait [OF room] idx new by auto
  then show ?thesis
    using serve q req dw
    by (cases "data = NULL") (simp_all add: gpu_request_poll_def Let_def vq_def add.assoc gpu_next_def desc_simps returned_def)
qed

lemma gpu_write_answered:
  assumes "gpu_conforming 12 serve" "gd_queue_size gd = 12" "gpu_room gd (Suc n)" "\<forall>s. kcalloc s \<noteq> NULL"
    and "gpu_lengths rq = [ls, lr]"
  shows "\<exists>gd'. gpu_request_write_poll serve tr gd h rq (kcalloc ls) ls NULL 0 (kcalloc lr) lr =
           Some (gd', fst (gpu_exec h (fb_pixels (gd_fb gd)) rq), snd (gpu_exec h (fb_pixels (gd_fb gd)) rq), 0) \<and> gpu_next gd gd'"
  unfolding gpu_request_write_poll_def
  by (rule gpu_request_answered [OF assms(1-3)]) (use assms(4,5) in simp_all)

lemma gpu_attach_answered:
  assumes "gpu_conforming 12 serve" "gd_queue_size gd = 12" "gpu_room gd (Suc n)" "\<forall>s. kcalloc s \<noteq> NULL"
    and "gpu_lengths rq = [ls, ld, lr]"
  shows "\<exists>gd'. gpu_request_write_poll serve tr gd h rq (kcalloc ls) ls (kcalloc ld) ld (kcalloc lr) lr =
           Some (gd', fst (gpu_exec h (fb_pixels (gd_fb gd)) rq), snd (gpu_exec h (fb_pixels (gd_fb gd)) rq), 0) \<and> gpu_next gd gd'"
  unfolding gpu_request_write_poll_def
  by (rule gpu_request_answered [OF assms(1-3)]) (use assms(4,5) in simp_all)

lemma gpu_info_answered:
  assumes "gpu_conforming 12 serve" "gd_queue_size gd = 12" "gpu_room gd (Suc n)" "\<forall>s. kcalloc s \<noteq> NULL"
    and "gh_enabled h \<noteq> 0"
  shows "\<exists>gd' resp. gpu_get_display_info serve tr kcalloc gd h (kcalloc 408) = Some (gd', h, resp, 0) \<and>
           resp_rectangle resp = gh_display h \<and> gpu_next gd gd'"
proof -
  have "\<exists>gd'. gpu_request_read_poll serve tr gd h Get_display_info (kcalloc 24) 24 NULL 0 (kcalloc 408) 408 =
      Some (gd', fst (gpu_exec h (fb_pixels (gd_fb gd)) Get_display_info), snd (gpu_exec h (fb_pixels (gd_fb gd)) Get_display_info), 0) \<and>
      gpu_next gd gd'"
    unfolding gpu_request_read_poll_def by (rule gpu_request_answered [OF assms(1-3)]) (use assms(4) in simp_all)
  then show ?thesis using assms(5) by (auto simp: gpu_get_display_info_def)
qed

section \<open>The frame buffer reaches the screen\<close>

definition whole :: "gpu_frame_buffer \<Rightarrow> gpu_rectangle" where
  "whole fb = \<lparr>rect_x = 0, rect_y = 0, rect_width = fb_width fb, rect_height = fb_height fb\<rparr>"

text \<open>The resource has the size of the frame buffer, its memory, and the whole display.\<close>

definition gpu_attached :: "gpu_frame_buffer \<Rightarrow> gpu_host \<Rightarrow> bool" where
  "gpu_attached fb h \<longleftrightarrow>
     gh_resource h 1 = Some (fb_width fb, fb_height fb) \<and> gh_backing h 1 \<noteq> None \<and> gh_scanout h = Some (whole fb, 1)"

lemma copy_offset_nat:
  assumes "in_rect r x y" "rect_in r (w, ht)" "unat w * unat ht < 2 ^ 32"
  shows "unat (ucast (rect_y r * w + rect_x r) * 4 :: u64) div 4 + (y - unat (rect_y r)) * unat w + (x - unat (rect_x r)) =
         unat w * y + x"
proof -
  let ?i = "unat w * unat (rect_y r) + unat (rect_x r)"
  have "?i < unat w * unat ht"
    using assms(1,2) by (intro offset_on_screen) (auto simp: in_rect_def rect_in_def)
  then have lt: "?i < 2 ^ 32" using assms(3) by linarith
  then have "unat (rect_y r * w + rect_x r) = ?i"
    using unat_offset [of "unat w" "unat (rect_y r)" "unat (rect_x r)"] by (simp add: mult.commute)
  then have "unat (ucast (rect_y r * w + rect_x r) :: u64) = ?i" by (simp only: unat_ucast_64)
  then have "unat (ucast (rect_y r * w + rect_x r) * 4 :: u64) = ?i * 4"
    using lt by (simp add: unat_word_ariths)
  moreover obtain dy where "y = unat (rect_y r) + dy" using assms(1) by (auto simp: in_rect_def le_iff_add)
  moreover obtain dx where "x = unat (rect_x r) + dx" using assms(1) by (auto simp: in_rect_def le_iff_add)
  ultimately show ?thesis by (simp add: algebra_simps)
qed

lemma transfer_and_flush_exec:
  assumes "gpu_attached fb h" "rect_in r (fb_width fb, fb_height fb)" "unat (fb_width fb) * unat (fb_height fb) < 2 ^ 32"
    and h1: "h1 = fst (gpu_exec h (fb_pixels fb) (Transfer_to_host_2d r (ucast (rect_y r * fb_width fb + rect_x r) * 4) 1))"
    and h2: "h2 = fst (gpu_exec h1 mem (Resource_flush r 1))"
  shows "resp_type (snd (gpu_exec h (fb_pixels fb) (Transfer_to_host_2d r (ucast (rect_y r * fb_width fb + rect_x r) * 4) 1))) = GPU_RESP_OK_NODATA"
    and "resp_type (snd (gpu_exec h1 mem (Resource_flush r 1))) = GPU_RESP_OK_NODATA"
    and "gpu_attached fb h2" "gh_display h2 = gh_display h" "gh_enabled h2 = gh_enabled h"
    and "\<forall>x y. gh_screen h2 x y = (if in_rect r x y then fb_pixels fb (unat (fb_width fb) * y + x) else gh_screen h x y)"
  using assms(1,2) copy_offset_nat [OF _ assms(2,3)] unfolding h2 h1
  by (auto simp: gpu_attached_def answer_def whole_def in_rect_def rect_in_def)

lemma gpu_deactivate_unlocked:
  "gd_mutex gd = MUTEX_UNLOCKED \<Longrightarrow> gpu_deactivate gd = Some (gd\<lparr>gd_active := False\<rparr>)"
  by (simp add: gpu_deactivate_def mutex_try_def mutex_post_def)

lemma transfer_and_flush_shows:
  assumes dev: "gpu_conforming 12 serve" "gd_queue_size gd = 12" "gpu_room gd (Suc (Suc n))" "\<forall>s. kcalloc s \<noteq> NULL"
    and gd: "gd_mutex gd = MUTEX_UNLOCKED" "gpu_attached (gd_fb gd) h"
    and r: "rect_in r (fb_width (gd_fb gd), fb_height (gd_fb gd))" "unat (fb_width (gd_fb gd)) * unat (fb_height (gd_fb gd)) < 2 ^ 32"
  shows "\<exists>gd' h'. gpu_transfer_and_flush_some serve tr kcalloc gd h r = Some (gd', h', 0) \<and>
    gd_fb gd' = gd_fb gd \<and> gd_pixels gd' = gd_pixels gd \<and> \<not> gd_active gd' \<and> gd_mutex gd' = MUTEX_UNLOCKED \<and>
    gd_queue_size gd' = 12 \<and> gpu_room gd' n \<and> gpu_attached (gd_fb gd) h' \<and>
    gh_display h' = gh_display h \<and> gh_enabled h' = gh_enabled h \<and>
    (\<forall>x y. gh_screen h' x y =
       (if in_rect r x y then fb_pixels (gd_fb gd) (unat (fb_width (gd_fb gd)) * y + x) else gh_screen h x y))"
proof -
  let ?t = "Transfer_to_host_2d r (ucast (rect_y r * fb_width (gd_fb gd) + rect_x r) * 4) 1"
  let ?f = "Resource_flush r 1" and ?mem = "fb_pixels (gd_fb gd)"
  let ?h1 = "fst (gpu_exec h ?mem ?t)"
  note ex = transfer_and_flush_exec [where mem = ?mem, OF gd(2) r refl refl]
  obtain gd1 where 1: "gpu_request_write_poll serve tr gd h ?t (kcalloc 56) 56 NULL 0 (kcalloc 24) 24 =
      Some (gd1, ?h1, snd (gpu_exec h ?mem ?t), 0)" "gpu_next gd gd1"
    using gpu_write_answered [OF dev, of ?t 56 24 tr h] by auto
  have s1: "gd_queue_size gd1 = 12" "gd_fb gd1 = gd_fb gd" "gpu_room gd1 (Suc n)"
    using 1(2) dev(2) gpu_room_next [OF 1(2) dev(3)] by (auto simp: gpu_next_def)
  obtain gd2 where 2: "gpu_request_write_poll serve tr gd1 ?h1 ?f (kcalloc 48) 48 NULL 0 (kcalloc 24) 24 =
      Some (gd2, fst (gpu_exec ?h1 ?mem ?f), snd (gpu_exec ?h1 ?mem ?f), 0)" "gpu_next gd1 gd2"
    using gpu_write_answered [OF dev(1) s1(1,3) dev(4), of ?f 48 24 tr ?h1] unfolding s1(2) by auto
  have s2: "gd_mutex gd2 = MUTEX_UNLOCKED" "gd_fb gd2 = gd_fb gd" "gd_pixels gd2 = gd_pixels gd" "gd_queue_size gd2 = 12" "gpu_room gd2 n"
    using 1(2) 2(2) gd(1) dev(2) gpu_room_next [OF 2(2) s1(3)] by (auto simp: gpu_next_def)
  have "gpu_transfer_and_flush_some serve tr kcalloc gd h r =
      Some (gd2\<lparr>gd_active := False\<rparr>, fst (gpu_exec ?h1 ?mem ?f), 0)"
    unfolding gpu_transfer_and_flush_some_def Let_def
    by (simp only: 1(1) 2(1) option.case prod.case ex(1,2) gpu_deactivate_unlocked [OF s2(1)] if_False simp_thms)
  then show ?thesis using ex(3-6) s2 by (simp add: gpu_room_def)
qed

lemma make_resource_exec:
  assumes "gh_resource h 1 = None" "gh_backing h 1 = None"
    and h1: "h1 = fst (gpu_exec h mem (Resource_create_2d 1 R8G8B8A8_UNORM (fb_width fb) (fb_height fb)))"
    and h2: "h2 = fst (gpu_exec h1 mem (Resource_attach_backing 1 pa len))"
    and h3: "h3 = fst (gpu_exec h2 mem (Set_scanout (whole fb) 0 1))"
  shows "resp_type (snd (gpu_exec h mem (Resource_create_2d 1 R8G8B8A8_UNORM (fb_width fb) (fb_height fb)))) = GPU_RESP_OK_NODATA"
    and "resp_type (snd (gpu_exec h1 mem (Resource_attach_backing 1 pa len))) = GPU_RESP_OK_NODATA"
    and "resp_type (snd (gpu_exec h2 mem (Set_scanout (whole fb) 0 1))) = GPU_RESP_OK_NODATA"
    and "gpu_attached fb h3" "gh_display h3 = gh_display h" "gh_enabled h3 = gh_enabled h"
  using assms(1,2) unfolding h3 h2 h1
  by (auto simp: gpu_attached_def answer_def whole_def rect_in_def)

lemma gpu_make_resource_attaches:
  assumes dev: "gpu_conforming 12 serve" "gd_queue_size gd = 12" "gpu_room gd (Suc (Suc (Suc n)))" "\<forall>s. kcalloc s \<noteq> NULL"
    and h: "gh_resource h 1 = None" "gh_backing h 1 = None"
  shows "\<exists>gd' h'. gpu_make_resource serve tr kcalloc gd h = Some (gd', h', 0) \<and>
    gd_fb gd' = gd_fb gd \<and> gd_pixels gd' = gd_pixels gd \<and> gd_active gd' = gd_active gd \<and> gd_mutex gd' = gd_mutex gd \<and>
    gd_queue_size gd' = 12 \<and> gpu_room gd' n \<and> gpu_attached (gd_fb gd) h' \<and>
    gh_display h' = gh_display h \<and> gh_enabled h' = gh_enabled h"
proof -
  let ?fb = "gd_fb gd" and ?mem = "fb_pixels (gd_fb gd)"
  let ?c = "Resource_create_2d 1 R8G8B8A8_UNORM (fb_width ?fb) (fb_height ?fb)" and ?s = "Set_scanout (whole ?fb) 0 1"
    and ?a = "Resource_attach_backing 1 (tr (gd_pixels gd)) (4 * fb_width ?fb * fb_height ?fb)"
  let ?h1 = "fst (gpu_exec h ?mem ?c)"
  let ?h2 = "fst (gpu_exec ?h1 ?mem ?a)"
  let ?h3 = "fst (gpu_exec ?h2 ?mem ?s)"
  note ex = make_resource_exec [where mem = ?mem and fb = ?fb, OF h refl refl refl]
  obtain gd1 where 1: "gpu_request_write_poll serve tr gd h ?c (kcalloc 40) 40 NULL 0 (kcalloc 24) 24 =
      Some (gd1, ?h1, snd (gpu_exec h ?mem ?c), 0)" "gpu_next gd gd1"
    using gpu_write_answered [OF dev, of ?c 40 24 tr h] by auto
  have s1: "gd_queue_size gd1 = 12" "gd_fb gd1 = gd_fb gd" "gd_pixels gd1 = gd_pixels gd" "gpu_room gd1 (Suc (Suc n))"
    using 1(2) dev(2) gpu_room_next [OF 1(2) dev(3)] by (auto simp: gpu_next_def)
  obtain gd2 where 2: "gpu_request_write_poll serve tr gd1 ?h1 ?a (kcalloc 32) 32 (kcalloc 16) 16 (kcalloc 24) 24 =
      Some (gd2, ?h2, snd (gpu_exec ?h1 ?mem ?a), 0)" "gpu_next gd1 gd2"
    using gpu_attach_answered [OF dev(1) s1(1,4) dev(4), of ?a 32 16 24 tr ?h1] unfolding s1(2) by auto
  have s2: "gd_queue_size gd2 = 12" "gd_fb gd2 = gd_fb gd" "gpu_room gd2 (Suc n)"
    using 2(2) s1 gpu_room_next [OF 2(2) s1(4)] by (auto simp: gpu_next_def)
  obtain gd3 where 3: "gpu_request_write_poll serve tr gd2 ?h2 ?s (kcalloc 48) 48 NULL 0 (kcalloc 24) 24 =
      Some (gd3, ?h3, snd (gpu_exec ?h2 ?mem ?s), 0)" "gpu_next gd2 gd3"
    using gpu_write_answered [OF dev(1) s2(1,3) dev(4), of ?s 48 24 tr ?h2] unfolding s2(2) by auto
  have "gpu_make_resource serve tr kcalloc gd h = Some (gd3, ?h3, 0)"
    unfolding gpu_make_resource_def Let_def whole_def [symmetric]
    by (simp only: 1(1) 2(1) 3(1) s1(3) option.case prod.case ex(1-3) if_False simp_thms)
  moreover have "gpu_room gd3 n" by (rule gpu_room_next [OF 3(2) s2(3)])
  ultimately show ?thesis
    using ex(4-6) 1(2) 2(2) 3(2) dev(2) by (auto simp: gpu_next_def)
qed

lemma gpu_first_picture_drawn:
  assumes "unat (fb_width fb) * 101 + 101 < 2 ^ 32"
  shows "\<exists>fb'. gpu_first_picture block_devices fb = Some fb' \<and> fb_width fb' = fb_width fb \<and> fb_height fb' = fb_height fb"
proof -
  obtain fb1 r where 1: "gpu_fill_with_bmp fb block_devices = (fb1, r)" by fastforce
  then have "fb_width fb1 = fb_width fb" "fb_height fb1 = fb_height fb"
    by (auto simp: gpu_fill_with_bmp_def Let_def split: option.splits)
  then show ?thesis
    using gpu_fill_rectangle_paints [OF refl refl refl _ refl refl, of "\<lparr>rect_x = 1, rect_y = 1, rect_width = 100, rect_height = 100\<rparr>" fb1]
      1 assms by (auto simp: gpu_first_picture_def)
qed

text \<open>What the device must offer for \<open>gpu_init\<close>: an enabled display of a size whose offsets fit, and no resource yet.\<close>

definition gpu_ready :: "gpu_host \<Rightarrow> bool" where
  "gpu_ready h \<longleftrightarrow>
     gh_enabled h \<noteq> 0 \<and> gh_resource h 1 = None \<and> gh_backing h 1 = None \<and>
     unat (rect_width (gh_display h)) * unat (rect_height (gh_display h)) < 2 ^ 32 \<and>
     unat (rect_width (gh_display h)) * 101 + 101 < 2 ^ 32"

definition gpu_running :: "gpu_device \<Rightarrow> gpu_host \<Rightarrow> bool" where
  "gpu_running gd h \<longleftrightarrow>
     gd_queue_size gd = 12 \<and> \<not> gd_active gd \<and> gd_mutex gd = MUTEX_UNLOCKED \<and> gd_pixels gd \<noteq> NULL \<and>
     gpu_attached (gd_fb gd) h \<and>
     fb_width (gd_fb gd) = rect_width (gh_display h) \<and> fb_height (gd_fb gd) = rect_height (gh_display h) \<and>
     (\<forall>x y. x < unat (rect_width (gh_display h)) \<longrightarrow> y < unat (rect_height (gh_display h)) \<longrightarrow>
        gh_screen h x y = fb_pixels (gd_fb gd) (unat (fb_width (gd_fb gd)) * y + x))"

lemma gpu_init_runs:
  assumes dev: "gpu_conforming 12 serve" "gd_queue_size gd = 12" "gpu_room gd (Suc (Suc (Suc (Suc (Suc (Suc n))))))"
      "\<forall>s. kcalloc s \<noteq> NULL"
    and gd: "\<not> gd_active gd" "gd_mutex gd = MUTEX_UNLOCKED" and h: "gpu_ready h"
  shows "\<exists>gd' h'. gpu_init serve tr kcalloc block_devices gd h = Some (gd', h', 0) \<and> gpu_running gd' h' \<and>
    gpu_room gd' n \<and> gh_display h' = gh_display h \<and>
    gpu_first_picture block_devices \<lparr>fb_width = rect_width (gh_display h), fb_height = rect_height (gh_display h),
      fb_pixels = (\<lambda>_. \<lparr>px_r = 0, px_g = 0, px_b = 0, px_a = 0\<rparr>)\<rparr> = Some (gd_fb gd')"
proof -
  define gd0 where "gd0 = gd\<lparr>gd_active := True, gd_mutex := MUTEX_UNLOCKED\<rparr>"
  have d0: "gd_queue_size gd0 = 12" "gpu_room gd0 (Suc (Suc (Suc (Suc (Suc (Suc n))))))" "gd_mutex gd0 = MUTEX_UNLOCKED"
    using dev by (simp_all add: gd0_def gpu_room_def)
  obtain gd1 info where 1: "gpu_get_display_info serve tr kcalloc gd0 h (kcalloc 408) = Some (gd1, h, info, 0)"
    "resp_rectangle info = gh_display h" "gpu_next gd0 gd1"
    using gpu_info_answered [OF dev(1) d0(1,2) dev(4), of h tr] h by (auto simp: gpu_ready_def)
  define fb where "fb = \<lparr>fb_width = rect_width (gh_display h), fb_height = rect_height (gh_display h),
      fb_pixels = (\<lambda>_. \<lparr>px_r = 0, px_g = 0, px_b = 0, px_a = 0 :: u8\<rparr>)\<rparr>"
  define gd2 where "gd2 = gd1\<lparr>gd_fb := fb, gd_pixels := kcalloc (4 * rect_width (gh_display h) * rect_height (gh_display h))\<rparr>"
  have d2: "gd_queue_size gd2 = 12" "gpu_room gd2 (Suc (Suc (Suc (Suc (Suc n)))))" "gd_mutex gd2 = MUTEX_UNLOCKED"
      "gd_pixels gd2 \<noteq> NULL" "gd_fb gd2 = fb"
    using 1(3) d0 gpu_room_next [OF 1(3) d0(2)] dev(4) by (auto simp: gd2_def gpu_next_def gpu_room_def)
  obtain gd3 h3 where 3: "gpu_make_resource serve tr kcalloc gd2 h = Some (gd3, h3, 0)"
    "gd_fb gd3 = fb" "gd_pixels gd3 \<noteq> NULL" "gd_mutex gd3 = MUTEX_UNLOCKED" "gd_queue_size gd3 = 12" "gpu_room gd3 (Suc (Suc n))"
    "gpu_attached fb h3" "gh_display h3 = gh_display h"
    using gpu_make_resource_attaches [OF dev(1) d2(1,2) dev(4), of h tr] h d2(3-5) by (auto simp: gpu_ready_def)
  obtain fb' where fb': "gpu_first_picture block_devices fb = Some fb'" "fb_width fb' = fb_width fb" "fb_height fb' = fb_height fb"
    using gpu_first_picture_drawn [of fb block_devices] h by (auto simp: gpu_ready_def fb_def)
  let ?gd = "gd3\<lparr>gd_fb := fb'\<rparr>"
  have att: "gpu_attached (gd_fb ?gd) h3" "gpu_room ?gd (Suc (Suc n))" "gd_queue_size ?gd = 12" "gd_mutex ?gd = MUTEX_UNLOCKED"
    "rect_in (whole (gd_fb ?gd)) (fb_width (gd_fb ?gd), fb_height (gd_fb ?gd))"
    "unat (fb_width (gd_fb ?gd)) * unat (fb_height (gd_fb ?gd)) < 2 ^ 32"
    using 3 fb' h by (simp_all add: gpu_attached_def gpu_room_def whole_def rect_in_def gpu_ready_def fb_def)
  obtain gd4 h4 where 4: "gpu_transfer_and_flush_some serve tr kcalloc ?gd h3 (whole fb') = Some (gd4, h4, 0)"
    "gd_fb gd4 = fb'" "gd_pixels gd4 \<noteq> NULL" "\<not> gd_active gd4" "gd_mutex gd4 = MUTEX_UNLOCKED" "gd_queue_size gd4 = 12"
    "gpu_room gd4 n" "gpu_attached fb' h4" "gh_display h4 = gh_display h"
    and scr: "\<forall>x y. gh_screen h4 x y = (if in_rect (whole fb') x y then fb_pixels fb' (unat (fb_width fb') * y + x) else gh_screen h3 x y)"
    using transfer_and_flush_shows [OF dev(1) att(3,2) dev(4) att(4,1,5,6), of tr] 3(3,8) by auto
  have "gpu_init serve tr kcalloc block_devices gd h = Some (gd4, h4, 0)"
    using gd 1(1,2) 3(1,2) fb'(1) 4(1)
    by (simp add: gpu_init_def mutex_try_def mutex_post_def Let_def gpu_transfer_and_flush_def whole_def
        flip: gd0_def fb_def gd2_def)
  moreover have "gpu_running gd4 h4"
    using 4 fb' scr by (simp add: gpu_running_def in_rect_def whole_def fb_def)
  ultimately show ?thesis using 4(2,7,9) fb'(1) by (simp add: fb_def)
qed

text \<open>
  A transfer of a rectangle of the frame buffer returns 0 and changes the screen to what was drawn
  there, and nothing else of it.
\<close>

theorem gpu_transfer_and_flush_some_correct:
  assumes "gpu_conforming 12 serve" "gpu_running gd h" "gpu_room gd 2" "\<forall>s. kcalloc s \<noteq> NULL"
    and "rect_in r (fb_width (gd_fb gd), fb_height (gd_fb gd))" "unat (fb_width (gd_fb gd)) * unat (fb_height (gd_fb gd)) < 2 ^ 32"
  shows "\<exists>gd' h'. gpu_transfer_and_flush_some serve tr kcalloc (gd\<lparr>gd_fb := (gd_fb gd)\<lparr>fb_pixels := px\<rparr>\<rparr>) h r = Some (gd', h', 0) \<and>
    gd_fb gd' = (gd_fb gd)\<lparr>fb_pixels := px\<rparr> \<and> \<not> gd_active gd' \<and> gd_mutex gd' = MUTEX_UNLOCKED \<and> gpu_attached (gd_fb gd') h' \<and>
    (\<forall>x y. gh_screen h' x y = (if in_rect r x y then px (unat (fb_width (gd_fb gd)) * y + x) else gh_screen h x y))"
proof -
  let ?gd = "gd\<lparr>gd_fb := (gd_fb gd)\<lparr>fb_pixels := px\<rparr>\<rparr>"
  have "gd_queue_size ?gd = 12" "gpu_room ?gd 2" "gd_mutex ?gd = MUTEX_UNLOCKED" "gpu_attached (gd_fb ?gd) h"
    using assms(2,3) by (simp_all add: gpu_running_def gpu_room_def gpu_attached_def whole_def)
  from transfer_and_flush_shows [OF assms(1) this(1) this(2) [unfolded numeral_2_eq_2] assms(4) this(3,4), of r tr] assms(5,6) show ?thesis by fastforce
qed

lemma gpu_reinit_runs:
  assumes dev: "gpu_conforming 12 serve" "gd_queue_size gd = 12" "gpu_room gd 7" "\<forall>s. kcalloc s \<noteq> NULL"
    and gd: "gd_mutex gd = MUTEX_UNLOCKED" and h: "gh_resource h 1 \<noteq> None"
    and ready: "gpu_ready (h\<lparr>gh_resource := (gh_resource h)(1 := None), gh_backing := (gh_backing h)(1 := None)\<rparr>)"
  shows "\<exists>gd' h'. gpu_reinit serve tr kcalloc block_devices gd h = Some (gd', h') \<and> gpu_running gd' h' \<and>
    gh_display h' = gh_display h"
proof -
  define gd0 where "gd0 = gd\<lparr>gd_active := True, gd_mutex := MUTEX_UNLOCKED\<rparr>"
  have "gpu_room gd0 7" using dev(3) by (simp add: gd0_def gpu_room_def)
  then have d0: "gd_queue_size gd0 = 12" "gpu_room gd0 (Suc (Suc (Suc (Suc (Suc (Suc (Suc 0)))))))" "gd_mutex gd0 = MUTEX_UNLOCKED"
    using dev by (simp_all add: gd0_def eval_nat_numeral)
  let ?u = "Resource_unref 1" and ?mem = "fb_pixels (gd_fb gd0)"
  let ?h1 = "fst (gpu_exec h ?mem ?u)"
  obtain gd1 where 1: "gpu_request_write_poll serve tr gd0 h ?u (kcalloc 32) 32 NULL 0 (kcalloc 24) 24 =
      Some (gd1, ?h1, snd (gpu_exec h ?mem ?u), 0)" "gpu_next gd0 gd1"
    using gpu_write_answered [OF dev(1) d0(1,2) dev(4), of ?u 32 24 tr h] by auto
  let ?gd2 = "gd1\<lparr>gd_active := False\<rparr>"
  have d2: "gd_queue_size ?gd2 = 12" "gpu_room ?gd2 (Suc (Suc (Suc (Suc (Suc (Suc 0))))))" "gd_mutex ?gd2 = MUTEX_UNLOCKED"
    "\<not> gd_active ?gd2" "gpu_deactivate gd1 = Some ?gd2"
    using 1(2) d0 gpu_room_next [OF 1(2) d0(2)] by (auto simp: gpu_next_def gpu_room_def gpu_deactivate_unlocked)
  have r: "gpu_ready ?h1" "gh_display ?h1 = gh_display h" using ready h by (auto simp: gpu_ready_def)
  obtain gd3 h3 where 3: "gpu_init serve tr kcalloc block_devices ?gd2 ?h1 = Some (gd3, h3, 0)" "gpu_running gd3 h3"
    "gh_display h3 = gh_display h"
    using gpu_init_runs [OF dev(1) d2(1,2) dev(4) d2(4,3) r(1)] r(2) by metis
  have "gpu_deactivate gd3 = Some gd3"
    using 3(2) by (simp add: gpu_deactivate_unlocked gpu_running_def)
  then have "gpu_reinit serve tr kcalloc block_devices gd h = Some (gd3, h3)"
    using gd 1(1) d2(5) 3(1) by (simp add: gpu_reinit_def mutex_try_def mutex_post_def flip: gd0_def)
  then show ?thesis using 3 by blast
qed


section \<open>Concrete instances\<close>

text \<open>A device that executes every request at once.\<close>

definition demo_serve :: "gpu_host gpu_fun" where
  "demo_serve h vq mem rq = (fst (gpu_exec h mem rq), returned vq 12, snd (gpu_exec h mem rq))"

definition demo_gpu :: "u64 \<Rightarrow> gpu_device" where
  "demo_gpu pixels = \<lparr>gd_queue_size = 12,
     gd_vq = \<lparr>vq_descriptor = (\<lambda>_. \<lparr>vd_address = 0, vd_length = 0, vd_flags = 0, vd_next = 0\<rparr>), vq_driver_idx = 0xffff,
              vq_driver_ring = (\<lambda>_. 0), vq_device_idx = 0xffff, vq_device_ring = (\<lambda>_. 0)\<rparr>,
     gd_fb = \<lparr>fb_width = 64, fb_height = 48, fb_pixels = (\<lambda>_. \<lparr>px_r = 0, px_g = 0, px_b = 0, px_a = 0\<rparr>)\<rparr>,
     gd_pixels = pixels, gd_active = False, gd_requests_idx = 0xfffe, gd_acknowledged_idx = 0xfffc, gd_mutex = MUTEX_UNLOCKED\<rparr>"

definition demo_host :: "u32 \<Rightarrow> u32 \<Rightarrow> (u32 \<times> u32) option \<Rightarrow> gpu_host" where
  "demo_host w ht res = \<lparr>gh_display = \<lparr>rect_x = 0, rect_y = 0, rect_width = w, rect_height = ht\<rparr>, gh_enabled = 1,
     gh_resource = (\<lambda>i. if i = 1 then res else None), gh_backing = (\<lambda>i. if i = 1 \<and> res \<noteq> None then Some 12288 else None),
     gh_scanout = map_option (\<lambda>(a, b). (\<lparr>rect_x = 0, rect_y = 0, rect_width = a, rect_height = b\<rparr>, 1)) res,
     gh_contents = (\<lambda>_ _ _. \<lparr>px_r = 0, px_g = 0, px_b = 0, px_a = 0\<rparr>), gh_screen = (\<lambda>_ _. \<lparr>px_r = 0, px_g = 0, px_b = 0, px_a = 0\<rparr>)\<rparr>"

lemma demo_serve_conforming: "gpu_conforming 12 demo_serve"
  by (simp add: gpu_conforming_def demo_serve_def)

theorem gpu_transfer_and_flush_some_correct_witness:
  "\<exists>gd' h'. gpu_transfer_and_flush_some demo_serve id (\<lambda>_. 0x8000)
       ((demo_gpu 0x9000)\<lparr>gd_fb := (gd_fb (demo_gpu 0x9000))\<lparr>fb_pixels := (\<lambda>_. \<lparr>px_r = 7, px_g = 0, px_b = 0, px_a = 0\<rparr>)\<rparr>\<rparr>)
       (demo_host 64 48 (Some (64, 48))) \<lparr>rect_x = 10, rect_y = 20, rect_width = 5, rect_height = 6\<rparr> = Some (gd', h', 0) \<and>
     px_r (gh_screen h' 14 25) = 7 \<and> px_r (gh_screen h' 15 25) = 0"
proof -
  let ?r = "\<lparr>rect_x = 10, rect_y = 20, rect_width = 5, rect_height = 6\<rparr>"
  have run: "gpu_running (demo_gpu 0x9000) (demo_host 64 48 (Some (64, 48)))"
    by (simp add: gpu_running_def demo_gpu_def demo_host_def gpu_attached_def whole_def)
  have room: "gpu_room (demo_gpu 0x9000) 2" by (simp add: gpu_room_def demo_gpu_def)
  have r: "rect_in ?r (fb_width (gd_fb (demo_gpu 0x9000)), fb_height (gd_fb (demo_gpu 0x9000)))"
    "unat (fb_width (gd_fb (demo_gpu 0x9000))) * unat (fb_height (gd_fb (demo_gpu 0x9000))) < 2 ^ 32"
    by (simp_all add: rect_in_def demo_gpu_def)
  have i: "in_rect ?r 14 25" "\<not> in_rect ?r 15 25" by (simp_all add: in_rect_def)
  show ?thesis
    using gpu_transfer_and_flush_some_correct [where px = "\<lambda>_. \<lparr>px_r = 7, px_g = 0, px_b = 0, px_a = 0\<rparr>" and kcalloc = "\<lambda>_. 0x8000"
        and tr = id, OF demo_serve_conforming run room _ r] i
    by (fastforce simp: demo_host_def)
qed


end
