(* ===== verification/Drivers.thy ===== *)
theory Drivers
  imports Pcie Input Gpu_Device Page "HOL-Library.Sublist"
begin

text \<open>
  Set-up of the virtio devices: the search for the device's window in the list of memory windows, the
  handshake over the registers of the common configuration, the queue in the kernel's memory, and the
  registration of the interrupt (\<open>virtio_pcie_*_driver\<close> of \<^verbatim>\<open>src/rng.c\<close>, \<^verbatim>\<open>src/block.c\<close>, \<^verbatim>\<open>src/gpu.c\<close> and
  \<^verbatim>\<open>src/input.c\<close>), the requests for random numbers, and the scan of the buses in \<^verbatim>\<open>src/pcie.c\<close> that calls
  the drivers. The registers of all devices are a map from addresses; \<open>react\<close> is what a device makes of
  its registers after one of them was written. The addresses that \<open>kcalloc\<close> returns and the translation
  of the kernel's page table are parameters. An access through a pointer that was not set is \<open>None\<close>.
\<close>

unbundle bit_operations_syntax

section \<open>The common part of the drivers\<close>

record common_cfg =
  cc_device_status :: u8
  cc_queue_select :: u16
  cc_queue_size :: u16
  cc_queue_enable :: u16
  cc_queue_desc :: u64
  cc_queue_driver :: u64
  cc_queue_device :: u64

type_synonym registers = "u64 \<Rightarrow> common_cfg"
type_synonym reaction = "u64 \<Rightarrow> common_cfg \<Rightarrow> common_cfg"

abbreviation (input) VIRTIO_DEV_STATUS_RESET :: u8 where "VIRTIO_DEV_STATUS_RESET \<equiv> 0"
abbreviation (input) VIRTIO_DEV_STATUS_ACKNOWLEDGE :: u8 where "VIRTIO_DEV_STATUS_ACKNOWLEDGE \<equiv> 1"
abbreviation (input) VIRTIO_DEV_STATUS_DRIVER :: u8 where "VIRTIO_DEV_STATUS_DRIVER \<equiv> 2"
abbreviation (input) VIRTIO_DEV_STATUS_DRIVER_OK :: u8 where "VIRTIO_DEV_STATUS_DRIVER_OK \<equiv> 4"
abbreviation (input) VIRTIO_DEV_STATUS_FEATURES_OK :: u8 where "VIRTIO_DEV_STATUS_FEATURES_OK \<equiv> 8"

text \<open>The entries of the list are searched from the last to the first.\<close>

fun find_bar :: "bar_entry list \<Rightarrow> pcie_driver \<Rightarrow> nat \<Rightarrow> nat option" where
  "find_bar occupied dev 0 = None"
| "find_bar occupied dev (Suc i) =
     (if be_vendor (occupied ! i) = drv_vendor_id dev \<and> be_device (occupied ! i) = drv_device_id dev then Some i
      else find_bar occupied dev i)"

record virtio_window =
  vw_common_config :: u64
  vw_notify :: u64
  vw_isr :: u64
  vw_specific :: u64
  vw_which_irq :: u16

definition bar_register :: "bar_entry list \<Rightarrow> nat \<Rightarrow> nat \<Rightarrow> u64" where
  "bar_register occupied i cap = ucast (0x40000000 + of_nat i * 0x00100000 + be_offsets (occupied ! i) ! cap :: u32)"

definition virtio_window_at :: "bar_entry list \<Rightarrow> nat \<Rightarrow> virtio_window" where
  "virtio_window_at occupied i =
     \<lparr>vw_common_config = bar_register occupied i 1, vw_notify = bar_register occupied i 2, vw_isr = bar_register occupied i 3,
      vw_specific = bar_register occupied i 4, vw_which_irq = be_which_irq (occupied ! i)\<rparr>"

text \<open>A register of the device at an address is written.\<close>

definition write_cfg :: "reaction \<Rightarrow> registers \<Rightarrow> u64 \<Rightarrow> (common_cfg \<Rightarrow> common_cfg) \<Rightarrow> registers" where
  "write_cfg react regs a f = regs(a := react a (f (regs a)))"

definition set_status :: "reaction \<Rightarrow> registers \<Rightarrow> u64 \<Rightarrow> u8 \<Rightarrow> registers" where
  "set_status react regs a s = write_cfg react regs a (\<lambda>c. c\<lparr>cc_device_status := s\<rparr>)"

definition or_status :: "reaction \<Rightarrow> registers \<Rightarrow> u64 \<Rightarrow> u8 \<Rightarrow> registers" where
  "or_status react regs a s = set_status react regs a (cc_device_status (regs a) OR s)"

text \<open>Steps 1 to 3: reset, acknowledge, driver.\<close>

definition virtio_hello :: "reaction \<Rightarrow> registers \<Rightarrow> u64 \<Rightarrow> registers" where
  "virtio_hello react regs a =
     or_status react (set_status react (set_status react regs a VIRTIO_DEV_STATUS_RESET) a VIRTIO_DEV_STATUS_ACKNOWLEDGE)
       a VIRTIO_DEV_STATUS_DRIVER"

text \<open>Steps 4 to 6: a size for the queue, where one is asked for, and whether the device agrees.\<close>

definition virtio_negotiate :: "reaction \<Rightarrow> registers \<Rightarrow> u64 \<Rightarrow> u16 option \<Rightarrow> registers \<times> int" where
  "virtio_negotiate react regs a queue_size =
     (let (r1, ok) = (case queue_size of
            None \<Rightarrow> (regs, True)
          | Some q \<Rightarrow> (let r = write_cfg react regs a (\<lambda>c. c\<lparr>cc_queue_size := q\<rparr>) in (r, cc_queue_size (r a) = q)))
      in if \<not> ok then (r1, 3)
         else
           (let r2 = or_status react r1 a VIRTIO_DEV_STATUS_FEATURES_OK
            in if cc_device_status (r2 a) AND VIRTIO_DEV_STATUS_FEATURES_OK \<noteq> 0 then (r2, 0) else (r2, 2)))"

record queue_addresses =
  qa_descriptor :: u64
  qa_driver :: u64
  qa_device :: u64

text \<open>Steps 7 and 8: the queue's three parts are allocated and announced by their physical addresses.\<close>

definition virtio_queue ::
    "reaction \<Rightarrow> (u64 \<Rightarrow> u64) \<Rightarrow> (u64 \<Rightarrow> u64) \<Rightarrow> registers \<Rightarrow> u64 \<Rightarrow> registers \<times> u16 \<times> queue_addresses" where
  "virtio_queue react tr kcalloc regs a =
     (let r1 = write_cfg react regs a (\<lambda>c. c\<lparr>cc_queue_select := 0\<rparr>);
          queue_size = cc_queue_size (r1 a);
          descriptor = kcalloc (16 * ucast queue_size);
          r2 = write_cfg react r1 a (\<lambda>c. c\<lparr>cc_queue_desc := tr descriptor\<rparr>);
          driver = kcalloc (2 * (ucast queue_size + 3));
          r3 = write_cfg react r2 a (\<lambda>c. c\<lparr>cc_queue_driver := tr driver\<rparr>);
          device = kcalloc (2 * 3 + 8 * ucast queue_size);
          r4 = write_cfg react r3 a (\<lambda>c. c\<lparr>cc_queue_device := tr device\<rparr>);
          r5 = write_cfg react r4 a (\<lambda>c. c\<lparr>cc_queue_enable := 1\<rparr>);
          r6 = or_status react r5 a VIRTIO_DEV_STATUS_DRIVER_OK
      in (r6, queue_size, \<lparr>qa_descriptor = descriptor, qa_driver = driver, qa_device = device\<rparr>))"

text \<open>A queue in memory that \<open>kcalloc\<close> has cleared.\<close>

definition fresh_virtq :: virtq where
  "fresh_virtq = \<lparr>vq_descriptor = (\<lambda>_. \<lparr>vd_address = 0, vd_length = 0, vd_flags = 0, vd_next = 0\<rparr>), vq_driver_idx = 0,
     vq_driver_ring = (\<lambda>_. 0), vq_device_idx = 0, vq_device_ring = (\<lambda>_. 0)\<rparr>"

section \<open>Random numbers\<close>

record rng_device =
  rng_window :: virtio_window
  rng_queue :: queue_addresses
  rng_vq :: virtq
  rng_enabled :: bool
  rng_at_idx :: u16
  rng_acknowledged_idx :: u16

type_synonym 's handlers = "(u32 \<times> ('s \<Rightarrow> 's)) list"

definition virtio_pcie_rng_driver ::
    "reaction \<Rightarrow> (u64 \<Rightarrow> u64) \<Rightarrow> (u64 \<Rightarrow> u64) \<Rightarrow> ('s \<Rightarrow> 's) \<Rightarrow> bar_entry list \<Rightarrow> pcie_driver \<Rightarrow>
     registers \<times> 's handlers \<times> rng_device \<Rightarrow> (registers \<times> 's handlers \<times> rng_device) \<times> int" where
  "virtio_pcie_rng_driver react tr kcalloc irq_handler occupied dev = (\<lambda>(regs, irqs, rng).
     case find_bar occupied dev 16 of
       None \<Rightarrow> ((regs, irqs, rng), 1)
     | Some i \<Rightarrow>
         (let w = virtio_window_at occupied i; a = vw_common_config w;
              (r1, e) = virtio_negotiate react (virtio_hello react regs a) a None
          in if e \<noteq> 0 then ((r1, irqs, rng\<lparr>rng_window := w\<rparr>), e)
             else
               (let (r2, queue_size, q) = virtio_queue react tr kcalloc r1 a
                in ((r2, pcie_register_irq irqs (ucast (vw_which_irq w)) irq_handler,
                     \<lparr>rng_window = w, rng_queue = q, rng_vq = fresh_virtq, rng_enabled = True, rng_at_idx = 0, rng_acknowledged_idx = 0\<rparr>), 0))))"

text \<open>
  A request for random bytes; \<open>serve\<close> is the device, which sees the queue and the memory. The size of
  the queue is read from the register.
\<close>

type_synonym 'h rng_fun = "'h \<Rightarrow> virtq \<Rightarrow> mem \<Rightarrow> 'h \<times> virtq \<times> mem"

definition rng_fill_poll ::
    "'h rng_fun \<Rightarrow> (u64 \<Rightarrow> u64) \<Rightarrow> u16 \<Rightarrow> rng_device \<Rightarrow> 'h \<Rightarrow> mem \<Rightarrow> u64 \<Rightarrow> u32 \<Rightarrow> (rng_device \<times> 'h \<times> mem \<times> int) option" where
  "rng_fill_poll serve tr queue_size rng h m buffer bytes =
     (if \<not> rng_enabled rng then Some (rng, h, m, 1)
      else if bytes = 0 then Some (rng, h, m, 2)
      else
        (let at_idx = rng_at_idx rng mod queue_size;
             vq1 = set_desc (rng_vq rng) at_idx \<lparr>vd_address = tr buffer, vd_length = bytes, vd_flags = VIRTQ_DESC_FLAG_WRITE, vd_next = 0\<rparr>;
             vq2 = publish vq1 queue_size at_idx;
             (h1, vq3, m1) = serve h vq2 m;
             rng1 = rng\<lparr>rng_vq := vq3, rng_at_idx := rng_at_idx rng + 1\<rparr>
         in case wait_request vq3 queue_size at_idx (rng_acknowledged_idx rng1) of
              None \<Rightarrow> None
            | Some _ \<Rightarrow> Some (rng1, h1, m1, 0)))"

definition rng_irq_handler :: "bool \<Rightarrow> rng_device \<Rightarrow> rng_device" where
  "rng_irq_handler queue_interrupt rng =
     (if queue_interrupt then rng\<lparr>rng_acknowledged_idx := vq_device_idx (rng_vq rng)\<rparr> else rng)"

text \<open>The byte is a local variable at an address of the stack.\<close>

definition rand8 :: "'h rng_fun \<Rightarrow> (u64 \<Rightarrow> u64) \<Rightarrow> u16 \<Rightarrow> rng_device \<Rightarrow> 'h \<Rightarrow> mem \<Rightarrow> u64 \<Rightarrow> (rng_device \<times> 'h \<times> mem \<times> u8) option" where
  "rand8 serve tr queue_size rng h m r =
     (case rng_fill_poll serve tr queue_size rng h m r 1 of None \<Rightarrow> None | Some (rng1, h1, m1, _) \<Rightarrow> Some (rng1, h1, m1, m1 r))"

section \<open>Block devices\<close>

record block_set_up =
  bs_window :: virtio_window
  bs_queue :: queue_addresses
  bs_queue_size :: u16
  bs_vq :: virtq
  bs_requests_idx :: u16
  bs_acknowledged_idx :: u16
  bs_enabled :: bool

text \<open>The array of devices is copied to a longer one: a list that grows at its end.\<close>

definition virtio_pcie_block_driver ::
    "reaction \<Rightarrow> (u64 \<Rightarrow> u64) \<Rightarrow> (u64 \<Rightarrow> u64) \<Rightarrow> ('s \<Rightarrow> 's) \<Rightarrow> bar_entry list \<Rightarrow> pcie_driver \<Rightarrow>
     registers \<times> 's handlers \<times> block_set_up list \<Rightarrow> (registers \<times> 's handlers \<times> block_set_up list) \<times> int" where
  "virtio_pcie_block_driver react tr kcalloc irq_handler occupied dev = (\<lambda>(regs, irqs, block_devices).
     case find_bar occupied dev 16 of
       None \<Rightarrow> ((regs, irqs, block_devices), 1)
     | Some i \<Rightarrow>
         (let w = virtio_window_at occupied i; a = vw_common_config w;
              (r1, e) = virtio_negotiate react (virtio_hello react regs a) a (Some 256)
          in if e \<noteq> 0 then ((r1, irqs, block_devices), e)
             else
               (let (r2, queue_size, q) = virtio_queue react tr kcalloc r1 a;
                    block_device = \<lparr>bs_window = w, bs_queue = q, bs_queue_size = queue_size, bs_vq = fresh_virtq,
                      bs_requests_idx = 0, bs_acknowledged_idx = 0, bs_enabled = True\<rparr>
                in ((r2, pcie_register_irq irqs (ucast (vw_which_irq w)) irq_handler, block_devices @ [block_device]), 0))))"

section \<open>GPU\<close>

text \<open>A GPU that is not found leaves pointers that are not set.\<close>

record gpu_set_up =
  gs_window :: virtio_window
  gs_queue :: queue_addresses
  gs_enabled :: bool
  gs_device :: gpu_device

definition virtio_pcie_gpu_driver ::
    "reaction \<Rightarrow> (u64 \<Rightarrow> u64) \<Rightarrow> (u64 \<Rightarrow> u64) \<Rightarrow> ('s \<Rightarrow> 's) \<Rightarrow> bar_entry list \<Rightarrow> pcie_driver \<Rightarrow>
     registers \<times> 's handlers \<times> gpu_set_up \<Rightarrow> ((registers \<times> 's handlers \<times> gpu_set_up) \<times> int) option" where
  "virtio_pcie_gpu_driver react tr kcalloc irq_handler occupied dev = (\<lambda>(regs, irqs, gpu).
     case find_bar occupied dev 16 of
       None \<Rightarrow> None
     | Some i \<Rightarrow>
         (let w = virtio_window_at occupied i; a = vw_common_config w;
              (r1, e) = virtio_negotiate react (virtio_hello react regs a) a (Some 12)
          in if e \<noteq> 0 then Some ((r1, irqs, gpu\<lparr>gs_window := w\<rparr>), e)
             else
               (let (r2, queue_size, q) = virtio_queue react tr kcalloc r1 a;
                    gd = (gs_device gpu)\<lparr>gd_queue_size := queue_size, gd_vq := fresh_virtq, gd_requests_idx := 0,
                      gd_acknowledged_idx := 0, gd_pixels := NULL, gd_active := False, gd_mutex := MUTEX_UNLOCKED\<rparr>
                in Some ((r2, pcie_register_irq irqs (ucast (vw_which_irq w)) irq_handler,
                     \<lparr>gs_window = w, gs_queue = q, gs_enabled = True, gs_device = gd\<rparr>), 0))))"

section \<open>Input devices\<close>

text \<open>All buffers of the device are offered to it.\<close>

fun offer_buffers :: "(u64 \<Rightarrow> u64) \<Rightarrow> u64 \<Rightarrow> u16 \<Rightarrow> nat list \<Rightarrow> virtq \<times> u16 \<Rightarrow> virtq \<times> u16" where
  "offer_buffers tr input_events_buffer queue_size [] (vq, requests) = (vq, requests)"
| "offer_buffers tr input_events_buffer queue_size (i # is) (vq, requests) =
     (let vq1 = set_desc vq (of_nat i) \<lparr>vd_address = tr (input_events_buffer + 8 * of_nat i), vd_length = 8,
              vd_flags = VIRTQ_DESC_FLAG_WRITE, vd_next = 0\<rparr>;
          vq2 = publish vq1 queue_size (of_nat i)
      in offer_buffers tr input_events_buffer queue_size is (vq2, requests + 1))"

record input_set_up =
  is_window :: virtio_window
  is_queue :: queue_addresses
  is_queue_size :: u16
  is_vq :: virtq
  is_requests_idx :: u16
  is_acknowledged_idx :: u16
  is_enabled :: bool

record 's input_state =
  ip_regs :: registers
  ip_irqs :: "'s handlers"
  ip_mem :: mem
  ip_ring :: "ie_ring_buffer option"
  ip_ring_mutex :: int
  ip_devices :: "input_set_up list"

text \<open>
  The device is copied into the array before its buffers are offered; the copy shares the queue, but
  its count of requests stays zero. The ring of events is made for the first device, from the freshly
  allocated \<open>elements\<close>, and releases the ring's mutex.
\<close>

definition virtio_pcie_input_driver ::
    "reaction \<Rightarrow> (u64 \<Rightarrow> u64) \<Rightarrow> (u64 \<Rightarrow> u64) \<Rightarrow> heap_syms \<Rightarrow> input_event list \<Rightarrow> ('s \<Rightarrow> 's) \<Rightarrow> bar_entry list \<Rightarrow> pcie_driver \<Rightarrow>
     's input_state \<Rightarrow> ('s input_state \<times> int) option" where
  "virtio_pcie_input_driver react tr kcalloc hs elements irq_handler occupied dev st =
     (case find_bar occupied dev 16 of
        None \<Rightarrow> None
      | Some i \<Rightarrow>
          (let w = virtio_window_at occupied i; a = vw_common_config w;
               (r1, e) = virtio_negotiate react (virtio_hello react (ip_regs st) a) a (Some 64)
           in if e \<noteq> 0 then Some (st\<lparr>ip_regs := r1\<rparr>, e)
              else
                (let (r2, queue_size, q) = virtio_queue react tr kcalloc r1 a;
                     bytes_input_events = int (unat queue_size) * 8;
                     num_pages_input_events = (bytes_input_events + int PAGE_SIZE - 1) div int PAGE_SIZE;
                     (m1, input_events_buffer) = page_znalloc hs (ip_mem st) num_pages_input_events;
                     (ring, mutex) = (case ip_ring st of
                         None \<Rightarrow> (Some (ie_ring_buffer_init elements RB_ASK_FOR_MANAGER), mutex_post (ip_ring_mutex st))
                       | Some rb \<Rightarrow> (Some rb, ip_ring_mutex st));
                     (vq, _) = offer_buffers tr input_events_buffer queue_size [0..<unat queue_size] (fresh_virtq, 0);
                     d = \<lparr>is_window = w, is_queue = q, is_queue_size = queue_size, is_vq = vq, is_requests_idx = 0,
                          is_acknowledged_idx = 0, is_enabled = True\<rparr>
                 in Some (st\<lparr>ip_regs := r2, ip_irqs := pcie_register_irq (ip_irqs st) (ucast (vw_which_irq w)) irq_handler,
                            ip_mem := m1, ip_ring := ring, ip_ring_mutex := mutex, ip_devices := ip_devices st @ [d]\<rparr>, 0))))"

section \<open>The scan of the buses\<close>

datatype pcie_slot = Empty_slot | Bridge ecam_bridge | Device ecam_header

text \<open>
  What is plugged in, the list of windows, the number of the next bus, and the state of the drivers.
\<close>

record 's pcie_world =
  pw_slot :: "nat \<Rightarrow> nat \<Rightarrow> pcie_slot"
  pw_occupied :: "bar_entry list"
  pw_bridge_bus_number :: nat
  pw_drivers :: "pcie_driver list"
  pw_state :: 's

text \<open>
  All ones are written to the registers of the BARs; \<open>sized\<close> is what they read then. The check of the
  alignment only prints.
\<close>

fun size_bars :: "(nat \<Rightarrow> u32) \<Rightarrow> nat list \<Rightarrow> u32 list \<Rightarrow> u32 list option" where
  "size_bars sized [] bars = Some bars"
| "size_bars sized [i] bars =
     (if sized i \<noteq> 0 \<and> PCIE_BAR_IS_64_BIT (sized i) then None else Some (bars[i := sized i]))"
| "size_bars sized (i # j # is) bars =
     (let bars1 = bars[i := sized i] in
      if sized i \<noteq> 0 \<and> PCIE_BAR_IS_64_BIT (sized i) then size_bars sized is (bars1[j := sized j])
      else size_bars sized (j # is) bars1)"

definition set_slot :: "'s pcie_world \<Rightarrow> nat \<Rightarrow> nat \<Rightarrow> pcie_slot \<Rightarrow> 's pcie_world" where
  "set_slot w bus slot d = w\<lparr>pw_slot := (pw_slot w)(bus := (pw_slot w bus)(slot := d))\<rparr>"

text \<open>
  One slot: \<open>visible\<close> says whether the configuration space answers, which depends on the bridges set up
  so far; \<open>run\<close> is the call of a driver's function, on the list of windows and the drivers' state.
\<close>

definition scan_slot ::
    "((nat \<Rightarrow> nat \<Rightarrow> pcie_slot) \<Rightarrow> nat \<Rightarrow> nat \<Rightarrow> bool) \<Rightarrow> (ecam_header \<Rightarrow> nat \<Rightarrow> u32) \<Rightarrow>
     (pcie_driver \<Rightarrow> bar_entry list \<Rightarrow> 's \<Rightarrow> 's option) \<Rightarrow> 's pcie_world \<Rightarrow> nat \<times> nat \<Rightarrow> 's pcie_world option" where
  "scan_slot visible sized run w = (\<lambda>(bus, slot).
     if \<not> visible (pw_slot w) bus slot then Some w
     else
       (case pw_slot w bus slot of
          Empty_slot \<Rightarrow> Some w
        | Bridge ec \<Rightarrow>
            (let (ec1, n) = pcie_init_bridge ec bus (pw_bridge_bus_number w)
             in Some ((set_slot w bus slot (Bridge ec1))\<lparr>pw_bridge_bus_number := n\<rparr>))
        | Device ec \<Rightarrow>
            (case size_bars (sized ec) [0..<6] (ec_bar ec) of
               None \<Rightarrow> None
             | Some bars \<Rightarrow>
                 (let ec1 = ec\<lparr>ec_bar := bars, ec_command_reg := ec_command_reg ec OR 2\<rparr> in
                  case pcie_init_bars (pw_occupied w) ec1 of
                    None \<Rightarrow> None
                  | Some (occupied, ec2) \<Rightarrow>
                      (let w1 = (set_slot w bus slot (Device ec2))\<lparr>pw_occupied := occupied\<rparr> in
                       case pcie_find_driver (pw_drivers w) (ec_vendor_id ec) (ec_device_id ec) of
                         None \<Rightarrow> Some w1
                       | Some d \<Rightarrow> map_option (\<lambda>s. w1\<lparr>pw_state := s\<rparr>) (run d occupied (pw_state w1)))))))"

fun scan_slots where
  "scan_slots visible sized run w [] = Some w"
| "scan_slots visible sized run w (p # ps) =
     (case scan_slot visible sized run w p of None \<Rightarrow> None | Some w1 \<Rightarrow> scan_slots visible sized run w1 ps)"

definition pcie_scan_and_init where
  "pcie_scan_and_init rng block gpu inp visible sized run w =
     scan_slots visible sized run (w\<lparr>pw_drivers := pcie_init_drivers rng block gpu inp (pw_drivers w)\<rparr>)
       (List.product [0..<256] [0..<32])"

section \<open>Every driver gets the window of its own device\<close>

lemma find_bar_last:
  assumes "packed occupied (Suc n)" "length occupied = 16" "be_vendor (occupied ! n) = drv_vendor_id dev"
    "be_device (occupied ! n) = drv_device_id dev"
  shows "find_bar occupied dev 16 = Some n"
proof -
  have n: "n < 16" using assms(1,2) by (simp add: packed_def)
  then have nz: "drv_vendor_id dev \<noteq> 0" using assms unfolding packed_def by (metis lessI)
  have "find_bar occupied dev (Suc n + k) = Some n" if "Suc n + k \<le> 16" for k
    using that
  proof (induction k)
    case (Suc k)
    then have "Suc n + k < length occupied" using assms(2) by simp
    then have "be_vendor (occupied ! (Suc n + k)) = 0"
      using assms(1) unfolding packed_def by (metis not_add_less1)
    then show ?case using Suc nz by simp
  qed (use assms(3,4) in simp)
  from this [of "15 - n"] show ?thesis using n by simp
qed

text \<open>The allocations of a device, from its capabilities.\<close>

definition bar_allocations :: "ecam_header \<Rightarrow> bar_allocation list option" where
  "bar_allocations ec =
     (if ec_status_reg ec AND 16 \<noteq> 0 then
        (case walk_caps ec (unat (ec_capes_pointer ec)) (replicate 6 NO_BAR) (replicate 6 NO_BAR) of
           None \<Rightarrow> None
         | Some (offsets, bars) \<Rightarrow>
             collect_bars offsets bars [0..<6] (replicate 6 \<lparr>al_which_bar = NO_BAR, al_offsets = replicate 6 NO_BAR\<rparr>))
      else Some [])"

lemma pcie_init_bars_allocations:
  "pcie_init_bars occupied ec = (case bar_allocations ec of None \<Rightarrow> None | Some als \<Rightarrow> add_bars occupied ec als)"
  by (simp add: pcie_init_bars_def bar_allocations_def split: option.splits prod.splits)

lemma add_bars_filter: "add_bars occupied ec als = add_bars occupied ec (filter (\<lambda>al. al_which_bar al \<noteq> NO_BAR) als)"
proof (induction als arbitrary: occupied ec)
  case (Cons al als)
  show ?case
  proof (cases "al_which_bar al = NO_BAR")
    case True
    then show ?thesis using Cons by (simp add: pcie_add_to_bar_list_def)
  next
    case False
    then show ?thesis using Cons by (simp split: option.splits)
  qed
qed simp

text \<open>The window of a device all of whose registers are in one BAR.\<close>

definition sized_header :: "(ecam_header \<Rightarrow> nat \<Rightarrow> u32) \<Rightarrow> ecam_header \<Rightarrow> ecam_header option" where
  "sized_header sized ec =
     map_option (\<lambda>bars. ec\<lparr>ec_bar := bars, ec_command_reg := ec_command_reg ec OR 2\<rparr>) (size_bars (sized ec) [0..<6] (ec_bar ec))"

definition window_of :: "(ecam_header \<Rightarrow> nat \<Rightarrow> u32) \<Rightarrow> ecam_header \<Rightarrow> bar_allocation option" where
  "window_of sized ec =
     (case sized_header sized ec of
        None \<Rightarrow> None
      | Some ec1 \<Rightarrow>
          (case bar_allocations ec1 of
             None \<Rightarrow> None
           | Some als \<Rightarrow>
               (case filter (\<lambda>al. al_which_bar al \<noteq> NO_BAR) als of
                  [al] \<Rightarrow> if usable (ec1, al) then Some al else None
                | _ \<Rightarrow> None)))"

definition own_window :: "(ecam_header \<Rightarrow> nat \<Rightarrow> u32) \<Rightarrow> nat \<Rightarrow> ecam_header \<Rightarrow> virtio_window" where
  "own_window sized n ec =
     (let offs = al_offsets (the (window_of sized ec));
          reg = (\<lambda>cap. ucast (0x40000000 + of_nat n * 0x00100000 + offs ! cap :: u32))
      in \<lparr>vw_common_config = reg 1, vw_notify = reg 2, vw_isr = reg 3, vw_specific = reg 4,
          vw_which_irq = ucast (pcie_ecam_to_irq (ec_address ec))\<rparr>)"

lemma add_one_offsets:
  assumes "packed occupied n" and "usable (ec, al)" and "n < length occupied"
  shows "\<exists>o1 ec1. pcie_add_to_bar_list occupied ec al = Some (o1, ec1) \<and> be_offsets (o1 ! n) = al_offsets al"
  using assms free_entry_packed [OF assms(1), of 0]
  by (auto simp: pcie_add_to_bar_list_def Let_def usable_def packed_def)

lemma window_added:
  assumes "packed occupied n" "n < 16" "length occupied = 16" "window_of sized ec \<noteq> None"
  shows "\<exists>ec1 o1 ec2. sized_header sized ec = Some ec1 \<and> pcie_init_bars occupied ec1 = Some (o1, ec2) \<and>
    packed o1 (Suc n) \<and> length o1 = 16 \<and> (\<forall>i. i \<noteq> n \<longrightarrow> o1 ! i = occupied ! i) \<and>
    be_vendor (o1 ! n) = ec_vendor_id ec \<and> be_device (o1 ! n) = ec_device_id ec \<and> virtio_window_at o1 n = own_window sized n ec"
proof -
  obtain ec1 als al where 1: "sized_header sized ec = Some ec1" "bar_allocations ec1 = Some als"
    "filter (\<lambda>al. al_which_bar al \<noteq> NO_BAR) als = [al]" "usable (ec1, al)" "window_of sized ec = Some al"
    using assms(4) by (auto simp: window_of_def split: option.splits list.splits if_splits)
  have same: "ec_vendor_id ec1 = ec_vendor_id ec" "ec_device_id ec1 = ec_device_id ec" "ec_address ec1 = ec_address ec"
    using 1(1) by (auto simp: sized_header_def)
  have "n < length occupied" using assms(2,3) by simp
  then obtain o1 ec2 where 2: "pcie_add_to_bar_list occupied ec1 al = Some (o1, ec2)" "packed o1 (n + 1)" "length o1 = length occupied"
    "\<forall>i. i \<noteq> n \<longrightarrow> o1 ! i = occupied ! i" "be_vendor (o1 ! n) = ec_vendor_id ec1" "be_device (o1 ! n) = ec_device_id ec1"
    "be_which_irq (o1 ! n) = ucast (pcie_ecam_to_irq (ec_address ec1))" "be_offsets (o1 ! n) = al_offsets al"
    using add_one [OF assms(1) 1(4)] add_one_offsets [OF assms(1) 1(4)] by auto
  have "pcie_init_bars occupied ec1 = Some (o1, ec2)"
    using 1(2,3) 2(1) add_bars_filter [of occupied ec1 als] by (simp add: pcie_init_bars_allocations)
  moreover have "virtio_window_at o1 n = own_window sized n ec"
    using 2(7,8) 1(5) same by (simp add: virtio_window_at_def bar_register_def own_window_def Let_def)
  ultimately show ?thesis using 1(1) 2 same assms(3) by simp
qed

text \<open>The devices in the slots of a list, and the drivers run for them, each with its device's window.\<close>

definition slot_devices :: "(nat \<Rightarrow> nat \<Rightarrow> pcie_slot) \<Rightarrow> (nat \<times> nat) list \<Rightarrow> ecam_header list" where
  "slot_devices sl ps = concat (map (\<lambda>(bus, slot). case sl bus slot of Device ec \<Rightarrow> [ec] | _ \<Rightarrow> []) ps)"

fun drive_all :: "(pcie_driver \<Rightarrow> virtio_window \<Rightarrow> 's \<Rightarrow> 's) \<Rightarrow> (ecam_header \<Rightarrow> nat \<Rightarrow> u32) \<Rightarrow> pcie_driver list \<Rightarrow>
    nat \<Rightarrow> ecam_header list \<Rightarrow> 's \<Rightarrow> 's" where
  "drive_all drive sized drivers n [] s = s"
| "drive_all drive sized drivers n (ec # ecs) s =
     drive_all drive sized drivers (Suc n) ecs
       (case pcie_find_driver drivers (ec_vendor_id ec) (ec_device_id ec) of
          None \<Rightarrow> s
        | Some d \<Rightarrow> drive d (own_window sized n ec) s)"

definition run_found :: "(pcie_driver \<Rightarrow> virtio_window \<Rightarrow> 's \<Rightarrow> 's) \<Rightarrow> pcie_driver \<Rightarrow> bar_entry list \<Rightarrow> 's \<Rightarrow> 's option" where
  "run_found drive d occupied s = map_option (\<lambda>i. drive d (virtio_window_at occupied i) s) (find_bar occupied d 16)"

lemma pcie_find_driver_ids:
  "pcie_find_driver drivers v i = Some d \<Longrightarrow> drv_vendor_id d = v \<and> drv_device_id d = i"
  by (auto simp: pcie_find_driver_def find_Some_iff)

lemma scan_device:
  assumes "packed (pw_occupied w) n" "n < 16" "length (pw_occupied w) = 16" "window_of sized ec \<noteq> None"
    and "visible (pw_slot w) bus slot" "pw_slot w bus slot = Device ec"
  shows "\<exists>o1 ec2. scan_slot visible sized (run_found drive) w (bus, slot) =
      Some ((set_slot w bus slot (Device ec2))\<lparr>pw_occupied := o1, pw_state := drive_all drive sized (pw_drivers w) n [ec] (pw_state w)\<rparr>) \<and>
    packed o1 (Suc n) \<and> length o1 = 16 \<and> (\<forall>i. i \<noteq> n \<longrightarrow> o1 ! i = pw_occupied w ! i) \<and>
    virtio_window_at o1 n = own_window sized n ec"
proof -
  obtain ec1 o1 ec2 where 1: "sized_header sized ec = Some ec1" "pcie_init_bars (pw_occupied w) ec1 = Some (o1, ec2)"
    "packed o1 (Suc n)" "length o1 = 16" "\<forall>i. i \<noteq> n \<longrightarrow> o1 ! i = pw_occupied w ! i"
    "be_vendor (o1 ! n) = ec_vendor_id ec" "be_device (o1 ! n) = ec_device_id ec" "virtio_window_at o1 n = own_window sized n ec"
    using window_added [OF assms(1-4)] by auto
  have f: "find_bar o1 d 16 = Some n" if "pcie_find_driver (pw_drivers w) (ec_vendor_id ec) (ec_device_id ec) = Some d" for d
    by (rule find_bar_last [OF 1(3,4)]) (use pcie_find_driver_ids [OF that] 1(6,7) in simp_all)
  obtain bars where "size_bars (sized ec) [0..<6] (ec_bar ec) = Some bars" "ec1 = ec\<lparr>ec_bar := bars, ec_command_reg := ec_command_reg ec OR 2\<rparr>"
    using 1(1) by (auto simp: sized_header_def)
  then have "scan_slot visible sized (run_found drive) w (bus, slot) =
      Some ((set_slot w bus slot (Device ec2))\<lparr>pw_occupied := o1, pw_state := drive_all drive sized (pw_drivers w) n [ec] (pw_state w)\<rparr>)"
    using assms(5,6) 1(2,8) f by (auto simp: scan_slot_def Let_def run_found_def set_slot_def split: option.splits)
  then show ?thesis using 1 by blast
qed

lemma slot_devices_other:
  "p \<notin> set ps \<Longrightarrow> p = (bus, slot) \<Longrightarrow> slot_devices (pw_slot (set_slot w bus slot d)) ps = slot_devices (pw_slot w) ps"
  by (auto simp: slot_devices_def set_slot_def intro!: arg_cong [where f = concat])

lemma scan_other:
  assumes "p \<notin> set ps" "p = (bus, slot)" "\<not> (visible (pw_slot w) bus slot \<and> (\<exists>ec. pw_slot w bus slot = Device ec))"
  shows "\<exists>w1. scan_slot visible sized run w p = Some w1 \<and> pw_occupied w1 = pw_occupied w \<and>
    pw_drivers w1 = pw_drivers w \<and> pw_state w1 = pw_state w \<and> slot_devices (pw_slot w1) ps = slot_devices (pw_slot w) ps"
proof (cases "visible (pw_slot w) bus slot")
  case True
  then show ?thesis
    using assms slot_devices_other [OF assms(1,2), of w]
    by (cases "pw_slot w bus slot") (simp_all add: scan_slot_def Let_def pcie_init_bridge_def, simp_all add: set_slot_def)
qed (use assms(2) in \<open>simp add: scan_slot_def\<close>)

definition all_visible :: "((nat \<Rightarrow> nat \<Rightarrow> pcie_slot) \<Rightarrow> nat \<Rightarrow> nat \<Rightarrow> bool) \<Rightarrow> bool" where
  "all_visible visible \<longleftrightarrow> (\<forall>sl bus slot. visible sl bus slot)"

text \<open>The result of a scan that starts with a number of windows in use.\<close>

definition scanned where
  "scanned drive sized w n w' ds \<longleftrightarrow>
     packed (pw_occupied w') (n + length ds) \<and> length (pw_occupied w') = 16 \<and>
     (\<forall>i < n. pw_occupied w' ! i = pw_occupied w ! i) \<and>
     (\<forall>k < length ds. virtio_window_at (pw_occupied w') (n + k) = own_window sized (n + k) (ds ! k)) \<and>
     pw_drivers w' = pw_drivers w \<and> pw_state w' = drive_all drive sized (pw_drivers w) n ds (pw_state w)"

lemma scan_slots_windows:
  assumes "distinct ps" "packed (pw_occupied w) n" "length (pw_occupied w) = 16"
    and "n + length (slot_devices (pw_slot w) ps) \<le> 16" "\<forall>ec \<in> set (slot_devices (pw_slot w) ps). window_of sized ec \<noteq> None"
  shows "\<exists>w' ds. scan_slots visible sized (run_found drive) w ps = Some w' \<and> subseq ds (slot_devices (pw_slot w) ps) \<and>
    (all_visible visible \<longrightarrow> ds = slot_devices (pw_slot w) ps) \<and> scanned drive sized w n w' ds"
  using assms
proof (induction ps arbitrary: w n)
  case Nil
  then show ?case by (auto simp: scanned_def slot_devices_def)
next
  case (Cons p ps)
  obtain bus slot where p: "p = (bus, slot)" by fastforce
  have sub: "subseq (slot_devices (pw_slot w) ps) (slot_devices (pw_slot w) (p # ps))"
    by (simp add: slot_devices_def list_emb_append2)
  have dist: "distinct ps" "p \<notin> set ps" using Cons.prems(1) by simp_all
  show ?case
  proof (cases "visible (pw_slot w) bus slot \<and> (\<exists>ec. pw_slot w bus slot = Device ec)")
    case True
    then obtain ec where ec: "visible (pw_slot w) bus slot" "pw_slot w bus slot = Device ec" by blast
    have dv: "slot_devices (pw_slot w) (p # ps) = ec # slot_devices (pw_slot w) ps" using ec p by (simp add: slot_devices_def)
    then have "n < 16" "window_of sized ec \<noteq> None" using Cons.prems(4,5) by simp_all
    from scan_device [OF Cons.prems(2) this(1) Cons.prems(3) this(2), where visible = visible, OF ec, of drive] obtain o1 ec2 where
      1: "scan_slot visible sized (run_found drive) w p = Some ((set_slot w bus slot (Device ec2))\<lparr>pw_occupied := o1,
            pw_state := drive_all drive sized (pw_drivers w) n [ec] (pw_state w)\<rparr>)"
        "packed o1 (Suc n)" "length o1 = 16" "\<forall>i. i \<noteq> n \<longrightarrow> o1 ! i = pw_occupied w ! i" "virtio_window_at o1 n = own_window sized n ec"
      using p by auto
    let ?w = "(set_slot w bus slot (Device ec2))\<lparr>pw_occupied := o1, pw_state := drive_all drive sized (pw_drivers w) n [ec] (pw_state w)\<rparr>"
    have d1: "slot_devices (pw_slot ?w) ps = slot_devices (pw_slot w) ps"
      using slot_devices_other [OF dist(2) p, of w "Device ec2"] by (simp add: set_slot_def)
    obtain w' ds where 2: "scan_slots visible sized (run_found drive) ?w ps = Some w'" "subseq ds (slot_devices (pw_slot w) ps)"
        "all_visible visible \<longrightarrow> ds = slot_devices (pw_slot w) ps" "scanned drive sized ?w (Suc n) w' ds"
      using Cons.IH [OF dist(1), of ?w "Suc n", unfolded d1] 1(2,3) Cons.prems(4,5) dv by auto
    have "pw_occupied w' ! n = o1 ! n" using 2(4) by (simp add: scanned_def)
    then have "virtio_window_at (pw_occupied w') n = own_window sized n ec"
      using 1(5) by (simp add: virtio_window_at_def bar_register_def)
    then have "scanned drive sized w n w' (ec # ds)"
      using 2(4) 1(4) by (auto simp: scanned_def set_slot_def nth_Cons split: nat.splits)
    then show ?thesis using 1(1) 2(1-3) dv by (intro exI [of _ w'] exI [of _ "ec # ds"]) simp
  next
    case False
    then obtain w1 where 1: "scan_slot visible sized (run_found drive) w p = Some w1" "pw_occupied w1 = pw_occupied w"
        "pw_drivers w1 = pw_drivers w" "pw_state w1 = pw_state w" "slot_devices (pw_slot w1) ps = slot_devices (pw_slot w) ps"
      using scan_other [OF dist(2) p] by metis
    have "length (slot_devices (pw_slot w) ps) \<le> length (slot_devices (pw_slot w) (p # ps))"
      "set (slot_devices (pw_slot w) ps) \<subseteq> set (slot_devices (pw_slot w) (p # ps))" by (simp_all add: slot_devices_def)
    then obtain w' ds where "scan_slots visible sized (run_found drive) w1 ps = Some w'" "subseq ds (slot_devices (pw_slot w) ps)"
        "scanned drive sized w1 n w' ds" "all_visible visible \<longrightarrow> ds = slot_devices (pw_slot w) ps"
      using Cons.IH [OF dist(1), of w1 n] Cons.prems(2-5) 1(2,5) by fastforce
    moreover have "slot_devices (pw_slot w) (p # ps) = slot_devices (pw_slot w) ps" if "all_visible visible"
      using that False p by (cases "pw_slot w bus slot") (auto simp: slot_devices_def all_visible_def)
    ultimately show ?thesis using 1 subseq_order.order_trans [OF _ sub] by (auto simp: scanned_def)
  qed
qed


section \<open>The handshake\<close>

text \<open>
  A device that accepts the driver: a reset gives it the longest queue it supports, to which longer
  ones are cut; it takes everything else as it is written.
\<close>

definition virtio_accepting :: "u16 \<Rightarrow> (common_cfg \<Rightarrow> common_cfg) \<Rightarrow> bool" where
  "virtio_accepting longest f \<longleftrightarrow>
     (\<forall>c. f c = (if cc_device_status c = 0
                 then \<lparr>cc_device_status = 0, cc_queue_select = 0, cc_queue_size = longest, cc_queue_enable = 0,
                       cc_queue_desc = 0, cc_queue_driver = 0, cc_queue_device = 0\<rparr>
                 else if longest < cc_queue_size c then c\<lparr>cc_queue_size := longest\<rparr> else c))"

definition live_cfg :: "(u64 \<Rightarrow> u64) \<Rightarrow> (u64 \<Rightarrow> u64) \<Rightarrow> u16 \<Rightarrow> common_cfg" where
  "live_cfg tr kcalloc q =
     \<lparr>cc_device_status = 15, cc_queue_select = 0, cc_queue_size = q, cc_queue_enable = 1, cc_queue_desc = tr (kcalloc (16 * ucast q)),
      cc_queue_driver = tr (kcalloc (2 * (ucast q + 3))), cc_queue_device = tr (kcalloc (2 * 3 + 8 * ucast q))\<rparr>"

lemma accepting_simps:
  assumes "virtio_accepting longest f"
  shows "cc_device_status c = 0 \<Longrightarrow> f c = \<lparr>cc_device_status = 0, cc_queue_select = 0, cc_queue_size = longest, cc_queue_enable = 0,
       cc_queue_desc = 0, cc_queue_driver = 0, cc_queue_device = 0\<rparr>"
    and "cc_device_status c \<noteq> 0 \<Longrightarrow> cc_queue_size c \<le> longest \<Longrightarrow> f c = c"
    and "cc_device_status c \<noteq> 0 \<Longrightarrow> longest < cc_queue_size c \<Longrightarrow> f c = c\<lparr>cc_queue_size := longest\<rparr>"
  using assms by (simp_all add: virtio_accepting_def not_less)

lemma virtio_hello_accepted:
  assumes "virtio_accepting longest (react a)"
  shows "virtio_hello react regs a = regs(a := \<lparr>cc_device_status = 3, cc_queue_select = 0, cc_queue_size = longest, cc_queue_enable = 0,
       cc_queue_desc = 0, cc_queue_driver = 0, cc_queue_device = 0\<rparr>)"
  by (simp add: virtio_hello_def or_status_def set_status_def write_cfg_def accepting_simps [OF assms])

lemma virtio_queue_accepted:
  assumes "virtio_accepting longest (react a)" "q \<le> longest" "regs a = \<lparr>cc_device_status = 11, cc_queue_select = 0, cc_queue_size = q,
      cc_queue_enable = 0, cc_queue_desc = 0, cc_queue_driver = 0, cc_queue_device = 0\<rparr>"
  shows "\<exists>qa. virtio_queue react tr kcalloc regs a = (regs(a := live_cfg tr kcalloc q), q, qa)"
  using assms(2,3)
  by (simp add: virtio_queue_def Let_def or_status_def set_status_def write_cfg_def accepting_simps [OF assms(1)] live_cfg_def)

lemma virtio_set_up:
  assumes "virtio_accepting longest (react a)" "q = (case qs of None \<Rightarrow> longest | Some s \<Rightarrow> s)" "q \<le> longest"
  shows "\<exists>r1 qa. virtio_negotiate react (virtio_hello react regs a) a qs = (r1, 0) \<and>
    virtio_queue react tr kcalloc r1 a = (regs(a := live_cfg tr kcalloc q), q, qa)"
proof -
  let ?r = "regs(a := \<lparr>cc_device_status = 11, cc_queue_select = 0, cc_queue_size = q,
      cc_queue_enable = 0, cc_queue_desc = 0, cc_queue_driver = 0, cc_queue_device = 0\<rparr>)"
  have "virtio_negotiate react (virtio_hello react regs a) a qs = (?r, 0)"
    using assms(2,3) unfolding virtio_hello_accepted [where react = react and a = a, OF assms(1)]
    by (cases qs) (simp_all add: virtio_negotiate_def or_status_def set_status_def write_cfg_def accepting_simps [OF assms(1)])
  then show ?thesis using virtio_queue_accepted [where react = react and a = a and regs = ?r, OF assms(1,3), of tr kcalloc] by auto
qed

lemma virtio_refused:
  assumes "virtio_accepting longest (react a)" "longest < q"
  shows "\<exists>c. virtio_negotiate react (virtio_hello react regs a) a (Some q) = (regs(a := c), 3)"
  using assms(2) unfolding virtio_hello_accepted [where react = react and a = a, OF assms(1)]
  by (auto simp: virtio_negotiate_def write_cfg_def accepting_simps [OF assms(1)])

section \<open>Input devices and their events\<close>

lemma offer_buffers_snoc:
  "offer_buffers tr buf q (is @ [i]) s = offer_buffers tr buf q [i] (offer_buffers tr buf q is s)"
  by (induction "is" arbitrary: s) (auto simp: Let_def split: prod.splits)

definition event_buffer :: "(u64 \<Rightarrow> u64) \<Rightarrow> u64 \<Rightarrow> nat \<Rightarrow> virtq_desc" where
  "event_buffer tr buf k = \<lparr>vd_address = tr (buf + 8 * of_nat k), vd_length = 8, vd_flags = VIRTQ_DESC_FLAG_WRITE, vd_next = 0\<rparr>"

lemma offer_buffers_all:
  "n \<le> 64 \<Longrightarrow> \<exists>vq r. offer_buffers tr buf 64 [0..<n] (fresh_virtq, 0) = (vq, r) \<and> vq_driver_idx vq = of_nat n \<and> vq_device_idx vq = 0 \<and>
    (\<forall>k < n. vq_driver_ring vq k = of_nat k \<and> vq_descriptor vq k = event_buffer tr buf k)"
proof (induction n)
  case (Suc n)
  then obtain vq r where vq: "offer_buffers tr buf 64 [0..<n] (fresh_virtq, 0) = (vq, r)" "vq_driver_idx vq = of_nat n"
    "vq_device_idx vq = 0" "\<forall>k < n. vq_driver_ring vq k = of_nat k \<and> vq_descriptor vq k = event_buffer tr buf k" by auto
  have u: "unat (of_nat n :: u16) = n" "unat (of_nat n mod 64 :: u16) = n" using Suc.prems by (simp_all add: unat_of_nat unat_mod)
  have "offer_buffers tr buf 64 [0..<Suc n] (fresh_virtq, 0) = offer_buffers tr buf 64 [n] (vq, r)"
    using offer_buffers_snoc [of tr buf 64 "[0..<n]" n] vq(1) by simp
  then show ?case using vq(2-4) u by (auto simp: set_desc_def publish_def event_buffer_def less_Suc_eq)
qed (simp add: fresh_virtq_def)

text \<open>The record that the interrupt handler sees, when the device has returned buffers up to an index.\<close>

definition input_view :: "input_set_up \<Rightarrow> u16 \<Rightarrow> input_device" where
  "input_view d reported = \<lparr>in_queue_interrupt = True, in_queue_size = is_queue_size d, in_requests_idx = is_requests_idx d,
     in_acknowledged_idx = is_acknowledged_idx d, in_device_idx = reported, in_driver_idx = vq_driver_idx (is_vq d),
     in_descriptor = (\<lambda>k. vd_address (vq_descriptor (is_vq d) (unat k)))\<rparr>"

lemma input_view_pending:
  assumes "n \<le> 64" "is_queue_size d = 64" "is_acknowledged_idx d = 0" "\<forall>k < 64. vq_descriptor (is_vq d) k = event_buffer tr buf k"
  shows "pending_events m (input_view d (of_nat n)) = map (\<lambda>k. event_at m (tr (buf + 8 * of_nat k))) [0..<n]"
proof -
  have "unat (of_nat n :: u16) = n" using assms(1) by (simp add: unat_of_nat)
  moreover have "unat (of_nat k mod 64 :: u16) = k" if "k < n" for k
    using that assms(1) by (simp add: unat_of_nat unat_mod)
  ultimately show ?thesis
    using assms by (auto simp: pending_events_def input_view_def event_buffer_def)
qed

text \<open>
  The input driver brings a device up that supports queues of 64 entries: only the registers of this
  device change, to the status of a running driver with its queue's physical addresses; its interrupt
  is registered, and all 64 buffers are offered to it in order. When the device has written up to 64
  events to these buffers and interrupts, the handler finds exactly these events, in their order. A
  device with shorter queues is refused with 3 and not added.
\<close>

theorem input_driver_correct:
  assumes "find_bar occupied dev 16 = Some i" "win = virtio_window_at occupied i" "a = vw_common_config win"
    and "virtio_accepting longest (react a)" "page_znalloc hs (ip_mem st) 1 = (m1, buf)" "n \<le> 64"
  shows "if 64 \<le> longest then
      \<exists>st' d. virtio_pcie_input_driver react tr kcalloc hs elements handler occupied dev st = Some (st', 0) \<and>
        ip_regs st' = (ip_regs st)(a := live_cfg tr kcalloc 64) \<and> ip_devices st' = ip_devices st @ [d] \<and> is_window d = win \<and>
        ip_irqs st' = ip_irqs st @ [(ucast (vw_which_irq win), handler)] \<and> ip_mem st' = m1 \<and> ip_ring st' \<noteq> None \<and>
        vq_driver_idx (is_vq d) = 64 \<and>
        (\<forall>k < 64. vq_driver_ring (is_vq d) k = of_nat k \<and> vq_descriptor (is_vq d) k = event_buffer tr buf k) \<and>
        pending_events m (input_view d (of_nat n)) = map (\<lambda>k. event_at m (tr (buf + 8 * of_nat k))) [0..<n]
    else \<exists>st'. virtio_pcie_input_driver react tr kcalloc hs elements handler occupied dev st = Some (st', 3) \<and>
        ip_devices st' = ip_devices st \<and> ip_irqs st' = ip_irqs st"
proof (cases "64 \<le> longest")
  case True
  obtain r1 qa where 1: "virtio_negotiate react (virtio_hello react (ip_regs st) a) a (Some 64) = (r1, 0)"
    "virtio_queue react tr kcalloc r1 a = ((ip_regs st)(a := live_cfg tr kcalloc 64), 64, qa)"
    using virtio_set_up [where react = react and a = a and qs = "Some 64", OF assms(4) refl, of "ip_regs st" tr kcalloc] True by auto
  obtain vq r where 2: "offer_buffers tr buf 64 [0..<64] (fresh_virtq, 0) = (vq, r)" "vq_driver_idx vq = 64"
    "\<forall>k < 64. vq_driver_ring vq k = of_nat k \<and> vq_descriptor vq k = event_buffer tr buf k"
    using offer_buffers_all [of 64 tr buf] by auto
  define d where "d = \<lparr>is_window = win, is_queue = qa, is_queue_size = 64, is_vq = vq, is_requests_idx = 0,
      is_acknowledged_idx = 0, is_enabled = True\<rparr>"
  have "pending_events m (input_view d (of_nat n)) = map (\<lambda>k. event_at m (tr (buf + 8 * of_nat k))) [0..<n]"
    by (rule input_view_pending [OF assms(6)]) (use 2(3) in \<open>simp_all add: d_def\<close>)
  moreover obtain st' where "virtio_pcie_input_driver react tr kcalloc hs elements handler occupied dev st = Some (st', 0)"
    "ip_regs st' = (ip_regs st)(a := live_cfg tr kcalloc 64)" "ip_devices st' = ip_devices st @ [d]" "ip_mem st' = m1" "ip_ring st' \<noteq> None"
    "ip_irqs st' = ip_irqs st @ [(ucast (vw_which_irq win), handler)]"
    using assms(1,2,3,5) 1 2(1)
    by (cases "ip_ring st") (simp_all add: virtio_pcie_input_driver_def Let_def d_def pcie_register_irq_snoc)
  ultimately show ?thesis using True 2(2,3) by (simp add: d_def)
next
  case False
  then obtain c where "virtio_negotiate react (virtio_hello react (ip_regs st) a) a (Some 64) = ((ip_regs st)(a := c), 3)"
    using virtio_refused [where react = react and a = a, OF assms(4), of 64 "ip_regs st"] by (auto simp: not_le)
  then show ?thesis using assms(1-3) False by (simp add: virtio_pcie_input_driver_def Let_def)
qed

section \<open>Bringing up the screen\<close>


section \<open>Random bytes\<close>

text \<open>
  A source of random bytes: it fills the buffer of a request, which it may write, with its next bytes, and
  changes no other memory.
\<close>

definition fill_bytes :: "mem \<Rightarrow> u64 \<Rightarrow> nat \<Rightarrow> (nat \<Rightarrow> u8) \<Rightarrow> mem" where
  "fill_bytes m a n src = (\<lambda>x. if unat (x - a) < n then src (unat (x - a)) else m x)"

definition rng_conforming :: "u16 \<Rightarrow> (nat \<Rightarrow> u8) rng_fun \<Rightarrow> bool" where
  "rng_conforming queue_size serve \<longleftrightarrow>
     (\<forall>src vq m a n. chain vq 2 (newest_request vq queue_size) = [\<lparr>vd_address = a, vd_length = n, vd_flags = VIRTQ_DESC_FLAG_WRITE, vd_next = 0\<rparr>] \<longrightarrow>
        serve src vq m = (\<lambda>i. src (i + unat n), returned vq queue_size, fill_bytes m a (unat n) src))"

lemma rng_request_answered:
  assumes "rng_conforming q serve" "rng_enabled rng" "bytes \<noteq> 0" "rng_acknowledged_idx rng \<noteq> vq_device_idx (rng_vq rng) + 1"
  shows "\<exists>rng'. rng_fill_poll serve tr q rng src m buf bytes =
      Some (rng', \<lambda>i. src (i + unat bytes), fill_bytes m (tr buf) (unat bytes) src, 0) \<and>
    rng_enabled rng' \<and> rng_at_idx rng' = rng_at_idx rng + 1 \<and> rng_acknowledged_idx rng' = rng_acknowledged_idx rng \<and>
    vq_device_idx (rng_vq rng') = vq_device_idx (rng_vq rng) + 1"
proof -
  let ?d = "\<lparr>vd_address = tr buf, vd_length = bytes, vd_flags = VIRTQ_DESC_FLAG_WRITE, vd_next = 0\<rparr>"
  let ?i = "rng_at_idx rng mod q"
  let ?vq = "publish (set_desc (rng_vq rng) ?i ?d) q ?i"
  have "chain ?vq 2 (newest_request ?vq q) = [?d]"
    unfolding newest_publish by (simp add: numeral_2_eq_2 publish_def set_desc_def)
  then have serve: "serve src ?vq m = (\<lambda>i. src (i + unat bytes), returned ?vq q, fill_bytes m (tr buf) (unat bytes) src)"
    using assms(1) unfolding rng_conforming_def by blast
  have idx: "vq_device_idx ?vq = vq_device_idx (rng_vq rng)" by (simp add: publish_def set_desc_def)
  obtain l where "wait_request (returned ?vq q) q ?i (rng_acknowledged_idx rng) = Some l"
    using wait_returned [of "rng_acknowledged_idx rng" ?vq q] assms(4) idx unfolding newest_publish by auto
  then show ?thesis
    using assms(2,3) serve idx by (simp add: rng_fill_poll_def Let_def returned_def)
qed

text \<open>
  With a source that follows the specification, a request for random bytes returns 0 and puts the
  next bytes of the source into the buffer, all of it and nothing else, whatever the size of the queue and
  however often the indexes have wrapped; the next request gets the bytes that follow. After the
  interrupt has acknowledged the requests there is room for the next one. Without a device the request
  returns 1, an empty one returns 2, and nothing changes.
\<close>

theorem rng_fill_poll_correct:
  assumes "rng_conforming q serve" "bytes2 \<noteq> 0"
  shows "(rng_enabled rng \<and> bytes \<noteq> 0 \<and> rng_acknowledged_idx rng \<noteq> vq_device_idx (rng_vq rng) + 1 \<longrightarrow>
      (\<exists>rng'. rng_fill_poll serve id q rng src m buf bytes =
         Some (rng', \<lambda>i. src (i + unat bytes), fill_bytes m buf (unat bytes) src, 0) \<and>
       (\<exists>rng''. rng_fill_poll serve id q (rng_irq_handler True rng') (\<lambda>i. src (i + unat bytes)) m2 buf2 bytes2 =
         Some (rng'', \<lambda>i. src (i + (unat bytes2 + unat bytes)),
           fill_bytes m2 buf2 (unat bytes2) (\<lambda>i. src (i + unat bytes)), 0)))) \<and>
    (\<not> rng_enabled rng \<longrightarrow> rng_fill_poll serve id q rng src m buf bytes = Some (rng, src, m, 1)) \<and>
    (rng_enabled rng \<and> bytes = 0 \<longrightarrow> rng_fill_poll serve id q rng src m buf bytes = Some (rng, src, m, 2))"
proof -
  have "\<exists>rng'. rng_fill_poll serve id q rng src m buf bytes =
         Some (rng', \<lambda>i. src (i + unat bytes), fill_bytes m buf (unat bytes) src, 0) \<and>
       (\<exists>rng''. rng_fill_poll serve id q (rng_irq_handler True rng') (\<lambda>i. src (i + unat bytes)) m2 buf2 bytes2 =
         Some (rng'', \<lambda>i. src (i + (unat bytes2 + unat bytes)), fill_bytes m2 buf2 (unat bytes2) (\<lambda>i. src (i + unat bytes)), 0))"
    if on: "rng_enabled rng" "bytes \<noteq> 0" "rng_acknowledged_idx rng \<noteq> vq_device_idx (rng_vq rng) + 1"
  proof -
    obtain rng' where 1: "rng_fill_poll serve id q rng src m buf bytes =
        Some (rng', \<lambda>i. src (i + unat bytes), fill_bytes m buf (unat bytes) src, 0)" "rng_enabled rng'"
      using rng_request_answered [OF assms(1) on, of id src m buf] by auto
    have "rng_enabled (rng_irq_handler True rng')"
      "rng_acknowledged_idx (rng_irq_handler True rng') \<noteq> vq_device_idx (rng_vq (rng_irq_handler True rng')) + 1"
      using 1(2) by (simp_all add: rng_irq_handler_def)
    from rng_request_answered [OF assms(1) this(1) assms(2) this(2), of id "\<lambda>i. src (i + unat bytes)" m2 buf2] 1(1)
    show ?thesis by (auto simp: add.assoc)
  qed
  then show ?thesis by (simp add: rng_fill_poll_def)
qed

lemma rand8_next:
  assumes "rng_conforming q serve" "rng_enabled rng" "rng_acknowledged_idx rng \<noteq> vq_device_idx (rng_vq rng) + 1"
  shows "\<exists>rng'. rand8 serve id q rng src m r = Some (rng', \<lambda>i. src (Suc i), m(r := src 0), src 0)"
proof -
  have "fill_bytes m r (unat (1 :: u32)) src = m(r := src 0)" by (auto simp: fill_bytes_def fun_eq_iff unat_eq_0)
  then show ?thesis
    using rng_request_answered [OF assms(1,2) _ assms(3), of 1 id src m r] by (auto simp: rand8_def)
qed

section \<open>Concrete instances\<close>

text \<open>A virtio device with its capabilities from offset 64 on, all in BAR 4.\<close>

definition demo_caps :: "nat \<Rightarrow> u8" where
  "demo_caps = (\<lambda>_. 0)(65 := 80,
     80 := 9, 81 := 96, 83 := 1, 84 := 4,
     96 := 9, 97 := 112, 99 := 2, 100 := 4, 105 := 0x30,
     112 := 9, 113 := 128, 115 := 3, 116 := 4, 121 := 0x10,
     128 := 9, 129 := 0, 131 := 4, 132 := 4, 137 := 0x20)"

definition demo_virtio :: "u64 \<Rightarrow> ecam_header" where
  "demo_virtio a = \<lparr>ec_address = a, ec_vendor_id = 0x1af4, ec_device_id = 0x1052, ec_command_reg = 0, ec_status_reg = 16,
     ec_capes_pointer = 64, ec_bar = replicate 6 0, ec_bytes = demo_caps\<rparr>"

definition demo_sized :: "ecam_header \<Rightarrow> nat \<Rightarrow> u32" where
  "demo_sized ec i = (if i = 4 then 0xffffc00c else if i = 5 then 0xffffffff else 0)"

definition demo_walk :: "u32 list \<times> u32 list" where
  "demo_walk = ([NO_BAR, 0, 0x3000, 0x1000, 0x2000, NO_BAR], [NO_BAR, 4, 4, 4, 4, NO_BAR])"

lemma list_update_Cons_if: "(x # xs)[n := v] = (if n = 0 then v # xs else x # xs[n - 1 := v])"
  by (cases n) simp_all

lemma six: "[0..<6] = [0, 1, 2, 3, 4, 5 :: nat]" "replicate 6 x = [x, x, x, x, x, x]"
  by (simp_all add: upt_rec eval_nat_numeral)

lemma demo_walk_caps:
  assumes "ec_bytes ec = demo_caps"
  shows "walk_caps ec 64 (replicate 6 NO_BAR) (replicate 6 NO_BAR) = Some demo_walk"
proof -
  have 0: "walk_caps ec 0 offs bars = Some (offs, bars)" for offs bars by (subst walk_caps.simps) simp
  have "walk_caps ec 128 offs bars = Some (offs, bars)" for offs bars
    by (subst walk_caps.simps) (simp add: assms demo_caps_def 0)
  note 4 = this
  have 3: "walk_caps ec 112 offs bars = Some (offs[4 := 0x2000], bars[4 := 4])" for offs bars
    by (subst walk_caps.simps) (simp add: assms demo_caps_def 4 cap_offset_def Let_def)
  have 2: "walk_caps ec 96 offs bars = Some (offs[3 := 0x1000, 4 := 0x2000], bars[3 := 4, 4 := 4])" for offs bars
    by (subst walk_caps.simps) (simp add: assms demo_caps_def 3 cap_offset_def Let_def)
  have 1: "walk_caps ec 80 offs bars = Some (offs[2 := 0x3000, 3 := 0x1000, 4 := 0x2000], bars[2 := 4, 3 := 4, 4 := 4])" for offs bars
    by (subst walk_caps.simps) (simp add: assms demo_caps_def 2 cap_offset_def Let_def)
  show ?thesis
    by (subst walk_caps.simps) (simp add: assms demo_caps_def 1 cap_offset_def Let_def demo_walk_def six list_update_Cons_if)
qed

lemma demo_window: "window_of demo_sized (demo_virtio a) =
    Some \<lparr>al_which_bar = 4, al_offsets = [NO_BAR, 0, 0x3000, 0x1000, 0x2000, NO_BAR]\<rparr>"
proof -
  have s: "sized_header demo_sized (demo_virtio a) =
      Some ((demo_virtio a)\<lparr>ec_bar := [0, 0, 0, 0, 0xffffc00c, 0xffffffff], ec_command_reg := 2\<rparr>)"
    by (simp add: sized_header_def demo_sized_def demo_virtio_def PCIE_BAR_IS_64_BIT_def six list_update_Cons_if Let_def)
  show ?thesis
    unfolding window_of_def s
    by (simp add: bar_allocations_def demo_virtio_def demo_walk_caps [unfolded six] demo_walk_def six usable_def Let_def list_update_Cons_if nth_Cons')
qed

text \<open>Two input devices, a mouse and a tablet, in the first two slots.\<close>

definition demo_world :: "virtio_window list pcie_world" where
  "demo_world = \<lparr>pw_slot = (\<lambda>bus slot. if bus = 0 \<and> slot = 0 then Device (demo_virtio 0x30000000)
       else if bus = 0 \<and> slot = 1 then Device (demo_virtio 0x30008000) else Empty_slot),
     pw_occupied = replicate 16 \<lparr>be_vendor = 0, be_device = 0, be_which_bar = 0, be_which_irq = 0, be_offsets = []\<rparr>,
     pw_bridge_bus_number = 1, pw_drivers = [], pw_state = []\<rparr>"

lemma demo_devices:
  "slot_devices (pw_slot demo_world) (List.product [0..<256] [0..<32]) = [demo_virtio 0x30000000, demo_virtio 0x30008000]"
proof -
  have none: "slot_devices (pw_slot demo_world) ps = []" if "\<forall>p \<in> set ps. fst p \<noteq> 0 \<or> snd p \<notin> {0, 1}" for ps
    using that by (auto simp: slot_devices_def demo_world_def)
  have app: "slot_devices sl (ps @ qs) = slot_devices sl ps @ slot_devices sl qs" for sl ps qs by (simp add: slot_devices_def)
  have "[0..<256] = 0 # [1..<256]" "[0..<32] = 0 # 1 # [2..<32]" by (simp_all add: upt_rec)
  then have "List.product [0..<256] [0..<32 :: nat] = [(0, 0), (0, 1)] @ (map (Pair 0) [2..<32] @ List.product [1..<256] [0..<32])"
    by (simp add: List.product.simps)
  moreover have "slot_devices (pw_slot demo_world) (map (Pair 0) [2..<32] @ List.product [1..<256] [0..<32]) = []"
    by (rule none) auto
  moreover have "slot_devices (pw_slot demo_world) [(0, 0), (0, 1)] = [demo_virtio 0x30000000, demo_virtio 0x30008000]"
    by (simp add: slot_devices_def demo_world_def)
  ultimately show ?thesis by (simp only: app append_Nil2)
qed


definition demo_react :: reaction where
  "demo_react a c = (if cc_device_status c = 0
     then \<lparr>cc_device_status = 0, cc_queue_select = 0, cc_queue_size = 256, cc_queue_enable = 0, cc_queue_desc = 0, cc_queue_driver = 0, cc_queue_device = 0\<rparr>
     else if 256 < cc_queue_size c then c\<lparr>cc_queue_size := 256\<rparr> else c)"

lemma demo_react_accepting: "virtio_accepting 256 (demo_react a)"
  by (simp add: virtio_accepting_def demo_react_def)

definition demo_occupied :: "bar_entry list" where
  "demo_occupied = \<lparr>be_vendor = 0x1af4, be_device = 0x1052, be_which_bar = 4, be_which_irq = 33, be_offsets = [NO_BAR, 0, 0x3000, 0x1000, 0x2000, NO_BAR]\<rparr> #
     replicate 15 \<lparr>be_vendor = 0, be_device = 0, be_which_bar = 0, be_which_irq = 0, be_offsets = []\<rparr>"

definition demo_input_state :: "nat input_state" where
  "demo_input_state = \<lparr>ip_regs = (\<lambda>_. \<lparr>cc_device_status = 0, cc_queue_select = 0, cc_queue_size = 0, cc_queue_enable = 0,
       cc_queue_desc = 0, cc_queue_driver = 0, cc_queue_device = 0\<rparr>), ip_irqs = [], ip_mem = (\<lambda>_. 0), ip_ring = None,
     ip_ring_mutex = MUTEX_UNLOCKED, ip_devices = []\<rparr>"

theorem input_driver_correct_witness:
  "\<exists>st' d. virtio_pcie_input_driver demo_react id (\<lambda>_. 0x90000000) demo_heap [] id demo_occupied
       \<lparr>drv_vendor_id = 0x1af4, drv_device_id = 0x1052, drv_func = 4\<rparr> demo_input_state = Some (st', 0) \<and>
     cc_device_status (ip_regs st' 0x40000000) = 15 \<and> ip_devices st' = [d] \<and> length (pending_events (\<lambda>_. 0) (input_view d 3)) = 3"
proof -
  let ?dev = "\<lparr>drv_vendor_id = 0x1af4, drv_device_id = 0x1052, drv_func = 4\<rparr>" and ?win = "virtio_window_at demo_occupied 0"
  have "packed demo_occupied (Suc 0)" by (simp add: packed_def demo_occupied_def nth_Cons')
  then have f: "find_bar demo_occupied ?dev 16 = Some 0"
    by (rule find_bar_last) (simp_all add: demo_occupied_def)
  have a: "vw_common_config ?win = 0x40000000"
    by (simp add: virtio_window_at_def bar_register_def demo_occupied_def)
  obtain m1 buf where p: "page_znalloc demo_heap (ip_mem demo_input_state) 1 = (m1, buf)" by fastforce
  obtain st' d where "virtio_pcie_input_driver demo_react id (\<lambda>_. 0x90000000) demo_heap [] id demo_occupied ?dev demo_input_state = Some (st', 0)"
    "ip_regs st' = (ip_regs demo_input_state)(0x40000000 := live_cfg id (\<lambda>_. 0x90000000) 64)"
    "ip_devices st' = ip_devices demo_input_state @ [d]"
    "pending_events (\<lambda>_. 0) (input_view d (of_nat 3)) = map (\<lambda>k. event_at (\<lambda>_. 0) (id (buf + 8 * of_nat k))) [0..<3]"
    using input_driver_correct [where react = demo_react and a = "0x40000000" and n = 3 and tr = id and m = "\<lambda>_. 0" and kcalloc = "\<lambda>_. 0x90000000"
        and elements = "[]" and handler = id, OF f refl a [symmetric] demo_react_accepting p] by auto
  then show ?thesis by (simp add: live_cfg_def demo_input_state_def)
qed

definition demo_rng_serve :: "(nat \<Rightarrow> u8) rng_fun" where
  "demo_rng_serve src vq m =
     (let d = vq_descriptor vq (unat (newest_request vq 8))
      in (\<lambda>i. src (i + unat (vd_length d)), returned vq 8, fill_bytes m (vd_address d) (unat (vd_length d)) src))"

lemma demo_rng_conforming: "rng_conforming 8 demo_rng_serve"
  by (auto simp: rng_conforming_def demo_rng_serve_def numeral_2_eq_2 Let_def)

definition demo_rng :: rng_device where
  "demo_rng = \<lparr>rng_window = virtio_window_at demo_occupied 0, rng_queue = \<lparr>qa_descriptor = 0, qa_driver = 0, qa_device = 0\<rparr>,
     rng_vq = fresh_virtq\<lparr>vq_driver_idx := 0xffff, vq_device_idx := 0xffff\<rparr>, rng_enabled = True, rng_at_idx = 0xffff, rng_acknowledged_idx = 0xffff\<rparr>"

theorem rng_fill_poll_correct_witness:
  "\<exists>rng' src' m'. rng_fill_poll demo_rng_serve id 8 demo_rng of_nat (\<lambda>_. 0) 0x80000 5 = Some (rng', src', m', 0) \<and>
     m' 0x80004 = 4 \<and> m' 0x80005 = 0"
proof -
  have on: "rng_enabled demo_rng" "rng_acknowledged_idx demo_rng \<noteq> vq_device_idx (rng_vq demo_rng) + 1"
    by (simp_all add: demo_rng_def fresh_virtq_def)
  obtain rng' where "rng_fill_poll demo_rng_serve id 8 demo_rng of_nat (\<lambda>_. 0) 0x80000 5 =
      Some (rng', \<lambda>i. of_nat (i + unat (5 :: u32)), fill_bytes (\<lambda>_. 0) 0x80000 (unat (5 :: u32)) of_nat, 0)"
    using rng_fill_poll_correct [where bytes = 5 and buf = "0x80000" and m = "\<lambda>_. 0" and src = of_nat and rng = demo_rng
        and ?m2.0 = "\<lambda>_. 0" and ?buf2.0 = 0, OF demo_rng_conforming, of 1] on by auto
  then show ?thesis by (simp add: fill_bytes_def)
qed


end
