(* ===== verification/Console.thy ===== *)
theory Console
  imports Strings Vfs
begin

text \<open>
  The console of \<^verbatim>\<open>src/main.c\<close>: the line editor and the commands. The two buffers of 80 bytes are lists;
  a write outside them is \<open>None\<close>. What the user types is the list of the characters that \<open>sbi_getchar\<close>
  returns. A command is its bytes; \<open>make_argv\<close> and \<open>countargs\<close> of it are its words and their number
  (theorem \<open>make_argv_words\<close>). \<open>execute_command\<close> yields the calls that the command makes, with their
  arguments; a message that is printed is a call too. The echo on the terminal is left out.
\<close>

unbundle bit_operations_syntax

section \<open>The line editor\<close>

abbreviation (input) COMMAND_MAX_LEN :: nat where "COMMAND_MAX_LEN \<equiv> 80"

record console =
  co_command :: "u8 list"
  co_prev_command :: "u8 list"
  co_index :: nat

definition put_byte :: "u8 list \<Rightarrow> nat \<Rightarrow> u8 \<Rightarrow> u8 list option" where
  "put_byte buf i c = (if i < length buf then Some (buf[i := c]) else None)"

text \<open>The string in a buffer, and \<open>mstrcpy\<close> from a buffer to another.\<close>

definition buffer_string :: "u8 list \<Rightarrow> u8 list" where
  "buffer_string buf = takeWhile (\<lambda>c. c \<noteq> 0) buf"

definition copy_buffer :: "u8 list \<Rightarrow> u8 list \<Rightarrow> u8 list option" where
  "copy_buffer dest src =
     (let s = buffer_string src
      in if length s < length src \<and> length s < length dest then Some (s @ [0] @ drop (length s + 1) dest) else None)"

text \<open>
  The loop of \<open>console\<close>: the lines that are executed while the given characters are read, and the buffers
  then. \<open>0xff\<close> says that no character is there yet; the two characters after an escape are read
  without waiting.
\<close>

fun console_read :: "console \<Rightarrow> u8 list \<Rightarrow> (console \<times> u8 list list) option" where
  "console_read k [] = Some (k, [])"
| "console_read k (c # cs) =
     (if c = 0xff then console_read k cs
      else if c = 0x0d then
        do { command \<leftarrow> put_byte (co_command k) (co_index k) 0;
             prev \<leftarrow> copy_buffer (co_prev_command k) command;
             (k1, ls) \<leftarrow> console_read \<lparr>co_command = command, co_prev_command = prev, co_index = 0\<rparr> cs;
             Some (k1, buffer_string command # ls) }
      else if c = 0x08 \<or> c = 127 then
        (if co_index k > 0
         then do { command \<leftarrow> put_byte (co_command k) (co_index k) 0;
                   console_read (k\<lparr>co_command := command, co_index := co_index k - 1\<rparr>) cs }
         else console_read k cs)
      else if c = 0x1b then
        (case cs of
           c1 # c2 # cs1 \<Rightarrow>
             (if c1 = 0x5b \<and> c2 = 0x41
              then do { command \<leftarrow> copy_buffer (co_command k) (co_prev_command k);
                        console_read (k\<lparr>co_command := command, co_index := length (buffer_string command)\<rparr>) cs1 }
              else console_read k cs1)
         | _ \<Rightarrow> Some (k, []))
      else
        do { command \<leftarrow> put_byte (co_command k) (co_index k) c;
             console_read (k\<lparr>co_command := command, co_index := co_index k + 1\<rparr>) cs })"

text \<open>Before the first character: the previous command is empty.\<close>

definition console_start :: "u8 list \<Rightarrow> u8 list \<Rightarrow> console" where
  "console_start command prev = \<lparr>co_command = command, co_prev_command = prev[0 := 0], co_index = 0\<rparr>"

section \<open>Commands\<close>

datatype show_item =
    Help | Usage_text | Stat | Pages | Page_table | Free_list | Pcie_devices | Bars | Frame_offsets | Processes | Clock
  | Regions_list | Cached_tree | Input_ring | Input_occupied | Virtq_rng | Virtq_block | Virtq_gpu | Virtq_input | Irqs | Pog | JoeyD

datatype machine_call =
    Poweroff | Read_half u64 | Read_long u64 | Write_long u64 u64 | Hart_stop u32 | Malloc u32 | Free u64
  | Rng_print int | Elf_read int | Sched_invoke int | Clint_set int int | Clint_add int int | Clint_show int
  | Block_read int int int "u8 list" | Block_write int int int "u8 list" | Regions_add int int int int int | Input_pop int

datatype gpu_call =
    Display_info | Init | Fill_bmp | Fill_white | Flush_all | Flush_some | Regions_test | Draw_from_cursor | Draw_endless

datatype minix3_call =
    Superblock | Root_inode | Ls_root | Zone_state int | Inode_state int | Avail_inode | Avail_zone | File_zones | Walker int int

datatype vfs_op =
    Ls | Inode "u8 list" | Cd "u8 list" | Touch "u8 list" | Rm "u8 list" | Mkdir "u8 list" | Rmdir "u8 list" | Cat "u8 list"
  | Append "u8 list" "u8 list" | Bmp_to_file "u8 list" int | Bmp_file_to_gpu "u8 list"

datatype console_call =
    Show show_item | Unrecognized | Print_nargs nat | Print_argv "u8 list list"
  | Machine machine_call | Gpu gpu_call | Minix3 minix3_call | Vfs vfs_op

text \<open>String literals; comparison with a whole string or with its first word.\<close>

definition lit :: "string \<Rightarrow> u8 list" where
  "lit s = map of_char s"

definition same_cmd :: "u8 list \<Rightarrow> string \<Rightarrow> bool" where
  "same_cmd command s \<longleftrightarrow> takeWhile (\<lambda>c. c \<noteq> SPACE) command = lit s"

text \<open>An argument as a string in memory, read as a number.\<close>

definition arg_mem :: "u8 list \<Rightarrow> mem" where
  "arg_mem w a = (if unat a < length w then w ! unat a else 0)"

definition arg_int :: "u8 list list \<Rightarrow> nat \<Rightarrow> int option" where
  "arg_int argv i = (if i < length argv then matoi (arg_mem (argv ! i)) 0 else None)"

definition arg_hex :: "u8 list list \<Rightarrow> nat \<Rightarrow> u64 option" where
  "arg_hex argv i = (if i < length argv then matox (arg_mem (argv ! i)) 0 else None)"

text \<open>The first condition that holds decides.\<close>

fun first_match :: "(bool \<times> 'a) list \<Rightarrow> 'a \<Rightarrow> 'a" where
  "first_match [] d = d"
| "first_match ((b, x) # ps) d = (if b then x else first_match ps d)"

definition usage :: "console_call list option" where
  "usage = Some [Show Usage_text]"

definition probe_cmd :: "u8 list list \<Rightarrow> console_call list option" where
  "probe_cmd argv =
     (if length argv < 2 then usage
      else do { addr \<leftarrow> arg_hex argv 1;
                if length argv = 2 then Some [Machine (Read_long (addr AND NOT 7))]
                else if argv ! 2 = lit ''half'' then Some [Machine (Read_half (addr AND NOT 3))]
                else if argv ! 2 = lit ''long'' then Some [Machine (Read_long (addr AND NOT 7))]
                else usage })"

definition set_cmd :: "u8 list list \<Rightarrow> console_call list option" where
  "set_cmd argv =
     (if length argv \<noteq> 3 then usage
      else do { addr \<leftarrow> arg_hex argv 1; val \<leftarrow> arg_hex argv 2; Some [Machine (Write_long (addr AND NOT 7) val)] })"

text \<open>Starting a hart is disabled and only prints.\<close>

definition start_cmd :: "u8 list list \<Rightarrow> console_call list option" where
  "start_cmd argv = usage"

definition stop_cmd :: "u8 list list \<Rightarrow> console_call list option" where
  "stop_cmd argv = (if length argv \<noteq> 2 then usage else do { hart \<leftarrow> arg_hex argv 1; Some [Machine (Hart_stop (ucast hart))] })"

definition malloc_cmd :: "u8 list list \<Rightarrow> console_call list option" where
  "malloc_cmd argv = (if length argv \<noteq> 2 then usage else do { bytes \<leftarrow> arg_int argv 1; Some [Machine (Malloc (of_int bytes))] })"

definition free_cmd :: "u8 list list \<Rightarrow> console_call list option" where
  "free_cmd argv = (if length argv \<noteq> 2 then usage else do { address \<leftarrow> arg_hex argv 1; Some [Machine (Free address)] })"

definition one_int_cmd :: "(int \<Rightarrow> console_call) \<Rightarrow> u8 list list \<Rightarrow> console_call list option" where
  "one_int_cmd call argv = (if length argv \<noteq> 2 then usage else do { i \<leftarrow> arg_int argv 1; Some [call i] })"

definition two_int_cmd :: "(int \<Rightarrow> int \<Rightarrow> console_call) \<Rightarrow> u8 list list \<Rightarrow> console_call list option" where
  "two_int_cmd call argv =
     (if length argv \<noteq> 3 then usage else do { i \<leftarrow> arg_int argv 1; j \<leftarrow> arg_int argv 2; Some [call i j] })"

definition blockread_cmd :: "u8 list list \<Rightarrow> console_call list option" where
  "blockread_cmd argv =
     (if length argv < 4 then usage
      else do { dev \<leftarrow> arg_int argv 1; start \<leftarrow> arg_int argv 2; size \<leftarrow> arg_int argv 3;
                Some [Machine (Block_read dev start size (if length argv = 5 then argv ! 4 else lit ''char''))] })"

definition blockwrite_cmd :: "u8 list list \<Rightarrow> console_call list option" where
  "blockwrite_cmd argv =
     (if length argv < 4 \<or> length argv > 5 then usage
      else do { dev \<leftarrow> arg_int argv 1; start \<leftarrow> arg_int argv 2; size \<leftarrow> arg_int argv 3;
                Some [Machine (Block_write dev start size (if length argv = 5 then argv ! 4 else lit ''up''))] })"

definition regions_add_cmd :: "u8 list list \<Rightarrow> console_call list option" where
  "regions_add_cmd argv =
     (if length argv \<noteq> 7 then usage
      else do { x_start \<leftarrow> arg_int argv 2; x_end \<leftarrow> arg_int argv 3; y_start \<leftarrow> arg_int argv 4; y_end \<leftarrow> arg_int argv 5;
                value \<leftarrow> arg_int argv 6; Some [Machine (Regions_add x_start x_end y_start y_end value)] })"

text \<open>The commands that \<open>regions default\<close> executes.\<close>

definition regions_default :: "string list" where
  "regions_default =
     [''regions add 00 10 00 10 1'', ''regions add 10 20 10 20 2'', ''regions add 20 30 20 30 3'',
      ''regions add 30 40 30 40 4'', ''regions add 40 50 40 50 5'', ''regions add 50 60 50 60 6'',
      ''regions add 60 70 60 70 7'', ''regions add 70 80 70 80 8'', ''regions add 80 90 80 90 9'',
      ''regions add 90 100 90 100 10'']"

fun concat_calls :: "console_call list option list \<Rightarrow> console_call list option" where
  "concat_calls [] = Some []"
| "concat_calls (r # rs) = do { cs \<leftarrow> r; ds \<leftarrow> concat_calls rs; Some (cs @ ds) }"

definition regions_cmd :: "u8 list list \<Rightarrow> console_call list option" where
  "regions_cmd argv =
     (if length argv < 2 then usage
      else if argv ! 1 = lit ''print'' then (if length argv \<noteq> 2 then usage else Some [Show Regions_list])
      else if argv ! 1 = lit ''default'' then
        (if length argv \<noteq> 2 then usage
         else concat_calls (map (\<lambda>s. regions_add_cmd (words (lit s))) regions_default))
      else if argv ! 1 = lit ''add'' then regions_add_cmd argv
      else usage)"

text \<open>After \<open>bmp\<close> the possible operations are printed as well.\<close>

definition gpu_cmd :: "u8 list list \<Rightarrow> console_call list option" where
  "gpu_cmd argv =
     (if length argv < 2 then usage
      else if argv ! 1 = lit ''gdi'' then (if length argv \<noteq> 2 then usage else Some [Gpu Display_info])
      else if argv ! 1 = lit ''init'' then (if length argv \<noteq> 2 then usage else Some [Gpu Init])
      else if argv ! 1 = lit ''fill'' then
        (if length argv < 3 then usage
         else Some ((if argv ! 2 = lit ''bmp'' then [Gpu Fill_bmp] else []) @
                    (if argv ! 2 = lit ''white'' then [Gpu Fill_white] else [Show Usage_text])))
      else if argv ! 1 = lit ''flush'' then
        (if length argv < 3 then usage
         else if argv ! 2 = lit ''all'' then Some [Gpu Flush_all]
         else if argv ! 2 = lit ''some'' then Some [Gpu Flush_some]
         else usage)
      else if argv ! 1 = lit ''regions'' then (if length argv \<noteq> 2 then usage else Some [Gpu Regions_test])
      else if argv ! 1 = lit ''cursor'' then (if length argv \<noteq> 2 then usage else Some [Gpu Draw_from_cursor])
      else if argv ! 1 = lit ''draw'' then (if length argv \<noteq> 2 then usage else Some [Gpu Draw_endless])
      else usage)"

definition minix3_cmd :: "u8 list list \<Rightarrow> console_call list option" where
  "minix3_cmd argv =
     (if length argv < 2 then usage
      else if argv ! 1 = lit ''print'' then Some [Minix3 Superblock]
      else if argv ! 1 = lit ''/'' then Some [Minix3 Root_inode]
      else if argv ! 1 = lit ''ls/'' then Some [Minix3 Ls_root]
      else if argv ! 1 = lit ''zone'' then
        (if length argv < 3 then usage else do { zone \<leftarrow> arg_int argv 2; Some [Minix3 (Zone_state zone)] })
      else if argv ! 1 = lit ''inode'' then
        (if length argv < 3 then usage else do { inode \<leftarrow> arg_int argv 2; Some [Minix3 (Inode_state inode)] })
      else if argv ! 1 = lit ''avail'' then
        (if length argv < 3 then usage
         else if argv ! 2 = lit ''inode'' then Some [Minix3 Avail_inode]
         else if argv ! 2 = lit ''zone'' then Some [Minix3 Avail_zone]
         else usage)
      else if argv ! 1 = lit ''fzones'' then Some [Minix3 File_zones]
      else if argv ! 1 = lit ''walker'' then
        (if length argv < 4 then usage
         else do { inum \<leftarrow> arg_int argv 2; target \<leftarrow> arg_int argv 3; Some [Minix3 (Walker inum target)] })
      else usage)"

text \<open>With too few arguments \<open>pop\<close> prints a message and still reads the missing one.\<close>

definition inputring_cmd :: "u8 list list \<Rightarrow> console_call list option" where
  "inputring_cmd argv =
     (if length argv < 2 then usage
      else if argv ! 1 = lit ''print'' then Some [Show Input_ring]
      else if argv ! 1 = lit ''taken'' then Some [Show Input_occupied]
      else if argv ! 1 = lit ''pop'' then do { how_many \<leftarrow> arg_int argv 2; Some [Machine (Input_pop how_many)] }
      else usage)"

definition virtq_cmd :: "u8 list list \<Rightarrow> console_call list option" where
  "virtq_cmd argv =
     (if length argv \<noteq> 2 then usage
      else first_match [(argv ! 1 = lit ''rng'', Some [Show Virtq_rng]), (argv ! 1 = lit ''block'', Some [Show Virtq_block]),
             (argv ! 1 = lit ''gpu'', Some [Show Virtq_gpu]), (argv ! 1 = lit ''input'', Some [Show Virtq_input])] usage)"

text \<open>Commands on one name.\<close>

definition one_name_cmd :: "(u8 list \<Rightarrow> console_call) \<Rightarrow> u8 list list \<Rightarrow> console_call list option" where
  "one_name_cmd call argv = (if length argv < 2 then usage else Some [call (argv ! 1)])"

definition vfs_cmd :: "u8 list list \<Rightarrow> console_call list option" where
  "vfs_cmd argv = (if length argv < 2 then usage else if argv ! 1 = lit ''tree'' then Some [Show Cached_tree] else usage)"

definition append_cmd :: "u8 list list \<Rightarrow> console_call list option" where
  "append_cmd argv = (if length argv < 3 then usage else Some [Vfs (Append (argv ! 2) (argv ! 1))])"

definition bmp2file_cmd :: "u8 list list \<Rightarrow> console_call list option" where
  "bmp2file_cmd argv = (if length argv < 3 then usage else do { bmp_dev \<leftarrow> arg_int argv 1; Some [Vfs (Bmp_to_file (argv ! 2) bmp_dev)] })"

definition execute_command :: "u8 list \<Rightarrow> console_call list option" where
  "execute_command command =
     (let argv = words command; is = same_cmd command
      in first_match
        [(command = lit ''help'', Some [Show Help]), (is ''stat'', Some [Show Stat]),
         (is ''shutdown'' \<or> is ''quit'', Some [Machine Poweroff]),
         (is ''probe'', probe_cmd argv), (is ''set'', set_cmd argv), (is ''start'', start_cmd argv), (is ''stop'', stop_cmd argv),
         (is ''page'', Some [Show Pages]), (is ''pt'', Some [Show Page_table]), (is ''heap'', Some [Show Free_list]),
         (is ''malloc'', malloc_cmd argv), (is ''free'', free_cmd argv), (is ''pcie'', Some [Show Pcie_devices]), (is ''bars'', Some [Show Bars]),
         (is ''rng'', one_int_cmd (\<lambda>i. Machine (Rng_print i)) argv), (is ''elfread'', one_int_cmd (\<lambda>i. Machine (Elf_read i)) argv),
         (is ''poffsets'', Some [Show Frame_offsets]), (is ''top'', Some [Show Processes]),
         (is ''schedinvoke'', one_int_cmd (\<lambda>i. Machine (Sched_invoke i)) argv), (is ''clinttime'', Some [Show Clock]),
         (is ''clintset'', two_int_cmd (\<lambda>i j. Machine (Clint_set i j)) argv), (is ''clintadd'', two_int_cmd (\<lambda>i j. Machine (Clint_add i j)) argv),
         (is ''clintcmp'', one_int_cmd (\<lambda>i. Machine (Clint_show i)) argv), (is ''blockread'', blockread_cmd argv), (is ''blockwrite'', blockwrite_cmd argv),
         (is ''regions'', regions_cmd argv), (is ''gpu'', gpu_cmd argv), (is ''minix3'', minix3_cmd argv), (is ''vfs'', vfs_cmd argv),
         (is ''ls'', Some [Vfs Ls]), (is ''inode'', Some [Vfs (Inode (if length argv < 2 then [] else argv ! 1))]),
         (is ''cd'', Some [Vfs (Cd (if length argv < 2 then [] else argv ! 1))]),
         (is ''touch'', one_name_cmd (\<lambda>n. Vfs (Touch n)) argv), (is ''rm'', one_name_cmd (\<lambda>n. Vfs (Rm n)) argv),
         (is ''mkdir'', one_name_cmd (\<lambda>n. Vfs (Mkdir n)) argv), (is ''rmdir'', one_name_cmd (\<lambda>n. Vfs (Rmdir n)) argv), (is ''cat'', one_name_cmd (\<lambda>n. Vfs (Cat n)) argv),
         (is ''append'', append_cmd argv), (is ''bmp2file'', bmp2file_cmd argv), (is ''file2screen'', one_name_cmd (\<lambda>n. Vfs (Bmp_file_to_gpu n)) argv),
         (is ''inputring'', inputring_cmd argv), (is ''nargs'', Some [Print_nargs (length argv)]), (is ''argv'', Some [Print_argv argv]),
         (is ''virtq'', virtq_cmd argv), (is ''irqs'', Some [Show Irqs]), (is ''pog'', Some [Show Pog]), (is ''joeyD'', Some [Show JoeyD])]
        (Some [Unrecognized]))"

text \<open>
  What the calls do to the file system. \<open>fresh\<close> is the address of a new directory node and \<open>dev\<close> the
  contents of a block device.
\<close>

definition vfs_call :: "(vfs \<Rightarrow> nat) \<Rightarrow> (int \<Rightarrow> nat \<Rightarrow> u8) \<Rightarrow> vfs \<Rightarrow> console_call \<Rightarrow> vfs option" where
  "vfs_call fresh dev v call =
     (case call of
        Vfs (Cd path) \<Rightarrow> vfs_cd v path (fresh v)
      | Vfs (Touch fname) \<Rightarrow> vfs_touch v (v_dir_pwd v) fname
      | Vfs (Rm fname) \<Rightarrow> vfs_rm v (v_dir_pwd v) fname
      | Vfs (Mkdir dirname) \<Rightarrow> vfs_mkdir v (v_dir_pwd v) dirname (fresh v)
      | Vfs (Rmdir dirname) \<Rightarrow> vfs_rmdir v (v_dir_pwd v) dirname
      | Vfs (Append fname buffer) \<Rightarrow> vfs_append v (v_dir_pwd v) fname buffer
      | Vfs (Bmp_to_file fname d) \<Rightarrow> vfs_bmp_to_file v (v_dir_pwd v) fname (dev d)
      | _ \<Rightarrow> Some v)"

fun vfs_calls :: "(vfs \<Rightarrow> nat) \<Rightarrow> (int \<Rightarrow> nat \<Rightarrow> u8) \<Rightarrow> vfs \<Rightarrow> console_call list \<Rightarrow> vfs option" where
  "vfs_calls fresh dev v [] = Some v"
| "vfs_calls fresh dev v (c # cs) = do { v1 \<leftarrow> vfs_call fresh dev v c; vfs_calls fresh dev v1 cs }"

text \<open>The commands that are executed while a list of characters is typed.\<close>

fun run_commands :: "(vfs \<Rightarrow> nat) \<Rightarrow> (int \<Rightarrow> nat \<Rightarrow> u8) \<Rightarrow> vfs \<Rightarrow> u8 list list \<Rightarrow> vfs option" where
  "run_commands fresh dev v [] = Some v"
| "run_commands fresh dev v (l # ls) =
     do { calls \<leftarrow> execute_command l; v1 \<leftarrow> vfs_calls fresh dev v calls; run_commands fresh dev v1 ls }"

definition console_session :: "(vfs \<Rightarrow> nat) \<Rightarrow> (int \<Rightarrow> nat \<Rightarrow> u8) \<Rightarrow> vfs \<Rightarrow> console \<Rightarrow> u8 list \<Rightarrow> vfs option" where
  "console_session fresh dev v k keys =
     do { (_, ls) \<leftarrow> console_read k keys; run_commands fresh dev v ls }"

section \<open>The line editor edits lines\<close>

text \<open>
  What is promised: characters are added to the line and taken off its end, the up key brings the last
  executed line back, and return executes the line. A line of 80 characters does not fit any more.
\<close>

fun typed_lines :: "u8 list \<Rightarrow> u8 list \<Rightarrow> u8 list \<Rightarrow> ((u8 list \<times> u8 list) \<times> u8 list list) option" where
  "typed_lines s p [] = Some ((s, p), [])"
| "typed_lines s p (c # cs) =
     (if c = 0xff then typed_lines s p cs
      else if c = 0x0d then
        (if length s < 80 then map_option (\<lambda>(e, ls). (e, s # ls)) (typed_lines [] s cs) else None)
      else if c = 0x08 \<or> c = 127 then
        (if s = [] then typed_lines s p cs else if length s < 80 then typed_lines (butlast s) p cs else None)
      else if c = 0x1b then
        (case cs of
           c1 # c2 # cs1 \<Rightarrow> if c1 = 0x5b \<and> c2 = 0x41 then typed_lines p p cs1 else typed_lines s p cs1
         | _ \<Rightarrow> Some ((s, p), []))
      else if length s < 80 then typed_lines (s @ [c]) p cs else None)"

definition edits :: "console \<Rightarrow> u8 list \<Rightarrow> u8 list \<Rightarrow> bool" where
  "edits k s p \<longleftrightarrow> length (co_command k) = 80 \<and> length (co_prev_command k) = 80 \<and> co_index k = length s \<and> length s \<le> 80 \<and>
     take (length s) (co_command k) = s \<and> 0 \<notin> set s \<and> buffer_string (co_prev_command k) = p \<and> length p < 80"

lemma takeWhile_string: "0 \<notin> set s \<Longrightarrow> takeWhile (\<lambda>c. c \<noteq> 0) (s @ 0 # t) = s"
  by (induction s) auto

lemma end_line:
  assumes "length buf = 80" "take (length s) buf = s" "0 \<notin> set s" "length s < 80"
  shows "put_byte buf (length s) 0 = Some (s @ 0 # drop (length s + 1) buf) \<and> buffer_string (s @ 0 # drop (length s + 1) buf) = s"
  using assms upd_conv_take_nth_drop [of "length s" buf 0] by (simp add: put_byte_def buffer_string_def takeWhile_string)

lemma copy_buffer_string:
  assumes "length dest = 80" "length src = 80" "length (buffer_string src) < 80"
  shows "\<exists>d. copy_buffer dest src = Some d \<and> length d = 80 \<and> buffer_string d = buffer_string src \<and>
    take (length (buffer_string src)) d = buffer_string src"
proof -
  have "0 \<notin> set (buffer_string src)" by (auto simp: buffer_string_def dest: set_takeWhileD)
  then show ?thesis
    using assms takeWhile_string [of "buffer_string src"]
    by (simp add: copy_buffer_def Let_def) (simp add: buffer_string_def)
qed

lemma string_no_zero: "0 \<notin> set (buffer_string buf)"
  by (auto simp: buffer_string_def dest: set_takeWhileD)

lemma console_read_edits:
  assumes "edits k s p" "0 \<notin> set keys"
  shows "(typed_lines s p keys = None \<longrightarrow> console_read k keys = None) \<and>
    (\<forall>s' p' ls. typed_lines s p keys = Some ((s', p'), ls) \<longrightarrow> (\<exists>k'. console_read k keys = Some (k', ls) \<and> edits k' s' p'))"
  using assms
proof (induction s p keys arbitrary: k rule: typed_lines.induct)
  case (1 s p)
  then show ?case by simp
next
  case (2 s p c cs)
  have e: "length (co_command k) = 80" "length (co_prev_command k) = 80" "co_index k = length s" "length s \<le> 80"
    "take (length s) (co_command k) = s" "0 \<notin> set s" "buffer_string (co_prev_command k) = p" "length p < 80"
    using "2.prems"(1) by (auto simp: edits_def)
  have c: "c \<noteq> 0" "0 \<notin> set cs" using "2.prems"(2) by auto
  consider (none) "c = 0xff" | (enter) "c = 0x0d" | (rubout) "c = 0x08 \<or> c = 127" | (esc) "c = 0x1b"
    | (plain) "c \<noteq> 0xff" "c \<noteq> 0x0d" "\<not> (c = 0x08 \<or> c = 127)" "c \<noteq> 0x1b" by blast
  then show ?case
  proof cases
    case none
    then show ?thesis using 2 c by simp
  next
    case enter
    show ?thesis
    proof (cases "length s < 80")
      case True
      let ?cmd = "s @ 0 # drop (length s + 1) (co_command k)"
      have put: "put_byte (co_command k) (length s) 0 = Some ?cmd" "buffer_string ?cmd = s" "length ?cmd = 80"
        using end_line [OF e(1,5,6) True] e(1) True by simp_all
      obtain d where d: "copy_buffer (co_prev_command k) ?cmd = Some d" "length d = 80" "buffer_string d = s"
        using copy_buffer_string [of "co_prev_command k" ?cmd] e(2) put True by auto
      have "edits \<lparr>co_command = ?cmd, co_prev_command = d, co_index = 0\<rparr> [] s"
        using put(3) d True by (simp add: edits_def)
      from "2.IH"(2) [OF _ enter True this c(2)] show ?thesis
        using enter True put(1,2) d(1) e(3) by (auto split: option.splits)
    next
      case False
      then show ?thesis using enter e by (simp add: put_byte_def)
    qed
  next
    case rubout
    show ?thesis
    proof (cases "s \<noteq> [] \<and> length s < 80")
      case True
      let ?cmd = "s @ 0 # drop (length s + 1) (co_command k)"
      have put: "put_byte (co_command k) (length s) 0 = Some ?cmd" "length ?cmd = 80"
        using end_line [OF e(1,5,6)] e(1) True by simp_all
      have "edits (k\<lparr>co_command := ?cmd, co_index := length s - 1\<rparr>) (butlast s) p"
        using e put(2) True by (auto simp: edits_def butlast_conv_take dest: in_set_takeD)
      from "2.IH"(4) [OF _ _ rubout _ _ this c(2)] show ?thesis
        using rubout True put(1) e(3) by auto
    next
      case False
      then show ?thesis using rubout e "2.IH"(3) "2.prems"(1) c(2) by (auto simp: put_byte_def)
    qed
  next
    case esc
    show ?thesis
    proof (cases "\<exists>c1 c2 cs1. cs = c1 # c2 # cs1")
      case True
      then obtain c1 c2 cs1 where cs: "cs = c1 # c2 # cs1" by blast
      then have z: "0 \<notin> set cs1" using c(2) by simp
      show ?thesis
      proof (cases "c1 = 0x5b \<and> c2 = 0x41")
        case up: True
        obtain d where d: "copy_buffer (co_command k) (co_prev_command k) = Some d" "length d = 80" "buffer_string d = p"
            "take (length p) d = p"
          using copy_buffer_string [of "co_command k" "co_prev_command k"] e(1,2,7,8) by auto
        have "edits (k\<lparr>co_command := d, co_index := length (buffer_string d)\<rparr>) p p"
          using e d string_no_zero [of "co_prev_command k"] by (simp add: edits_def)
        from "2.IH"(5) [OF _ _ _ esc cs refl up this z] show ?thesis using esc cs up d(1) by auto
      next
        case False
        from "2.IH"(6) [OF _ _ _ esc cs refl False "2.prems"(1) z] show ?thesis using esc cs False by auto
      qed
    next
      case False
      then show ?thesis using esc "2.prems"(1) by (auto split: list.splits)
    qed
  next
    case plain
    show ?thesis
    proof (cases "length s < 80")
      case True
      have put: "put_byte (co_command k) (length s) c = Some ((co_command k)[length s := c])"
        using e(1) True by (simp add: put_byte_def)
      have "edits (k\<lparr>co_command := (co_command k)[length s := c], co_index := length s + 1\<rparr>) (s @ [c]) p"
        using e c(1) True by (auto simp: edits_def take_Suc_conv_app_nth)
      from "2.IH"(7) [OF plain True this c(2)] show ?thesis using plain True put e(3) by auto
    next
      case False
      then show ?thesis using plain e by (simp add: put_byte_def)
    qed
  qed
qed


section \<open>Commands keep the file system's tree\<close>

text \<open>The comparison and the words of a command, as the string functions compute them in memory.\<close>

lemma command_strings:
  assumes "cstr m a command" "cstr m b (lit name)" "SPACE \<notin> set (lit name)"
  shows "samecmd m a b = Some (same_cmd command name) \<and> make_argv m a = Some (words command) \<and>
    countargs m a = Some (int (length (words command)))"
proof -
  have "takeWhile (\<lambda>c. c \<noteq> SPACE) (lit name) = lit name" using assms(3) by (auto simp: takeWhile_eq_all_conv)
  then obtain r where "msstrcmp m a b = Some r" "r = 0 \<longleftrightarrow> takeWhile (\<lambda>c. c \<noteq> SPACE) command = lit name"
    using msstrcmp_cstr [OF assms(1,2)] by metis
  then show ?thesis using make_argv_words [OF assms(1)] by (simp add: samecmd_def same_cmd_def)
qed

text \<open>There is always room for a new directory: only finitely many are cached.\<close>

lemma finite_dirs_update:
  "vfs_update_pwd v = Some v' \<Longrightarrow> v_dirs v' = v_dirs v"
  by (auto simp: vfs_update_pwd_def split: Option.bind_splits)

lemma finite_dirs_cd_cached:
  "vfs_cd_into_cached_path v path = Some (v', r) \<Longrightarrow> v_dirs v' = v_dirs v"
  by (auto simp: vfs_cd_into_cached_path_def dest!: finite_dirs_update split: Option.bind_splits option.splits if_splits)

lemma finite_dirs_cache:
  "vfs_cache_path v p path new = Some (v', r) \<Longrightarrow> finite (dom (v_dirs v)) \<Longrightarrow> finite (dom (v_dirs v'))"
  by (auto simp: vfs_cache_path_def Let_def split: Option.bind_splits fs_kind.splits if_splits prod.splits)

lemma finite_dirs_step:
  "vfs_step v v' \<Longrightarrow> finite (dom (v_dirs v)) \<Longrightarrow> finite (dom (v_dirs v'))"
proof (induction rule: vfs_step.induct)
  case (cd v path new v')
  then show ?case
    by (auto simp: vfs_cd_def dest!: finite_dirs_update finite_dirs_cd_cached finite_dirs_cache
        split: Option.bind_splits if_splits)
next
  case (touch v fname v')
  then show ?case by (auto simp: vfs_touch_def split: Option.bind_splits fs_kind.splits)
next
  case (rm v fname v')
  then show ?case by (auto simp: vfs_rm_def split: Option.bind_splits fs_kind.splits)
next
  case (mkdir v dirname new v')
  then show ?case
    by (auto simp: vfs_mkdir_def dest!: finite_dirs_cache split: Option.bind_splits fs_kind.splits)
next
  case (rmdir v dirname v')
  then show ?case
    by (auto simp: vfs_rmdir_def uncache_def vfs_free_directory_llist_node_def Let_def
        split: Option.bind_splits fs_kind.splits if_splits option.splits)
next
  case (append v fname buffer v')
  then show ?case by (auto simp: vfs_append_def split: Option.bind_splits fs_kind.splits)
next
  case (bmp v fname dev v')
  then show ?case
    by (auto simp: vfs_bmp_to_file_def vfs_append_def vfs_touch_def Let_def split: Option.bind_splits fs_kind.splits)
qed

definition fresh_node :: "(vfs \<Rightarrow> nat) \<Rightarrow> bool" where
  "fresh_node fresh \<longleftrightarrow> (\<forall>v. finite (dom (v_dirs v)) \<longrightarrow> fresh v \<noteq> 0 \<and> v_dirs v (fresh v) = None)"

definition reaches :: "vfs \<Rightarrow> vfs \<Rightarrow> bool" where
  "reaches v v' \<longleftrightarrow> vfs_step\<^sup>*\<^sup>* v v' \<and> finite (dom (v_dirs v'))"

lemma reaches_trans: "reaches v v1 \<Longrightarrow> reaches v1 v2 \<Longrightarrow> reaches v v2"
  by (auto simp: reaches_def)

lemma vfs_call_reaches:
  assumes "fresh_node fresh" "vfs_call fresh dev v call = Some v'" "finite (dom (v_dirs v))"
  shows "reaches v v'"
proof -
  have "fresh v \<noteq> 0" "v_dirs v (fresh v) = None" using assms(1,3) by (auto simp: fresh_node_def)
  then have "v' = v \<or> vfs_step v v'"
    using assms(2) by (auto simp: vfs_call_def split: console_call.splits vfs_op.splits intro: vfs_step.intros)
  then show ?thesis using assms(3) finite_dirs_step by (auto simp: reaches_def)
qed

lemma vfs_calls_reaches:
  assumes "fresh_node fresh"
  shows "vfs_calls fresh dev v cs = Some v' \<Longrightarrow> finite (dom (v_dirs v)) \<Longrightarrow> reaches v v'"
proof (induction cs arbitrary: v)
  case (Cons c cs)
  then obtain v1 where "vfs_call fresh dev v c = Some v1" "vfs_calls fresh dev v1 cs = Some v'"
    by (auto split: Option.bind_splits)
  then show ?case using vfs_call_reaches [OF assms] Cons reaches_trans by (metis reaches_def)
qed (simp add: reaches_def)

lemma run_commands_reaches:
  assumes "fresh_node fresh"
  shows "run_commands fresh dev v ls = Some v' \<Longrightarrow> finite (dom (v_dirs v)) \<Longrightarrow> reaches v v'"
proof (induction ls arbitrary: v)
  case (Cons l ls)
  then obtain calls v1 where "vfs_calls fresh dev v calls = Some v1" "run_commands fresh dev v1 ls = Some v'"
    by (auto split: Option.bind_splits)
  then show ?case using vfs_calls_reaches [OF assms] Cons reaches_trans by (metis reaches_def)
qed (simp add: reaches_def)


section \<open>Concrete instances\<close>


definition demo_fresh :: "vfs \<Rightarrow> nat" where
  "demo_fresh v = Suc (Max (insert 0 (dom (v_dirs v))))"

lemma demo_fresh_node: "fresh_node demo_fresh"
proof -
  have "v_dirs v (Suc (Max (insert 0 (dom (v_dirs v))))) = None" if "finite (dom (v_dirs v))" for v
  proof (rule ccontr)
    assume "v_dirs v (Suc (Max (insert 0 (dom (v_dirs v))))) \<noteq> None"
    then have "Suc (Max (insert 0 (dom (v_dirs v)))) \<le> Max (insert 0 (dom (v_dirs v)))" using that by (intro Max_ge) auto
    then show False by simp
  qed
  then show ?thesis unfolding fresh_node_def demo_fresh_def by blast
qed


end
