(* ===== verification/Screen.thy ===== *)
theory Screen
  imports Drivers Regions
begin

text \<open>
  Drawing that follows the cursor: \<open>gpu_regions_test\<close> and \<open>gpu_draw_from_cursor\<close> of \<^verbatim>\<open>src/gpu.c\<close>, from the
  ring of input events to the screen of the device. Random colours are a parameter. The tracker of
  \<open>gpu_regions_test\<close> is shown to interpret sequences of gestures of the mouse.
\<close>

section \<open>Model\<close>

record input_cursor_position =
  icp_x :: u32
  icp_y :: u32

datatype cursor_tracker_states =
    Tracker_init | Tracker_default | Tracker_lclick | Tracker_xpos | Tracker_ypos | Tracker_expect_sync

abbreviation (input) IE_TYPE_SYNC :: u16 where "IE_TYPE_SYNC \<equiv> 0"
abbreviation (input) IE_TYPE_KEY :: u16 where "IE_TYPE_KEY \<equiv> 1"
abbreviation (input) IE_TYPE_TABLET :: u16 where "IE_TYPE_TABLET \<equiv> 3"
abbreviation (input) IE_TABLET_CODE_X :: u16 where "IE_TABLET_CODE_X \<equiv> 0"
abbreviation (input) IE_TABLET_CODE_Y :: u16 where "IE_TABLET_CODE_Y \<equiv> 1"
abbreviation (input) IE_KEY_CODE_LMOUSE :: u16 where "IE_KEY_CODE_LMOUSE \<equiv> 0x110"
abbreviation (input) IE_KEY_VALUE_PRESS :: u32 where "IE_KEY_VALUE_PRESS \<equiv> 1"

text \<open>One event in the tracker of \<open>gpu_regions_test\<close>: the new state and position, and whether the mouse was pressed.\<close>

definition cursor_track ::
    "cursor_tracker_states \<Rightarrow> input_cursor_position \<Rightarrow> input_event \<Rightarrow> cursor_tracker_states \<times> input_cursor_position \<times> bool" where
  "cursor_track state icp ev =
     (case state of
        Tracker_init \<Rightarrow>
          (if ev_type ev = IE_TYPE_TABLET \<and> ev_code ev = IE_TABLET_CODE_X then (Tracker_xpos, icp\<lparr>icp_x := ev_value ev\<rparr>, False)
           else (state, icp, False))
      | Tracker_default \<Rightarrow>
          (if ev_type ev = IE_TYPE_TABLET \<and> ev_code ev = IE_TABLET_CODE_X then (Tracker_xpos, icp\<lparr>icp_x := ev_value ev\<rparr>, False)
           else if ev_type ev = IE_TYPE_KEY \<and> ev_code ev = IE_KEY_CODE_LMOUSE \<and> ev_value ev = IE_KEY_VALUE_PRESS
             then (Tracker_lclick, icp, True)
           else (state, icp, False))
      | Tracker_xpos \<Rightarrow>
          (if ev_type ev = IE_TYPE_TABLET \<and> ev_code ev = IE_TABLET_CODE_Y then (Tracker_ypos, icp\<lparr>icp_y := ev_value ev\<rparr>, False)
           else (state, icp, False))
      | _ \<Rightarrow> (if ev_type ev = IE_TYPE_SYNC then (Tracker_default, icp, False) else (state, icp, False)))"

text \<open>The circle at a position of the cursor, drawn and shown.\<close>

definition cursor_circle :: "gpu_frame_buffer \<Rightarrow> input_cursor_position \<Rightarrow> gpu_circle" where
  "cursor_circle fb icp =
     \<lparr>circle_x = icp_x icp * fb_width fb div 0x8000, circle_y = icp_y icp * fb_height fb div 0x8000, circle_radius = 5\<rparr>"

definition draw_circle ::
    "'h gpu_fun \<Rightarrow> (u64 \<Rightarrow> u64) \<Rightarrow> (u32 \<Rightarrow> u64) \<Rightarrow> gpu_device \<Rightarrow> 'h \<Rightarrow> gpu_circle \<Rightarrow> pixel \<Rightarrow> (gpu_device \<times> 'h) option" where
  "draw_circle serve tr kcalloc gd h c color =
     (case gpu_fill_circle (gd_fb gd) c color of
        None \<Rightarrow> None
      | Some fb \<Rightarrow>
          map_option (\<lambda>(gd1, h1, _). (gd1, h1))
            (gpu_transfer_and_flush_some serve tr kcalloc (gd\<lparr>gd_fb := fb\<rparr>) h (gpu_circle_to_rectangle fb c)))"

text \<open>
  \<open>gpu_regions_test\<close>: as many events as there are at the start; the values of the regions that were
  clicked on are printed. \<open>colors k\<close> is the colour of the circle for the event \<open>k\<close>. The position is not
  initialised.
\<close>

fun regions_test_from where
  "regions_test_from serve tr kcalloc colors regions rb state icp gd h 0 = Some (rb, gd, h, [])"
| "regions_test_from serve tr kcalloc colors regions rb state icp gd h (Suc k) =
     (let (rb1, ev) = ie_ring_buffer_pop rb;
          (state1, icp1, pressed) = cursor_track state icp ev
      in if pressed then
           (case draw_circle serve tr kcalloc gd h (cursor_circle (gd_fb gd) icp1) (colors k) of
              None \<Rightarrow> None
            | Some (gd1, h1) \<Rightarrow>
                map_option (\<lambda>(rb2, gd2, h2, vs).
                    (rb2, gd2, h2, regions_value_of_point regions (icp_x icp1 * 100 div 0x8000) (icp_y icp1 * 100 div 0x8000) # vs))
                  (regions_test_from serve tr kcalloc colors regions rb1 state1 icp1 gd1 h1 k))
         else regions_test_from serve tr kcalloc colors regions rb1 state1 icp1 gd h k)"

definition gpu_regions_test where
  "gpu_regions_test serve tr kcalloc colors regions icp rb gd h =
     regions_test_from serve tr kcalloc colors regions rb Tracker_default icp gd h (nat (sint (rb_occupied rb)))"

text \<open>\<open>gpu_draw_from_cursor\<close>: 150 events are taken first.\<close>

fun pop_events_from :: "ie_ring_buffer \<Rightarrow> nat \<Rightarrow> ie_ring_buffer \<times> input_event list" where
  "pop_events_from rb 0 = (rb, [])"
| "pop_events_from rb (Suc n) =
     (let (rb1, ev) = ie_ring_buffer_pop rb; (rb2, evs) = pop_events_from rb1 n in (rb2, ev # evs))"

fun draw_events ::
    "'h gpu_fun \<Rightarrow> (u64 \<Rightarrow> u64) \<Rightarrow> (u32 \<Rightarrow> u64) \<Rightarrow> input_cursor_position \<Rightarrow> nat \<Rightarrow> gpu_device \<Rightarrow> 'h \<Rightarrow> input_event list \<Rightarrow>
     (gpu_device \<times> 'h) option" where
  "draw_events serve tr kcalloc icp valid_events_seen gd h [] = Some (gd, h)"
| "draw_events serve tr kcalloc icp valid_events_seen gd h (ev # evs) =
     (let (icp1, seen1) = (if ev_type ev = IE_TYPE_TABLET then
            (if ev_code ev = IE_TABLET_CODE_X then (icp\<lparr>icp_x := ev_value ev\<rparr>, valid_events_seen + 1)
             else if ev_code ev = IE_TABLET_CODE_Y then (icp\<lparr>icp_y := ev_value ev\<rparr>, valid_events_seen + 1)
             else (icp, valid_events_seen))
          else (icp, valid_events_seen))
      in if ev_type ev = IE_TYPE_SYNC then
           (if seen1 \<noteq> 2 then draw_events serve tr kcalloc icp1 0 gd h evs
            else
              (case draw_circle serve tr kcalloc gd h (cursor_circle (gd_fb gd) icp1) \<lparr>px_r = 255, px_g = 0, px_b = 0, px_a = 255\<rparr> of
                 None \<Rightarrow> None
               | Some (gd1, h1) \<Rightarrow> draw_events serve tr kcalloc icp1 0 gd1 h1 evs))
         else draw_events serve tr kcalloc icp1 seen1 gd h evs)"

definition gpu_draw_from_cursor where
  "gpu_draw_from_cursor serve tr kcalloc rb gd h =
     (let (rb1, evs) = pop_events_from rb 150
      in map_option (\<lambda>(gd1, h1). (rb1, gd1, h1)) (draw_events serve tr kcalloc \<lparr>icp_x = 0, icp_y = 0\<rparr> 0 gd h evs))"

section \<open>What is drawn is on the screen\<close>

definition circle_fits :: "gpu_frame_buffer \<Rightarrow> input_cursor_position \<Rightarrow> bool" where
  "circle_fits fb icp \<longleftrightarrow>
     (let x = unat (circle_x (cursor_circle fb icp)); y = unat (circle_y (cursor_circle fb icp))
      in 5 \<le> x \<and> 5 \<le> y \<and> x + 5 < unat (fb_width fb) \<and> y + 5 < unat (fb_height fb))"

definition near_cursor :: "gpu_frame_buffer \<Rightarrow> input_cursor_position \<Rightarrow> nat \<Rightarrow> nat \<Rightarrow> bool" where
  "near_cursor fb icp row col \<longleftrightarrow>
     (int col - int (unat (circle_x (cursor_circle fb icp))))\<^sup>2 + (int row - int (unat (circle_y (cursor_circle fb icp))))\<^sup>2 < 25"

lemma circle_rectangle:
  assumes "circle_fits fb icp" "unat (fb_width fb) * unat (fb_height fb) < 2 ^ 32"
  shows "rect_in (gpu_circle_to_rectangle fb (cursor_circle fb icp)) (fb_width fb, fb_height fb)"
    and "near_cursor fb icp row col \<Longrightarrow> in_rect (gpu_circle_to_rectangle fb (cursor_circle fb icp)) col row"
proof -
  let ?c = "cursor_circle fb icp"
  define x y where "x = unat (circle_x ?c)" and "y = unat (circle_y ?c)"
  have f: "5 \<le> x" "5 \<le> y" "x + 5 < unat (fb_width fb)" "y + 5 < unat (fb_height fb)"
    using assms(1) by (simp_all add: circle_fits_def Let_def x_def y_def)
  have lt: "unat (fb_width fb) < 2 ^ 32" "unat (fb_height fb) < 2 ^ 32"
    using unsigned_less [of "fb_width fb"] unsigned_less [of "fb_height fb"] by simp_all
  have r5: "circle_radius ?c = 5" by (simp add: cursor_circle_def)
  have sx: "unat (circle_x ?c - 5) = x - 5" "unat (circle_y ?c - 5) = y - 5"
    using f by (simp_all add: x_def y_def unat_sub word_le_nat_alt)
  have ax: "unat (circle_x ?c + 5) = x + 5" "unat (circle_y ?c + 5) = y + 5"
    using f lt by (simp_all add: x_def y_def unat_word_ariths)
  have "\<not> circle_x ?c < 5" "\<not> circle_y ?c < 5" "\<not> fb_width fb < circle_x ?c + 5" "\<not> fb_height fb < circle_y ?c + 5"
    using f ax by (simp_all add: word_less_nat_alt x_def y_def)
  then have rect: "gpu_circle_to_rectangle fb ?c = \<lparr>rect_x = circle_x ?c - 5, rect_y = circle_y ?c - 5, rect_width = 10, rect_height = 10\<rparr>"
    by (simp add: gpu_circle_to_rectangle_def r5)
  show "rect_in (gpu_circle_to_rectangle fb ?c) (fb_width fb, fb_height fb)"
    using f sx by (simp add: rect rect_in_def)
  show "in_rect (gpu_circle_to_rectangle fb ?c) col row" if "near_cursor fb icp row col"
  proof -
    have "(int col - int x)\<^sup>2 + (int row - int y)\<^sup>2 < 5\<^sup>2" using that by (simp add: near_cursor_def x_def y_def)
    from near_coords [OF this] have "\<bar>int col - int x\<bar> < 5" "\<bar>int row - int y\<bar> < 5" by simp_all
    then show ?thesis using f sx by (auto simp: rect in_rect_def)
  qed
qed

lemma draw_circle_shows:
  assumes dev: "gpu_conforming 12 serve" "\<forall>s. kcalloc s \<noteq> NULL" "gpu_running gd h" "gpu_room gd (Suc (Suc n))"
    and fits: "circle_fits (gd_fb gd) icp" "unat (fb_width (gd_fb gd)) * unat (fb_height (gd_fb gd)) < 2 ^ 32"
  shows "\<exists>gd' h'. draw_circle serve tr kcalloc gd h (cursor_circle (gd_fb gd) icp) color = Some (gd', h') \<and> gpu_running gd' h' \<and>
    gpu_room gd' n \<and> fb_width (gd_fb gd') = fb_width (gd_fb gd) \<and> fb_height (gd_fb gd') = fb_height (gd_fb gd) \<and>
    (\<forall>row col. col < unat (fb_width (gd_fb gd)) \<longrightarrow> fb_pixels (gd_fb gd') (unat (fb_width (gd_fb gd)) * row + col) =
       (if near_cursor (gd_fb gd) icp row col then color else fb_pixels (gd_fb gd) (unat (fb_width (gd_fb gd)) * row + col)))"
proof -
  let ?c = "cursor_circle (gd_fb gd) icp" and ?w = "unat (fb_width (gd_fb gd))"
  have "circle_radius ?c = 5" by (simp add: cursor_circle_def)
  then obtain fb where fb: "gpu_fill_circle (gd_fb gd) ?c color = Some fb" "fb_width fb = fb_width (gd_fb gd)"
      "fb_height fb = fb_height (gd_fb gd)"
    and px: "\<forall>row col. col < ?w \<longrightarrow> fb_pixels fb (?w * row + col) =
      (if near_cursor (gd_fb gd) icp row col then color else fb_pixels (gd_fb gd) (?w * row + col))"
    using gpu_fill_circle_correct [of ?w "gd_fb gd" "unat (circle_x ?c)" ?c "unat (circle_y ?c)" 5 color] fits
    by (auto simp: circle_fits_def Let_def near_cursor_def)
  let ?gd = "gd\<lparr>gd_fb := fb\<rparr>" and ?r = "gpu_circle_to_rectangle fb ?c"
  have c: "?c = cursor_circle fb icp" "circle_fits fb icp" "unat (fb_width fb) * unat (fb_height fb) < 2 ^ 32"
    using fits fb(2,3) by (simp_all add: cursor_circle_def circle_fits_def)
  have r: "rect_in ?r (fb_width (gd_fb ?gd), fb_height (gd_fb ?gd))" using circle_rectangle(1) [OF c(2,3)] c(1) by simp
  have run: "gd_queue_size ?gd = 12" "gpu_room ?gd (Suc (Suc n))" "gd_mutex ?gd = MUTEX_UNLOCKED" "gpu_attached (gd_fb ?gd) h"
      "unat (fb_width (gd_fb ?gd)) * unat (fb_height (gd_fb ?gd)) < 2 ^ 32"
    using dev(3,4) fb(2,3) c(3) by (simp_all add: gpu_running_def gpu_room_def gpu_attached_def whole_def)
  obtain gd' h' where 1: "gpu_transfer_and_flush_some serve tr kcalloc ?gd h ?r = Some (gd', h', 0)" "gd_fb gd' = fb"
      "gd_pixels gd' = gd_pixels gd" "\<not> gd_active gd'" "gd_mutex gd' = MUTEX_UNLOCKED" "gd_queue_size gd' = 12" "gpu_room gd' n"
      "gpu_attached fb h'" "gh_display h' = gh_display h"
    and scr: "\<forall>x y. gh_screen h' x y = (if in_rect ?r x y then fb_pixels fb (?w * y + x) else gh_screen h x y)"
    using transfer_and_flush_shows [OF dev(1) run(1,2) dev(2) run(3,4) r run(5), of tr] fb(2) by auto
  have "gh_screen h' x y = fb_pixels fb (?w * y + x)"
    if "x < unat (rect_width (gh_display h))" "y < unat (rect_height (gh_display h))" for x y
  proof (cases "in_rect ?r x y")
    case False
    then have "\<not> near_cursor (gd_fb gd) icp y x"
      using circle_rectangle(2) [OF c(2,3), of y x] c(1) by (auto simp: near_cursor_def)
    moreover have "x < ?w" using that(1) dev(3) by (simp add: gpu_running_def)
    ultimately show ?thesis using scr False px that dev(3) by (simp add: gpu_running_def)
  qed (use scr in simp)
  then have "gpu_running gd' h'" using 1 dev(3) fb(2,3) by (simp add: gpu_running_def)
  moreover have "draw_circle serve tr kcalloc gd h ?c color = Some (gd', h')" using fb(1) 1(1) by (simp add: draw_circle_def)
  ultimately show ?thesis using 1(2,7) fb px by (intro exI [of _ gd'] exI [of _ h']) simp
qed

section \<open>Following the cursor\<close>

text \<open>The positions at which the cursor comes to rest: a report of two coordinates, ended by a synchronisation.\<close>

fun cursor_points :: "input_cursor_position \<Rightarrow> nat \<Rightarrow> input_event list \<Rightarrow> input_cursor_position list" where
  "cursor_points icp n [] = []"
| "cursor_points icp n (ev # evs) =
     (if ev_type ev = IE_TYPE_SYNC then (if n = 2 then [icp] else []) @ cursor_points icp 0 evs
      else if ev_type ev = IE_TYPE_TABLET \<and> ev_code ev = IE_TABLET_CODE_X then cursor_points (icp\<lparr>icp_x := ev_value ev\<rparr>) (n + 1) evs
      else if ev_type ev = IE_TYPE_TABLET \<and> ev_code ev = IE_TABLET_CODE_Y then cursor_points (icp\<lparr>icp_y := ev_value ev\<rparr>) (n + 1) evs
      else cursor_points icp n evs)"

definition red :: pixel where
  "red = \<lparr>px_r = 255, px_g = 0, px_b = 0, px_a = 255\<rparr>"

lemma gpu_room_le: "gpu_room gd n \<Longrightarrow> m \<le> n \<Longrightarrow> gpu_room gd m"
  by (simp add: gpu_room_def)

lemma fits_cong:
  "fb_width fb' = fb_width fb \<Longrightarrow> fb_height fb' = fb_height fb \<Longrightarrow> circle_fits fb' icp = circle_fits fb icp \<and> near_cursor fb' icp = near_cursor fb icp"
  by (simp add: circle_fits_def near_cursor_def cursor_circle_def fun_eq_iff)

lemma draw_events_shows:
  assumes dev: "gpu_conforming 12 serve" "\<forall>s. kcalloc s \<noteq> NULL"
    and "gpu_running gd h" "gpu_room gd (2 * length evs)" "\<forall>p \<in> set (cursor_points icp n evs). circle_fits (gd_fb gd) p"
    and "unat (fb_width (gd_fb gd)) * unat (fb_height (gd_fb gd)) < 2 ^ 32"
  shows "\<exists>gd' h'. draw_events serve tr kcalloc icp n gd h evs = Some (gd', h') \<and> gpu_running gd' h' \<and>
    fb_width (gd_fb gd') = fb_width (gd_fb gd) \<and> fb_height (gd_fb gd') = fb_height (gd_fb gd) \<and>
    (\<forall>row col. col < unat (fb_width (gd_fb gd)) \<longrightarrow> fb_pixels (gd_fb gd') (unat (fb_width (gd_fb gd)) * row + col) =
       (if \<exists>p \<in> set (cursor_points icp n evs). near_cursor (gd_fb gd) p row col then red
        else fb_pixels (gd_fb gd) (unat (fb_width (gd_fb gd)) * row + col)))"
  using assms(3-)
proof (induction icp n evs arbitrary: gd h rule: cursor_points.induct)
  case (1 icp n)
  then show ?case by simp
next
  case (2 icp n ev evs)
  have room: "gpu_room gd (Suc (Suc (2 * length evs)))" "gpu_room gd (2 * length evs)"
    using "2.prems"(2) by (simp_all add: gpu_room_le)
  show ?case
  proof (cases "ev_type ev = IE_TYPE_SYNC \<and> n = 2")
    case True
    then have "circle_fits (gd_fb gd) icp" using "2.prems"(3) by simp
    from draw_circle_shows [OF dev "2.prems"(1) room(1) this "2.prems"(4), of tr red] obtain gd1 h1 where
      1: "draw_circle serve tr kcalloc gd h (cursor_circle (gd_fb gd) icp) red = Some (gd1, h1)" "gpu_running gd1 h1"
        "gpu_room gd1 (2 * length evs)" "fb_width (gd_fb gd1) = fb_width (gd_fb gd)" "fb_height (gd_fb gd1) = fb_height (gd_fb gd)"
      and px: "\<forall>row col. col < unat (fb_width (gd_fb gd)) \<longrightarrow> fb_pixels (gd_fb gd1) (unat (fb_width (gd_fb gd)) * row + col) =
         (if near_cursor (gd_fb gd) icp row col then red else fb_pixels (gd_fb gd) (unat (fb_width (gd_fb gd)) * row + col))"
      by blast
    note cong = fits_cong [OF 1(4,5)]
    have "\<forall>p \<in> set (cursor_points icp 0 evs). circle_fits (gd_fb gd1) p" using "2.prems"(3) True cong by simp
    with "2.IH"(1) [of gd1 h1] True 1 "2.prems"(4) obtain gd2 h2 where
      2: "draw_events serve tr kcalloc icp 0 gd1 h1 evs = Some (gd2, h2)" "gpu_running gd2 h2"
        "fb_width (gd_fb gd2) = fb_width (gd_fb gd)" "fb_height (gd_fb gd2) = fb_height (gd_fb gd)"
        "\<forall>row col. col < unat (fb_width (gd_fb gd)) \<longrightarrow> fb_pixels (gd_fb gd2) (unat (fb_width (gd_fb gd)) * row + col) =
         (if \<exists>p \<in> set (cursor_points icp 0 evs). near_cursor (gd_fb gd) p row col then red
          else fb_pixels (gd_fb gd1) (unat (fb_width (gd_fb gd)) * row + col))"
      using cong by auto
    have "draw_events serve tr kcalloc icp n gd h (ev # evs) = Some (gd2, h2)"
      using True 1(1) 2(1) by (simp add: red_def)
    then show ?thesis using 2 px True by (intro exI [of _ gd2] exI [of _ h2]) auto
  next
    case False
    show ?thesis
    proof (cases "ev_type ev = IE_TYPE_SYNC")
      case True
      then show ?thesis using "2.IH"(1) [of gd h] False "2.prems" room(2) by simp
    next
      case no_sync: False
      then show ?thesis
        using "2.IH"(2) [of gd h] "2.IH"(3) [of gd h] "2.IH"(4) [of gd h] "2.prems" room(2)
        by (cases "ev_type ev = IE_TYPE_TABLET"; cases "ev_code ev = IE_TABLET_CODE_X"; cases "ev_code ev = IE_TABLET_CODE_Y") simp_all
    qed
  qed
qed

lemma pop_events_contents:
  "rb_inv rb \<Longrightarrow> n \<le> length (rb_contents rb) \<Longrightarrow>
   snd (pop_events_from rb n) = take n (rb_contents rb) \<and> rb_contents (fst (pop_events_from rb n)) = drop n (rb_contents rb)"
proof (induction n arbitrary: rb)
  case (Suc n)
  then have "rb_occupied rb \<noteq> 0" using pop_none(2) by fastforce
  note p = pop_some [OF Suc.prems(1) this]
  obtain rb1 ev where e: "ie_ring_buffer_pop rb = (rb1, ev)" by fastforce
  then have c: "rb_contents rb = ev # rb_contents rb1" "rb_inv rb1" using p(1,2) by simp_all
  then show ?case using Suc.IH [of rb1] Suc.prems(2) e by (cases "pop_events_from rb1 n") simp
qed simp

text \<open>
  Following the cursor ends with the screen and the frame buffer in agreement: 150 events are taken
  from the ring, the oldest, and around every position at which the cursor came to rest among them
  a red circle is drawn, at the position scaled to the screen; nothing else changes. Each circle is a
  transfer of its own, so the queue must have room for two requests for every event.
\<close>

theorem gpu_draw_from_cursor_correct:
  assumes "gpu_conforming 12 serve" "\<forall>s. kcalloc s \<noteq> NULL" "gpu_running gd h" "gpu_room gd 300"
    and "rb_inv rb" "150 \<le> length (rb_contents rb)" "points = cursor_points \<lparr>icp_x = 0, icp_y = 0\<rparr> 0 (take 150 (rb_contents rb))"
    and "list_all (circle_fits (gd_fb gd)) points" "w = unat (fb_width (gd_fb gd))" "w * unat (fb_height (gd_fb gd)) < 2 ^ 32"
  shows "\<exists>rb' gd' h'. gpu_draw_from_cursor serve tr kcalloc rb gd h = Some (rb', gd', h') \<and>
    rb_contents rb' = drop 150 (rb_contents rb) \<and> gpu_running gd' h' \<and>
    (\<forall>row col. col < w \<longrightarrow> fb_pixels (gd_fb gd') (w * row + col) =
       (if list_ex (\<lambda>p. near_cursor (gd_fb gd) p row col) points then red else fb_pixels (gd_fb gd) (w * row + col)))"
proof -
  have evs: "pop_events_from rb 150 = (fst (pop_events_from rb 150), take 150 (rb_contents rb))"
    "rb_contents (fst (pop_events_from rb 150)) = drop 150 (rb_contents rb)"
    using pop_events_contents [OF assms(5,6)] by (metis prod.collapse)+
  have "gpu_room gd (2 * length (take 150 (rb_contents rb)))" using assms(4,6) by simp
  from draw_events_shows [OF assms(1-3) this, of "\<lparr>icp_x = 0, icp_y = 0\<rparr>" 0 tr] assms(7-10) obtain gd' h' where
    d: "draw_events serve tr kcalloc \<lparr>icp_x = 0, icp_y = 0\<rparr> 0 gd h (take 150 (rb_contents rb)) = Some (gd', h')" "gpu_running gd' h'"
    and px: "\<forall>row col. col < w \<longrightarrow> fb_pixels (gd_fb gd') (w * row + col) =
      (if list_ex (\<lambda>p. near_cursor (gd_fb gd) p row col) points then red else fb_pixels (gd_fb gd) (w * row + col))"
    by (auto simp: list_all_iff list_ex_iff)
  have "gpu_draw_from_cursor serve tr kcalloc rb gd h = Some (fst (pop_events_from rb 150), gd', h')"
    by (subst gpu_draw_from_cursor_def, subst evs(1)) (simp add: d(1))
  with evs(2) d(2) px show ?thesis by blast
qed

section \<open>The tracker understands gestures\<close>

text \<open>What a mouse reports: each report ends with a synchronisation.\<close>

datatype gesture = Move u32 u32 | Press | Release

abbreviation (input) sync_event :: input_event where
  "sync_event \<equiv> \<lparr>ev_type = IE_TYPE_SYNC, ev_code = 0, ev_value = 0\<rparr>"

fun gesture_events :: "gesture \<Rightarrow> input_event list" where
  "gesture_events (Move x y) =
     [\<lparr>ev_type = IE_TYPE_TABLET, ev_code = IE_TABLET_CODE_X, ev_value = x\<rparr>,
      \<lparr>ev_type = IE_TYPE_TABLET, ev_code = IE_TABLET_CODE_Y, ev_value = y\<rparr>, sync_event]"
| "gesture_events Press =
     [\<lparr>ev_type = IE_TYPE_KEY, ev_code = IE_KEY_CODE_LMOUSE, ev_value = IE_KEY_VALUE_PRESS\<rparr>, sync_event]"
| "gesture_events Release = [\<lparr>ev_type = IE_TYPE_KEY, ev_code = IE_KEY_CODE_LMOUSE, ev_value = 0\<rparr>, sync_event]"

text \<open>The positions of the cursor at which the button was pressed.\<close>

fun clicks :: "input_cursor_position \<Rightarrow> gesture list \<Rightarrow> input_cursor_position list" where
  "clicks icp [] = []"
| "clicks icp (Move x y # gs) = clicks \<lparr>icp_x = x, icp_y = y\<rparr> gs"
| "clicks icp (Press # gs) = icp # clicks icp gs"
| "clicks icp (Release # gs) = clicks icp gs"

definition region_clicked :: "region list \<Rightarrow> input_cursor_position \<Rightarrow> int" where
  "region_clicked regions icp = regions_value_of_point regions (icp_x icp * 100 div 0x8000) (icp_y icp * 100 div 0x8000)"

lemma pop_contents:
  assumes "rb_inv rb" "rb_contents rb = ev # evs"
  shows "\<exists>rb1. ie_ring_buffer_pop rb = (rb1, ev) \<and> rb_inv rb1 \<and> rb_contents rb1 = evs"
proof -
  have "rb_occupied rb \<noteq> 0" using pop_none(2) assms(2) by fastforce
  from pop_some(1,2) [OF assms(1) this] assms(2) show ?thesis by (cases "ie_ring_buffer_pop rb") simp
qed

declare regions_test_from.simps [simp del]

lemma track_quiet:
  assumes "rb_inv rb" "rb_contents rb = ev # evs" "cursor_track state icp ev = (state1, icp1, False)"
  shows "\<exists>rb1. rb_inv rb1 \<and> rb_contents rb1 = evs \<and>
    regions_test_from serve tr kcalloc colors regions rb state icp gd h (Suc k) =
      regions_test_from serve tr kcalloc colors regions rb1 state1 icp1 gd h k"
  using pop_contents [OF assms(1,2)] assms(3) by (auto simp: regions_test_from.simps(2))

lemma track_sync:
  assumes "rb_inv rb" "rb_contents rb = sync_event # evs" "state \<in> {Tracker_default, Tracker_lclick, Tracker_ypos}"
  shows "\<exists>rb1. rb_inv rb1 \<and> rb_contents rb1 = evs \<and>
    regions_test_from serve tr kcalloc colors regions rb state icp gd h (Suc k) =
      regions_test_from serve tr kcalloc colors regions rb1 Tracker_default icp gd h k"
  using assms(3) by (intro track_quiet [OF assms(1,2)]) (auto simp: cursor_track_def)

lemma gesture_moved:
  assumes "rb_inv rb" "rb_contents rb = gesture_events (Move x y) @ evs"
  shows "\<exists>rb1. rb_inv rb1 \<and> rb_contents rb1 = evs \<and>
    regions_test_from serve tr kcalloc colors regions rb Tracker_default icp gd h (length (gesture_events (Move x y)) + k) =
      regions_test_from serve tr kcalloc colors regions rb1 Tracker_default \<lparr>icp_x = x, icp_y = y\<rparr> gd h k"
proof -
  let ?p = "icp\<lparr>icp_x := x\<rparr>" and ?q = "\<lparr>icp_x = x, icp_y = y\<rparr>" and ?run = "regions_test_from serve tr kcalloc colors regions"
  note quiet = track_quiet [where serve = serve and tr = tr and kcalloc = kcalloc and colors = colors and regions = regions and gd = gd and h = h]
  have c: "rb_contents rb = \<lparr>ev_type = 3, ev_code = 0, ev_value = x\<rparr> # \<lparr>ev_type = 3, ev_code = 1, ev_value = y\<rparr> # sync_event # evs"
    using assms(2) by simp
  obtain rb1 where 1: "rb_inv rb1" "rb_contents rb1 = \<lparr>ev_type = 3, ev_code = 1, ev_value = y\<rparr> # sync_event # evs"
      "?run rb Tracker_default icp gd h (Suc (Suc (Suc k))) = ?run rb1 Tracker_xpos ?p gd h (Suc (Suc k))"
    using quiet [OF assms(1) c, where state = Tracker_default and icp = icp and ?state1.0 = Tracker_xpos and ?icp1.0 = ?p and k = "Suc (Suc k)"]
    unfolding cursor_track_def by auto
  obtain rb2 where 2: "rb_inv rb2" "rb_contents rb2 = sync_event # evs"
      "?run rb1 Tracker_xpos ?p gd h (Suc (Suc k)) = ?run rb2 Tracker_ypos ?q gd h (Suc k)"
    using quiet [OF 1(1,2), where state = Tracker_xpos and icp = ?p and ?state1.0 = Tracker_ypos and ?icp1.0 = ?q and k = "Suc k"]
    unfolding cursor_track_def by auto
  from track_sync [OF 2(1,2), where state = Tracker_ypos and serve = serve and tr = tr and kcalloc = kcalloc and gd = gd and h = h]
  show ?thesis unfolding gesture_events.simps using 1(3) 2(3) by simp
qed

lemma gesture_released:
  assumes "rb_inv rb" "rb_contents rb = gesture_events Release @ evs"
  shows "\<exists>rb1. rb_inv rb1 \<and> rb_contents rb1 = evs \<and>
    regions_test_from serve tr kcalloc colors regions rb Tracker_default icp gd h (length (gesture_events Release) + k) =
      regions_test_from serve tr kcalloc colors regions rb1 Tracker_default icp gd h k"
proof -
  let ?run = "regions_test_from serve tr kcalloc colors regions"
  have c: "rb_contents rb = \<lparr>ev_type = 1, ev_code = 0x110, ev_value = 0\<rparr> # sync_event # evs" using assms(2) by simp
  obtain rb1 where 1: "rb_inv rb1" "rb_contents rb1 = sync_event # evs"
      "?run rb Tracker_default icp gd h (Suc (Suc k)) = ?run rb1 Tracker_default icp gd h (Suc k)"
    using track_quiet [OF assms(1) c, where state = Tracker_default and icp = icp and ?state1.0 = Tracker_default and ?icp1.0 = icp
        and serve = serve and tr = tr and kcalloc = kcalloc and colors = colors and regions = regions and gd = gd and h = h and k = "Suc k"]
    unfolding cursor_track_def by auto
  from track_sync [OF 1(1,2), where state = Tracker_default and serve = serve and tr = tr and kcalloc = kcalloc and gd = gd and h = h]
  show ?thesis using 1(3) by simp
qed

lemma gesture_pressed:
  assumes dev: "gpu_conforming 12 serve" "\<forall>s. kcalloc s \<noteq> NULL" "gpu_running gd h" "gpu_room gd (Suc (Suc n))"
    and fits: "circle_fits (gd_fb gd) icp" "unat (fb_width (gd_fb gd)) * unat (fb_height (gd_fb gd)) < 2 ^ 32"
    and rb: "rb_inv rb" "rb_contents rb = gesture_events Press @ evs"
  shows "\<exists>rb1 gd1 h1. rb_inv rb1 \<and> rb_contents rb1 = evs \<and> gpu_running gd1 h1 \<and> gpu_room gd1 n \<and>
    fb_width (gd_fb gd1) = fb_width (gd_fb gd) \<and> fb_height (gd_fb gd1) = fb_height (gd_fb gd) \<and>
    regions_test_from serve tr kcalloc colors regions rb Tracker_default icp gd h (length (gesture_events Press) + k) =
      map_option (\<lambda>(rb2, gd2, h2, vs). (rb2, gd2, h2, region_clicked regions icp # vs))
        (regions_test_from serve tr kcalloc colors regions rb1 Tracker_default icp gd1 h1 k)"
proof -
  let ?run = "regions_test_from serve tr kcalloc colors regions" and ?ev = "\<lparr>ev_type = 1, ev_code = 0x110, ev_value = 1\<rparr>"
  have "rb_contents rb = ?ev # sync_event # evs" using rb(2) by simp
  from pop_contents [OF rb(1) this] obtain rb1 where
    1: "ie_ring_buffer_pop rb = (rb1, ?ev)" "rb_inv rb1" "rb_contents rb1 = sync_event # evs" by blast
  from draw_circle_shows [OF dev fits, of tr "colors (Suc k)"] obtain gd1 h1 where
    d: "draw_circle serve tr kcalloc gd h (cursor_circle (gd_fb gd) icp) (colors (Suc k)) = Some (gd1, h1)"
      "gpu_running gd1 h1" "gpu_room gd1 n" "fb_width (gd_fb gd1) = fb_width (gd_fb gd)" "fb_height (gd_fb gd1) = fb_height (gd_fb gd)"
    by blast
  obtain rb2 where 2: "rb_inv rb2" "rb_contents rb2 = evs"
      "?run rb1 Tracker_lclick icp gd1 h1 (Suc k) = ?run rb2 Tracker_default icp gd1 h1 k"
    using track_sync [OF 1(2,3), where state = Tracker_lclick and serve = serve and tr = tr and kcalloc = kcalloc and gd = gd1 and h = h1] by blast
  have "?run rb Tracker_default icp gd h (Suc (Suc k)) =
      map_option (\<lambda>(rb2, gd2, h2, vs). (rb2, gd2, h2, region_clicked regions icp # vs)) (?run rb2 Tracker_default icp gd1 h1 k)"
    by (subst regions_test_from.simps(2)) (simp add: 1(1) cursor_track_def d(1) 2(3) region_clicked_def)
  then show ?thesis using 2(1,2) d(2-) by (intro exI [of _ rb2] exI [of _ gd1] exI [of _ h1]) simp
qed

lemma regions_test_gestures:
  assumes dev: "gpu_conforming 12 serve" "\<forall>s. kcalloc s \<noteq> NULL"
    and "gpu_running gd h" "gpu_room gd (2 * length gs)" "\<forall>p \<in> set (clicks icp gs). circle_fits (gd_fb gd) p"
    and "unat (fb_width (gd_fb gd)) * unat (fb_height (gd_fb gd)) < 2 ^ 32"
    and "rb_inv rb" "rb_contents rb = concat (map gesture_events gs)"
  shows "\<exists>rb' gd' h'. regions_test_from serve tr kcalloc colors regions rb Tracker_default icp gd h
      (length (concat (map gesture_events gs))) = Some (rb', gd', h', map (region_clicked regions) (clicks icp gs)) \<and>
    rb_contents rb' = [] \<and> gpu_running gd' h'"
  using assms(3-)
proof (induction gs arbitrary: rb icp gd h)
  case Nil
  then show ?case by (simp add: regions_test_from.simps(1))
next
  case (Cons g gs)
  let ?evs = "concat (map gesture_events gs)"
  have room: "gpu_room gd (Suc (Suc (2 * length gs)))" "gpu_room gd (2 * length gs)"
    using Cons.prems(2) by (simp_all add: gpu_room_le)
  have c: "rb_contents rb = gesture_events g @ ?evs" using Cons.prems(6) by simp
  have len: "length (concat (map gesture_events (g # gs))) = length (gesture_events g) + length ?evs" by simp
  show ?case
  proof (cases g)
    case (Move x y)
    from gesture_moved [OF Cons.prems(5) c [unfolded Move], where serve = serve and tr = tr and kcalloc = kcalloc and gd = gd and h = h] obtain rb1 where
      1: "rb_inv rb1" "rb_contents rb1 = ?evs"
        "regions_test_from serve tr kcalloc colors regions rb Tracker_default icp gd h (length (gesture_events g) + length ?evs) =
          regions_test_from serve tr kcalloc colors regions rb1 Tracker_default \<lparr>icp_x = x, icp_y = y\<rparr> gd h (length ?evs)"
      unfolding Move by blast
    have "\<forall>p \<in> set (clicks \<lparr>icp_x = x, icp_y = y\<rparr> gs). circle_fits (gd_fb gd) p" using Cons.prems(3) Move by simp
    from Cons.IH [OF Cons.prems(1) room(2) this Cons.prems(4) 1(1,2)] show ?thesis
      unfolding len 1(3) unfolding Move by simp
  next
    case Press
    then have "circle_fits (gd_fb gd) icp" using Cons.prems(3) by simp
    from gesture_pressed [OF dev Cons.prems(1) room(1) this Cons.prems(4,5) c [unfolded Press]] obtain rb1 gd1 h1 where
      1: "rb_inv rb1" "rb_contents rb1 = ?evs" "gpu_running gd1 h1" "gpu_room gd1 (2 * length gs)"
        "fb_width (gd_fb gd1) = fb_width (gd_fb gd)" "fb_height (gd_fb gd1) = fb_height (gd_fb gd)"
        "regions_test_from serve tr kcalloc colors regions rb Tracker_default icp gd h (length (gesture_events g) + length ?evs) =
          map_option (\<lambda>(rb2, gd2, h2, vs). (rb2, gd2, h2, region_clicked regions icp # vs))
            (regions_test_from serve tr kcalloc colors regions rb1 Tracker_default icp gd1 h1 (length ?evs))"
      unfolding Press by blast
    have "\<forall>p \<in> set (clicks icp gs). circle_fits (gd_fb gd1) p" using Cons.prems(3) Press fits_cong [OF 1(5,6)] by simp
    from Cons.IH [OF 1(3,4) this _ 1(1,2)] 1(5,6) Cons.prems(4) show ?thesis
      unfolding len 1(7) unfolding Press by fastforce
  next
    case Release
    from gesture_released [OF Cons.prems(5) c [unfolded Release], where serve = serve and tr = tr and kcalloc = kcalloc and gd = gd and h = h] obtain rb1 where
      1: "rb_inv rb1" "rb_contents rb1 = ?evs"
        "regions_test_from serve tr kcalloc colors regions rb Tracker_default icp gd h (length (gesture_events g) + length ?evs) =
          regions_test_from serve tr kcalloc colors regions rb1 Tracker_default icp gd h (length ?evs)"
      unfolding Release by blast
    have "\<forall>p \<in> set (clicks icp gs). circle_fits (gd_fb gd) p" using Cons.prems(3) Release by simp
    from Cons.IH [OF Cons.prems(1) room(2) this Cons.prems(4) 1(1,2)] show ?thesis
      unfolding len 1(3) unfolding Release by simp
  qed
qed


section \<open>Concrete instances\<close>

definition full_ring :: "input_event list \<Rightarrow> ie_ring_buffer" where
  "full_ring evs = (ie_ring_buffer_init evs RB_OVERWRITE)\<lparr>rb_occupied := of_nat (length evs)\<rparr>"

lemma full_ring_contents:
  "evs \<noteq> [] \<Longrightarrow> length evs < 2 ^ 31 \<Longrightarrow> rb_inv (full_ring evs) \<and> rb_contents (full_ring evs) = evs"
  by (auto simp: full_ring_def rb_inv_def ie_ring_buffer_init_def rb_contents_def ring_contents_def unat_of_nat
      intro!: nth_equalityI)

lemma demo_running:
  "gpu_running (demo_gpu 0x9000) (demo_host 64 48 (Some (64, 48)))" "n < 60000 \<Longrightarrow> gpu_room (demo_gpu 0x9000) n"
  by (simp_all add: gpu_running_def demo_gpu_def demo_host_def gpu_attached_def whole_def gpu_room_def)

definition demo_moves :: "input_event list" where
  "demo_moves = gesture_events (Move 0x4000 0x4000) @ replicate 147 no_event"

lemma points_replicate: "cursor_points icp 0 (replicate n no_event) = []"
  by (induction n) (simp_all add: no_event_def)

theorem gpu_draw_from_cursor_correct_witness:
  "\<exists>rb' gd' h'. gpu_draw_from_cursor demo_serve id (\<lambda>_. 0x8000) (full_ring demo_moves) (demo_gpu 0x9000)
       (demo_host 64 48 (Some (64, 48))) = Some (rb', gd', h') \<and>
     fb_pixels (gd_fb gd') (64 * 24 + 32) = red \<and> fb_pixels (gd_fb gd') (64 * 24 + 37) = \<lparr>px_r = 0, px_g = 0, px_b = 0, px_a = 0\<rparr>"
proof -
  let ?p = "\<lparr>icp_x = 0x4000, icp_y = 0x4000\<rparr>"
  have l: "length demo_moves = 150" by (simp add: demo_moves_def)
  then have rb: "rb_inv (full_ring demo_moves)" "rb_contents (full_ring demo_moves) = demo_moves"
    using full_ring_contents [of demo_moves] by (simp_all add: demo_moves_def)
  have pts: "[?p] = cursor_points \<lparr>icp_x = 0, icp_y = 0\<rparr> 0 (take 150 (rb_contents (full_ring demo_moves)))"
    by (simp add: rb(2) l) (simp add: demo_moves_def points_replicate)
  have fb: "fb_width (gd_fb (demo_gpu 0x9000)) = 64" "fb_height (gd_fb (demo_gpu 0x9000)) = 48"
      "fb_pixels (gd_fb (demo_gpu 0x9000)) = (\<lambda>_. \<lparr>px_r = 0, px_g = 0, px_b = 0, px_a = 0\<rparr>)" by (simp_all add: demo_gpu_def)
  have fits: "list_all (circle_fits (gd_fb (demo_gpu 0x9000))) [?p]" by (simp add: circle_fits_def cursor_circle_def fb)
  have near: "near_cursor (gd_fb (demo_gpu 0x9000)) ?p 24 32" "\<not> near_cursor (gd_fb (demo_gpu 0x9000)) ?p 24 37"
    by (simp_all add: near_cursor_def cursor_circle_def fb)
  have w: "64 = unat (fb_width (gd_fb (demo_gpu 0x9000)))" "64 * unat (fb_height (gd_fb (demo_gpu 0x9000))) < 2 ^ 32"
    by (simp_all add: fb)
  have len: "150 \<le> length (rb_contents (full_ring demo_moves))" and k: "\<forall>s :: u32. (0x8000 :: u64) \<noteq> NULL" by (simp_all add: rb(2) l)
  have room: "gpu_room (demo_gpu 0x9000) 300" by (rule demo_running(2)) simp
  obtain rb' gd' h' where 1: "gpu_draw_from_cursor demo_serve id (\<lambda>_. 0x8000) (full_ring demo_moves) (demo_gpu 0x9000)
       (demo_host 64 48 (Some (64, 48))) = Some (rb', gd', h')"
    and px: "\<forall>row col. col < 64 \<longrightarrow> fb_pixels (gd_fb gd') (64 * row + col) =
       (if list_ex (\<lambda>p. near_cursor (gd_fb (demo_gpu 0x9000)) p row col) [?p] then red
        else fb_pixels (gd_fb (demo_gpu 0x9000)) (64 * row + col))"
    using gpu_draw_from_cursor_correct [where kcalloc = "\<lambda>_. 0x8000" and tr = id,
        OF demo_serve_conforming k demo_running(1) room rb(1) len pts fits w] by blast
  then show ?thesis using spec [OF spec [OF px, of 24], of 32] spec [OF spec [OF px, of 24], of 37] near by (simp add: fb)
qed


end
