(* ===== verification/Picture.thy ===== *)
theory Picture
  imports Gpu_Device Vfs
begin

text \<open>
  A picture in a file on the screen: \<open>gpu_get_fb_offset_into_rectangle\<close> of \<^verbatim>\<open>src/gpu.c\<close>, which scales, and
  \<open>vfs_bmp_file_to_gpu\<close> of \<^verbatim>\<open>src/vfs.c\<close>, which reads the file, paints and transfers the rectangle. What
  the display shows is stated for a picture at its own size.
\<close>

section \<open>Model\<close>

text \<open>
  The array of offsets a pixel of the picture is painted at, for the pixels that \<open>i\<close> and \<open>j\<close> count
  across and down; it starts with what the memory held, \<open>junk\<close>.
\<close>

definition scaled_offset :: "gpu_frame_buffer \<Rightarrow> u32 \<Rightarrow> u32 \<Rightarrow> u32 \<Rightarrow> u32 \<Rightarrow> gpu_rectangle \<Rightarrow> nat \<Rightarrow> nat \<Rightarrow> u64" where
  "scaled_offset fb row max_row column max_column r i j =
     (let gpu_offset = ucast (rect_y r * fb_width fb + rect_x r) +
            ucast ((rect_height r * row div max_row) * fb_width fb) +
            ucast (rect_width r * column div max_column) + of_nat i + ucast ((of_nat j :: u32) * fb_width fb)
      in if gpu_offset \<ge> ucast (fb_width fb * fb_height fb) then ucast (fb_width fb * fb_height fb - 1) else gpu_offset)"

definition gpu_get_fb_offset_into_rectangle ::
    "gpu_frame_buffer \<Rightarrow> u32 \<Rightarrow> u32 \<Rightarrow> u32 \<Rightarrow> u32 \<Rightarrow> gpu_rectangle \<Rightarrow> (nat \<Rightarrow> u64) \<Rightarrow> nat \<Rightarrow> u64" where
  "gpu_get_fb_offset_into_rectangle fb row max_row column max_column r junk =
     (let horizontal_num_pixels = nat (sint (rect_width r div max_row + 1));
          vertical_num_pixels = nat (sint (rect_height r div max_column + 1));
          gpu_offsets = fold (\<lambda>i a. fold (\<lambda>j a. a(i + j * horizontal_num_pixels := scaled_offset fb row max_row column max_column r i j))
              [0..<vertical_num_pixels] a) [0..<horizontal_num_pixels] junk
      in gpu_offsets(horizontal_num_pixels + vertical_num_pixels * horizontal_num_pixels := 0xffffffffffffffff))"

text \<open>The loop over the offsets ends at the mark, and after the second.\<close>

definition paint_offsets :: "(nat \<Rightarrow> u64) \<Rightarrow> pixel \<Rightarrow> (nat \<Rightarrow> pixel) \<Rightarrow> nat \<Rightarrow> pixel" where
  "paint_offsets gpu_fb_offsets pixel_to_gpu px =
     (if gpu_fb_offsets 0 = 0xffffffffffffffff then px
      else (let px1 = px(unat (gpu_fb_offsets 0) := pixel_to_gpu)
            in if gpu_fb_offsets 1 = 0xffffffffffffffff then px1
               else px1(unat (gpu_fb_offsets 1) := pixel_to_gpu)))"

text \<open>
  The picture in the contents of a file; None where bytes after the end of the contents would be
  read. A wrong magic number is only reported.
\<close>

definition bmp_to_rectangle :: "gpu_frame_buffer \<Rightarrow> u8 list \<Rightarrow> gpu_rectangle \<Rightarrow> (nat \<Rightarrow> nat \<Rightarrow> u64) \<Rightarrow> gpu_frame_buffer option" where
  "bmp_to_rectangle fb file_contents r junk =
     (let bmp_width = rd32 ((!) file_contents) 18;
          bmp_height = rd32 ((!) file_contents) 22;
          max_pixel = unat (scast (bmp_width * bmp_height) :: u64);
          width = unat (scast bmp_width :: u64)
      in if length file_contents < 26 \<or> (max_pixel \<noteq> 0 \<and> length file_contents < 54 + 3 * max_pixel) then None
         else Some (fb\<lparr>fb_pixels := fold (\<lambda>which_pixel px.
             let buffer_index = 54 + which_pixel * 3;
                 pixel_to_gpu = \<lparr>px_r = file_contents ! (buffer_index + 2), px_g = file_contents ! (buffer_index + 1),
                                 px_b = file_contents ! buffer_index, px_a = 0xff\<rparr>;
                 pixel_row = of_nat ((max_pixel - which_pixel - 1) div width);
                 pixel_col = of_nat (which_pixel mod width)
             in paint_offsets (gpu_get_fb_offset_into_rectangle fb pixel_row bmp_height pixel_col bmp_width r (junk which_pixel)) pixel_to_gpu px)
           [0..<max_pixel] (fb_pixels fb)\<rparr>))"

definition vfs_bmp_file_to_gpu where
  "vfs_bmp_file_to_gpu serve tr kcalloc junk v vdir fname r gd h =
     do { d \<leftarrow> v_dirs v vdir;
          case vd_fs_type d of
            VFS_FS_MINIX3 \<Rightarrow>
              do { (_, target_inode) \<leftarrow> target_of v d fname;
                   contents \<leftarrow> minix3_read_whole_file (v_fs v) target_inode;
                   file_contents \<leftarrow> contents;
                   fb \<leftarrow> bmp_to_rectangle (gd_fb gd) file_contents r junk;
                   (gd1, h1, _) \<leftarrow> gpu_transfer_and_flush_some serve tr kcalloc (gd\<lparr>gd_fb := fb\<rparr>) h r;
                   Some (gd1, h1) }
          | _ \<Rightarrow> Some (gd, h) }"

section \<open>The array of offsets\<close>

lemma column_fold:
  "i < n \<Longrightarrow> fold (\<lambda>j a. a(i + j * n := f j)) [0..<m] a k = (if k mod n = i \<and> k div n < m then f (k div n) else a k)"
  for i n m k :: nat
  by (induction m) (auto simp: less_Suc_eq)

lemma table_fold:
  "m \<le> n \<Longrightarrow> fold (\<lambda>i a. fold (\<lambda>j a. a(i + j * n := f i j)) [0..<v] a) [0..<m] a k =
     (if k mod n < m \<and> k div n < v then f (k mod n) (k div n) else a k)" for n m k v :: nat
proof (induction m)
  case (Suc m)
  then have "fold (\<lambda>j a. a(m + j * n := f m j)) [0..<v] a k = (if k mod n = m \<and> k div n < v then f m (k div n) else a k)" for a
    by (intro column_fold) simp
  with Suc show ?case by (auto simp: less_Suc_eq simp del: fun_upd_apply)
qed simp

lemma count_int:
  assumes "unat (a :: u32) < 2 ^ 31 - 1"
  shows "nat (sint (a div b + 1)) = unat a div unat b + 1"
proof -
  have "unat a div unat b \<le> unat a" by simp
  then have q: "unat a div unat b + 1 < 2 ^ 31" using assms by linarith
  have "a div b + 1 = of_nat (unat a div unat b + 1)" by (simp add: word_arith_nat_div add.commute)
  then show ?thesis using sint_of_nat_32(1) [OF q] by (simp only: nat_int)
qed

text \<open>If the picture is at most as high as the rectangle is wide, the first two offsets are neighbours.\<close>

lemma first_offsets:
  assumes "unat max_row \<le> unat (rect_width r)" "0 < unat max_row" "0 < unat max_column"
    and "unat (rect_width r) < 2 ^ 31 - 1" "unat (rect_height r) < 2 ^ 31 - 1"
  shows "gpu_get_fb_offset_into_rectangle fb row max_row column max_column r junk 0 = scaled_offset fb row max_row column max_column r 0 0"
    and "gpu_get_fb_offset_into_rectangle fb row max_row column max_column r junk 1 = scaled_offset fb row max_row column max_column r 1 0"
proof -
  note hv = count_int [OF assms(4)] count_int [OF assms(5)]
  define hp vp where "hp = unat (rect_width r) div unat max_row + 1" and "vp = unat (rect_height r) div unat max_column + 1"
  have "1 < hp" "0 < vp" using assms(1,2) by (simp_all add: hp_def vp_def div_greater_zero_iff)
  then show "gpu_get_fb_offset_into_rectangle fb row max_row column max_column r junk 0 = scaled_offset fb row max_row column max_column r 0 0"
      "gpu_get_fb_offset_into_rectangle fb row max_row column max_column r junk 1 = scaled_offset fb row max_row column max_column r 1 0"
    unfolding gpu_get_fb_offset_into_rectangle_def hv Let_def hp_def [symmetric] vp_def [symmetric] by (simp_all add: table_fold)
qed

section \<open>A picture at its own size\<close>

text \<open>A rectangle of the size of a picture, inside the screen, with a column to its right, no higher than wide.\<close>

definition picture_place :: "gpu_frame_buffer \<Rightarrow> gpu_rectangle \<Rightarrow> bool" where
  "picture_place fb r \<longleftrightarrow>
     unat (rect_x r) + unat (rect_width r) < unat (fb_width fb) \<and> unat (rect_y r) + unat (rect_height r) \<le> unat (fb_height fb) \<and>
     unat (fb_width fb) * unat (fb_height fb) < 2 ^ 31 \<and> 0 < rect_height r \<and> rect_height r \<le> rect_width r \<and> rect_width r < 0x10000"

lemma scaled_offset_same_size:
  assumes "picture_place fb r" "row < unat (rect_height r)" "col < unat (rect_width r)" "i < 2"
  shows "unat (scaled_offset fb (of_nat row) (rect_height r) (of_nat col) (rect_width r) r i 0) =
    unat (fb_width fb) * (unat (rect_y r) + row) + unat (rect_x r) + col + i"
proof -
  define W H w h x y where d: "W = unat (fb_width fb)" "H = unat (fb_height fb)" "w = unat (rect_width r)" "h = unat (rect_height r)"
    "x = unat (rect_x r)" "y = unat (rect_y r)"
  have p: "x + w < W" "y + h \<le> H" "W * H < 2 ^ 31" "0 < h" "h \<le> w" "w < 2 ^ 16"
    using assms(1) by (simp_all add: picture_place_def d word_less_nat_alt word_le_nat_alt unat_gt_0)
  have rc: "row < h" "col < w" using assms(2,3) by (simp_all add: d)
  have big: "W * (y + row) + W \<le> W * H"
    using mult_le_mono2 [of "Suc (y + row)" H W] rc(1) p(2) by simp
  have sum: "W * (y + row) = W * y + W * row" by (simp add: algebra_simps)
  have hr: "h * row < 2 ^ 32" "w * col < 2 ^ 32"
    using mult_strict_mono [of h "2 ^ 16" row "2 ^ 16"] mult_strict_mono [of w "2 ^ 16" col "2 ^ 16"] rc p(5,6) by simp_all
  have small: "row < 2 ^ 32" "col < 2 ^ 32" using rc p(5,6) by simp_all
  have 1: "unat (rect_y r * fb_width fb + rect_x r) = W * y + x"
    using big sum p(1,3) by (simp add: unat_word_ariths d mult.commute)
  have "unat (rect_height r * of_nat row div rect_height r) = row"
    using hr(1) small(1) p(4) by (simp add: unat_div unat_word_ariths unat_of_nat d)
  then have 2: "unat ((rect_height r * of_nat row div rect_height r) * fb_width fb) = W * row"
    using big sum p(3) by (simp add: unat_word_ariths d mult.commute)
  have 3: "unat (rect_width r * of_nat col div rect_width r) = col"
    using hr(2) small(2) p(4,5) by (simp add: unat_div unat_word_ariths unat_of_nat d)
  have 4: "unat (fb_width fb * fb_height fb) = W * H" using p(3) by (simp add: unat_word_ariths d)
  have le: "W * y + x + W * row + col + i < W * H" using big sum rc(2) p(1) assms(4) by simp
  let ?s = "ucast (rect_y r * fb_width fb + rect_x r) + ucast ((rect_height r * of_nat row div rect_height r) * fb_width fb) +
    ucast (rect_width r * of_nat col div rect_width r) + of_nat i + ucast ((of_nat 0 :: u32) * fb_width fb) :: u64"
  have e: "(ucast z :: u64) = of_nat n" if "unat (z :: u32) = n" for z n by (simp flip: that)
  have s: "?s = of_nat (W * y + x + W * row + col + i)"
    unfolding e [OF 1] e [OF 2] e [OF 3] by (simp add: ac_simps)
  then have us: "unat ?s = W * y + x + W * row + col + i" using le p(3) by (simp add: unat_of_nat del: of_nat_add of_nat_mult)
  then have "\<not> ucast (fb_width fb * fb_height fb) \<le> ?s" using le by (simp add: word_le_nat_alt unat_ucast_64 4)
  then show ?thesis using us sum unfolding scaled_offset_def Let_def by (simp add: d)
qed

text \<open>The bytes of the picture for a row and column of the rectangle; rows are counted from the bottom.\<close>

definition picture_pixel :: "u8 list \<Rightarrow> gpu_rectangle \<Rightarrow> nat \<Rightarrow> nat \<Rightarrow> pixel" where
  "picture_pixel contents r row col =
     (let k = 54 + 3 * (unat (rect_width r) * (unat (rect_height r) - 1 - row) + col)
      in \<lparr>px_r = contents ! (k + 2), px_g = contents ! (k + 1), px_b = contents ! k, px_a = 0xff\<rparr>)"

definition picture_offset :: "gpu_frame_buffer \<Rightarrow> gpu_rectangle \<Rightarrow> nat \<Rightarrow> nat" where
  "picture_offset fb r k =
     unat (fb_width fb) * (unat (rect_y r) + (unat (rect_height r) - 1 - k div unat (rect_width r))) + unat (rect_x r) + k mod unat (rect_width r)"

lemma fold_last_write:
  assumes "k < n" "\<And>px. F k px p = c" "\<And>j px. k < j \<Longrightarrow> j < n \<Longrightarrow> F j px p = px p"
  shows "fold F [0..<n] px p = c"
  using assms(1,3) by (induction n) (auto simp: less_Suc_eq assms(2))

lemma picture_offset_later:
  assumes "picture_place fb r" "k < j" "j < unat (rect_width r) * unat (rect_height r)"
  shows "picture_offset fb r j \<noteq> picture_offset fb r k" "Suc (picture_offset fb r j) \<noteq> picture_offset fb r k"
proof -
  define w h W y x where d: "w = unat (rect_width r)" "h = unat (rect_height r)" "W = unat (fb_width fb)" "y = unat (rect_y r)" "x = unat (rect_x r)"
  have p: "x + w < W" using assms(1) by (simp add: picture_place_def d)
  have "0 < w" using assms(3) by (cases "unat (rect_width r)") (simp_all add: d)
  have m: "j mod w < w" "k mod w < w" using \<open>0 < w\<close> by simp_all
  have rows: "j div w < h" "k div w < h" using assms(2,3) by (simp_all add: d less_mult_imp_div_less mult.commute)
  have row: "j div w = k div w" if "y + (h - 1 - j div w) = y + (h - 1 - k div w)" using that rows by linarith
  have later: "j div w = k div w \<Longrightarrow> k mod w < j mod w" using assms(2) by (metis div_mult_mod_eq nat_add_left_cancel_less)
  show "picture_offset fb r j \<noteq> picture_offset fb r k"
    using same_row_col [of W "y + (h - 1 - j div w)" "x + j mod w" "y + (h - 1 - k div w)" "x + k mod w"] p m row later
    by (auto simp: picture_offset_def d [symmetric] add.assoc)
  show "Suc (picture_offset fb r j) \<noteq> picture_offset fb r k"
    using same_row_col [of W "y + (h - 1 - j div w)" "x + j mod w + 1" "y + (h - 1 - k div w)" "x + k mod w"] p m row later
    by (auto simp: picture_offset_def d [symmetric] add.assoc)
qed

lemma paint_pixel:
  assumes place: "picture_place fb r" "k < unat (rect_width r) * unat (rect_height r)"
  shows "paint_offsets (gpu_get_fb_offset_into_rectangle fb
      (of_nat ((unat (rect_width r) * unat (rect_height r) - k - 1) div unat (rect_width r))) (rect_height r)
      (of_nat (k mod unat (rect_width r))) (rect_width r) r junk) c px =
    px(picture_offset fb r k := c, Suc (picture_offset fb r k) := c)"
proof -
  let ?w = "unat (rect_width r)" and ?h = "unat (rect_height r)"
  have p: "0 < ?h" "?h \<le> ?w" "?w < 2 ^ 16" "unat (fb_width fb) * unat (fb_height fb) < 2 ^ 31"
      "unat (rect_x r) + ?w < unat (fb_width fb)" "unat (rect_y r) + ?h \<le> unat (fb_height fb)"
    using place(1) by (simp_all add: picture_place_def word_less_nat_alt word_le_nat_alt unat_gt_0)
  have rc: "?h - 1 - k div ?w < ?h" "k mod ?w < ?w" using p(1,2) by simp_all
  note off = scaled_offset_same_size [OF place(1) rc]
  have lt: "picture_offset fb r k + 1 < 2 ^ 31"
  proof -
    have "unat (rect_y r) + (?h - 1 - k div ?w) < unat (fb_height fb)" "unat (rect_x r) + k mod ?w + 1 < unat (fb_width fb)"
      using p rc by linarith+
    from offset_on_screen [OF this] show ?thesis using p(4) by (simp add: picture_offset_def)
  qed
  define a where "a = gpu_get_fb_offset_into_rectangle fb (of_nat (?h - 1 - k div ?w)) (rect_height r) (of_nat (k mod ?w)) (rect_width r) r junk"
  have 1: "unat (a 0) = picture_offset fb r k" "unat (a 1) = Suc (picture_offset fb r k)"
    using off [of 0] off [of 1] first_offsets [of "rect_height r" r "rect_width r" fb "of_nat (?h - 1 - k div ?w)" "of_nat (k mod ?w)" junk] p(1-3)
    by (simp_all add: a_def picture_offset_def)
  then have "a 0 \<noteq> 0xffffffffffffffff" "a 1 \<noteq> 0xffffffffffffffff" using lt by auto
  then show ?thesis unfolding bmp_row [OF place(2)] a_def [symmetric] paint_offsets_def Let_def 1 by (simp only: if_False)
qed

lemma bmp_to_rectangle_shows:
  assumes place: "picture_place fb r" and size: "rd32 ((!) contents) 18 = rect_width r" "rd32 ((!) contents) 22 = rect_height r"
    and len: "54 + 3 * (unat (rect_width r) * unat (rect_height r)) \<le> length contents"
  shows "\<exists>fb'. bmp_to_rectangle fb contents r junk = Some fb' \<and> fb_width fb' = fb_width fb \<and> fb_height fb' = fb_height fb \<and>
    (\<forall>row < unat (rect_height r). \<forall>col < unat (rect_width r).
       fb_pixels fb' (unat (fb_width fb) * (unat (rect_y r) + row) + unat (rect_x r) + col) = picture_pixel contents r row col)"
proof -
  let ?w = "unat (rect_width r)" and ?h = "unat (rect_height r)"
  have p: "0 < ?h" "?h \<le> ?w" "?w < 2 ^ 16" "unat (rect_x r) + ?w < unat (fb_width fb)" "unat (rect_y r) + ?h \<le> unat (fb_height fb)"
      "unat (fb_width fb) * unat (fb_height fb) < 2 ^ 31"
    using place by (simp_all add: picture_place_def word_less_nat_alt word_le_nat_alt unat_gt_0)
  have n: "?w * ?h < 2 ^ 31" using mult_le_mono [of ?w "unat (fb_width fb)" ?h "unat (fb_height fb)"] p by simp
  then have "unat (rect_width r * rect_height r) = ?w * ?h" by (simp add: unat_word_ariths)
  then have N: "unat (scast (rect_width r * rect_height r) :: u64) = ?w * ?h" "unat (scast (rect_width r) :: u64) = ?w"
    using unat_scast_small [of "rect_width r * rect_height r"] unat_scast_small [of "rect_width r"] n p(3) by simp_all
  define c where "c k = \<lparr>px_r = contents ! (54 + k * 3 + 2), px_g = contents ! (54 + k * 3 + 1), px_b = contents ! (54 + k * 3), px_a = 0xff\<rparr>" for k
  define px where "px = fold (\<lambda>k px. px(picture_offset fb r k := c k, Suc (picture_offset fb r k) := c k)) [0..<?w * ?h] (fb_pixels fb)"
  have "bmp_to_rectangle fb contents r junk = Some (fb\<lparr>fb_pixels := px\<rparr>)"
    unfolding bmp_to_rectangle_def size Let_def N px_def c_def
    using len paint_pixel [OF place] by (auto intro!: arg_cong [where f = "\<lambda>p. fb\<lparr>fb_pixels := p\<rparr>"] fold_cong)
  moreover have "px (unat (fb_width fb) * (unat (rect_y r) + row) + unat (rect_x r) + col) = picture_pixel contents r row col"
    if "row < ?h" "col < ?w" for row col
  proof -
    define k where "k = ?w * (?h - 1 - row) + col"
    have k: "k < ?w * ?h" "k div ?w = ?h - 1 - row" "k mod ?w = col" using bmp_index [OF that] by (simp_all add: k_def)
    have off: "picture_offset fb r k = unat (fb_width fb) * (unat (rect_y r) + row) + unat (rect_x r) + col"
      using k(2,3) that(1) by (simp add: picture_offset_def)
    have "picture_offset fb r k \<noteq> picture_offset fb r j" "picture_offset fb r k \<noteq> Suc (picture_offset fb r j)"
      if "k < j" "j < ?w * ?h" for j using picture_offset_later [OF place that] by simp_all
    then have "px (picture_offset fb r k) = c k"
      unfolding px_def by (intro fold_last_write [OF k(1)]) simp_all
    then show ?thesis unfolding off by (simp add: picture_pixel_def Let_def c_def k_def mult.commute [of 3])
  qed
  ultimately show ?thesis by (intro exI [of _ "fb\<lparr>fb_pixels := px\<rparr>"]) simp
qed


section \<open>A concrete instance\<close>

text \<open>A disk whose root directory has one file \<open>d\<close> in zone 8: a picture of one pixel.\<close>

definition demo_picture_fs :: mx3 where
  "demo_picture_fs = demo_fs\<lparr>mx_disk := demo_disk(4097 := 0x40, 4104 := 64, 4120 := 7, 4161 := 0x80, 4168 := 57, 4184 := 8,
     7168 := 2, 7172 := 0x64, 8210 := 1, 8214 := 1, 8246 := 10, 8247 := 20, 8248 := 30)\<rparr>"

definition demo_picture_vfs :: vfs where
  "demo_picture_vfs = demo_vfs\<lparr>v_fs := demo_picture_fs, v_dirs := [100 \<mapsto> (os_root 100)\<lparr>vd_fs_type := VFS_FS_MINIX3, vd_inode_num := 1\<rparr>]\<rparr>"

lemma demo_picture_super: "imap_blocks (super demo_picture_fs) = 1" "zone_blocks (super demo_picture_fs) = 1"
  "mx3_block_size demo_picture_fs = 1024"
  by (simp_all add: super_def parse_superblock_def demo_picture_fs_def demo_fs_def demo_disk_def rd16_def rd32_def push_bit_eq_mult)

lemma demo_picture_inodes:
  "minix3_get_inode demo_picture_fs 1 = zero_inode\<lparr>i_mode := 0x4000, i_size := 64, i_zones := [7, 0, 0, 0, 0, 0, 0, 0, 0, 0]\<rparr>"
  "minix3_get_inode demo_picture_fs 2 = zero_inode\<lparr>i_mode := 0x8000, i_size := 57, i_zones := [8, 0, 0, 0, 0, 0, 0, 0, 0, 0]\<rparr>"
  by (simp_all add: minix3_get_inode_def inode_offset_def demo_picture_super parse_inode_def zero_inode_def zero_zones upt_rec)
    (simp_all add: demo_picture_fs_def demo_fs_def demo_disk_def rd16_def rd32_def push_bit_eq_mult)

lemma demo_picture_lookup:
  "minix3_get_inode_from_name demo_picture_fs (minix3_get_inode demo_picture_fs 1) [0x64] =
   Some (MX3_RETURN_CODE_NOT_DIRECTORY, Some (2, minix3_get_inode demo_picture_fs 2))"
proof -
  have "entry_inode (read_block demo_picture_fs 7168) 0 = 2"
    by (simp add: entry_inode_def read_block_def demo_picture_super)
      (simp add: demo_picture_fs_def demo_fs_def demo_disk_def rd32_def)
  moreover have "entry_name (read_block demo_picture_fs 7168) 0 = [0x64]"
    by (simp add: entry_name_def read_block_def demo_picture_super disk_read_def drop_map)
      (simp add: demo_picture_fs_def demo_fs_def demo_disk_def upt_rec [of 4] upt_rec [of 5])
  moreover have "\<not> is_directory (minix3_get_inode demo_picture_fs 2)" by (simp add: is_directory_def demo_picture_inodes)
  ultimately show ?thesis using one_entry_lookup [OF demo_picture_super(3) demo_picture_inodes(1)] by simp
qed

lemma demo_picture_cat:
  "vfs_cat demo_picture_vfs 100 [0x64] = Some (map (file_byte demo_picture_fs (minix3_get_inode demo_picture_fs 2)) [0..<57])"
proof -
  let ?s = demo_picture_fs and ?f = "minix3_get_inode demo_picture_fs 2"
  have "no_holes ?s ?f"
  proof -
    have "has_path ?s ?f n \<and> file_zone ?s ?f n \<noteq> 0" if "n * 1024 < 57" for n
      using that by (cases n) (simp_all add: has_path_def demo_picture_inodes file_zone_def)
    then show ?thesis by (simp add: no_holes_def demo_picture_super demo_picture_inodes)
  qed
  from read_file_from_spec [OF this refl _ _, of 0 "\<lambda>_. 0"]
  obtain b where "read_file_from ?s ?f 0 (\<lambda>_. 0) 0 57 = Some b" "\<forall>k < 57. b k = file_byte ?s ?f k"
    by (auto simp: demo_picture_super demo_picture_inodes)
  then have "minix3_read_whole_file ?s ?f = Some (Some (map (file_byte ?s ?f) [0..<57]))"
    by (simp add: minix3_read_whole_file_def minix3_read_from_file_def demo_picture_inodes)
  moreover have "vfs_path_to_minix3_path [0x64] = [0x64]" by (simp add: vfs_path_to_minix3_path_def)
  ultimately show ?thesis
    using demo_picture_lookup
    by (simp add: vfs_cat_def demo_picture_vfs_def demo_vfs_def os_root_def target_of_def fit_def)
qed


end
