(* ===== verification/Firmware_Calls.thy ===== *)
theory Firmware_Calls
  imports Sched Sbi Strings
begin

text \<open>
  The kernel's side of the supervisor calls, \<^verbatim>\<open>src/sbi.c\<close>: every function puts the number of the call
  and its arguments in registers, takes the trap to the firmware, and reads its result in \<open>a0\<close>. The
  answers the scheduler is given as a parameter are instantiated with these calls, and the actions it
  asks for are carried out by them: spawning a process on another hart starts it there.
\<close>

section \<open>Model\<close>

text \<open>
  The trap of an \<^verbatim>\<open>ecall\<close> from supervisor mode. \<open>regs\<close> are the other registers of the caller, \<open>time\<close> is the
  clock and \<open>lsrs\<close> what the line-status register of the UART reads.
\<close>

record firmware =
  fw_hang :: u64
  fw_time :: u64
  fw_lsrs :: "u8 list"
  fw_regs :: "u64 list"

definition sbi_ecall :: "firmware \<Rightarrow> sbi_state \<Rightarrow> nat \<Rightarrow> u64 list \<Rightarrow> (sbi_state \<times> u64 list) option" where
  "sbi_ecall fw s hart regs = c_trap_handler (fw_hang fw) (fw_time fw) (fw_lsrs fw) 0 0 0 s hart 9 regs"

definition result_of :: "(sbi_state \<times> u64 list) option \<Rightarrow> (sbi_state \<times> u64) option" where
  "result_of r = map_option (\<lambda>(s, regs). (s, regs ! 10)) r"

abbreviation (input) SVRCALL_GET_HART_STATUS :: u64 where "SVRCALL_GET_HART_STATUS \<equiv> 1"
abbreviation (input) SVRCALL_HART_START :: u64 where "SVRCALL_HART_START \<equiv> 2"
abbreviation (input) SVRCALL_HART_STOP :: u64 where "SVRCALL_HART_STOP \<equiv> 3"
abbreviation (input) SVRCALL_WHO_AM_I :: u64 where "SVRCALL_WHO_AM_I \<equiv> 4"
abbreviation (input) SVRCALL_PUTCHAR :: u64 where "SVRCALL_PUTCHAR \<equiv> 10"
abbreviation (input) SVRCALL_GETCHAR :: u64 where "SVRCALL_GETCHAR \<equiv> 11"
abbreviation (input) SVRCALL_GET_CLINT_TIME :: u64 where "SVRCALL_GET_CLINT_TIME \<equiv> 15"
abbreviation (input) SVRCALL_CLINT_SET_TIME :: u64 where "SVRCALL_CLINT_SET_TIME \<equiv> 16"
abbreviation (input) SVRCALL_CLINT_ADD_TIME :: u64 where "SVRCALL_CLINT_ADD_TIME \<equiv> 17"
abbreviation (input) SVRCALL_CLINT_ACKNOWLEDGE :: u64 where "SVRCALL_CLINT_ACKNOWLEDGE \<equiv> 18"
abbreviation (input) SVRCALL_CLINT_SHOW_CMP :: u64 where "SVRCALL_CLINT_SHOW_CMP \<equiv> 19"
abbreviation (input) SVRCALL_POWEROFF :: u64 where "SVRCALL_POWEROFF \<equiv> 215"

definition sbi_putchar :: "firmware \<Rightarrow> sbi_state \<Rightarrow> nat \<Rightarrow> u8 \<Rightarrow> sbi_state option" where
  "sbi_putchar fw s hart c = map_option fst (sbi_ecall fw s hart ((fw_regs fw)[17 := SVRCALL_PUTCHAR, 10 := ucast c]))"

definition sbi_getchar :: "firmware \<Rightarrow> sbi_state \<Rightarrow> nat \<Rightarrow> (sbi_state \<times> u8) option" where
  "sbi_getchar fw s hart =
     map_option (\<lambda>(s1, c). (s1, ucast c)) (result_of (sbi_ecall fw s hart ((fw_regs fw)[17 := SVRCALL_GETCHAR])))"

definition sbi_poweroff :: "firmware \<Rightarrow> sbi_state \<Rightarrow> nat \<Rightarrow> sbi_state option" where
  "sbi_poweroff fw s hart = map_option fst (sbi_ecall fw s hart ((fw_regs fw)[17 := SVRCALL_POWEROFF]))"

text \<open>Numbers of harts are 32-bit, and kept with their sign in a register; so are the results.\<close>

definition sbi_get_hart_status :: "firmware \<Rightarrow> sbi_state \<Rightarrow> nat \<Rightarrow> u32 \<Rightarrow> (sbi_state \<times> u32) option" where
  "sbi_get_hart_status fw s hart h =
     map_option (\<lambda>(s1, r). (s1, ucast r))
       (result_of (sbi_ecall fw s hart ((fw_regs fw)[17 := SVRCALL_GET_HART_STATUS, 10 := scast h])))"

definition sbi_hart_start :: "firmware \<Rightarrow> sbi_state \<Rightarrow> nat \<Rightarrow> u32 \<Rightarrow> u64 \<Rightarrow> u64 \<Rightarrow> (sbi_state \<times> u32) option" where
  "sbi_hart_start fw s hart h address frm =
     map_option (\<lambda>(s1, r). (s1, ucast r))
       (result_of (sbi_ecall fw s hart ((fw_regs fw)[17 := SVRCALL_HART_START, 10 := scast h, 11 := address, 12 := frm])))"

definition sbi_hart_stop :: "firmware \<Rightarrow> sbi_state \<Rightarrow> nat \<Rightarrow> u32 \<Rightarrow> (sbi_state \<times> u32) option" where
  "sbi_hart_stop fw s hart h =
     map_option (\<lambda>(s1, r). (s1, ucast r))
       (result_of (sbi_ecall fw s hart ((fw_regs fw)[17 := SVRCALL_HART_STOP, 10 := scast h])))"

definition sbi_who_am_i :: "firmware \<Rightarrow> sbi_state \<Rightarrow> nat \<Rightarrow> (sbi_state \<times> u32) option" where
  "sbi_who_am_i fw s hart =
     map_option (\<lambda>(s1, r). (s1, ucast r)) (result_of (sbi_ecall fw s hart ((fw_regs fw)[17 := SVRCALL_WHO_AM_I])))"

definition sbi_get_clint_time :: "firmware \<Rightarrow> sbi_state \<Rightarrow> nat \<Rightarrow> (sbi_state \<times> u64) option" where
  "sbi_get_clint_time fw s hart = result_of (sbi_ecall fw s hart ((fw_regs fw)[17 := SVRCALL_GET_CLINT_TIME]))"

definition sbi_set_clint_timer :: "firmware \<Rightarrow> sbi_state \<Rightarrow> nat \<Rightarrow> u32 \<Rightarrow> u64 \<Rightarrow> sbi_state option" where
  "sbi_set_clint_timer fw s hart h v =
     map_option fst (sbi_ecall fw s hart ((fw_regs fw)[17 := SVRCALL_CLINT_SET_TIME, 10 := scast h, 11 := v]))"

definition sbi_add_clint_timer :: "firmware \<Rightarrow> sbi_state \<Rightarrow> nat \<Rightarrow> u32 \<Rightarrow> u64 \<Rightarrow> sbi_state option" where
  "sbi_add_clint_timer fw s hart h v =
     map_option fst (sbi_ecall fw s hart ((fw_regs fw)[17 := SVRCALL_CLINT_ADD_TIME, 10 := scast h, 11 := v]))"

definition sbi_acknowledge_clint_timer :: "firmware \<Rightarrow> sbi_state \<Rightarrow> nat \<Rightarrow> sbi_state option" where
  "sbi_acknowledge_clint_timer fw s hart = map_option fst (sbi_ecall fw s hart ((fw_regs fw)[17 := SVRCALL_CLINT_ACKNOWLEDGE]))"

definition sbi_show_clint_timer :: "firmware \<Rightarrow> sbi_state \<Rightarrow> nat \<Rightarrow> u32 \<Rightarrow> sbi_state option" where
  "sbi_show_clint_timer fw s hart h =
     map_option fst (sbi_ecall fw s hart ((fw_regs fw)[17 := SVRCALL_CLINT_SHOW_CMP, 10 := scast h]))"

section \<open>What the calls return\<close>

text \<open>The firmware returns after the \<open>ecall\<close>.\<close>

definition resumed :: "sbi_state \<Rightarrow> nat \<Rightarrow> sbi_state \<Rightarrow> sbi_state" where
  "resumed s hart s1 = csr_write s1 hart MEPC (csrs s hart MEPC + 4)"

lemma sbi_ecall_eq:
  "sbi_ecall fw s hart regs =
     map_option (\<lambda>(s1, r). (resumed s hart s1, r)) (svrcall_handle (fw_time fw) (fw_lsrs fw) s hart regs)"
  by (simp add: sbi_ecall_def c_trap_handler_def Let_def resumed_def case_prod_beta)

lemmas sbi_call_defs = sbi_ecall_eq result_of_def svrcall_handle_def Let_def low_halves option.map_comp

lemma sbi_queries:
  assumes "length (fw_regs fw) = 32"
  shows "sbi_get_hart_status fw s hart h = Some (resumed s hart s, ucast (status_code (get_hart_status s (unat h))))"
    and "sbi_who_am_i fw s hart = Some (resumed s hart s, of_nat hart)"
    and "sbi_get_clint_time fw s hart = Some (resumed s hart s, fw_time fw)"
  using assms by (simp_all add: sbi_get_hart_status_def sbi_who_am_i_def sbi_get_clint_time_def sbi_call_defs)

lemma sbi_commands:
  assumes "length (fw_regs fw) = 32"
  shows "sbi_hart_start fw s hart h address frm =
      map_option (\<lambda>(s1, r). (resumed s hart s1, word_of_int r)) (hart_start s (unat h) address frm)"
    and "sbi_hart_stop fw s hart h = map_option (\<lambda>(s1, r). (resumed s hart s1, word_of_int r)) (hart_stop s (unat h))"
    and "0 \<le> sint h \<Longrightarrow> sbi_add_clint_timer fw s hart h v =
      Some (resumed s hart (clint_add_mtimecmp (fw_time fw) s (unat h) v))"
    and "0 \<le> sint h \<Longrightarrow> sbi_set_clint_timer fw s hart h v = Some (resumed s hart (clint_set_mtimecmp s (unat h) v))"
  using assms
  by (simp_all add: sbi_hart_start_def sbi_hart_stop_def sbi_add_clint_timer_def sbi_set_clint_timer_def sbi_call_defs
      comp_def split_def option.map_comp)

section \<open>Spawning through the firmware\<close>

fun status_of_code :: "u32 \<Rightarrow> hart_status" where
  "status_of_code c = (if c = 0 then HS_STOPPED else if c = 1 then HS_STARTING else if c = 2 then HS_STARTED
     else if c = 3 then HS_STOPPING else HS_INVALID)"

declare status_of_code.simps [simp del]

lemma status_of_status_code [simp]: "status_of_code (ucast (status_code h)) = h"
  by (cases h) (simp_all add: status_of_code.simps)

text \<open>What the kernel does in the end of \<open>process_spawn\<close>; entering a thread sets its frame.\<close>

fun perform :: "firmware \<Rightarrow> nat \<Rightarrow> hart_action list \<Rightarrow> sbi_state \<Rightarrow> sbi_state option" where
  "perform fw hart [] s = Some s"
| "perform fw hart (Add_Timer h n # as) s =
     Option.bind (sbi_add_clint_timer fw s hart (word_of_int h) (of_nat n)) (perform fw hart as)"
| "perform fw hart (Enter_Thread frm # as) s = perform fw hart as (csr_write s hart SSCRATCH frm)"
| "perform fw hart (Hart_Start h address frm # as) s =
     Option.bind (sbi_hart_start fw s hart (word_of_int h) address frm) (\<lambda>(s1, _). perform fw hart as s1)"

text \<open>
  \<open>process_spawn\<close> on the hart \<open>hart\<close>, with the two questions it asks and the actions it takes, in
  their order.
\<close>

definition process_spawn_firmware ::
    "firmware \<Rightarrow> spawn_syms \<Rightarrow> sched_state \<Rightarrow> sbi_state \<Rightarrow> nat \<Rightarrow> u64 \<Rightarrow> int \<Rightarrow> (sched_state \<times> sbi_state \<times> int) option" where
  "process_spawn_firmware fw sy st s hart p target_hart =
     Option.bind (sbi_who_am_i fw s hart) (\<lambda>(s1, me).
     Option.bind (sbi_get_hart_status fw s1 hart (word_of_int target_hart)) (\<lambda>(s2, target_hart_status).
       let env = \<lparr>who_am_i = sint me, hart_status_of = (\<lambda>_. status_of_code target_hart_status), clint_time = fw_time fw\<rparr>;
           (st1, r) = process_spawn sy env st p target_hart
       in map_option (\<lambda>s3. (st1, s3, r)) (perform fw hart (drop (length (acts st)) (acts st1)) s2)))"

lemma spawn_questions:
  assumes "length (fw_regs fw) = 32" "hart < 8" "h < 2 ^ 31"
  shows "process_spawn_firmware fw sy st s hart p (int h) =
    (let env = \<lparr>who_am_i = int hart, hart_status_of = (\<lambda>_. get_hart_status s h), clint_time = fw_time fw\<rparr>;
         (st1, r) = process_spawn sy env st p (int h); s2 = resumed (resumed s hart s) hart (resumed s hart s)
     in map_option (\<lambda>s3. (st1, s3, r)) (perform fw hart (drop (length (acts st)) (acts st1)) s2))"
proof -
  have "sint (of_nat hart :: u32) = int hart" using assms(2) by (intro sint_of_nat_32(1)) simp
  moreover have "unat (of_nat h :: u32) = h" using assms(3) by (simp add: unat_of_nat)
  moreover have "get_hart_status (resumed s hart s) h = get_hart_status s h"
    by (simp add: get_hart_status_def resumed_def)
  ultimately show ?thesis
    using sbi_queries(2) [OF assms(1), of s hart] sbi_queries(1) [OF assms(1), of "resumed s hart s" hart "of_nat h"]
    by (simp add: process_spawn_firmware_def Let_def)
qed

text \<open>
  C13: Spawning a process on another, stopped hart starts it there: the calls to the firmware set the
  timer of that hart to the end of the process's quantum and raise its software interrupt, and when
  the hart takes it, it is started and will return to the kernel's entry for threads with the
  physical address of the process's frame in its scratch register. The process is current on the
  hart, and no other hart changes its state.
\<close>

theorem process_spawn_starts_hart:
  assumes "length (fw_regs fw) = 32" and "hart < 8" "h < 8" "h \<noteq> hart"
    and "sbi_hart_lock s h = 1" and "hd_status (sbi_hart_data s h) = HS_STOPPED"
  shows "\<exists>st1 s1 s2. process_spawn_firmware fw sy st s hart p (int h) = Some (st1, s1, 0) \<and>
    process_current st1 (int h) = p \<and>
    clint_mtimecmp s1 h = fw_time fw + of_nat (unat (quantum (procs st p)) * 10000) \<and>
    clint_msip s1 h = 1 \<and> hart_handle_msip hang s1 h = Some s2 \<and> hd_status (sbi_hart_data s2 h) = HS_STARTED \<and>
    csrs s2 h MEPC = spawn_thread_start sy \<and>
    csrs s2 h SSCRATCH = mmu_translate (phys (kh st)) (kernel_mmu_table (kh st)) (f_sscratch (frame (procs st p))) \<and>
    (\<forall>j. j \<noteq> h \<longrightarrow> sbi_hart_data s2 j = sbi_hart_data s j)"
proof -
  have h: "unat (of_nat h :: u32) = h" using assms(3) by (simp add: unat_of_nat)
  have i: "sint (of_nat h :: u32) = int h" using assms(3) by (intro sint_of_nat_32(1)) simp
  have q: "get_hart_status s h = HS_STOPPED" using assms(3,6) by (simp add: get_hart_status_def)
  define r where "r = resumed (resumed s hart s) hart (resumed s hart s)"
  have r: "sbi_hart_data r = sbi_hart_data s" "sbi_hart_lock r = sbi_hart_lock s" by (simp_all add: r_def resumed_def)
  define t where "t = resumed r hart (clint_add_mtimecmp (fw_time fw) r h (of_nat (unat (quantum (procs st p)) * 10000)))"
  have t: "sbi_hart_data t = sbi_hart_data s" "sbi_hart_lock t = sbi_hart_lock s"
      "clint_mtimecmp t h = fw_time fw + of_nat (unat (quantum (procs st p)) * 10000)"
    using assms(3) by (simp_all add: t_def r resumed_def csr_write_def clint_add_mtimecmp_def clint_set_mtimecmp_def)
  have add: "sbi_add_clint_timer fw r hart (of_nat h) (of_nat (unat (quantum (procs st p)) * 10000)) = Some t"
    using sbi_commands(3) [OF assms(1), of "of_nat h" r hart] i h by (simp add: t_def)
  define frm where "frm = mmu_translate (phys (kh st)) (kernel_mmu_table (kh st)) (f_sscratch (frame (procs st p)))"
  obtain t1 where start: "hart_start t h (spawn_thread_start sy) frm = Some (t1, 0)"
    and t1: "clint_msip t1 h = 1" "clint_mtimecmp t1 h = clint_mtimecmp t h" "sbi_hart_lock t1 h = 1"
      "sbi_hart_data t1 = (sbi_hart_data s)(h := \<lparr>hd_status = HS_STARTING, hd_target = spawn_thread_start sy, hd_frame = frm\<rparr>)"
    using assms(3,5,6) t(1,2)
    by (simp add: hart_start_def mutex_try_def mutex_post_def Let_def set_lock_def set_hart_def clint_set_msip_def)
  define s1 where "s1 = resumed t hart t1"
  have s1: "clint_msip s1 h = 1" "clint_mtimecmp s1 h = clint_mtimecmp t h" "sbi_hart_lock s1 h = 1"
      "sbi_hart_data s1 = (sbi_hart_data s)(h := \<lparr>hd_status = HS_STARTING, hd_target = spawn_thread_start sy, hd_frame = frm\<rparr>)"
    using t1 by (simp_all add: s1_def resumed_def csr_write_def)
  have "sbi_hart_start fw t hart (of_nat h) (spawn_thread_start sy) frm = Some (s1, 0)"
    using sbi_commands(1) [OF assms(1), of t hart "of_nat h" "spawn_thread_start sy" frm] h start by (simp add: s1_def)
  then have act: "perform fw hart [Add_Timer (int h) (unat (quantum (procs st p)) * 10000), Hart_Start (int h) (spawn_thread_start sy) frm] r = Some s1"
    using add by simp
  obtain st1 where sp: "process_spawn sy \<lparr>who_am_i = int hart, hart_status_of = (\<lambda>_. HS_STOPPED), clint_time = fw_time fw\<rparr> st p (int h) = (st1, 0)"
      "process_current st1 (int h) = p"
      "drop (length (acts st)) (acts st1) =
        [Add_Timer (int h) (unat (quantum (procs st p)) * 10000), Hart_Start (int h) (spawn_thread_start sy) frm]"
    using assms(4) by (simp add: process_spawn_def spawn_refused_def spawn_actions_def spawn_process_def Let_def frm_def set_proc_def)
  have "process_spawn_firmware fw sy st s hart p (int h) = Some (st1, s1, 0)"
    using spawn_questions [OF assms(1,2), of h sy st s p] assms(3) sp act unfolding q r_def [symmetric] by (simp add: Let_def)
  moreover have "\<exists>s2. hart_handle_msip hang s1 h = Some s2 \<and> hd_status (sbi_hart_data s2 h) = HS_STARTED \<and>
      csrs s2 h MEPC = spawn_thread_start sy \<and> csrs s2 h SSCRATCH = frm \<and> (\<forall>j. j \<noteq> h \<longrightarrow> sbi_hart_data s2 j = sbi_hart_data s j)"
    using assms(3) s1 by (auto simp: hart_handle_msip_def mutex_try_def mutex_post_def msip_started_def Let_def)
  ultimately show ?thesis using sp(2) s1 t(3) by (auto simp: frm_def)
qed

text \<open>A hart that is not there is refused, and nothing is started.\<close>

lemma process_spawn_refused:
  assumes "length (fw_regs fw) = 32" and "hart < 8" "h < 2 ^ 31" "h \<noteq> hart" and "get_hart_status s h = HS_INVALID"
  shows "\<exists>s1. process_spawn_firmware fw sy st s hart p (int h) = Some (st, s1, 1) \<and>
    sbi_hart_data s1 = sbi_hart_data s \<and> clint_msip s1 = clint_msip s"
  using spawn_questions [OF assms(1-3), of sy st s p] assms(4,5)
  by (simp add: process_spawn_def spawn_refused_def Let_def resumed_def)

theorem process_spawn_starts_hart_witness:
  "\<exists>st1 s1. process_spawn_firmware \<lparr>fw_hang = 0x80000100, fw_time = 1000, fw_lsrs = [], fw_regs = replicate 32 0\<rparr>
      \<lparr>spawn_thread_start = 0x80200000, spawn_thread_end = 0, spawn_trap_start = 0, spawn_trap_end = 0, idle_code_start = 0, idle_code_end = 0\<rparr>
      demo_sched demo_sbi 0 0x1000 1 = Some (st1, s1, 0) \<and> clint_mtimecmp s1 1 = 1001000"
proof -
  let ?fw = "\<lparr>fw_hang = 0x80000100, fw_time = 1000, fw_lsrs = [], fw_regs = replicate 32 0\<rparr>"
    and ?sy = "\<lparr>spawn_thread_start = 0x80200000, spawn_thread_end = 0, spawn_trap_start = 0, spawn_trap_end = 0, idle_code_start = 0, idle_code_end = 0\<rparr>"
  have d: "sbi_hart_lock demo_sbi 1 = 1" "hd_status (sbi_hart_data demo_sbi 1) = HS_STOPPED" by (simp_all add: demo_sbi_def)
  have q: "quantum (procs demo_sched 0x1000) = 100" by (simp add: demo_sched_def demo_proc_def)
  from process_spawn_starts_hart [where fw = ?fw and hart = 0 and h = 1 and sy = ?sy and st = demo_sched and p = "0x1000" and hang = 0, OF _ _ _ _ d]
  show ?thesis by (auto simp: q)
qed

end
