(* ===== verification/Kernel_Traps.thy ===== *)
theory Kernel_Traps
  imports Syscall
begin

text \<open>
  The state of the kernel under every sequence of traps on its harts: timer interrupts, external
  interrupts and all system calls, with the scheduler in between. \<open>os_wf\<close> is the invariant: the
  process lists are disjoint and without duplicates, no process is current on two harts or current
  and in a list, idle processes stay with their hart, and the locks are free between traps.
\<close>

section \<open>Where processes are\<close>

definition harts :: "int set" where
  "harts = {0..<8}"

definition listed :: "sched_state \<Rightarrow> u64 set" where
  "listed st = set (unsched st) \<union> set (sleeping st)"

definition queues_ok :: "sched_state \<Rightarrow> bool" where
  "queues_ok st \<longleftrightarrow> NULL \<notin> listed st \<and> distinct (unsched st @ sleeping st) \<and> sorted (map (vrt st) (unsched st))"

definition idles_ok :: "sched_state \<Rightarrow> bool" where
  "idles_ok st \<longleftrightarrow> inj_on (process_idle st) harts \<and>
     (\<forall>h \<in> harts. process_idle st h \<noteq> NULL \<and> process_idle st h \<notin> listed st \<and>
        pstate (procs st (process_idle st h)) \<notin> {PS_SLEEPING, PS_ASYNC_FREE})"

definition placed :: "sched_state \<Rightarrow> bool" where
  "placed st \<longleftrightarrow>
     (\<forall>h \<in> harts. process_current st h \<notin> listed st) \<and>
     (\<forall>h \<in> harts. \<forall>h' \<in> harts. process_current st h \<noteq> NULL \<longrightarrow>
        (process_current st h = process_current st h' \<longrightarrow> h = h') \<and>
        (process_current st h = process_idle st h' \<longrightarrow> h = h'))"

definition sched_ok :: "sched_state \<Rightarrow> bool" where
  "sched_ok st \<longleftrightarrow> queues_ok st \<and> idles_ok st \<and> placed st"

lemmas sched_ok_defs = sched_ok_def queues_ok_def idles_ok_def placed_def listed_def

lemma sorted_run_time_cong:
  "(\<forall>q \<in> set xs. f q = g q) \<Longrightarrow> sorted (map f xs) = sorted (map g xs)" for f g :: "u64 \<Rightarrow> u64"
  by (metis map_cong)

text \<open>A process that is nowhere, and could be given to the hart.\<close>

definition loose :: "sched_state \<Rightarrow> int \<Rightarrow> u64 \<Rightarrow> bool" where
  "loose st hart p \<longleftrightarrow>
     p \<noteq> NULL \<and> p \<notin> listed st \<and> (\<forall>h \<in> harts. process_current st h \<noteq> p) \<and> (\<forall>h \<in> harts. p = process_idle st h \<longrightarrow> h = hart)"

lemma sched_ok_kh [simp]: "sched_ok (st\<lparr>kh := k\<rparr>) = sched_ok st" "sched_ok (st\<lparr>sched_mutex := v\<rparr>) = sched_ok st"
    "sched_ok (st\<lparr>acts := a\<rparr>) = sched_ok st"
  by (simp_all add: sched_ok_defs)

lemma loose_kh [simp]: "loose (st\<lparr>kh := k\<rparr>) hart p = loose st hart p" "loose (st\<lparr>sched_mutex := v\<rparr>) hart p = loose st hart p"
  by (simp_all add: loose_def listed_def)

lemma distinct_mset: "mset xs = mset ys \<Longrightarrow> distinct xs = distinct ys"
  by (rule mset_eq_imp_distinct_iff)

text \<open>A change of a structure that keeps its run time, and its state if it is idle.\<close>

lemma sched_ok_set_proc:
  assumes "sched_ok st" "vruntime pr = vrt st p \<or> p \<notin> listed st"
    and "(\<forall>h \<in> harts. p \<noteq> process_idle st h) \<or> pstate pr \<notin> {PS_SLEEPING, PS_ASYNC_FREE}"
  shows "sched_ok (set_proc st p pr)"
proof -
  have "sorted (map (vrt (set_proc st p pr)) (unsched st)) = sorted (map (vrt st) (unsched st))"
    using assms(2) by (intro sorted_run_time_cong) (auto simp: listed_def)
  then have "queues_ok (set_proc st p pr)" using assms(1) by (simp add: sched_ok_def queues_ok_def listed_def)
  moreover have "idles_ok (set_proc st p pr)" "placed (set_proc st p pr)"
    using assms(1,3) by (auto simp: sched_ok_def idles_ok_def placed_def listed_def)
  ultimately show ?thesis by (simp add: sched_ok_def)
qed

lemma sched_ok_walk:
  assumes "sched_ok st"
  shows "sched_ok (sched_walk_sleeping_list env st)"
proof -
  let ?w = "sched_walk_sleeping_list env st"
  have w: "walked (clint_time env) st ?w" using assms by (intro walk_walked) (simp add: sched_ok_defs)
  then have m: "mset (unsched ?w @ sleeping ?w) = mset (unsched st @ sleeping st)" by (simp add: walked_def)
  then have l: "listed ?w = listed st" by (metis listed_def set_append set_mset_mset)
  have "pstate (procs ?w (process_idle st h)) = pstate (procs st (process_idle st h))" if "h \<in> harts" for h
    using assms w that by (auto simp: walked_def sched_ok_defs)
  then show ?thesis using assms w l distinct_mset [OF m] by (simp add: sched_ok_def queues_ok_def idles_ok_def placed_def walked_def)
qed

lemma sched_ok_off:
  assumes "sched_ok st" "hart \<in> harts"
  shows "sched_ok (st\<lparr>process_current := (process_current st)(hart := NULL)\<rparr>)"
    and "loose (st\<lparr>process_current := (process_current st)(hart := NULL)\<rparr>) hart (task_on st hart)"
proof -
  have "placed (st\<lparr>process_current := (process_current st)(hart := NULL)\<rparr>)"
    using assms by (auto simp: sched_ok_def placed_def queues_ok_def listed_def)
  then show "sched_ok (st\<lparr>process_current := (process_current st)(hart := NULL)\<rparr>)"
    using assms(1) by (simp add: sched_ok_def queues_ok_def idles_ok_def listed_def)
  have "process_idle st h = process_idle st hart \<Longrightarrow> h \<in> harts \<Longrightarrow> h = hart" for h
    using assms by (auto simp: sched_ok_def idles_ok_def inj_on_def)
  moreover have "process_current st h \<noteq> process_idle st hart" if "h \<in> harts" "h \<noteq> hart" for h
    using assms that unfolding sched_ok_def placed_def idles_ok_def by metis
  moreover have "process_current st h \<noteq> process_current st hart" "process_idle st h \<noteq> process_current st hart"
    if "h \<in> harts" "h \<noteq> hart" "process_current st hart \<noteq> NULL" for h
    using assms that unfolding sched_ok_def placed_def by metis+
  ultimately show "loose (st\<lparr>process_current := (process_current st)(hart := NULL)\<rparr>) hart (task_on st hart)"
    using assms by (auto simp: sched_ok_def idles_ok_def placed_def loose_def listed_def task_on_def)
qed

text \<open>A process that goes to one of the lists.\<close>

lemma sched_ok_list:
  assumes ok: "sched_ok st" and p: "loose st hart p" "hart \<in> harts" "p \<noteq> process_idle st hart"
    and l: "mset (us @ sl) = mset (p # unsched st @ sleeping st)" "sorted (map (vrt st) us)"
  shows "sched_ok (st\<lparr>unsched := us, sleeping := sl\<rparr>)"
proof -
  have s: "set us \<union> set sl = insert p (listed st)"
    using l(1) by (metis listed_def set_append set_mset_mset list.simps(15))
  have "distinct (us @ sl)" using distinct_mset [OF l(1)] ok p(1) by (simp add: sched_ok_defs loose_def)
  then have "queues_ok (st\<lparr>unsched := us, sleeping := sl\<rparr>)"
    using ok p(1) l(2) s by (auto simp: sched_ok_def queues_ok_def listed_def loose_def)
  moreover have "process_idle st h \<noteq> p" if "h \<in> harts" for h using p that by (auto simp: loose_def)
  then have "idles_ok (st\<lparr>unsched := us, sleeping := sl\<rparr>)"
    using ok s by (simp add: sched_ok_def idles_ok_def listed_def) 
  moreover have "placed (st\<lparr>unsched := us, sleeping := sl\<rparr>)"
    using ok s p(1) by (simp add: sched_ok_def placed_def listed_def loose_def)
  ultimately show ?thesis by (simp add: sched_ok_def)
qed

lemma sched_ok_retire:
  assumes ok: "sched_ok st" and p: "loose st hart p" "hart \<in> harts"
    and r: "sched_retire hs st hart p = Some st'" "pstate (procs st p) = PS_ASYNC_FREE \<longrightarrow> p \<noteq> process_idle st hart"
  shows "sched_ok st' \<and> process_current st' = process_current st \<and> process_idle st' = process_idle st \<and>
    sched_mutex st' = sched_mutex st"
proof -
  have idle: "p \<noteq> process_idle st hart \<Longrightarrow> \<forall>h \<in> harts. p \<noteq> process_idle st h"
    using p by (auto simp: loose_def)
  consider (free) "pstate (procs st p) = PS_ASYNC_FREE" | (sleep) "pstate (procs st p) = PS_SLEEPING"
    | (same) "st' = st" | (add) "st' = sched_add st p" "p \<noteq> process_idle st hart"
    using r(1) by (auto simp: sched_retire_def split: if_splits)
  then show ?thesis
  proof cases
    case free
    then obtain k pr where st': "st' = (set_proc st p pr)\<lparr>kh := k\<rparr>"
      using r(1) by (auto simp: sched_retire_def split: option.splits)
    have "sched_ok (set_proc st p pr)"
      using ok idle r(2) free p(1) by (intro sched_ok_set_proc) (auto simp: loose_def)
    then show ?thesis by (simp add: st')
  next
    case sleep
    then have "p \<noteq> process_idle st hart" using ok p(2) by (auto simp: sched_ok_def idles_ok_def)
    moreover have "st' = st\<lparr>unsched := unsched st, sleeping := sorted_insert (vrt st) p (sleeping st)\<rparr>"
      using sleep r(1) p(1) by (simp add: sched_retire_def sched_sleep_def loose_def)
    moreover have "sorted (map (vrt st) (unsched st))" using ok by (simp add: sched_ok_def queues_ok_def)
    ultimately show ?thesis
      using sched_ok_list [OF ok p, of "unsched st" "sorted_insert (vrt st) p (sleeping st)"] by (simp add: sorted_insert_mset)
  next
    case same
    then show ?thesis using ok by simp
  next
    case add
    then have st': "st' = st\<lparr>unsched := sorted_insert (vrt st) p (unsched st), sleeping := sleeping st\<rparr>"
      using p(1) by (simp add: sched_add_def loose_def)
    have "sorted (map (vrt st) (sorted_insert (vrt st) p (unsched st)))"
      using ok by (intro sorted_insert_sorted) (simp add: sched_ok_def queues_ok_def)
    then have "sched_ok st'" unfolding st' using add(2) by (intro sched_ok_list [OF ok p]) (simp_all add: sorted_insert_mset)
    then show ?thesis by (simp add: st')
  qed
qed

lemma sched_ok_get:
  assumes "sched_ok st" "hart \<in> harts" "process_current st hart = NULL"
  defines "st1 \<equiv> fst (sched_get st)" and "new \<equiv> (if snd (sched_get st) = NULL then process_idle st hart else snd (sched_get st))"
  shows "sched_ok st1" "loose st1 hart new" "process_idle st1 = process_idle st" "sched_mutex st1 = sched_mutex st"
proof -
  show "process_idle st1 = process_idle st" "sched_mutex st1 = sched_mutex st"
    unfolding st1_def sched_get_eq by simp_all
  show "sched_ok st1"
    using assms(1) unfolding st1_def sched_get_eq by (cases "unsched st") (auto simp: sched_ok_defs)
  have "process_current st h \<noteq> process_idle st hart" "process_idle st h = process_idle st hart \<Longrightarrow> h = hart" if "h \<in> harts" for h
    using assms(1-3) that unfolding sched_ok_def placed_def idles_ok_def by (metis inj_onD)+
  then show "loose st1 hart new"
    using assms(1-3) unfolding st1_def new_def sched_get_eq
    by (cases "unsched st") (auto simp: sched_ok_defs loose_def)
qed

lemma placed_give:
  assumes "placed st" "loose st hart p" "hart \<in> harts"
  shows "placed (st\<lparr>process_current := (process_current st)(hart := p)\<rparr>)"
proof -
  let ?c = "(process_current st)(hart := p)"
  have old: "process_current st h = process_current st h' \<Longrightarrow> h = h'" "process_current st h = process_idle st h' \<Longrightarrow> h = h'"
    if "h \<in> harts" "h' \<in> harts" "process_current st h \<noteq> NULL" for h h'
    using assms(1) that unfolding placed_def by blast+
  have new: "h \<in> harts \<Longrightarrow> process_current st h \<noteq> p" "h \<in> harts \<Longrightarrow> p = process_idle st h \<Longrightarrow> h = hart" for h
    using assms(2) unfolding loose_def by blast+
  have "?c h \<notin> listed st" if "h \<in> harts" for h using assms that by (simp add: placed_def loose_def)
  moreover have "?c h = ?c h' \<longrightarrow> h = h'" if "h \<in> harts" "h' \<in> harts" "?c h \<noteq> NULL" for h h'
    using old(1) [OF that(1,2)] new(1) [OF that(1)] new(1) [OF that(2)] that(3) by (cases "h = hart"; cases "h' = hart") auto
  moreover have "?c h = process_idle st h' \<longrightarrow> h = h'" if "h \<in> harts" "h' \<in> harts" "?c h \<noteq> NULL" for h h'
    using old(2) [OF that(1,2)] new(2) [OF that(2)] that(3) by (cases "h = hart") auto
  ultimately show ?thesis by (simp add: placed_def listed_def)
qed

lemma sched_ok_spawn:
  assumes ok: "sched_ok st" and new: "loose st hart p" "hart \<in> harts" and r: "\<not> spawn_refused env hart"
  shows "sched_ok (fst (process_spawn sy env st p hart))" "sched_mutex (fst (process_spawn sy env st p hart)) = sched_mutex st"
    "process_idle (fst (process_spawn sy env st p hart)) = process_idle st"
    "process_current (fst (process_spawn sy env st p hart)) hart = p"
proof -
  let ?pr = "spawn_process (procs st p) hart (process_trap_stacks st hart)"
  have "p = process_idle st h \<Longrightarrow> h \<in> harts \<Longrightarrow> pstate ?pr \<notin> {PS_SLEEPING, PS_ASYNC_FREE}" for h
    using ok by (simp add: spawn_process_def sched_ok_def idles_ok_def)
  then have "sched_ok (set_proc st p ?pr)"
    using ok new(1) by (intro sched_ok_set_proc) (auto simp: loose_def)
  moreover have "placed ((set_proc st p ?pr)\<lparr>process_current := (process_current st)(hart := p)\<rparr>)"
    using placed_give [of "set_proc st p ?pr" hart p] \<open>sched_ok (set_proc st p ?pr)\<close> new
    by (simp add: sched_ok_def loose_def listed_def)
  ultimately have "sched_ok ((set_proc st p ?pr)\<lparr>process_current := (process_current st)(hart := p)\<rparr>)"
    by (simp add: sched_ok_def queues_ok_def idles_ok_def listed_def)
  then show "sched_ok (fst (process_spawn sy env st p hart))"
    using r by (simp add: process_spawn_def Let_def)
qed (use r in \<open>simp_all add: process_spawn_def Let_def\<close>)

text \<open>The scheduler as a whole.\<close>

lemma sched_ok_invoke:
  assumes ok: "sched_ok st" "sched_mutex st = 1" and hart: "hart \<in> harts" "\<not> spawn_refused env hart"
    and i: "sched_invoke hs sy env st hart = Some st'"
  shows "sched_ok st'" "sched_mutex st' = 1" "process_idle st' = process_idle st" "process_current st' hart \<noteq> NULL"
proof -
  let ?w = "sched_walk_sleeping_list env st" and ?p = "task_on st hart"
  have w: "walked (clint_time env) st ?w" using ok by (intro walk_walked) (simp add: sched_ok_defs)
  have wm: "sched_walk_sleeping_list env (st\<lparr>sched_mutex := 0\<rparr>) = ?w\<lparr>sched_mutex := 0\<rparr>"
    by (simp add: sched_walk_sleeping_list_def walk_from_mutex)
  have p: "task_on ?w hart = ?p" "task_on (?w\<lparr>sched_mutex := 0\<rparr>) hart = ?p" using w by (simp_all add: walked_def task_on_def)
  define st1 where "st1 = ?w\<lparr>sched_mutex := 0, process_current := (process_current ?w)(hart := NULL)\<rparr>"
  define st2 where "st2 = set_proc st1 ?p ((procs ?w ?p)\<lparr>on_hart := - 1\<rparr>)"
  have 1: "sched_ok st1" "loose st1 hart ?p" "process_idle st1 = process_idle st" "sched_mutex st1 = 0"
      "procs st1 = procs ?w" "process_current st1 hart = NULL"
  proof -
    have e: "st1 = (?w\<lparr>process_current := (process_current ?w)(hart := NULL)\<rparr>)\<lparr>sched_mutex := 0\<rparr>" by (simp add: st1_def)
    show "sched_ok st1" "loose st1 hart ?p"
      unfolding e sched_ok_kh loose_kh using sched_ok_off [OF sched_ok_walk [OF ok(1), of env] hart(1)] p(1) by simp_all
    show "process_idle st1 = process_idle st" "sched_mutex st1 = 0" "procs st1 = procs ?w" "process_current st1 hart = NULL"
      using w by (simp_all add: st1_def walked_def)
  qed
  have idle: "pstate (procs ?w ?p) \<in> {PS_SLEEPING, PS_ASYNC_FREE} \<Longrightarrow> h \<in> harts \<Longrightarrow> ?p \<noteq> process_idle st h" for h
    using 1(1,3,5) by (auto simp: sched_ok_def idles_ok_def)
  have 2: "sched_ok st2" "loose st2 hart ?p" "process_idle st2 = process_idle st" "sched_mutex st2 = 0"
      "process_current st2 hart = NULL" "pstate (procs st2 ?p) = pstate (procs ?w ?p)"
    using 1 idle sched_ok_set_proc [of st1 "(procs ?w ?p)\<lparr>on_hart := - 1\<rparr>" ?p]
    by (auto simp: st2_def loose_def listed_def)
  obtain st3 where 3: "sched_retire hs st2 hart ?p = Some st3"
    and e: "st' = fst (process_spawn sy env ((fst (sched_get st3))\<lparr>sched_mutex := mutex_post (sched_mutex (fst (sched_get st3)))\<rparr>)
       (if snd (sched_get st3) = NULL then process_idle (fst (sched_get st3)) hart else snd (sched_get st3)) hart)"
  proof -
    have "st2 = (set_proc (?w\<lparr>sched_mutex := 0\<rparr>) ?p ((procs (?w\<lparr>sched_mutex := 0\<rparr>) ?p)\<lparr>on_hart := - 1\<rparr>))
        \<lparr>process_current := (process_current (?w\<lparr>sched_mutex := 0\<rparr>))(hart := NULL)\<rparr>"
      by (simp add: st2_def st1_def set_proc_def)
    then show thesis
      using i ok(2) that by (auto simp: sched_invoke_def mutex_try_def wm p(2) Let_def case_prod_beta split: option.splits)
  qed
  have 4: "sched_ok st3" "process_current st3 hart = NULL" "process_idle st3 = process_idle st"
    using sched_ok_retire [OF 2(1,2) hart(1) 3] 2 idle [of hart] hart(1) by auto
  note g = sched_ok_get [OF 4(1) hart(1) 4(2)]
  have "sched_ok ((fst (sched_get st3))\<lparr>sched_mutex := mutex_post (sched_mutex (fst (sched_get st3)))\<rparr>)"
    "loose ((fst (sched_get st3))\<lparr>sched_mutex := mutex_post (sched_mutex (fst (sched_get st3)))\<rparr>) hart
       (if snd (sched_get st3) = NULL then process_idle (fst (sched_get st3)) hart else snd (sched_get st3))"
    unfolding sched_ok_kh loose_kh g(3) by (rule g(1), rule g(2))
  note s = sched_ok_spawn [OF this hart, of sy, folded e]
  show "sched_ok st'" "process_idle st' = process_idle st" using s g(3) 4(3) by simp_all
  show "sched_mutex st' = 1" using s(2) by (simp add: mutex_post_def)
  show "process_current st' hart \<noteq> NULL" unfolding s(4) g(3) using g(2) unfolding loose_def by blast
qed

section \<open>The kernel\<close>

definition os_wf :: "os_state \<Rightarrow> bool" where
  "os_wf s \<longleftrightarrow> sched_ok (os_sched s) \<and> sched_mutex (os_sched s) = 1 \<and> rb_inv (os_ring s) \<and> ie_ring_mutex s = 1"

text \<open>
  What the drivers may do with an interrupt: change the memory and the ring of events, whose lock they
  release.
\<close>

definition driver_ok :: "(u32 \<Rightarrow> os_state \<Rightarrow> os_state) \<Rightarrow> bool" where
  "driver_ok pcie \<longleftrightarrow> (\<forall>irq s. rb_inv (os_ring s) \<and> ie_ring_mutex s = 1 \<longrightarrow>
     (\<exists>k. os_sched (pcie irq s) = (os_sched s)\<lparr>kh := k\<rparr>) \<and> rb_inv (os_ring (pcie irq s)) \<and> ie_ring_mutex (pcie irq s) = 1)"

text \<open>
  A trap on a hart on which the scheduler has put a process; an exception (a system call) comes from
  a process that is not the idle one.
\<close>

inductive os_step :: "os_state \<Rightarrow> os_state \<Rightarrow> bool" where
  trap: "os_trap_handler hs sy os env pcie irq scause s = Some s' \<Longrightarrow> who_am_i env \<in> harts \<Longrightarrow> driver_ok pcie \<Longrightarrow>
     process_current (os_sched s) (who_am_i env) \<noteq> NULL \<Longrightarrow>
     (bit scause 63 \<or> process_current (os_sched s) (who_am_i env) \<noteq> process_idle (os_sched s) (who_am_i env)) \<Longrightarrow>
     os_step s s'"

inductive_cases os_stepE: "os_step s s'"

lemma os_wf_sched [simp]:
  "os_wf (s\<lparr>csr_sepc := a\<rparr>) = os_wf s" "os_wf (s\<lparr>csr_stvec := a\<rparr>) = os_wf s" "os_wf (s\<lparr>csr_sstatus := a\<rparr>) = os_wf s"
  "os_wf (s\<lparr>os_putchars := cs\<rparr>) = os_wf s" "os_wf (s\<lparr>global_regions := rls\<rparr>) = os_wf s" "os_wf (s\<lparr>gpu_fb := fb\<rparr>) = os_wf s"
  "os_wf (s\<lparr>os_plic := pl\<rparr>) = os_wf s" "os_wf (set_mem s m) = os_wf s"
  by (simp_all add: os_wf_def set_mem_def)

text \<open>A change of the process on the hart.\<close>

lemma os_wf_upd:
  assumes "os_wf s" "vruntime (f (proc_on s hart)) = vruntime (proc_on s hart)"
    and "hart \<in> harts" "process_current (os_sched s) hart \<noteq> NULL"
    and "process_current (os_sched s) hart = process_idle (os_sched s) hart \<Longrightarrow> pstate (f (proc_on s hart)) \<notin> {PS_SLEEPING, PS_ASYNC_FREE}"
  shows "os_wf (upd_proc s hart f)"
proof -
  let ?st = "os_sched s"
  have "process_current ?st hart = process_idle ?st h \<Longrightarrow> h \<in> harts \<Longrightarrow> h = hart" for h
    using assms(1,3,4) unfolding os_wf_def sched_ok_def placed_def by metis
  then have "sched_ok (set_proc ?st (process_current ?st hart) (f (proc_on s hart)))"
    using assms by (intro sched_ok_set_proc) (auto simp: os_wf_def proc_on_def)
  then show ?thesis using assms(1) by (simp add: os_wf_def upd_proc_def)
qed

lemma os_wf_set_xreg:
  assumes "os_wf s" "hart \<in> harts" "process_current (os_sched s) hart \<noteq> NULL"
  shows "os_wf (set_xreg s hart r v)" "process_current (os_sched (set_xreg s hart r v)) hart \<noteq> NULL"
proof -
  have "process_current (os_sched s) hart = process_idle (os_sched s) hart \<Longrightarrow> pstate (proc_on s hart) \<notin> {PS_SLEEPING, PS_ASYNC_FREE}"
    using assms(1,2) by (simp add: os_wf_def sched_ok_def idles_ok_def proc_on_def)
  then show "os_wf (set_xreg s hart r v)" unfolding set_xreg_def using assms by (intro os_wf_upd) simp_all
qed (use assms in \<open>simp add: set_xreg_def upd_proc_def\<close>)

lemma os_wf_invoke:
  assumes "os_wf s" "who_am_i env \<in> harts" "os_invoke hs sy env s (who_am_i env) = Some s'"
  shows "os_wf s'"
  using assms sched_ok_invoke [of "os_sched s" "who_am_i env" env hs sy]
  by (auto simp: os_invoke_def os_wf_def spawn_refused_def)

lemma pop_events_inv: "rb_inv rb \<Longrightarrow> rb_inv (fst (pop_events n rb))"
proof (induction n arbitrary: rb)
  case (Suc n)
  have "rb_inv (fst (ie_ring_buffer_pop rb))"
    using pop_some(1) [OF Suc.prems] pop_none(1) [of rb] Suc.prems by (cases "rb_occupied rb = 0") simp_all
  then show ?case using Suc.IH [of "fst (ie_ring_buffer_pop rb)"]
    by (cases "ie_ring_buffer_pop rb"; cases "pop_events n (fst (ie_ring_buffer_pop rb))") simp
qed simp

lemma os_wf_get_input:
  assumes "os_wf s" "sys_get_input hs s hart = Some s'"
  shows "os_wf s'"
proof -
  obtain rb1 v k where "s' = s\<lparr>os_ring := rb1, ie_ring_mutex := mutex_post v, os_sched := (os_sched s)\<lparr>kh := k\<rparr>\<rparr>"
      "rb1 = fst (pop_events (unat (ucast (xreg s hart 11) :: u32)) (os_ring s))"
    using assms(2) by (auto simp: sys_get_input_def Let_def split: option.splits prod.splits if_splits)
  then show ?thesis using assms(1) pop_events_inv by (auto simp: os_wf_def mutex_post_def)
qed

lemma os_wf_plic:
  assumes "os_wf s" "driver_ok pcie"
  shows "os_wf (os_plic_handle_irq pcie irq s hart)"
proof -
  obtain k where "os_sched (pcie irq s) = (os_sched s)\<lparr>kh := k\<rparr>" "rb_inv (os_ring (pcie irq s))" "ie_ring_mutex (pcie irq s) = 1"
    using assms unfolding driver_ok_def os_wf_def by blast
  then have "os_wf (pcie irq s)" using assms(1) by (simp add: os_wf_def)
  then show ?thesis using assms(1) by (simp add: os_plic_handle_irq_def Let_def)
qed

text \<open>Every system call.\<close>

lemma os_wf_syscall:
  assumes wf: "os_wf s" and hart: "who_am_i env \<in> harts" "process_current (os_sched s) (who_am_i env) \<noteq> NULL"
    and user: "process_current (os_sched s) (who_am_i env) \<noteq> process_idle (os_sched s) (who_am_i env)"
    and call: "syscall_handle hs sy os env s = Some s'"
  shows "os_wf s'"
proof -
  let ?h = "who_am_i env" and ?s = "s\<lparr>csr_sepc := csr_sepc s + 4\<rparr>"
  have upd: "os_wf (upd_proc t ?h f)" if "os_wf t" "os_sched t = os_sched s" "vruntime (f (proc_on t ?h)) = vruntime (proc_on t ?h)" for t f
    using that hart user by (intro os_wf_upd) simp_all
  have "os_wf ?s" using wf by simp
  have sleep: "os_wf s'" if "sys_sleep hs sy env ?s ?h (csr_sepc s) = Some s'"
    using that unfolding sys_sleep_def Let_def
  proof (elim os_wf_invoke [rotated 2])
    show "os_wf (upd_proc ?s ?h (\<lambda>p. p\<lparr>pstate := PS_SLEEPING,
        sleep_until := clint_time env + xreg ?s ?h 10 * of_nat 10000, frame := (frame p)\<lparr>f_sepc := csr_sepc s + 4\<rparr>\<rparr>))"
      using wf by (intro upd) simp_all
  qed (rule hart(1))
  have exit: "os_wf s'" if "sys_exit hs sy env ?s ?h = Some s'"
    using that unfolding sys_exit_def
  proof (elim os_wf_invoke [rotated 2])
    show "os_wf (upd_proc ?s ?h (\<lambda>p. p\<lparr>pstate := PS_ASYNC_FREE\<rparr>))" using wf by (intro upd) simp_all
  qed (rule hart(1))
  have con: "os_wf (sys_console os ?s ?h)"
    unfolding sys_console_def Let_def using wf hart user
    by (intro os_wf_set_xreg upd) (simp_all add: set_xreg_def upd_proc_def)
  have xreg: "os_wf (set_xreg ?s ?h r v)" for r v using os_wf_set_xreg(1) [of ?s ?h] wf hart by simp
  show ?thesis
    using call sleep exit con xreg os_wf_get_input [OF \<open>os_wf ?s\<close>] wf
    unfolding syscall_handle_def Let_def
    by (auto simp: sys_get_region_def sys_add_region_def sys_draw_rectangle_def sys_draw_circle_def Let_def split: if_splits prod.splits)
qed

lemma os_wf_step: "os_step s s' \<Longrightarrow> os_wf s \<Longrightarrow> os_wf s'"
proof (erule os_stepE)
  fix hs sy os env pcie irq scause
  assume wf: "os_wf s" and t: "os_trap_handler hs sy os env pcie irq scause s = Some s'" and hart: "who_am_i env \<in> harts"
    and d: "driver_ok pcie" and cur: "process_current (os_sched s) (who_am_i env) \<noteq> NULL"
    and user: "bit scause 63 \<or> process_current (os_sched s) (who_am_i env) \<noteq> process_idle (os_sched s) (who_am_i env)"
  let ?h = "who_am_i env"
  have "process_current (os_sched s) ?h = process_idle (os_sched s) ?h \<Longrightarrow> pstate (proc_on s ?h) \<notin> {PS_SLEEPING, PS_ASYNC_FREE}"
    using wf hart by (simp add: os_wf_def sched_ok_def idles_ok_def proc_on_def)
  then have "os_wf (upd_proc s ?h (\<lambda>p. p\<lparr>frame := (frame p)\<lparr>f_sepc := csr_sepc s\<rparr>\<rparr>))"
    using wf hart cur by (intro os_wf_upd) simp_all
  then show "os_wf s'"
    using t user os_wf_invoke [OF _ hart] os_wf_plic [OF wf d] os_wf_syscall [OF wf hart cur] wf
    unfolding os_trap_handler_def Let_def by (auto split: if_splits)
qed

text \<open>
  C5: Whatever traps the harts take, in any order, timer interrupts, external interrupts and every
  system call, the kernel's state stays well formed: no process is current on two harts, none is
  current and in a list or twice in the lists, the waiting ones are in order of run time, an idle
  process is never listed and never given to another hart, and all locks are free between traps.
\<close>

theorem kernel_traps_wf:
  assumes "os_wf s0" and "os_step\<^sup>*\<^sup>* s0 s"
  shows "os_wf s \<and> distinct (unsched (os_sched s) @ sleeping (os_sched s)) \<and> sorted (map (vrt (os_sched s)) (unsched (os_sched s))) \<and>
    (\<forall>h \<in> harts. \<forall>h' \<in> harts. h \<noteq> h' \<and> process_current (os_sched s) h \<noteq> NULL \<longrightarrow>
       process_current (os_sched s) h \<noteq> process_current (os_sched s) h' \<and> process_current (os_sched s) h \<noteq> process_idle (os_sched s) h') \<and>
    (\<forall>h \<in> harts. process_current (os_sched s) h \<notin> set (unsched (os_sched s)) \<union> set (sleeping (os_sched s)))"
proof -
  from assms(2,1) have wf: "os_wf s" by (induction rule: rtranclp_induct) (auto dest: os_wf_step)
  then have "placed (os_sched s)" "queues_ok (os_sched s)" by (simp_all add: os_wf_def sched_ok_def)
  moreover from this(1) have "\<forall>h \<in> harts. \<forall>h' \<in> harts. h \<noteq> h' \<and> process_current (os_sched s) h \<noteq> NULL \<longrightarrow>
       process_current (os_sched s) h \<noteq> process_current (os_sched s) h' \<and> process_current (os_sched s) h \<noteq> process_idle (os_sched s) h'"
    unfolding placed_def by metis
  ultimately show ?thesis using wf by (simp add: queues_ok_def placed_def listed_def)
qed

section \<open>A concrete instance\<close>

text \<open>Two user processes on two harts; one prints a character.\<close>

definition demo_kernel :: os_state where
  "demo_kernel = demo_os\<lparr>os_sched := (os_sched demo_os)\<lparr>process_idle := (\<lambda>h. 0x9000 + word_of_int h), unsched := [], sleeping := [],
      process_current := (\<lambda>_. NULL)(0 := 0x1000, 1 := 0x2000),
      procs := (procs (os_sched demo_os))(0x1000 := (procs (os_sched demo_os) 0x1000)
        \<lparr>frame := zero_frame\<lparr>gpregs := (replicate 32 0)[17 := 1, 10 := 65]\<rparr>\<rparr>)\<rparr>,
     os_ring := ie_ring_buffer_init [no_event] RB_IGNORE\<rparr>"

lemma harts_list: "harts = {0, 1, 2, 3, 4, 5, 6, 7}"
  by (auto simp: harts_def)

lemma demo_kernel_wf: "os_wf demo_kernel"
  by (simp add: os_wf_def sched_ok_defs demo_kernel_def demo_os_def demo_sched_def demo_proc_def harts_list inj_on_def rb_inv_def
      ie_ring_buffer_init_def)

theorem kernel_traps_wf_witness:
  "\<exists>s. syscall_handle demo_heap \<lparr>spawn_thread_start = 0, spawn_thread_end = 0, spawn_trap_start = 0,
       spawn_trap_end = 0, idle_code_start = 0, idle_code_end = 0\<rparr>
       \<lparr>sym_console = 0, sym_os_trap_vector = 0, sym_end_stack = 0, sym_global_pointer = 0, addr_gpu_r = 0,
        addr_gpu_c = 0, addr_gpu_p = 0\<rparr> demo_env demo_kernel = Some s \<and> os_putchars s = [65] \<and> os_wf s"
proof -
  let ?sy = "\<lparr>spawn_thread_start = 0, spawn_thread_end = 0, spawn_trap_start = 0, spawn_trap_end = 0, idle_code_start = 0, idle_code_end = 0\<rparr>"
    and ?os = "\<lparr>sym_console = 0, sym_os_trap_vector = 0, sym_end_stack = 0, sym_global_pointer = 0, addr_gpu_r = 0, addr_gpu_c = 0, addr_gpu_p = 0\<rparr>"
    and ?s = "demo_kernel\<lparr>csr_sepc := 0x404, os_putchars := [65]\<rparr>"
  have x: "xreg demo_kernel 0 17 = 1" "xreg demo_kernel 0 10 = 65" "os_putchars demo_kernel = []" "csr_sepc demo_kernel = 0x400"
    by (simp_all add: xreg_def proc_on_def demo_kernel_def demo_os_def)
  have y: "xreg (s\<lparr>csr_sepc := a\<rparr>) = xreg s" for s a by (simp add: xreg_def proc_on_def fun_eq_iff)
  have h: "syscall_handle demo_heap ?sy ?os demo_env demo_kernel = Some ?s"
    unfolding syscall_handle_def Let_def y x by (simp add: x demo_env_def)
  have "os_step demo_kernel ?s"
  proof (rule os_step.intros)
    show "os_trap_handler demo_heap ?sy ?os demo_env (\<lambda>_ s. s) 0 8 demo_kernel = Some ?s"
      using h by (simp add: os_trap_handler_def Let_def)
    have "\<exists>k. st = st\<lparr>kh := k\<rparr>" for st :: sched_state by (rule exI [of _ "kh st"]) simp
    then show "driver_ok (\<lambda>_ s. s)" by (simp add: driver_ok_def)
  qed (simp_all add: demo_env_def harts_def demo_kernel_def)
  then have "os_wf ?s" using kernel_traps_wf [OF demo_kernel_wf, of ?s] by blast
  then show ?thesis using h by auto
qed

end
