(* ===== verification/User_Programs.thy ===== *)
theory User_Programs
  imports Syscall Screen Strings
begin

text \<open>
  The user programs under \<^verbatim>\<open>user\<close> and their library: the system call stubs of \<^verbatim>\<open>user/libc/os.c\<close> as traps of
  the kernel, \<^verbatim>\<open>user/libc/input.c\<close>, \<^verbatim>\<open>user/libc/string.c\<close>, and the programs \<^verbatim>\<open>user/console.c\<close>, which paints, and
  \<^verbatim>\<open>user/slider.c\<close>. A program is what it asks of the kernel: its requests, given the value of a region
  and the events it reads. The main loops run as long as there are batches of events.
\<close>

section \<open>System call stubs\<close>

text \<open>The registers are loaded and the \<^verbatim>\<open>ecall\<close> taken, which comes to the kernel as exception 8.\<close>

definition load_regs :: "os_state \<Rightarrow> int \<Rightarrow> (nat \<times> u64) list \<Rightarrow> os_state" where
  "load_regs s hart rs = fold (\<lambda>(r, v) s. set_xreg s hart r v) rs s"

definition os_ecall ::
    "heap_syms \<Rightarrow> spawn_syms \<Rightarrow> os_syms \<Rightarrow> sbi_env \<Rightarrow> os_state \<Rightarrow> (nat \<times> u64) list \<Rightarrow> os_state option" where
  "os_ecall hs sy os env s rs = os_trap_handler hs sy os env (\<lambda>_ s. s) 0 8 (load_regs s (who_am_i env) rs)"

definition os_putchar where
  "os_putchar hs sy os env s (c :: u8) = os_ecall hs sy os env s [(17, SYSCALL_PUTCHAR), (10, ucast c)]"

definition os_console where
  "os_console hs sy os env s = os_ecall hs sy os env s [(17, SYSCALL_CONSOLE)]"

definition os_sleep where
  "os_sleep hs sy os env s (quantums :: u32) = os_ecall hs sy os env s [(17, SYSCALL_SLEEP), (10, scast quantums)]"

definition os_get_input where
  "os_get_input hs sy os env s (buffer :: u64) (len :: u32) =
     os_ecall hs sy os env s [(17, SYSCALL_GET_INPUT), (10, buffer), (11, scast len)]"

definition os_get_region :: "heap_syms \<Rightarrow> spawn_syms \<Rightarrow> os_syms \<Rightarrow> sbi_env \<Rightarrow> os_state \<Rightarrow> u32 \<Rightarrow> u32 \<Rightarrow> (os_state \<times> u32) option" where
  "os_get_region hs sy os env s x_raw y_raw =
     map_option (\<lambda>s1. (s1, ucast (xreg s1 (who_am_i env) 10)))
       (os_ecall hs sy os env s [(17, SYSCALL_GET_REGION), (10, scast x_raw), (11, scast y_raw)])"

definition os_add_region where
  "os_add_region hs sy os env s (x0 :: u32) (x1 :: u32) (y0 :: u32) (y1 :: u32) (v :: u32) =
     os_ecall hs sy os env s [(17, SYSCALL_ADD_REGION), (10, scast x0), (11, scast x1), (12, scast y0),
       (13, scast y1), (14, scast v)]"

definition os_draw_rectangle where
  "os_draw_rectangle hs sy os env s (rect :: u64) (color :: u64) =
     os_ecall hs sy os env s [(17, SYSCALL_DRAW_RECTANGLE), (10, rect), (11, color)]"

definition os_draw_circle where
  "os_draw_circle hs sy os env s (circ :: u64) (color :: u64) =
     os_ecall hs sy os env s [(17, SYSCALL_DRAW_CIRCLE), (10, circ), (11, color)]"

definition os_get_screen_x :: "heap_syms \<Rightarrow> spawn_syms \<Rightarrow> os_syms \<Rightarrow> sbi_env \<Rightarrow> os_state \<Rightarrow> (os_state \<times> u32) option" where
  "os_get_screen_x hs sy os env s =
     map_option (\<lambda>s1. (s1, ucast (xreg s1 (who_am_i env) 10))) (os_ecall hs sy os env s [(17, SYSCALL_GET_SCREEN_X)])"

definition os_get_screen_y :: "heap_syms \<Rightarrow> spawn_syms \<Rightarrow> os_syms \<Rightarrow> sbi_env \<Rightarrow> os_state \<Rightarrow> (os_state \<times> u32) option" where
  "os_get_screen_y hs sy os env s =
     map_option (\<lambda>s1. (s1, ucast (xreg s1 (who_am_i env) 10))) (os_ecall hs sy os env s [(17, SYSCALL_GET_SCREEN_Y)])"

section \<open>Library\<close>

text \<open>The characters of the keys; for any other key the result is not set.\<close>

definition key_chars :: "(u32 \<times> u8) list" where
  "key_chars =
     [(30, 0x61), (48, 0x62), (46, 0x63), (32, 0x64), (18, 0x65), (33, 0x66), (34, 0x67), (35, 0x68), (23, 0x69),
      (36, 0x6a), (37, 0x6b), (38, 0x6c), (50, 0x6d), (49, 0x6e), (24, 0x6f), (25, 0x70), (16, 0x71), (19, 0x72),
      (31, 0x73), (20, 0x74), (22, 0x75), (47, 0x76), (17, 0x77), (45, 0x78), (21, 0x79), (44, 0x7a)]"

definition input_key_code_to_char :: "u8 \<Rightarrow> u32 \<Rightarrow> u8" where
  "input_key_code_to_char junk code = (case map_of key_chars code of None \<Rightarrow> junk | Some c \<Rightarrow> c)"

partial_function (option) user_mstrlen :: "mem \<Rightarrow> u64 \<Rightarrow> int option" where
  "user_mstrlen m s =
     (if s = NULL then Some 0 else if m s = 0 then Some 0
      else Option.bind (user_mstrlen m (s + 1)) (\<lambda>n. Some (1 + n)))"

section \<open>The painting program\<close>

datatype os_request =
    Put_char u8
  | Sleep u32
  | Add_region u32 u32 u32 u32 u32
  | Draw_rectangle gpu_rectangle pixel
  | Draw_circle gpu_circle pixel

datatype input_state_states =
    Input_state_init | Input_state_default | Input_state_lclick | Input_state_xpos | Input_state_ypos | Input_state_expect_sync

record paint_vars =
  pv_state :: input_state_states
  pv_icp :: input_cursor_position
  pv_color :: pixel
  pv_pressed :: bool

definition pixel_red :: pixel where "pixel_red = \<lparr>px_r = 255, px_g = 0, px_b = 0, px_a = 255\<rparr>"
definition pixel_green :: pixel where "pixel_green = \<lparr>px_r = 0, px_g = 255, px_b = 0, px_a = 255\<rparr>"
definition pixel_blue :: pixel where "pixel_blue = \<lparr>px_r = 0, px_g = 0, px_b = 255, px_a = 255\<rparr>"
definition pixel_white :: pixel where "pixel_white = \<lparr>px_r = 255, px_g = 255, px_b = 255, px_a = 255\<rparr>"

definition paint_default_regions :: "u32 \<Rightarrow> u32 \<Rightarrow> os_request list" where
  "paint_default_regions screen_width screen_height =
     (let w = screen_width * 10 div 100; h = screen_height * 10 div 100
      in [Draw_rectangle \<lparr>rect_x = 0, rect_y = 0, rect_width = w, rect_height = h\<rparr> pixel_red, Add_region 0 10 0 10 1,
          Draw_rectangle \<lparr>rect_x = screen_width * 10 div 100, rect_y = 0, rect_width = w, rect_height = h\<rparr> pixel_green,
          Add_region 10 20 0 10 2,
          Draw_rectangle \<lparr>rect_x = screen_width * 20 div 100, rect_y = 0, rect_width = w, rect_height = h\<rparr> pixel_blue,
          Add_region 20 30 0 10 3])"

definition paint_dot :: "u32 \<Rightarrow> u32 \<Rightarrow> input_cursor_position \<Rightarrow> pixel \<Rightarrow> os_request" where
  "paint_dot screen_width screen_height icp color =
     Draw_circle \<lparr>circle_x = icp_x icp * screen_width div 0x8000, circle_y = icp_y icp * screen_height div 0x8000, circle_radius = 5\<rparr> color"

text \<open>
  One event. \<open>get_region\<close> is what \<open>os_get_region\<close> returns, \<open>junk\<close> the character that is not set for an
  unknown key.
\<close>

definition paint_event ::
    "(u32 \<Rightarrow> u32 \<Rightarrow> int) \<Rightarrow> u8 \<Rightarrow> u32 \<Rightarrow> u32 \<Rightarrow> paint_vars \<Rightarrow> input_event \<Rightarrow> paint_vars \<times> os_request list" where
  "paint_event get_region junk screen_width screen_height v ev =
     (if pv_state v = Input_state_init \<or> pv_state v = Input_state_default then
        (if ev_type ev = IE_TYPE_SYNC then (v, [])
         else if ev_type ev = IE_TYPE_TABLET then
           (if ev_code ev = IE_TABLET_CODE_X
            then (v\<lparr>pv_icp := (pv_icp v)\<lparr>icp_x := ev_value ev\<rparr>, pv_state := Input_state_xpos\<rparr>, [])
            else (v, []))
         else if ev_type ev = IE_TYPE_KEY then
           (if ev_code ev = IE_KEY_CODE_LMOUSE then
              (if ev_value ev = IE_KEY_VALUE_PRESS then
                 (let v1 = v\<lparr>pv_pressed := True\<rparr>; region = get_region (icp_x (pv_icp v)) (icp_y (pv_icp v))
                  in if region = 1 then (v1\<lparr>pv_color := pixel_red\<rparr>, [])
                     else if region = 2 then (v1\<lparr>pv_color := pixel_green\<rparr>, [])
                     else if region = 3 then (v1\<lparr>pv_color := pixel_blue\<rparr>, [])
                     else if region = 0 then (v1, [paint_dot screen_width screen_height (pv_icp v) (pv_color v)])
                     else (v1, []))
               else (v\<lparr>pv_pressed := False\<rparr>, []))
            else if ev_value ev = IE_KEY_VALUE_PRESS then (v, [Put_char (input_key_code_to_char junk (ucast (ev_code ev)))])
            else (v, []))
         else (v, []))
      else if pv_state v = Input_state_xpos then
        (if ev_type ev = IE_TYPE_TABLET \<and> ev_code ev = IE_TABLET_CODE_Y then
           (let v1 = v\<lparr>pv_icp := (pv_icp v)\<lparr>icp_y := ev_value ev\<rparr>, pv_state := Input_state_ypos\<rparr>
            in (v1, if pv_pressed v \<and> get_region (icp_x (pv_icp v1)) (icp_y (pv_icp v1)) = 0
                    then [paint_dot screen_width screen_height (pv_icp v1) (pv_color v1)] else []))
         else (v, []))
      else (if ev_type ev = IE_TYPE_SYNC then (v\<lparr>pv_state := Input_state_default\<rparr>, []) else (v, [])))"

fun run_events :: "('v \<Rightarrow> input_event \<Rightarrow> 'v \<times> os_request list) \<Rightarrow> 'v \<Rightarrow> input_event list \<Rightarrow> 'v \<times> os_request list" where
  "run_events step v [] = (v, [])"
| "run_events step v (ev # evs) = (let (v1, r1) = step v ev; (v2, r2) = run_events step v1 evs in (v2, r1 @ r2))"

text \<open>The main loop: a batch of 50 events at a time, then a sleep of one quantum.\<close>

fun main_loop :: "('v \<Rightarrow> input_event \<Rightarrow> 'v \<times> os_request list) \<Rightarrow> 'v \<Rightarrow> input_event list list \<Rightarrow> 'v \<times> os_request list" where
  "main_loop step v [] = (v, [])"
| "main_loop step v (i_events # batches) =
     (let (v1, r1) = run_events step v i_events; (v2, r2) = main_loop step v1 batches in (v2, r1 @ [Sleep 1] @ r2))"

definition paint_start :: paint_vars where
  "paint_start = \<lparr>pv_state = Input_state_default, pv_icp = \<lparr>icp_x = 0, icp_y = 0\<rparr>, pv_color = pixel_red, pv_pressed = False\<rparr>"

definition paint_main :: "(u32 \<Rightarrow> u32 \<Rightarrow> int) \<Rightarrow> u8 \<Rightarrow> u32 \<Rightarrow> u32 \<Rightarrow> input_event list list \<Rightarrow> os_request list" where
  "paint_main get_region junk screen_width screen_height batches =
     paint_default_regions screen_width screen_height @ [Draw_circle \<lparr>circle_x = 205, circle_y = 190, circle_radius = 22\<rparr> pixel_red] @
     snd (main_loop (paint_event get_region junk screen_width screen_height) paint_start batches)"

section \<open>The slider program\<close>

record slider_tile =
  tile_x_pos :: int
  tile_y_pos :: int
  tile_color :: pixel
  tile_region :: int
  tile_rect :: gpu_rectangle
  tile_open :: bool

definition slider_tiles :: "u32 \<Rightarrow> u32 \<Rightarrow> slider_tile list" where
  "slider_tiles screen_width screen_height =
     (let rect = (\<lambda>x y. \<lparr>rect_x = screen_width * x div 100, rect_y = screen_height * y div 100,
                         rect_width = screen_width * 20 div 100, rect_height = screen_height * 20 div 100\<rparr>)
      in [\<lparr>tile_x_pos = 0, tile_y_pos = 0, tile_color = pixel_red, tile_region = 1, tile_rect = rect 10 10, tile_open = False\<rparr>,
          \<lparr>tile_x_pos = 0, tile_y_pos = 1, tile_color = pixel_green, tile_region = 2, tile_rect = rect 30 10, tile_open = False\<rparr>,
          \<lparr>tile_x_pos = 1, tile_y_pos = 0, tile_color = pixel_blue, tile_region = 3, tile_rect = rect 10 30, tile_open = False\<rparr>,
          \<lparr>tile_x_pos = 1, tile_y_pos = 1, tile_color = pixel_white, tile_region = 4, tile_rect = rect 30 30, tile_open = True\<rparr>])"

definition slider_set_up :: "u32 \<Rightarrow> u32 \<Rightarrow> os_request list" where
  "slider_set_up screen_width screen_height =
     [Add_region 10 30 10 30 1, Add_region 30 50 10 30 2, Add_region 10 30 30 50 3, Add_region 30 50 30 50 4] @
     map (\<lambda>t. Draw_rectangle (tile_rect t) (tile_color t)) (slider_tiles screen_width screen_height)"

text \<open>Its events: the regions that are clicked are looked up, but nothing is done with them.\<close>

record slider_vars =
  sv_state :: input_state_states
  sv_icp :: input_cursor_position
  sv_pressed :: bool
  sv_region :: "int option"

definition slider_event ::
    "(u32 \<Rightarrow> u32 \<Rightarrow> int) \<Rightarrow> u8 \<Rightarrow> slider_vars \<Rightarrow> input_event \<Rightarrow> slider_vars \<times> os_request list" where
  "slider_event get_region junk v ev =
     (if sv_state v = Input_state_init \<or> sv_state v = Input_state_default then
        (if ev_type ev = IE_TYPE_SYNC then (v, [])
         else if ev_type ev = IE_TYPE_TABLET then
           (if ev_code ev = IE_TABLET_CODE_X
            then (v\<lparr>sv_icp := (sv_icp v)\<lparr>icp_x := ev_value ev\<rparr>, sv_state := Input_state_xpos\<rparr>, [])
            else (v, []))
         else if ev_type ev = IE_TYPE_KEY then
           (if ev_code ev = IE_KEY_CODE_LMOUSE then
              (if ev_value ev = IE_KEY_VALUE_PRESS
               then (v\<lparr>sv_pressed := True, sv_region := Some (get_region (icp_x (sv_icp v)) (icp_y (sv_icp v)))\<rparr>, [])
               else (v\<lparr>sv_pressed := False\<rparr>, []))
            else if ev_value ev = IE_KEY_VALUE_PRESS then (v, [Put_char (input_key_code_to_char junk (ucast (ev_code ev)))])
            else (v, []))
         else (v, []))
      else if sv_state v = Input_state_xpos then
        (if ev_type ev = IE_TYPE_TABLET \<and> ev_code ev = IE_TABLET_CODE_Y then
           (let v1 = v\<lparr>sv_icp := (sv_icp v)\<lparr>icp_y := ev_value ev\<rparr>, sv_state := Input_state_ypos\<rparr>
            in (if sv_pressed v then v1\<lparr>sv_region := Some (get_region (icp_x (sv_icp v1)) (icp_y (sv_icp v1)))\<rparr> else v1, []))
         else (v, []))
      else (if ev_type ev = IE_TYPE_SYNC then (v\<lparr>sv_state := Input_state_default\<rparr>, []) else (v, [])))"

definition slider_main :: "(u32 \<Rightarrow> u32 \<Rightarrow> int) \<Rightarrow> u8 \<Rightarrow> u32 \<Rightarrow> u32 \<Rightarrow> input_event list list \<Rightarrow> os_request list" where
  "slider_main get_region junk screen_width screen_height batches =
     slider_set_up screen_width screen_height @
     snd (main_loop (slider_event get_region junk)
       \<lparr>sv_state = Input_state_default, sv_icp = \<lparr>icp_x = 0, icp_y = 0\<rparr>, sv_pressed = False, sv_region = None\<rparr> batches)"

section \<open>The stubs reach the kernel\<close>

lemma proc_on_regions [simp]: "proc_on (s\<lparr>global_regions := r\<rparr>) = proc_on s"
  by (simp add: proc_on_def fun_eq_iff)

lemma set_xreg_fields [simp]:
  "xreg (set_xreg s hart r v) hart = (\<lambda>r'. ((gpregs (frame (proc_on s hart)))[r := v]) ! r')"
  "global_regions (set_xreg s hart r v) = global_regions s" "gpu_fb (set_xreg s hart r v) = gpu_fb s"
  "csr_sepc (set_xreg s hart r v) = csr_sepc s"
  "gpregs (frame (proc_on (set_xreg s hart r v) hart)) = (gpregs (frame (proc_on s hart)))[r := v]"
  by (simp_all add: set_xreg_def upd_proc_def xreg_def proc_on_def fun_eq_iff)

lemma sepc_fields [simp]:
  "xreg (s\<lparr>csr_sepc := a\<rparr>) = xreg s" "proc_on (s\<lparr>csr_sepc := a\<rparr>) = proc_on s"
  by (simp_all add: xreg_def proc_on_def fun_eq_iff)

lemmas stub_defs = os_ecall_def load_regs_def os_trap_handler_def syscall_handle_def Let_def
  low_halves

lemma os_get_screen_correct:
  assumes "length (gpregs (frame (proc_on s (who_am_i env)))) = 32"
  shows "\<exists>s1. os_get_screen_x hs sy os env s = Some (s1, fb_width (gpu_fb s))"
    and "\<exists>s1. os_get_screen_y hs sy os env s = Some (s1, fb_height (gpu_fb s))"
  using assms by (simp_all add: os_get_screen_x_def os_get_screen_y_def stub_defs)

lemma os_add_region_correct:
  assumes "length (gpregs (frame (proc_on s (who_am_i env)))) = 32"
  shows "\<exists>s1. os_add_region hs sy os env s x0 x1 y0 y1 v = Some s1 \<and>
    global_regions s1 = regions_new x0 x1 y0 y1 (sint v) # global_regions s \<and>
    length (gpregs (frame (proc_on s1 (who_am_i env)))) = 32"
  using assms by (simp add: os_add_region_def stub_defs sys_add_region_def regions_prepend_eq)

lemma os_get_region_correct:
  assumes "length (gpregs (frame (proc_on s (who_am_i env)))) = 32"
  shows "\<exists>s1. os_get_region hs sy os env s x y =
    Some (s1, word_of_int (regions_value_of_point (global_regions s) (x * 100 div 0x8000) (y * 100 div 0x8000)))"
  using assms by (simp add: os_get_region_def stub_defs sys_get_region_def)

text \<open>The palette of the painting program, as the kernel has it after the three calls.\<close>

lemma palette_regions:
  assumes "length (gpregs (frame (proc_on s (who_am_i env)))) = 32"
  obtains s1 s2 s3 where "os_add_region hs sy os env s 0 10 0 10 1 = Some s1"
    and "os_add_region hs sy os env s1 10 20 0 10 2 = Some s2" and "os_add_region hs sy os env s2 20 30 0 10 3 = Some s3"
    and "\<And>x y. \<exists>s4. os_get_region hs sy os env s3 x y = Some (s4,
      let px = x * 100 div 0x8000; py = y * 100 div 0x8000
      in if py \<le> 10 \<and> 20 \<le> px \<and> px \<le> 30 then 3 else if py \<le> 10 \<and> 10 \<le> px \<and> px \<le> 20 then 2
         else if py \<le> 10 \<and> px \<le> 10 then 1
         else word_of_int (regions_value_of_point (global_regions s) px py))"
proof -
  obtain s1 where 1: "os_add_region hs sy os env s 0 10 0 10 1 = Some s1"
      "global_regions s1 = regions_new 0 10 0 10 1 # global_regions s"
      "length (gpregs (frame (proc_on s1 (who_am_i env)))) = 32"
    using os_add_region_correct [OF assms, of hs sy os 0 10 0 10 1] by auto
  obtain s2 where 2: "os_add_region hs sy os env s1 10 20 0 10 2 = Some s2"
      "global_regions s2 = regions_new 10 20 0 10 2 # global_regions s1"
      "length (gpregs (frame (proc_on s2 (who_am_i env)))) = 32"
    using os_add_region_correct [OF 1(3), of hs sy os 10 20 0 10 2] by auto
  obtain s3 where 3: "os_add_region hs sy os env s2 20 30 0 10 3 = Some s3"
      "global_regions s3 = regions_new 20 30 0 10 3 # global_regions s2"
      "length (gpregs (frame (proc_on s3 (who_am_i env)))) = 32"
    using os_add_region_correct [OF 2(3), of hs sy os 20 30 0 10 3] by auto
  show thesis
  proof (rule that [OF 1(1) 2(1) 3(1)])
    show "\<exists>s4. os_get_region hs sy os env s3 x y = Some (s4,
      let px = x * 100 div 0x8000; py = y * 100 div 0x8000
      in if py \<le> 10 \<and> 20 \<le> px \<and> px \<le> 30 then 3 else if py \<le> 10 \<and> 10 \<le> px \<and> px \<le> 20 then 2
         else if py \<le> 10 \<and> px \<le> 10 then 1
         else word_of_int (regions_value_of_point (global_regions s) px py))" for x y
      using os_get_region_correct [OF 3(3), of hs sy os x y] 1(2) 2(2) 3(2)
      by (auto simp: pixel_in_range_iff regions_new_def Let_def)
  qed
qed

lemma user_mstrlen_cstr:
  "cstr m s str \<Longrightarrow> s \<noteq> NULL \<Longrightarrow> unat s + length str < 2 ^ 64 \<Longrightarrow> user_mstrlen m s = Some (int (length str))"
proof (induction str arbitrary: s)
  case (Cons c str)
  have "unat (s + 1) = unat s + 1" using Cons.prems(3) by (simp add: unat_word_ariths)
  then have "s + 1 \<noteq> NULL" "unat (s + 1) + length str < 2 ^ 64" using Cons.prems(3) by auto
  then show ?case using Cons by (simp add: user_mstrlen.simps)
qed (simp add: user_mstrlen.simps)

section \<open>Events and synchronisations\<close>

text \<open>Further synchronisations may come between the events: they fill up the batches.\<close>

inductive padded :: "input_event list \<Rightarrow> input_event list \<Rightarrow> bool" where
  Nil: "padded [] []"
| Event: "padded es es' \<Longrightarrow> padded (e # es) (e # es')"
| Sync: "padded es es' \<Longrightarrow> padded es (sync_event # es')"

lemma padded_append: "padded as as' \<Longrightarrow> padded bs bs' \<Longrightarrow> padded (as @ bs) (as' @ bs')"
  by (induction rule: padded.induct) (auto intro: padded.intros)

lemma padded_refl: "padded es es"
  by (induction es) (auto intro: padded.intros)

lemma padded_replicate: "padded [] (replicate k sync_event)"
  by (induction k) (auto intro: padded.intros)

lemma padded_batches: "padded (concat chunks) (concat (map (\<lambda>c. c @ replicate (50 - length c) sync_event) chunks))"
proof (induction chunks)
  case (Cons c chunks)
  from padded_append [OF padded_append [OF padded_refl [of c] padded_replicate] Cons] show ?case by simp
qed (simp add: padded.Nil)

text \<open>After both coordinates, and only then, the programs wait for a synchronisation.\<close>

definition waits :: "input_state_states \<Rightarrow> bool" where
  "waits st \<longleftrightarrow> st \<notin> {Input_state_init, Input_state_default, Input_state_xpos}"

fun synced :: "(paint_vars \<Rightarrow> input_event \<Rightarrow> paint_vars \<times> os_request list) \<Rightarrow> paint_vars \<Rightarrow> input_event list \<Rightarrow> bool" where
  "synced step v [] \<longleftrightarrow> True"
| "synced step v (e # es) \<longleftrightarrow> (waits (pv_state v) \<longrightarrow> e = sync_event) \<and> synced step (fst (step v e)) es"

lemma paint_sync:
  "paint_event gr junk w h v sync_event = (if waits (pv_state v) then v\<lparr>pv_state := Input_state_default\<rparr> else v, [])"
  by (cases "pv_state v") (simp_all add: paint_event_def waits_def)

lemma paint_padded:
  "padded es es' \<Longrightarrow> synced (paint_event gr junk w h) v es \<Longrightarrow>
   snd (run_events (paint_event gr junk w h) v es') = snd (run_events (paint_event gr junk w h) v es)"
proof (induction arbitrary: v rule: padded.induct)
  case (Event es es' e)
  then show ?case by (cases "paint_event gr junk w h v e") (simp add: case_prod_beta)
next
  case (Sync es es')
  let ?step = "paint_event gr junk w h" and ?v = "v\<lparr>pv_state := Input_state_default\<rparr>"
  show ?case
  proof (cases "waits (pv_state v)")
    case True
    have d: "\<not> waits (pv_state ?v)" by (simp add: waits_def)
    have "synced ?step ?v es \<and> snd (run_events ?step ?v es) = snd (run_events ?step v es)"
    proof (cases es)
      case (Cons e es1)
      then have "e = sync_event" "synced ?step ?v es1" using Sync.prems True by (auto simp: paint_sync)
      then show ?thesis using Cons d True by (simp add: paint_sync case_prod_beta)
    qed simp
    then show ?thesis using Sync.IH [of ?v] True by (simp add: paint_sync case_prod_beta)
  next
    case False
    then show ?thesis using Sync by (simp add: paint_sync case_prod_beta)
  qed
qed simp

section \<open>What the program paints\<close>

text \<open>Its meaning on gestures: the colour, whether the button is down, and the place of the cursor.\<close>

definition picked :: "int \<Rightarrow> pixel \<Rightarrow> pixel" where
  "picked region c = (if region = 1 then pixel_red else if region = 2 then pixel_green else if region = 3 then pixel_blue else c)"

fun painted :: "(input_cursor_position \<Rightarrow> int) \<Rightarrow> (input_cursor_position \<Rightarrow> pixel \<Rightarrow> os_request) \<Rightarrow>
    pixel \<Rightarrow> bool \<Rightarrow> input_cursor_position \<Rightarrow> gesture list \<Rightarrow> os_request list" where
  "painted region dot c down p [] = []"
| "painted region dot c down p (Move x y # gs) =
     (let q = \<lparr>icp_x = x, icp_y = y\<rparr> in (if down \<and> region q = 0 then [dot q c] else []) @ painted region dot c down q gs)"
| "painted region dot c down p (Press # gs) =
     (if region p = 0 then [dot p c] else []) @ painted region dot (picked (region p) c) True p gs"
| "painted region dot c down p (Release # gs) = painted region dot c False p gs"

lemma icp_eta [simp]: "p\<lparr>icp_x := x, icp_y := y\<rparr> = \<lparr>icp_x = x, icp_y = y\<rparr>" for p :: input_cursor_position
  by simp

lemma paint_gestures:
  assumes "pv_state v = Input_state_default"
  shows "synced (paint_event gr junk w h) v (concat (map gesture_events gs))" (is "?S v gs")
    and "snd (run_events (paint_event gr junk w h) v (concat (map gesture_events gs))) =
      painted (\<lambda>p. gr (icp_x p) (icp_y p)) (paint_dot w h) (pv_color v) (pv_pressed v) (pv_icp v) gs" (is "?P v gs")
proof -
  have "?S v gs \<and> ?P v gs" using assms
  proof (induction gs arbitrary: v)
    case (Cons g gs)
    then show ?case
      by (cases g) (simp_all add: paint_event_def waits_def Let_def picked_def case_prod_beta)
  qed simp
  then show "?S v gs" and "?P v gs" by simp_all
qed

lemma run_events_append:
  "run_events step v (as @ bs) = (let (v1, r1) = run_events step v as; (v2, r2) = run_events step v1 bs in (v2, r1 @ r2))"
  by (induction as arbitrary: v) (simp_all add: case_prod_beta)

lemma main_loop_events:
  assumes "\<And>v e. Sleep 1 \<notin> set (snd (step v e))"
  shows "fst (main_loop step v batches) = fst (run_events step v (concat batches))"
    and "filter (\<lambda>r. r \<noteq> Sleep 1) (snd (main_loop step v batches)) = snd (run_events step v (concat batches))"
proof -
  have ev: "Sleep 1 \<notin> set (snd (run_events step v es))" for v es
    by (induction es arbitrary: v) (simp_all add: assms case_prod_beta)
  have "fst (main_loop step v batches) = fst (run_events step v (concat batches)) \<and>
      filter (\<lambda>r. r \<noteq> Sleep 1) (snd (main_loop step v batches)) = snd (run_events step v (concat batches))"
  proof (induction batches arbitrary: v)
    case (Cons b bs)
    have "filter (\<lambda>r. r \<noteq> Sleep 1) (snd (run_events step v b)) = snd (run_events step v b)"
      using ev [of v b] by (auto simp: filter_id_conv)
    then show ?case using Cons by (simp add: run_events_append case_prod_beta)
  qed simp
  then show "fst (main_loop step v batches) = fst (run_events step v (concat batches))"
    and "filter (\<lambda>r. r \<noteq> Sleep 1) (snd (main_loop step v batches)) = snd (run_events step v (concat batches))" by simp_all
qed

lemma paint_no_sleep: "Sleep 1 \<notin> set (snd (paint_event gr junk w h v e))"
  by (auto simp: paint_event_def paint_dot_def Let_def)



text \<open>The batches are those the kernel fills from its ring of events.\<close>

lemma pop_events_batch:
  "rb_inv rb \<Longrightarrow> snd (pop_events n rb) = take n (rb_contents rb) @ replicate (n - length (rb_contents rb)) no_event \<and>
     rb_contents (fst (pop_events n rb)) = drop n (rb_contents rb)"
proof (induction n arbitrary: rb)
  case (Suc n)
  show ?case
  proof (cases "rb_occupied rb = 0")
    case True
    then have "ie_ring_buffer_pop rb = (rb\<lparr>rb_mutex := 1\<rparr>, no_event)" "rb_contents rb = []" by (rule pop_none)+
    then show ?thesis using Suc.IH [of "rb\<lparr>rb_mutex := 1\<rparr>"] Suc.prems by (simp add: case_prod_beta)
  next
    case False
    note p = pop_some [OF Suc.prems False]
    then show ?thesis using Suc.IH [OF p(1)] by (cases "ie_ring_buffer_pop rb") (simp add: case_prod_beta)
  qed
qed simp

definition dot_on_screen :: "u32 \<Rightarrow> u32 \<Rightarrow> os_request \<Rightarrow> bool" where
  "dot_on_screen w h r =
     (case r of Draw_circle c color \<Rightarrow> circle_radius c = 5 \<and> circle_x c < w \<and> circle_y c < h | _ \<Rightarrow> True)"

lemma scaled_below:
  assumes "(x :: u32) < 0x8000" "0 < w" "w \<le> 0x20000"
  shows "x * w div 0x8000 < w"
proof -
  have l: "unat x * unat w < unat w * 0x8000" using assms(1,2) by (simp add: word_less_nat_alt unat_gt_0)
  also have "\<dots> \<le> 2 ^ 32" using assms(3) by (simp add: word_le_nat_alt)
  finally have "unat x * unat w < 2 ^ 32" "unat x * unat w div 0x8000 < unat w"
    using less_mult_imp_div_less [OF l] by simp_all
  then have "unat (x * w) = unat x * unat w" "unat x * unat w div 0x8000 < unat w"
    by (simp_all add: unat_word_ariths)
  then show ?thesis by (simp add: word_less_nat_alt unat_div)
qed

definition cursor_in_range :: "paint_vars \<Rightarrow> bool" where
  "cursor_in_range v \<longleftrightarrow> icp_x (pv_icp v) < 0x8000 \<and> icp_y (pv_icp v) < 0x8000"

lemma paint_dot_on_screen:
  "icp_x p < 0x8000 \<Longrightarrow> icp_y p < 0x8000 \<Longrightarrow> 0 < w \<Longrightarrow> w \<le> 0x20000 \<Longrightarrow> 0 < h \<Longrightarrow> h \<le> 0x20000 \<Longrightarrow>
   dot_on_screen w h (paint_dot w h p c)"
  by (simp add: dot_on_screen_def paint_dot_def scaled_below)

lemma paint_event_on_screen:
  assumes "cursor_in_range v" "ev_type e = 3 \<longrightarrow> ev_value e < 0x8000" "0 < w" "w \<le> 0x20000" "0 < h" "h \<le> 0x20000"
  shows "cursor_in_range (fst (paint_event gr junk w h v e))"
    and "list_all (dot_on_screen w h) (snd (paint_event gr junk w h v e))"
proof -
  have p: "dot_on_screen w h (Put_char c)" for c by (simp add: dot_on_screen_def)
  show "cursor_in_range (fst (paint_event gr junk w h v e))"
    using assms(1,2) by (simp add: paint_event_def cursor_in_range_def Let_def)
  show "list_all (dot_on_screen w h) (snd (paint_event gr junk w h v e))"
    using assms by (simp add: paint_event_def cursor_in_range_def Let_def paint_dot_on_screen p)
qed

lemma paint_events_on_screen:
  assumes "0 < w" "w \<le> 0x20000" "0 < h" "h \<le> 0x20000"
  shows "cursor_in_range v \<Longrightarrow> list_all (\<lambda>e. ev_type e = 3 \<longrightarrow> ev_value e < 0x8000) es \<Longrightarrow>
    list_all (dot_on_screen w h) (snd (run_events (paint_event gr junk w h) v es))"
proof (induction es arbitrary: v)
  case (Cons e es)
  then show ?case
    using paint_event_on_screen [OF Cons.prems(1) _ assms, of e gr junk]
    by (simp add: case_prod_beta)
qed simp



end
