(* ===== verification/Spec2Isabelle.thy ===== *)
theory Spec2Isabelle
  imports Uart Vfs Minix3_Mkdir Sbi Elf_Image Syscall Boot Drivers Console Screen Picture
    Firmware_Calls Kernel_Traps User_Programs
begin

text \<open>
  \<^bold>\<open>A verification library for DucreuOS\<close>, a kernel for 64-bit RISC-V machines with its machine-mode
  firmware. File names are those of the repository; \<^verbatim>\<open>src/\<close> is the kernel, \<^verbatim>\<open>sbi/src/\<close> the firmware,
  \<^verbatim>\<open>user/\<close> the user programs.

  \<^bold>\<open>The program.\<close> The firmware boots the harts (hardware threads), answers supervisor calls and passes
  interrupts on. The kernel has a page allocator; on it stand the page tables, and on both the kernel
  heap (\<open>kmalloc\<close>) and the processes. The scheduler keeps the processes that wait and those that
  sleep in two linked lists ordered by run time and gives harts to them through the firmware. A trap
  of a process comes to the kernel's trap handler, which calls the scheduler, the drivers or the
  system calls; these copy between user and kernel memory, read the ring of input events, look up
  regions of the screen and draw. The virtual file system keeps a tree of directories above a Minix 3
  file system, which reads and writes the disk through the block driver.

  \<^bold>\<open>The theories\<close>, in the order of their dependence.

  \<^item> \<open>Kernel_Prelude\<close>: machine words, byte memory with 64-bit accesses, and the lemmas on them that
    the others share.
  \<^item> \<open>Mem_Utils\<close>, \<open>Strings\<close> (\<^verbatim>\<open>src/utils.c\<close>): the loops of \<open>memset\<close>, \<open>memcpy\<close>, \<open>memcmp\<close> in 8-byte and
    1-byte steps against byte-wise copies; the string routines on NUL-terminated strings in memory,
    splitting a command line into words, reading numbers, the integer square root.
  \<^item> \<open>Page\<close> (\<^verbatim>\<open>src/page.c\<close>): the bookkeeping bits of the page allocator. Lemmas: the invariant
    \<open>page_wf\<close> and that every operation keeps it; allocation is first fit, fails only without a run
    of free pages, and is undone by freeing. The locale \<open>page_source\<close> states what its clients rely
    on (an owned page is aligned and apart from others, a new page is zero and was not owned) and is
    interpreted on the allocator.
  \<^item> \<open>Mmu\<close> (\<^verbatim>\<open>src/mmu.c\<close>): three-level page tables in memory. A labelling of the tables by their paths
    (\<open>pt_shape\<close>) carries the proofs that mapping, mapping a range and unmapping change exactly the
    translations they should.
  \<^item> \<open>Uaccess\<close> (\<^verbatim>\<open>src/uaccess.c\<close>): copies between kernel and user, page by page through the table.
  \<^item> \<open>Kmalloc\<close> (\<^verbatim>\<open>src/kmalloc.c\<close>): the doubly linked list of free blocks on a store of nodes, shown to
    implement a list of blocks in address order; allocation, freeing with coalescing, and their round
    trip.
  \<^item> \<open>Fifo\<close>, \<open>Ring\<close>, \<open>Uart\<close> (\<^verbatim>\<open>src/ring.c\<close>, \<^verbatim>\<open>sbi/src/uart.c\<close>): a locale for bounded queues,
    interpreted on the ring of input events and on the firmware's ring of received bytes.
  \<^item> \<open>Lock\<close> (\<^verbatim>\<open>src/lock.c\<close>): mutexes and semaphores under every interleaving of threads, as a step
    relation.
  \<^item> \<open>Proc_List\<close>, \<open>Process\<close>, \<open>Sched\<close> (\<^verbatim>\<open>src/process.c\<close>, \<^verbatim>\<open>src/sched.c\<close>): the linked lists of processes as
    pointers, shown to implement sorted lists; process structures, creation and freeing; the
    scheduler, which loses no process and gives the hart to one of least run time.
  \<^item> \<open>Block\<close> (\<^verbatim>\<open>src/block.c\<close>): requests to the virtio queue and reads and writes of arbitrary ranges
    through whole blocks. The locale \<open>byte_store\<close> states the contract of a disk of bytes.
  \<^item> \<open>Minix3\<close>, \<open>Minix3_Zones\<close>, \<open>Minix3_Files\<close> (\<^verbatim>\<open>src/minix3.c\<close>): superblock, bitmaps and inodes; the
    direct, indirect and doubly indirect zones of a file; files and directories.
  \<^item> \<open>Minix3_Append\<close>, \<open>Minix3_Create\<close>, \<open>Minix3_Remove\<close>, \<open>Minix3_Mkdir\<close>: the layout of the disk and the
    invariant of files in their direct zones; a file reads as what was appended to it, a file that was
    created is found by its name, and one that was removed is not, with its inode and zones free again;
    the same for directories, with the two entries that each of them has.
  \<^item> \<open>Vfs\<close> (\<^verbatim>\<open>src/vfs.c\<close>): the tree of cached directories on a store of directories, the working
    directory, and the commands. The shown path is an invariant of all command sequences (and so of
    every session at the console).
  \<^item> \<open>Regions\<close>, \<open>Gpu\<close> (\<^verbatim>\<open>src/regions.c\<close>, \<^verbatim>\<open>src/gpu.c\<close>): the values of regions of the screen; filling
    rectangles and circles and showing a picture from a block device.
  \<^item> \<open>Elf\<close>, \<open>Elf_Image\<close> (\<^verbatim>\<open>src/elf.c\<close>): loading a program; through the mapping of the new process every
    address of its image reads the byte of the file that its last segment puts there.
  \<^item> \<open>Boot\<close> (\<^verbatim>\<open>src/main.c\<close>): the start of the kernel up to its heap, as a sequence of the operations of
    \<open>Page\<close>, \<open>Mmu\<close> and \<open>Kmalloc\<close>: the identity mapping and its flags.
  \<^item> \<open>Syscall\<close> (\<^verbatim>\<open>src/syscall.c\<close>, \<^verbatim>\<open>src/ostrap.c\<close>, \<^verbatim>\<open>src/plic.c\<close>): the kernel's state as a whole, the
    system calls, the trap handler and the interrupt controller.
  \<^item> \<open>Kernel_Traps\<close>: the state of the kernel under every sequence of traps on all harts: where processes
    are, and that all handlers keep it well formed.
  \<^item> \<open>Firmware_Calls\<close> (\<^verbatim>\<open>src/sbi.c\<close>): the kernel's calls to the firmware as traps of \<open>Sbi\<close>, and what spawning
    a process on another hart comes to.
  \<^item> \<open>Input\<close> (\<^verbatim>\<open>src/input.c\<close>): the interrupt handler that moves events from the devices to the ring.
  \<^item> \<open>Pcie\<close> (\<^verbatim>\<open>src/pcie.c\<close>): addresses of configuration spaces, memory windows of devices, and the lists
    of drivers and of interrupt handlers.
  \<^item> \<open>Virtio\<close> (\<^verbatim>\<open>src/include/virtio.h\<close>): queues of descriptor chains with their two rings, and the loop
    that waits for a request.
  \<^item> \<open>Gpu_Device\<close> (\<^verbatim>\<open>src/gpu.c\<close>): the requests to the GPU and the set-up of the screen. What the commands
    do is stated by a model of the device (\<open>gpu_exec\<close>); lemmas show that every request is a proper
    chain, is answered, and what is on the screen in the end.
  \<^item> \<open>Drivers\<close> (\<open>virtio_pcie_*_driver\<close>, \<^verbatim>\<open>src/rng.c\<close>, the scan in \<^verbatim>\<open>src/pcie.c\<close>): the handshake with a
    device, its queue, the buffers of input devices, random bytes; the scan of the buses, which runs
    the driver of each device with its own window.
  \<^item> \<open>Sbi\<close> (\<^verbatim>\<open>sbi/src/\<close>): the firmware: hart states, timer, interrupts, supervisor calls, booting. The
    life cycle of a hart is an invariant of all sequences of traps.

  \<^item> \<open>Console\<close> (\<^verbatim>\<open>src/main.c\<close>): the line editor, shown to implement an editor on strings; the calls that
    each command makes; sessions, in which the file commands act on \<open>Vfs\<close>.
  \<^item> \<open>Screen\<close>, \<open>Picture\<close> (\<^verbatim>\<open>src/gpu.c\<close>, \<^verbatim>\<open>src/vfs.c\<close>): the programs that follow the cursor, from the ring of
    events to the display, and a picture in a file on the display.
  \<^item> \<open>User_Programs\<close> (\<^verbatim>\<open>user/\<close>): the system call stubs as traps of \<open>Syscall\<close>, and the painting program
    and the slider as the requests they make of the kernel; the painting program against the meaning
    of the gestures that it reads.

  \<^bold>\<open>Conventions.\<close> Structures are records with the fields of the code, enumerations datatypes, and C
  integers words of their width, so that sums and products wrap as they do in C; \<open>int\<close> and \<open>nat\<close>
  stand for counters the code keeps far from their bounds. A function that changes memory or a
  structure takes it and returns it. Loops whose counter ends them are recursive functions; a loop
  that may run for ever is a partial function whose value is \<open>None\<close> then, and \<open>None\<close> also stands for
  a NULL or freed pointer that is followed, a buffer that overflows and a lock that is never
  released. The theorems say for which inputs the result is not \<open>None\<close>. Fuel is used only in
  \<open>mmu_free\<close>, where it bounds the depth of the recursion on tables.

  \<^bold>\<open>Parameters.\<close> Not under our control, and arguments of the definitions, are: the answers of the
  firmware to the kernel (which hart runs, the state of other harts, the clock), the addresses of
  linker symbols and of assembly routines, the virtio devices (what they do with a notified request and
  with a write to their registers; the theorems take the documented behaviour as a hypothesis), what
  is plugged into the buses, the registers of the UART and the interrupt that was claimed, what the
  drivers do with an interrupt, the addresses of newly allocated list nodes, and the value of
  variables the code reads before setting them. Printing is left out; a function that only prints a
  result returns what it prints.

  \<^bold>\<open>Not modelled.\<close> The assembly files: saving and restoring registers around a trap, the entry of a hart
  and the idle loop. \<^verbatim>\<open>printf.c\<close>, which is a vendored library, and the functions that only print
  (\<^verbatim>\<open>src/virtio.c\<close>, \<^verbatim>\<open>src/joeyD.c\<close>, \<^verbatim>\<open>src/pog.c\<close> and others). Memory is that of one hart at a time: the code
  holds a lock where it shares structures, and \<open>Lock\<close> treats the interleavings of the locks themselves.

  \<^bold>\<open>What is left.\<close> Appending, creating and removing are treated for files that stay in their seven direct
  zones; the walker's allocation of indirect zones (\<open>walk_I\<close> to \<open>walk_III\<close> with \<open>do_set\<close>) is defined, not specified.
\<close>

end
